(* ===== verification/Prelude.thy ===== *)
theory Prelude
  imports Main "HOL-Library.Word"
begin

text \<open>
  What every component shares: the C integer types at their width, byte strings in little
  endian order, the flat byte memory with its loads and stores, and the outcome type of
  code that may run out of fuel or leave the defined part of C.  The lemmas here carry the
  memory and word reasoning of the component theories.
\<close>

unbundle bit_operations_syntax

section \<open>Names of the machine types\<close>

type_synonym byte = "8 word"
type_synonym addr = "64 word"
type_synonym size_t = "64 word"
type_synonym pb_size_t = "32 word"
type_synonym bytemem = "64 word \<Rightarrow> 8 word"

text \<open>
  Rules that rewrite a byte-string operation on a concrete length, facts on \<^const>\<open>unat\<close> of
  size arithmetic, and facts on loads after stores.
\<close>

named_theorems size_arith
named_theorems mem_simps

section \<open>Outcomes\<close>

text \<open>
  A piece of code returns a value, is stopped because the fuel of the model is used up, or
  does something C leaves undefined (a call through a null function pointer).
\<close>

datatype 'a run = Ret 'a | OutOfFuel | Undefined

primrec run_bind :: "'a run \<Rightarrow> ('a \<Rightarrow> 'b run) \<Rightarrow> 'b run" where
  "run_bind (Ret x) f = f x"
| "run_bind OutOfFuel f = OutOfFuel"
| "run_bind Undefined f = Undefined"

lemma run_bind_Ret_right [simp]: "run_bind r Ret = r"
  by (cases r) simp_all

lemma run_bind_assoc: "run_bind (run_bind r f) g = run_bind r (\<lambda>x. run_bind (f x) g)"
  by (cases r) simp_all

lemma run_bind_eq_Ret: "run_bind r f = Ret y \<longleftrightarrow> (\<exists>x. r = Ret x \<and> f x = Ret y)"
  by (cases r) simp_all

lemma run_bind_eq_OutOfFuel:
  "run_bind r f = OutOfFuel \<longleftrightarrow> r = OutOfFuel \<or> (\<exists>x. r = Ret x \<and> f x = OutOfFuel)"
  by (cases r) simp_all

lemma run_bind_eq_Undefined:
  "run_bind r f = Undefined \<longleftrightarrow> r = Undefined \<or> (\<exists>x. r = Ret x \<and> f x = Undefined)"
  by (cases r) simp_all

lemmas run_bind_iffs = run_bind_eq_Ret run_bind_eq_OutOfFuel run_bind_eq_Undefined

section \<open>Sizes\<close>

lemma unat_minus_le [size_arith]: "b \<le> a \<Longrightarrow> unat (a - b) = unat a - unat (b :: 'a :: len word)"
  by (simp add: unat_sub)

lemma unat_lt_nonzero: "a < b \<Longrightarrow> 0 < unat (b :: 'a :: len word)"
  by (metis gr_zeroI not_less_zero unat_0 word_less_nat_alt)

lemma unat_dec [size_arith]: "a \<noteq> 0 \<Longrightarrow> unat (a - 1) = unat (a :: 'a :: len word) - 1"
  by (simp add: unat_minus_one)

lemma unat_plus_if_small [size_arith]:
  "unat a + unat b < 2 ^ LENGTH('a) \<Longrightarrow> unat (a + b) = unat a + unat (b :: 'a :: len word)"
  by (simp add: unat_add_lem)

lemma unat_32_le: "unat (w :: 32 word) \<le> 2 ^ 64"
  using unsigned_less [of w, where 'a = nat] by simp

lemma unat_32_less: "unat (w :: 32 word) < 2 ^ 32"
  using unsigned_less [of w, where 'a = nat] by simp

lemma unat_ucast_32 [simp]: "unat (ucast (w :: 32 word) :: 64 word) = unat w"
  using unat_32_less [of w] by (simp add: unsigned_ucast_eq take_bit_nat_eq_self)

section \<open>The masks of the wire format\<close>

lemma and_127_take_bit: "x AND 127 = take_bit 7 (x :: 'a :: len word)"
  by (simp add: take_bit_eq_mask mask_eq_exp_minus_1)

lemma and_128_bit: "x AND 128 = 0 \<longleftrightarrow> \<not> bit (x :: 'a :: len word) 7"
  using and_exp_eq_0_iff_not_bit [of x 7] by simp

lemma bit_128: "bit (128 :: 'a :: len word) n \<longleftrightarrow> n = 7 \<and> n < LENGTH('a)"
  using bit_exp_iff [of 7 n, where 'a = "'a word"] by auto

lemma le_127_bits: "v \<le> 127 \<longleftrightarrow> drop_bit 7 v = (0 :: 64 word)"
proof -
  have "unat (drop_bit 7 v) = unat v div 128"
    by (simp add: unat_drop_bit_eq drop_bit_eq_div unat_div)
  then have "drop_bit 7 v = 0 \<longleftrightarrow> unat v div 128 = 0"
    by (metis unat_eq_0)
  then show ?thesis by (auto simp: word_le_nat_alt div_eq_0_iff)
qed

lemma low_and_rest:
  "push_bit n (take_bit 7 v) OR push_bit (n + 7) (drop_bit 7 v) = push_bit n (v :: 'a :: len word)"
proof (rule bit_word_eqI)
  fix m assume "m < LENGTH('a)"
  moreover have "7 + (m - (n + 7)) = m - n" if "n + 7 \<le> m" using that by simp
  ultimately show "bit (push_bit n (take_bit 7 v) OR push_bit (n + 7) (drop_bit 7 v)) m
      = bit (push_bit n v) m"
    by (cases "n + 7 \<le> m") (auto simp: bit_simps)
qed

lemma drop_bit_zero_mono: "drop_bit m v = 0 \<Longrightarrow> m \<le> n \<Longrightarrow> drop_bit n v = (0 :: 'a :: len word)"
  using drop_bit_drop_bit [of "n - m" m v] by simp

lemma drop_bit_zero_bit: "drop_bit n v = 0 \<Longrightarrow> bit (v :: 'a :: len word) m \<Longrightarrow> m < n"
proof (rule ccontr)
  assume zero: "drop_bit n v = 0" and set: "bit v m" and "\<not> m < n"
  then have "bit (drop_bit n v) (m - n) = bit v m" unfolding bit_drop_bit_eq by simp
  then show False using zero set by simp
qed

lemma and_255_byte: "(ucast (x AND 255 :: 'a :: len word) :: byte) = ucast x"
proof (rule bit_word_eqI)
  fix n assume "n < LENGTH(8)"
  then have "bit (255 :: 'a word) n \<or> LENGTH('a) \<le> n"
    using bit_mask_iff [of 8 n, where 'a = "'a word"] by (auto simp: mask_eq_exp_minus_1)
  then show "bit (ucast (x AND 255 :: 'a word) :: byte) n = bit (ucast x :: byte) n"
    using bit_imp_le_length [of x n] by (auto simp: bit_simps)
qed

section \<open>Little endian byte strings\<close>

primrec le_bytes :: "nat \<Rightarrow> 'a :: len word \<Rightarrow> byte list" where
  "le_bytes 0 w = []"
| "le_bytes (Suc n) w = ucast w # le_bytes n (drop_bit 8 w)"

primrec le_word :: "byte list \<Rightarrow> 'a :: len word" where
  "le_word [] = 0"
| "le_word (b # bs) = ucast b OR push_bit 8 (le_word bs)"

lemma length_le_bytes [simp]: "length (le_bytes n w) = n"
  by (induction n arbitrary: w) simp_all

lemma le_word_le_bytes_take: "le_word (le_bytes n w) = take_bit (8 * n) (w :: 'a :: len word)"
proof (induction n arbitrary: w)
  case 0
  then show ?case by simp
next
  case (Suc n)
  show ?case
  proof (rule bit_word_eqI)
    fix k assume k: "k < LENGTH('a)"
    have "le_word (le_bytes (Suc n) w)
        = (ucast (ucast w :: byte) OR push_bit 8 (take_bit (8 * n) (drop_bit 8 w)) :: 'a word)"
      by (simp add: Suc.IH)
    then show "bit (le_word (le_bytes (Suc n) w) :: 'a word) k = bit (take_bit (8 * Suc n) w) k"
      using k by (auto simp: bit_or_iff bit_push_bit_iff bit_take_bit_iff bit_drop_bit_eq bit_simps)
  qed
qed

lemma le_word_le_bytes:
  assumes "LENGTH('a) \<le> 8 * n"
  shows "le_word (le_bytes n w) = (w :: 'a :: len word)"
proof -
  have "take_bit (8 * n) w = w"
    using assms by (simp add: take_bit_word_eq_self)
  then show ?thesis by (simp add: le_word_le_bytes_take)
qed

lemma le_bytes_le_word:
  "8 * length bs \<le> LENGTH('a) \<Longrightarrow> le_bytes (length bs) (le_word bs :: 'a :: len word) = bs"
proof (induction bs)
  case Nil
  then show ?case by simp
next
  case (Cons b bs)
  then have len: "8 * length bs + 8 \<le> LENGTH('a)" by simp
  let ?w = "le_word bs :: 'a word"
  have hd_eq: "ucast (ucast b OR push_bit 8 ?w) = b"
    by (rule bit_word_eqI) (use len in \<open>auto simp: bit_simps\<close>)
  have trunc: "take_bit (8 * length bs) ?w = ?w"
    using Cons.IH len le_word_le_bytes_take [of "length bs" ?w] by simp
  have "drop_bit 8 (ucast b OR push_bit 8 ?w) = ?w"
  proof (rule bit_word_eqI)
    fix k assume "k < LENGTH('a)"
    have up: "bit ?w k \<Longrightarrow> k < 8 * length bs"
      by (metis bit_take_bit_iff trunc)
    have "\<not> bit b (8 + k)" by (simp add: bit_word.rep_eq)
    then show "bit (drop_bit 8 (ucast b OR push_bit 8 ?w)) k = bit ?w k"
      using len up by (auto simp: bit_simps)
  qed
  with Cons.IH len hd_eq show ?case by simp
qed

section \<open>The flat byte memory\<close>

primrec load_bytes :: "bytemem \<Rightarrow> addr \<Rightarrow> nat \<Rightarrow> byte list" where
  "load_bytes m a 0 = []"
| "load_bytes m a (Suc n) = m a # load_bytes m (a + 1) n"

primrec store_bytes :: "bytemem \<Rightarrow> addr \<Rightarrow> byte list \<Rightarrow> bytemem" where
  "store_bytes m a [] = m"
| "store_bytes m a (b # bs) = store_bytes (m(a := b)) (a + 1) bs"

definition load_le :: "bytemem \<Rightarrow> addr \<Rightarrow> nat \<Rightarrow> 'a :: len word" where
  "load_le m a n = le_word (load_bytes m a n)"

definition store_le :: "bytemem \<Rightarrow> addr \<Rightarrow> nat \<Rightarrow> 'a :: len word \<Rightarrow> bytemem" where
  "store_le m a n w = store_bytes m a (le_bytes n w)"

definition extent :: "addr \<Rightarrow> nat \<Rightarrow> addr set" where
  "extent a n = {x. unat (x - a) < n}"

definition apart :: "addr \<Rightarrow> nat \<Rightarrow> addr \<Rightarrow> nat \<Rightarrow> bool" where
  "apart a n b k \<longleftrightarrow> extent a n \<inter> extent b k = {}"

lemma length_load_bytes [simp]: "length (load_bytes m a n) = n"
  by (induction n arbitrary: a) simp_all

lemma unat_of_nat_32: "i < 2 ^ 32 \<Longrightarrow> unat (of_nat i :: 32 word) = i"
  by (simp add: unat_of_nat)

lemma unat_of_nat_addr: "i < 2 ^ 64 \<Longrightarrow> unat (of_nat i :: addr) = i"
  by (simp add: unat_of_nat)

lemma unat_minus_one_addr: "unat (- 1 :: addr) = 2 ^ 64 - 1"
  by (simp add: unat_eq_nat_uint uint_word_ariths)

lemma unat_pred_offset:
  "x \<noteq> a \<Longrightarrow> unat (x - (a + 1)) = unat (x - a) - 1" for x a :: addr
  using unat_dec [of "x - a"] by (simp add: algebra_simps)

lemma store_bytes_apply:
  assumes "length bs \<le> 2 ^ 64"
  shows "store_bytes m a bs x = (if unat (x - a) < length bs then bs ! unat (x - a) else m x)"
  using assms
proof (induction bs arbitrary: m a)
  case Nil
  then show ?case by simp
next
  case (Cons b bs)
  then have IH: "store_bytes (m(a := b)) (a + 1) bs x
      = (if unat (x - (a + 1)) < length bs then bs ! unat (x - (a + 1)) else (m(a := b)) x)"
    by simp
  show ?case
  proof (cases "x = a")
    case True
    have "unat (- 1 :: addr) = 2 ^ 64 - 1" by (rule unat_minus_one_addr)
    with True Cons.prems IH show ?thesis by simp
  next
    case False
    then have "0 < unat (x - a)" by (simp add: unat_gt_0)
    with False IH show ?thesis
      by (auto simp: unat_pred_offset nth_Cons split: nat.splits)
  qed
qed

lemma nth_load_bytes: "i < n \<Longrightarrow> load_bytes m a n ! i = m (a + of_nat i)"
proof (induction n arbitrary: a i)
  case 0
  then show ?case by simp
next
  case (Suc n)
  then show ?case by (cases i) (simp_all add: algebra_simps)
qed

lemma load_bytes_cong:
  assumes "\<And>x. x \<in> extent a n \<Longrightarrow> m x = m' x" and "n \<le> 2 ^ 64"
  shows "load_bytes m a n = load_bytes m' a n"
proof (rule nth_equalityI)
  fix i assume "i < length (load_bytes m a n)"
  then have i: "i < n" by simp
  then have "unat (of_nat i :: addr) = i" using assms(2) i by (simp add: unat_of_nat_addr)
  then have "a + of_nat i \<in> extent a n" using i by (simp add: extent_def)
  then show "load_bytes m a n ! i = load_bytes m' a n ! i"
    using i assms(1) by (simp add: nth_load_bytes)
qed simp

lemma load_store_bytes_same [mem_simps]:
  assumes "length bs = n" and "n \<le> 2 ^ 64"
  shows "load_bytes (store_bytes m a bs) a n = bs"
proof (rule nth_equalityI)
  fix i assume "i < length (load_bytes (store_bytes m a bs) a n)"
  then have i: "i < n" by simp
  moreover have "unat (of_nat i :: addr) = i" using assms(2) i by (simp add: unat_of_nat_addr)
  ultimately show "load_bytes (store_bytes m a bs) a n ! i = bs ! i"
    using assms by (simp add: nth_load_bytes store_bytes_apply)
qed (simp add: assms)

lemma store_bytes_outside [mem_simps]:
  "length bs \<le> 2 ^ 64 \<Longrightarrow> x \<notin> extent a (length bs) \<Longrightarrow> store_bytes m a bs x = m x"
  by (simp add: store_bytes_apply extent_def)

lemma load_store_bytes_apart [mem_simps]:
  assumes "apart a n b (length bs)" and "n \<le> 2 ^ 64" and "length bs \<le> 2 ^ 64"
  shows "load_bytes (store_bytes m b bs) a n = load_bytes m a n"
proof (rule load_bytes_cong)
  fix x assume "x \<in> extent a n"
  then have "x \<notin> extent b (length bs)" using assms(1) by (auto simp: apart_def)
  then show "store_bytes m b bs x = m x" using assms(3) by (simp add: store_bytes_outside)
qed (rule assms(2))

lemma load_le_store_le_same [mem_simps]:
  "LENGTH('a) \<le> 8 * n \<Longrightarrow> n \<le> 2 ^ 64 \<Longrightarrow> load_le (store_le m a n w) a n = (w :: 'a :: len word)"
  by (simp add: load_le_def store_le_def load_store_bytes_same le_word_le_bytes)

lemma load_le_store_le_apart [mem_simps]:
  "apart a n b k \<Longrightarrow> n \<le> 2 ^ 64 \<Longrightarrow> k \<le> 2 ^ 64 \<Longrightarrow>
    load_le (store_le m b k v) a n = load_le m a n"
  by (simp add: load_le_def store_le_def load_store_bytes_apart)

lemma store_le_outside [mem_simps]:
  "n \<le> 2 ^ 64 \<Longrightarrow> x \<notin> extent a n \<Longrightarrow> store_le m a n w x = m x"
  by (simp add: store_le_def store_bytes_outside)

lemma extent_mono: "n \<le> k \<Longrightarrow> extent a n \<subseteq> extent a k"
  by (auto simp: extent_def)

lemma extent_empty [simp]: "extent a 0 = {}"
  by (simp add: extent_def)

lemma extent_sub:
  assumes "unat (b - a) + n \<le> k" and "k \<le> 2 ^ 64"
  shows "extent b n \<subseteq> extent a k"
proof
  fix x assume "x \<in> extent b n"
  then have x: "unat (x - b) < n" by (simp add: extent_def)
  have "x - a = (x - b) + (b - a)" by simp
  then have "unat (x - a) = unat (x - b) + unat (b - a)"
    using x assms unat_plus_if_small [of "x - b" "b - a"] by simp
  with x assms show "x \<in> extent a k" by (simp add: extent_def)
qed

lemma apart_mono: "apart a n b k \<Longrightarrow> n' \<le> n \<Longrightarrow> k' \<le> k \<Longrightarrow> apart a n' b k'"
  unfolding apart_def using extent_mono by blast

lemma apart_sym: "apart a n b k \<longleftrightarrow> apart b k a n"
  by (auto simp: apart_def)

lemma apart_above:
  assumes "n \<le> unat (b - a)" and "unat (b - a) + k \<le> 2 ^ 64"
  shows "apart a n b k"
proof -
  have "unat (x - a) \<ge> n" if "unat (x - b) < k" for x
  proof -
    have "x - a = (x - b) + (b - a)" by simp
    then show ?thesis
      using that assms unat_plus_if_small [of "x - b" "b - a"] by simp
  qed
  then show ?thesis by (fastforce simp: apart_def extent_def)
qed

end
