(* ===== verification/Pb_Types.thy ===== *)
theory Pb_Types
  imports Prelude
begin

text \<open>
  The data of \<^verbatim>\<open>nanopb/pb.h\<close> in the configuration this project builds it with
  (\<^verbatim>\<open>PB_FIELD_32BIT\<close>, \<^verbatim>\<open>PB_ENABLE_MALLOC\<close>, \<^verbatim>\<open>PB_NO_PACKED_STRUCTS\<close>, error messages on, on a
  64-bit little endian target): the field type codes, the field descriptor, the memory the
  message structs live in, and the allocator and user callbacks as parameters.
\<close>

section \<open>Field type codes\<close>

type_synonym pb_type_t = "8 word"

abbreviation (input) PB_LTYPE_BOOL :: pb_type_t where "PB_LTYPE_BOOL \<equiv> 0x00"
abbreviation (input) PB_LTYPE_VARINT :: pb_type_t where "PB_LTYPE_VARINT \<equiv> 0x01"
abbreviation (input) PB_LTYPE_UVARINT :: pb_type_t where "PB_LTYPE_UVARINT \<equiv> 0x02"
abbreviation (input) PB_LTYPE_SVARINT :: pb_type_t where "PB_LTYPE_SVARINT \<equiv> 0x03"
abbreviation (input) PB_LTYPE_FIXED32 :: pb_type_t where "PB_LTYPE_FIXED32 \<equiv> 0x04"
abbreviation (input) PB_LTYPE_FIXED64 :: pb_type_t where "PB_LTYPE_FIXED64 \<equiv> 0x05"
abbreviation (input) PB_LTYPE_LAST_PACKABLE :: pb_type_t where "PB_LTYPE_LAST_PACKABLE \<equiv> 0x05"
abbreviation (input) PB_LTYPE_BYTES :: pb_type_t where "PB_LTYPE_BYTES \<equiv> 0x06"
abbreviation (input) PB_LTYPE_STRING :: pb_type_t where "PB_LTYPE_STRING \<equiv> 0x07"
abbreviation (input) PB_LTYPE_SUBMESSAGE :: pb_type_t where "PB_LTYPE_SUBMESSAGE \<equiv> 0x08"
abbreviation (input) PB_LTYPE_EXTENSION :: pb_type_t where "PB_LTYPE_EXTENSION \<equiv> 0x09"
abbreviation (input) PB_LTYPE_FIXED_LENGTH_BYTES :: pb_type_t where "PB_LTYPE_FIXED_LENGTH_BYTES \<equiv> 0x0A"
abbreviation (input) PB_LTYPES_COUNT :: pb_type_t where "PB_LTYPES_COUNT \<equiv> 0x0B"
abbreviation (input) PB_LTYPE_MASK :: pb_type_t where "PB_LTYPE_MASK \<equiv> 0x0F"

abbreviation (input) PB_HTYPE_REQUIRED :: pb_type_t where "PB_HTYPE_REQUIRED \<equiv> 0x00"
abbreviation (input) PB_HTYPE_OPTIONAL :: pb_type_t where "PB_HTYPE_OPTIONAL \<equiv> 0x10"
abbreviation (input) PB_HTYPE_REPEATED :: pb_type_t where "PB_HTYPE_REPEATED \<equiv> 0x20"
abbreviation (input) PB_HTYPE_ONEOF :: pb_type_t where "PB_HTYPE_ONEOF \<equiv> 0x30"
abbreviation (input) PB_HTYPE_MASK :: pb_type_t where "PB_HTYPE_MASK \<equiv> 0x30"

abbreviation (input) PB_ATYPE_STATIC :: pb_type_t where "PB_ATYPE_STATIC \<equiv> 0x00"
abbreviation (input) PB_ATYPE_POINTER :: pb_type_t where "PB_ATYPE_POINTER \<equiv> 0x80"
abbreviation (input) PB_ATYPE_CALLBACK :: pb_type_t where "PB_ATYPE_CALLBACK \<equiv> 0x40"
abbreviation (input) PB_ATYPE_MASK :: pb_type_t where "PB_ATYPE_MASK \<equiv> 0xC0"

definition PB_ATYPE :: "pb_type_t \<Rightarrow> pb_type_t" where "PB_ATYPE x = x AND PB_ATYPE_MASK"
definition PB_HTYPE :: "pb_type_t \<Rightarrow> pb_type_t" where "PB_HTYPE x = x AND PB_HTYPE_MASK"
definition PB_LTYPE :: "pb_type_t \<Rightarrow> pb_type_t" where "PB_LTYPE x = x AND PB_LTYPE_MASK"

lemmas pb_type_defs = PB_ATYPE_def PB_HTYPE_def PB_LTYPE_def

text \<open>\<^verbatim>\<open>(pb_size_t)-1\<close> with 32-bit sizes.\<close>

abbreviation (input) PB_SIZE_MAX :: pb_size_t where "PB_SIZE_MAX \<equiv> 0xFFFFFFFF"

text \<open>\<^verbatim>\<open>PB_MAX_REQUIRED_FIELDS\<close>, the number of required fields the decoder tracks.\<close>

abbreviation (input) PB_MAX_REQUIRED_FIELDS :: "32 word" where "PB_MAX_REQUIRED_FIELDS \<equiv> 64"

section \<open>Wire types\<close>

type_synonym pb_wire_type_t = "32 word"

abbreviation (input) PB_WT_VARINT :: pb_wire_type_t where "PB_WT_VARINT \<equiv> 0"
abbreviation (input) PB_WT_64BIT :: pb_wire_type_t where "PB_WT_64BIT \<equiv> 1"
abbreviation (input) PB_WT_STRING :: pb_wire_type_t where "PB_WT_STRING \<equiv> 2"
abbreviation (input) PB_WT_32BIT :: pb_wire_type_t where "PB_WT_32BIT \<equiv> 5"

section \<open>Field descriptors\<close>

text \<open>
  \<^verbatim>\<open>struct pb_field_s\<close>.  The signed \<^verbatim>\<open>size_offset\<close> is kept as its 32-bit pattern and sign
  extended where the code adds it to a pointer.  \<^verbatim>\<open>ptr\<close> is the address of the submessage's
  descriptor array or of the default value, 0 for NULL.
\<close>

record pb_field =
  tag :: pb_size_t
  ftype :: pb_type_t
  data_offset :: pb_size_t
  size_offset :: pb_size_t
  data_size :: pb_size_t
  array_size :: pb_size_t
  ptr :: addr

definition PB_LAST_FIELD :: pb_field where
  "PB_LAST_FIELD = \<lparr>tag = 0, ftype = 0, data_offset = 0, size_offset = 0,
    data_size = 0, array_size = 0, ptr = 0\<rparr>"

text \<open>
  A descriptor array is the list of its entries; a list without the terminating
  \<^verbatim>\<open>PB_LAST_FIELD\<close> is read as if it stood at its end.
\<close>

definition field_at :: "pb_field list \<Rightarrow> nat \<Rightarrow> pb_field" where
  "field_at fs i = (if i < length fs then fs ! i else PB_LAST_FIELD)"

section \<open>Memory and heap\<close>

text \<open>
  The bytes of memory, the live \<^verbatim>\<open>malloc\<close> blocks with their sizes, and whether a pointer that
  is neither NULL nor the start of a live block was ever passed to \<^verbatim>\<open>free\<close> or \<^verbatim>\<open>realloc\<close>.
\<close>

record heap =
  mem :: bytemem
  blocks :: "addr \<rightharpoonup> nat"
  bad_free :: bool

definition h_load :: "heap \<Rightarrow> addr \<Rightarrow> nat \<Rightarrow> 'a :: len word" where
  "h_load h a n = load_le (mem h) a n"

definition h_store :: "addr \<Rightarrow> nat \<Rightarrow> 'a :: len word \<Rightarrow> heap \<Rightarrow> heap" where
  "h_store a n w h = h\<lparr>mem := store_le (mem h) a n w\<rparr>"

definition h_write :: "addr \<Rightarrow> byte list \<Rightarrow> heap \<Rightarrow> heap" where
  "h_write a bs h = h\<lparr>mem := store_bytes (mem h) a bs\<rparr>"

definition h_memset0 :: "addr \<Rightarrow> nat \<Rightarrow> heap \<Rightarrow> heap" where
  "h_memset0 a n = h_write a (replicate n 0)"

definition h_memcpy :: "addr \<Rightarrow> addr \<Rightarrow> nat \<Rightarrow> heap \<Rightarrow> heap" where
  "h_memcpy a src n h = h_write a (load_bytes (mem h) src n) h"

abbreviation load_ptr :: "heap \<Rightarrow> addr \<Rightarrow> addr" where "load_ptr h a \<equiv> h_load h a 8"
abbreviation store_ptr :: "addr \<Rightarrow> addr \<Rightarrow> heap \<Rightarrow> heap" where "store_ptr a p \<equiv> h_store a 8 p"
abbreviation load_size :: "heap \<Rightarrow> addr \<Rightarrow> pb_size_t" where "load_size h a \<equiv> h_load h a 4"
abbreviation store_size :: "addr \<Rightarrow> pb_size_t \<Rightarrow> heap \<Rightarrow> heap" where "store_size a v \<equiv> h_store a 4 v"

definition store_bool :: "addr \<Rightarrow> bool \<Rightarrow> heap \<Rightarrow> heap" where
  "store_bool a b = h_store a 1 (if b then 1 else 0 :: byte)"

lemma h_store_frame [simp]:
  "blocks (h_store a n w h) = blocks h" "bad_free (h_store a n w h) = bad_free h"
  "mem (h_store a n w h) = store_le (mem h) a n w"
  by (simp_all add: h_store_def)

lemma h_write_frame [simp]:
  "blocks (h_write a bs h) = blocks h" "bad_free (h_write a bs h) = bad_free h"
  "mem (h_write a bs h) = store_bytes (mem h) a bs"
  by (simp_all add: h_write_def)

lemma h_memset0_frame [simp]:
  "blocks (h_memset0 a n h) = blocks h" "bad_free (h_memset0 a n h) = bad_free h"
  by (simp_all add: h_memset0_def)

lemma h_memcpy_frame [simp]:
  "blocks (h_memcpy a p n h) = blocks h" "bad_free (h_memcpy a p n h) = bad_free h"
  by (simp_all add: h_memcpy_def)

lemma store_bool_frame [simp]:
  "blocks (store_bool a b h) = blocks h" "bad_free (store_bool a b h) = bad_free h"
  by (simp_all add: store_bool_def)

lemma h_load_store_same [mem_simps]:
  "LENGTH('a) \<le> 8 * n \<Longrightarrow> n \<le> 2 ^ 64 \<Longrightarrow> h_load (h_store a n w h) a n = (w :: 'a :: len word)"
  by (simp add: h_load_def mem_simps)

lemma h_load_store_apart [mem_simps]:
  "apart a n b k \<Longrightarrow> n \<le> 2 ^ 64 \<Longrightarrow> k \<le> 2 ^ 64 \<Longrightarrow> h_load (h_store b k v h) a n = h_load h a n"
  by (simp add: h_load_def mem_simps)

section \<open>The C allocator\<close>

text \<open>
  \<^verbatim>\<open>realloc\<close> and \<^verbatim>\<open>free\<close>.  Which address \<^verbatim>\<open>realloc\<close> answers (0 when it fails) is a parameter of
  the model; moving the old contents and the bookkeeping of live blocks is the C standard's.
  A pointer that is not a live block is recorded in \<^const>\<open>bad_free\<close>.
\<close>

type_synonym allocator = "heap \<Rightarrow> addr \<Rightarrow> size_t \<Rightarrow> addr"

definition block_size :: "heap \<Rightarrow> addr \<Rightarrow> nat" where
  "block_size h p = (case blocks h p of None \<Rightarrow> 0 | Some n \<Rightarrow> n)"

definition pb_realloc :: "allocator \<Rightarrow> addr \<Rightarrow> size_t \<Rightarrow> heap \<Rightarrow> addr \<times> heap" where
  "pb_realloc alloc p n h =
     (if p \<noteq> 0 \<and> blocks h p = None then (0, h\<lparr>bad_free := True\<rparr>)
      else let q = alloc h p n in
        if q = 0 then (0, h)
        else (q, h\<lparr>mem := store_bytes (mem h) q
                            (load_bytes (mem h) p (min (block_size h p) (unat n))),
                   blocks := (blocks h)(p := None, q \<mapsto> unat n)\<rparr>))"

definition pb_free :: "addr \<Rightarrow> heap \<Rightarrow> heap" where
  "pb_free p h =
     (if p = 0 then h
      else if blocks h p = None then h\<lparr>bad_free := True\<rparr>
      else h\<lparr>blocks := (blocks h)(p := None)\<rparr>)"

lemma pb_free_mem [simp]: "mem (pb_free p h) = mem h"
  by (simp add: pb_free_def)

lemma pb_free_null [simp]: "pb_free 0 h = h"
  by (simp add: pb_free_def)

lemma pb_realloc_null_fails:
  "pb_realloc alloc p n h = (0, h') \<Longrightarrow> mem h' = mem h \<and> blocks h' = blocks h"
  by (auto simp: pb_realloc_def Let_def split: if_splits)

end
