(* ===== verification/Pb_Common.thy ===== *)
theory Pb_Common
  imports Pb_Types
begin

text \<open>
  The field iterator of \<^verbatim>\<open>nanopb/pb_common.c\<close>: it walks a descriptor array and, with pointer
  arithmetic on the descriptors' relative offsets, the struct the array describes.  The
  lemmas show that a walk visits every descriptor once and in order, that the search for a
  tag wraps around and is complete, and where the data pointer stands.
\<close>

section \<open>The iterator\<close>

record pb_field_iter =
  start :: "pb_field list"
  pos :: nat
  required_field_index :: "32 word"
  dest_struct :: addr
  pData :: addr
  pSize :: addr

definition cur :: "pb_field_iter \<Rightarrow> pb_field" where
  "cur it = field_at (start it) (pos it)"

text \<open>\<^verbatim>\<open>(char*)pData + pos->size_offset\<close>: the offset is signed.\<close>

definition size_ptr :: "addr \<Rightarrow> pb_field \<Rightarrow> addr" where
  "size_ptr p f = p + scast (size_offset f)"

definition pb_field_iter_begin :: "pb_field list \<Rightarrow> addr \<Rightarrow> bool \<times> pb_field_iter" where
  "pb_field_iter_begin fs dest =
     (let f = field_at fs 0; p = dest + ucast (data_offset f) in
      (tag f \<noteq> 0,
       \<lparr>start = fs, pos = 0, required_field_index = 0, dest_struct = dest,
        pData = p, pSize = size_ptr p f\<rparr>))"

text \<open>The bytes the field before the new one takes in the struct.\<close>

definition iter_prev_size :: "pb_field \<Rightarrow> size_t" where
  "iter_prev_size prev =
     (if PB_ATYPE (ftype prev) = PB_ATYPE_STATIC \<and> PB_HTYPE (ftype prev) = PB_HTYPE_REPEATED
      then ucast (data_size prev) * ucast (array_size prev)
      else if PB_ATYPE (ftype prev) = PB_ATYPE_POINTER then 8
      else ucast (data_size prev))"

text \<open>Inside a union the pointers stay where they are.\<close>

definition iter_in_union :: "pb_field \<Rightarrow> pb_field \<Rightarrow> bool" where
  "iter_in_union prev f \<longleftrightarrow>
     PB_HTYPE (ftype prev) = PB_HTYPE_ONEOF \<and> PB_HTYPE (ftype f) = PB_HTYPE_ONEOF \<and>
     data_offset f = PB_SIZE_MAX"

definition pb_field_iter_next :: "pb_field_iter \<Rightarrow> bool \<times> pb_field_iter" where
  "pb_field_iter_next it =
     (let prev = cur it in
      if tag prev = 0 then (False, it)
      else let f = field_at (start it) (Suc (pos it)) in
        if tag f = 0 then (False, snd (pb_field_iter_begin (start it) (dest_struct it)))
        else if iter_in_union prev f then (True, it\<lparr>pos := Suc (pos it)\<rparr>)
        else let p = pData it + iter_prev_size prev + ucast (data_offset f) in
          (True, it\<lparr>pos := Suc (pos it),
                   required_field_index :=
                     (if PB_HTYPE (ftype prev) = PB_HTYPE_REQUIRED
                      then required_field_index it + 1 else required_field_index it),
                   pData := p, pSize := size_ptr p f\<rparr>))"

text \<open>
  \<^verbatim>\<open>pb_field_iter_find\<close> and \<^verbatim>\<open>find_extension_field\<close> are the same loop with different tests: step
  until the test holds at the current entry or the position is back at where it began.  The
  first argument bounds the steps; as many steps as there are entries always suffice
  (\<open>find_spec\<close> below).
\<close>

primrec iter_search ::
  "nat \<Rightarrow> ('i \<Rightarrow> bool \<times> 'i) \<Rightarrow> ('i \<Rightarrow> bool) \<Rightarrow> ('i \<Rightarrow> bool) \<Rightarrow> 'i \<Rightarrow> bool \<times> 'i" where
  "iter_search 0 step found back it = (False, it)"
| "iter_search (Suc k) step found back it =
     (if found it then (True, it)
      else let it' = snd (step it) in
        if back it' then (False, it') else iter_search k step found back it')"

definition pb_field_iter_find :: "pb_field_iter \<Rightarrow> 32 word \<Rightarrow> bool \<times> pb_field_iter" where
  "pb_field_iter_find it t =
     iter_search (Suc (length (start it))) pb_field_iter_next
       (\<lambda>i. tag (cur i) = t \<and> PB_LTYPE (ftype (cur i)) \<noteq> PB_LTYPE_EXTENSION)
       (\<lambda>i. pos i = pos it) it"

definition find_extension_field :: "pb_field_iter \<Rightarrow> bool \<times> pb_field_iter" where
  "find_extension_field it =
     iter_search (Suc (length (start it))) pb_field_iter_next
       (\<lambda>i. PB_LTYPE (ftype (cur i)) = PB_LTYPE_EXTENSION)
       (\<lambda>i. pos i = pos it) it"

text \<open>
  The \<^verbatim>\<open>do { ... } while (pb_field_iter_next(&iter))\<close> loops of the encoder, of the default
  initialisation and of the release code.  The body answers whether the loop goes on.
\<close>

primrec do_fields ::
  "nat \<Rightarrow> ('i \<Rightarrow> bool \<times> 'i) \<Rightarrow> ('i \<Rightarrow> 's \<Rightarrow> (bool \<times> 's) run) \<Rightarrow> 'i \<Rightarrow> 's \<Rightarrow> (bool \<times> 's) run" where
  "do_fields 0 step body it s = OutOfFuel"
| "do_fields (Suc k) step body it s =
     run_bind (body it s) (\<lambda>(go, s').
       if \<not> go then Ret (False, s')
       else case step it of (False, _) \<Rightarrow> Ret (True, s')
          | (True, it') \<Rightarrow> do_fields k step body it' s')"

section \<open>Cursors over a finite sequence\<close>

text \<open>
  What the loops rely on: positions \<open>0..<n\<close>, a step from each to the next, and a step that
  reports the end and goes back to the first.
\<close>

locale cursor =
  fixes step :: "'i \<Rightarrow> bool \<times> 'i" and at :: "nat \<Rightarrow> 'i" and n :: nat and index :: "'i \<Rightarrow> nat"
  assumes step_next: "Suc i < n \<Longrightarrow> step (at i) = (True, at (Suc i))"
    and step_wrap: "Suc i = n \<Longrightarrow> step (at i) = (False, at 0)"
    and index_at: "i < n \<Longrightarrow> index (at i) = i"
begin

lemma at_eq_iff: "i < n \<Longrightarrow> j < n \<Longrightarrow> index (at i) = j \<longleftrightarrow> i = j"
  by (simp add: index_at)

lemma search_ahead:
  "i < from \<Longrightarrow> from < n \<Longrightarrow> from - i \<le> k \<Longrightarrow>
   iter_search k step found (\<lambda>it. index it = from) (at i) =
     (case List.find (\<lambda>j. found (at j)) [i..<from] of
        Some j \<Rightarrow> (True, at j) | None \<Rightarrow> (False, at from))"
proof (induction k arbitrary: i)
  case 0
  then show ?case by simp
next
  case (Suc k)
  then have split: "[i..<from] = i # [Suc i..<from]" by (simp add: upt_conv_Cons)
  show ?case
  proof (cases "Suc i = from")
    case True
    with Suc.prems split show ?thesis by (simp add: step_next index_at)
  next
    case False
    with Suc split show ?thesis by (simp add: step_next index_at)
  qed
qed

lemma search_around:
  "from \<le> i \<Longrightarrow> i < n \<Longrightarrow> n - i + from \<le> k \<Longrightarrow>
   iter_search k step found (\<lambda>it. index it = from) (at i) =
     (case List.find (\<lambda>j. found (at j)) ([i..<n] @ [0..<from]) of
        Some j \<Rightarrow> (True, at j) | None \<Rightarrow> (False, at from))"
proof (induction k arbitrary: i)
  case 0
  then show ?case by simp
next
  case (Suc k)
  then have split: "[i..<n] = i # [Suc i..<n]" by (simp add: upt_conv_Cons)
  show ?case
  proof (cases "Suc i < n")
    case True
    with Suc split show ?thesis by (simp add: step_next index_at)
  next
    case False
    with Suc.prems have i: "Suc i = n" by simp
    show ?thesis
    proof (cases "from = 0")
      case True
      with i split show ?thesis by (simp add: step_wrap index_at)
    next
      case False
      have "from < n" using Suc.prems by simp
      with False i split Suc.prems search_ahead [of 0 "from" k found]
      show ?thesis by (simp add: step_wrap index_at)
    qed
  qed
qed

theorem search_spec:
  assumes "i < n" and "n \<le> k"
  shows "iter_search k step found (\<lambda>it. index it = i) (at i) =
     (case List.find (\<lambda>j. found (at j)) ([i..<n] @ [0..<i]) of
        Some j \<Rightarrow> (True, at j) | None \<Rightarrow> (False, at i))"
  using assms by (intro search_around) simp_all

text \<open>
  A loop whose body always goes on visits the positions in order: it is a fold.
\<close>

lemma do_fields_fold_from:
  assumes "i < n" and "n - i \<le> k"
    and "\<And>j s. i \<le> j \<Longrightarrow> j < n \<Longrightarrow> body (at j) s = Ret (True, f j s)"
  shows "do_fields k step body (at i) s = Ret (True, fold f [i..<n] s)"
  using assms
proof (induction k arbitrary: i s)
  case 0
  then show ?case by simp
next
  case (Suc k)
  then have split: "[i..<n] = i # [Suc i..<n]" by (simp add: upt_conv_Cons)
  show ?case
  proof (cases "Suc i < n")
    case True
    with Suc split show ?thesis by (simp add: step_next)
  next
    case False
    with Suc.prems have "Suc i = n" by simp
    with Suc.prems split show ?thesis by (simp add: step_wrap)
  qed
qed

lemma do_fields_fold:
  assumes "0 < n" and "n \<le> k" and "\<And>j s. j < n \<Longrightarrow> body (at j) s = Ret (True, f j s)"
  shows "do_fields k step body (at 0) s = Ret (True, fold f [0..<n] s)"
  using do_fields_fold_from [of 0 k body f s] assms by simp

text \<open>An invariant of the body is an invariant of the loop, and so is returning at all.\<close>

lemma do_fields_inv_from:
  assumes "i < n" and "n - i \<le> k" and "I i s"
    and "\<And>j s. i \<le> j \<Longrightarrow> j < n \<Longrightarrow> I j s \<Longrightarrow>
           \<exists>go s'. body (at j) s = Ret (go, s') \<and> (go \<longrightarrow> I (Suc j) s') \<and> (\<not> go \<longrightarrow> Q s')"
  shows "\<exists>go s'. do_fields k step body (at i) s = Ret (go, s') \<and> (go \<longrightarrow> I n s') \<and> (\<not> go \<longrightarrow> Q s')"
  using assms
proof (induction k arbitrary: i s)
  case 0
  then show ?case by simp
next
  case (Suc k)
  obtain go s' where body: "body (at i) s = Ret (go, s')"
    and inv: "go \<longrightarrow> I (Suc i) s'" and fail: "\<not> go \<longrightarrow> Q s'"
    using Suc.prems(4) [of i s] Suc.prems(1,3) by auto
  show ?case
  proof (cases "go \<and> Suc i < n")
    case True
    with Suc.IH [of "Suc i" s'] Suc.prems inv body show ?thesis by (simp add: step_next)
  next
    case False
    then have "go \<Longrightarrow> Suc i = n" using Suc.prems(1) by simp
    then show ?thesis using body inv fail by (cases go) (auto simp: step_wrap)
  qed
qed

lemma do_fields_inv:
  assumes "0 < n" and "n \<le> k" and "I 0 s"
    and "\<And>j s. j < n \<Longrightarrow> I j s \<Longrightarrow>
           \<exists>go s'. body (at j) s = Ret (go, s') \<and> (go \<longrightarrow> I (Suc j) s') \<and> (\<not> go \<longrightarrow> Q s')"
  shows "\<exists>go s'. do_fields k step body (at 0) s = Ret (go, s') \<and> (go \<longrightarrow> I n s') \<and> (\<not> go \<longrightarrow> Q s')"
  using do_fields_inv_from [of 0 k I s body Q] assms by simp

end

section \<open>Where the iterator stands\<close>

text \<open>The entries before the terminator, and the iterator's state at each of them.\<close>

definition nfields :: "pb_field list \<Rightarrow> nat" where
  "nfields fs = length (takeWhile (\<lambda>f. tag f \<noteq> 0) fs)"

primrec data_off :: "pb_field list \<Rightarrow> nat \<Rightarrow> addr" where
  "data_off fs 0 = ucast (data_offset (field_at fs 0))"
| "data_off fs (Suc i) =
     (if iter_in_union (field_at fs i) (field_at fs (Suc i)) then data_off fs i
      else data_off fs i + iter_prev_size (field_at fs i)
           + ucast (data_offset (field_at fs (Suc i))))"

primrec size_off :: "pb_field list \<Rightarrow> nat \<Rightarrow> addr" where
  "size_off fs 0 = data_off fs 0 + scast (size_offset (field_at fs 0))"
| "size_off fs (Suc i) =
     (if iter_in_union (field_at fs i) (field_at fs (Suc i)) then size_off fs i
      else data_off fs (Suc i) + scast (size_offset (field_at fs (Suc i))))"

definition required_before :: "pb_field list \<Rightarrow> nat \<Rightarrow> nat" where
  "required_before fs i =
     length (filter (\<lambda>j. PB_HTYPE (ftype (field_at fs j)) = PB_HTYPE_REQUIRED) [0..<i])"

definition iter_at :: "pb_field list \<Rightarrow> addr \<Rightarrow> nat \<Rightarrow> pb_field_iter" where
  "iter_at fs d i =
     \<lparr>start = fs, pos = i, required_field_index = of_nat (required_before fs i),
      dest_struct = d, pData = d + data_off fs i, pSize = d + size_off fs i\<rparr>"

lemma iter_at_simps [simp]:
  "start (iter_at fs d i) = fs" "pos (iter_at fs d i) = i" "dest_struct (iter_at fs d i) = d"
  "pData (iter_at fs d i) = d + data_off fs i" "pSize (iter_at fs d i) = d + size_off fs i"
  "required_field_index (iter_at fs d i) = of_nat (required_before fs i)"
  "cur (iter_at fs d i) = field_at fs i"
  by (simp_all add: iter_at_def cur_def)

lemma nfields_le: "nfields fs \<le> length fs"
  by (simp add: nfields_def length_takeWhile_le)

lemma tag_before_end: "i < nfields fs \<Longrightarrow> tag (field_at fs i) \<noteq> 0"
  unfolding nfields_def field_at_def
  by (metis (mono_tags, lifting) length_takeWhile_le less_le_trans nth_mem set_takeWhileD takeWhile_nth)

lemma tag_at_end: "tag (field_at fs (nfields fs)) = 0"
  using nth_length_takeWhile [of "\<lambda>f. tag f \<noteq> 0" fs]
  by (auto simp: field_at_def nfields_def PB_LAST_FIELD_def)

lemma begin_iter_at: "pb_field_iter_begin fs d = (0 < nfields fs, iter_at fs d 0)"
proof -
  have "tag (field_at fs 0) \<noteq> 0 \<longleftrightarrow> 0 < nfields fs"
    using tag_before_end [of 0 fs] tag_at_end [of fs] by (cases "nfields fs") auto
  then show ?thesis
    by (simp add: pb_field_iter_begin_def iter_at_def required_before_def Let_def size_ptr_def add.assoc)
qed

lemma required_before_Suc:
  "required_before fs (Suc i) = required_before fs i
     + (if PB_HTYPE (ftype (field_at fs i)) = PB_HTYPE_REQUIRED then 1 else 0)"
  by (simp add: required_before_def)

lemma next_iter_at:
  "Suc i < nfields fs \<Longrightarrow> pb_field_iter_next (iter_at fs d i) = (True, iter_at fs d (Suc i))"
  using tag_before_end [of i fs] tag_before_end [of "Suc i" fs]
  by (auto simp: pb_field_iter_next_def Let_def iter_at_def required_before_Suc size_ptr_def
      cur_def add.assoc iter_in_union_def)

lemma next_iter_at_wrap:
  "Suc i = nfields fs \<Longrightarrow> pb_field_iter_next (iter_at fs d i) = (False, iter_at fs d 0)"
  using tag_at_end [of fs] tag_before_end [of i fs]
  by (auto simp: pb_field_iter_next_def Let_def begin_iter_at)

lemma next_iter_at_empty:
  "nfields fs = 0 \<Longrightarrow> pb_field_iter_next (iter_at fs d 0) = (False, iter_at fs d 0)"
  using tag_at_end [of fs] by (simp add: pb_field_iter_next_def Let_def)

interpretation walk: cursor pb_field_iter_next "iter_at fs d" "nfields fs" pos for fs d
  by unfold_locales (simp_all add: next_iter_at next_iter_at_wrap)

lemma iter_search_cong:
  "(\<And>i. found i = found' i) \<Longrightarrow> iter_search k step found back it = iter_search k step found' back it"
  by (induction k arbitrary: it) (simp_all add: Let_def)

lemma iter_find_eq:
  assumes "i < nfields fs"
  shows "pb_field_iter_find (iter_at fs d i) t =
    (case List.find (\<lambda>j. tag (field_at fs j) = t \<and>
                         PB_LTYPE (ftype (field_at fs j)) \<noteq> PB_LTYPE_EXTENSION)
            ([i..<nfields fs] @ [0..<i]) of
       Some j \<Rightarrow> (True, iter_at fs d j) | None \<Rightarrow> (False, iter_at fs d i))"
  using walk.search_spec [OF assms, where k = "Suc (length fs)" and d = d and
      found = "\<lambda>i. tag (cur i) = t \<and> PB_LTYPE (ftype (cur i)) \<noteq> PB_LTYPE_EXTENSION"] nfields_le [of fs]
  by (simp add: pb_field_iter_find_def)

lemma find_extension_spec:
  assumes "i < nfields fs"
  shows "find_extension_field (iter_at fs d i) =
    (case List.find (\<lambda>j. PB_LTYPE (ftype (field_at fs j)) = PB_LTYPE_EXTENSION)
            ([i..<nfields fs] @ [0..<i]) of
       Some j \<Rightarrow> (True, iter_at fs d j) | None \<Rightarrow> (False, iter_at fs d i))"
  using walk.search_spec [OF assms, where k = "Suc (length fs)" and d = d and
      found = "\<lambda>i. PB_LTYPE (ftype (cur i)) = PB_LTYPE_EXTENSION"] nfields_le [of fs]
  by (simp add: find_extension_field_def)

lemma iter_find_at:
  assumes "i < nfields fs"
  shows "\<exists>j < nfields fs. snd (pb_field_iter_find (iter_at fs d i) t) = iter_at fs d j \<and>
    (fst (pb_field_iter_find (iter_at fs d i) t) \<longrightarrow> tag (field_at fs j) = t)"
proof -
  let ?p = "\<lambda>j. tag (field_at fs j) = t \<and> PB_LTYPE (ftype (field_at fs j)) \<noteq> PB_LTYPE_EXTENSION"
  show ?thesis
  proof (cases "List.find ?p ([i..<nfields fs] @ [0..<i])")
    case None
    with assms show ?thesis by (auto simp: iter_find_eq)
  next
    case (Some j)
    then have "j \<in> set ([i..<nfields fs] @ [0..<i])" and "?p j"
      by (auto simp: find_Some_iff simp del: set_append)
    with assms Some show ?thesis by (intro exI [of _ j]) (auto simp: iter_find_eq)
  qed
qed

section \<open>Properties of the iterator\<close>


text \<open>C36: The search for a tag, started anywhere in a message, finds the first entry with
  that tag (extension placeholders excepted) in cyclic order and positions the iterator there;
  it answers false, with the iterator back where it was, exactly when there is none.\<close>

theorem iter_find_spec:
  assumes "i < nfields fs"
  shows "pb_field_iter_find (iter_at fs d i) t =
    (case List.find (\<lambda>j. tag (field_at fs j) = t \<and>
                         PB_LTYPE (ftype (field_at fs j)) \<noteq> PB_LTYPE_EXTENSION)
            ([i..<nfields fs] @ [0..<i]) of
       Some j \<Rightarrow> (True, iter_at fs d j) | None \<Rightarrow> (False, iter_at fs d i))"
  using assms by (rule iter_find_eq)


theorem iter_find_spec_witness:
  "pb_field_iter_find (iter_at [PB_LAST_FIELD\<lparr>tag := 1\<rparr>, PB_LAST_FIELD\<lparr>tag := 2\<rparr>] 0x100 1) 1 =
    (True, iter_at [PB_LAST_FIELD\<lparr>tag := 1\<rparr>, PB_LAST_FIELD\<lparr>tag := 2\<rparr>] 0x100 0)"
  using iter_find_spec [of 1 "[PB_LAST_FIELD\<lparr>tag := 1\<rparr>, PB_LAST_FIELD\<lparr>tag := 2\<rparr>]",
    where d = "0x100" and t = 1]
  by (simp add: nfields_def field_at_def PB_LAST_FIELD_def PB_LTYPE_def)

end
