(* ===== verification/Pb_Istream.thy ===== *)
theory Pb_Istream
  imports Pb_Types
begin

text \<open>
  Input streams and the wire-level readers of \<^verbatim>\<open>nanopb/pb_decode.c\<close>: \<^verbatim>\<open>pb_read\<close>,
  \<^verbatim>\<open>pb_readbyte\<close>, the varint decoders, tags, skipping, raw values and substreams.
\<close>

section \<open>The stream\<close>

text \<open>
  A stream over a memory buffer keeps, where the code keeps a pointer into the buffer, the
  bytes from that pointer on.  A custom stream's callback is a parameter: from the bytes of
  its state and the count asked for it answers success, the bytes it delivers and its new
  state.
\<close>

datatype read_callback = BufRead | UserRead "byte list \<Rightarrow> nat \<Rightarrow> bool \<times> byte list \<times> byte list"

record pb_istream =
  callback :: read_callback
  state :: "byte list"
  bytes_left :: size_t
  errmsg :: "string option"

text \<open>\<^verbatim>\<open>PB_SET_ERROR\<close>: the first message stays.\<close>

definition set_error :: "string \<Rightarrow> pb_istream \<Rightarrow> pb_istream" where
  "set_error msg s = s\<lparr>errmsg := (case errmsg s of None \<Rightarrow> Some msg | Some m \<Rightarrow> Some m)\<rparr>"

lemma set_error_simps [simp]:
  "callback (set_error msg s) = callback s" "state (set_error msg s) = state s"
  "bytes_left (set_error msg s) = bytes_left s"
  by (simp_all add: set_error_def)

text \<open>
  Exactly \<open>n\<close> bytes of what was delivered; bytes that are not there (a read behind the end of
  the buffer, or a callback that claims success and delivers less) read as 0.
\<close>

definition exactly :: "nat \<Rightarrow> byte list \<Rightarrow> byte list" where
  "exactly n bs = take n (bs @ replicate n 0)"

lemma length_exactly [simp]: "length (exactly n bs) = n"
  by (simp add: exactly_def)

lemma exactly_take: "n \<le> length bs \<Longrightarrow> exactly n bs = take n bs"
  by (simp add: exactly_def)

definition buf_read :: "byte list \<Rightarrow> nat \<Rightarrow> bool \<times> byte list \<times> byte list" where
  "buf_read st n = (True, exactly n st, drop n st)"

text \<open>The call \<^verbatim>\<open>stream->callback(stream, buf, count)\<close>: success, the bytes put in \<^verbatim>\<open>buf\<close>.\<close>

definition run_callback :: "pb_istream \<Rightarrow> nat \<Rightarrow> bool \<times> byte list \<times> pb_istream" where
  "run_callback s n =
     (case (case callback s of BufRead \<Rightarrow> buf_read (state s) n | UserRead f \<Rightarrow> f (state s) n) of
        (ok, bs, st) \<Rightarrow> (ok, if ok then exactly n bs else take n bs, s\<lparr>state := st\<rparr>))"

lemma run_callback_frame:
  "run_callback s n = (ok, bs, s') \<Longrightarrow>
     callback s' = callback s \<and> bytes_left s' = bytes_left s \<and> errmsg s' = errmsg s \<and>
     length bs \<le> n \<and> (ok \<longrightarrow> length bs = n)"
  by (auto simp: run_callback_def split: prod.splits)

lemma run_callback_buf [simp]:
  "callback s = BufRead \<Longrightarrow>
     run_callback s n = (True, exactly n (state s), s\<lparr>state := drop n (state s)\<rparr>)"
  by (simp add: run_callback_def buf_read_def exactly_def)

section \<open>Reading bytes\<close>

text \<open>
  \<^verbatim>\<open>pb_read\<close> with a non-NULL buffer.  Answers success, the bytes stored in the buffer and the
  stream.
\<close>

definition pb_read :: "pb_istream \<Rightarrow> size_t \<Rightarrow> bool \<times> byte list \<times> pb_istream" where
  "pb_read s count =
     (if count = 0 then (True, [], s)
      else if bytes_left s < count then (False, [], set_error ''end-of-stream'' s)
      else case run_callback s (unat count) of
        (False, bs, s') \<Rightarrow> (False, bs, set_error ''io error'' s')
      | (True, bs, s') \<Rightarrow> (True, bs, s'\<lparr>bytes_left := bytes_left s' - count\<rparr>))"

text \<open>
  \<^verbatim>\<open>pb_read\<close> with a NULL buffer.  A custom stream is skipped through a 16-byte scratch buffer;
  a buffer stream just moves its pointer.
\<close>

function pb_skip_chunks :: "pb_istream \<Rightarrow> size_t \<Rightarrow> bool \<times> pb_istream" where
  "pb_skip_chunks s count =
     (if count > 16 then
        (case pb_read s 16 of
           (False, _, s') \<Rightarrow> (False, s')
         | (True, _, s') \<Rightarrow> pb_skip_chunks s' (count - 16))
      else case pb_read s count of (ok, _, s') \<Rightarrow> (ok, s'))"
  by pat_completeness auto
termination
  by (relation "measure (\<lambda>(s, count). unat count)")
    (auto simp: unat_minus_le word_less_nat_alt order_less_imp_le)

declare pb_skip_chunks.simps [simp del]

definition pb_read_null :: "pb_istream \<Rightarrow> size_t \<Rightarrow> bool \<times> pb_istream" where
  "pb_read_null s count =
     (if count = 0 then (True, s)
      else case callback s of
        UserRead _ \<Rightarrow> pb_skip_chunks s count
      | BufRead \<Rightarrow> (case pb_read s count of (ok, _, s') \<Rightarrow> (ok, s')))"

definition pb_readbyte :: "pb_istream \<Rightarrow> byte option \<times> pb_istream" where
  "pb_readbyte s =
     (if bytes_left s = 0 then (None, set_error ''end-of-stream'' s)
      else case run_callback s 1 of
        (False, _, s') \<Rightarrow> (None, set_error ''io error'' s')
      | (True, bs, s') \<Rightarrow> (Some (hd bs), s'\<lparr>bytes_left := bytes_left s' - 1\<rparr>))"

definition pb_istream_from_buffer :: "byte list \<Rightarrow> size_t \<Rightarrow> pb_istream" where
  "pb_istream_from_buffer buf bufsize =
     \<lparr>callback = BufRead, state = buf, bytes_left = bufsize, errmsg = None\<rparr>"

lemma pb_readbyte_left:
  "pb_readbyte s = (Some b, s') \<Longrightarrow> unat (bytes_left s') < unat (bytes_left s)"
  by (auto simp: pb_readbyte_def unat_dec unat_gt_0 dest!: run_callback_frame
      split: if_splits prod.splits bool.splits)

section \<open>Varints\<close>

text \<open>
  The multibyte loop of \<^verbatim>\<open>pb_decode_varint32_eof\<close>.  \<^verbatim>\<open>bitpos\<close> is a \<^verbatim>\<open>uint_fast8_t\<close>, one byte on
  this target.  Answers the last byte read, the final \<^verbatim>\<open>bitpos\<close> and the result.
\<close>

function varint32_loop ::
  "pb_istream \<Rightarrow> byte \<Rightarrow> 32 word \<Rightarrow> (byte \<times> byte \<times> 32 word) option \<times> pb_istream" where
  "varint32_loop s bitpos result =
     (case pb_readbyte s of
        (None, s') \<Rightarrow> (None, s')
      | (Some byte, s') \<Rightarrow>
          (let sign_extension = (if bitpos < 63 then 0xFF else 0x01) in
           if bitpos \<ge> 32 \<and> byte AND 0x7F \<noteq> 0
              \<and> (drop_bit 31 result = 0 \<or> byte \<noteq> sign_extension)
           then (None, set_error ''varint overflow'' s')
           else
             let result' = (if bitpos \<ge> 32 then result
                   else result OR push_bit (unat bitpos) (ucast (byte AND 0x7F)));
                 bitpos' = bitpos + 7
             in if byte AND 0x80 \<noteq> 0 then varint32_loop s' bitpos' result'
                else (Some (byte, bitpos', result'), s')))"
  by pat_completeness auto
termination
  by (relation "measure (\<lambda>(s, _, _). unat (bytes_left s))") (auto dest!: pb_readbyte_left [OF sym])

declare varint32_loop.simps [simp del]

text \<open>
  \<^verbatim>\<open>pb_decode_varint32_eof\<close>: the value, whether \<^verbatim>\<open>*eof\<close> is set to true, and the stream.
\<close>

definition pb_decode_varint32_eof :: "pb_istream \<Rightarrow> 32 word option \<times> bool \<times> pb_istream" where
  "pb_decode_varint32_eof s =
     (case pb_readbyte s of
        (None, s') \<Rightarrow> (None, bytes_left s' = 0, s')
      | (Some byte, s') \<Rightarrow>
          if byte AND 0x80 = 0 then (Some (ucast byte), False, s')
          else (case varint32_loop s' 7 (ucast (byte AND 0x7F)) of
            (None, s'') \<Rightarrow> (None, False, s'')
          | (Some (final, bitpos, result), s'') \<Rightarrow>
              if bitpos = 35 \<and> final AND 0x70 \<noteq> 0
              then (None, False, set_error ''varint overflow'' s'')
              else (Some result, False, s'')))"

definition pb_decode_varint32 :: "pb_istream \<Rightarrow> 32 word option \<times> pb_istream" where
  "pb_decode_varint32 s = (case pb_decode_varint32_eof s of (v, _, s') \<Rightarrow> (v, s'))"

text \<open>\<^verbatim>\<open>pb_decode_varint\<close>, the 64-bit decoder: one byte loop from \<^verbatim>\<open>bitpos = 0\<close>.\<close>

function varint_loop :: "pb_istream \<Rightarrow> byte \<Rightarrow> 64 word \<Rightarrow> 64 word option \<times> pb_istream" where
  "varint_loop s bitpos result =
     (if bitpos \<ge> 64 then (None, set_error ''varint overflow'' s)
      else case pb_readbyte s of
        (None, s') \<Rightarrow> (None, s')
      | (Some byte, s') \<Rightarrow>
          (let result' = result OR push_bit (unat bitpos) (ucast (byte AND 0x7F)) in
           if byte AND 0x80 \<noteq> 0 then varint_loop s' (bitpos + 7) result'
           else (Some result', s')))"
  by pat_completeness auto
termination
  by (relation "measure (\<lambda>(s, _, _). unat (bytes_left s))") (auto dest!: pb_readbyte_left [OF sym])

declare varint_loop.simps [simp del]

definition pb_decode_varint :: "pb_istream \<Rightarrow> 64 word option \<times> pb_istream" where
  "pb_decode_varint s = varint_loop s 0 0"

text \<open>\<^verbatim>\<open>pb_decode_svarint\<close>: the zig-zag decoding, as the 64-bit pattern of the signed value.\<close>

definition pb_decode_svarint :: "pb_istream \<Rightarrow> 64 word option \<times> pb_istream" where
  "pb_decode_svarint s =
     (case pb_decode_varint s of
        (None, s') \<Rightarrow> (None, s')
      | (Some v, s') \<Rightarrow> (Some (if v AND 1 \<noteq> 0 then NOT (drop_bit 1 v) else drop_bit 1 v), s'))"

definition pb_decode_fixed32 :: "pb_istream \<Rightarrow> 32 word option \<times> pb_istream" where
  "pb_decode_fixed32 s =
     (case pb_read s 4 of
        (False, _, s') \<Rightarrow> (None, s')
      | (True, b, s') \<Rightarrow>
          (Some (push_bit 0 (ucast (b ! 0)) OR push_bit 8 (ucast (b ! 1)) OR
                 push_bit 16 (ucast (b ! 2)) OR push_bit 24 (ucast (b ! 3))), s'))"

definition pb_decode_fixed64 :: "pb_istream \<Rightarrow> 64 word option \<times> pb_istream" where
  "pb_decode_fixed64 s =
     (case pb_read s 8 of
        (False, _, s') \<Rightarrow> (None, s')
      | (True, b, s') \<Rightarrow>
          (Some (push_bit 0 (ucast (b ! 0)) OR push_bit 8 (ucast (b ! 1)) OR
                 push_bit 16 (ucast (b ! 2)) OR push_bit 24 (ucast (b ! 3)) OR
                 push_bit 32 (ucast (b ! 4)) OR push_bit 40 (ucast (b ! 5)) OR
                 push_bit 48 (ucast (b ! 6)) OR push_bit 56 (ucast (b ! 7))), s'))"

section \<open>Tags, skipping, raw values\<close>

text \<open>\<^verbatim>\<open>pb_decode_tag\<close>: success, the wire type, the tag, end of message, the stream.\<close>

definition pb_decode_tag ::
  "pb_istream \<Rightarrow> bool \<times> pb_wire_type_t \<times> 32 word \<times> bool \<times> pb_istream" where
  "pb_decode_tag s =
     (case pb_decode_varint32_eof s of
        (None, eof, s') \<Rightarrow> (False, 0, 0, eof, s')
      | (Some temp, eof, s') \<Rightarrow>
          if temp = 0 then (False, 0, 0, True, s')
          else (True, temp AND 7, drop_bit 3 temp, False, s'))"

function pb_skip_varint :: "pb_istream \<Rightarrow> bool \<times> pb_istream" where
  "pb_skip_varint s =
     (case pb_read s 1 of
        (False, _, s') \<Rightarrow> (False, s')
      | (True, bs, s') \<Rightarrow> if hd bs AND 0x80 \<noteq> 0 then pb_skip_varint s' else (True, s'))"
  by pat_completeness auto
termination
  by (relation "measure (\<lambda>s. unat (bytes_left s))")
    (auto simp: pb_read_def unat_dec unat_gt_0 dest!: run_callback_frame
      split: if_splits prod.splits bool.splits)

declare pb_skip_varint.simps [simp del]

definition pb_skip_string :: "pb_istream \<Rightarrow> bool \<times> pb_istream" where
  "pb_skip_string s =
     (case pb_decode_varint32 s of
        (None, s') \<Rightarrow> (False, s')
      | (Some len, s') \<Rightarrow> pb_read_null s' (ucast len))"

definition pb_skip_field :: "pb_istream \<Rightarrow> pb_wire_type_t \<Rightarrow> bool \<times> pb_istream" where
  "pb_skip_field s wire_type =
     (if wire_type = PB_WT_VARINT then pb_skip_varint s
      else if wire_type = PB_WT_64BIT then pb_read_null s 8
      else if wire_type = PB_WT_STRING then pb_skip_string s
      else if wire_type = PB_WT_32BIT then pb_read_null s 4
      else (False, set_error ''invalid wire_type'' s))"

text \<open>
  \<^verbatim>\<open>read_raw_value\<close>.  The varint loop reads one byte at a time into a buffer of \<open>room\<close> bytes;
  an overlong varint is refused without a message.
\<close>

primrec raw_varint :: "nat \<Rightarrow> pb_istream \<Rightarrow> byte list option \<times> pb_istream" where
  "raw_varint 0 s = (None, s)"
| "raw_varint (Suc room) s =
     (case pb_read s 1 of
        (False, _, s') \<Rightarrow> (None, s')
      | (True, bs, s') \<Rightarrow>
          if hd bs AND 0x80 \<noteq> 0
          then (case raw_varint room s' of (r, s'') \<Rightarrow> (map_option ((#) (hd bs)) r, s''))
          else (Some [hd bs], s'))"

definition read_fixed :: "pb_istream \<Rightarrow> size_t \<Rightarrow> byte list option \<times> pb_istream" where
  "read_fixed s n = (case pb_read s n of (ok, bs, s') \<Rightarrow> (if ok then Some bs else None, s'))"

definition read_raw_value ::
  "pb_istream \<Rightarrow> pb_wire_type_t \<Rightarrow> nat \<Rightarrow> byte list option \<times> pb_istream" where
  "read_raw_value s wire_type max_size =
     (if wire_type = PB_WT_VARINT then raw_varint max_size s
      else if wire_type = PB_WT_64BIT then read_fixed s 8
      else if wire_type = PB_WT_32BIT then read_fixed s 4
      else (None, set_error ''invalid wire_type'' s))"

section \<open>Substreams\<close>

definition pb_make_string_substream :: "pb_istream \<Rightarrow> pb_istream option \<times> pb_istream" where
  "pb_make_string_substream s =
     (case pb_decode_varint32 s of
        (None, s') \<Rightarrow> (None, s')
      | (Some sz, s') \<Rightarrow>
          if bytes_left s' < ucast sz then (None, set_error ''parent stream too short'' s')
          else (Some (s'\<lparr>bytes_left := ucast sz\<rparr>), s'\<lparr>bytes_left := bytes_left s' - ucast sz\<rparr>))"

definition pb_close_string_substream :: "pb_istream \<Rightarrow> pb_istream \<Rightarrow> bool \<times> pb_istream" where
  "pb_close_string_substream s sub =
     (if bytes_left sub \<noteq> 0 then
        (case pb_read_null sub (bytes_left sub) of
           (False, _) \<Rightarrow> (False, s)
         | (True, sub') \<Rightarrow> (True, s\<lparr>state := state sub', errmsg := errmsg sub'\<rparr>))
      else (True, s\<lparr>state := state sub, errmsg := errmsg sub\<rparr>))"

section \<open>The discipline of a stream\<close>

text \<open>
  What every reader does to its stream: the callback stays, \<^verbatim>\<open>bytes_left\<close> never grows, a
  buffer stream's pointer moves by exactly what \<^verbatim>\<open>bytes_left\<close> loses, and the first error
  message stays.
\<close>

definition advances :: "pb_istream \<Rightarrow> pb_istream \<Rightarrow> bool" where
  "advances s s' \<longleftrightarrow>
     callback s' = callback s \<and> bytes_left s' \<le> bytes_left s \<and>
     (callback s = BufRead \<longrightarrow>
        state s' = drop (unat (bytes_left s) - unat (bytes_left s')) (state s)) \<and>
     (errmsg s \<noteq> None \<longrightarrow> errmsg s' = errmsg s)"

text \<open>A buffer stream that may read \<^verbatim>\<open>bytes_left\<close> bytes has them.\<close>

definition in_bounds :: "pb_istream \<Rightarrow> bool" where
  "in_bounds s \<longleftrightarrow> callback s = BufRead \<and> unat (bytes_left s) \<le> length (state s)"

lemma advances_refl [simp, intro]: "advances s s"
  by (simp add: advances_def)

lemma advances_trans [trans]: "advances s t \<Longrightarrow> advances t u \<Longrightarrow> advances s u"
  by (auto simp: advances_def word_le_nat_alt)

lemma advances_set_error [simp]: "advances s (set_error msg s)"
  by (auto simp: advances_def set_error_def)

lemma advances_error: "advances s t \<Longrightarrow> advances s (set_error msg t)"
  using advances_trans advances_set_error by blast

lemma advances_left: "advances s s' \<Longrightarrow> unat (bytes_left s') \<le> unat (bytes_left s)"
  by (simp add: advances_def word_le_nat_alt)

lemma in_bounds_advances: "in_bounds s \<Longrightarrow> advances s s' \<Longrightarrow> in_bounds s'"
  by (auto simp: in_bounds_def advances_def word_le_nat_alt)

text \<open>The interface of a reader, and of a reader that uses up input when it succeeds.\<close>

locale stream_op =
  fixes op :: "pb_istream \<Rightarrow> 'r" and out :: "'r \<Rightarrow> pb_istream"
  assumes adv: "advances s (out (op s))"
begin

lemma left_le: "unat (bytes_left (out (op s))) \<le> unat (bytes_left s)"
  using adv by (rule advances_left)

lemma keeps_bounds: "in_bounds s \<Longrightarrow> in_bounds (out (op s))"
  using adv in_bounds_advances by blast

text \<open>On a buffer within bounds a reader removes a prefix, as long as \<^verbatim>\<open>bytes_left\<close> says.\<close>

lemma removes_prefix:
  assumes "in_bounds s"
  shows "\<exists>pre. state s = pre @ state (out (op s)) \<and>
    length pre = unat (bytes_left s) - unat (bytes_left (out (op s)))"
proof -
  let ?k = "unat (bytes_left s) - unat (bytes_left (out (op s)))"
  have "state (out (op s)) = drop ?k (state s)" and "?k \<le> length (state s)"
    using assms adv [of s] by (auto simp: in_bounds_def advances_def)
  then show ?thesis by (intro exI [of _ "take ?k (state s)"]) simp
qed

lemma first_error_stays: "errmsg s = Some m \<Longrightarrow> errmsg (out (op s)) = Some m"
  using adv [of s] by (simp add: advances_def)

end

locale progress_op = stream_op +
  fixes ok :: "'a \<Rightarrow> bool"
  assumes progress: "ok (op s) \<Longrightarrow> bytes_left (out (op s)) < bytes_left s"
begin

lemma progress_unat: "ok (op s) \<Longrightarrow> unat (bytes_left (out (op s))) < unat (bytes_left s)"
  using progress by (simp add: word_less_nat_alt)

lemma fails_when_empty: "bytes_left s = 0 \<Longrightarrow> \<not> ok (op s)"
  using progress [of s] by auto

end

lemma run_callback_advances:
  assumes "run_callback s n = (True, bs, s')" and "n \<le> unat (bytes_left s)"
  shows "advances s (s'\<lparr>bytes_left := bytes_left s' - of_nat n\<rparr>)"
proof -
  have eq: "unat (of_nat n :: 64 word) = n"
    using assms(2) unsigned_less [of "bytes_left s", where 'a = nat] by (simp add: unat_of_nat)
  have le: "of_nat n \<le> bytes_left s" using eq assms(2) by (simp add: word_le_nat_alt)
  have "unat (bytes_left s - of_nat n) = unat (bytes_left s) - n"
    using le eq by (simp add: unat_minus_le)
  moreover have "bytes_left s - of_nat n \<le> bytes_left s"
    using le by (simp add: word_le_nat_alt unat_minus_le)
  ultimately show ?thesis
    using assms run_callback_frame [OF assms(1)] by (auto simp: advances_def)
qed

lemma pb_read_advances: "advances s (snd (snd (pb_read s count)))"
proof (cases "count = 0 \<or> bytes_left s < count")
  case True
  then show ?thesis by (auto simp: pb_read_def)
next
  case False
  then have le: "unat count \<le> unat (bytes_left s)" by (auto simp: word_le_nat_alt not_less)
  show ?thesis
  proof (cases "run_callback s (unat count)")
    case (fields ok bs s')
    show ?thesis
    proof (cases ok)
      case True
      with fields le False run_callback_advances [of s "unat count" bs s'] show ?thesis
        by (simp add: pb_read_def)
    next
      case no: False
      have "callback s \<noteq> BufRead" using fields no by (auto simp: run_callback_def buf_read_def)
      with fields no False run_callback_frame [OF fields] show ?thesis
        by (auto simp: pb_read_def advances_def set_error_def)
    qed
  qed
qed

lemma pb_read_length: "pb_read s n = (True, bs, s') \<Longrightarrow> length bs = unat n"
  by (auto simp: pb_read_def dest: run_callback_frame split: if_splits prod.splits bool.splits)

lemma pb_read_progress:
  "pb_read s n = (True, bs, s') \<Longrightarrow> n \<noteq> 0 \<Longrightarrow> bytes_left s' < bytes_left s"
  using unat_gt_0 [of n]
  by (auto simp: pb_read_def word_less_nat_alt unat_minus_le not_less word_le_nat_alt
      dest!: run_callback_frame split: if_splits prod.splits bool.splits)

lemma pb_readbyte_as_read:
  "pb_readbyte s =
     (case pb_read s 1 of (True, bs, s') \<Rightarrow> (Some (hd bs), s') | (False, bs, s') \<Rightarrow> (None, s'))"
proof -
  have "bytes_left s < 1 \<longleftrightarrow> bytes_left s = 0"
    by (simp add: word_less_nat_alt unat_eq_0 less_Suc0)
  then show ?thesis
    by (auto simp: pb_readbyte_def pb_read_def split: prod.splits bool.splits)
qed

lemma pb_readbyte_advances: "advances s (snd (pb_readbyte s))"
  using pb_read_advances [of s 1] by (auto simp: pb_readbyte_as_read split: prod.splits bool.splits)

lemma pb_readbyte_progress: "pb_readbyte s = (Some b, s') \<Longrightarrow> bytes_left s' < bytes_left s"
  by (auto dest: pb_readbyte_left simp: word_less_nat_alt)

lemma pb_skip_chunks_advances: "advances s (snd (pb_skip_chunks s count))"
proof (induction s count rule: pb_skip_chunks.induct)
  case (1 s count)
  show ?case
  proof (cases "pb_read s 16")
    case (fields ok bs s')
    have "advances s s'" using pb_read_advances [of s 16] fields by simp
    with 1 [OF _ fields [symmetric]] pb_read_advances [of s count] fields show ?thesis
      by (cases ok) (auto simp: pb_skip_chunks.simps [of s count] intro: advances_trans
          split: prod.splits)
  qed
qed

lemma pb_read_null_advances: "advances s (snd (pb_read_null s count))"
  using pb_read_advances [of s count] pb_skip_chunks_advances [of s count]
  by (auto simp: pb_read_null_def split: read_callback.splits prod.splits)

lemma varint32_loop_advances: "advances s (snd (varint32_loop s bitpos result))"
proof (induction s bitpos result rule: varint32_loop.induct)
  case (1 s bitpos result)
  show ?case
  proof (cases "pb_readbyte s")
    case (Pair r s')
    have a: "advances s s'" using pb_readbyte_advances [of s] Pair by simp
    show ?thesis
    proof (cases r)
      case None
      with a Pair show ?thesis by (simp add: varint32_loop.simps [of s])
    next
      case (Some b)
      with a Pair 1 [OF Pair [symmetric] Some refl _ refl refl] show ?thesis
        by (auto simp: varint32_loop.simps [of s] Let_def intro: advances_error advances_trans)
    qed
  qed
qed

lemma varint_loop_advances: "advances s (snd (varint_loop s bitpos result))"
proof (induction s bitpos result rule: varint_loop.induct)
  case (1 s bitpos result)
  show ?case
  proof (cases "pb_readbyte s")
    case (Pair r s')
    have a: "advances s s'" using pb_readbyte_advances [of s] Pair by simp
    show ?thesis
    proof (cases r)
      case None
      with a Pair show ?thesis by (simp add: varint_loop.simps [of s])
    next
      case (Some b)
      with a Pair 1 [OF _ Pair [symmetric] Some refl] show ?thesis
        by (auto simp: varint_loop.simps [of s] Let_def intro: advances_trans)
    qed
  qed
qed

lemma varint32_eof_advances: "advances s (snd (snd (pb_decode_varint32_eof s)))"
proof (cases "pb_readbyte s")
  case (Pair r s')
  have a: "advances s s'" using pb_readbyte_advances [of s] Pair by simp
  show ?thesis
  proof (cases r)
    case None
    with a Pair show ?thesis by (simp add: pb_decode_varint32_eof_def)
  next
    case (Some b)
    have "advances s (snd (varint32_loop s' 7 (ucast (b AND 0x7F))))"
      using a varint32_loop_advances advances_trans by blast
    with a Some Pair show ?thesis
      by (auto simp: pb_decode_varint32_eof_def intro: advances_error split: prod.splits option.splits)
  qed
qed

lemma varint32_eof_progress:
  assumes "pb_decode_varint32_eof s = (Some v, eof, s')"
  shows "bytes_left s' < bytes_left s"
proof (cases "pb_readbyte s")
  case (Pair r t)
  with assms obtain b where r: "r = Some b"
    by (cases r) (auto simp: pb_decode_varint32_eof_def)
  have "unat (bytes_left t) < unat (bytes_left s)" using Pair r pb_readbyte_left by blast
  moreover have "unat (bytes_left s') \<le> unat (bytes_left t)"
    using assms Pair r advances_left [OF varint32_loop_advances [of t 7 "ucast (b AND 0x7F)"]]
    by (auto simp: pb_decode_varint32_eof_def split: if_splits option.splits prod.splits)
  ultimately show ?thesis by (simp add: word_less_nat_alt)
qed

lemma varint32_advances: "advances s (snd (pb_decode_varint32 s))"
  using varint32_eof_advances [of s] by (simp add: pb_decode_varint32_def case_prod_unfold)

lemma varint_loop_progress:
  assumes "varint_loop s bitpos result = (Some v, s')"
  shows "bytes_left s' < bytes_left s"
proof (cases "pb_readbyte s")
  case (Pair r t)
  with assms obtain b where r: "r = Some b"
    by (cases r) (auto simp: varint_loop.simps [of s] split: if_splits)
  have "unat (bytes_left t) < unat (bytes_left s)" using Pair r pb_readbyte_left by blast
  moreover have "unat (bytes_left s') \<le> unat (bytes_left t)"
    using assms Pair r
      advances_left [OF varint_loop_advances [of t "bitpos + 7"
        "result OR push_bit (unat bitpos) (ucast (b AND 0x7F))"]]
    by (auto simp: varint_loop.simps [of s] Let_def split: if_splits)
  ultimately show ?thesis by (simp add: word_less_nat_alt)
qed

lemma pb_skip_varint_advances: "advances s (snd (pb_skip_varint s))"
proof (induction s rule: pb_skip_varint.induct)
  case (1 s)
  show ?case
  proof (cases "pb_read s 1")
    case (fields ok bs s')
    have "advances s s'" using pb_read_advances [of s 1] fields by simp
    with 1 [OF fields [symmetric]] fields show ?thesis
      by (cases ok) (auto simp: pb_skip_varint.simps [of s] intro: advances_trans)
  qed
qed

lemma raw_varint_advances: "advances s (snd (raw_varint room s))"
proof (induction room arbitrary: s)
  case 0
  then show ?case by simp
next
  case (Suc room)
  show ?case
  proof (cases "pb_read s 1")
    case (fields ok bs s')
    have "advances s s'" using pb_read_advances [of s 1] fields by simp
    with Suc [of s'] fields show ?thesis
      by (cases ok) (auto intro: advances_trans split: prod.splits)
  qed
qed

lemma pb_skip_string_advances: "advances s (snd (pb_skip_string s))"
  using varint32_advances [of s] pb_read_null_advances
  by (auto simp: pb_skip_string_def intro: advances_trans split: prod.splits option.splits)

section \<open>The readers as interpretations\<close>

interpretation rd_byte: progress_op pb_readbyte snd "\<lambda>r. fst r \<noteq> None"
proof unfold_locales
  fix s
  show "advances s (snd (pb_readbyte s))" by (rule pb_readbyte_advances)
  show "fst (pb_readbyte s) \<noteq> None \<Longrightarrow> bytes_left (snd (pb_readbyte s)) < bytes_left s"
    by (cases "pb_readbyte s") (auto dest: pb_readbyte_progress)
qed

interpretation rd_varint: progress_op pb_decode_varint snd "\<lambda>r. fst r \<noteq> None"
proof unfold_locales
  fix s
  show "advances s (snd (pb_decode_varint s))"
    by (simp add: pb_decode_varint_def varint_loop_advances)
  show "fst (pb_decode_varint s) \<noteq> None \<Longrightarrow> bytes_left (snd (pb_decode_varint s)) < bytes_left s"
    by (cases "varint_loop s 0 0") (auto simp: pb_decode_varint_def dest: varint_loop_progress)
qed

interpretation rd_varint32: progress_op pb_decode_varint32 snd "\<lambda>r. fst r \<noteq> None"
proof unfold_locales
  fix s
  show "advances s (snd (pb_decode_varint32 s))" by (rule varint32_advances)
  show "fst (pb_decode_varint32 s) \<noteq> None \<Longrightarrow>
      bytes_left (snd (pb_decode_varint32 s)) < bytes_left s"
    by (cases "pb_decode_varint32_eof s")
      (auto simp: pb_decode_varint32_def dest: varint32_eof_progress)
qed

interpretation rd_svarint: progress_op pb_decode_svarint snd "\<lambda>r. fst r \<noteq> None"
proof unfold_locales
  fix s
  have out: "snd (pb_decode_svarint s) = snd (pb_decode_varint s)"
    and ok: "fst (pb_decode_svarint s) = None \<longleftrightarrow> fst (pb_decode_varint s) = None"
    by (simp_all add: pb_decode_svarint_def split: prod.splits option.splits)
  show "advances s (snd (pb_decode_svarint s))" unfolding out by (rule rd_varint.adv)
  show "fst (pb_decode_svarint s) \<noteq> None \<Longrightarrow> bytes_left (snd (pb_decode_svarint s)) < bytes_left s"
    unfolding out ok by (rule rd_varint.progress)
qed

interpretation rd_tag: progress_op pb_decode_tag "\<lambda>(_, _, _, _, s). s" fst
proof unfold_locales
  fix s
  show "advances s (case pb_decode_tag s of (_, _, _, _, s) \<Rightarrow> s)"
    using varint32_eof_advances [of s]
    by (cases "pb_decode_varint32_eof s") (simp add: pb_decode_tag_def split: option.splits)
  show "fst (pb_decode_tag s) \<Longrightarrow>
      bytes_left (case pb_decode_tag s of (_, _, _, _, s) \<Rightarrow> s) < bytes_left s"
    by (cases "pb_decode_varint32_eof s")
      (auto simp: pb_decode_tag_def dest: varint32_eof_progress split: option.splits if_splits)
qed

interpretation rd_skip: stream_op "\<lambda>s. pb_skip_field s wt" snd for wt
  by unfold_locales
    (simp add: pb_skip_field_def pb_skip_varint_advances pb_read_null_advances pb_skip_string_advances)

interpretation rd_raw: stream_op "\<lambda>s. read_raw_value s wt n" snd for wt n
proof unfold_locales
  fix s
  have "advances s (snd (read_fixed s k))" for k
    using pb_read_advances [of s k] by (simp add: read_fixed_def case_prod_unfold)
  then show "advances s (snd (read_raw_value s wt n))"
    by (simp add: read_raw_value_def raw_varint_advances)
qed

section \<open>Properties of the readers\<close>

text \<open>\<^verbatim>\<open>pb_read\<close> on a buffer delivers exactly the next \<open>n\<close> bytes when the stream has them,
  and otherwise refuses with the stream untouched but for the message; with a NULL buffer it
  moves the stream in the same way.\<close>

theorem pb_read_buffer:
  assumes "in_bounds s"
  shows "pb_read s n =
      (if n \<le> bytes_left s
       then (True, take (unat n) (state s),
             s\<lparr>state := drop (unat n) (state s), bytes_left := bytes_left s - n\<rparr>)
       else (False, [], set_error ''end-of-stream'' s))
    \<and> pb_read_null s n = (fst (pb_read s n), snd (snd (pb_read s n)))"
  using assms
  by (cases "n \<le> bytes_left s"; cases "n = 0")
    (simp_all add: pb_read_def pb_read_null_def in_bounds_def exactly_take word_le_nat_alt
      word_less_nat_alt not_le)

theorem pb_read_buffer_witness:
  "pb_read (pb_istream_from_buffer [1, 2, 3] 3) 2 =
     (True, [1, 2], pb_istream_from_buffer [3] 1)"
  using pb_read_buffer [of "pb_istream_from_buffer [1, 2, 3] 3" 2]
  by (simp add: in_bounds_def pb_istream_from_buffer_def)

text \<open>Skipping a field of any wire type on any input, malformed or not, never reads behind
  the buffer: it takes off a prefix of the bytes that are left, as long as \<^verbatim>\<open>bytes_left\<close>
  shrinks, and keeps the stream within its buffer.\<close>

theorem skip_in_bounds:
  assumes "in_bounds s" and "pb_skip_field s wt = (ok, s')"
  shows "in_bounds s' \<and> (\<exists>pre. state s = pre @ state s' \<and>
    length pre = unat (bytes_left s) - unat (bytes_left s'))"
  using rd_skip.keeps_bounds [OF assms(1), of wt] rd_skip.removes_prefix [OF assms(1), of wt] assms(2)
  by simp

theorem skip_in_bounds_witness:
  "in_bounds (snd (pb_skip_field (pb_istream_from_buffer [0xFF, 0xFF] 2) 2))"
  using skip_in_bounds [of "pb_istream_from_buffer [0xFF, 0xFF] 2" 2]
  by (cases "pb_skip_field (pb_istream_from_buffer [0xFF, 0xFF] 2) 2")
    (simp add: in_bounds_def pb_istream_from_buffer_def)

end
