(* ===== verification/Pb_Ostream.thy ===== *)
theory Pb_Ostream
  imports Pb_Types
begin

text \<open>
  Output streams and the wire-level writers of \<^verbatim>\<open>nanopb/pb_encode.c\<close>: \<^verbatim>\<open>pb_write\<close>, varints,
  zig-zag, fixed width values, tags and length-prefixed strings; and what every writer does
  to its stream.
\<close>

section \<open>The stream\<close>

text \<open>
  \<^verbatim>\<open>ocallback = None\<close> is the NULL callback of a sizing stream.  For a memory buffer the state
  is the bytes written so far from the start of the buffer, where the code keeps the pointer
  behind them.  A custom callback is a parameter: from its state and the bytes it answers
  success and its new state.
\<close>

datatype write_callback = BufWrite | UserWrite "byte list \<Rightarrow> byte list \<Rightarrow> bool \<times> byte list"

record pb_ostream =
  ocallback :: "write_callback option"
  ostate :: "byte list"
  max_size :: size_t
  bytes_written :: size_t
  oerrmsg :: "string option"

definition oset_error :: "string \<Rightarrow> pb_ostream \<Rightarrow> pb_ostream" where
  "oset_error msg s = s\<lparr>oerrmsg := (case oerrmsg s of None \<Rightarrow> Some msg | Some m \<Rightarrow> Some m)\<rparr>"

lemma oset_error_simps [simp]:
  "ocallback (oset_error msg s) = ocallback s" "ostate (oset_error msg s) = ostate s"
  "max_size (oset_error msg s) = max_size s" "bytes_written (oset_error msg s) = bytes_written s"
  by (simp_all add: oset_error_def)

definition PB_OSTREAM_SIZING :: pb_ostream where
  "PB_OSTREAM_SIZING =
     \<lparr>ocallback = None, ostate = [], max_size = 0, bytes_written = 0, oerrmsg = None\<rparr>"

definition pb_ostream_from_buffer :: "size_t \<Rightarrow> pb_ostream" where
  "pb_ostream_from_buffer bufsize =
     \<lparr>ocallback = Some BufWrite, ostate = [], max_size = bufsize, bytes_written = 0, oerrmsg = None\<rparr>"

definition buf_write :: "byte list \<Rightarrow> byte list \<Rightarrow> bool \<times> byte list" where
  "buf_write st buf = (True, st @ buf)"

definition run_write :: "write_callback \<Rightarrow> byte list \<Rightarrow> byte list \<Rightarrow> bool \<times> byte list" where
  "run_write cb st buf = (case cb of BufWrite \<Rightarrow> buf_write st buf | UserWrite f \<Rightarrow> f st buf)"

text \<open>
  \<^verbatim>\<open>pb_write(stream, buf, count)\<close>: \<open>count\<close> is given apart from the bytes because a sizing
  stream is called with a NULL buffer.
\<close>

definition pb_write_count :: "pb_ostream \<Rightarrow> byte list \<Rightarrow> size_t \<Rightarrow> bool \<times> pb_ostream" where
  "pb_write_count s buf count =
     (case (if count > 0 then ocallback s else None) of
        None \<Rightarrow> (True, s\<lparr>bytes_written := bytes_written s + count\<rparr>)
      | Some cb \<Rightarrow>
          if bytes_written s + count > max_size s then (False, oset_error ''stream full'' s)
          else (case run_write cb (ostate s) buf of
             (False, st) \<Rightarrow> (False, oset_error ''io error'' (s\<lparr>ostate := st\<rparr>))
           | (True, st) \<Rightarrow> (True, s\<lparr>ostate := st, bytes_written := bytes_written s + count\<rparr>)))"

definition pb_write :: "pb_ostream \<Rightarrow> byte list \<Rightarrow> bool \<times> pb_ostream" where
  "pb_write s buf = pb_write_count s buf (of_nat (length buf))"

section \<open>Varints\<close>

text \<open>
  The loop that fills the buffer: every byte carries seven bits and the continuation bit; the
  last one's is cleared afterwards.
\<close>

function varint_fill :: "64 word \<Rightarrow> byte list" where
  "varint_fill v = (if v = 0 then [] else (ucast (v AND 0x7F) OR 0x80) # varint_fill (drop_bit 7 v))"
  by pat_completeness auto
termination
proof (relation "measure unat")
  fix v :: "64 word" assume "v \<noteq> 0"
  then have "0 < unat v" by (simp add: unat_gt_0)
  then have "unat (drop_bit 7 v) < unat v" by (simp add: drop_bit_eq_div unat_div)
  then show "(drop_bit 7 v, v) \<in> measure unat" by simp
qed simp

declare varint_fill.simps [simp del]

definition varint_bytes :: "64 word \<Rightarrow> byte list" where
  "varint_bytes value =
     (if value \<le> 0x7F then [ucast value]
      else let buffer = varint_fill value; i = length buffer in
        buffer[i - 1 := (buffer ! (i - 1)) AND 0x7F])"

definition pb_encode_varint :: "pb_ostream \<Rightarrow> 64 word \<Rightarrow> bool \<times> pb_ostream" where
  "pb_encode_varint s value = pb_write s (varint_bytes value)"

definition zigzag :: "64 word \<Rightarrow> 64 word" where
  "zigzag value = (if sint value < 0 then NOT (push_bit 1 value) else push_bit 1 value)"

definition pb_encode_svarint :: "pb_ostream \<Rightarrow> 64 word \<Rightarrow> bool \<times> pb_ostream" where
  "pb_encode_svarint s value = pb_encode_varint s (zigzag value)"

section \<open>Fixed width values, tags, strings\<close>

definition fixed32_bytes :: "32 word \<Rightarrow> byte list" where
  "fixed32_bytes val =
     [ucast (val AND 0xFF), ucast (drop_bit 8 val AND 0xFF),
      ucast (drop_bit 16 val AND 0xFF), ucast (drop_bit 24 val AND 0xFF)]"

definition pb_encode_fixed32 :: "pb_ostream \<Rightarrow> 32 word \<Rightarrow> bool \<times> pb_ostream" where
  "pb_encode_fixed32 s val = pb_write s (fixed32_bytes val)"

definition fixed64_bytes :: "64 word \<Rightarrow> byte list" where
  "fixed64_bytes val =
     [ucast (val AND 0xFF), ucast (drop_bit 8 val AND 0xFF),
      ucast (drop_bit 16 val AND 0xFF), ucast (drop_bit 24 val AND 0xFF),
      ucast (drop_bit 32 val AND 0xFF), ucast (drop_bit 40 val AND 0xFF),
      ucast (drop_bit 48 val AND 0xFF), ucast (drop_bit 56 val AND 0xFF)]"

definition pb_encode_fixed64 :: "pb_ostream \<Rightarrow> 64 word \<Rightarrow> bool \<times> pb_ostream" where
  "pb_encode_fixed64 s val = pb_write s (fixed64_bytes val)"

definition tag_word :: "pb_wire_type_t \<Rightarrow> 32 word \<Rightarrow> 64 word" where
  "tag_word wiretype field_number = push_bit 3 (ucast field_number) OR ucast wiretype"

definition pb_encode_tag :: "pb_ostream \<Rightarrow> pb_wire_type_t \<Rightarrow> 32 word \<Rightarrow> bool \<times> pb_ostream" where
  "pb_encode_tag s wiretype field_number = pb_encode_varint s (tag_word wiretype field_number)"

definition wire_type_of :: "pb_type_t \<Rightarrow> pb_wire_type_t option" where
  "wire_type_of lt =
     (if lt = PB_LTYPE_BOOL \<or> lt = PB_LTYPE_VARINT \<or> lt = PB_LTYPE_UVARINT \<or> lt = PB_LTYPE_SVARINT
      then Some PB_WT_VARINT
      else if lt = PB_LTYPE_FIXED32 then Some PB_WT_32BIT
      else if lt = PB_LTYPE_FIXED64 then Some PB_WT_64BIT
      else if lt = PB_LTYPE_BYTES \<or> lt = PB_LTYPE_STRING \<or> lt = PB_LTYPE_SUBMESSAGE
              \<or> lt = PB_LTYPE_FIXED_LENGTH_BYTES
      then Some PB_WT_STRING
      else None)"

definition pb_encode_tag_for_field :: "pb_ostream \<Rightarrow> pb_field \<Rightarrow> bool \<times> pb_ostream" where
  "pb_encode_tag_for_field s field =
     (case wire_type_of (PB_LTYPE (ftype field)) of
        None \<Rightarrow> (False, oset_error ''invalid field type'' s)
      | Some wiretype \<Rightarrow> pb_encode_tag s wiretype (tag field))"

text \<open>\<^verbatim>\<open>pb_encode_string\<close>: the bytes of the buffer, \<open>length buffer\<close> of them.\<close>

definition pb_encode_string :: "pb_ostream \<Rightarrow> byte list \<Rightarrow> bool \<times> pb_ostream" where
  "pb_encode_string s buffer =
     (case pb_encode_varint s (of_nat (length buffer)) of
        (False, s') \<Rightarrow> (False, s')
      | (True, s') \<Rightarrow> pb_write s' buffer)"

section \<open>What a writer does to its stream\<close>

text \<open>
  A write of \<open>bs\<close> to a sizing stream counts them; to a buffer stream with room for them it
  appends them and counts them.  \<open>extends s bs s'\<close> says that; it composes over the
  concatenation of what is written.
\<close>

definition fits :: "pb_ostream \<Rightarrow> nat \<Rightarrow> bool" where
  "fits s n \<longleftrightarrow> unat (bytes_written s) + n < 2 ^ 64 \<and>
     (ocallback s \<noteq> None \<longrightarrow> unat (bytes_written s) + n \<le> unat (max_size s))"

definition appended :: "pb_ostream \<Rightarrow> byte list \<Rightarrow> pb_ostream" where
  "appended s bs =
     s\<lparr>ostate := (if ocallback s = None then ostate s else ostate s @ bs),
       bytes_written := bytes_written s + of_nat (length bs)\<rparr>"

definition plain :: "pb_ostream \<Rightarrow> bool" where
  "plain s \<longleftrightarrow> ocallback s = None \<or> ocallback s = Some BufWrite"

lemma extend_simps [simp]:
  "ocallback (appended s bs) = ocallback s" "max_size (appended s bs) = max_size s"
  "oerrmsg (appended s bs) = oerrmsg s" "appended s [] = s"
  "bytes_written (appended s bs) = bytes_written s + of_nat (length bs)"
  by (simp_all add: appended_def)

lemma extend_extend [simp]: "appended (appended s bs) cs = appended s (bs @ cs)"
  by (simp add: appended_def)

lemma plain_extend [simp]: "plain (appended s bs) = plain s"
  by (simp add: plain_def)

lemma fits_less: "fits s n \<Longrightarrow> m \<le> n \<Longrightarrow> fits s m"
  by (auto simp: fits_def)

lemma fits_extend:
  assumes "fits s (length bs)"
  shows "fits (appended s bs) n \<longleftrightarrow> fits s (length bs + n)"
proof -
  have "unat (of_nat (length bs) :: 64 word) = length bs"
    using assms by (simp add: fits_def unat_of_nat)
  then have "unat (bytes_written s + of_nat (length bs)) = unat (bytes_written s) + length bs"
    using assms unat_plus_if_small [of "bytes_written s" "of_nat (length bs)"]
    by (simp add: fits_def)
  then show ?thesis by (simp add: fits_def add.assoc)
qed

lemma pb_write_extend:
  assumes "plain s" and "fits s (length bs)"
  shows "pb_write s bs = (True, appended s bs)"
proof -
  have len: "unat (of_nat (length bs) :: 64 word) = length bs"
    using assms(2) by (simp add: fits_def unat_of_nat)
  then have sum: "unat (bytes_written s + of_nat (length bs)) = unat (bytes_written s) + length bs"
    using assms(2) unat_plus_if_small [of "bytes_written s" "of_nat (length bs)"]
    by (simp add: fits_def)
  have zero: "(of_nat (length bs) :: 64 word) > 0 \<longleftrightarrow> bs \<noteq> []"
    using len by (simp add: word_less_nat_alt)
  show ?thesis
  proof (cases "ocallback s")
    case None
    then show ?thesis by (simp add: pb_write_def pb_write_count_def appended_def)
  next
    case (Some cb)
    then have "\<not> bytes_written s + of_nat (length bs) > max_size s"
      using assms(2) by (simp add: word_less_nat_alt sum fits_def)
    then show ?thesis
      using Some assms(1) zero
      by (cases "bs = []")
        (simp_all add: pb_write_def pb_write_count_def run_write_def buf_write_def plain_def appended_def)
  qed
qed

text \<open>Without room a buffer stream is refused unchanged, but for the error message.\<close>

lemma pb_write_full:
  assumes "ocallback s \<noteq> None" and "bs \<noteq> []"
    and "unat (bytes_written s) + length bs < 2 ^ 64"
    and "unat (max_size s) < unat (bytes_written s) + length bs"
  shows "pb_write s bs = (False, oset_error ''stream full'' s)"
proof -
  have len: "unat (of_nat (length bs) :: 64 word) = length bs"
    using assms(3) by (simp add: unat_of_nat)
  then have sum: "unat (bytes_written s + of_nat (length bs)) = unat (bytes_written s) + length bs"
    using assms(3) unat_plus_if_small [of "bytes_written s" "of_nat (length bs)"] by simp
  have "bytes_written s + of_nat (length bs) > max_size s"
    using assms(4) by (simp add: word_less_nat_alt sum)
  moreover have "(of_nat (length bs) :: 64 word) > 0"
    using assms(2) len by (simp add: word_less_nat_alt)
  ultimately show ?thesis
    using assms(1) by (auto simp: pb_write_def pb_write_count_def)
qed

text \<open>\<^verbatim>\<open>pb_write\<close> to a buffer never writes behind it: it appends all the bytes when they fit
  and otherwise fails with \<^verbatim>\<open>stream full\<close> and writes none, and the count of bytes written stays
  the number of bytes in the buffer and within its size.\<close>

theorem pb_write_bound:
  assumes "ocallback s = Some BufWrite" and "unat (bytes_written s) = length (ostate s)"
    and "bytes_written s \<le> max_size s" and "length (ostate s) + length bs < 2 ^ 64"
    and "pb_write s bs = (ok, s')"
  shows "unat (bytes_written s') = length (ostate s') \<and> bytes_written s' \<le> max_size s' \<and>
    max_size s' = max_size s \<and> (ok \<longleftrightarrow> length (ostate s) + length bs \<le> unat (max_size s)) \<and>
    ostate s' = (if ok then ostate s @ bs else ostate s) \<and> (\<not> ok \<longrightarrow> oerrmsg s' \<noteq> None)"
proof (cases "length (ostate s) + length bs \<le> unat (max_size s)")
  case True
  then have fits: "fits s (length bs)" using assms(2,4) by (simp add: fits_def)
  with assms(1,5) have "ok" "s' = appended s bs" by (simp_all add: pb_write_extend plain_def)
  moreover have "unat (bytes_written (appended s bs)) = length (ostate s) + length bs"
    using assms(2,4) unat_plus_if_small [of "bytes_written s" "of_nat (length bs)"]
    by (simp add: unat_of_nat)
  ultimately show ?thesis
    using True assms(1) by (simp add: appended_def word_le_nat_alt)
next
  case False
  have "unat (bytes_written s) \<le> unat (max_size s)" using assms(3) by (simp add: word_le_nat_alt)
  with False assms have "pb_write s bs = (False, oset_error ''stream full'' s)"
    by (intro pb_write_full) auto
  with False assms show ?thesis by (auto simp: oset_error_def split: option.splits)
qed

theorem pb_write_bound_witness:
  "\<exists>s'. pb_write (pb_ostream_from_buffer 2) [1, 2, 3] = (False, s') \<and> ostate s' = []"
proof (cases "pb_write (pb_ostream_from_buffer 2) [1, 2, 3]")
  case (Pair ok s')
  then show ?thesis
    using pb_write_bound [OF _ _ _ _ Pair] by (cases ok) (simp_all add: pb_ostream_from_buffer_def)
qed

end
