(* ===== verification/Pb_Wire.thy ===== *)
theory Pb_Wire
  imports Pb_Istream Pb_Ostream
begin

text \<open>
  The wire format as a contract between the writers of \<^verbatim>\<open>pb_encode.c\<close> and the readers of
  \<^verbatim>\<open>pb_decode.c\<close>: a codec is a writer's byte string and the reader that takes it back, and a
  payload is a byte string \<^verbatim>\<open>pb_skip_field\<close> steps over.
\<close>

section \<open>Streams that offer bytes\<close>

definition offers :: "pb_istream \<Rightarrow> byte list \<Rightarrow> bool" where
  "offers s bs \<longleftrightarrow> callback s = BufRead \<and> (\<exists>rest. state s = bs @ rest) \<and>
     length bs \<le> unat (bytes_left s)"

definition consume :: "nat \<Rightarrow> pb_istream \<Rightarrow> pb_istream" where
  "consume n s = s\<lparr>state := drop n (state s), bytes_left := bytes_left s - of_nat n\<rparr>"

lemma consume_simps [simp]:
  "callback (consume n s) = callback s" "errmsg (consume n s) = errmsg s"
  "state (consume n s) = drop n (state s)" "bytes_left (consume n s) = bytes_left s - of_nat n"
  by (simp_all add: consume_def)

lemma consume_0 [simp]: "consume 0 s = s"
  by (simp add: consume_def)

lemma consume_consume [simp]: "consume m (consume n s) = consume (n + m) s"
  by (simp add: consume_def diff_diff_eq add.commute)

lemma unat_of_nat_left:
  "n \<le> unat (bytes_left s) \<Longrightarrow> unat (of_nat n :: 64 word) = n"
  using unsigned_less [of "bytes_left s", where 'a = nat] by (simp add: unat_of_nat)

lemma unat_left_consume:
  "n \<le> unat (bytes_left s) \<Longrightarrow> unat (bytes_left (consume n s)) = unat (bytes_left s) - n"
  by (simp add: unat_minus_le word_le_nat_alt unat_of_nat_left)

lemma offers_Nil [simp]: "offers s [] \<longleftrightarrow> callback s = BufRead"
  by (simp add: offers_def)

lemma offers_append:
  "offers s (bs @ cs) \<longleftrightarrow> offers s bs \<and> offers (consume (length bs) s) cs"
proof (cases "callback s = BufRead \<and> length bs \<le> unat (bytes_left s)")
  case True
  then have left: "unat (bytes_left (consume (length bs) s)) = unat (bytes_left s) - length bs"
    using unat_left_consume by blast
  have "(\<exists>rest. state s = (bs @ cs) @ rest) \<longleftrightarrow>
      (\<exists>rest. state s = bs @ rest) \<and> (\<exists>rest. drop (length bs) (state s) = cs @ rest)"
    by auto
  moreover have "length (bs @ cs) \<le> unat (bytes_left s) \<longleftrightarrow>
      length cs \<le> unat (bytes_left s) - length bs"
    using True by auto
  ultimately show ?thesis
    using True left unfolding offers_def by simp
qed (auto simp: offers_def)

lemma offers_Cons:
  "offers s (b # bs) \<longleftrightarrow> offers s [b] \<and> offers (consume 1 s) bs"
  using offers_append [of s "[b]" bs] by simp

lemma offers_from_buffer:
  "length (bs @ rest) < 2 ^ 64 \<Longrightarrow>
   offers (pb_istream_from_buffer (bs @ rest) (of_nat (length (bs @ rest)))) bs"
  by (simp add: offers_def pb_istream_from_buffer_def unat_of_nat flip: of_nat_add)

lemma pb_read_offered:
  assumes "offers s bs"
  shows "pb_read s (of_nat (length bs)) = (True, bs, consume (length bs) s)"
proof -
  have len: "unat (of_nat (length bs) :: 64 word) = length bs"
    using assms unat_of_nat_left [of "length bs" s] by (simp add: offers_def)
  have "of_nat (length bs) \<le> bytes_left s"
    using assms len by (simp add: word_le_nat_alt offers_def)
  moreover have "(of_nat (length bs) :: 64 word) = 0 \<longleftrightarrow> bs = []"
    using len by (metis length_0_conv unat_0 unat_eq_0)
  moreover have "exactly (length bs) (state s) = bs"
    using assms by (auto simp: offers_def exactly_def)
  ultimately show ?thesis
    using assms len by (auto simp: pb_read_def offers_def consume_def exactly_def)
qed

lemma pb_readbyte_offered:
  "offers s [b] \<Longrightarrow> pb_readbyte s = (Some b, consume 1 s)"
  using pb_read_offered [of s "[b]"] by (simp add: pb_readbyte_as_read)

lemma pb_read_null_offered:
  "offers s bs \<Longrightarrow> pb_read_null s (of_nat (length bs)) = (True, consume (length bs) s)"
  using pb_read_offered [of s bs] pb_read_offered [of s "[]"]
  by (auto simp: pb_read_null_def offers_def pb_read_def split: if_splits)

section \<open>Codecs\<close>

locale codec =
  fixes enc :: "'a \<Rightarrow> byte list" and dec :: "pb_istream \<Rightarrow> 'b option \<times> pb_istream"
    and val :: "'a \<Rightarrow> 'b"
  assumes dec_enc: "offers s (enc x) \<Longrightarrow> dec s = (Some (val x), consume (length (enc x)) s)"
begin

lemma dec_buffer:
  assumes "length (enc x @ rest) < 2 ^ 64"
  shows "dec (pb_istream_from_buffer (enc x @ rest) (of_nat (length (enc x @ rest)))) =
    (Some (val x), pb_istream_from_buffer rest (of_nat (length rest)))"
  using dec_enc [OF offers_from_buffer [OF assms]]
  by (simp add: consume_def pb_istream_from_buffer_def)

text \<open>No encoding is a proper prefix of the encoding of another value.\<close>

lemma prefix_free:
  assumes "enc x @ rest = enc y @ rest'" and "length (enc x @ rest) < 2 ^ 64"
  shows "val x = val y" and "rest = rest'"
proof -
  have "(Some (val x), pb_istream_from_buffer rest (of_nat (length rest)))
      = (Some (val y), pb_istream_from_buffer rest' (of_nat (length rest')))"
    using dec_buffer [of x rest] dec_buffer [of y rest'] assms by simp
  then show "val x = val y" and "rest = rest'"
    by (simp_all add: pb_istream_from_buffer_def)
qed

text \<open>Reading a run of values one after the other.\<close>

lemma dec_enc_next:
  "offers s (enc x @ bs) \<Longrightarrow>
   dec s = (Some (val x), consume (length (enc x)) s) \<and> offers (consume (length (enc x)) s) bs"
  using dec_enc by (simp add: offers_append)

end

text \<open>A writer of such values on a stream with room appends exactly the encoding.\<close>

locale wire_codec = codec enc dec val
  for enc :: "'a \<Rightarrow> byte list" and dec :: "pb_istream \<Rightarrow> 'b option \<times> pb_istream" and val +
  fixes put :: "pb_ostream \<Rightarrow> 'a \<Rightarrow> bool \<times> pb_ostream"
  assumes put_enc: "put s x = pb_write s (enc x)"
begin

lemma put_extend:
  "plain s \<Longrightarrow> fits s (length (enc x)) \<Longrightarrow> put s x = (True, appended s (enc x))"
  by (simp add: put_enc pb_write_extend)

lemma write_then_read:
  assumes "length (enc x) \<le> unat n"
  shows "\<exists>os. put (pb_ostream_from_buffer n) x = (True, os) \<and>
    ostate os = enc x \<and> unat (bytes_written os) = length (enc x) \<and>
    (\<forall>rest. length (ostate os @ rest) < 2 ^ 64 \<longrightarrow>
      dec (pb_istream_from_buffer (ostate os @ rest) (of_nat (length (ostate os @ rest)))) =
        (Some (val x), pb_istream_from_buffer rest (of_nat (length rest))))"
proof -
  have bound: "length (enc x) < 2 ^ 64"
    using assms unsigned_less [of n, where 'a = nat] by simp
  have "fits (pb_ostream_from_buffer n) (length (enc x))"
    using assms bound by (simp add: fits_def pb_ostream_from_buffer_def)
  moreover have "plain (pb_ostream_from_buffer n)"
    by (simp add: plain_def pb_ostream_from_buffer_def)
  ultimately show ?thesis
    using put_extend [of "pb_ostream_from_buffer n" x] dec_buffer [of x] bound
    by (simp add: appended_def pb_ostream_from_buffer_def unat_of_nat)
qed

end

section \<open>Varints\<close>

lemma varint_fill_nonempty: "v \<noteq> 0 \<Longrightarrow> varint_fill v \<noteq> []"
  by (simp add: varint_fill.simps)

lemma varint_bytes_small: "v \<le> 127 \<Longrightarrow> varint_bytes v = [ucast v]"
  by (simp add: varint_bytes_def)

lemma clear_cont: "(ucast (v AND 127 :: 64 word) OR 128 :: byte) AND 127 = ucast (take_bit 7 v)"
  by (rule bit_word_eqI) (auto simp: and_127_take_bit bit_simps bit_128)

lemma varint_fill_small: "v \<noteq> 0 \<Longrightarrow> v \<le> 127 \<Longrightarrow> varint_fill v = [ucast (v AND 127) OR 128]"
  by (simp add: varint_fill.simps [of v] varint_fill.simps [of 0] le_127_bits)

text \<open>The writer's loop and final patch as one recursion.\<close>

lemma varint_bytes_rec:
  assumes "\<not> v \<le> 127"
  shows "varint_bytes v = (ucast (v AND 127) OR 128) # varint_bytes (drop_bit 7 v)"
proof -
  have nz: "v \<noteq> 0" "drop_bit 7 v \<noteq> 0" using assms by (auto simp: le_127_bits)
  let ?r = "varint_fill (drop_bit 7 v)"
  have fill: "varint_fill v = (ucast (v AND 127) OR 128) # ?r"
    using nz by (simp add: varint_fill.simps [of v])
  have ne: "?r \<noteq> []" using nz by (simp add: varint_fill_nonempty)
  have "?r[length ?r - 1 := (?r ! (length ?r - 1)) AND 127] = varint_bytes (drop_bit 7 v)"
  proof (cases "drop_bit 7 v \<le> 127")
    case True
    then have "take_bit 7 (drop_bit 7 v) = drop_bit 7 v"
      by (simp add: le_127_bits take_bit_eq_self_iff_drop_bit_eq_0)
    with True nz show ?thesis
      by (simp add: varint_fill_small varint_bytes_small clear_cont)
  next
    case False
    then show ?thesis by (simp add: varint_bytes_def Let_def)
  qed
  with assms ne fill show ?thesis
    by (cases "length ?r") (simp_all add: varint_bytes_def Let_def)
qed

lemma unat_bitpos: "7 * k \<le> 255 \<Longrightarrow> unat (of_nat (7 * k) :: byte) = 7 * k"
  by (simp add: unat_of_nat del: of_nat_mult)

lemma small_byte: "v \<le> 127 \<Longrightarrow> \<not> bit (ucast (v :: 64 word) :: byte) 7"
proof -
  assume "v \<le> 127"
  then have "\<not> bit (drop_bit 7 v) 0" by (simp add: le_127_bits)
  then show ?thesis by (simp add: bit_simps)
qed

lemma ucast_byte_small: "v \<le> 127 \<Longrightarrow> ucast (take_bit 7 (ucast (v :: 64 word) :: byte)) = v"
proof (rule bit_word_eqI)
  fix n assume "v \<le> 127" and "n < LENGTH(64)"
  then have "take_bit 7 v = v" by (simp add: le_127_bits take_bit_eq_self_iff_drop_bit_eq_0)
  then have "bit v n \<Longrightarrow> n < 7" by (metis bit_take_bit_iff)
  then show "bit (ucast (take_bit 7 (ucast v :: byte)) :: 64 word) n = bit v n"
    by (auto simp: bit_simps)
qed

lemma ucast_low_seven: "ucast (take_bit 7 (ucast (take_bit 7 v :: 64 word) :: byte)) = take_bit 7 v"
  by (rule bit_word_eqI) (auto simp: bit_simps)

lemma cont_bit: "bit (ucast (v AND 127 :: 64 word) OR 128 :: byte) 7"
  by (simp add: bit_or_iff bit_128)

lemma varint_loop_bytes:
  assumes "offers s (varint_bytes v)" and "k \<le> 9" and "drop_bit (64 - 7 * k) v = 0"
  shows "varint_loop s (of_nat (7 * k)) r =
    (Some (r OR push_bit (7 * k) v), consume (length (varint_bytes v)) s)"
  using assms
proof (induction v arbitrary: s k r rule: varint_fill.induct)
  case (1 v)
  have pos: "unat (of_nat (7 * k) :: byte) = 7 * k" using 1(3) by (intro unat_bitpos) simp
  then have guard: "\<not> of_nat (7 * k) \<ge> (64 :: byte)" using 1(3) by (simp add: word_le_nat_alt)
  show ?case
  proof (cases "v \<le> 127")
    case True
    then have "pb_readbyte s = (Some (ucast v), consume 1 s)"
      using 1(2) by (simp add: varint_bytes_small pb_readbyte_offered)
    with True guard pos show ?thesis
      by (simp add: varint_loop.simps [of s] varint_bytes_small and_128_bit small_byte
          and_127_take_bit ucast_byte_small)
  next
    case False
    let ?b = "ucast (v AND 127) OR 128 :: byte"
    have bytes: "varint_bytes v = ?b # varint_bytes (drop_bit 7 v)"
      using False by (rule varint_bytes_rec)
    have off: "offers s [?b]" "offers (consume 1 s) (varint_bytes (drop_bit 7 v))"
      using 1(2) bytes offers_Cons [of s ?b "varint_bytes (drop_bit 7 v)"] by simp_all
    have read: "pb_readbyte s = (Some ?b, consume 1 s)" by (rule pb_readbyte_offered [OF off(1)])
    have "drop_bit 7 v \<noteq> 0" using False unfolding le_127_bits .
    then have "\<not> 64 - 7 * k \<le> 7" using drop_bit_zero_mono [OF 1(4)] by blast
    then have k: "Suc k \<le> 9" and split: "64 - 7 * k = (64 - 7 * Suc k) + 7" by simp_all
    have high: "drop_bit (64 - 7 * Suc k) (drop_bit 7 v) = 0"
      using 1(4) unfolding split by (simp only: drop_bit_drop_bit)
    have next_pos: "of_nat (7 * k) + 7 = (of_nat (7 * Suc k) :: byte)" by simp
    have nz: "v \<noteq> 0" using False by auto
    from read guard pos
    have "varint_loop s (of_nat (7 * k)) r
        = varint_loop (consume 1 s) (of_nat (7 * Suc k)) (r OR push_bit (7 * k) (take_bit 7 v))"
      by (simp add: varint_loop.simps [of s] and_128_bit cont_bit and_127_take_bit
          ucast_low_seven next_pos del: of_nat_mult)
    also have "\<dots> = (Some ((r OR push_bit (7 * k) (take_bit 7 v)) OR push_bit (7 * Suc k) (drop_bit 7 v)),
        consume (length (varint_bytes (drop_bit 7 v))) (consume 1 s))"
      by (rule 1(1) [OF nz off(2) k high])
    finally show ?thesis
      using low_and_rest [of "7 * k" v] bytes by (simp add: or.assoc add.commute)
  qed
qed

lemma length_varint_bytes_le:
  "1 \<le> m \<Longrightarrow> length (varint_bytes v) \<le> m \<longleftrightarrow> drop_bit (7 * m) v = 0"
proof (induction v arbitrary: m rule: varint_fill.induct)
  case (1 v)
  show ?case
  proof (cases "v \<le> 127")
    case True
    then have "drop_bit 7 v = 0" unfolding le_127_bits .
    then show ?thesis
      using True 1(2) drop_bit_zero_mono [of 7 v "7 * m"] by (simp add: varint_bytes_small)
  next
    case False
    then have nz: "v \<noteq> 0" "drop_bit 7 v \<noteq> 0" unfolding le_127_bits by auto
    show ?thesis
    proof (cases "m = 1")
      case True
      with nz False show ?thesis by (simp add: varint_bytes_rec) (simp add: varint_bytes_def Let_def
            varint_fill_nonempty)
    next
      case m: False
      then have m1: "1 \<le> m - 1" and split: "7 * m = 7 * (m - 1) + 7" using 1(2) by auto
      have "length (varint_bytes v) \<le> m \<longleftrightarrow> length (varint_bytes (drop_bit 7 v)) \<le> m - 1"
        using False m1 by (simp add: varint_bytes_rec) arith
      also have "\<dots> \<longleftrightarrow> drop_bit (7 * (m - 1)) (drop_bit 7 v) = 0" by (rule 1(1) [OF nz(1) m1])
      finally show ?thesis unfolding split by (simp only: drop_bit_drop_bit)
    qed
  qed
qed

lemma varint_bytes_nonempty: "varint_bytes v \<noteq> []"
  by (cases "v \<le> 127") (simp_all add: varint_bytes_small varint_bytes_rec)

lemma length_varint_bytes_max: "length (varint_bytes v) \<le> 10"
proof -
  have "drop_bit (7 * 10) v = 0" by (rule bit_word_eqI) (simp add: bit_simps)
  then show ?thesis using length_varint_bytes_le [of 10 v] by simp
qed

lemma ucast_word32_small:
  "ucast (take_bit 7 (ucast (v :: 64 word) :: byte)) = (ucast (take_bit 7 v) :: 32 word)"
  by (rule bit_word_eqI) (auto simp: bit_simps)

lemma low_and_rest_ucast:
  "push_bit n (ucast (take_bit 7 v)) OR push_bit (n + 7) (ucast (drop_bit 7 v)) =
   push_bit n (ucast (v :: 64 word) :: 32 word)"
proof (rule bit_word_eqI)
  fix m assume "m < LENGTH(32)"
  moreover have "7 + (m - (n + 7)) = m - n" if "n + 7 \<le> m" using that by simp
  ultimately show "bit (push_bit n (ucast (take_bit 7 v)) OR
      push_bit (n + 7) (ucast (drop_bit 7 v)) :: 32 word) m = bit (push_bit n (ucast v :: 32 word)) m"
    by (cases "n + 7 \<le> m") (auto simp: bit_simps)
qed

lemma varint32_loop_bytes:
  assumes "offers s (varint_bytes v)" and "1 \<le> k" and "k \<le> 4" and "drop_bit (32 - 7 * k) v = 0"
  shows "\<exists>final bp. varint32_loop s (of_nat (7 * k)) r =
      (Some (final, bp, r OR push_bit (7 * k) (ucast v)), consume (length (varint_bytes v)) s)
    \<and> \<not> (bp = 35 \<and> final AND 0x70 \<noteq> 0)"
  using assms
proof (induction v arbitrary: s k r rule: varint_fill.induct)
  case (1 v)
  have pos: "unat (of_nat (7 * k) :: byte) = 7 * k" using 1(4) by (intro unat_bitpos) simp
  then have guard: "\<not> of_nat (7 * k) \<ge> (32 :: byte)" using 1(4) by (simp add: word_le_nat_alt)
  show ?case
  proof (cases "v \<le> 127")
    case True
    then have read: "pb_readbyte s = (Some (ucast v), consume 1 s)"
      using 1(2) by (simp add: varint_bytes_small pb_readbyte_offered)
    have low: "take_bit 7 v = v"
      using True unfolding le_127_bits by (simp add: take_bit_eq_self_iff_drop_bit_eq_0)
    have "(ucast v :: byte) AND 0x70 = 0" if "of_nat (7 * k) + 7 = (35 :: byte)"
    proof -
      have "unat (of_nat (7 * k) + 7 :: byte) = 7 * k + 7"
        using 1(4) pos unat_plus_if_small [of "of_nat (7 * k) :: byte" 7] by simp
      then have "k = 4" using that by simp
      then have "bit v n \<Longrightarrow> n < 4" for n using 1(5) drop_bit_zero_bit [of 4 v n] by simp
      moreover have "bit (0x70 :: byte) n \<Longrightarrow> 4 \<le> n" for n
        by (rule ccontr) (auto simp: not_le numeral_eq_Suc less_Suc_eq bit_0 bit_Suc)
      ultimately show ?thesis by (intro bit_word_eqI) (force simp: bit_simps)
    qed
    with True guard pos read low show ?thesis
      by (auto simp: varint32_loop.simps [of s] Let_def varint_bytes_small and_128_bit small_byte
          and_127_take_bit ucast_word32_small simp del: of_nat_mult)
  next
    case False
    let ?b = "ucast (v AND 127) OR 128 :: byte"
    have bytes: "varint_bytes v = ?b # varint_bytes (drop_bit 7 v)"
      using False by (rule varint_bytes_rec)
    have off: "offers s [?b]" "offers (consume 1 s) (varint_bytes (drop_bit 7 v))"
      using 1(2) bytes offers_Cons [of s ?b "varint_bytes (drop_bit 7 v)"] by simp_all
    have read: "pb_readbyte s = (Some ?b, consume 1 s)" by (rule pb_readbyte_offered [OF off(1)])
    have nz: "v \<noteq> 0" "drop_bit 7 v \<noteq> 0" using False unfolding le_127_bits by auto
    then have "\<not> 32 - 7 * k \<le> 7" using drop_bit_zero_mono [OF 1(5)] by blast
    then have k: "Suc k \<le> 4" and split: "32 - 7 * k = (32 - 7 * Suc k) + 7" by simp_all
    have high: "drop_bit (32 - 7 * Suc k) (drop_bit 7 v) = 0"
      using 1(5) unfolding split by (simp only: drop_bit_drop_bit)
    have next_pos: "of_nat (7 * k) + 7 = (of_nat (7 * Suc k) :: byte)" by simp
    have "varint32_loop s (of_nat (7 * k)) r
        = varint32_loop (consume 1 s) (of_nat (7 * Suc k))
            (r OR push_bit (7 * k) (ucast (take_bit 7 v)))"
      using guard pos read
      by (simp add: varint32_loop.simps [of s] Let_def and_128_bit cont_bit and_127_take_bit
          ucast_word32_small next_pos del: of_nat_mult)
    moreover have "(r OR push_bit (7 * k) (ucast (take_bit 7 v)))
          OR push_bit (7 * Suc k) (ucast (drop_bit 7 v)) = r OR push_bit (7 * k) (ucast v)"
      using low_and_rest_ucast [of "7 * k" v] by (simp add: or.assoc add.commute)
    ultimately show ?thesis
      using 1(1) [OF nz(1) off(2) _ k high, of "r OR push_bit (7 * k) (ucast (take_bit 7 v))"] bytes
      by simp
  qed
qed

lemma ucast_word32_id: "(ucast (ucast v :: 64 word) :: 32 word) = (v :: 32 word)"
  by (rule bit_word_eqI) (auto simp: bit_simps)

lemma ucast_small_id:
  fixes v :: "32 word"
  assumes "(ucast v :: 64 word) \<le> 127"
  shows "(ucast (ucast (ucast v :: 64 word) :: byte) :: 32 word) = v"
proof (rule bit_word_eqI)
  fix n assume n: "n < LENGTH(32)"
  have "drop_bit 7 (ucast v :: 64 word) = 0" using assms unfolding le_127_bits .
  then have "bit (ucast v :: 64 word) n \<Longrightarrow> n < 7" by (rule drop_bit_zero_bit)
  then have "bit v n \<Longrightarrow> n < 7" using n by (simp add: bit_simps)
  then show "bit (ucast (ucast (ucast v :: 64 word) :: byte) :: 32 word) n = bit v n"
    using n by (auto simp: bit_simps)
qed

lemma varint32_eof_bytes:
  assumes "offers s (varint_bytes (ucast (v :: 32 word)))"
  shows "pb_decode_varint32_eof s =
    (Some v, False, consume (length (varint_bytes (ucast v))) s)"
proof (cases "(ucast v :: 64 word) \<le> 127")
  case True
  have "ucast (ucast (ucast v :: 64 word) :: byte) = v" using True by (rule ucast_small_id)
  with True assms show ?thesis
    by (simp add: pb_decode_varint32_eof_def varint_bytes_small pb_readbyte_offered
        and_128_bit small_byte)
next
  case False
  let ?v = "ucast v :: 64 word" let ?b = "ucast (?v AND 127) OR 128 :: byte"
  have bytes: "varint_bytes ?v = ?b # varint_bytes (drop_bit 7 ?v)"
    using False by (rule varint_bytes_rec)
  have off: "offers s [?b]" "offers (consume 1 s) (varint_bytes (drop_bit 7 ?v))"
    using assms bytes offers_Cons [of s ?b "varint_bytes (drop_bit 7 ?v)"] by simp_all
  have read: "pb_readbyte s = (Some ?b, consume 1 s)" by (rule pb_readbyte_offered [OF off(1)])
  have "drop_bit (32 - 7 * 1) (drop_bit 7 ?v) = 0"
    by (rule bit_word_eqI) (auto simp: bit_simps dest: bit_imp_le_length)
  then obtain final bp where loop:
      "varint32_loop (consume 1 s) (of_nat (7 * 1)) (ucast (take_bit 7 ?v)) =
        (Some (final, bp, ucast (take_bit 7 ?v) OR push_bit (7 * 1) (ucast (drop_bit 7 ?v))),
         consume (length (varint_bytes (drop_bit 7 ?v))) (consume 1 s))"
      "\<not> (bp = 35 \<and> final AND 0x70 \<noteq> 0)"
    using varint32_loop_bytes [OF off(2), of 1 "ucast (take_bit 7 ?v)"] by auto
  have "ucast (take_bit 7 ?v) OR push_bit 7 (ucast (drop_bit 7 ?v)) = v"
    using low_and_rest_ucast [of 0 ?v] by (simp add: ucast_word32_id)
  then show ?thesis
    using read loop bytes
    by (auto simp: pb_decode_varint32_eof_def and_128_bit cont_bit and_127_take_bit ucast_word32_small)
qed

interpretation cd_varint: wire_codec varint_bytes pb_decode_varint "\<lambda>v. v" pb_encode_varint
proof unfold_locales
  fix s v assume "offers s (varint_bytes v)"
  moreover have "drop_bit (64 - 7 * 0) v = 0" by (rule bit_word_eqI) (simp add: bit_simps)
  ultimately show "pb_decode_varint s = (Some v, consume (length (varint_bytes v)) s)"
    using varint_loop_bytes [of s v 0 0] by (simp add: pb_decode_varint_def)
qed (rule pb_encode_varint_def)

interpretation cd_varint32: wire_codec "\<lambda>v. varint_bytes (ucast v)" pb_decode_varint32 "\<lambda>v. v"
    "\<lambda>s v. pb_encode_varint s (ucast (v :: 32 word))"
  by unfold_locales (simp_all add: pb_decode_varint32_def varint32_eof_bytes pb_encode_varint_def)

section \<open>Negative 32-bit values\<close>

text \<open>
  The encoder writes an \<^verbatim>\<open>int32\<close> as the varint of its 64-bit sign extension, ten bytes when it is
  negative; the 32-bit reader takes the bytes behind bit 32 only if they are that extension.
\<close>

lemma varint32_step:
  assumes "offers s (varint_bytes w)" and "\<not> w \<le> 127" and "k \<le> 4"
  shows "varint32_loop s (of_nat (7 * k)) r =
      varint32_loop (consume 1 s) (of_nat (7 * Suc k)) (r OR push_bit (7 * k) (ucast (take_bit 7 w)))"
    and "offers (consume 1 s) (varint_bytes (drop_bit 7 w))"
proof -
  have pos: "unat (of_nat (7 * k) :: byte) = 7 * k" using assms(3) by (intro unat_bitpos) simp
  then have guard: "\<not> of_nat (7 * k) \<ge> (32 :: byte)" using assms(3) by (simp add: word_le_nat_alt)
  have off: "offers s [ucast (w AND 127) OR 128]" "offers (consume 1 s) (varint_bytes (drop_bit 7 w))"
    using assms offers_Cons [of s "ucast (w AND 127) OR 128" "varint_bytes (drop_bit 7 w)"]
    by (simp_all add: varint_bytes_rec)
  from off(2) show "offers (consume 1 s) (varint_bytes (drop_bit 7 w))" .
  have next_pos: "of_nat (7 * k) + 7 = (of_nat (7 * Suc k) :: byte)" by simp
  show "varint32_loop s (of_nat (7 * k)) r =
      varint32_loop (consume 1 s) (of_nat (7 * Suc k)) (r OR push_bit (7 * k) (ucast (take_bit 7 w)))"
    using guard pos pb_readbyte_offered [OF off(1)]
    by (simp add: varint32_loop.simps [of s] Let_def and_128_bit cont_bit and_127_take_bit
        ucast_word32_small next_pos del: of_nat_mult)
qed

lemma group_or:
  "ucast (take_bit n x) OR push_bit n (ucast (take_bit 7 (drop_bit n x))) =
   (ucast (take_bit (n + 7) x) :: 32 word)" for x :: "64 word"
  by (rule bit_word_eqI) (auto simp: bit_simps)

lemma high_group: "bit x 63 \<Longrightarrow> n \<le> 56 \<Longrightarrow> \<not> drop_bit n (x :: 64 word) \<le> 127"
proof
  assume "bit x 63" "n \<le> 56" "drop_bit n x \<le> 127"
  then have "bit (drop_bit 7 (drop_bit n x)) (56 - n)" by (simp add: bit_simps)
  moreover have "drop_bit 7 (drop_bit n x) = 0"
    using \<open>drop_bit n x \<le> 127\<close> unfolding le_127_bits .
  ultimately show False by simp
qed

lemma varint32_steps:
  assumes "offers s (varint_bytes (drop_bit 7 x))" and "bit x 63"
  shows "k \<le> 4 \<Longrightarrow> offers (consume k s) (varint_bytes (drop_bit (7 * Suc k) x)) \<and>
    varint32_loop s (of_nat 7) (ucast (take_bit 7 x)) =
    varint32_loop (consume k s) (of_nat (7 * Suc k)) (ucast (take_bit (7 * Suc k) x))"
proof (induction k)
  case 0
  then show ?case using assms by simp
next
  case (Suc k)
  let ?w = "drop_bit (7 * Suc k) x"
  have off: "offers (consume k s) (varint_bytes ?w)" using Suc by simp
  have big: "\<not> ?w \<le> 127" using Suc.prems assms(2) by (intro high_group) simp_all
  have "7 * Suc (Suc k) = 7 * Suc k + 7" by simp
  with varint32_step(1) [OF off big Suc.prems, of "ucast (take_bit (7 * Suc k) x)"]
    varint32_step(2) [OF off big Suc.prems] Suc
  show ?case
    by (simp add: group_or drop_bit_drop_bit add.commute del: of_nat_mult of_nat_Suc mult_Suc_right)
qed

lemma bit_scast32:
  "bit (scast (v :: 32 word) :: 64 word) n \<longleftrightarrow> n < 64 \<and> bit v (if n < 32 then n else 31)"
  by (cases "n < 32"; cases "n = 31") (auto simp: bit_simps min_def)

lemma sext_tail: "bit v 31 \<Longrightarrow> drop_bit 35 (scast (v :: 32 word) :: 64 word) = 0x1FFFFFFF"
proof -
  assume v: "bit v 31"
  have "drop_bit 35 (scast v :: 64 word) = mask 29"
    by (rule bit_word_eqI) (use v in \<open>auto simp: bit_simps bit_scast32\<close>)
  then show ?thesis by (simp add: mask_eq_exp_minus_1)
qed

lemma sext_low: "ucast (take_bit 35 (scast v :: 64 word)) = (v :: 32 word)"
  by (rule bit_word_eqI) (auto simp: bit_ucast_iff bit_take_bit_iff bit_scast32)

lemma varint32_ext_step:
  "pb_readbyte s = (Some 0xFF, s') \<Longrightarrow> 32 \<le> p \<Longrightarrow> p < 63 \<Longrightarrow> drop_bit 31 r \<noteq> 0 \<Longrightarrow>
   varint32_loop s p r = varint32_loop s' (p + 7) r"
  by (subst varint32_loop.simps) (simp add: Let_def)

lemma varint32_ext_last:
  "pb_readbyte s = (Some 1, s') \<Longrightarrow> drop_bit 31 r \<noteq> 0 \<Longrightarrow>
   varint32_loop s 63 r = (Some (1, 70, r), s')"
  by (subst varint32_loop.simps) (simp add: Let_def)

lemma varint32_tail:
  assumes "offers s (varint_bytes 0x1FFFFFFF)" and "bit (r :: 32 word) 31"
  shows "varint32_loop s 35 r = (Some (1, 70, r), consume 5 s)"
proof -
  have bytes: "varint_bytes 0x1FFFFFFF = [0xFF, 0xFF, 0xFF, 0xFF, 1]" by code_simp
  have "drop_bit 31 r \<noteq> 0"
  proof
    assume "drop_bit 31 r = 0"
    then have "\<not> bit (drop_bit 31 r) 0" by simp
    then show False using assms(2) by (simp add: bit_drop_bit_eq)
  qed
  moreover have "offers (consume 0 s) [0xFF]" "offers (consume 1 s) [0xFF]"
    "offers (consume 2 s) [0xFF]" "offers (consume 3 s) [0xFF]" "offers (consume 4 s) [1]"
    using assms(1) unfolding bytes
    by (auto simp: offers_def unat_left_consume simp del: consume_simps(4))
  note reads = this [THEN pb_readbyte_offered]
  ultimately show ?thesis
    using reads by (simp add: varint32_ext_step varint32_ext_last del: One_nat_def)
qed

lemma varint32_negative:
  assumes "offers s (varint_bytes (scast (v :: 32 word)))" and "bit v 31"
  shows "pb_decode_varint32_eof s =
    (Some v, False, consume (length (varint_bytes (scast v))) s)"
proof -
  let ?x = "scast v :: 64 word" let ?b = "ucast (?x AND 127) OR 128 :: byte"
  have top: "bit ?x 63" using assms(2) by (simp add: bit_simps min_def)
  have big: "\<not> ?x \<le> 127" using high_group [OF top, of 0] by simp
  have off: "offers s [?b]" "offers (consume 1 s) (varint_bytes (drop_bit 7 ?x))"
    using assms(1) big offers_Cons [of s ?b "varint_bytes (drop_bit 7 ?x)"]
    by (simp_all add: varint_bytes_rec)
  have steps: "offers (consume 5 s) (varint_bytes 0x1FFFFFFF)"
    "varint32_loop (consume 1 s) 7 (ucast (take_bit 7 ?x)) = varint32_loop (consume 5 s) 35 v"
    using varint32_steps [OF off(2) top, of 4] sext_tail [OF assms(2)] sext_low [of v] by simp_all
  have len: "length (varint_bytes ?x) = 10"
    using length_varint_bytes_max [of ?x] length_varint_bytes_le [of 9 ?x] top
      drop_bit_zero_bit [of 63 ?x 63] by fastforce
  show ?thesis
    using pb_readbyte_offered [OF off(1)] steps varint32_tail [OF steps(1) assms(2)] len
    by (simp add: pb_decode_varint32_eof_def and_128_bit cont_bit and_127_take_bit
        ucast_word32_small)
qed

lemma varint32_signed:
  assumes "offers s (varint_bytes (scast (v :: 32 word)))"
  shows "pb_decode_varint32_eof s =
    (Some v, False, consume (length (varint_bytes (scast v))) s)"
proof (cases "bit v 31")
  case True
  with assms show ?thesis by (rule varint32_negative)
next
  case False
  then have "(scast v :: 64 word) = ucast v"
    by (intro bit_word_eqI) (auto simp: bit_scast32 bit_ucast_iff dest: bit_imp_le_length)
  with assms varint32_eof_bytes [of s v] show ?thesis by simp
qed

section \<open>Zig-zag values\<close>

lemma and_1_bit: "x AND 1 = 0 \<longleftrightarrow> \<not> bit (x :: 'a :: len word) 0"
  using and_exp_eq_0_iff_not_bit [of x 0] by simp

lemma bit_zigzag:
  "bit (zigzag v) n \<longleftrightarrow> n < 64 \<and> (0 < n \<and> bit v (n - 1)) \<noteq> bit v 63"
proof -
  have neg: "sint v < 0 \<longleftrightarrow> bit v 63" using bit_last_iff [of v] by simp
  have push: "bit (push_bit 1 v) n \<longleftrightarrow> n < 64 \<and> 0 < n \<and> bit v (n - 1)"
    unfolding bit_push_bit_iff by auto
  show ?thesis
    unfolding zigzag_def neg
    by (cases "bit v 63") (simp_all only: if_True if_False bit_not_iff push, auto)
qed

lemma unzigzag_zigzag:
  "(if zigzag v AND 1 \<noteq> 0 then NOT (drop_bit 1 (zigzag v)) else drop_bit 1 (zigzag v)) = v"
proof (rule bit_word_eqI)
  fix n assume "n < LENGTH(64)"
  moreover have "bit v n \<Longrightarrow> n < 64" using bit_imp_le_length [of v n] by simp
  moreover have "n < 63 \<or> n = 63 \<or> 64 \<le> n" by arith
  ultimately show "bit (if zigzag v AND 1 \<noteq> 0 then NOT (drop_bit 1 (zigzag v))
      else drop_bit 1 (zigzag v)) n = bit v n"
    by (auto simp: and_1_bit bit_zigzag bit_not_iff bit_drop_bit_eq simp del: drop_bit_Suc)
qed

interpretation cd_svarint: wire_codec "\<lambda>v. varint_bytes (zigzag v)" pb_decode_svarint "\<lambda>v. v"
    pb_encode_svarint
proof unfold_locales
  fix s v assume "offers s (varint_bytes (zigzag v))"
  then show "pb_decode_svarint s = (Some v, consume (length (varint_bytes (zigzag v))) s)"
    using unzigzag_zigzag [of v] by (simp add: pb_decode_svarint_def cd_varint.dec_enc)
qed (simp add: pb_encode_svarint_def pb_encode_varint_def)

section \<open>Fixed width values\<close>

lemma fixed32_bytes_le: "fixed32_bytes v = le_bytes 4 v"
  by (simp add: fixed32_bytes_def and_255_byte numeral_eq_Suc)

lemma fixed64_bytes_le: "fixed64_bytes v = le_bytes 8 v"
  by (simp add: fixed64_bytes_def and_255_byte numeral_eq_Suc)

lemma le_word_4: "length b = 4 \<Longrightarrow>
  push_bit 0 (ucast (b ! 0)) OR push_bit 8 (ucast (b ! 1)) OR push_bit 16 (ucast (b ! 2)) OR
  push_bit 24 (ucast (b ! 3)) = (le_word b :: 32 word)"
  by (auto simp: numeral_eq_Suc length_Suc_conv push_bit_or or.assoc)

lemma le_word_8: "length b = 8 \<Longrightarrow>
  push_bit 0 (ucast (b ! 0)) OR push_bit 8 (ucast (b ! 1)) OR push_bit 16 (ucast (b ! 2)) OR
  push_bit 24 (ucast (b ! 3)) OR push_bit 32 (ucast (b ! 4)) OR push_bit 40 (ucast (b ! 5)) OR
  push_bit 48 (ucast (b ! 6)) OR push_bit 56 (ucast (b ! 7)) = (le_word b :: 64 word)"
  by (auto simp: numeral_eq_Suc length_Suc_conv push_bit_or or.assoc)

lemma pb_decode_fixed32_le:
  "pb_decode_fixed32 s = (case pb_read s 4 of (ok, b, s') \<Rightarrow> (if ok then Some (le_word b) else None, s'))"
proof (cases "pb_read s 4")
  case (fields ok b s')
  then show ?thesis
    using pb_read_length [of s 4 b s'] le_word_4 [of b]
    by (cases ok) (simp_all add: pb_decode_fixed32_def)
qed

lemma pb_decode_fixed64_le:
  "pb_decode_fixed64 s = (case pb_read s 8 of (ok, b, s') \<Rightarrow> (if ok then Some (le_word b) else None, s'))"
proof (cases "pb_read s 8")
  case (fields ok b s')
  then show ?thesis
    using pb_read_length [of s 8 b s'] le_word_8 [of b]
    by (cases ok) (simp_all add: pb_decode_fixed64_def)
qed

lemma length_fixed_bytes [simp]:
  "length (fixed32_bytes v) = 4" "length (fixed64_bytes w) = 8"
  by (simp_all add: fixed32_bytes_le fixed64_bytes_le)

interpretation cd_fixed32: wire_codec fixed32_bytes pb_decode_fixed32 "\<lambda>v. v" pb_encode_fixed32
proof unfold_locales
  fix s v assume "offers s (fixed32_bytes v)"
  from pb_read_offered [OF this]
  show "pb_decode_fixed32 s = (Some v, consume (length (fixed32_bytes v)) s)"
    by (simp add: pb_decode_fixed32_le) (simp add: fixed32_bytes_le le_word_le_bytes)
qed (rule pb_encode_fixed32_def)

interpretation cd_fixed64: wire_codec fixed64_bytes pb_decode_fixed64 "\<lambda>v. v" pb_encode_fixed64
proof unfold_locales
  fix s v assume "offers s (fixed64_bytes v)"
  from pb_read_offered [OF this]
  show "pb_decode_fixed64 s = (Some v, consume (length (fixed64_bytes v)) s)"
    by (simp add: pb_decode_fixed64_le) (simp add: fixed64_bytes_le le_word_le_bytes)
qed (rule pb_encode_fixed64_def)

section \<open>Tags\<close>

text \<open>
  The writer's 64-bit tag word has a 32-bit image for every field number below \<open>2 ^ 29\<close>, which
  is what the reader takes apart.
\<close>

lemma word_less_exp_bit:
  assumes "unat w < 2 ^ n" and "bit (w :: 'a :: len word) k"
  shows "k < n"
proof -
  have "unat (drop_bit n w) = drop_bit n (unat w)" by (rule unat_drop_bit_eq)
  also have "\<dots> = 0" using assms(1) by (simp add: drop_bit_eq_div)
  finally have "drop_bit n w = 0" by (simp only: unat_eq_0)
  then show ?thesis using assms(2) by (rule drop_bit_zero_bit)
qed

lemma tag_bits:
  fixes t wt :: "32 word"
  shows "t < 2 ^ 29 \<Longrightarrow> bit t k \<Longrightarrow> k < 29" and "wt < 8 \<Longrightarrow> bit wt k \<Longrightarrow> k < 3"
  using word_less_exp_bit [of t 29 k] word_less_exp_bit [of wt 3 k]
  by (simp_all add: word_less_nat_alt)

lemma tag_word_32:
  "t < 2 ^ 29 \<Longrightarrow> wt < 8 \<Longrightarrow> tag_word wt t = ucast (push_bit 3 t OR wt)"
  using tag_bits(1) [of t] unfolding tag_word_def
  by (intro bit_word_eqI) (fastforce simp: bit_simps dest: tag_bits)

lemma bit_7: "bit (7 :: 'a :: len word) n \<longleftrightarrow> n < 3 \<and> n < LENGTH('a)"
  using bit_mask_iff [of 3 n, where 'a = "'a word"] by (auto simp: mask_eq_exp_minus_1)

lemma tag_word_parts:
  fixes t wt :: "32 word"
  assumes "t < 2 ^ 29" and "wt < 8"
  shows "(push_bit 3 t OR wt) AND 7 = wt" and "drop_bit 3 (push_bit 3 t OR wt) = t"
proof -
  show "(push_bit 3 t OR wt) AND 7 = wt"
    by (rule bit_word_eqI, unfold bit_and_iff bit_7 bit_or_iff bit_push_bit_iff)
      (use assms in \<open>auto dest: tag_bits\<close>)
  show "drop_bit 3 (push_bit 3 t OR wt) = t"
    by (rule bit_word_eqI) (use tag_bits(1) [OF assms(1)] tag_bits(2) [OF assms(2)] in
      \<open>fastforce simp: bit_simps\<close>)
qed

definition tag_bytes :: "pb_wire_type_t \<Rightarrow> 32 word \<Rightarrow> byte list" where
  "tag_bytes wt t = varint_bytes (tag_word wt t)"

lemma decode_tag_bytes:
  assumes "offers s (tag_bytes wt t)" and "t \<noteq> 0" and "t < 2 ^ 29" and "wt < 8"
  shows "pb_decode_tag s = (True, wt, t, False, consume (length (tag_bytes wt t)) s)"
proof -
  let ?w = "push_bit 3 t OR wt"
  have "?w \<noteq> 0" using tag_word_parts [OF assms(3,4)] assms(2) by force
  with assms tag_word_parts [OF assms(3,4)] show ?thesis
    by (simp add: pb_decode_tag_def tag_bytes_def tag_word_32 varint32_eof_bytes)
qed

lemma decode_tag_buffer:
  assumes "t \<noteq> 0" and "t < 2 ^ 29" and "wt < 8" and "length (tag_bytes wt t @ rest) < 2 ^ 64"
  shows "pb_decode_tag (pb_istream_from_buffer (tag_bytes wt t @ rest)
      (of_nat (length (tag_bytes wt t @ rest)))) =
    (True, wt, t, False, pb_istream_from_buffer rest (of_nat (length rest)))"
  using decode_tag_bytes [OF offers_from_buffer [OF assms(4)] assms(1-3)]
  by (simp add: consume_def pb_istream_from_buffer_def)

lemma pb_encode_tag_extend:
  "plain s \<Longrightarrow> fits s (length (tag_bytes wt t)) \<Longrightarrow>
   pb_encode_tag s wt t = (True, appended s (tag_bytes wt t))"
  by (simp add: pb_encode_tag_def tag_bytes_def cd_varint.put_extend)

lemma length_tag_bytes: "t < 2 ^ 29 \<Longrightarrow> wt < 8 \<Longrightarrow> length (tag_bytes wt t) \<le> 5"
proof -
  assume "t < 2 ^ 29" "wt < 8"
  then have "drop_bit (7 * 5) (tag_word wt t) = 0"
    by (intro bit_word_eqI) (auto simp: tag_word_32 bit_simps dest: bit_imp_le_length)
  then show ?thesis using length_varint_bytes_le [of 5 "tag_word wt t"] by (simp add: tag_bytes_def)
qed

section \<open>Strings and substreams\<close>

definition string_bytes :: "byte list \<Rightarrow> byte list" where
  "string_bytes bs = varint_bytes (of_nat (length bs)) @ bs"

lemma length_word32:
  assumes "n < 2 ^ 32"
  shows "(of_nat n :: 64 word) = ucast (of_nat n :: 32 word)" and "unat (of_nat n :: 32 word) = n"
    and "unat (of_nat n :: 64 word) = n"
proof -
  show n32: "unat (of_nat n :: 32 word) = n" and n64: "unat (of_nat n :: 64 word) = n"
    using assms by (simp_all add: unat_of_nat)
  have "unat (ucast (of_nat n :: 32 word) :: 64 word) = n"
    using n32 assms by (simp add: unsigned_ucast_eq take_bit_nat_eq_self)
  then show "(of_nat n :: 64 word) = ucast (of_nat n :: 32 word)"
    using n64 by (metis word_eq_iff_unsigned)
qed

lemma decode_length:
  assumes "offers s (varint_bytes (of_nat n))" and "n < 2 ^ 32"
  shows "pb_decode_varint32 s = (Some (of_nat n), consume (length (varint_bytes (of_nat n))) s)"
  using assms length_word32(1) [OF assms(2)] cd_varint32.dec_enc [of s "of_nat n"] by simp

lemma pb_encode_string_extend:
  assumes "plain s" and "fits s (length (string_bytes bs))"
  shows "pb_encode_string s bs = (True, appended s (string_bytes bs))"
proof -
  let ?v = "varint_bytes (of_nat (length bs))"
  have "fits s (length ?v)" using assms(2) by (rule fits_less) (simp add: string_bytes_def)
  then show ?thesis
    using assms by (simp add: pb_encode_string_def cd_varint.put_extend pb_write_extend fits_extend
        string_bytes_def)
qed

lemma make_substream_bytes:
  assumes "offers s (string_bytes bs)" and "length bs < 2 ^ 32"
  shows "pb_make_string_substream s =
    (let k = length (varint_bytes (of_nat (length bs))); s' = consume k s in
     (Some (s'\<lparr>bytes_left := of_nat (length bs)\<rparr>),
      s'\<lparr>bytes_left := bytes_left s' - of_nat (length bs)\<rparr>))"
proof -
  let ?v = "varint_bytes (of_nat (length bs))"
  have off: "offers s ?v" "offers (consume (length ?v) s) bs"
    using assms(1) by (simp_all add: string_bytes_def offers_append)
  then have "of_nat (length bs) \<le> bytes_left (consume (length ?v) s)"
    using length_word32(3) [OF assms(2)] by (simp only: offers_def word_le_nat_alt)
  then show ?thesis
    using decode_length [OF off(1) assms(2)] length_word32(1) [OF assms(2)]
    by (simp add: pb_make_string_substream_def Let_def)
qed

text \<open>Closing a substream leaves the parent behind the payload, whatever was read of it.\<close>

lemma close_substream:
  assumes "in_bounds sub" and "advances sub sub'"
  shows "pb_close_string_substream s sub' =
    (True, s\<lparr>state := drop (unat (bytes_left sub)) (state sub), errmsg := errmsg sub'\<rparr>)"
proof -
  have buf: "callback sub' = BufRead" and le: "unat (bytes_left sub') \<le> unat (bytes_left sub)"
    and st: "state sub' = drop (unat (bytes_left sub) - unat (bytes_left sub')) (state sub)"
    using assms by (auto simp: in_bounds_def advances_def word_le_nat_alt)
  show ?thesis
  proof (cases "bytes_left sub' = 0")
    case True
    with st show ?thesis by (simp add: pb_close_string_substream_def)
  next
    case False
    with buf le st show ?thesis
      by (simp add: pb_close_string_substream_def pb_read_null_def pb_read_def)
  qed
qed

section \<open>Skipping\<close>

locale payload =
  fixes wt :: pb_wire_type_t and enc :: "'a \<Rightarrow> byte list" and ok :: "'a \<Rightarrow> bool"
  assumes skips: "ok x \<Longrightarrow> offers s (enc x) \<Longrightarrow>
      pb_skip_field s wt = (True, consume (length (enc x)) s)"
    and wt_small: "wt < 8"
begin

text \<open>A whole unknown field, tag and payload, is stepped over.\<close>

lemma skip_record:
  assumes "ok x" and "t \<noteq> 0" and "t < 2 ^ 29" and "offers s (tag_bytes wt t @ enc x)"
  shows "\<exists>s'. pb_decode_tag s = (True, wt, t, False, s') \<and>
    pb_skip_field s' wt = (True, consume (length (tag_bytes wt t @ enc x)) s)"
  using assms decode_tag_bytes [OF _ assms(2,3) wt_small, of s]
    skips [OF assms(1), of "consume (length (tag_bytes wt t)) s"]
  by (auto simp: offers_append)

end

lemma pb_skip_varint_step:
  "offers s [b] \<Longrightarrow> pb_skip_varint s =
     (if b AND 0x80 \<noteq> 0 then pb_skip_varint (consume 1 s) else (True, consume 1 s))"
  using pb_read_offered [of s "[b]"] by (subst pb_skip_varint.simps) simp

lemma pb_skip_varint_bytes:
  "offers s (varint_bytes v) \<Longrightarrow> pb_skip_varint s = (True, consume (length (varint_bytes v)) s)"
proof (induction v arbitrary: s rule: varint_fill.induct)
  case (1 v)
  show ?case
  proof (cases "v \<le> 127")
    case True
    with 1(2) show ?thesis
      by (simp add: varint_bytes_small pb_skip_varint_step and_128_bit small_byte)
  next
    case False
    then have nz: "v \<noteq> 0" by auto
    have "offers s [ucast (v AND 127) OR 128]"
      "offers (consume 1 s) (varint_bytes (drop_bit 7 v))"
      using 1(2) offers_Cons [of s "ucast (v AND 127) OR 128" "varint_bytes (drop_bit 7 v)"] False
      by (simp_all add: varint_bytes_rec)
    then show ?thesis
      using 1(1) [OF nz, of "consume 1 s"] False
      by (simp add: varint_bytes_rec pb_skip_varint_step and_128_bit cont_bit)
  qed
qed

lemma pb_skip_string_bytes:
  assumes "length bs < 2 ^ 32" and "offers s (string_bytes bs)"
  shows "pb_skip_string s = (True, consume (length (string_bytes bs)) s)"
proof -
  let ?v = "varint_bytes (of_nat (length bs))"
  have off: "offers s ?v" "offers (consume (length ?v) s) bs"
    using assms(2) by (simp_all add: string_bytes_def offers_append)
  then show ?thesis
    using decode_length [OF off(1) assms(1)] pb_read_null_offered [OF off(2)]
      length_word32(1) [OF assms(1)]
    by (simp add: pb_skip_string_def string_bytes_def)
qed

interpretation pl_varint: payload PB_WT_VARINT varint_bytes "\<lambda>_. True"
  by unfold_locales (simp_all add: pb_skip_field_def pb_skip_varint_bytes)

interpretation pl_fixed64: payload PB_WT_64BIT fixed64_bytes "\<lambda>_. True"
  by unfold_locales (use pb_read_null_offered in \<open>force simp: pb_skip_field_def\<close>)+

interpretation pl_fixed32: payload PB_WT_32BIT fixed32_bytes "\<lambda>_. True"
  by unfold_locales (use pb_read_null_offered in \<open>force simp: pb_skip_field_def\<close>)+

interpretation pl_string: payload PB_WT_STRING string_bytes "\<lambda>bs. length bs < 2 ^ 32"
  by unfold_locales (simp_all add: pb_skip_field_def pb_skip_string_bytes)

section \<open>Properties of the wire format\<close>

text \<open>C27: Reading back a varint: writing any 64-bit value to a buffer with room for it
  succeeds, fills at most ten bytes, and the 64-bit reader takes from these bytes, whatever
  follows them, exactly that value and exactly those bytes.\<close>

theorem varint_roundtrip:
  assumes "length (varint_bytes v) \<le> unat n"
  shows "\<exists>os. pb_encode_varint (pb_ostream_from_buffer n) v = (True, os) \<and>
    unat (bytes_written os) = length (ostate os) \<and> length (ostate os) \<le> 10 \<and>
    (\<forall>rest. length (ostate os @ rest) < 2 ^ 64 \<longrightarrow>
      pb_decode_varint (pb_istream_from_buffer (ostate os @ rest) (of_nat (length (ostate os @ rest))))
        = (Some v, pb_istream_from_buffer rest (of_nat (length rest))))"
  using cd_varint.write_then_read [OF assms] length_varint_bytes_max [of v] by auto

theorem varint_roundtrip_witness:
  "\<exists>os. pb_encode_varint (pb_ostream_from_buffer 10) 300 = (True, os) \<and>
    unat (bytes_written os) = length (ostate os) \<and> length (ostate os) \<le> 10 \<and>
    (\<forall>rest. length (ostate os @ rest) < 2 ^ 64 \<longrightarrow>
      pb_decode_varint (pb_istream_from_buffer (ostate os @ rest) (of_nat (length (ostate os @ rest))))
        = (Some 300, pb_istream_from_buffer rest (of_nat (length rest))))"
  by (rule varint_roundtrip) code_simp

text \<open>C28: A signed 32-bit value, negative or not, written the way the encoder writes an
  \<^verbatim>\<open>int32\<close> (as the varint of its 64-bit sign extension) is read back by the 32-bit reader.\<close>

theorem int32_roundtrip:
  assumes "length (varint_bytes (scast v) @ rest) < 2 ^ 64"
  shows "pb_decode_varint32 (pb_istream_from_buffer (varint_bytes (scast (v :: 32 word)) @ rest)
      (of_nat (length (varint_bytes (scast v) @ rest)))) =
    (Some v, pb_istream_from_buffer rest (of_nat (length rest)))"
  using varint32_signed [OF offers_from_buffer [OF assms]]
  by (simp add: pb_decode_varint32_def consume_def pb_istream_from_buffer_def)

theorem int32_roundtrip_witness:
  "pb_decode_varint32 (pb_istream_from_buffer (varint_bytes (scast (- 2 :: 32 word)) @ [7])
      (of_nat (length (varint_bytes (scast (- 2 :: 32 word)) @ [7])))) =
    (Some (- 2), pb_istream_from_buffer [7] (of_nat (length [7 :: byte])))"
  using length_varint_bytes_max [of "scast (- 2 :: 32 word)"]
  by (intro int32_roundtrip) (simp del: of_int_neg_numeral)

text \<open>The zig-zag pair: any signed 64-bit value written by \<^verbatim>\<open>pb_encode_svarint\<close> is read back
  by \<^verbatim>\<open>pb_decode_svarint\<close>.\<close>

lemma svarint_roundtrip:
  assumes "length (varint_bytes (zigzag v)) \<le> unat n"
  shows "\<exists>os. pb_encode_svarint (pb_ostream_from_buffer n) v = (True, os) \<and>
    (\<forall>rest. length (ostate os @ rest) < 2 ^ 64 \<longrightarrow>
      pb_decode_svarint (pb_istream_from_buffer (ostate os @ rest) (of_nat (length (ostate os @ rest))))
        = (Some v, pb_istream_from_buffer rest (of_nat (length rest))))"
  using cd_svarint.write_then_read [OF assms] by auto

text \<open>Fixed width values: four and eight little endian bytes are written and read back.\<close>

lemma fixed_roundtrip:
  assumes "8 \<le> unat n"
  shows "\<exists>os os'. pb_encode_fixed32 (pb_ostream_from_buffer n) v = (True, os) \<and>
    pb_encode_fixed64 (pb_ostream_from_buffer n) w = (True, os') \<and>
    length (ostate os) = 4 \<and> length (ostate os') = 8 \<and>
    (\<forall>rest. length (ostate os @ rest) < 2 ^ 64 \<longrightarrow>
      pb_decode_fixed32 (pb_istream_from_buffer (ostate os @ rest) (of_nat (length (ostate os @ rest))))
        = (Some v, pb_istream_from_buffer rest (of_nat (length rest)))) \<and>
    (\<forall>rest. length (ostate os' @ rest) < 2 ^ 64 \<longrightarrow>
      pb_decode_fixed64 (pb_istream_from_buffer (ostate os' @ rest) (of_nat (length (ostate os' @ rest))))
        = (Some w, pb_istream_from_buffer rest (of_nat (length rest))))"
proof -
  have room: "length (fixed32_bytes v) \<le> unat n" "length (fixed64_bytes w) \<le> unat n"
    using assms by simp_all
  show ?thesis
    using cd_fixed32.write_then_read [OF room(1)] cd_fixed64.write_then_read [OF room(2)]
    by (elim exE conjE) (intro exI conjI, assumption+, simp_all)
qed

text \<open>Every field number that protobuf allows (1 to \<open>2 ^ 29 - 1\<close>) and every wire type are
  read back from the tag the encoder writes, which is at most five bytes.\<close>

lemma tag_roundtrip:
  assumes "t \<noteq> 0" and "t < 2 ^ 29" and "wt < 8" and "5 \<le> unat n"
  shows "\<exists>os. pb_encode_tag (pb_ostream_from_buffer n) wt t = (True, os) \<and>
    length (ostate os) \<le> 5 \<and>
    (\<forall>rest. length (ostate os @ rest) < 2 ^ 64 \<longrightarrow>
      pb_decode_tag (pb_istream_from_buffer (ostate os @ rest) (of_nat (length (ostate os @ rest))))
        = (True, wt, t, False, pb_istream_from_buffer rest (of_nat (length rest))))"
proof -
  have len: "length (tag_bytes wt t) \<le> 5" using assms by (simp add: length_tag_bytes)
  then have "fits (pb_ostream_from_buffer n) (length (tag_bytes wt t))"
    using assms(4) by (simp add: fits_def pb_ostream_from_buffer_def)
  then have "pb_encode_tag (pb_ostream_from_buffer n) wt t
      = (True, appended (pb_ostream_from_buffer n) (tag_bytes wt t))"
    by (intro pb_encode_tag_extend) (simp_all add: plain_def pb_ostream_from_buffer_def)
  moreover have "ostate (appended (pb_ostream_from_buffer n) (tag_bytes wt t)) = tag_bytes wt t"
    by (simp add: appended_def pb_ostream_from_buffer_def)
  ultimately show ?thesis
    using len decode_tag_buffer [OF assms(1-3)] by simp
qed

text \<open>C29: The scalar pairs of the wire format: a signed 64-bit value in zig-zag form, four and
  eight byte little endian values, and the tag of every field number protobuf allows (1 to
  \<open>2 ^ 29 - 1\<close>) with every wire type, written to a buffer with room for them, are read back
  exactly, and the stream then stands behind them.\<close>

theorem scalar_roundtrips:
  assumes "length (varint_bytes (zigzag v)) \<le> unat n" and "8 \<le> unat n"
    and "t \<noteq> 0" and "t < 2 ^ 29" and "wt < 8"
  shows "(\<exists>os. pb_encode_svarint (pb_ostream_from_buffer n) v = (True, os) \<and>
      (\<forall>rest. length (ostate os @ rest) < 2 ^ 64 \<longrightarrow>
        pb_decode_svarint (pb_istream_from_buffer (ostate os @ rest) (of_nat (length (ostate os @ rest))))
          = (Some v, pb_istream_from_buffer rest (of_nat (length rest))))) \<and>
    (\<exists>os os'. pb_encode_fixed32 (pb_ostream_from_buffer n) x = (True, os) \<and>
      pb_encode_fixed64 (pb_ostream_from_buffer n) y = (True, os') \<and>
      length (ostate os) = 4 \<and> length (ostate os') = 8 \<and>
      (\<forall>rest. length (ostate os @ rest) < 2 ^ 64 \<longrightarrow>
        pb_decode_fixed32 (pb_istream_from_buffer (ostate os @ rest) (of_nat (length (ostate os @ rest))))
          = (Some x, pb_istream_from_buffer rest (of_nat (length rest)))) \<and>
      (\<forall>rest. length (ostate os' @ rest) < 2 ^ 64 \<longrightarrow>
        pb_decode_fixed64 (pb_istream_from_buffer (ostate os' @ rest) (of_nat (length (ostate os' @ rest))))
          = (Some y, pb_istream_from_buffer rest (of_nat (length rest))))) \<and>
    (\<exists>os. pb_encode_tag (pb_ostream_from_buffer n) wt t = (True, os) \<and> length (ostate os) \<le> 5 \<and>
      (\<forall>rest. length (ostate os @ rest) < 2 ^ 64 \<longrightarrow>
        pb_decode_tag (pb_istream_from_buffer (ostate os @ rest) (of_nat (length (ostate os @ rest))))
          = (True, wt, t, False, pb_istream_from_buffer rest (of_nat (length rest)))))"
  using svarint_roundtrip [OF assms(1)] fixed_roundtrip [OF assms(2), of x y]
    tag_roundtrip [OF assms(3-5), of n] assms(2)
  by (intro conjI) simp_all

lemma scalar_roundtrips_witness:
  "\<exists>os. pb_encode_tag (pb_ostream_from_buffer 10) 2 (2 ^ 29 - 1) = (True, os) \<and> length (ostate os) \<le> 5"
proof -
  have "length (varint_bytes (zigzag (- 3))) \<le> unat (10 :: 64 word)" by code_simp
  from scalar_roundtrips [OF this, where t = "2 ^ 29 - 1" and wt = 2 and x = "0xDEADBEEF" and y = 5] show ?thesis by auto
qed

text \<open>The four kinds of payload the encoder produces.\<close>

datatype wire_value = WVarint "64 word" | WFixed64 "64 word" | WFixed32 "32 word" | WString "byte list"

primrec wire_type :: "wire_value \<Rightarrow> pb_wire_type_t" where
  "wire_type (WVarint v) = PB_WT_VARINT"
| "wire_type (WFixed64 v) = PB_WT_64BIT"
| "wire_type (WFixed32 v) = PB_WT_32BIT"
| "wire_type (WString bs) = PB_WT_STRING"

primrec wire_bytes :: "wire_value \<Rightarrow> byte list" where
  "wire_bytes (WVarint v) = varint_bytes v"
| "wire_bytes (WFixed64 v) = fixed64_bytes v"
| "wire_bytes (WFixed32 v) = fixed32_bytes v"
| "wire_bytes (WString bs) = string_bytes bs"

primrec wire_ok :: "wire_value \<Rightarrow> bool" where
  "wire_ok (WVarint v) = True"
| "wire_ok (WFixed64 v) = True"
| "wire_ok (WFixed32 v) = True"
| "wire_ok (WString bs) = (length bs < 2 ^ 32)"

interpretation pl_value: payload "wire_type v" wire_bytes "\<lambda>w. wire_ok w \<and> wire_type w = wire_type v" for v
proof unfold_locales
  fix w s assume "wire_ok w \<and> wire_type w = wire_type v" "offers s (wire_bytes w)"
  then have "pb_skip_field s (wire_type w) = (True, consume (length (wire_bytes w)) s)"
    using pl_varint.skips pl_fixed64.skips pl_fixed32.skips pl_string.skips
    by (cases w) simp_all
  then show "pb_skip_field s (wire_type v) = (True, consume (length (wire_bytes w)) s)"
    using \<open>wire_ok w \<and> wire_type w = wire_type v\<close> by simp
next
  show "wire_type v < 8" by (cases v) simp_all
qed

text \<open>C31: Unknown fields: after the reader takes the tag of a field of any of the four wire
  types, \<^verbatim>\<open>pb_skip_field\<close> steps over exactly the bytes the encoder wrote for its value.\<close>

theorem skip_unknown_field:
  assumes "wire_ok v" and "t \<noteq> 0" and "t < 2 ^ 29"
    and "offers s (tag_bytes (wire_type v) t @ wire_bytes v)"
  shows "\<exists>s'. pb_decode_tag s = (True, wire_type v, t, False, s') \<and>
    pb_skip_field s' (wire_type v) =
      (True, consume (length (tag_bytes (wire_type v) t @ wire_bytes v)) s)"
  using assms by (intro pl_value.skip_record) simp_all

theorem skip_unknown_field_witness:
  "\<exists>s'. pb_decode_tag (pb_istream_from_buffer [10, 3, 65, 66, 67, 8, 1] 7) = (True, 2, 1, False, s') \<and>
    pb_skip_field s' 2 = (True, consume (length [10, 3, 65, 66, 67 :: byte]) (pb_istream_from_buffer [10, 3, 65, 66, 67, 8, 1] 7))"
proof -
  have bytes: "tag_bytes 2 1 @ string_bytes [65, 66, 67] = [10, 3, 65, 66, 67]" by code_simp
  show ?thesis
    using skip_unknown_field [of "WString [65, 66, 67]" 1 "pb_istream_from_buffer [10, 3, 65, 66, 67, 8, 1] 7"]
    by (simp add: bytes offers_def pb_istream_from_buffer_def)
qed

text \<open>A submessage or string is isolated from what follows it: the substream offers exactly
  the payload, and whatever a reader does to it within the stream discipline, closing it leaves
  the parent exactly behind the payload.\<close>

theorem substream_isolated:
  assumes "offers s (string_bytes bs)" and "length bs < 2 ^ 32"
  shows "\<exists>sub s'. pb_make_string_substream s = (Some sub, s') \<and>
    offers sub bs \<and> unat (bytes_left sub) = length bs \<and>
    (\<forall>sub'. advances sub sub' \<longrightarrow>
      pb_close_string_substream s' sub' =
        (True, (consume (length (string_bytes bs)) s)\<lparr>errmsg := errmsg sub'\<rparr>))"
proof -
  let ?k = "length (varint_bytes (of_nat (length bs)))"
  let ?sub = "(consume ?k s)\<lparr>bytes_left := of_nat (length bs)\<rparr>"
  let ?s' = "(consume ?k s)\<lparr>bytes_left := bytes_left s - of_nat ?k - of_nat (length bs)\<rparr>"
  have made: "pb_make_string_substream s = (Some ?sub, ?s')"
    using make_substream_bytes [OF assms] by (simp add: Let_def)
  have off: "offers (consume ?k s) bs"
    using assms(1) by (simp add: string_bytes_def offers_append)
  have len: "unat (of_nat (length bs) :: 64 word) = length bs" by (rule length_word32 [OF assms(2)])
  have sub: "offers ?sub bs" using off len by (simp add: offers_def)
  obtain rest where "state ?sub = bs @ rest" using sub by (auto simp: offers_def)
  then have "in_bounds ?sub" using sub len by (simp add: offers_def in_bounds_def)
  from close_substream [OF this, of _ ?s'] have
    "advances ?sub sub' \<Longrightarrow> pb_close_string_substream ?s' sub' =
        (True, (consume (length (string_bytes bs)) s)\<lparr>errmsg := errmsg sub'\<rparr>)" for sub'
    using len by (simp add: consume_def string_bytes_def diff_diff_eq add.commute)
  with made sub len show ?thesis by auto
qed

theorem substream_isolated_witness:
  "\<exists>sub s'. pb_make_string_substream (pb_istream_from_buffer [2, 8, 5, 9] 4) = (Some sub, s') \<and>
    offers sub [8, 5] \<and> unat (bytes_left sub) = length [8, 5 :: byte] \<and>
    (\<forall>sub'. advances sub sub' \<longrightarrow>
      pb_close_string_substream s' sub' =
        (True, (consume (length [2, 8, 5 :: byte]) (pb_istream_from_buffer [2, 8, 5, 9] 4))\<lparr>errmsg := errmsg sub'\<rparr>))"
proof -
  have bytes: "string_bytes [8, 5] = [2, 8, 5]" by code_simp
  show ?thesis
    using substream_isolated [of "pb_istream_from_buffer [2, 8, 5, 9] 4" "[8, 5]"]
    by (simp add: bytes offers_def pb_istream_from_buffer_def)
qed


end
