(* ===== verification/Pb_Message.thy ===== *)
theory Pb_Message
  imports Pb_Common
begin

text \<open>
  What \<^verbatim>\<open>nanopb/pb_decode.c\<close> does to message structs in memory without reading a stream: the
  default initialisation (\<^verbatim>\<open>pb_message_set_to_defaults\<close>) and the release of dynamically
  allocated fields (\<^verbatim>\<open>pb_release\<close>), both recursive over submessages and extensions.
\<close>

section \<open>The surroundings of a message\<close>

text \<open>
  The descriptor array at an address, and the fuel of the loops whose length only the memory
  decides (linked lists of extensions, calls of user callbacks).
\<close>

record pb_env =
  fields_of :: "addr \<Rightarrow> pb_field list"
  loop_fuel :: nat

section \<open>Extensions\<close>

text \<open>\<^verbatim>\<open>struct pb_extension_type_s\<close> and \<^verbatim>\<open>struct pb_extension_s\<close> in memory.\<close>

definition ext_type_decode :: "heap \<Rightarrow> addr \<Rightarrow> addr" where
  "ext_type_decode h ext = load_ptr h (load_ptr h ext)"

definition ext_type_encode :: "heap \<Rightarrow> addr \<Rightarrow> addr" where
  "ext_type_encode h ext = load_ptr h (load_ptr h ext + 8)"

definition ext_type_arg :: "heap \<Rightarrow> addr \<Rightarrow> addr" where
  "ext_type_arg h ext = load_ptr h (load_ptr h ext + 16)"

definition ext_dest :: "heap \<Rightarrow> addr \<Rightarrow> addr" where
  "ext_dest h ext = load_ptr h (ext + 8)"

definition ext_next :: "heap \<Rightarrow> addr \<Rightarrow> addr" where
  "ext_next h ext = load_ptr h (ext + 16)"

definition ext_found :: "addr \<Rightarrow> addr" where
  "ext_found ext = ext + 24"

definition iter_from_extension :: "'z pb_env_scheme \<Rightarrow> addr \<Rightarrow> heap \<Rightarrow> pb_field_iter" where
  "iter_from_extension E ext h =
     (let fs = fields_of E (ext_type_arg h ext);
          it = snd (pb_field_iter_begin fs (ext_dest h ext)) in
      it\<lparr>pData := (if PB_ATYPE (ftype (field_at fs 0)) = PB_ATYPE_POINTER then ext + 8
                   else ext_dest h ext),
         pSize := ext_found ext\<rparr>)"

text \<open>The \<^verbatim>\<open>while (ext != NULL)\<close> loops over the linked list; the body takes an extension.\<close>

primrec ext_loop :: "nat \<Rightarrow> (addr \<Rightarrow> heap \<Rightarrow> heap run) \<Rightarrow> addr \<Rightarrow> heap \<Rightarrow> heap run" where
  "ext_loop 0 body ext h = (if ext = 0 then Ret h else OutOfFuel)"
| "ext_loop (Suc k) body ext h =
     (if ext = 0 then Ret h
      else run_bind (body ext h) (\<lambda>h'. ext_loop k body (ext_next h' ext) h'))"

text \<open>The \<^verbatim>\<open>do { ... } while (pb_field_iter_next(&iter))\<close> loop over a whole message.\<close>

definition each_field ::
  "(pb_field_iter \<Rightarrow> heap \<Rightarrow> heap run) \<Rightarrow> pb_field list \<Rightarrow> addr \<Rightarrow> heap \<Rightarrow> heap run" where
  "each_field f fs dest h =
     (case pb_field_iter_begin fs dest of
        (False, _) \<Rightarrow> Ret h
      | (True, it) \<Rightarrow>
          run_bind (do_fields (Suc (length fs)) pb_field_iter_next
                      (\<lambda>it h. run_bind (f it h) (\<lambda>h'. Ret (True, h'))) it h)
            (\<lambda>(_, h'). Ret h'))"

section \<open>Default values\<close>

text \<open>
  \<^verbatim>\<open>pb_field_set_to_default\<close>, with the recursive calls as the argument \<open>self\<close>.
\<close>

definition set_to_default_body ::
  "'z pb_env_scheme \<Rightarrow> (pb_field_iter \<Rightarrow> heap \<Rightarrow> heap run) \<Rightarrow> pb_field_iter \<Rightarrow> heap \<Rightarrow> heap run" where
  "set_to_default_body E self it h =
     (let f = cur it; type = ftype f in
      if PB_LTYPE type = PB_LTYPE_EXTENSION then
        ext_loop (loop_fuel E)
          (\<lambda>ext h. let h' = store_bool (ext_found ext) False h in
             self (iter_from_extension E ext h') h')
          (load_ptr h (pData it)) h
      else if PB_ATYPE type = PB_ATYPE_STATIC then
        (let (init_data, h') =
           (if PB_HTYPE type = PB_HTYPE_OPTIONAL \<and> pSize it \<noteq> pData it
            then (True, store_bool (pSize it) False h)
            else if PB_HTYPE type = PB_HTYPE_REPEATED \<or> PB_HTYPE type = PB_HTYPE_ONEOF
            then (False, store_size (pSize it) 0 h)
            else (True, h)) in
         if \<not> init_data then Ret h'
         else if PB_LTYPE type = PB_LTYPE_SUBMESSAGE
         then each_field self (fields_of E (ptr f)) (pData it) h'
         else if ptr f \<noteq> 0
         then Ret (h_memcpy (pData it) (ptr f) (unat (data_size f)) h')
         else Ret (h_memset0 (pData it) (unat (data_size f)) h'))
      else if PB_ATYPE type = PB_ATYPE_POINTER then
        (let h' = store_ptr (pData it) 0 h in
         Ret (if PB_HTYPE type = PB_HTYPE_REPEATED \<or> PB_HTYPE type = PB_HTYPE_ONEOF
              then store_size (pSize it) 0 h' else h'))
      else Ret h)"

primrec pb_field_set_to_default ::
  "'z pb_env_scheme \<Rightarrow> nat \<Rightarrow> pb_field_iter \<Rightarrow> heap \<Rightarrow> heap run" where
  "pb_field_set_to_default E 0 it h = OutOfFuel"
| "pb_field_set_to_default E (Suc d) it h =
     set_to_default_body E (pb_field_set_to_default E d) it h"

definition pb_message_set_to_defaults ::
  "'z pb_env_scheme \<Rightarrow> nat \<Rightarrow> pb_field list \<Rightarrow> addr \<Rightarrow> heap \<Rightarrow> heap run" where
  "pb_message_set_to_defaults E d fs dest h = each_field (pb_field_set_to_default E d) fs dest h"

section \<open>Release\<close>

text \<open>\<^verbatim>\<open>pb_release\<close>, with the release of one field as an argument.\<close>

definition release_message ::
  "(pb_field_iter \<Rightarrow> heap \<Rightarrow> heap run) \<Rightarrow> pb_field list \<Rightarrow> addr \<Rightarrow> heap \<Rightarrow> heap run" where
  "release_message f fs dest h = (if dest = 0 then Ret h else each_field f fs dest h)"

text \<open>\<^verbatim>\<open>while (count--) { ...; pItem += step; }\<close>\<close>

primrec item_loop :: "nat \<Rightarrow> addr \<Rightarrow> (addr \<Rightarrow> heap \<Rightarrow> heap run) \<Rightarrow> addr \<Rightarrow> heap \<Rightarrow> heap run" where
  "item_loop 0 step body p h = Ret h"
| "item_loop (Suc n) step body p h =
     run_bind (body p h) (\<lambda>h'. item_loop n step body (p + step) h')"

text \<open>How many submessages of the field there are to release.\<close>

definition release_count :: "pb_field_iter \<Rightarrow> heap \<Rightarrow> pb_size_t" where
  "release_count it h =
     (let f = cur it; type = ftype f in
      if PB_HTYPE type = PB_HTYPE_REPEATED then
        (let count = (if PB_ATYPE type = PB_ATYPE_STATIC \<and> pSize it = pData it
                      then array_size f else load_size h (pSize it)) in
         if PB_ATYPE type = PB_ATYPE_STATIC \<and> count > array_size f then array_size f else count)
      else 1)"

definition release_contents ::
  "'z pb_env_scheme \<Rightarrow> (pb_field_iter \<Rightarrow> heap \<Rightarrow> heap run) \<Rightarrow> pb_field_iter \<Rightarrow> heap \<Rightarrow> heap run" where
  "release_contents E self it h =
     (let f = cur it; type = ftype f in
      if PB_LTYPE type = PB_LTYPE_EXTENSION then
        ext_loop (loop_fuel E) (\<lambda>ext h. self (iter_from_extension E ext h) h)
          (load_ptr h (pData it)) h
      else if PB_LTYPE type = PB_LTYPE_SUBMESSAGE \<and> PB_ATYPE type \<noteq> PB_ATYPE_CALLBACK then
        (let pItem = (if PB_ATYPE type = PB_ATYPE_POINTER then load_ptr h (pData it) else pData it) in
         if pItem = 0 then Ret h
         else item_loop (unat (release_count it h)) (ucast (data_size f))
                (release_message self (fields_of E (ptr f))) pItem h)
      else Ret h)"

definition release_pointer :: "pb_field_iter \<Rightarrow> heap \<Rightarrow> heap run" where
  "release_pointer it h =
     (let type = ftype (cur it) in
      if PB_ATYPE type = PB_ATYPE_POINTER then
        run_bind
          (if PB_HTYPE type = PB_HTYPE_REPEATED \<and>
              (PB_LTYPE type = PB_LTYPE_STRING \<or> PB_LTYPE type = PB_LTYPE_BYTES)
           then item_loop (unat (load_size h (pSize it))) 8
                  (\<lambda>p h. Ret (store_ptr p 0 (pb_free (load_ptr h p) h))) (load_ptr h (pData it)) h
           else Ret h)
          (\<lambda>h. let h' = (if PB_HTYPE type = PB_HTYPE_REPEATED then store_size (pSize it) 0 h else h) in
             Ret (store_ptr (pData it) 0 (pb_free (load_ptr h' (pData it)) h')))
      else Ret h)"

definition release_single_body ::
  "'z pb_env_scheme \<Rightarrow> (pb_field_iter \<Rightarrow> heap \<Rightarrow> heap run) \<Rightarrow> pb_field_iter \<Rightarrow> heap \<Rightarrow> heap run" where
  "release_single_body E self it h =
     (if PB_HTYPE (ftype (cur it)) = PB_HTYPE_ONEOF \<and> load_size h (pSize it) \<noteq> tag (cur it)
      then Ret h
      else run_bind (release_contents E self it h) (release_pointer it))"

primrec pb_release_single_field ::
  "'z pb_env_scheme \<Rightarrow> nat \<Rightarrow> pb_field_iter \<Rightarrow> heap \<Rightarrow> heap run" where
  "pb_release_single_field E 0 it h = OutOfFuel"
| "pb_release_single_field E (Suc d) it h =
     release_single_body E (pb_release_single_field E d) it h"

definition pb_release :: "'z pb_env_scheme \<Rightarrow> nat \<Rightarrow> pb_field list \<Rightarrow> addr \<Rightarrow> heap \<Rightarrow> heap run" where
  "pb_release E d fs dest h = release_message (pb_release_single_field E d) fs dest h"

end
