(* ===== verification/Pb_Decode.thy ===== *)
theory Pb_Decode
  imports Pb_Istream Pb_Message
begin

text \<open>
  The message decoder of \<^verbatim>\<open>nanopb/pb_decode.c\<close>: the decoders of single values, of static,
  pointer and callback fields, extensions, and the main loop with its bookkeeping of required
  and fixed count fields.
\<close>

section \<open>Surroundings and results\<close>

text \<open>
  Parameters: the allocator; the user's decode callbacks, by function pointer, with the field
  and the address of their \<^verbatim>\<open>arg\<close>; the user's extension decoders; and where the stack keeps
  the local \<^verbatim>\<open>fixed_count_size\<close> of the call at a depth.  The callback of a field and of an
  extension may change the memory and its stream.
\<close>

type_synonym decode_result = "(bool \<times> pb_istream \<times> heap) run"
type_synonym pb_decoder = "pb_istream \<Rightarrow> pb_field \<Rightarrow> addr \<Rightarrow> heap \<Rightarrow> decode_result"
type_synonym message_decoder = "pb_istream \<Rightarrow> pb_field list \<Rightarrow> addr \<Rightarrow> heap \<Rightarrow> decode_result"

record dec_env = pb_env +
  alloc :: allocator
  user_decode :: "addr \<Rightarrow> pb_istream \<Rightarrow> pb_field \<Rightarrow> addr \<Rightarrow> heap \<Rightarrow> bool \<times> pb_istream \<times> heap"
  user_ext_decode ::
    "addr \<Rightarrow> pb_istream \<Rightarrow> addr \<Rightarrow> 32 word \<Rightarrow> pb_wire_type_t \<Rightarrow> heap \<Rightarrow> bool \<times> pb_istream \<times> heap"
  frame_local :: "nat \<Rightarrow> addr"

definition fail :: "string \<Rightarrow> pb_istream \<Rightarrow> heap \<Rightarrow> decode_result" where
  "fail msg s h = Ret (False, set_error msg s, h)"

section \<open>Values\<close>

definition pb_dec_bool :: pb_decoder where
  "pb_dec_bool s field dest h =
     (case pb_decode_varint32 s of
        (None, s') \<Rightarrow> Ret (False, s', h)
      | (Some value, s') \<Rightarrow> Ret (True, s', store_bool dest (value \<noteq> 0) h))"

text \<open>
  The narrowing store \<^verbatim>\<open>clamped = *(intN_t*)dest = (intN_t)value\<close>: what is stored and what
  \<^verbatim>\<open>clamped\<close> reads back, sign or zero extended; \<^verbatim>\<open>None\<close> for a field of another size.
\<close>

definition store_signed :: "pb_size_t \<Rightarrow> addr \<Rightarrow> 64 word \<Rightarrow> heap \<Rightarrow> (64 word \<times> heap) option" where
  "store_signed sz dest value h =
     (if sz = 8 then Some (value, h_store dest 8 value h)
      else if sz = 4 then Some (scast (ucast value :: 32 word), h_store dest 4 (ucast value :: 32 word) h)
      else if sz = 2 then Some (scast (ucast value :: 16 word), h_store dest 2 (ucast value :: 16 word) h)
      else if sz = 1 then Some (scast (ucast value :: 8 word), h_store dest 1 (ucast value :: 8 word) h)
      else None)"

definition store_unsigned :: "pb_size_t \<Rightarrow> addr \<Rightarrow> 64 word \<Rightarrow> heap \<Rightarrow> (64 word \<times> heap) option" where
  "store_unsigned sz dest value h =
     (if sz = 8 then Some (value, h_store dest 8 value h)
      else if sz = 4 then Some (ucast (ucast value :: 32 word), h_store dest 4 (ucast value :: 32 word) h)
      else if sz = 2 then Some (ucast (ucast value :: 16 word), h_store dest 2 (ucast value :: 16 word) h)
      else if sz = 1 then Some (ucast (ucast value :: 8 word), h_store dest 1 (ucast value :: 8 word) h)
      else None)"

text \<open>The check after the store, shared by the three varint decoders.\<close>

definition check_clamped :: "(64 word \<times> heap) option \<Rightarrow> 64 word \<Rightarrow> pb_istream \<Rightarrow> heap \<Rightarrow> decode_result" where
  "check_clamped stored value s h =
     (case stored of
        None \<Rightarrow> fail ''invalid data_size'' s h
      | Some (clamped, h') \<Rightarrow>
          if clamped \<noteq> value then fail ''integer too large'' s h' else Ret (True, s, h'))"

definition pb_dec_varint :: pb_decoder where
  "pb_dec_varint s field dest h =
     (case pb_decode_varint s of
        (None, s') \<Rightarrow> Ret (False, s', h)
      | (Some value, s') \<Rightarrow>
          let svalue = (if data_size field = 8 then value else scast (ucast value :: 32 word)) in
          check_clamped (store_signed (data_size field) dest svalue h) svalue s' h)"

definition pb_dec_uvarint :: pb_decoder where
  "pb_dec_uvarint s field dest h =
     (case pb_decode_varint s of
        (None, s') \<Rightarrow> Ret (False, s', h)
      | (Some value, s') \<Rightarrow>
          check_clamped (store_unsigned (data_size field) dest value h) value s' h)"

definition pb_dec_svarint :: pb_decoder where
  "pb_dec_svarint s field dest h =
     (case pb_decode_svarint s of
        (None, s') \<Rightarrow> Ret (False, s', h)
      | (Some value, s') \<Rightarrow>
          check_clamped (store_signed (data_size field) dest value h) value s' h)"

definition pb_dec_fixed32 :: pb_decoder where
  "pb_dec_fixed32 s field dest h =
     (case pb_decode_fixed32 s of
        (None, s') \<Rightarrow> Ret (False, s', h)
      | (Some v, s') \<Rightarrow> Ret (True, s', h_store dest 4 v h))"

definition pb_dec_fixed64 :: pb_decoder where
  "pb_dec_fixed64 s field dest h =
     (case pb_decode_fixed64 s of
        (None, s') \<Rightarrow> Ret (False, s', h)
      | (Some v, s') \<Rightarrow> Ret (True, s', h_store dest 8 v h))"

text \<open>\<^verbatim>\<open>pb_read(stream, dest, count)\<close> into memory.\<close>

definition read_to :: "pb_istream \<Rightarrow> addr \<Rightarrow> size_t \<Rightarrow> heap \<Rightarrow> bool \<times> pb_istream \<times> heap" where
  "read_to s dest count h = (case pb_read s count of (ok, bs, s') \<Rightarrow> (ok, s', h_write dest bs h))"

definition allocate_field ::
  "allocator \<Rightarrow> pb_istream \<Rightarrow> addr \<Rightarrow> size_t \<Rightarrow> size_t \<Rightarrow> heap \<Rightarrow> bool \<times> pb_istream \<times> heap" where
  "allocate_field al s slot item_size count h =
     (let p = load_ptr h slot in
      if item_size = 0 \<or> count = 0 then (False, set_error ''invalid size'' s, h)
      else if (item_size \<ge> 2 ^ 32 \<or> count \<ge> 2 ^ 32) \<and> (- 1) div count < item_size
      then (False, set_error ''size too large'' s, h)
      else case pb_realloc al p (count * item_size) h of (q, h') \<Rightarrow>
        if q = 0 then (False, set_error ''realloc failed'' s, h')
        else (True, s, store_ptr slot q h'))"

text \<open>The size of a \<^verbatim>\<open>pb_bytes_array_t\<close> with \<open>n\<close> bytes, \<^verbatim>\<open>PB_BYTES_ARRAY_T_ALLOCSIZE\<close>.\<close>

definition bytes_allocsize :: "32 word \<Rightarrow> size_t" where
  "bytes_allocsize n = ucast n + 4"

definition store_bytes_array :: "pb_istream \<Rightarrow> addr \<Rightarrow> 32 word \<Rightarrow> heap \<Rightarrow> bool \<times> pb_istream \<times> heap" where
  "store_bytes_array s bdest sz h = read_to s (bdest + 4) (ucast sz) (h_store bdest 4 sz h)"

definition pb_dec_bytes :: "allocator \<Rightarrow> pb_decoder" where
  "pb_dec_bytes al s field dest h =
     (case pb_decode_varint32 s of
        (None, s') \<Rightarrow> Ret (False, s', h)
      | (Some sz, s') \<Rightarrow>
          if sz > PB_SIZE_MAX then fail ''bytes overflow'' s' h
          else let alloc_size = bytes_allocsize sz in
          if ucast sz > alloc_size then fail ''size too large'' s' h
          else if PB_ATYPE (ftype field) = PB_ATYPE_POINTER then
            (case allocate_field al s' dest alloc_size 1 h of
               (False, s'', h') \<Rightarrow> Ret (False, s'', h')
             | (True, s'', h') \<Rightarrow> Ret (store_bytes_array s'' (load_ptr h' dest) sz h'))
          else if alloc_size > ucast (data_size field) then fail ''bytes overflow'' s' h
          else Ret (store_bytes_array s' dest sz h))"

definition store_string :: "pb_istream \<Rightarrow> addr \<Rightarrow> 32 word \<Rightarrow> heap \<Rightarrow> bool \<times> pb_istream \<times> heap" where
  "store_string s dest sz h =
     (case read_to s dest (ucast sz) h of
        (status, s', h') \<Rightarrow> (status, s', h_store (dest + ucast sz) 1 (0 :: byte) h'))"

definition pb_dec_string :: "allocator \<Rightarrow> pb_decoder" where
  "pb_dec_string al s field dest h =
     (case pb_decode_varint32 s of
        (None, s') \<Rightarrow> Ret (False, s', h)
      | (Some sz, s') \<Rightarrow>
          let alloc_size = ucast (sz + 1) in
          if alloc_size < ucast sz then fail ''size too large'' s' h
          else if PB_ATYPE (ftype field) = PB_ATYPE_POINTER then
            (case allocate_field al s' dest alloc_size 1 h of
               (False, s'', h') \<Rightarrow> Ret (False, s'', h')
             | (True, s'', h') \<Rightarrow> Ret (store_string s'' (load_ptr h' dest) sz h'))
          else if alloc_size > ucast (data_size field) then fail ''string overflow'' s' h
          else Ret (store_string s' dest sz h))"

definition pb_dec_fixed_length_bytes :: pb_decoder where
  "pb_dec_fixed_length_bytes s field dest h =
     (case pb_decode_varint32 s of
        (None, s') \<Rightarrow> Ret (False, s', h)
      | (Some sz, s') \<Rightarrow>
          if sz > PB_SIZE_MAX then fail ''bytes overflow'' s' h
          else if sz = 0 then Ret (True, s', h_memset0 dest (unat (data_size field)) h)
          else if sz \<noteq> data_size field then fail ''incorrect fixed length bytes size'' s' h
          else Ret (read_to s' dest (ucast (data_size field)) h))"

section \<open>Submessages\<close>

text \<open>
  The recursive calls of the decoder stand for \<^verbatim>\<open>pb_decode_noinit\<close> one level down; \<open>d\<close> is the
  depth that is left for defaults and release.
\<close>

definition decode_and_init :: "'z pb_env_scheme \<Rightarrow> nat \<Rightarrow> message_decoder \<Rightarrow> message_decoder" where
  "decode_and_init E d noinit s fs dest h =
     run_bind (pb_message_set_to_defaults E d fs dest h) (\<lambda>h1.
     run_bind (noinit s fs dest h1) (\<lambda>(status, s', h2).
     if status then Ret (True, s', h2)
     else run_bind (pb_release E d fs dest h2) (\<lambda>h3. Ret (False, s', h3))))"

definition close_substream_with :: "bool \<Rightarrow> pb_istream \<Rightarrow> pb_istream \<Rightarrow> heap \<Rightarrow> decode_result" where
  "close_substream_with status s sub h =
     (case pb_close_string_substream s sub of
        (False, s') \<Rightarrow> Ret (False, s', h)
      | (True, s') \<Rightarrow> Ret (status, s', h))"

definition pb_dec_submessage :: "'z pb_env_scheme \<Rightarrow> nat \<Rightarrow> message_decoder \<Rightarrow> pb_decoder" where
  "pb_dec_submessage E d noinit s field dest h =
     (case pb_make_string_substream s of
        (None, s') \<Rightarrow> Ret (False, s', h)
      | (Some sub, s') \<Rightarrow>
          if ptr field = 0 then fail ''invalid field descriptor'' s' h
          else run_bind
            ((if PB_HTYPE (ftype field) = PB_HTYPE_REPEATED then decode_and_init E d noinit else noinit)
               sub (fields_of E (ptr field)) dest h)
            (\<lambda>(status, sub', h'). close_substream_with status s' sub' h'))"

text \<open>
  The call through \<^verbatim>\<open>PB_DECODERS[PB_LTYPE(type)]\<close>: entry 9 of the table is NULL and there is
  no entry from 11 on.
\<close>

definition call_decoder :: "'z dec_env_scheme \<Rightarrow> nat \<Rightarrow> message_decoder \<Rightarrow> pb_decoder" where
  "call_decoder E d noinit s field dest h =
     (let lt = PB_LTYPE (ftype field) in
      if lt = PB_LTYPE_BOOL then pb_dec_bool s field dest h
      else if lt = PB_LTYPE_VARINT then pb_dec_varint s field dest h
      else if lt = PB_LTYPE_UVARINT then pb_dec_uvarint s field dest h
      else if lt = PB_LTYPE_SVARINT then pb_dec_svarint s field dest h
      else if lt = PB_LTYPE_FIXED32 then pb_dec_fixed32 s field dest h
      else if lt = PB_LTYPE_FIXED64 then pb_dec_fixed64 s field dest h
      else if lt = PB_LTYPE_BYTES then pb_dec_bytes (alloc E) s field dest h
      else if lt = PB_LTYPE_STRING then pb_dec_string (alloc E) s field dest h
      else if lt = PB_LTYPE_SUBMESSAGE then pb_dec_submessage E d noinit s field dest h
      else if lt = PB_LTYPE_FIXED_LENGTH_BYTES then pb_dec_fixed_length_bytes s field dest h
      else Undefined)"

section \<open>Static fields\<close>

text \<open>
  The address of item \<open>i\<close> of an array at \<open>base\<close>: the product is computed with 32 bits.
\<close>

definition item_addr :: "addr \<Rightarrow> pb_field \<Rightarrow> pb_size_t \<Rightarrow> addr" where
  "item_addr base f i = base + ucast (data_size f * i)"

primrec static_packed ::
  "nat \<Rightarrow> pb_decoder \<Rightarrow> pb_field_iter \<Rightarrow> pb_istream \<Rightarrow> heap \<Rightarrow> decode_result" where
  "static_packed 0 func it sub h = OutOfFuel"
| "static_packed (Suc k) func it sub h =
     (let i = load_size h (pSize it) in
      if bytes_left sub > 0 \<and> i < array_size (cur it) then
        run_bind (func sub (cur it) (item_addr (pData it) (cur it) i) h) (\<lambda>(ok, sub', h').
          if \<not> ok then Ret (False, sub', h')
          else static_packed k func it sub' (store_size (pSize it) (load_size h' (pSize it) + 1) h'))
      else Ret (True, sub, h))"

definition decode_static_field ::
  "'z dec_env_scheme \<Rightarrow> nat \<Rightarrow> message_decoder \<Rightarrow> pb_istream \<Rightarrow> pb_wire_type_t \<Rightarrow> pb_field_iter \<Rightarrow>
   heap \<Rightarrow> decode_result" where
  "decode_static_field E d noinit s wire_type it h =
     (let f = cur it; type = ftype f; func = call_decoder E d noinit in
      if PB_LTYPE type \<ge> PB_LTYPES_COUNT then Undefined
      else if PB_HTYPE type = PB_HTYPE_REQUIRED then func s f (pData it) h
      else if PB_HTYPE type = PB_HTYPE_OPTIONAL then
        func s f (pData it) (if pSize it \<noteq> pData it then store_bool (pSize it) True h else h)
      else if PB_HTYPE type = PB_HTYPE_REPEATED then
        (if wire_type = PB_WT_STRING \<and> PB_LTYPE type \<le> PB_LTYPE_LAST_PACKABLE then
           (case pb_make_string_substream s of
              (None, s') \<Rightarrow> Ret (False, s', h)
            | (Some sub, s') \<Rightarrow>
                run_bind (static_packed (Suc (unat (bytes_left sub))) func it sub h)
                  (\<lambda>(status, sub', h').
                     if bytes_left sub' \<noteq> 0 then fail ''array overflow'' s' h'
                     else close_substream_with status s' sub' h'))
         else
           (let i = load_size h (pSize it);
                h' = store_size (pSize it) (i + 1) h in
            if i \<ge> array_size f then fail ''array overflow'' s h'
            else func s f (item_addr (pData it) f i) h'))
      else if PB_HTYPE type = PB_HTYPE_ONEOF then
        (let h' = store_size (pSize it) (tag f) h in
         if PB_LTYPE type = PB_LTYPE_SUBMESSAGE then
           run_bind (pb_message_set_to_defaults E d (fields_of E (ptr f)) (pData it)
                       (h_memset0 (pData it) (unat (data_size f)) h'))
             (\<lambda>h''. func s f (pData it) h'')
         else func s f (pData it) h')
      else fail ''invalid field type'' s h)"

section \<open>Pointer fields\<close>

definition initialize_pointer_field ::
  "'z pb_env_scheme \<Rightarrow> nat \<Rightarrow> addr \<Rightarrow> pb_field \<Rightarrow> heap \<Rightarrow> heap run" where
  "initialize_pointer_field E d item f h =
     (let lt = PB_LTYPE (ftype f) in
      if lt = PB_LTYPE_STRING \<or> lt = PB_LTYPE_BYTES then Ret (store_ptr item 0 h)
      else if lt = PB_LTYPE_SUBMESSAGE then
        pb_message_set_to_defaults E d (fields_of E (ptr f)) item
          (h_memset0 item (unat (data_size f)) h)
      else Ret h)"

text \<open>
  The growth of the array ahead of the decoded items: the guess at the number of items that
  remain.  A field of size 0 divides by zero.
\<close>

definition grow :: "pb_istream \<Rightarrow> pb_field \<Rightarrow> size_t \<Rightarrow> size_t run" where
  "grow sub f allocated_size =
     (if data_size f = 0 then Undefined
      else let remain = (bytes_left sub - 1) div ucast (data_size f) + 1 in
        Ret (if remain < ucast PB_SIZE_MAX - allocated_size then allocated_size + remain
             else allocated_size + 1))"

text \<open>
  The packed loop answers its status, whether it stopped with the message about too many
  entries (which the code puts on the parent stream), the substream and the memory.
\<close>

primrec pointer_packed ::
  "nat \<Rightarrow> 'z dec_env_scheme \<Rightarrow> nat \<Rightarrow> pb_decoder \<Rightarrow> pb_field_iter \<Rightarrow> size_t \<Rightarrow> pb_istream \<Rightarrow> heap \<Rightarrow>
   (bool \<times> bool \<times> pb_istream \<times> heap) run" where
  "pointer_packed 0 E d func it allocated_size sub h = OutOfFuel"
| "pointer_packed (Suc k) E d func it allocated_size sub h =
     (let f = cur it; i = load_size h (pSize it) in
      if bytes_left sub = 0 then Ret (True, False, sub, h)
      else if i = PB_SIZE_MAX then Ret (False, True, sub, h)
      else run_bind
        (if (ucast i :: size_t) + 1 > allocated_size then
           run_bind (grow sub f allocated_size) (\<lambda>n.
             case allocate_field (alloc E) sub (pData it) (ucast (data_size f)) n h of
               (ok, sub', h') \<Rightarrow> Ret (ok, n, sub', h'))
         else Ret (True, allocated_size, sub, h))
        (\<lambda>(ok, n, sub, h).
           if \<not> ok then Ret (False, False, sub, h)
           else let item = item_addr (load_ptr h (pData it)) f (load_size h (pSize it)) in
             run_bind (initialize_pointer_field E d item f h) (\<lambda>h.
             run_bind (func sub f item h) (\<lambda>(ok, sub, h).
               if \<not> ok then Ret (False, False, sub, h)
               else pointer_packed k E d func it n sub
                      (store_size (pSize it) (load_size h (pSize it) + 1) h)))))"

definition decode_pointer_single ::
  "'z dec_env_scheme \<Rightarrow> nat \<Rightarrow> pb_decoder \<Rightarrow> pb_istream \<Rightarrow> pb_field_iter \<Rightarrow> heap \<Rightarrow> decode_result" where
  "decode_pointer_single E d func s it h =
     (let f = cur it; type = ftype f in
      run_bind
        (if PB_LTYPE type = PB_LTYPE_SUBMESSAGE \<and> load_ptr h (pData it) \<noteq> 0
         then pb_release_single_field E d it h else Ret h)
        (\<lambda>h. let h = (if PB_HTYPE type = PB_HTYPE_ONEOF then store_size (pSize it) (tag f) h else h) in
          if PB_LTYPE type = PB_LTYPE_STRING \<or> PB_LTYPE type = PB_LTYPE_BYTES
          then func s f (pData it) h
          else case allocate_field (alloc E) s (pData it) (ucast (data_size f)) 1 h of
            (False, s', h') \<Rightarrow> Ret (False, s', h')
          | (True, s', h') \<Rightarrow>
              run_bind (initialize_pointer_field E d (load_ptr h' (pData it)) f h')
                (\<lambda>h''. func s' f (load_ptr h'' (pData it)) h'')))"

definition decode_pointer_field ::
  "'z dec_env_scheme \<Rightarrow> nat \<Rightarrow> message_decoder \<Rightarrow> pb_istream \<Rightarrow> pb_wire_type_t \<Rightarrow> pb_field_iter \<Rightarrow>
   heap \<Rightarrow> decode_result" where
  "decode_pointer_field E d noinit s wire_type it h =
     (let f = cur it; type = ftype f; func = call_decoder E d noinit in
      if PB_LTYPE type \<ge> PB_LTYPES_COUNT then Undefined
      else if PB_HTYPE type \<in> {PB_HTYPE_REQUIRED, PB_HTYPE_OPTIONAL, PB_HTYPE_ONEOF}
      then decode_pointer_single E d func s it h
      else if PB_HTYPE type = PB_HTYPE_REPEATED then
        (if wire_type = PB_WT_STRING \<and> PB_LTYPE type \<le> PB_LTYPE_LAST_PACKABLE then
           (case pb_make_string_substream s of
              (None, s') \<Rightarrow> Ret (False, s', h)
            | (Some sub, s') \<Rightarrow>
                run_bind (pointer_packed (Suc (unat (bytes_left sub))) E d func it
                            (ucast (load_size h (pSize it))) sub h)
                  (\<lambda>(status, too_many, sub', h').
                     close_substream_with status
                       (if too_many then s'\<lparr>errmsg := Some ''too many array entries''\<rparr> else s')
                       sub' h'))
         else
           (let i = load_size h (pSize it) in
            if i = PB_SIZE_MAX then fail ''too many array entries'' s h
            else case allocate_field (alloc E) s (pData it) (ucast (data_size f)) (ucast (i + 1)) h of
              (False, s', h') \<Rightarrow> Ret (False, s', h')
            | (True, s', h') \<Rightarrow>
                (let item = item_addr (load_ptr h' (pData it)) f (load_size h' (pSize it));
                     h'' = store_size (pSize it) (load_size h' (pSize it) + 1) h' in
                 run_bind (initialize_pointer_field E d item f h'') (\<lambda>h. func s' f item h))))
      else fail ''invalid field type'' s h)"

section \<open>Callback fields\<close>

text \<open>
  \<^verbatim>\<open>pb_callback_t\<close> in memory: the function pointer, then \<^verbatim>\<open>arg\<close>.  The function pointer is read
  again for every call, because a callback may change it.
\<close>

definition call_user :: "'z dec_env_scheme \<Rightarrow> pb_field_iter \<Rightarrow> pb_istream \<Rightarrow> heap \<Rightarrow> decode_result" where
  "call_user E it s h =
     (if load_ptr h (pData it) = 0 then Undefined
      else Ret (user_decode E (load_ptr h (pData it)) s (cur it) (pData it + 8) h))"

primrec callback_loop ::
  "nat \<Rightarrow> 'z dec_env_scheme \<Rightarrow> pb_field_iter \<Rightarrow> pb_istream \<Rightarrow> heap \<Rightarrow> decode_result" where
  "callback_loop 0 E it sub h = OutOfFuel"
| "callback_loop (Suc k) E it sub h =
     run_bind (call_user E it sub h) (\<lambda>(ok, sub', h').
       if \<not> ok then Ret (False, sub', h')
       else if bytes_left sub' \<noteq> 0 then callback_loop k E it sub' h'
       else Ret (True, sub', h'))"

definition decode_callback_field ::
  "'z dec_env_scheme \<Rightarrow> pb_istream \<Rightarrow> pb_wire_type_t \<Rightarrow> pb_field_iter \<Rightarrow> heap \<Rightarrow> decode_result" where
  "decode_callback_field E s wire_type it h =
     (if pData it = 0 \<or> load_ptr h (pData it) = 0
      then (case pb_skip_field s wire_type of (ok, s') \<Rightarrow> Ret (ok, s', h))
      else if wire_type = PB_WT_STRING then
        (case pb_make_string_substream s of
           (None, s') \<Rightarrow> Ret (False, s', h)
         | (Some sub, s') \<Rightarrow>
             run_bind (callback_loop (loop_fuel E) E it sub h) (\<lambda>(ok, sub', h').
               if \<not> ok then fail ''callback failed'' s' h'
               else close_substream_with True s' sub' h'))
      else
        (case read_raw_value s wire_type 10 of
           (None, s') \<Rightarrow> Ret (False, s', h)
         | (Some buffer, s') \<Rightarrow>
             run_bind (call_user E it (pb_istream_from_buffer buffer (of_nat (length buffer))) h)
               (\<lambda>(ok, sub', h'). Ret (ok, s', h'))))"

section \<open>One field\<close>

text \<open>
  \<^verbatim>\<open>pb_release_union_field\<close> moves the iterator to the old member of the union and back.
\<close>

definition pb_release_union_field ::
  "'z pb_env_scheme \<Rightarrow> nat \<Rightarrow> pb_istream \<Rightarrow> pb_field_iter \<Rightarrow> heap \<Rightarrow>
   (bool \<times> pb_istream \<times> pb_field_iter \<times> heap) run" where
  "pb_release_union_field E d s it h =
     (let old_tag = load_size h (pSize it); new_tag = tag (cur it) in
      if old_tag = 0 \<or> old_tag = new_tag then Ret (True, s, it, h)
      else case pb_field_iter_find it old_tag of
        (False, it') \<Rightarrow> Ret (False, set_error ''invalid union tag'' s, it', h)
      | (True, it') \<Rightarrow>
          run_bind (pb_release_single_field E d it' h) (\<lambda>h'.
            case pb_field_iter_find it' new_tag of
              (False, it'') \<Rightarrow> Ret (False, set_error ''iterator error'' s, it'', h')
            | (True, it'') \<Rightarrow> Ret (True, s, it'', h')))"

definition decode_field ::
  "'z dec_env_scheme \<Rightarrow> nat \<Rightarrow> message_decoder \<Rightarrow> pb_istream \<Rightarrow> pb_wire_type_t \<Rightarrow> pb_field_iter \<Rightarrow>
   heap \<Rightarrow> (bool \<times> pb_istream \<times> pb_field_iter \<times> heap) run" where
  "decode_field E d noinit s wire_type it h =
     run_bind
       (if PB_HTYPE (ftype (cur it)) = PB_HTYPE_ONEOF
        then pb_release_union_field E d s it h else Ret (True, s, it, h))
       (\<lambda>(ok, s, it, h).
          if \<not> ok then Ret (False, s, it, h)
          else run_bind
            (let atype = PB_ATYPE (ftype (cur it)) in
             if atype = PB_ATYPE_STATIC then decode_static_field E d noinit s wire_type it h
             else if atype = PB_ATYPE_POINTER then decode_pointer_field E d noinit s wire_type it h
             else if atype = PB_ATYPE_CALLBACK then decode_callback_field E s wire_type it h
             else fail ''invalid field type'' s h)
            (\<lambda>(ok, s, h). Ret (ok, s, it, h)))"

section \<open>Extensions\<close>

definition default_extension_decoder ::
  "'z dec_env_scheme \<Rightarrow> nat \<Rightarrow> message_decoder \<Rightarrow> pb_istream \<Rightarrow> addr \<Rightarrow> 32 word \<Rightarrow> pb_wire_type_t \<Rightarrow>
   heap \<Rightarrow> decode_result" where
  "default_extension_decoder E d noinit s ext t wire_type h =
     (if tag (field_at (fields_of E (ext_type_arg h ext)) 0) \<noteq> t then Ret (True, s, h)
      else let it = iter_from_extension E ext h; h' = store_bool (ext_found ext) True h in
        run_bind (decode_field E d noinit s wire_type it h') (\<lambda>(ok, s', it', h''). Ret (ok, s', h'')))"

primrec decode_extension_loop ::
  "nat \<Rightarrow> 'z dec_env_scheme \<Rightarrow> nat \<Rightarrow> message_decoder \<Rightarrow> size_t \<Rightarrow> 32 word \<Rightarrow> pb_wire_type_t \<Rightarrow>
   addr \<Rightarrow> pb_istream \<Rightarrow> heap \<Rightarrow> decode_result" where
  "decode_extension_loop 0 E d noinit at t wire_type ext s h =
     (if ext \<noteq> 0 \<and> at = bytes_left s then OutOfFuel else Ret (True, s, h))"
| "decode_extension_loop (Suc k) E d noinit at t wire_type ext s h =
     (if ext \<noteq> 0 \<and> at = bytes_left s then
        run_bind
          (if ext_type_decode h ext \<noteq> 0
           then Ret (user_ext_decode E (ext_type_decode h ext) s ext t wire_type h)
           else default_extension_decoder E d noinit s ext t wire_type h)
          (\<lambda>(ok, s', h').
             if \<not> ok then Ret (False, s', h')
             else decode_extension_loop k E d noinit at t wire_type (ext_next h' ext) s' h')
      else Ret (True, s, h))"

definition decode_extension ::
  "'z dec_env_scheme \<Rightarrow> nat \<Rightarrow> message_decoder \<Rightarrow> pb_istream \<Rightarrow> 32 word \<Rightarrow> pb_wire_type_t \<Rightarrow>
   pb_field_iter \<Rightarrow> heap \<Rightarrow> decode_result" where
  "decode_extension E d noinit s t wire_type it h =
     decode_extension_loop (loop_fuel E) E d noinit (bytes_left s) t wire_type
       (load_ptr h (pData it)) s h"

section \<open>The main loop\<close>

text \<open>The locals of \<^verbatim>\<open>pb_decode_noinit\<close>; \<open>fixed_field\<close> is the index of \<^verbatim>\<open>fixed_count_field\<close>.\<close>

record decode_state =
  ds_stream :: pb_istream
  ds_heap :: heap
  ds_iter :: pb_field_iter
  seen :: "32 word list"
  ext_start :: "32 word"
  fixed_field :: "nat option"

datatype flow = Continue | Break | Fail

text \<open>\<^verbatim>\<open>fixed_count_field != NULL && fixed_count_size != fixed_count_field->array_size\<close>\<close>

definition fixed_incomplete :: "addr \<Rightarrow> decode_state \<Rightarrow> bool" where
  "fixed_incomplete local st =
     (case fixed_field st of
        None \<Rightarrow> False
      | Some i \<Rightarrow> load_size (ds_heap st) local \<noteq> array_size (field_at (start (ds_iter st)) i))"

text \<open>A repeated field without a counter in the struct counts in the local.\<close>

definition enter_fixed_count :: "addr \<Rightarrow> decode_state \<Rightarrow> bool \<times> decode_state" where
  "enter_fixed_count local st =
     (let it = ds_iter st in
      if PB_HTYPE (ftype (cur it)) = PB_HTYPE_REPEATED \<and> pSize it = pData it then
        (if fixed_field st \<noteq> Some (pos it) \<and> fixed_incomplete local st
         then (False, st\<lparr>ds_stream := set_error ''wrong size for fixed count field'' (ds_stream st)\<rparr>)
         else (True,
           (if fixed_field st \<noteq> Some (pos it)
            then st\<lparr>fixed_field := Some (pos it), ds_heap := store_size local 0 (ds_heap st)\<rparr>
            else st)\<lparr>ds_iter := it\<lparr>pSize := local\<rparr>\<rparr>))
      else (True, st))"

definition mark_seen :: "pb_field_iter \<Rightarrow> 32 word list \<Rightarrow> 32 word list" where
  "mark_seen it sn =
     (let i = required_field_index it; w = unat (drop_bit 5 i) in
      if PB_HTYPE (ftype (cur it)) = PB_HTYPE_REQUIRED \<and> i < PB_MAX_REQUIRED_FIELDS
      then sn[w := sn ! w OR push_bit (unat (i AND 31)) 1] else sn)"

text \<open>A tag without an entry: try the extensions, else skip the value.\<close>

definition skip_unknown :: "pb_wire_type_t \<Rightarrow> decode_state \<Rightarrow> flow \<times> decode_state" where
  "skip_unknown wire_type st =
     (case pb_skip_field (ds_stream st) wire_type of
        (ok, s') \<Rightarrow> (if ok then Continue else Fail, st\<lparr>ds_stream := s'\<rparr>))"

definition unknown_field ::
  "'z dec_env_scheme \<Rightarrow> nat \<Rightarrow> message_decoder \<Rightarrow> 32 word \<Rightarrow> pb_wire_type_t \<Rightarrow> decode_state \<Rightarrow>
   (flow \<times> decode_state) run" where
  "unknown_field E d noinit t wire_type st =
     (if t \<ge> ext_start st then
        (let (found, it') = find_extension_field (ds_iter st);
             st' = st\<lparr>ds_iter := it', ext_start := (if found then tag (cur it') else 0xFFFFFFFF)\<rparr> in
         if t \<ge> ext_start st' then
           run_bind (decode_extension E d noinit (ds_stream st') t wire_type it' (ds_heap st'))
             (\<lambda>(ok, s', h').
                let st'' = st'\<lparr>ds_stream := s', ds_heap := h'\<rparr> in
                if \<not> ok then Ret (Fail, st'')
                else if bytes_left (ds_stream st') \<noteq> bytes_left s' then Ret (Continue, st'')
                else Ret (skip_unknown wire_type st''))
         else Ret (skip_unknown wire_type st'))
      else Ret (skip_unknown wire_type st))"

definition known_field ::
  "'z dec_env_scheme \<Rightarrow> nat \<Rightarrow> message_decoder \<Rightarrow> pb_wire_type_t \<Rightarrow> decode_state \<Rightarrow>
   (flow \<times> decode_state) run" where
  "known_field E d noinit wire_type st =
     (case enter_fixed_count (frame_local E d) st of
        (False, st') \<Rightarrow> Ret (Fail, st')
      | (True, st') \<Rightarrow>
          run_bind (decode_field E d noinit (ds_stream st') wire_type (ds_iter st') (ds_heap st'))
            (\<lambda>(ok, s', it', h').
               Ret (if ok then Continue else Fail,
                    st'\<lparr>ds_stream := s', ds_heap := h', ds_iter := it',
                        seen := mark_seen (ds_iter st') (seen st')\<rparr>)))"

definition decode_step ::
  "'z dec_env_scheme \<Rightarrow> nat \<Rightarrow> message_decoder \<Rightarrow> decode_state \<Rightarrow> (flow \<times> decode_state) run" where
  "decode_step E d noinit st =
     (case pb_decode_tag (ds_stream st) of
        (False, _, _, eof, s') \<Rightarrow> Ret (if eof then Break else Fail, st\<lparr>ds_stream := s'\<rparr>)
      | (True, wire_type, t, _, s') \<Rightarrow>
          (case pb_field_iter_find (ds_iter st) t of
             (False, it') \<Rightarrow>
               unknown_field E d noinit t wire_type (st\<lparr>ds_stream := s', ds_iter := it'\<rparr>)
           | (True, it') \<Rightarrow>
               known_field E d noinit wire_type (st\<lparr>ds_stream := s', ds_iter := it'\<rparr>)))"

primrec decode_loop ::
  "nat \<Rightarrow> (decode_state \<Rightarrow> (flow \<times> decode_state) run) \<Rightarrow> decode_state \<Rightarrow> (bool \<times> decode_state) run" where
  "decode_loop 0 step st = OutOfFuel"
| "decode_loop (Suc k) step st =
     (if bytes_left (ds_stream st) = 0 then Ret (True, st)
      else run_bind (step st) (\<lambda>(flow, st').
        case flow of Break \<Rightarrow> Ret (True, st') | Fail \<Rightarrow> Ret (False, st')
        | Continue \<Rightarrow> decode_loop k step st'))"

text \<open>
  Seeking to the end: the required index and the type at the last entry, and the iterator.
\<close>

primrec seek_end :: "nat \<Rightarrow> pb_field_iter \<Rightarrow> (32 word \<times> pb_type_t \<times> pb_field_iter) run" where
  "seek_end 0 it = OutOfFuel"
| "seek_end (Suc k) it =
     (case pb_field_iter_next it of
        (False, it') \<Rightarrow> Ret (required_field_index it, ftype (cur it), it')
      | (True, it') \<Rightarrow> seek_end k it')"

definition missing_required :: "32 word \<Rightarrow> 32 word list \<Rightarrow> bool" where
  "missing_required count sn \<longleftrightarrow>
     (\<exists>i \<in> set [0..<unat (drop_bit 5 count)]. sn ! i \<noteq> - 1) \<or>
     (count AND 31 \<noteq> 0 \<and>
      sn ! unat (drop_bit 5 count) \<noteq> drop_bit (unat (32 - (count AND 31))) (- 1))"

definition required_total :: "32 word \<Rightarrow> pb_type_t \<Rightarrow> pb_field_iter \<Rightarrow> 32 word" where
  "required_total index last_type it =
     (let n = (if PB_HTYPE last_type = PB_HTYPE_REQUIRED \<and> tag (cur it) \<noteq> 0
               then index + 1 else index) in
      if n > PB_MAX_REQUIRED_FIELDS then PB_MAX_REQUIRED_FIELDS else n)"

definition decode_finish :: "addr \<Rightarrow> decode_state \<Rightarrow> decode_result" where
  "decode_finish local st =
     (if fixed_incomplete local st
      then fail ''wrong size for fixed count field'' (ds_stream st) (ds_heap st)
      else run_bind (seek_end (Suc (length (start (ds_iter st)))) (ds_iter st))
        (\<lambda>(index, last_type, it).
           if missing_required (required_total index last_type it) (seen st)
           then fail ''missing required field'' (ds_stream st) (ds_heap st)
           else Ret (True, ds_stream st, ds_heap st)))"

definition decode_start :: "'z dec_env_scheme \<Rightarrow> nat \<Rightarrow> pb_istream \<Rightarrow> pb_field list \<Rightarrow> addr \<Rightarrow> heap \<Rightarrow> decode_state" where
  "decode_start E d s fs dest h =
     \<lparr>ds_stream = s, ds_heap = store_size (frame_local E d) 0 h,
      ds_iter = snd (pb_field_iter_begin fs dest), seen = [0, 0], ext_start = 0, fixed_field = None\<rparr>"

text \<open>The message decoder: its submessages are decoded with one level less.\<close>

primrec pb_decode_noinit :: "'z dec_env_scheme \<Rightarrow> nat \<Rightarrow> message_decoder" where
  "pb_decode_noinit E 0 s fs dest h = OutOfFuel"
| "pb_decode_noinit E (Suc d) s fs dest h =
     run_bind (decode_loop (Suc (unat (bytes_left s))) (decode_step E d (pb_decode_noinit E d))
                 (decode_start E d s fs dest h))
       (\<lambda>(ok, st). if ok then decode_finish (frame_local E d) st
                   else Ret (False, ds_stream st, ds_heap st))"

definition pb_decode :: "'z dec_env_scheme \<Rightarrow> nat \<Rightarrow> message_decoder" where
  "pb_decode E d = decode_and_init E d (pb_decode_noinit E d)"

definition decode_delimited_with :: "message_decoder \<Rightarrow> message_decoder" where
  "decode_delimited_with dec s fs dest h =
     (case pb_make_string_substream s of
        (None, s') \<Rightarrow> Ret (False, s', h)
      | (Some sub, s') \<Rightarrow>
          run_bind (dec sub fs dest h)
            (\<lambda>(status, sub', h'). close_substream_with status s' sub' h'))"

definition pb_decode_delimited_noinit :: "'z dec_env_scheme \<Rightarrow> nat \<Rightarrow> message_decoder" where
  "pb_decode_delimited_noinit E d = decode_delimited_with (pb_decode_noinit E d)"

definition pb_decode_delimited :: "'z dec_env_scheme \<Rightarrow> nat \<Rightarrow> message_decoder" where
  "pb_decode_delimited E d = decode_delimited_with (pb_decode E d)"

definition pb_decode_nullterminated :: "'z dec_env_scheme \<Rightarrow> nat \<Rightarrow> message_decoder" where
  "pb_decode_nullterminated E d = pb_decode E d"

definition pb_decode_bool :: "pb_istream \<Rightarrow> addr \<Rightarrow> heap \<Rightarrow> decode_result" where
  "pb_decode_bool s dest h = pb_dec_bool s PB_LAST_FIELD dest h"

end
