(* ===== verification/Pb_Safe.thy ===== *)
theory Pb_Safe
  imports Pb_Decode
begin

text \<open>
  Safety of the message decoder on arbitrary input: with descriptors that fit the struct, and
  submessages nested no deeper than the fuel, \<^verbatim>\<open>pb_decode\<close> returns, reads only its buffer, and
  changes no byte outside the struct.
\<close>

section \<open>Effects on the stream and the memory\<close>

text \<open>
  A buffer stream after any reader: a suffix of what it was, still within its bytes, and moved
  no further than \<^verbatim>\<open>bytes_left\<close> says.  (An error inside a submessage leaves the parent's pointer
  behind its \<^verbatim>\<open>bytes_left\<close>.)
\<close>

definition shrinks :: "pb_istream \<Rightarrow> pb_istream \<Rightarrow> bool" where
  "shrinks s s' \<longleftrightarrow> in_bounds s' \<and> bytes_left s' \<le> bytes_left s \<and>
     (\<exists>k \<le> unat (bytes_left s) - unat (bytes_left s'). state s' = drop k (state s))"

text \<open>
  Memory changes only in \<open>W\<close>.  When \<open>W\<close> is not all of memory the allocator is not used either.
\<close>

definition keeps :: "addr set \<Rightarrow> heap \<Rightarrow> heap \<Rightarrow> bool" where
  "keeps W h h' \<longleftrightarrow> (\<forall>x. x \<notin> W \<longrightarrow> mem h' x = mem h x) \<and>
     (W \<noteq> UNIV \<longrightarrow> blocks h' = blocks h \<and> bad_free h' = bad_free h)"

definition outcome :: "addr set \<Rightarrow> pb_istream \<Rightarrow> heap \<Rightarrow> decode_result \<Rightarrow> bool" where
  "outcome W s h r \<longleftrightarrow> (\<exists>ok s' h'. r = Ret (ok, s', h') \<and> shrinks s s' \<and> keeps W h h')"

definition hoare :: "addr set \<Rightarrow> heap \<Rightarrow> heap run \<Rightarrow> bool" where
  "hoare W h r \<longleftrightarrow> (\<exists>h'. r = Ret h' \<and> keeps W h h')"

lemma shrinks_refl: "in_bounds s \<Longrightarrow> shrinks s s"
  by (auto simp: shrinks_def intro: exI [of _ 0])

lemma shrinks_trans [trans]:
  assumes "shrinks s t" and "shrinks t u"
  shows "shrinks s u"
proof -
  obtain k l where k: "k \<le> unat (bytes_left s) - unat (bytes_left t)" "state t = drop k (state s)"
    and l: "l \<le> unat (bytes_left t) - unat (bytes_left u)" "state u = drop l (state t)"
    using assms by (auto simp: shrinks_def)
  have le: "unat (bytes_left t) \<le> unat (bytes_left s)" "unat (bytes_left u) \<le> unat (bytes_left t)"
    using assms by (simp_all add: shrinks_def word_le_nat_alt)
  have "l + k \<le> unat (bytes_left s) - unat (bytes_left u)" using k l le by linarith
  moreover have "state u = drop (l + k) (state s)" using k l by simp
  moreover have "bytes_left u \<le> bytes_left s" using le by (simp add: word_le_nat_alt)
  ultimately show ?thesis using assms(2) by (auto simp: shrinks_def)
qed

lemma shrinks_in_bounds: "shrinks s s' \<Longrightarrow> in_bounds s'"
  by (simp add: shrinks_def)

lemma advances_shrinks: "in_bounds s \<Longrightarrow> advances s s' \<Longrightarrow> shrinks s s'"
  using in_bounds_advances [of s s'] by (auto simp: shrinks_def advances_def in_bounds_def)

lemma shrinks_set_error [simp]: "shrinks s (set_error msg t) = shrinks s t"
  by (simp add: shrinks_def in_bounds_def)

lemma shrinks_errmsg [simp]: "shrinks s (t\<lparr>errmsg := e\<rparr>) = shrinks s t"
  by (simp add: shrinks_def in_bounds_def)

lemma keeps_refl [simp, intro]: "keeps W h h"
  by (simp add: keeps_def)

lemma keeps_trans [trans]: "keeps W h h1 \<Longrightarrow> keeps W h1 h2 \<Longrightarrow> keeps W h h2"
  by (auto simp: keeps_def)

lemma keeps_UNIV [simp]: "keeps UNIV h h'"
  by (simp add: keeps_def)

lemma keeps_write:
  "length bs \<le> 2 ^ 64 \<Longrightarrow> extent a (length bs) \<subseteq> W \<Longrightarrow> keeps W h (h_write a bs h)"
  using store_bytes_outside [of bs _ a "mem h"] by (auto simp: keeps_def subset_iff)

lemma keeps_store: "n \<le> 2 ^ 64 \<Longrightarrow> extent a n \<subseteq> W \<Longrightarrow> keeps W h (h_store a n w h)"
  using store_le_outside [of n _ a "mem h" w] by (auto simp: keeps_def subset_iff)

lemma keeps_store_bool: "extent a (Suc 0) \<subseteq> W \<Longrightarrow> keeps W h (store_bool a b h)"
  by (simp add: store_bool_def keeps_store)

lemma keeps_memset0: "n \<le> 2 ^ 64 \<Longrightarrow> extent a n \<subseteq> W \<Longrightarrow> keeps W h (h_memset0 a n h)"
  by (simp add: h_memset0_def keeps_write)

lemma keeps_memcpy: "n \<le> 2 ^ 64 \<Longrightarrow> extent a n \<subseteq> W \<Longrightarrow> keeps W h (h_memcpy a p n h)"
  by (simp add: h_memcpy_def keeps_write)

lemma extent_mono_in: "extent a k \<subseteq> W \<Longrightarrow> n \<le> k \<Longrightarrow> extent a n \<subseteq> W"
  using extent_mono by blast

section \<open>Composition\<close>

lemma outcome_Ret: "shrinks s s' \<Longrightarrow> keeps W h h' \<Longrightarrow> outcome W s h (Ret (ok, s', h'))"
  by (simp add: outcome_def)

lemma outcome_fail: "shrinks s s' \<Longrightarrow> keeps W h h' \<Longrightarrow> outcome W s h (fail msg s' h')"
  by (auto simp: outcome_def fail_def)

lemma outcome_after:
  "outcome W s' h' r \<Longrightarrow> shrinks s s' \<Longrightarrow> keeps W h h' \<Longrightarrow> outcome W s h r"
  by (auto simp: outcome_def intro: shrinks_trans keeps_trans)

lemma outcome_bind:
  assumes "outcome W s h r"
    and "\<And>ok s' h'. r = Ret (ok, s', h') \<Longrightarrow> shrinks s s' \<Longrightarrow> keeps W h h' \<Longrightarrow> outcome W t h (f (ok, s', h'))"
  shows "outcome W t h (run_bind r f)"
  using assms by (auto simp: outcome_def)

lemma outcome_hoare_bind:
  assumes "hoare W h r" and "\<And>h'. keeps W h h' \<Longrightarrow> outcome W s h (f h')"
  shows "outcome W s h (run_bind r f)"
  using assms by (auto simp: hoare_def)

lemma hoare_Ret: "keeps W h h' \<Longrightarrow> hoare W h (Ret h')"
  by (simp add: hoare_def)

lemma hoare_after: "hoare W h' r \<Longrightarrow> keeps W h h' \<Longrightarrow> hoare W h r"
  by (auto simp: hoare_def intro: keeps_trans)

lemma hoare_bind:
  assumes "hoare W h r" and "\<And>h'. keeps W h h' \<Longrightarrow> hoare W h' (f h')"
  shows "hoare W h (run_bind r f)"
  using assms by (fastforce simp: hoare_def intro: keeps_trans)

lemma hoare_each_field:
  assumes "\<And>i h. i < nfields fs \<Longrightarrow> hoare W h (f (iter_at fs dest i) h)"
  shows "hoare W h (each_field f fs dest h)"
proof (cases "0 < nfields fs")
  case True
  let ?body = "\<lambda>it h. run_bind (f it h) (\<lambda>h'. Ret (True, h'))"
  have step: "\<exists>go h'. ?body (iter_at fs dest i) h1 = Ret (go, h') \<and> (go \<longrightarrow> keeps W h h') \<and> (\<not> go \<longrightarrow> False)"
    if "i < nfields fs" "keeps W h h1" for i h1
  proof -
    note i = that(1) and before = that(2)
    obtain h' where "f (iter_at fs dest i) h1 = Ret h'" "keeps W h1 h'"
      using assms [OF i, of h1] by (auto simp: hoare_def)
    then show ?thesis using keeps_trans [OF before] by (intro exI [of _ True] exI [of _ h']) simp
  qed
  obtain go h' where "do_fields (Suc (length fs)) pb_field_iter_next ?body (iter_at fs dest 0) h
      = Ret (go, h')" "go \<longrightarrow> keeps W h h'" "go"
    using walk.do_fields_inv [of fs "Suc (length fs)" "\<lambda>_ h1. keeps W h h1" h ?body dest "\<lambda>_. False"]
      True nfields_le [of fs] step by auto
  with True show ?thesis by (auto simp: each_field_def begin_iter_at hoare_def)
next
  case False
  then show ?thesis by (simp add: each_field_def begin_iter_at hoare_Ret)
qed

lemma hoare_item_loop:
  assumes "\<And>k h. k < n \<Longrightarrow> hoare W h (body (p + of_nat k * step) h)"
  shows "hoare W h (item_loop n step body p h)"
  using assms
proof (induction n arbitrary: p h)
  case 0
  then show ?case by (simp add: hoare_Ret)
next
  case (Suc n)
  have "hoare W h (body p h)" using Suc.prems [of 0 h] by simp
  moreover have "hoare W h' (item_loop n step body (p + step) h')" for h'
  proof (rule Suc.IH)
    fix k h assume "k < n"
    then show "hoare W h (body (p + step + of_nat k * step) h)"
      using Suc.prems [of "Suc k" h] by (simp add: algebra_simps)
  qed
  ultimately show ?case by (auto intro: hoare_bind)
qed

section \<open>Descriptors that fit the memory\<close>

text \<open>
  \<open>item_width f\<close> bounds what a decoder of field \<open>f\<close> writes at an item.  \<open>field_ok\<close> says that
  the type code is one of the table, that what is written for the field (items, counter,
  presence flag) lies in \<open>W\<close>, and that its submessages are fine; pointer fields are allowed
  only when all of memory may be written.  Extensions and callbacks are not.
\<close>

definition item_width :: "pb_field \<Rightarrow> nat" where
  "item_width f = max (unat (data_size f))
     (let lt = PB_LTYPE (ftype f) in
      if lt = PB_LTYPE_FIXED64 then 8 else if lt = PB_LTYPE_FIXED32 then 4
      else if lt = PB_LTYPE_BOOL then 1 else 0)"

definition static_ok :: "'z pb_env_scheme \<Rightarrow> addr set \<Rightarrow> (pb_field list \<Rightarrow> addr \<Rightarrow> bool) \<Rightarrow> pb_field_iter \<Rightarrow> bool" where
  "static_ok E W sub it \<longleftrightarrow>
     unat (data_size (cur it)) * unat (array_size (cur it)) < 2 ^ 32 \<and>
     (\<forall>k. k < (if PB_HTYPE (ftype (cur it)) = PB_HTYPE_REPEATED then array_size (cur it) else 1) \<longrightarrow>
        extent (item_addr (pData it) (cur it) k) (item_width (cur it)) \<subseteq> W \<and>
        (PB_LTYPE (ftype (cur it)) = PB_LTYPE_SUBMESSAGE \<longrightarrow>
           sub (fields_of E (ptr (cur it))) (item_addr (pData it) (cur it) k)))"

definition pointer_ok :: "'z pb_env_scheme \<Rightarrow> addr set \<Rightarrow> (pb_field list \<Rightarrow> addr \<Rightarrow> bool) \<Rightarrow> pb_field \<Rightarrow> bool" where
  "pointer_ok E W sub f \<longleftrightarrow> W = UNIV \<and> data_size f \<noteq> 0 \<and>
     (PB_LTYPE (ftype f) = PB_LTYPE_SUBMESSAGE \<longrightarrow> (\<forall>a. sub (fields_of E (ptr f)) a))"

definition counter_ok :: "addr set \<Rightarrow> pb_field_iter \<Rightarrow> bool" where
  "counter_ok W it \<longleftrightarrow> (let ht = PB_HTYPE (ftype (cur it)) in
     (ht = PB_HTYPE_OPTIONAL \<and> pSize it \<noteq> pData it \<longrightarrow> extent (pSize it) 1 \<subseteq> W) \<and>
     (ht = PB_HTYPE_REPEATED \<or> ht = PB_HTYPE_ONEOF \<longrightarrow> extent (pSize it) 4 \<subseteq> W))"

definition field_ok :: "'z pb_env_scheme \<Rightarrow> addr set \<Rightarrow> (pb_field list \<Rightarrow> addr \<Rightarrow> bool) \<Rightarrow> pb_field_iter \<Rightarrow> bool" where
  "field_ok E W sub it \<longleftrightarrow> (let f = cur it; lt = PB_LTYPE (ftype f) in
     lt < PB_LTYPES_COUNT \<and> lt \<noteq> PB_LTYPE_EXTENSION \<and>
     (lt = PB_LTYPE_SUBMESSAGE \<longrightarrow> ptr f \<noteq> 0) \<and> counter_ok W it \<and>
     (if PB_ATYPE (ftype f) = PB_ATYPE_STATIC then static_ok E W sub it
      else PB_ATYPE (ftype f) = PB_ATYPE_POINTER \<and> pointer_ok E W sub f))"

text \<open>
  A message whose submessages nest at most \<open>n\<close> deep.  An empty message is decoded as if its
  terminator were a field, so the terminator counts there.
\<close>

primrec msg_ok :: "'z pb_env_scheme \<Rightarrow> addr set \<Rightarrow> nat \<Rightarrow> pb_field list \<Rightarrow> addr \<Rightarrow> bool" where
  "msg_ok E W 0 fs dest = False"
| "msg_ok E W (Suc n) fs dest =
     (\<forall>i < max 1 (nfields fs). field_ok E W (msg_ok E W n) (iter_at fs dest i))"

lemma bit_htype_mask: "bit (PB_HTYPE_MASK :: byte) n \<longleftrightarrow> n = 4 \<or> n = 5"
proof -
  have "(PB_HTYPE_MASK :: byte) = push_bit 4 (mask 2)"
    by (simp add: mask_eq_exp_minus_1 push_bit_eq_mult)
  then show ?thesis by (simp only: bit_push_bit_iff bit_mask_iff) auto
qed

lemma htype_cases:
  "PB_HTYPE t = PB_HTYPE_REQUIRED \<or> PB_HTYPE t = PB_HTYPE_OPTIONAL \<or>
   PB_HTYPE t = PB_HTYPE_REPEATED \<or> PB_HTYPE t = PB_HTYPE_ONEOF"
proof -
  have bits: "bit (PB_HTYPE t) n \<longleftrightarrow> (n = 4 \<and> bit t 4) \<or> (n = 5 \<and> bit t 5)" for n
    unfolding PB_HTYPE_def bit_and_iff bit_htype_mask by auto
  have p4: "(push_bit 4 1 :: byte) = PB_HTYPE_OPTIONAL" and p5: "(push_bit 5 1 :: byte) = PB_HTYPE_REPEATED"
    by simp_all
  have "PB_HTYPE t = (if bit t 4 then push_bit 4 1 else 0) OR (if bit t 5 then push_bit 5 1 else 0)"
    by (rule bit_word_eqI, unfold bits bit_or_iff) (auto simp: bit_push_bit_iff bit_1_iff
        simp del: push_bit_of_1 push_bit_numeral split: if_splits)
  then show ?thesis unfolding p4 p5 by (cases "bit t 4"; cases "bit t 5") simp_all
qed

lemma field_okD:
  assumes "field_ok E W sub it"
  shows "PB_LTYPE (ftype (cur it)) < PB_LTYPES_COUNT" "PB_LTYPE (ftype (cur it)) \<noteq> PB_LTYPE_EXTENSION"
    "counter_ok W it"
    "PB_ATYPE (ftype (cur it)) = PB_ATYPE_STATIC \<Longrightarrow> static_ok E W sub it"
    "PB_ATYPE (ftype (cur it)) \<noteq> PB_ATYPE_STATIC \<Longrightarrow> PB_ATYPE (ftype (cur it)) = PB_ATYPE_POINTER"
    "PB_ATYPE (ftype (cur it)) = PB_ATYPE_POINTER \<Longrightarrow> pointer_ok E W sub (cur it)"
  using assms by (auto simp: field_ok_def Let_def split: if_splits)

lemma item_addr_0 [simp]: "item_addr base f 0 = base"
  by (simp add: item_addr_def)

lemma static_okD:
  assumes "static_ok E W sub it"
    and "PB_HTYPE (ftype (cur it)) = PB_HTYPE_REPEATED \<Longrightarrow> k < array_size (cur it)"
    and "PB_HTYPE (ftype (cur it)) \<noteq> PB_HTYPE_REPEATED \<Longrightarrow> k = 0"
  shows "extent (item_addr (pData it) (cur it) k) (item_width (cur it)) \<subseteq> W"
    and "PB_LTYPE (ftype (cur it)) = PB_LTYPE_SUBMESSAGE \<Longrightarrow>
      sub (fields_of E (ptr (cur it))) (item_addr (pData it) (cur it) k)"
  using assms by (auto simp: static_ok_def word_less_nat_alt)

lemma item_width_ge: "unat (data_size f) \<le> item_width f"
  by (simp add: item_width_def)

lemma static_data:
  assumes "static_ok E W sub it" and "PB_HTYPE (ftype (cur it)) \<noteq> PB_HTYPE_REPEATED"
  shows "extent (pData it) (unat (data_size (cur it))) \<subseteq> W"
  using static_okD(1) [OF assms(1), of 0] assms(2) item_width_ge extent_mono_in by fastforce

section \<open>Defaults and release\<close>

lemma hoare_defaults_fields:
  "msg_ok E W (Suc n) fs dest \<Longrightarrow>
   (\<And>it h. field_ok E W (msg_ok E W n) it \<Longrightarrow> hoare W h (f it h)) \<Longrightarrow>
   hoare W h (each_field f fs dest h)"
  by (rule hoare_each_field) simp

lemma hoare_set_to_default_body:
  assumes ok: "field_ok E W sub it"
    and subs: "\<And>fs a h. sub fs a \<Longrightarrow> hoare W h (each_field self fs a h)"
  shows "hoare W h (set_to_default_body E self it h)"
proof -
  let ?f = "cur it" let ?t = "ftype (cur it)"
  note okD = field_okD [OF ok]
  have cnt: "counter_ok W it" by (rule okD(3))
  show ?thesis
  proof (cases "PB_ATYPE ?t = PB_ATYPE_STATIC")
    case True
    then have st: "static_ok E W sub it" by (rule okD(4))
    show ?thesis
    proof (cases "PB_HTYPE ?t = PB_HTYPE_REPEATED \<or> PB_HTYPE ?t = PB_HTYPE_ONEOF")
      case ht: True
      then have "keeps W h (store_size (pSize it) 0 h)"
        using cnt by (intro keeps_store) (auto simp: counter_ok_def Let_def)
      with ht True okD(2) show ?thesis by (auto simp: set_to_default_body_def Let_def intro: hoare_Ret)
    next
      case ht: False
      let ?h = "if PB_HTYPE ?t = PB_HTYPE_OPTIONAL \<and> pSize it \<noteq> pData it
        then store_bool (pSize it) False h else h"
      have k: "keeps W h ?h" using cnt by (auto simp: counter_ok_def Let_def intro: keeps_store_bool)
      have "hoare W ?h
        (if PB_LTYPE ?t = PB_LTYPE_SUBMESSAGE then each_field self (fields_of E (ptr ?f)) (pData it) ?h
         else if ptr ?f \<noteq> 0 then Ret (h_memcpy (pData it) (ptr ?f) (unat (data_size ?f)) ?h)
         else Ret (h_memset0 (pData it) (unat (data_size ?f)) ?h))"
        using static_okD(2) [OF st, of 0] static_data [OF st] ht
        by (auto intro!: hoare_Ret keeps_memcpy keeps_memset0 subs unat_32_le)
      then have "hoare W h
        (if PB_LTYPE ?t = PB_LTYPE_SUBMESSAGE then each_field self (fields_of E (ptr ?f)) (pData it) ?h
         else if ptr ?f \<noteq> 0 then Ret (h_memcpy (pData it) (ptr ?f) (unat (data_size ?f)) ?h)
         else Ret (h_memset0 (pData it) (unat (data_size ?f)) ?h))" using k by (rule hoare_after)
      with ht True okD(2) show ?thesis
        unfolding set_to_default_body_def Let_def by (auto split: if_splits)
    qed
  next
    case False
    then have "W = UNIV" "PB_ATYPE ?t = PB_ATYPE_POINTER"
      using okD(5,6) by (auto simp: pointer_ok_def)
    with okD(2) show ?thesis by (auto simp: set_to_default_body_def Let_def intro!: hoare_Ret)
  qed
qed

lemma hoare_set_to_default:
  "n \<le> d \<Longrightarrow> field_ok E W (msg_ok E W n) it \<Longrightarrow> hoare W h (pb_field_set_to_default E (Suc d) it h)"
proof (induction d arbitrary: n it h)
  case 0
  then show ?case by (auto intro: hoare_set_to_default_body)
next
  case (Suc d)
  show ?case
  proof (subst pb_field_set_to_default.simps, rule hoare_set_to_default_body [OF Suc.prems(2)])
    fix fs a h assume sub: "msg_ok E W n fs a"
    then obtain m where n: "n = Suc m" by (cases n) simp_all
    with Suc.prems(1) have "m \<le> d" by simp
    with sub n show "hoare W h (each_field (pb_field_set_to_default E (Suc d)) fs a h)"
      by (intro hoare_defaults_fields [of E W m]) (simp_all only: Suc.IH)
  qed
qed

lemma hoare_defaults:
  assumes "msg_ok E W n fs dest" and "n \<le> d"
  shows "hoare W h (pb_message_set_to_defaults E d fs dest h)"
proof -
  obtain m where n: "n = Suc m" using assms(1) by (cases n) simp_all
  then obtain d' where d: "d = Suc d'" "m \<le> d'" using assms(2) by (cases d) simp_all
  show ?thesis
    unfolding pb_message_set_to_defaults_def d
    using assms(1) n d by (intro hoare_defaults_fields [of E W m] hoare_set_to_default) simp_all
qed

lemma hoare_release_pointer:
  "PB_ATYPE (ftype (cur it)) = PB_ATYPE_POINTER \<longrightarrow> W = UNIV \<Longrightarrow> hoare W h (release_pointer it h)"
  by (cases "PB_ATYPE (ftype (cur it)) = PB_ATYPE_POINTER")
    (auto simp: release_pointer_def Let_def intro!: hoare_bind hoare_item_loop intro: hoare_Ret)

lemma release_items:
  assumes "static_ok E W sub it" and "PB_LTYPE (ftype (cur it)) = PB_LTYPE_SUBMESSAGE"
    and "PB_ATYPE (ftype (cur it)) = PB_ATYPE_STATIC" and "k < unat (release_count it h)"
  shows "sub (fields_of E (ptr (cur it))) (pData it + of_nat k * ucast (data_size (cur it)))"
proof (cases "PB_HTYPE (ftype (cur it)) = PB_HTYPE_REPEATED")
  case True
  let ?n = "array_size (cur it)" and ?sz = "data_size (cur it)"
  have "release_count it h \<le> ?n"
    using True assms(3) by (auto simp: release_count_def Let_def not_less)
  then have k: "k < unat ?n" using assms(4) by (simp add: word_le_nat_alt)
  then have kw: "unat (of_nat k :: 32 word) = k" using unat_32_less [of ?n] by (simp add: unat_of_nat)
  have "unat ?sz * k \<le> unat ?sz * unat ?n" using k by simp
  moreover have "unat ?sz * unat ?n < 2 ^ 32"
    using assms(1) by (simp only: static_ok_def)
  ultimately have prod: "unat ?sz * k < 2 ^ 32" by (rule le_less_trans)
  have "unat (ucast (?sz * of_nat k) :: 64 word) = unat ?sz * k"
    using prod kw by (simp add: unat_word_ariths)
  moreover have "unat (of_nat k * ucast ?sz :: 64 word) = unat ?sz * k"
    using prod k unat_32_less [of ?n] by (simp add: unat_word_ariths unat_of_nat mult.commute)
  ultimately have "(ucast (?sz * of_nat k) :: 64 word) = of_nat k * ucast ?sz"
    by (simp add: word_eq_iff_unsigned [where 'a = nat])
  then have "item_addr (pData it) (cur it) (of_nat k) = pData it + of_nat k * ucast ?sz"
    by (simp add: item_addr_def)
  moreover have "of_nat k < ?n" using k kw by (simp add: word_less_nat_alt)
  ultimately show ?thesis using static_okD(2) [OF assms(1) _ _ assms(2), of "of_nat k"] True by simp
next
  case False
  then have "k = 0" using assms(4) by (simp add: release_count_def Let_def)
  then show ?thesis using static_okD(2) [OF assms(1) _ _ assms(2), of 0] False by simp
qed

lemma hoare_release_contents:
  assumes ok: "field_ok E W sub it"
    and subs: "\<And>fs a h. sub fs a \<Longrightarrow> hoare W h (each_field self fs a h)"
  shows "hoare W h (release_contents E self it h)"
proof -
  let ?f = "cur it" let ?t = "ftype (cur it)"
  note okD = field_okD [OF ok]
  show ?thesis
  proof (cases "PB_LTYPE ?t = PB_LTYPE_SUBMESSAGE")
    case True
    define p where "p = (if PB_ATYPE ?t = PB_ATYPE_POINTER then load_ptr h (pData it) else pData it)"
    have "hoare W h (item_loop (unat (release_count it h)) (ucast (data_size ?f))
        (release_message self (fields_of E (ptr ?f))) p h)"
    proof (rule hoare_item_loop)
      fix k h1 assume k: "k < unat (release_count it h)"
      have "sub (fields_of E (ptr ?f)) (p + of_nat k * ucast (data_size ?f))"
      proof (cases "PB_ATYPE ?t = PB_ATYPE_STATIC")
        case st: True
        then show ?thesis
          using release_items [OF okD(4) True st k] by (simp add: p_def)
      next
        case False
        then show ?thesis using okD(5,6) True by (simp add: pointer_ok_def)
      qed
      then show "hoare W h1 (release_message self (fields_of E (ptr ?f))
          (p + of_nat k * ucast (data_size ?f)) h1)"
        by (simp add: release_message_def subs hoare_Ret)
    qed
    then show ?thesis
      using True unfolding release_contents_def Let_def p_def by (auto intro: hoare_Ret)
  next
    case False
    with okD(2) show ?thesis by (simp add: release_contents_def Let_def hoare_Ret)
  qed
qed

lemma hoare_release_body:
  assumes ok: "field_ok E W sub it"
    and subs: "\<And>fs a h. sub fs a \<Longrightarrow> hoare W h (each_field self fs a h)"
  shows "hoare W h (release_single_body E self it h)"
proof -
  have "PB_ATYPE (ftype (cur it)) = PB_ATYPE_POINTER \<longrightarrow> W = UNIV"
    using field_okD(6) [OF ok] by (auto simp: pointer_ok_def)
  then show ?thesis
    unfolding release_single_body_def
    using hoare_release_contents [OF ok subs] hoare_release_pointer
    by (auto intro: hoare_bind hoare_Ret)
qed

lemma hoare_release_single:
  "n \<le> d \<Longrightarrow> field_ok E W (msg_ok E W n) it \<Longrightarrow> hoare W h (pb_release_single_field E (Suc d) it h)"
proof (induction d arbitrary: n it h)
  case 0
  then show ?case by (auto intro: hoare_release_body)
next
  case (Suc d)
  show ?case
  proof (subst pb_release_single_field.simps, rule hoare_release_body [OF Suc.prems(2)])
    fix fs a h assume sub: "msg_ok E W n fs a"
    then obtain m where n: "n = Suc m" by (cases n) simp_all
    with Suc.prems(1) have "m \<le> d" by simp
    with sub n show "hoare W h (each_field (pb_release_single_field E (Suc d)) fs a h)"
      by (intro hoare_defaults_fields [of E W m]) (simp_all only: Suc.IH)
  qed
qed

lemma hoare_release:
  assumes "msg_ok E W n fs dest" and "n \<le> d"
  shows "hoare W h (pb_release E d fs dest h)"
proof -
  obtain m where n: "n = Suc m" using assms(1) by (cases n) simp_all
  then obtain d' where d: "d = Suc d'" "m \<le> d'" using assms(2) by (cases d) simp_all
  have "hoare W h (each_field (pb_release_single_field E d) fs dest h)"
    unfolding d using assms(1) n d
    by (intro hoare_defaults_fields [of E W m] hoare_release_single) simp_all
  then show ?thesis by (simp add: pb_release_def release_message_def hoare_Ret)
qed

section \<open>Values\<close>

text \<open>
  A decoder of values: with room for \<open>item_width\<close> bytes at the item and a pointer field only
  when all of memory may change.
\<close>

definition value_ok :: "addr set \<Rightarrow> pb_field \<Rightarrow> addr \<Rightarrow> bool" where
  "value_ok W f dest \<longleftrightarrow> extent dest (item_width f) \<subseteq> W \<and>
     (PB_ATYPE (ftype f) = PB_ATYPE_POINTER \<longrightarrow> W = UNIV)"

lemma value_width:
  assumes "value_ok W f dest"
  shows "extent dest (unat (data_size f)) \<subseteq> W"
    and "PB_LTYPE (ftype f) = PB_LTYPE_BOOL \<Longrightarrow> extent dest (Suc 0) \<subseteq> W"
    and "PB_LTYPE (ftype f) = PB_LTYPE_FIXED32 \<Longrightarrow> extent dest 4 \<subseteq> W"
    and "PB_LTYPE (ftype f) = PB_LTYPE_FIXED64 \<Longrightarrow> extent dest 8 \<subseteq> W"
  by (rule extent_mono_in [of dest "item_width f" W],
      use assms in \<open>simp add: value_ok_def\<close>, simp add: item_width_def Let_def)+

lemma outcome_check_clamped:
  assumes "shrinks s s'" and "\<And>c h'. st = Some (c, h') \<Longrightarrow> keeps W h h'"
  shows "outcome W s h (check_clamped st v s' h)"
  using assms by (auto simp: check_clamped_def intro!: outcome_fail outcome_Ret
      split: option.splits prod.splits)

lemma keeps_store_signed:
  "extent dest (unat sz) \<subseteq> W \<Longrightarrow> store_signed sz dest v h = Some (c, h') \<Longrightarrow> keeps W h h'"
  by (auto simp: store_signed_def intro: keeps_store split: if_splits)

lemma keeps_store_unsigned:
  "extent dest (unat sz) \<subseteq> W \<Longrightarrow> store_unsigned sz dest v h = Some (c, h') \<Longrightarrow> keeps W h h'"
  by (auto simp: store_unsigned_def intro: keeps_store split: if_splits)

lemma shrinks_op:
  assumes "in_bounds s" and "advances s (snd (op s))" and "op s = (r, s')"
  shows "shrinks s s'"
  using advances_shrinks [OF assms(1,2)] assms(3) by simp

lemma shrinks_varint: "in_bounds s \<Longrightarrow> pb_decode_varint s = (r, s') \<Longrightarrow> shrinks s s'"
  using rd_varint.adv shrinks_op [of s pb_decode_varint] by blast

lemma shrinks_svarint: "in_bounds s \<Longrightarrow> pb_decode_svarint s = (r, s') \<Longrightarrow> shrinks s s'"
  using rd_svarint.adv shrinks_op [of s pb_decode_svarint] by blast

lemma shrinks_varint32: "in_bounds s \<Longrightarrow> pb_decode_varint32 s = (r, s') \<Longrightarrow> shrinks s s'"
  using rd_varint32.adv shrinks_op [of s pb_decode_varint32] by blast

lemma shrinks_read: "in_bounds s \<Longrightarrow> pb_read s n = (ok, bs, s') \<Longrightarrow> shrinks s s'"
  using advances_shrinks [of s s'] pb_read_advances [of s n] by simp

lemma shrinks_fixed32: "in_bounds s \<Longrightarrow> pb_decode_fixed32 s = (r, s') \<Longrightarrow> shrinks s s'"
  by (auto simp: pb_decode_fixed32_def dest: shrinks_read split: prod.splits bool.splits)

lemma shrinks_fixed64: "in_bounds s \<Longrightarrow> pb_decode_fixed64 s = (r, s') \<Longrightarrow> shrinks s s'"
  by (auto simp: pb_decode_fixed64_def dest: shrinks_read split: prod.splits bool.splits)

lemma shrinks_skip: "in_bounds s \<Longrightarrow> pb_skip_field s wt = (ok, s') \<Longrightarrow> shrinks s s'"
  using advances_shrinks [of s s'] rd_skip.adv [of s wt] by simp

lemma outcome_bool:
  "in_bounds s \<Longrightarrow> value_ok W f dest \<Longrightarrow> PB_LTYPE (ftype f) = PB_LTYPE_BOOL \<Longrightarrow>
   outcome W s h (pb_dec_bool s f dest h)"
  by (auto simp: pb_dec_bool_def dest: shrinks_varint32 value_width intro!: outcome_Ret
      keeps_store_bool split: prod.splits option.splits)

lemma outcome_varint: "in_bounds s \<Longrightarrow> value_ok W f dest \<Longrightarrow> outcome W s h (pb_dec_varint s f dest h)"
  unfolding pb_dec_varint_def Let_def
  by (split prod.split option.split)+ (intro allI impI conjI outcome_Ret outcome_check_clamped,
      auto dest: shrinks_varint keeps_store_signed [OF value_width(1)])

lemma outcome_uvarint: "in_bounds s \<Longrightarrow> value_ok W f dest \<Longrightarrow> outcome W s h (pb_dec_uvarint s f dest h)"
  by (auto simp: pb_dec_uvarint_def Let_def dest: shrinks_varint value_width(1) keeps_store_unsigned
      intro!: outcome_Ret outcome_check_clamped split: prod.splits option.splits)

lemma outcome_svarint: "in_bounds s \<Longrightarrow> value_ok W f dest \<Longrightarrow> outcome W s h (pb_dec_svarint s f dest h)"
  by (auto simp: pb_dec_svarint_def Let_def dest: shrinks_svarint value_width(1) keeps_store_signed
      intro!: outcome_Ret outcome_check_clamped split: prod.splits option.splits)

lemma outcome_fixed32:
  "in_bounds s \<Longrightarrow> value_ok W f dest \<Longrightarrow> PB_LTYPE (ftype f) = PB_LTYPE_FIXED32 \<Longrightarrow>
   outcome W s h (pb_dec_fixed32 s f dest h)"
  by (auto simp: pb_dec_fixed32_def dest: shrinks_fixed32 value_width intro!: outcome_Ret
      keeps_store split: prod.splits option.splits)

lemma outcome_fixed64:
  "in_bounds s \<Longrightarrow> value_ok W f dest \<Longrightarrow> PB_LTYPE (ftype f) = PB_LTYPE_FIXED64 \<Longrightarrow>
   outcome W s h (pb_dec_fixed64 s f dest h)"
  by (auto simp: pb_dec_fixed64_def dest: shrinks_fixed64 value_width intro!: outcome_Ret
      keeps_store split: prod.splits option.splits)

lemma pb_read_length_le: "pb_read s n = (ok, bs, s') \<Longrightarrow> length bs \<le> unat n"
  by (auto simp: pb_read_def dest!: run_callback_frame split: if_splits prod.splits bool.splits)

lemma read_to_safe:
  assumes "in_bounds s" and "unat n \<le> k" and "extent a k \<subseteq> W" and "read_to s a n h = (ok, s', h')"
  shows "shrinks s s'" and "keeps W h h'"
proof -
  obtain bs where r: "pb_read s n = (ok, bs, s')" and h': "h' = h_write a bs h"
    using assms(4) by (auto simp: read_to_def split: prod.splits)
  show "shrinks s s'" using assms(1) r by (rule shrinks_read)
  have len: "length bs \<le> unat n" using r by (rule pb_read_length_le)
  then have "length bs \<le> k" using assms(2) by (rule le_trans)
  with assms(3) have "extent a (length bs) \<subseteq> W" by (rule extent_mono_in)
  moreover have "length bs \<le> 2 ^ 64"
    using len unsigned_less [of n, where 'a = nat] by simp
  ultimately show "keeps W h h'" unfolding h' by (intro keeps_write)
qed

lemma allocate_safe:
  "in_bounds s \<Longrightarrow> allocate_field al s a n k h = (ok, s', h') \<Longrightarrow> shrinks s s'"
  by (auto simp: allocate_field_def Let_def shrinks_refl split: if_splits prod.splits)

lemma bytes_array_safe:
  assumes "in_bounds s" and "4 + unat sz \<le> k" and "k \<le> 2 ^ 64" and "extent a k \<subseteq> W"
  shows "outcome W s h (Ret (store_bytes_array s a sz h))"
proof -
  have "unat (a + 4 - a) + unat sz \<le> k" using assms(2) by simp
  then have ext: "extent (a + 4) (unat sz) \<subseteq> W" using extent_sub [of "a + 4" a "unat sz" k] assms(3,4) by simp
  have "keeps W h (h_store a 4 sz h)"
    using assms(2,4) extent_mono_in [of a k W 4] by (intro keeps_store) simp_all
  then show ?thesis
    using read_to_safe [OF assms(1) _ ext, of "ucast sz"]
    by (cases "read_to s (a + 4) (ucast sz) (h_store a 4 sz h)")
      (auto simp: outcome_def store_bytes_array_def intro: keeps_trans)
qed

lemma outcome_bytes:
  assumes "in_bounds s" and ok: "value_ok W f dest"
  shows "outcome W s h (pb_dec_bytes al s f dest h)"
proof (cases "pb_decode_varint32 s")
  case (Pair r s1)
  have s1: "shrinks s s1" using assms(1) Pair by (rule shrinks_varint32)
  then have in1: "in_bounds s1" by (rule shrinks_in_bounds)
  show ?thesis
  proof (cases r)
    case None
    with Pair s1 show ?thesis by (simp add: pb_dec_bytes_def outcome_Ret)
  next
    case (Some sz)
    have alloc: "unat (bytes_allocsize sz) = 4 + unat sz"
      using unat_32_less [of sz] unat_plus_if_small [of "ucast sz" "4 :: 64 word"]
      by (simp add: bytes_allocsize_def)
    then have nowrap: "\<not> ucast sz > bytes_allocsize sz" by (simp add: word_less_nat_alt)
    show ?thesis
    proof (cases "PB_ATYPE (ftype f) = PB_ATYPE_POINTER")
      case True
      then have W: "W = UNIV" using ok by (simp add: value_ok_def)
      obtain a s2 h2 where al: "allocate_field al s1 dest (bytes_allocsize sz) 1 h = (a, s2, h2)"
        by (rule prod_cases3)
      have s2: "shrinks s1 s2" by (rule allocate_safe [OF in1 al])
      have "outcome W s2 h2 (Ret (store_bytes_array s2 (load_ptr h2 dest) sz h2))"
      proof (rule bytes_array_safe [OF shrinks_in_bounds [OF s2] order_refl])
        show "4 + unat sz \<le> 2 ^ 64" 
        proof -
          have "4 + (2 :: nat) ^ 32 \<le> 2 ^ 64" by simp
          then show ?thesis using unat_32_less [of sz] by linarith
        qed
        show "extent (load_ptr h2 dest) (4 + unat sz) \<subseteq> W" using W by blast
      qed
      then have "outcome W s h (Ret (store_bytes_array s2 (load_ptr h2 dest) sz h2))"
        using shrinks_trans [OF s1 s2] by (rule outcome_after) (simp add: W)
      moreover have "outcome W s h (Ret (False, s2, h2))"
        using shrinks_trans [OF s1 s2] W by (intro outcome_Ret) simp_all
      ultimately show ?thesis
        using Pair Some True nowrap al s1
        by (cases a) (auto simp: pb_dec_bytes_def Let_def intro: outcome_fail)
    next
      case False
      have "outcome W s1 h (if bytes_allocsize sz > ucast (data_size f) then fail ''bytes overflow'' s1 h
          else Ret (store_bytes_array s1 dest sz h))"
      proof (cases "bytes_allocsize sz > ucast (data_size f)")
        case True
        then show ?thesis by (simp add: outcome_fail shrinks_refl in1)
      next
        case False
        then have "4 + unat sz \<le> unat (data_size f)" using alloc by (simp add: word_less_nat_alt)
        with bytes_array_safe [OF in1 this unat_32_le value_width(1) [OF ok]] False
        show ?thesis by simp
      qed
      from this s1 have "outcome W s h (if bytes_allocsize sz > ucast (data_size f)
          then fail ''bytes overflow'' s1 h else Ret (store_bytes_array s1 dest sz h))"
        by (rule outcome_after) simp
      with Pair Some False nowrap s1 show ?thesis
        by (auto simp: pb_dec_bytes_def Let_def intro: outcome_fail)
    qed
  qed
qed

lemma string_safe:
  assumes "in_bounds s" and "Suc (unat sz) \<le> k" and "k \<le> 2 ^ 64" and "extent a k \<subseteq> W"
  shows "outcome W s h (Ret (store_string s a sz h))"
proof -
  have "unat (a + ucast sz - a) + 1 \<le> k" using assms(2) by simp
  then have ext: "extent (a + ucast sz) 1 \<subseteq> W"
    using extent_sub [of "a + ucast sz" a 1 k] assms(3,4) by simp
  then have "keeps W h' (h_store (a + ucast sz) 1 (0 :: byte) h')" for h'
    by (intro keeps_store) simp_all
  moreover have "unat (ucast sz :: size_t) \<le> k" using assms(2) by simp
  ultimately show ?thesis
    using read_to_safe [OF assms(1) _ assms(4), of "ucast sz" h]
    by (cases "read_to s a (ucast sz) h")
      (auto simp: outcome_def store_string_def intro: keeps_trans)
qed

lemma outcome_string:
  assumes "in_bounds s" and ok: "value_ok W f dest"
  shows "outcome W s h (pb_dec_string al s f dest h)"
proof (cases "pb_decode_varint32 s")
  case (Pair r s1)
  have s1: "shrinks s s1" using assms(1) Pair by (rule shrinks_varint32)
  then have in1: "in_bounds s1" by (rule shrinks_in_bounds)
  show ?thesis
  proof (cases r)
    case None
    with Pair s1 show ?thesis by (simp add: pb_dec_string_def outcome_Ret)
  next
    case (Some sz)
    let ?n = "ucast (sz + 1) :: size_t"
    show ?thesis
    proof (cases "?n < ucast sz")
      case True
      with Pair Some s1 show ?thesis by (simp add: pb_dec_string_def Let_def outcome_fail)
    next
      case nowrap: False
      then have "unat sz \<le> unat (sz + 1)" by (simp add: word_less_nat_alt not_less)
      then have n: "unat (sz + 1) = Suc (unat sz)"
        using unat_32_less [of sz]
        by (cases "unat sz = 2 ^ 32 - 1") (simp_all add: unat_word_ariths)
      show ?thesis
      proof (cases "PB_ATYPE (ftype f) = PB_ATYPE_POINTER")
        case True
        then have W: "W = UNIV" using ok by (simp add: value_ok_def)
        obtain a s2 h2 where al: "allocate_field al s1 dest ?n 1 h = (a, s2, h2)"
          by (rule prod_cases3)
        have s2: "shrinks s1 s2" by (rule allocate_safe [OF in1 al])
        have "Suc (unat sz) \<le> 2 ^ 64" using unat_32_le [of "sz + 1"] unfolding n .
        then have "outcome W s2 h2 (Ret (store_string s2 (load_ptr h2 dest) sz h2))"
          by (intro string_safe [OF shrinks_in_bounds [OF s2] order_refl]) (simp_all add: W)
        then have "outcome W s h (Ret (store_string s2 (load_ptr h2 dest) sz h2))"
          using shrinks_trans [OF s1 s2] by (rule outcome_after) (simp add: W)
        moreover have "outcome W s h (Ret (False, s2, h2))"
          using shrinks_trans [OF s1 s2] W by (intro outcome_Ret) simp_all
        ultimately show ?thesis
          using Pair Some True nowrap al by (cases a) (auto simp: pb_dec_string_def Let_def)
      next
        case False
        have "outcome W s1 h (if ?n > ucast (data_size f) then fail ''string overflow'' s1 h
            else Ret (store_string s1 dest sz h))"
        proof (cases "?n > ucast (data_size f)")
          case True
          then show ?thesis by (simp add: outcome_fail shrinks_refl in1)
        next
          case no: False
          then have "Suc (unat sz) \<le> unat (data_size f)" using n by (simp add: word_less_nat_alt)
          with string_safe [OF in1 this unat_32_le value_width(1) [OF ok]] no
          show ?thesis by simp
        qed
        from this s1 have "outcome W s h (if ?n > ucast (data_size f)
            then fail ''string overflow'' s1 h else Ret (store_string s1 dest sz h))"
          by (rule outcome_after) simp
        with Pair Some False nowrap show ?thesis by (auto simp: pb_dec_string_def Let_def)
      qed
    qed
  qed
qed

lemma outcome_fixed_length_bytes:
  assumes "in_bounds s" and ok: "value_ok W f dest"
  shows "outcome W s h (pb_dec_fixed_length_bytes s f dest h)"
proof (cases "pb_decode_varint32 s")
  case (Pair r s1)
  have s1: "shrinks s s1" using assms(1) Pair by (rule shrinks_varint32)
  then have in1: "in_bounds s1" by (rule shrinks_in_bounds)
  have ext: "extent dest (unat (data_size f)) \<subseteq> W" by (rule value_width(1) [OF ok])
  obtain b s2 h2 where rd: "read_to s1 dest (ucast (data_size f)) h = (b, s2, h2)"
    by (rule prod_cases3)
  have "outcome W s h (Ret (read_to s1 dest (ucast (data_size f)) h))"
    using read_to_safe [OF in1 _ ext rd] shrinks_trans [OF s1] by (simp add: rd outcome_Ret)
  moreover have "keeps W h (h_memset0 dest (unat (data_size f)) h)"
    using ext unat_32_le by (intro keeps_memset0)
  ultimately show ?thesis
    using Pair s1 by (auto simp: pb_dec_fixed_length_bytes_def intro: outcome_fail outcome_Ret
        split: option.splits)
qed

section \<open>Substreams\<close>

lemma make_none_safe: "in_bounds s \<Longrightarrow> pb_make_string_substream s = (None, s') \<Longrightarrow> shrinks s s'"
  by (auto simp: pb_make_string_substream_def dest: shrinks_varint32 split: prod.splits
      option.splits if_splits)

lemma make_some:
  assumes "in_bounds s" and "pb_make_string_substream s = (Some sub, s')"
  obtains t n where "shrinks s t" and "ucast (n :: 32 word) \<le> bytes_left t"
    and "sub = t\<lparr>bytes_left := ucast n\<rparr>" and "s' = t\<lparr>bytes_left := bytes_left t - ucast n\<rparr>"
proof -
  obtain t n where r: "pb_decode_varint32 s = (Some n, t)" and "\<not> bytes_left t < ucast n"
    and "sub = t\<lparr>bytes_left := ucast n\<rparr>" "s' = t\<lparr>bytes_left := bytes_left t - ucast n\<rparr>"
    using assms(2) by (auto simp: pb_make_string_substream_def split: prod.splits option.splits if_splits)
  then show thesis using that shrinks_varint32 [OF assms(1) r] by (simp add: not_less)
qed

lemma make_some_safe:
  assumes "in_bounds s" and "pb_make_string_substream s = (Some sub, s')"
  shows "in_bounds sub" and "shrinks s s'" and "unat (bytes_left sub) \<le> unat (bytes_left s)"
proof -
  obtain t n where t: "shrinks s t" "ucast (n :: 32 word) \<le> bytes_left t"
    "sub = t\<lparr>bytes_left := ucast n\<rparr>" "s' = t\<lparr>bytes_left := bytes_left t - ucast n\<rparr>"
    using assms by (rule make_some)
  then have n: "unat n \<le> unat (bytes_left t)" and in_t: "in_bounds t"
    by (simp_all add: word_le_nat_alt shrinks_def)
  then show "in_bounds sub" unfolding t by (simp add: in_bounds_def)
  have "shrinks t s'"
    unfolding t using n in_t t(2)
    by (auto simp: shrinks_def in_bounds_def word_le_nat_alt unat_minus_le intro: exI [of _ 0])
  with t(1) show "shrinks s s'" by (rule shrinks_trans)
  show "unat (bytes_left sub) \<le> unat (bytes_left s)"
    using n t(1) unfolding t by (simp add: shrinks_def word_le_nat_alt)
qed

lemma close_safe:
  assumes "in_bounds s" and "pb_make_string_substream s = (Some sub, s')" and "shrinks sub sub'"
    and "keeps W h h'"
  shows "outcome W s h (close_substream_with status (s'\<lparr>errmsg := e\<rparr>) sub' h')"
proof -
  obtain t n where t: "shrinks s t" "ucast (n :: 32 word) \<le> bytes_left t"
    "sub = t\<lparr>bytes_left := ucast n\<rparr>" "s' = t\<lparr>bytes_left := bytes_left t - ucast n\<rparr>"
    using assms(1,2) by (rule make_some)
  then have n: "unat n \<le> unat (bytes_left t)" and in_t: "in_bounds t"
    by (simp_all add: word_le_nat_alt shrinks_def)
  obtain k where k: "k \<le> unat n - unat (bytes_left sub')" "state sub' = drop k (state t)"
    using assms(3) unfolding t by (auto simp: shrinks_def)
  have left: "unat (bytes_left sub') \<le> unat n" and in': "in_bounds sub'"
    using assms(3) unfolding t by (simp_all add: shrinks_def word_le_nat_alt)
  let ?st = "drop (unat (bytes_left sub')) (state sub')"
  have after: "shrinks t (s'\<lparr>state := ?st\<rparr>)"
  proof -
    let ?j = "unat (bytes_left sub') + k"
    have j: "?j \<le> unat n" using k left by linarith
    moreover have "unat (bytes_left t - ucast n) = unat (bytes_left t) - unat n"
      using t(2) by (simp add: unat_minus_le)
    ultimately show ?thesis
      unfolding t using n in_t k
      by (auto simp: shrinks_def in_bounds_def word_le_nat_alt intro!: exI [of _ ?j])
  qed
  have closed: "pb_close_string_substream (s'\<lparr>errmsg := e\<rparr>) sub' =
      (True, s'\<lparr>state := ?st, errmsg := errmsg sub'\<rparr>)"
    using in' by (auto simp: pb_close_string_substream_def pb_read_null_def pb_read_def in_bounds_def)
  have "shrinks s (s'\<lparr>state := ?st\<rparr>)" using t(1) after by (rule shrinks_trans)
  with assms(4) show ?thesis
    by (simp add: close_substream_with_def closed outcome_Ret)
qed

lemma close_safe_same:
  assumes "in_bounds s" and "pb_make_string_substream s = (Some sub, s')" and "shrinks sub sub'"
    and "keeps W h h'"
  shows "outcome W s h (close_substream_with status s' sub' h')"
  using close_safe [OF assms, of status "errmsg s'"] by simp

section \<open>The decoder table\<close>

text \<open>What the decoder of the submessages one level down has to satisfy.\<close>

definition decodes :: "'z pb_env_scheme \<Rightarrow> addr set \<Rightarrow> nat \<Rightarrow> message_decoder \<Rightarrow> bool" where
  "decodes E W n D \<longleftrightarrow>
     (\<forall>s fs dest h. msg_ok E W n fs dest \<longrightarrow> in_bounds s \<longrightarrow> outcome W s h (D s fs dest h))"

lemma decodes_and_init: "decodes E W n D \<Longrightarrow> n \<le> d \<Longrightarrow> decodes E W n (decode_and_init E d D)"
  unfolding decodes_def decode_and_init_def
proof (intro allI impI)
  fix s fs dest h
  assume D: "\<forall>s fs dest h. msg_ok E W n fs dest \<longrightarrow> in_bounds s \<longrightarrow> outcome W s h (D s fs dest h)"
    and d: "n \<le> d" and ok: "msg_ok E W n fs dest" and s: "in_bounds s"
  show "outcome W s h (run_bind (pb_message_set_to_defaults E d fs dest h) (\<lambda>h1.
     run_bind (D s fs dest h1) (\<lambda>(status, s', h2).
     if status then Ret (True, s', h2)
     else run_bind (pb_release E d fs dest h2) (\<lambda>h3. Ret (False, s', h3)))))"
  proof (rule outcome_hoare_bind [OF hoare_defaults [OF ok d]])
    fix h1 assume h1: "keeps W h h1"
    have "outcome W s h1 (D s fs dest h1)" using D ok s by blast
    then have "outcome W s h1 (run_bind (D s fs dest h1) (\<lambda>(status, s', h2).
       if status then Ret (True, s', h2)
       else run_bind (pb_release E d fs dest h2) (\<lambda>h3. Ret (False, s', h3))))"
    proof (rule outcome_bind)
      fix ok' s' h2 assume step: "shrinks s s'" "keeps W h1 h2"
      obtain h3 where "pb_release E d fs dest h2 = Ret h3" "keeps W h2 h3"
        using hoare_release [OF ok d, of h2] by (auto simp: hoare_def)
      with step show "outcome W s h1 (case (ok', s', h2) of (status, s', h2) \<Rightarrow>
          if status then Ret (True, s', h2)
          else run_bind (pb_release E d fs dest h2) (\<lambda>h3. Ret (False, s', h3)))"
        by (auto intro: outcome_Ret keeps_trans)
    qed
    then show "outcome W s h (run_bind (D s fs dest h1) (\<lambda>(status, s', h2).
       if status then Ret (True, s', h2)
       else run_bind (pb_release E d fs dest h2) (\<lambda>h3. Ret (False, s', h3))))"
      using shrinks_refl [OF s] h1 by (rule outcome_after)
  qed
qed

lemma outcome_submessage:
  assumes s: "in_bounds s" and D: "decodes E W n D" and d: "n \<le> d"
    and ok: "msg_ok E W n (fields_of E (ptr f)) dest"
  shows "outcome W s h (pb_dec_submessage E d D s f dest h)"
proof (cases "pb_make_string_substream s")
  case (Pair r s')
  show ?thesis
  proof (cases r)
    case None
    with Pair make_none_safe [OF s] show ?thesis by (simp add: pb_dec_submessage_def outcome_Ret)
  next
    case (Some sub)
    with Pair have mk: "pb_make_string_substream s = (Some sub, s')" by simp
    let ?dec = "if PB_HTYPE (ftype f) = PB_HTYPE_REPEATED then decode_and_init E d D else D"
    have "outcome W sub h (?dec sub (fields_of E (ptr f)) dest h)"
      using decodes_and_init [OF D d] D ok make_some_safe(1) [OF s mk] by (auto simp: decodes_def)
    then have "outcome W s h (run_bind (?dec sub (fields_of E (ptr f)) dest h)
        (\<lambda>(status, sub', h'). close_substream_with status s' sub' h'))"
      by (rule outcome_bind) (simp add: close_safe_same [OF s mk])
    then show ?thesis
      using mk make_some_safe(2) [OF s mk]
      by (simp add: pb_dec_submessage_def outcome_fail)
  qed
qed

lemma ltype_cases:
  assumes "(lt :: byte) < PB_LTYPES_COUNT" and "lt \<noteq> PB_LTYPE_EXTENSION"
  shows "lt \<in> {PB_LTYPE_BOOL, PB_LTYPE_VARINT, PB_LTYPE_UVARINT, PB_LTYPE_SVARINT, PB_LTYPE_FIXED32,
    PB_LTYPE_FIXED64, PB_LTYPE_BYTES, PB_LTYPE_STRING, PB_LTYPE_SUBMESSAGE, PB_LTYPE_FIXED_LENGTH_BYTES}"
proof -
  have "unat lt < 11" using assms(1) by (simp add: word_less_nat_alt)
  then have "unat lt \<in> {0, 1, 2, 3, 4, 5, 6, 7, 8, 9, 10}" unfolding insert_iff empty_iff by presburger
  then show ?thesis using assms(2)
    by (simp add: word_eq_iff_unsigned [where 'a = nat and 'b = 8])
qed

lemma outcome_call:
  assumes "in_bounds s" and "decodes E W n D" and "n \<le> d" and "value_ok W f dest"
    and "PB_LTYPE (ftype f) < PB_LTYPES_COUNT" and "PB_LTYPE (ftype f) \<noteq> PB_LTYPE_EXTENSION"
    and "PB_LTYPE (ftype f) = PB_LTYPE_SUBMESSAGE \<Longrightarrow> msg_ok E W n (fields_of E (ptr f)) dest"
  shows "outcome W s h (call_decoder E d D s f dest h)"
  using ltype_cases [OF assms(5,6)] assms
  by (auto simp: call_decoder_def Let_def intro: outcome_bool outcome_varint outcome_uvarint
      outcome_svarint outcome_fixed32 outcome_fixed64 outcome_bytes outcome_string
      outcome_submessage outcome_fixed_length_bytes)

text \<open>The packable decoders use up input when they succeed.\<close>

lemma progress_fixed32: "pb_decode_fixed32 s = (Some v, s') \<Longrightarrow> bytes_left s' < bytes_left s"
  by (auto simp: pb_decode_fixed32_def dest: pb_read_progress split: prod.splits bool.splits)

lemma progress_fixed64: "pb_decode_fixed64 s = (Some v, s') \<Longrightarrow> bytes_left s' < bytes_left s"
  by (auto simp: pb_decode_fixed64_def dest: pb_read_progress split: prod.splits bool.splits)

lemma check_clamped_stream: "check_clamped st v s h = Ret (True, s', h') \<Longrightarrow> s' = s"
  by (auto simp: check_clamped_def fail_def split: option.splits prod.splits if_splits)

lemma progress_call:
  assumes "call_decoder E d D s f dest h = Ret (True, s', h')"
    and "PB_LTYPE (ftype f) \<le> PB_LTYPE_LAST_PACKABLE"
  shows "unat (bytes_left s') < unat (bytes_left s)"
proof -
  have "PB_LTYPE (ftype f) \<noteq> PB_LTYPE_EXTENSION" "PB_LTYPE (ftype f) < PB_LTYPES_COUNT"
    using assms(2) by (auto simp: word_le_nat_alt word_less_nat_alt)
  from ltype_cases [OF this(2,1)] show ?thesis
    using assms rd_varint32.progress [of s] rd_varint.progress [of s] rd_svarint.progress [of s]
    by (auto simp: call_decoder_def Let_def pb_dec_bool_def pb_dec_varint_def pb_dec_uvarint_def
        pb_dec_svarint_def pb_dec_fixed32_def pb_dec_fixed64_def word_less_nat_alt
        dest!: check_clamped_stream progress_fixed32 progress_fixed64 split: prod.splits option.splits)
qed

section \<open>Static fields\<close>

text \<open>What the loops and fields use of the table: the items of the field can be decoded.\<close>

definition item_safe :: "addr set \<Rightarrow> pb_decoder \<Rightarrow> pb_field \<Rightarrow> addr \<Rightarrow> bool" where
  "item_safe W func f dest \<longleftrightarrow> (\<forall>s h. in_bounds s \<longrightarrow> outcome W s h (func s f dest h)) \<and>
     (PB_LTYPE (ftype f) \<le> PB_LTYPE_LAST_PACKABLE \<longrightarrow>
        (\<forall>s h s' h'. func s f dest h = Ret (True, s', h') \<longrightarrow>
           unat (bytes_left s') < unat (bytes_left s)))"

lemma item_safeD:
  assumes "item_safe W func f dest"
  shows "in_bounds s \<Longrightarrow> outcome W s h (func s f dest h)"
    and "PB_LTYPE (ftype f) \<le> PB_LTYPE_LAST_PACKABLE \<Longrightarrow> func s f dest h = Ret (True, s', h') \<Longrightarrow>
      unat (bytes_left s') < unat (bytes_left s)"
  using assms unfolding item_safe_def by blast+

lemma item_safe_call:
  assumes "decodes E W n D" and "n \<le> d" and "value_ok W f dest"
    and "PB_LTYPE (ftype f) < PB_LTYPES_COUNT" and "PB_LTYPE (ftype f) \<noteq> PB_LTYPE_EXTENSION"
    and "PB_LTYPE (ftype f) = PB_LTYPE_SUBMESSAGE \<Longrightarrow> msg_ok E W n (fields_of E (ptr f)) dest"
  shows "item_safe W (call_decoder E d D) f dest"
  using outcome_call [OF _ assms] progress_call unfolding item_safe_def by blast

lemma static_packed_safe:
  assumes items: "\<And>k. k < array_size (cur it) \<Longrightarrow>
      item_safe W func (cur it) (item_addr (pData it) (cur it) k)"
    and pk: "PB_LTYPE (ftype (cur it)) \<le> PB_LTYPE_LAST_PACKABLE"
    and cnt: "extent (pSize it) 4 \<subseteq> W"
  shows "in_bounds sub \<Longrightarrow> unat (bytes_left sub) < k \<Longrightarrow>
    outcome W sub h (static_packed k func it sub h)"
proof (induction k arbitrary: sub h)
  case 0
  then show ?case by simp
next
  case (Suc k)
  let ?i = "load_size h (pSize it)"
  let ?r = "func sub (cur it) (item_addr (pData it) (cur it) ?i) h"
  show ?case
  proof (cases "bytes_left sub > 0 \<and> ?i < array_size (cur it)")
    case False
    with Suc.prems(1) show ?thesis by (auto simp: Let_def intro!: outcome_Ret shrinks_refl)
  next
    case True
    then have item: "item_safe W func (cur it) (item_addr (pData it) (cur it) ?i)"
      by (intro items) simp
    have "outcome W sub h ?r" by (rule item_safeD(1) [OF item Suc.prems(1)])
    then obtain ok sub' h' where r: "?r = Ret (ok, sub', h')" "shrinks sub sub'" "keeps W h h'"
      by (auto simp: outcome_def)
    let ?h = "store_size (pSize it) (load_size h' (pSize it) + 1) h'"
    have k: "keeps W h ?h" using cnt by (intro keeps_trans [OF r(3)] keeps_store) simp_all
    have "outcome W sub h (if \<not> ok then Ret (False, sub', h') else static_packed k func it sub' ?h)"
    proof (cases ok)
      case ok: True
      then have "unat (bytes_left sub') < unat (bytes_left sub)"
        using item_safeD(2) [OF item pk] r(1) by simp
      then have "outcome W sub' ?h (static_packed k func it sub' ?h)"
        using Suc.prems(2) by (intro Suc.IH shrinks_in_bounds [OF r(2)]) simp
      then have "outcome W sub h (static_packed k func it sub' ?h)"
        using r(2) k by (rule outcome_after)
      then show ?thesis using ok by simp
    next
      case False
      then show ?thesis using outcome_Ret [OF r(2,3)] by simp
    qed
    with True r(1) show ?thesis by (simp add: Let_def)
  qed
qed

lemma decode_static_safe:
  assumes s: "in_bounds s" and D: "decodes E W n D" and d: "n \<le> d"
    and ok: "field_ok E W (msg_ok E W n) it" and st: "PB_ATYPE (ftype (cur it)) = PB_ATYPE_STATIC"
  shows "outcome W s h (decode_static_field E d D s wt it h)"
proof -
  let ?f = "cur it" let ?t = "ftype (cur it)" let ?func = "call_decoder E d D"
  note okD = field_okD [OF ok]
  have nlt: "\<not> PB_LTYPE ?t \<ge> PB_LTYPES_COUNT" using okD(1) by (simp only: not_le)
  have so: "static_ok E W (msg_ok E W n) it" using okD(4) st by blast
  have items: "item_safe W ?func ?f (item_addr (pData it) ?f k)"
    if "PB_HTYPE ?t = PB_HTYPE_REPEATED \<Longrightarrow> k < array_size ?f"
      "PB_HTYPE ?t \<noteq> PB_HTYPE_REPEATED \<Longrightarrow> k = 0" for k
    using static_okD [OF so that] okD st
    by (intro item_safe_call [OF D d]) (simp_all add: value_ok_def)
  have single: "outcome W s h (?func s ?f (pData it) h')"
    if "PB_HTYPE ?t \<noteq> PB_HTYPE_REPEATED" "keeps W h h'" for h'
    using items [of 0] that s outcome_after [OF _ shrinks_refl [OF s] that(2)]
    by (auto simp: item_safe_def)
  show ?thesis
  proof (cases "PB_HTYPE ?t = PB_HTYPE_REPEATED")
    case rep: True
    then have cnt: "extent (pSize it) 4 \<subseteq> W" using okD(3) by (simp add: counter_ok_def Let_def)
    have itm: "k < array_size ?f \<Longrightarrow> item_safe W ?func ?f (item_addr (pData it) ?f k)" for k
      using items rep by simp
    show ?thesis
    proof (cases "wt = PB_WT_STRING \<and> PB_LTYPE ?t \<le> PB_LTYPE_LAST_PACKABLE")
      case packed: True
      show ?thesis
      proof (cases "pb_make_string_substream s")
        case (Pair r s')
        show ?thesis
        proof (cases r)
          case None
          with Pair make_none_safe [OF s] rep packed okD(1) show ?thesis
            by (auto simp: decode_static_field_def Let_def intro: outcome_Ret)
        next
          case (Some sub)
          with Pair have mk: "pb_make_string_substream s = (Some sub, s')" by simp
          note sub = make_some_safe [OF s mk]
          have "outcome W sub h (static_packed (Suc (unat (bytes_left sub))) ?func it sub h)"
            using packed by (intro static_packed_safe itm cnt sub) simp_all
          then have "outcome W s h (run_bind (static_packed (Suc (unat (bytes_left sub))) ?func it sub h)
              (\<lambda>(status, sub', h'). if bytes_left sub' \<noteq> 0 then fail ''array overflow'' s' h'
                 else close_substream_with status s' sub' h'))"
            by (rule outcome_bind) (simp add: close_safe_same [OF s mk] outcome_fail sub(2))
          with mk rep packed nlt show ?thesis
            unfolding decode_static_field_def Let_def by (simp del: static_packed.simps)
        qed
      qed
    next
      case unpacked: False
      let ?i = "load_size h (pSize it)" let ?h = "store_size (pSize it) (load_size h (pSize it) + 1) h"
      have k: "keeps W h ?h" using cnt by (intro keeps_store) simp_all
      have "outcome W s h (if ?i \<ge> array_size ?f then fail ''array overflow'' s ?h
          else ?func s ?f (item_addr (pData it) ?f ?i) ?h)"
        using itm [of ?i] s k outcome_after [OF _ shrinks_refl [OF s] k]
        by (auto simp: item_safe_def not_le intro: outcome_fail shrinks_refl)
      moreover have "decode_static_field E d D s wt it h =
          (if ?i \<ge> array_size ?f then fail ''array overflow'' s ?h
           else ?func s ?f (item_addr (pData it) ?f ?i) ?h)"
        using rep unpacked nlt by (auto simp: decode_static_field_def Let_def)
      ultimately show ?thesis by simp
    qed
  next
    case norep: False
    show ?thesis
    proof (cases "PB_HTYPE ?t = PB_HTYPE_ONEOF")
      case one: True
      let ?h = "store_size (pSize it) (tag ?f) h"
      have k: "keeps W h ?h"
        using okD(3) one by (intro keeps_store) (simp_all add: counter_ok_def Let_def)
      let ?z = "h_memset0 (pData it) (unat (data_size ?f)) ?h"
      have z: "keeps W h ?z"
        by (rule keeps_trans [OF k]) (intro keeps_memset0 unat_32_le static_data [OF so norep])
      have "outcome W s h (run_bind (pb_message_set_to_defaults E d (fields_of E (ptr ?f)) (pData it) ?z)
          (\<lambda>h''. ?func s ?f (pData it) h''))"
        if "PB_LTYPE ?t = PB_LTYPE_SUBMESSAGE"
      proof (rule outcome_hoare_bind)
        have "msg_ok E W n (fields_of E (ptr ?f)) (pData it)"
          using static_okD(2) [OF so, of 0] norep that by simp
        from hoare_defaults [OF this d, of ?z] z
        show "hoare W h (pb_message_set_to_defaults E d (fields_of E (ptr ?f)) (pData it) ?z)"
          by (rule hoare_after)
      qed (rule single [OF norep])
      with one nlt single [OF norep k] show ?thesis
        unfolding decode_static_field_def Let_def by simp
    next
      case no: False
      have "keeps W h (if pSize it \<noteq> pData it then store_bool (pSize it) True h else h)"
        if "PB_HTYPE ?t = PB_HTYPE_OPTIONAL"
        using okD(3) that by (auto simp: counter_ok_def Let_def intro: keeps_store_bool)
      then have "outcome W s h (?func s ?f (pData it)
          (if pSize it \<noteq> pData it then store_bool (pSize it) True h else h))"
        if "PB_HTYPE ?t = PB_HTYPE_OPTIONAL"
        using single [OF norep] that by blast
      with no norep nlt htype_cases [of ?t] single [OF norep keeps_refl] show ?thesis
        unfolding decode_static_field_def Let_def by auto
    qed
  qed
qed

section \<open>Pointer fields\<close>

lemma hoare_initialize:
  assumes "PB_LTYPE (ftype f) = PB_LTYPE_SUBMESSAGE \<Longrightarrow> msg_ok E UNIV n (fields_of E (ptr f)) item"
    and "n \<le> d"
  shows "\<exists>h'. initialize_pointer_field E d item f h = Ret h'"
  using hoare_defaults [OF assms(1) assms(2)]
  by (auto simp: initialize_pointer_field_def Let_def hoare_def)

lemma initialize_packable:
  "PB_LTYPE (ftype f) \<le> PB_LTYPE_LAST_PACKABLE \<Longrightarrow> initialize_pointer_field E d item f h = Ret h"
  by (auto simp: initialize_pointer_field_def Let_def word_le_nat_alt)

lemma pointer_packed_safe:
  assumes items: "\<And>a. item_safe UNIV func (cur it) a"
    and pk: "PB_LTYPE (ftype (cur it)) \<le> PB_LTYPE_LAST_PACKABLE" and sz: "data_size (cur it) \<noteq> 0"
  shows "in_bounds sub \<Longrightarrow> unat (bytes_left sub) < k \<Longrightarrow>
    \<exists>ok tm sub' h'. pointer_packed k E d func it n sub h = Ret (ok, tm, sub', h') \<and> shrinks sub sub'"
proof (induction k arbitrary: n sub h)
  case 0
  then show ?case by simp
next
  case (Suc k)
  let ?i = "load_size h (pSize it)"
  let ?alloc = "if (ucast ?i :: size_t) + 1 > n then
      run_bind (grow sub (cur it) n) (\<lambda>m.
        case allocate_field (alloc E) sub (pData it) (ucast (data_size (cur it))) m h of
          (ok, sub', h') \<Rightarrow> Ret (ok, m, sub', h'))
    else Ret (True, n, sub, h)"
  show ?case
  proof (cases "bytes_left sub = 0 \<or> ?i = PB_SIZE_MAX")
    case True
    with Suc.prems(1) show ?thesis by (auto simp: Let_def shrinks_refl)
  next
    case False
    obtain ok m sub1 h1 where al: "?alloc = Ret (ok, m, sub1, h1)" and s1: "shrinks sub sub1"
    proof (cases "(ucast ?i :: size_t) + 1 > n")
      case True
      obtain m where m: "grow sub (cur it) n = Ret m" using sz by (auto simp: grow_def Let_def)
      obtain ok sub' h' where a: "allocate_field (alloc E) sub (pData it) (ucast (data_size (cur it))) m h
          = (ok, sub', h')" by (rule prod_cases3)
      show thesis using that [of ok m sub' h'] True m a allocate_safe [OF Suc.prems(1) a] by simp
    next
      case False
      then show thesis using that [of True n sub h] shrinks_refl [OF Suc.prems(1)] by simp
    qed
    let ?item = "item_addr (load_ptr h1 (pData it)) (cur it) (load_size h1 (pSize it))"
    have "outcome UNIV sub1 h1 (func sub1 (cur it) ?item h1)"
      by (rule item_safeD(1) [OF items shrinks_in_bounds [OF s1]])
    then obtain ok2 sub2 h2 where r: "func sub1 (cur it) ?item h1 = Ret (ok2, sub2, h2)"
      and s2: "shrinks sub1 sub2" by (auto simp: outcome_def)
    let ?h3 = "store_size (pSize it) (load_size h2 (pSize it) + 1) h2"
    have s12: "shrinks sub sub2" using s1 s2 by (rule shrinks_trans)
    have next_ok: "\<exists>ok tm sub' h'. pointer_packed k E d func it m sub2 ?h3 = Ret (ok, tm, sub', h') \<and>
        shrinks sub2 sub'" if ok2
    proof (rule Suc.IH)
      show "in_bounds sub2" using s2 by (rule shrinks_in_bounds)
      have "unat (bytes_left sub2) < unat (bytes_left sub1)"
        using item_safeD(2) [OF items pk] r that by simp
      moreover have "unat (bytes_left sub1) \<le> unat (bytes_left sub)"
        using s1 by (simp add: shrinks_def word_le_nat_alt)
      ultimately show "unat (bytes_left sub2) < k" using Suc.prems(2) by linarith
    qed
    have "pointer_packed (Suc k) E d func it n sub h =
        (if \<not> ok then Ret (False, False, sub1, h1) else if \<not> ok2 then Ret (False, False, sub2, h2)
         else pointer_packed k E d func it m sub2 ?h3)"
      using False al r initialize_packable [OF pk, of E d ?item h1]
      by (cases ok; cases ok2) (simp_all add: Let_def split del: if_split)
    then show ?thesis using next_ok s1 s12 by (cases ok; cases ok2) (auto intro: shrinks_trans)
  qed
qed

lemma decode_pointer_safe:
  assumes s: "in_bounds s" and D: "decodes E W n D" and d: "n \<le> d" "0 < d"
    and ok: "field_ok E W (msg_ok E W n) it" and pt: "PB_ATYPE (ftype (cur it)) = PB_ATYPE_POINTER"
    and rel: "\<And>h. hoare W h (pb_release_single_field E d it h)"
  shows "outcome W s h (decode_pointer_field E d D s wt it h)"
proof -
  let ?f = "cur it" let ?t = "ftype (cur it)" let ?func = "call_decoder E d D"
  note okD = field_okD [OF ok]
  have nlt: "\<not> PB_LTYPE ?t \<ge> PB_LTYPES_COUNT" using okD(1) by (simp only: not_le)
  have po: "pointer_ok E W (msg_ok E W n) ?f" using okD(6) pt by blast
  then have W: "W = UNIV" and sz: "data_size ?f \<noteq> 0"
    and subs: "PB_LTYPE ?t = PB_LTYPE_SUBMESSAGE \<Longrightarrow> msg_ok E UNIV n (fields_of E (ptr ?f)) a" for a
    by (auto simp: pointer_ok_def)
  have items: "item_safe UNIV ?func ?f a" for a
    using okD D subs unfolding W by (intro item_safe_call [OF _ d(1)]) (auto simp: value_ok_def)
  have func: "outcome W s h (?func s' ?f a h')" if "shrinks s s'" for s' a h'
  proof (rule outcome_after [OF _ that])
    show "outcome W s' h' (?func s' ?f a h')"
      unfolding W by (rule item_safeD(1) [OF items shrinks_in_bounds [OF that]])
  qed (simp add: W)
  have single: "outcome W s h (decode_pointer_single E d ?func s it h)"
  proof -
    obtain h1 where h1: "(if PB_LTYPE ?t = PB_LTYPE_SUBMESSAGE \<and> load_ptr h (pData it) \<noteq> 0
        then pb_release_single_field E d it h else Ret h) = Ret h1"
      using rel [of h] by (cases "PB_LTYPE ?t = PB_LTYPE_SUBMESSAGE \<and> load_ptr h (pData it) \<noteq> 0")
        (auto simp: hoare_def)
    let ?h = "if PB_HTYPE ?t = PB_HTYPE_ONEOF then store_size (pSize it) (tag ?f) h1 else h1"
    obtain b s2 h2 where al: "allocate_field (alloc E) s (pData it) (ucast (data_size ?f)) 1 ?h = (b, s2, h2)"
      by (rule prod_cases3)
    have s2: "shrinks s s2" by (rule allocate_safe [OF s al])
    obtain h3 where "initialize_pointer_field E d (load_ptr h2 (pData it)) ?f h2 = Ret h3"
      using hoare_initialize [OF subs d(1)] by blast
    then show ?thesis
      using h1 al func [OF s2] func [OF shrinks_refl [OF s]] outcome_Ret [OF s2, of W h h2] W
      by (cases b) (auto simp: decode_pointer_single_def Let_def simp del: One_nat_def)
  qed
  show ?thesis
  proof (cases "PB_HTYPE ?t = PB_HTYPE_REPEATED")
    case False
    then show ?thesis using single nlt htype_cases [of ?t] by (auto simp: decode_pointer_field_def Let_def)
  next
    case rep: True
    show ?thesis
    proof (cases "wt = PB_WT_STRING \<and> PB_LTYPE ?t \<le> PB_LTYPE_LAST_PACKABLE")
      case packed: True
      show ?thesis
      proof (cases "pb_make_string_substream s")
        case (Pair r s')
        show ?thesis
        proof (cases r)
          case None
          with Pair make_none_safe [OF s] rep packed nlt W show ?thesis
            by (auto simp: decode_pointer_field_def Let_def intro: outcome_Ret)
        next
          case (Some sub)
          with Pair have mk: "pb_make_string_substream s = (Some sub, s')" by simp
          have "\<exists>ok tm sub' h'. pointer_packed (Suc (unat (bytes_left sub))) E d ?func it
              (ucast (load_size h (pSize it))) sub h = Ret (ok, tm, sub', h') \<and> shrinks sub sub'"
            by (rule pointer_packed_safe [OF items _ sz make_some_safe(1) [OF s mk]])
              (simp_all add: packed)
          then obtain ok tm sub' h' where r: "pointer_packed (Suc (unat (bytes_left sub))) E d ?func it
              (ucast (load_size h (pSize it))) sub h = Ret (ok, tm, sub', h')" and sh: "shrinks sub sub'"
            by blast
          have "outcome W s h (close_substream_with ok
              (if tm then s'\<lparr>errmsg := Some ''too many array entries''\<rparr> else s') sub' h')"
            using close_safe [OF s mk sh] close_safe_same [OF s mk sh] W by simp
          with mk rep packed nlt r show ?thesis
            unfolding decode_pointer_field_def Let_def by (simp del: pointer_packed.simps)
        qed
      qed
    next
      case unpacked: False
      let ?i = "load_size h (pSize it)"
      obtain b s2 h2 where al: "allocate_field (alloc E) s (pData it) (ucast (data_size ?f)) (ucast (?i + 1)) h
          = (b, s2, h2)" by (rule prod_cases3)
      have s2: "shrinks s s2" by (rule allocate_safe [OF s al])
      let ?item = "item_addr (load_ptr h2 (pData it)) ?f (load_size h2 (pSize it))"
      let ?h = "store_size (pSize it) (load_size h2 (pSize it) + 1) h2"
      obtain h3 where i: "initialize_pointer_field E d ?item ?f ?h = Ret h3"
        using hoare_initialize [OF subs d(1)] by blast
      have "outcome W s h (if ?i = PB_SIZE_MAX then fail ''too many array entries'' s h
          else if \<not> b then Ret (False, s2, h2) else ?func s2 ?f ?item h3)"
        using func [OF s2] W by (auto intro: outcome_fail outcome_Ret shrinks_refl s s2)
      moreover have "decode_pointer_field E d D s wt it h =
          (if ?i = PB_SIZE_MAX then fail ''too many array entries'' s h
           else if \<not> b then Ret (False, s2, h2) else ?func s2 ?f ?item h3)"
        using rep unpacked nlt al i by (cases b) (auto simp: decode_pointer_field_def Let_def)
      ultimately show ?thesis by simp
    qed
  qed
qed

section \<open>The iterator during decoding\<close>

text \<open>
  The decoder's iterator stands at an entry; for a fixed count array its size pointer may point
  to the local counter.
\<close>

definition iter_ok :: "pb_field list \<Rightarrow> addr \<Rightarrow> addr \<Rightarrow> pb_field_iter \<Rightarrow> bool" where
  "iter_ok fs dest local it \<longleftrightarrow> (\<exists>j < max 1 (nfields fs). it = iter_at fs dest j \<or>
     (it = (iter_at fs dest j)\<lparr>pSize := local\<rparr> \<and>
      PB_HTYPE (ftype (field_at fs j)) = PB_HTYPE_REPEATED))"

lemma cur_pSize [simp]: "cur (it\<lparr>pSize := l\<rparr>) = cur it"
  by (simp add: cur_def)

lemma iter_ok_start: "iter_ok fs dest local it \<Longrightarrow> start it = fs"
  by (auto simp: iter_ok_def)

lemma iter_ok_begin: "iter_ok fs dest local (snd (pb_field_iter_begin fs dest))"
  unfolding iter_ok_def begin_iter_at by (intro exI [of _ 0]) simp

lemma static_ok_pSize [simp]: "static_ok E W sub (it\<lparr>pSize := l\<rparr>) = static_ok E W sub it"
  by (simp add: static_ok_def)

lemma next_local:
  assumes "PB_HTYPE (ftype (field_at fs j)) = PB_HTYPE_REPEATED" and "j < nfields fs"
  shows "pb_field_iter_next ((iter_at fs dest j)\<lparr>pSize := l\<rparr>) = pb_field_iter_next (iter_at fs dest j)"
  using assms tag_before_end [of j fs]
  by (simp add: pb_field_iter_next_def Let_def iter_in_union_def)

lemma next_at_end: "nfields fs = 0 \<Longrightarrow> it = iter_at fs dest 0 \<or> it = (iter_at fs dest 0)\<lparr>pSize := l\<rparr> \<Longrightarrow>
    pb_field_iter_next it = (False, it)"
  using tag_at_end [of fs] by (auto simp: pb_field_iter_next_def Let_def)

lemma iter_search_found: "iter_search k step found back it = (True, it') \<Longrightarrow> found it'"
  by (induction k arbitrary: it) (auto simp: Let_def split: if_splits)

lemma iter_search_ok:
  assumes ok: "iter_ok fs dest local it"
    and found: "\<And>i l. found (i\<lparr>pSize := l\<rparr>) = found i"
  shows "iter_ok fs dest local
    (snd (iter_search (Suc (length fs)) pb_field_iter_next found (\<lambda>i. pos i = pos it) it))"
proof -
  obtain j where j: "j < max 1 (nfields fs)" and it: "it = iter_at fs dest j \<or>
      (it = (iter_at fs dest j)\<lparr>pSize := local\<rparr> \<and> PB_HTYPE (ftype (field_at fs j)) = PB_HTYPE_REPEATED)"
    using ok unfolding iter_ok_def by blast
  show ?thesis
  proof (cases "nfields fs = 0")
    case True
    then have "j = 0" using j by simp
    then have "pb_field_iter_next it = (False, it)" using True it next_at_end by blast
    then show ?thesis using ok by (simp add: Let_def)
  next
    case False
    then have j': "j < nfields fs" using j by simp
    let ?s = "iter_search (Suc (length fs)) pb_field_iter_next found (\<lambda>i. pos i = j)"
    have at: "iter_ok fs dest local (snd (?s (iter_at fs dest j)))"
    proof (cases "List.find (\<lambda>k. found (iter_at fs dest k)) ([j..<nfields fs] @ [0..<j])")
      case None
      then show ?thesis
        using walk.search_spec [OF j', where k = "Suc (length fs)" and found = found and d = dest]
          nfields_le [of fs] j by (auto simp: iter_ok_def simp del: iter_search.simps)
    next
      case (Some k)
      then have "k \<in> set ([j..<nfields fs] @ [0..<j])"
        by (auto simp: find_Some_iff simp del: set_append)
      then have "k < nfields fs" using j' by auto
      then show ?thesis
        using walk.search_spec [OF j', where k = "Suc (length fs)" and found = found and d = dest]
          nfields_le [of fs] Some by (auto simp: iter_ok_def simp del: iter_search.simps)
    qed
    have pos: "pos it = j" using it by auto
    have "snd (?s it) = it \<or> ?s it = ?s (iter_at fs dest j)"
      using it next_local [OF _ j'] found by (auto simp: Let_def)
    then show ?thesis using at ok unfolding pos by auto
  qed
qed

lemma iter_find_ok: "iter_ok fs dest local it \<Longrightarrow> pb_field_iter_find it t = (b, it') \<Longrightarrow>
    iter_ok fs dest local it'"
  using iter_search_ok [of fs dest local it
      "\<lambda>i. tag (cur i) = t \<and> PB_LTYPE (ftype (cur i)) \<noteq> PB_LTYPE_EXTENSION"]
  by (simp add: pb_field_iter_find_def iter_ok_start del: iter_search.simps)

lemma iter_find_ext_ok: "iter_ok fs dest local it \<Longrightarrow> find_extension_field it = (b, it') \<Longrightarrow>
    iter_ok fs dest local it'"
  using iter_search_ok [of fs dest local it "\<lambda>i. PB_LTYPE (ftype (cur i)) = PB_LTYPE_EXTENSION"]
  by (simp add: find_extension_field_def iter_ok_start del: iter_search.simps)

lemma iter_field_ok:
  assumes "msg_ok E W (Suc n) fs dest" and "extent local 4 \<subseteq> W" and "iter_ok fs dest local it"
  shows "field_ok E W (msg_ok E W n) it"
proof -
  obtain j where j: "j < max 1 (nfields fs)" and it: "it = iter_at fs dest j \<or>
      (it = (iter_at fs dest j)\<lparr>pSize := local\<rparr> \<and> PB_HTYPE (ftype (field_at fs j)) = PB_HTYPE_REPEATED)"
    using assms(3) unfolding iter_ok_def by blast
  have at: "field_ok E W (msg_ok E W n) (iter_at fs dest j)" using assms(1) j by simp
  then have "PB_HTYPE (ftype (field_at fs j)) = PB_HTYPE_REPEATED \<Longrightarrow>
      field_ok E W (msg_ok E W n) ((iter_at fs dest j)\<lparr>pSize := local\<rparr>)"
    using assms(2) by (simp add: field_ok_def Let_def counter_ok_def)
  with at it show ?thesis by blast
qed

section \<open>One field\<close>

lemma union_safe:
  assumes s: "in_bounds s" and m: "msg_ok E W (Suc n) fs dest" and loc: "extent local 4 \<subseteq> W"
    and it: "iter_ok fs dest local it" and d: "n < d"
  shows "\<exists>ok s' it' h'. pb_release_union_field E d s it h = Ret (ok, s', it', h') \<and> shrinks s s' \<and>
    keeps W h h' \<and> iter_ok fs dest local it'"
proof (cases "load_size h (pSize it) = 0 \<or> load_size h (pSize it) = tag (cur it)")
  case True
  then show ?thesis using it s by (auto simp: pb_release_union_field_def Let_def shrinks_refl)
next
  case False
  obtain b it1 where f1: "pb_field_iter_find it (load_size h (pSize it)) = (b, it1)" by force
  have it1: "iter_ok fs dest local it1" by (rule iter_find_ok [OF it f1])
  obtain d' where d': "d = Suc d'" "n \<le> d'" using d by (cases d) auto
  obtain h1 where rel: "pb_release_single_field E d it1 h = Ret h1" "keeps W h h1"
    using hoare_release_single [OF d'(2) iter_field_ok [OF m loc it1], of h] unfolding d'(1)
    by (auto simp: hoare_def)
  obtain c it2 where f2: "pb_field_iter_find it1 (tag (cur it)) = (c, it2)" by force
  have "iter_ok fs dest local it2" by (rule iter_find_ok [OF it1 f2])
  with False f1 it1 rel f2 s show ?thesis
    by (cases b; cases c) (auto simp: pb_release_union_field_def Let_def shrinks_refl)
qed

lemma decode_field_safe:
  assumes s: "in_bounds s" and m: "msg_ok E W (Suc n) fs dest" and loc: "extent local 4 \<subseteq> W"
    and it: "iter_ok fs dest local it" and d: "n < d" and D: "decodes E W n D"
  shows "\<exists>ok s' it' h'. decode_field E d D s wt it h = Ret (ok, s', it', h') \<and> shrinks s s' \<and>
    keeps W h h' \<and> iter_ok fs dest local it'"
proof -
  let ?u = "if PB_HTYPE (ftype (cur it)) = PB_HTYPE_ONEOF
        then pb_release_union_field E d s it h else Ret (True, s, it, h)"
  obtain b s1 it1 h1 where u: "?u = Ret (b, s1, it1, h1)" and s1: "shrinks s s1"
    and k1: "keeps W h h1" and it1: "iter_ok fs dest local it1"
    using union_safe [OF s m loc it d, of h] shrinks_refl [OF s] it
    by (cases "PB_HTYPE (ftype (cur it)) = PB_HTYPE_ONEOF") auto
  have in1: "in_bounds s1" using s1 by (rule shrinks_in_bounds)
  have ok1: "field_ok E W (msg_ok E W n) it1" by (rule iter_field_ok [OF m loc it1])
  obtain d' where d': "d = Suc d'" "n \<le> d'" using d by (cases d) auto
  have rel: "hoare W h (pb_release_single_field E d it1 h)" for h
    using hoare_release_single [OF d'(2) ok1] unfolding d'(1) .
  let ?a = "PB_ATYPE (ftype (cur it1))"
  let ?r = "if ?a = PB_ATYPE_STATIC then decode_static_field E d D s1 wt it1 h1
    else if ?a = PB_ATYPE_POINTER then decode_pointer_field E d D s1 wt it1 h1
    else if ?a = PB_ATYPE_CALLBACK then decode_callback_field E s1 wt it1 h1
    else fail ''invalid field type'' s1 h1"
  have "outcome W s1 h1 ?r"
    using decode_static_safe [OF in1 D less_imp_le [OF d] ok1]
      decode_pointer_safe [OF in1 D less_imp_le [OF d] _ ok1 _ rel] field_okD(5) [OF ok1] d
    by (cases "?a = PB_ATYPE_STATIC") auto
  then obtain c s2 h2 where r: "?r = Ret (c, s2, h2)" "shrinks s1 s2" "keeps W h1 h2"
    by (auto simp: outcome_def)
  have "decode_field E d D s wt it h = (if b then Ret (c, s2, it1, h2) else Ret (False, s1, it1, h1))"
    using u r(1) by (cases b) (simp_all add: decode_field_def Let_def split del: if_split)
  then show ?thesis
    using s1 k1 it1 r(2,3) by (cases b) (auto intro: shrinks_trans keeps_trans)
qed

section \<open>The main loop\<close>

definition state_ok ::
  "addr set \<Rightarrow> pb_field list \<Rightarrow> addr \<Rightarrow> addr \<Rightarrow> heap \<Rightarrow> pb_istream \<Rightarrow> decode_state \<Rightarrow> bool" where
  "state_ok W fs dest local h s st \<longleftrightarrow>
     iter_ok fs dest local (ds_iter st) \<and> keeps W h (ds_heap st) \<and> shrinks s (ds_stream st)"

text \<open>A part of a step that starts in \<open>st\<close> returns and keeps the state fine.\<close>

definition step_safe ::
  "addr set \<Rightarrow> pb_field list \<Rightarrow> addr \<Rightarrow> addr \<Rightarrow> heap \<Rightarrow> pb_istream \<Rightarrow> decode_state \<Rightarrow>
   (flow \<times> decode_state) run \<Rightarrow> bool" where
  "step_safe W fs dest local h s st r \<longleftrightarrow>
     (\<exists>flow st'. r = Ret (flow, st') \<and> state_ok W fs dest local h s st' \<and>
        shrinks (ds_stream st) (ds_stream st'))"

lemma decode_tag_bound: "pb_decode_tag s = (True, wt, t, eof, s') \<Longrightarrow> t \<noteq> 0xFFFFFFFF"
proof
  assume r: "pb_decode_tag s = (True, wt, t, eof, s')" and t: "t = 0xFFFFFFFF"
  obtain temp where "t = drop_bit 3 temp"
    using r by (auto simp: pb_decode_tag_def split: prod.splits option.splits if_splits)
  then have "unat t = unat temp div 8" by (simp add: unat_drop_bit_eq drop_bit_eq_div unat_div)
  moreover have "unat t = 2 ^ 32 - 1" using t by simp
  ultimately show False using unat_32_less [of temp] by simp
qed

lemma decode_tag_shrinks:
  "in_bounds s \<Longrightarrow> pb_decode_tag s = (ok, wt, t, eof, s') \<Longrightarrow> shrinks s s'"
  using advances_shrinks [of s s'] rd_tag.adv [of s] by simp

lemma decode_tag_progress:
  "pb_decode_tag s = (True, wt, t, eof, s') \<Longrightarrow> unat (bytes_left s') < unat (bytes_left s)"
  using rd_tag.progress [of s] by (simp add: word_less_nat_alt)

lemma skip_unknown_safe:
  assumes "state_ok W fs dest local h s st"
  shows "step_safe W fs dest local h s st (Ret (skip_unknown wt st))"
proof (cases "pb_skip_field (ds_stream st) wt")
  case (Pair ok s')
  have "shrinks (ds_stream st) s'"
    using assms Pair by (intro shrinks_skip [of _ wt ok]) (auto simp: state_ok_def shrinks_def)
  with assms Pair show ?thesis
    by (auto simp: step_safe_def skip_unknown_def state_ok_def intro: shrinks_trans)
qed

lemma find_extension_found:
  "find_extension_field it = (True, it') \<Longrightarrow> PB_LTYPE (ftype (cur it')) = PB_LTYPE_EXTENSION"
  unfolding find_extension_field_def by (drule iter_search_found)

lemma unknown_field_safe:
  assumes st: "state_ok W fs dest local h s st" and m: "msg_ok E W (Suc n) fs dest"
    and loc: "extent local 4 \<subseteq> W" and t: "t \<noteq> 0xFFFFFFFF"
  shows "step_safe W fs dest local h s st (unknown_field E d D t wt st)"
proof -
  obtain b it' where f: "find_extension_field (ds_iter st) = (b, it')" by force
  have it: "iter_ok fs dest local (ds_iter st)" using st by (simp add: state_ok_def)
  have it': "iter_ok fs dest local it'" by (rule iter_find_ext_ok [OF it f])
  have "b \<Longrightarrow> PB_LTYPE (ftype (cur it')) = PB_LTYPE_EXTENSION"
    using f find_extension_found [of "ds_iter st" it'] by simp
  then have b: "\<not> b" using field_okD(2) [OF iter_field_ok [OF m loc it']] by blast
  have "\<not> 0xFFFFFFFF \<le> t"
  proof
    assume "0xFFFFFFFF \<le> t"
    then have "unat t = 2 ^ 32 - 1" using unat_32_less [of t] by (simp add: word_le_nat_alt)
    then show False using t by (simp add: word_eq_iff_unsigned [where 'a = nat and 'b = 32])
  qed
  then have "unknown_field E d D t wt st = Ret (skip_unknown wt
      (if t \<ge> ext_start st then st\<lparr>ds_iter := it', ext_start := 0xFFFFFFFF\<rparr> else st))"
    using f b by (simp add: unknown_field_def Let_def)
  then show ?thesis
    using skip_unknown_safe [of W fs dest local h s st wt] st it'
      skip_unknown_safe [of W fs dest local h s "st\<lparr>ds_iter := it', ext_start := 0xFFFFFFFF\<rparr>" wt]
    by (simp add: state_ok_def step_safe_def)
qed

lemma enter_fixed_safe:
  assumes st: "state_ok W fs dest local h s st" and loc: "extent local 4 \<subseteq> W"
    and e: "enter_fixed_count local st = (b, st')"
  shows "state_ok W fs dest local h s st' \<and> ds_stream st' \<in> {ds_stream st,
    set_error ''wrong size for fixed count field'' (ds_stream st)}"
proof -
  have "keeps W h (ds_heap st)" using st by (simp add: state_ok_def)
  then have k: "keeps W h (store_size local 0 (ds_heap st))"
    by (rule keeps_trans) (simp add: keeps_store loc)
  have "iter_ok fs dest local ((ds_iter st)\<lparr>pSize := local\<rparr>)"
    if "PB_HTYPE (ftype (cur (ds_iter st))) = PB_HTYPE_REPEATED"
    using st that unfolding state_ok_def iter_ok_def by (fastforce simp: iter_at_def cur_def)
  with e st k show ?thesis
    by (auto simp: enter_fixed_count_def Let_def state_ok_def split: if_splits)
qed

lemma known_field_safe:
  assumes st: "state_ok W fs dest (frame_local E d) h s st" and m: "msg_ok E W (Suc n) fs dest"
    and loc: "extent (frame_local E d) 4 \<subseteq> W" and d: "n < d" and D: "decodes E W n D"
  shows "step_safe W fs dest (frame_local E d) h s st (known_field E d D wt st)"
proof -
  obtain b st1 where e: "enter_fixed_count (frame_local E d) st = (b, st1)" by force
  note st1 = enter_fixed_safe [OF st loc e]
  have in0: "in_bounds (ds_stream st)" using st by (simp add: state_ok_def shrinks_def)
  then have s1: "shrinks (ds_stream st) (ds_stream st1)" using st1 shrinks_refl by auto
  have in1: "in_bounds (ds_stream st1)" using s1 by (rule shrinks_in_bounds)
  obtain ok s' it' h' where "decode_field E d D (ds_stream st1) wt (ds_iter st1) (ds_heap st1)
      = Ret (ok, s', it', h')" "shrinks (ds_stream st1) s'" "keeps W (ds_heap st1) h'"
      "iter_ok fs dest (frame_local E d) it'"
    using decode_field_safe [OF in1 m loc _ d D] st1 by (fastforce simp: state_ok_def)
  with e st1 s1 show ?thesis
    by (cases b) (auto simp: known_field_def step_safe_def state_ok_def intro: shrinks_trans keeps_trans)
qed

lemma decode_step_safe:
  assumes st: "state_ok W fs dest (frame_local E d) h s st" and m: "msg_ok E W (Suc n) fs dest"
    and loc: "extent (frame_local E d) 4 \<subseteq> W" and d: "n < d" and D: "decodes E W n D"
  shows "\<exists>flow st'. decode_step E d D st = Ret (flow, st') \<and>
    state_ok W fs dest (frame_local E d) h s st' \<and>
    (flow = Continue \<longrightarrow> unat (bytes_left (ds_stream st')) < unat (bytes_left (ds_stream st)))"
proof -
  obtain ok wt t eof s1 where tag: "pb_decode_tag (ds_stream st) = (ok, wt, t, eof, s1)"
    by (rule prod_cases5)
  have in0: "in_bounds (ds_stream st)" using st by (simp add: state_ok_def shrinks_def)
  have s1: "shrinks (ds_stream st) s1" by (rule decode_tag_shrinks [OF in0 tag])
  show ?thesis
  proof (cases ok)
    case False
    with tag st s1 show ?thesis
      by (auto simp: decode_step_def state_ok_def intro: shrinks_trans)
  next
    case True
    then have tagT: "pb_decode_tag (ds_stream st) = (True, wt, t, eof, s1)" using tag by simp
    obtain b it1 where f: "pb_field_iter_find (ds_iter st) t = (b, it1)" by force
    let ?st = "st\<lparr>ds_stream := s1, ds_iter := it1\<rparr>"
    have st1: "state_ok W fs dest (frame_local E d) h s ?st"
      using st s1 iter_find_ok [OF _ f] by (auto simp: state_ok_def intro: shrinks_trans)
    have less: "unat (bytes_left s1) < unat (bytes_left (ds_stream st))"
      by (rule decode_tag_progress [OF tagT])
    have "step_safe W fs dest (frame_local E d) h s ?st (decode_step E d D st)"
      using known_field_safe [OF st1 m loc d D, of wt] tagT f
        unknown_field_safe [OF st1 m loc decode_tag_bound [OF tagT], of d D wt]
      by (cases b) (simp_all add: decode_step_def)
    then obtain flow st' where r: "decode_step E d D st = Ret (flow, st')"
      "state_ok W fs dest (frame_local E d) h s st'" "shrinks s1 (ds_stream st')"
      by (auto simp: step_safe_def)
    moreover have "unat (bytes_left (ds_stream st')) < unat (bytes_left (ds_stream st))"
      using r(3) less by (simp add: shrinks_def word_le_nat_alt)
    ultimately show ?thesis by blast
  qed
qed

lemma decode_loop_safe:
  assumes m: "msg_ok E W (Suc n) fs dest"
    and loc: "extent (frame_local E d) 4 \<subseteq> W" and d: "n < d" and D: "decodes E W n D"
  shows "state_ok W fs dest (frame_local E d) h s st \<Longrightarrow> unat (bytes_left (ds_stream st)) < k \<Longrightarrow>
    \<exists>ok st'. decode_loop k (decode_step E d D) st = Ret (ok, st') \<and>
      state_ok W fs dest (frame_local E d) h s st'"
proof (induction k arbitrary: st)
  case 0
  then show ?case by simp
next
  case (Suc k)
  show ?case
  proof (cases "bytes_left (ds_stream st) = 0")
    case True
    with Suc.prems show ?thesis by auto
  next
    case False
    obtain flow st' where r: "decode_step E d D st = Ret (flow, st')"
      and st': "state_ok W fs dest (frame_local E d) h s st'"
      and less: "flow = Continue \<longrightarrow> unat (bytes_left (ds_stream st')) < unat (bytes_left (ds_stream st))"
      using decode_step_safe [OF Suc.prems(1) m loc d D] by blast
    show ?thesis
      using False r st' less Suc.prems(2) Suc.IH [OF st'] by (cases flow) auto
  qed
qed

lemma seek_end_total:
  assumes "iter_ok fs dest local it"
  shows "\<exists>r. seek_end (Suc (length fs)) it = Ret r"
proof -
  have at: "j < nfields fs \<Longrightarrow> nfields fs - j \<le> k \<Longrightarrow> \<exists>r. seek_end k (iter_at fs dest j) = Ret r" for j k
  proof (induction k arbitrary: j)
    case 0
    then show ?case by simp
  next
    case (Suc k)
    show ?case
    proof (cases "Suc j = nfields fs")
      case True
      then show ?thesis by (simp add: next_iter_at_wrap)
    next
      case False
      with Suc show ?thesis by (simp add: next_iter_at)
    qed
  qed
  obtain j where j: "j < max 1 (nfields fs)" and it: "it = iter_at fs dest j \<or>
      (it = (iter_at fs dest j)\<lparr>pSize := local\<rparr> \<and> PB_HTYPE (ftype (field_at fs j)) = PB_HTYPE_REPEATED)"
    using assms unfolding iter_ok_def by blast
  show ?thesis
  proof (cases "nfields fs = 0")
    case True
    then have "pb_field_iter_next it = (False, it)" using j it next_at_end by auto
    then show ?thesis by simp
  next
    case False
    then have j': "j < nfields fs" using j by simp
    have "\<exists>r. seek_end (Suc (length fs)) (iter_at fs dest j) = Ret r"
      using at [OF j', of "Suc (length fs)"] nfields_le [of fs] by (simp del: seek_end.simps)
    moreover have "it \<noteq> iter_at fs dest j \<Longrightarrow>
        pb_field_iter_next it = pb_field_iter_next (iter_at fs dest j)"
      using it next_local [OF _ j'] by blast
    ultimately show ?thesis by (cases "it = iter_at fs dest j") (auto split: prod.splits bool.splits)
  qed
qed

lemma decode_finish_safe:
  assumes "state_ok W fs dest local h s st"
  shows "outcome W s h (decode_finish local st)"
proof -
  have "start (ds_iter st) = fs" "iter_ok fs dest local (ds_iter st)"
    using assms by (auto simp: state_ok_def iter_ok_start)
  then obtain index last_type it where "seek_end (Suc (length (start (ds_iter st)))) (ds_iter st)
      = Ret (index, last_type, it)"
    using seek_end_total by (metis prod_cases3)
  with assms show ?thesis
    by (auto simp: decode_finish_def state_ok_def intro!: outcome_fail outcome_Ret
        simp del: seek_end.simps)
qed

lemma decodes_noinit:
  "(\<forall>i<d. extent (frame_local E i) 4 \<subseteq> W) \<Longrightarrow> n < d \<Longrightarrow> decodes E W n (pb_decode_noinit E d)"
proof (induction d arbitrary: n)
  case 0
  then show ?case by simp
next
  case (Suc d)
  show ?case
    unfolding decodes_def
  proof (intro allI impI)
    fix s fs dest h assume m: "msg_ok E W n fs dest" and s: "in_bounds s"
    obtain n' where n: "n = Suc n'" using m by (cases n) simp_all
    have d: "n' < d" and loc: "extent (frame_local E d) 4 \<subseteq> W"
      and sub: "\<forall>i<d. extent (frame_local E i) 4 \<subseteq> W" using Suc.prems n by simp_all
    let ?st = "decode_start E d s fs dest h"
    have st: "state_ok W fs dest (frame_local E d) h s ?st"
      using s loc iter_ok_begin
      by (auto simp: state_ok_def decode_start_def shrinks_refl intro: keeps_store)
    have "unat (bytes_left (ds_stream ?st)) < Suc (unat (bytes_left s))"
      by (simp add: decode_start_def)
    from decode_loop_safe [OF m [unfolded n] loc d Suc.IH [OF sub d] st this]
    obtain ok st' where r: "decode_loop (Suc (unat (bytes_left s)))
        (decode_step E d (pb_decode_noinit E d)) ?st = Ret (ok, st')"
      and st': "state_ok W fs dest (frame_local E d) h s st'" by blast
    have "outcome W s h (Ret (False, ds_stream st', ds_heap st'))"
      using st' by (auto simp: state_ok_def intro: outcome_Ret)
    then show "outcome W s h (pb_decode_noinit E (Suc d) s fs dest h)"
      using r decode_finish_safe [OF st'] by (cases ok) (simp_all del: decode_loop.simps)
  qed
qed

lemma decodes_decode:
  assumes "\<forall>i<d. extent (frame_local E i) 4 \<subseteq> W" and "n < d"
  shows "decodes E W n (pb_decode E d)"
  unfolding pb_decode_def
  using decodes_and_init [OF decodes_noinit [OF assms]] assms(2) by simp

section \<open>Descriptors that fit a struct\<close>

text \<open>
  Checks on the descriptors alone, which can be evaluated: \<open>struct_ok\<close> for messages of static
  fields in a struct of \<open>sz\<close> bytes, \<open>shape_ok\<close> for messages that may have pointer fields.
\<close>

definition last_item :: "pb_field \<Rightarrow> nat" where
  "last_item f = (if PB_HTYPE (ftype f) = PB_HTYPE_REPEATED
     then unat (data_size f) * (unat (array_size f) - 1) else 0)"

definition field_fits :: "'z pb_env_scheme \<Rightarrow> (pb_field list \<Rightarrow> nat \<Rightarrow> bool) \<Rightarrow> pb_field list \<Rightarrow> nat \<Rightarrow> nat \<Rightarrow> bool" where
  "field_fits E sub fs sz i \<longleftrightarrow>
     (let f = field_at fs i; t = ftype f; lt = PB_LTYPE t; ht = PB_HTYPE t in
      lt < PB_LTYPES_COUNT \<and> lt \<noteq> PB_LTYPE_EXTENSION \<and> PB_ATYPE t = PB_ATYPE_STATIC \<and>
      (lt = PB_LTYPE_SUBMESSAGE \<longrightarrow> ptr f \<noteq> 0 \<and> sub (fields_of E (ptr f)) (unat (data_size f))) \<and>
      unat (data_size f) * unat (array_size f) < 2 ^ 32 \<and>
      unat (data_off fs i) + last_item f + item_width f \<le> sz \<and>
      (ht = PB_HTYPE_OPTIONAL \<and> size_off fs i \<noteq> data_off fs i \<longrightarrow> unat (size_off fs i) + 1 \<le> sz) \<and>
      (ht = PB_HTYPE_REPEATED \<or> ht = PB_HTYPE_ONEOF \<longrightarrow> unat (size_off fs i) + 4 \<le> sz))"

primrec struct_ok :: "'z pb_env_scheme \<Rightarrow> nat \<Rightarrow> pb_field list \<Rightarrow> nat \<Rightarrow> bool" where
  "struct_ok E 0 fs sz = False"
| "struct_ok E (Suc n) fs sz =
     (\<forall>i \<in> set [0..<max 1 (nfields fs)]. field_fits E (struct_ok E n) fs sz i)"

definition field_shape :: "'z pb_env_scheme \<Rightarrow> (pb_field list \<Rightarrow> bool) \<Rightarrow> pb_field \<Rightarrow> bool" where
  "field_shape E sub f \<longleftrightarrow>
     (let t = ftype f; lt = PB_LTYPE t in
      lt < PB_LTYPES_COUNT \<and> lt \<noteq> PB_LTYPE_EXTENSION \<and>
      (lt = PB_LTYPE_SUBMESSAGE \<longrightarrow> ptr f \<noteq> 0 \<and> sub (fields_of E (ptr f))) \<and>
      (if PB_ATYPE t = PB_ATYPE_STATIC then unat (data_size f) * unat (array_size f) < 2 ^ 32
       else PB_ATYPE t = PB_ATYPE_POINTER \<and> data_size f \<noteq> 0))"

primrec shape_ok :: "'z pb_env_scheme \<Rightarrow> nat \<Rightarrow> pb_field list \<Rightarrow> bool" where
  "shape_ok E 0 fs = False"
| "shape_ok E (Suc n) fs =
     (\<forall>i \<in> set [0..<max 1 (nfields fs)]. field_shape E (shape_ok E n) (field_at fs i))"

lemma shape_msg_ok: "shape_ok E n fs \<Longrightarrow> msg_ok E UNIV n fs dest"
proof (induction n arbitrary: fs dest)
  case 0
  then show ?case by simp
next
  case (Suc n fs dest)
  have "field_ok E UNIV (msg_ok E UNIV n) (iter_at fs dest i)" if "i < max 1 (nfields fs)" for i
  proof -
    have "field_shape E (shape_ok E n) (field_at fs i)" using Suc.prems that by simp
    then show ?thesis using Suc.IH
      by (auto simp: field_shape_def field_ok_def Let_def counter_ok_def static_ok_def pointer_ok_def
          split: if_splits)
  qed
  then show ?case by simp
qed

lemma extent_at_offset:
  "unat off + n \<le> sz \<Longrightarrow> sz \<le> 2 ^ 64 \<Longrightarrow> extent dest sz \<subseteq> W \<Longrightarrow> extent (dest + off) n \<subseteq> W"
  using extent_sub [of "dest + off" dest n sz] by auto

lemma item_fits:
  assumes fits: "field_fits E sub fs sz i" and sz: "sz < 2 ^ 64"
    and k: "k < (if PB_HTYPE (ftype (field_at fs i)) = PB_HTYPE_REPEATED then array_size (field_at fs i) else 1)"
    and W: "extent dest sz \<subseteq> W"
  shows "extent (item_addr (dest + data_off fs i) (field_at fs i) k) (item_width (field_at fs i)) \<subseteq> W"
proof -
  let ?f = "field_at fs i"
  have room: "unat (data_off fs i) + last_item ?f + item_width ?f \<le> sz"
    and prod: "unat (data_size ?f) * unat (array_size ?f) < 2 ^ 32"
    using fits by (simp_all add: field_fits_def Let_def)
  have pos: "unat (data_size ?f) * unat k \<le> last_item ?f \<and> unat (data_size ?f) * unat k < 2 ^ 32"
  proof (cases "PB_HTYPE (ftype ?f) = PB_HTYPE_REPEATED")
    case True
    then have "unat k < unat (array_size ?f)" using k by (simp add: word_less_nat_alt)
    then have "unat k \<le> unat (array_size ?f) - 1" "unat k \<le> unat (array_size ?f)" by simp_all
    then have "unat (data_size ?f) * unat k \<le> unat (data_size ?f) * (unat (array_size ?f) - 1)"
      "unat (data_size ?f) * unat k \<le> unat (data_size ?f) * unat (array_size ?f)"
      by (simp_all only: mult_le_mono2)
    moreover from this(2) prod have "unat (data_size ?f) * unat k < 2 ^ 32" by (rule le_less_trans)
    ultimately show ?thesis using True by (simp only: last_item_def if_True simp_thms)
  next
    case False
    then have "k = 0" using k by (simp add: word_less_nat_alt unat_eq_0)
    then show ?thesis by simp
  qed
  then have mul: "unat (ucast (data_size ?f * k) :: addr) = unat (data_size ?f) * unat k"
    by (simp add: unat_word_ariths)
  have "unat (data_off fs i) + unat (data_size ?f) * unat k \<le> sz" using room pos by linarith
  then have "unat (data_off fs i + ucast (data_size ?f * k)) = unat (data_off fs i) + unat (data_size ?f) * unat k"
    using mul sz unat_plus_if_small [of "data_off fs i" "ucast (data_size ?f * k)"] by simp
  then show ?thesis
    using room pos sz W extent_at_offset [of "data_off fs i + ucast (data_size ?f * k)" "item_width ?f" sz dest W]
    by (simp add: item_addr_def add.assoc)
qed

lemma struct_msg_ok:
  "struct_ok E n fs sz \<Longrightarrow> sz < 2 ^ 64 \<Longrightarrow> extent dest sz \<subseteq> W \<Longrightarrow> msg_ok E W n fs dest"
proof (induction n arbitrary: fs dest sz)
  case 0
  then show ?case by simp
next
  case (Suc n)
  have "field_ok E W (msg_ok E W n) (iter_at fs dest i)" if "i < max 1 (nfields fs)" for i
  proof -
    let ?f = "field_at fs i"
    have fits: "field_fits E (struct_ok E n) fs sz i" using Suc.prems(1) that by simp
    note item = item_fits [OF fits Suc.prems(2) _ Suc.prems(3)]
    have sub: "msg_ok E W n (fields_of E (ptr ?f)) (item_addr (dest + data_off fs i) ?f k)"
      if "k < (if PB_HTYPE (ftype ?f) = PB_HTYPE_REPEATED then array_size ?f else 1)"
        "PB_LTYPE (ftype ?f) = PB_LTYPE_SUBMESSAGE" for k
    proof (rule Suc.IH)
      show "struct_ok E n (fields_of E (ptr ?f)) (unat (data_size ?f))"
        using fits that(2) by (simp add: field_fits_def Let_def)
      show "unat (data_size ?f) < 2 ^ 64" using unat_32_less [of "data_size ?f"] by simp
      show "extent (item_addr (dest + data_off fs i) ?f k) (unat (data_size ?f)) \<subseteq> W"
        using item [OF that(1)] item_width_ge by (rule extent_mono_in)
    qed
    have "static_ok E W (msg_ok E W n) (iter_at fs dest i)"
      unfolding static_ok_def iter_at_simps
      using item sub fits by (simp only: field_fits_def Let_def) blast
    moreover have "counter_ok W (iter_at fs dest i)"
      using fits Suc.prems(2,3) extent_at_offset [of "size_off fs i" 1 sz dest W]
        extent_at_offset [of "size_off fs i" 4 sz dest W]
      by (simp add: counter_ok_def Let_def field_fits_def)
    ultimately show ?thesis using fits by (simp add: field_ok_def field_fits_def Let_def)
  qed
  then show ?case by simp
qed

section \<open>Safety and termination of the decoder\<close>

text \<open>C4: Memory safety on arbitrary input: for a message of static fields (nested messages,
  arrays, packed arrays and unions included) whose descriptors fit a struct of \<open>sz\<close> bytes,
  \<^verbatim>\<open>pb_decode\<close> on any bytes returns, reads within its buffer and at most \<^verbatim>\<open>bytes_left\<close> bytes of
  it, and leaves every byte of memory outside the struct and the decoder's own locals, and the
  allocator, as they were.\<close>

theorem decode_memory_safe:
  assumes "struct_ok E n fs sz" and "n < d" and "sz < 2 ^ 64" and "in_bounds s"
  shows "\<exists>ok s' h'. pb_decode E d s fs dest h = Ret (ok, s', h') \<and> in_bounds s' \<and>
    (\<exists>k \<le> unat (bytes_left s) - unat (bytes_left s'). state s' = drop k (state s)) \<and>
    (\<forall>a. a \<notin> extent dest sz \<and> (\<forall>i<d. a \<notin> extent (frame_local E i) 4) \<longrightarrow>
      mem h' a = mem h a \<and> blocks h' = blocks h \<and> bad_free h' = bad_free h)"
proof -
  let ?W = "extent dest sz \<union> (\<Union>i<d. extent (frame_local E i) 4)"
  have "msg_ok E ?W n fs dest" by (rule struct_msg_ok [OF assms(1,3)]) simp
  moreover have "decodes E ?W n (pb_decode E d)" by (rule decodes_decode [OF _ assms(2)]) auto
  ultimately have "outcome ?W s h (pb_decode E d s fs dest h)"
    using assms(4) by (simp add: decodes_def)
  then obtain ok s' h' where "pb_decode E d s fs dest h = Ret (ok, s', h')" "shrinks s s'"
    "keeps ?W h h'" by (auto simp: outcome_def)
  moreover have "a \<notin> ?W \<Longrightarrow> mem h' a = mem h a \<and> blocks h' = blocks h \<and> bad_free h' = bad_free h" for a
    using \<open>keeps ?W h h'\<close> unfolding keeps_def by blast
  ultimately show ?thesis by (auto simp: shrinks_def)
qed


end
