(* ===== verification/Pb_Decode_Facts.thy ===== *)
theory Pb_Decode_Facts
  imports Pb_Wire Pb_Safe
begin

text \<open>
  What the message decoder computes: concrete messages it is run on, the check of required
  fields, the ranges of integer fields, strings and byte arrays, and where it goes wrong.
\<close>

section \<open>Sample surroundings\<close>

text \<open>
  An environment with descriptor arrays at two addresses, an allocator that answers one fixed
  address, and no user callbacks.
\<close>

definition sample_heap :: heap where
  "sample_heap = \<lparr>mem = \<lambda>_. 0, blocks = \<lambda>_. None, bad_free = False\<rparr>"

definition sample_env :: "pb_field list \<Rightarrow> dec_env" where
  "sample_env sub = \<lparr>fields_of = \<lambda>a. sub, loop_fuel = 8, alloc = \<lambda>h p n. 0x8000,
     user_decode = \<lambda>p s f a h. (True, s, h), user_ext_decode = \<lambda>p s e t w h. (True, s, h),
     frame_local = \<lambda>d. 0x7000 + 4 * of_nat d\<rparr>"

text \<open>
  \<^verbatim>\<open>struct { bool has_a; uint32_t a; pb_size_t items_count; uint32_t items[3]; bool has_sub; struct { bool b; } sub; }\<close>
\<close>

definition sub_fields :: "pb_field list" where
  "sub_fields = [\<lparr>tag = 1, ftype = 0x00, data_offset = 0, size_offset = 0, data_size = 1, array_size = 0, ptr = 0\<rparr>]"

definition sample_fields :: "pb_field list" where
  "sample_fields =
     [\<lparr>tag = 1, ftype = 0x12, data_offset = 4, size_offset = 0xFFFFFFFC, data_size = 4, array_size = 0, ptr = 0\<rparr>,
      \<lparr>tag = 2, ftype = 0x22, data_offset = 4, size_offset = 0xFFFFFFFC, data_size = 4, array_size = 3, ptr = 0\<rparr>,
      \<lparr>tag = 3, ftype = 0x18, data_offset = 1, size_offset = 0xFFFFFFFF, data_size = 1, array_size = 0, ptr = 0x9000\<rparr>,
      PB_LAST_FIELD]"

text \<open>
  \<^verbatim>\<open>struct { pb_size_t which; union { int64_t a; Sub *b; } u; }\<close>
\<close>

definition union_fields :: "pb_field list" where
  "union_fields =
     [\<lparr>tag = 1, ftype = 0x31, data_offset = 8, size_offset = 0xFFFFFFF8, data_size = 8, array_size = 0, ptr = 0\<rparr>,
      \<lparr>tag = 2, ftype = 0xB8, data_offset = 0xFFFFFFFF, size_offset = 0, data_size = 8, array_size = 0, ptr = 0x9000\<rparr>,
      PB_LAST_FIELD]"


text \<open>The two checks hold of the samples.\<close>

lemmas sample_defs = sample_fields_def sub_fields_def union_fields_def sample_env_def
  PB_LAST_FIELD_def

lemma sample_fits: "struct_ok (sample_env sub_fields) (Suc (Suc 0)) sample_fields 28"
  by (simp add: sample_defs nfields_def field_fits_def field_at_def Let_def
      pb_type_defs last_item_def item_width_def iter_in_union_def iter_prev_size_def)

lemma union_shape: "shape_ok (sample_env sub_fields) (Suc (Suc 0)) union_fields"
  by (simp add: sample_defs nfields_def field_shape_def field_at_def Let_def
      pb_type_defs)

theorem decode_memory_safe_witness:
  "\<exists>ok s' h'. pb_decode (sample_env sub_fields) 3 (pb_istream_from_buffer [0x08, 0x05, 0xFF] 3)
      sample_fields 0x100 sample_heap = Ret (ok, s', h') \<and> mem h' 0x200 = 0"
proof -
  have "in_bounds (pb_istream_from_buffer [0x08, 0x05, 0xFF] 3)"
    by (simp add: in_bounds_def pb_istream_from_buffer_def)
  moreover have "(0x200 :: addr) \<notin> extent 0x100 28"
    "\<forall>i<3. (0x200 :: addr) \<notin> extent (frame_local (sample_env sub_fields) i) 4"
  proof -
    have "i < 3 \<Longrightarrow> i = 0 \<or> i = 1 \<or> i = 2" for i :: nat by auto
    then show "\<forall>i<3. (0x200 :: addr) \<notin> extent (frame_local (sample_env sub_fields) i) 4"
      by (fastforce simp: extent_def sample_env_def)
  qed (simp add: extent_def)
  ultimately show ?thesis
    using decode_memory_safe [OF sample_fits, of 3 "pb_istream_from_buffer [0x08, 0x05, 0xFF] 3"
        "0x100" sample_heap]
    by (fastforce simp: sample_heap_def)
qed


section \<open>Required fields\<close>

definition seen_bit :: "32 word list \<Rightarrow> nat \<Rightarrow> bool" where
  "seen_bit sn i = bit (sn ! (i div 32)) (i mod 32)"

definition required_at :: "pb_field list \<Rightarrow> nat \<Rightarrow> bool" where
  "required_at fs i \<longleftrightarrow> PB_HTYPE (ftype (field_at fs i)) = PB_HTYPE_REQUIRED"

lemma and_31: "unat (w AND 31 :: 32 word) = unat w mod 32"
proof -
  have "w AND 31 = take_bit 5 w" by (simp add: take_bit_eq_mask mask_eq_exp_minus_1)
  then have "unat (w AND 31) = take_bit 5 (unat w)" by (simp only: unsigned_take_bit_eq)
  then show ?thesis by (simp only: take_bit_eq_mod) simp
qed

lemma shift_5: "unat (drop_bit 5 w :: 32 word) = unat w div 32"
proof -
  have "unat (drop_bit 5 w) = drop_bit 5 (unat w)" by (rule unat_drop_bit_eq)
  then show ?thesis by (simp only: drop_bit_eq_div) simp
qed

lemma length_mark_seen [simp]: "length (mark_seen it sn) = length sn"
  by (simp add: mark_seen_def Let_def)

lemma seen_bit_mark:
  assumes "length sn = 2" and "i < 64"
  shows "seen_bit (mark_seen it sn) i \<longleftrightarrow> seen_bit sn i \<or>
    (PB_HTYPE (ftype (cur it)) = PB_HTYPE_REQUIRED \<and> unat (required_field_index it) = i)"
proof (cases "PB_HTYPE (ftype (cur it)) = PB_HTYPE_REQUIRED \<and> required_field_index it < PB_MAX_REQUIRED_FIELDS")
  case False
  then have "\<not> (PB_HTYPE (ftype (cur it)) = PB_HTYPE_REQUIRED \<and> unat (required_field_index it) = i)"
    using assms(2) by (auto simp: word_less_nat_alt)
  with False show ?thesis by (auto simp: mark_seen_def Let_def)
next
  case True
  let ?r = "unat (required_field_index it)"
  have r: "?r < 64" using True by (simp add: word_less_nat_alt)
  then have w: "?r div 32 < length sn" using assms(1) by simp
  have set: "mark_seen it sn =
      sn[?r div 32 := sn ! (?r div 32) OR push_bit (?r mod 32) 1]"
    using True by (simp add: mark_seen_def Let_def and_31 shift_5)
  have one: "bit (push_bit (?r mod 32) 1 :: 32 word) (i mod 32) \<longleftrightarrow> ?r mod 32 = i mod 32"
    by (auto simp del: push_bit_of_1 simp: bit_push_bit_iff bit_1_iff)
  have eq: "?r = i \<longleftrightarrow> ?r div 32 = i div 32 \<and> ?r mod 32 = i mod 32"
    by (metis div_mult_mod_eq)
  show ?thesis
    using True w unfolding seen_bit_def set
    by (cases "?r div 32 = i div 32") (auto simp del: push_bit_of_1 simp: bit_or_iff one eq)
qed

lemma seen_bit_marks:
  assumes "i < 64"
  shows "length (fold mark_seen its [0, 0]) = 2 \<and> (seen_bit (fold mark_seen its [0, 0]) i \<longleftrightarrow>
    (\<exists>it \<in> set its. PB_HTYPE (ftype (cur it)) = PB_HTYPE_REQUIRED \<and> unat (required_field_index it) = i))"
proof (induction its rule: rev_induct)
  case Nil
  have "i div 32 = 0 \<or> i div 32 = 1" using assms by auto
  then show ?case by (auto simp: seen_bit_def)
next
  case (snoc it its)
  then show ?case using seen_bit_mark [of "fold mark_seen its [0, 0]" i it] assms by auto
qed

text \<open>The comparison of whole words and of the rest is a test of every bit below the count.\<close>

lemma missing_required_bits:
  assumes len: "length sn = 2" and n: "unat n \<le> 64"
    and stray: "\<And>i. i < 64 \<Longrightarrow> seen_bit sn i \<Longrightarrow> i < unat n"
  shows "missing_required n sn \<longleftrightarrow> (\<exists>i<unat n. \<not> seen_bit sn i)"
proof -
  let ?n = "unat n" let ?w = "unat n div 32" let ?r = "unat n mod 32"
  have bits: "(v :: 32 word) = u \<longleftrightarrow> (\<forall>b<32. bit v b = bit u b)" for u v
    by (auto intro: bit_word_eqI)
  have rest: "unat (32 - (n AND 31)) = 32 - ?r" if "?r \<noteq> 0"
    using that by (simp add: unat_minus_le and_31 word_le_nat_alt less_imp_le)
  have mask: "bit (drop_bit (32 - ?r) (- 1 :: 32 word)) b \<longleftrightarrow> b < ?r" if "b < 32" "?r \<noteq> 0" for b
    using that by (auto simp: bit_drop_bit_eq bit_minus_1_iff bit_mask_iff)
  have whole: "(\<exists>i \<in> set [0..<?w]. sn ! i \<noteq> - 1) \<longleftrightarrow> (\<exists>j<?w. \<exists>b<32. \<not> bit (sn ! j) b)"
    by (auto simp: bits bit_minus_1_iff)
  have zero: "n AND 31 \<noteq> 0 \<longleftrightarrow> ?r \<noteq> 0" by (simp only: unat_eq_0 [symmetric] and_31)
  have high: "bit (sn ! ?w) b \<Longrightarrow> b < 32 \<Longrightarrow> ?r \<noteq> 0 \<Longrightarrow> b < ?r" for b
  proof -
    assume b: "bit (sn ! ?w) b" "b < 32" "?r \<noteq> 0"
    have "?w < 2"
    proof (rule ccontr)
      assume "\<not> ?w < 2"
      then have "?n = 64" using n by auto
      with b(3) show False by simp
    qed
    then have "32 * ?w + b < 64" using b(2) by linarith
    moreover have "seen_bit sn (32 * ?w + b)" using b by (simp add: seen_bit_def)
    ultimately have "32 * ?w + b < ?n" by (intro stray)
    then show "b < ?r" using mult_div_mod_eq [of 32 ?n] by linarith
  qed
  have part: "(n AND 31 \<noteq> 0 \<and> sn ! ?w \<noteq> drop_bit (unat (32 - (n AND 31))) (- 1)) \<longleftrightarrow>
      (\<exists>b<?r. \<not> bit (sn ! ?w) b)"
  proof (cases "?r = 0")
    case False
    have "sn ! ?w = drop_bit (32 - ?r) (- 1) \<longleftrightarrow> (\<forall>b<32. bit (sn ! ?w) b = (b < ?r))"
      using mask False by (auto simp: bits)
    also have "\<dots> \<longleftrightarrow> (\<forall>b<?r. bit (sn ! ?w) b)" using high False by force
    finally show ?thesis using False zero rest by auto
  qed (simp add: zero)
  have "(\<exists>i<?n. \<not> seen_bit sn i) \<longleftrightarrow> (\<exists>j<?w. \<exists>b<32. \<not> bit (sn ! j) b) \<or> (\<exists>b<?r. \<not> bit (sn ! ?w) b)"
    (is "?L \<longleftrightarrow> ?R")
  proof
    assume ?L
    then obtain i where i: "i < ?n" "\<not> bit (sn ! (i div 32)) (i mod 32)" by (auto simp: seen_bit_def)
    show ?R
    proof (cases "i div 32 < ?w")
      case True
      with i show ?thesis by (metis mod_less_divisor zero_less_numeral)
    next
      case False
      then have w: "i div 32 = ?w" using i(1) by (metis div_le_mono le_antisym less_imp_le not_le)
      then have "i mod 32 < ?r" using i(1) mult_div_mod_eq [of 32 ?n] mult_div_mod_eq [of 32 i] by linarith
      with w i(2) show ?thesis by metis
    qed
  next
    assume ?R
    then show ?L
    proof
      assume "\<exists>j<?w. \<exists>b<32. \<not> bit (sn ! j) b"
      then obtain j b where "j < ?w" "b < 32" "\<not> bit (sn ! j) b" by blast
      moreover from this have "32 * j + b < ?n" using mult_div_mod_eq [of 32 ?n] by linarith
      ultimately show ?L by (intro exI [of _ "32 * j + b"]) (simp add: seen_bit_def)
    next
      assume "\<exists>b<?r. \<not> bit (sn ! ?w) b"
      then obtain b where "b < ?r" "\<not> bit (sn ! ?w) b" by blast
      moreover from this have "b < 32" by (meson less_trans mod_less_divisor zero_less_numeral)
      moreover have "32 * ?w + b < ?n" using \<open>b < ?r\<close> mult_div_mod_eq [of 32 ?n] by linarith
      ultimately show ?L by (intro exI [of _ "32 * ?w + b"]) (simp add: seen_bit_def)
    qed
  qed
  then show ?thesis unfolding missing_required_def shift_5 whole part by simp
qed

lemma required_before_mono: "i \<le> k \<Longrightarrow> required_before fs i \<le> required_before fs k"
  by (induction k rule: dec_induct) (simp_all add: required_before_Suc)

lemma required_before_less:
  "j < k \<Longrightarrow> required_at fs j \<Longrightarrow> required_before fs j < required_before fs k"
  using required_before_mono [of "Suc j" k fs] by (simp add: required_before_Suc required_at_def)

lemma required_before_inj:
  "required_at fs j \<Longrightarrow> required_at fs k \<Longrightarrow> required_before fs j = required_before fs k \<Longrightarrow> j = k"
  by (metis less_irrefl linorder_neqE_nat required_before_less)

lemma required_before_hits:
  "i < required_before fs n \<Longrightarrow> \<exists>j<n. required_at fs j \<and> required_before fs j = i"
proof (induction n)
  case 0
  then show ?case by (simp add: required_before_def)
next
  case (Suc n)
  then show ?case
    by (cases "i < required_before fs n")
      (auto simp: required_before_Suc required_at_def less_Suc_eq split: if_splits)
qed

lemma seek_end_at:
  "i < nfields fs \<Longrightarrow> nfields fs - i \<le> k \<Longrightarrow> seek_end k (iter_at fs d i) =
     Ret (of_nat (required_before fs (nfields fs - Suc 0)), ftype (field_at fs (nfields fs - Suc 0)), iter_at fs d 0)"
proof (induction k arbitrary: i)
  case 0
  then show ?case by simp
next
  case (Suc k)
  have final: "Suc i = nfields fs \<Longrightarrow> nfields fs - Suc 0 = i" by linarith
  with Suc show ?case by (cases "Suc i = nfields fs") (auto simp: next_iter_at next_iter_at_wrap)
qed

lemma required_total_at:
  assumes "0 < nfields fs" and "required_before fs (nfields fs) \<le> 64"
  shows "required_total (of_nat (required_before fs (nfields fs - Suc 0)))
    (ftype (field_at fs (nfields fs - Suc 0))) (iter_at fs d 0) = of_nat (required_before fs (nfields fs))"
proof -
  obtain n where n: "nfields fs = Suc n" using assms(1) by (cases "nfields fs") auto
  have "\<not> (64 :: 32 word) < of_nat (required_before fs (nfields fs))"
    using assms(2) by (simp add: word_less_nat_alt unat_of_nat)
  then show ?thesis
    using n tag_before_end [of 0 fs]
    by (cases "PB_HTYPE (ftype (field_at fs n)) = 0")
      (simp_all add: required_total_def Let_def required_before_Suc add.commute)
qed

text \<open>C22: At the end of a message the decoder reports a missing required field exactly when some
  required entry of the descriptor array was never marked by the main loop: with at most 64
  required entries the two words of the bit map, read with the word and remainder comparisons of
  the code, hold one bit per required entry, whatever entries were met, in whatever order and how
  often, and wherever the iterator stands.\<close>

theorem required_fields_checked:
  assumes "i < nfields fs" and "required_before fs (nfields fs) \<le> 64"
    and "\<forall>j \<in> set js. j < nfields fs"
  shows "decode_finish local
      \<lparr>ds_stream = s, ds_heap = h, ds_iter = iter_at fs d i,
       seen = fold mark_seen (map (iter_at fs d) js) [0, 0], ext_start = e, fixed_field = None\<rparr> =
    (if \<exists>j<nfields fs. required_at fs j \<and> j \<notin> set js
     then fail ''missing required field'' s h else Ret (True, s, h))"
proof -
  let ?sn = "fold mark_seen (map (iter_at fs d) js) [0, 0]" let ?R = "required_before fs (nfields fs)"
  have small: "required_before fs j < 64" if "required_at fs j" "j < nfields fs" for j
    using required_before_less [OF that(2,1)] assms(2) by simp
  have seen: "seen_bit ?sn k \<longleftrightarrow> (\<exists>j \<in> set js. required_at fs j \<and> required_before fs j = k)" if "k < 64" for k
    using seen_bit_marks [OF that, of "map (iter_at fs d) js"] small assms(3)
    by (force simp: required_at_def unat_of_nat)
  have R: "unat (of_nat ?R :: 32 word) = ?R" using assms(2) by (simp add: unat_of_nat)
  have "missing_required (of_nat ?R) ?sn \<longleftrightarrow> (\<exists>k<?R. \<not> seen_bit ?sn k)"
  proof (subst missing_required_bits)
    show "length ?sn = 2" using seen_bit_marks [of 0] by simp
    show "unat (of_nat ?R :: 32 word) \<le> 64" using R assms(2) by simp
    show "\<And>k. k < 64 \<Longrightarrow> seen_bit ?sn k \<Longrightarrow> k < unat (of_nat ?R :: 32 word)"
      using seen required_before_less assms(3) R by auto
  qed (simp add: R)
  also have "\<dots> \<longleftrightarrow> (\<exists>j<nfields fs. required_at fs j \<and> j \<notin> set js)"
  proof
    assume "\<exists>k<?R. \<not> seen_bit ?sn k"
    then obtain k where k: "k < ?R" "\<not> seen_bit ?sn k" by blast
    obtain j where "j < nfields fs" "required_at fs j" "required_before fs j = k"
      using required_before_hits [OF k(1)] by blast
    moreover have "k < 64" using k(1) assms(2) by simp
    ultimately show "\<exists>j<nfields fs. required_at fs j \<and> j \<notin> set js" using seen k(2) by blast
  next
    assume "\<exists>j<nfields fs. required_at fs j \<and> j \<notin> set js"
    then obtain j where j: "j < nfields fs" "required_at fs j" "j \<notin> set js" by blast
    then have "\<not> seen_bit ?sn (required_before fs j)"
      using seen [OF small] required_before_inj by metis
    with j show "\<exists>k<?R. \<not> seen_bit ?sn k" using required_before_less by blast
  qed
  finally have miss: "missing_required (of_nat ?R) ?sn \<longleftrightarrow> \<dots>" .
  have "nfields fs - i \<le> Suc (length fs)" using nfields_le [of fs] by simp
  then show ?thesis
    using assms(1,2) miss
    by (auto simp del: seek_end.simps simp add: decode_finish_def fixed_incomplete_def seek_end_at required_total_at)
qed

theorem required_fields_checked_witness:
  "decode_finish 0 \<lparr>ds_stream = pb_istream_from_buffer [] 0, ds_heap = sample_heap, ds_iter = iter_at sub_fields 0x100 0,
       seen = fold mark_seen (map (iter_at sub_fields 0x100) []) [0, 0], ext_start = 0, fixed_field = None\<rparr>
    = fail ''missing required field'' (pb_istream_from_buffer [] 0) sample_heap"
proof -
  have "nfields sub_fields = Suc 0" "required_before sub_fields (Suc 0) \<le> 64" "required_at sub_fields 0"
    by (simp_all add: sub_fields_def nfields_def required_before_def required_at_def field_at_def pb_type_defs)
  then show ?thesis
    using required_fields_checked [of 0 sub_fields "[]" 0 "pb_istream_from_buffer [] 0" sample_heap "0x100" 0]
    by auto
qed

section \<open>Integer fields\<close>

lemma le_bytes_ucast:
  "8 * n \<le> LENGTH('b) \<Longrightarrow> 8 * n \<le> LENGTH('a) \<Longrightarrow>
   le_bytes n (ucast (v :: 'a :: len word) :: 'b :: len word) = le_bytes n v"
proof (rule nth_equalityI)
  fix i assume n: "8 * n \<le> LENGTH('b)" "8 * n \<le> LENGTH('a)"
    and "i < length (le_bytes n (ucast v :: 'b word))"
  then have i: "i < n" by simp
  have nth: "le_bytes k w ! i = ucast (drop_bit (8 * i) w)" if "i < k" for k i and w :: "'c :: len word"
    using that
  proof (induction k arbitrary: i w)
    case (Suc k)
    then show ?case by (cases i) (simp_all add: drop_bit_drop_bit algebra_simps)
  qed simp
  show "le_bytes n (ucast v :: 'b word) ! i = le_bytes n v ! i"
    unfolding nth [OF i] using i n by (intro bit_word_eqI) (auto simp: bit_simps)
qed simp

lemma h_store_ucast:
  "8 * n \<le> LENGTH('b) \<Longrightarrow> 8 * n \<le> LENGTH('a) \<Longrightarrow>
   h_store a n (ucast (v :: 'a :: len word) :: 'b :: len word) h = h_store a n v h"
  by (simp add: h_store_def store_le_def le_bytes_ucast)

lemma ucast_ucast_fits:
  "LENGTH('b) \<le> LENGTH('a) \<Longrightarrow>
   ucast (ucast v :: 'b :: len word) = (v :: 'a :: len word) \<longleftrightarrow> unat v < 2 ^ LENGTH('b)"
proof -
  assume le: "LENGTH('b) \<le> LENGTH('a)"
  have "ucast (ucast v :: 'b word) = take_bit LENGTH('b) v"
    using le by (intro bit_word_eqI) (auto simp: bit_simps)
  then have "unat (ucast (ucast v :: 'b word) :: 'a word) = take_bit LENGTH('b) (unat v)"
    by (simp only: unsigned_take_bit_eq)
  then have "unat (ucast (ucast v :: 'b word) :: 'a word) = unat v mod 2 ^ LENGTH('b)"
    by (simp only: take_bit_eq_mod)
  moreover have "ucast (ucast v :: 'b word) = v \<longleftrightarrow> unat (ucast (ucast v :: 'b word) :: 'a word) = unat v"
    by (simp add: word_eq_iff_unsigned [where 'a = nat])
  ultimately show ?thesis by (metis mod_less mod_less_divisor zero_less_power zero_less_numeral)
qed

lemma scast_ucast_fits:
  assumes "LENGTH('b) \<le> LENGTH('a)"
  shows "scast (ucast v :: 'b :: len word) = (v :: 'a :: len word) \<longleftrightarrow>
    - (2 ^ (LENGTH('b) - 1)) \<le> sint v \<and> sint v < 2 ^ (LENGTH('b) - 1)"
proof -
  have "sint (scast (ucast v :: 'b word) :: 'a word) = signed_take_bit (LENGTH('b) - 1) (sint v)"
    using assms by (intro bit_eqI) (auto simp: bit_simps min_def not_less)
  moreover have "scast (ucast v :: 'b word) = v \<longleftrightarrow> sint (scast (ucast v :: 'b word) :: 'a word) = sint v"
    by (auto intro: signed_word_eqI)
  ultimately show ?thesis by (simp add: signed_take_bit_int_eq_self_iff)
qed

lemma sint_of_int_64: "- (2 ^ 63) \<le> x \<Longrightarrow> x < 2 ^ 63 \<Longrightarrow> sint (word_of_int x :: 64 word) = x"
  by (simp add: sint_sbintrunc' signed_take_bit_int_eq_self)

lemma int32_part: "scast (ucast (word_of_int x :: 64 word) :: 32 word) = (word_of_int (signed_take_bit 31 x) :: 64 word)"
  by (rule bit_word_eqI) (auto simp: bit_simps bit_scast32 min_def)

lemma signed_take_bit_31: "- (2 ^ 31) \<le> signed_take_bit 31 (x :: int)" "signed_take_bit 31 (x :: int) < 2 ^ 31"
  using signed_take_bit_int_greater_eq_minus_exp [of 31 x] signed_take_bit_int_less_exp [of 31 x] by simp_all

text \<open>C23: An unsigned integer field of 1, 2, 4 or 8 bytes takes exactly the values of its width: it
  stores the low bytes of the varint in little endian order, and answers true when the value fits
  and the error "integer too large" when it does not; the varint is consumed in both cases.\<close>

theorem unsigned_field_range:
  assumes "offers s (varint_bytes v)" and "data_size f \<in> {1, 2, 4, 8}"
  shows "pb_dec_uvarint s f dest h =
    (let s' = consume (length (varint_bytes v)) s; n = unat (data_size f); h' = h_store dest n v h in
     if unat v < 2 ^ (8 * n) then Ret (True, s', h') else fail ''integer too large'' s' h')"
proof -
  have "unat v < 2 ^ 64" using unsigned_less [of v, where 'a = nat] by simp
  moreover have "pb_decode_varint s = (Some v, consume (length (varint_bytes v)) s)"
    using assms(1) by (rule cd_varint.dec_enc)
  ultimately show ?thesis
    using assms(2) ucast_ucast_fits [of v, where 'b = 8] ucast_ucast_fits [of v, where 'b = 16]
      ucast_ucast_fits [of v, where 'b = 32]
    by (auto simp: pb_dec_uvarint_def store_unsigned_def check_clamped_def Let_def h_store_ucast)
qed

text \<open>C24: A signed integer field of 1, 2, 4 or 8 bytes takes exactly the two's complement values of
  its width: below 8 bytes the varint is first cut to an \<^verbatim>\<open>int32_t\<close>, so that 32-bit and 64-bit
  encodings of a negative number mean the same; the low bytes are stored, and a value that does not
  fit is answered with the error "integer too large".\<close>

theorem signed_field_range:
  assumes "offers s (varint_bytes (word_of_int x))" and "data_size f \<in> {1, 2, 4, 8}"
    and "- (2 ^ 63) \<le> x" and "x < 2 ^ 63"
  shows "pb_dec_varint s f dest h =
    (let s' = consume (length (varint_bytes (word_of_int x))) s; n = unat (data_size f);
         y = (if n = 8 then x else signed_take_bit 31 x);
         h' = h_store dest n (word_of_int y :: 64 word) h in
     if - (2 ^ (8 * n - 1)) \<le> y \<and> y < 2 ^ (8 * n - 1) then Ret (True, s', h')
     else fail ''integer too large'' s' h')"
proof -
  let ?y = "signed_take_bit 31 x"
  have y: "sint (word_of_int ?y :: 64 word) = ?y"
    using signed_take_bit_31 [of x] by (intro sint_of_int_64) simp_all
  have dec: "pb_decode_varint s = (Some (word_of_int x), consume (length (varint_bytes (word_of_int x))) s)"
    using assms(1) by (rule cd_varint.dec_enc)
  have fits: "scast (ucast (word_of_int ?y :: 64 word) :: 8 word) = (word_of_int ?y :: 64 word) \<longleftrightarrow> - 128 \<le> ?y \<and> ?y < 128"
    "scast (ucast (word_of_int ?y :: 64 word) :: 16 word) = (word_of_int ?y :: 64 word) \<longleftrightarrow> - 32768 \<le> ?y \<and> ?y < 32768"
    "scast (ucast (word_of_int ?y :: 64 word) :: 32 word) = (word_of_int ?y :: 64 word)"
    using signed_take_bit_31 [of x] by (simp_all add: scast_ucast_fits y)
  consider "data_size f = 1" | "data_size f = 2" | "data_size f = 4" | "data_size f = 8"
    using assms(2) by blast
  then show ?thesis
    by cases (use fits signed_take_bit_31 [of x] assms(3,4) in
        \<open>auto simp: pb_dec_varint_def store_signed_def check_clamped_def Let_def h_store_ucast dec int32_part\<close>)
qed

section \<open>Strings and byte arrays\<close>

lemma store_bytes_append:
  "store_bytes m a (bs @ cs) = store_bytes (store_bytes m a bs) (a + of_nat (length bs)) cs"
  by (induction bs arbitrary: m a) (simp_all add: algebra_simps)

lemma h_write_append:
  "h_write (a + of_nat (length bs)) cs (h_write a bs h) = h_write a (bs @ cs) h"
  by (simp add: h_write_def store_bytes_append)

lemma h_write_Nil [simp]: "h_write a [] h = h"
  by (simp add: h_write_def)

lemma ucast_of_nat_32: "n < 2 ^ 32 \<Longrightarrow> (ucast (of_nat n :: 32 word) :: 64 word) = of_nat n"
  by (rule unsigned_word_eqI [where 'a = nat]) (simp add: unat_of_nat)

lemma length_prefix:
  assumes "offers s (varint_bytes (of_nat n) @ bs)" and "n < 2 ^ 32"
  shows "pb_decode_varint32 s = (Some (of_nat n), consume (length (varint_bytes (of_nat n))) s)"
    and "offers (consume (length (varint_bytes (of_nat n))) s) bs"
  using cd_varint32.dec_enc_next [of s "of_nat n" bs] assms by (simp_all add: ucast_of_nat_32)

lemma read_to_offered:
  "offers s bs \<Longrightarrow> read_to s dest (of_nat (length bs)) h = (True, consume (length bs) s, h_write dest bs h)"
  by (simp add: read_to_def pb_read_offered)

text \<open>C25: A static string field takes a string exactly when it fits with its terminator: the bytes
  and a zero are written to the array and the stream moves behind them; a longer string is answered
  with "string overflow", nothing is written, and the stream stands behind the length prefix.\<close>

theorem string_field_fits:
  assumes "offers s (varint_bytes (of_nat (length bs)) @ bs)" and "length bs < 2 ^ 32 - 1"
    and "PB_ATYPE (ftype f) \<noteq> PB_ATYPE_POINTER"
  shows "pb_dec_string al s f dest h =
    (let s' = consume (length (varint_bytes (of_nat (length bs)))) s in
     if length bs < unat (data_size f)
     then Ret (True, consume (length bs) s', h_write dest (bs @ [0]) h)
     else fail ''string overflow'' s' h)"
proof -
  let ?n = "length bs" let ?s = "consume (length (varint_bytes (of_nat (length bs)))) s"
  have n: "?n < 2 ^ 32" using assms(2) by simp
  have dec: "pb_decode_varint32 s = (Some (of_nat ?n), ?s)" and off: "offers ?s bs"
    using length_prefix [OF assms(1) n] .
  have room: "(ucast (of_nat ?n + 1 :: 32 word) :: 64 word) = of_nat (Suc ?n)"
    using ucast_of_nat_32 [of "Suc ?n"] assms(2) by (simp add: add.commute)
  have big: "unat (of_nat (Suc ?n) :: 64 word) = Suc ?n" "unat (of_nat ?n :: 64 word) = ?n"
    using assms(2) by (simp_all only: unat_of_nat, simp_all)
  have "\<not> (of_nat (Suc ?n) :: 64 word) < of_nat ?n"
    unfolding word_less_nat_alt big by simp
  moreover have "ucast (data_size f) < (of_nat (Suc ?n) :: 64 word) \<longleftrightarrow> \<not> ?n < unat (data_size f)"
    unfolding word_less_nat_alt big by (simp add: not_less less_Suc_eq_le)
  moreover have "h_store (dest + of_nat ?n) 1 (0 :: byte) (h_write dest bs h) = h_write dest (bs @ [0]) h"
    using h_write_append [of dest bs "[0]" h] by (simp add: h_store_def h_write_def store_le_def)
  ultimately show ?thesis
    using assms(3)
    by (simp del: of_nat_Suc add: pb_dec_string_def dec Let_def room store_string_def ucast_of_nat_32 [OF n] read_to_offered [OF off])
qed

text \<open>C26: A static byte array field takes a byte string exactly when it fits with its four byte
  count: the count and the bytes are written to the struct; a longer one is answered with "bytes
  overflow" and nothing is written.\<close>

theorem bytes_field_fits:
  assumes "offers s (varint_bytes (of_nat (length bs)) @ bs)" and "length bs < 2 ^ 32"
    and "PB_ATYPE (ftype f) \<noteq> PB_ATYPE_POINTER"
  shows "pb_dec_bytes al s f dest h =
    (let s' = consume (length (varint_bytes (of_nat (length bs)))) s in
     if length bs + 4 \<le> unat (data_size f)
     then Ret (True, consume (length bs) s',
               h_write dest (le_bytes 4 (of_nat (length bs) :: 32 word) @ bs) h)
     else fail ''bytes overflow'' s' h)"
proof -
  let ?n = "length bs" let ?s = "consume (length (varint_bytes (of_nat (length bs)))) s"
  have dec: "pb_decode_varint32 s = (Some (of_nat ?n), ?s)" and off: "offers ?s bs"
    using length_prefix [OF assms(1,2)] .
  have room: "bytes_allocsize (of_nat ?n) = of_nat (?n + 4)"
    using assms(2) by (simp add: bytes_allocsize_def ucast_of_nat_32)
  have big: "unat (of_nat (?n + 4) :: 64 word) = ?n + 4" "unat (of_nat ?n :: 64 word) = ?n"
    using assms(2) by (simp_all only: unat_of_nat, simp_all)
  have "\<not> (of_nat (?n + 4) :: 64 word) < of_nat ?n"
    unfolding word_less_nat_alt big by simp
  moreover have "ucast (data_size f) < (of_nat (?n + 4) :: 64 word) \<longleftrightarrow> \<not> ?n + 4 \<le> unat (data_size f)"
    unfolding word_less_nat_alt big by (simp add: not_le)
  moreover have "\<not> (0xFFFFFFFF :: 32 word) < of_nat ?n"
    using unat_32_less [of "of_nat ?n :: 32 word"] unfolding word_less_nat_alt by simp
  moreover have "h_write (dest + 4) bs (h_store dest 4 (of_nat ?n :: 32 word) h) =
      h_write dest (le_bytes 4 (of_nat ?n :: 32 word) @ bs) h"
    using h_write_append [of dest "le_bytes 4 (of_nat ?n :: 32 word)" bs h]
    by (simp add: h_store_def h_write_def store_le_def)
  ultimately show ?thesis
    using assms(3)
    by (simp del: of_nat_add add: pb_dec_bytes_def dec Let_def room store_bytes_array_def ucast_of_nat_32 [OF assms(2)] read_to_offered [OF off])
qed

section \<open>Release of pointer fields\<close>

lemma release_contents_scalar:
  assumes "PB_LTYPE (ftype (cur it)) \<noteq> PB_LTYPE_EXTENSION"
    and "PB_LTYPE (ftype (cur it)) \<noteq> PB_LTYPE_SUBMESSAGE"
  shows "release_contents E self it h = Ret h"
  using assms by (simp add: release_contents_def Let_def)


section \<open>A union member that was no pointer\<close>

lemma release_static_scalar:
  assumes "PB_ATYPE (ftype (cur it)) = PB_ATYPE_STATIC"
    and "PB_LTYPE (ftype (cur it)) \<notin> {PB_LTYPE_EXTENSION, PB_LTYPE_SUBMESSAGE}"
  shows "pb_release_single_field E (Suc d) it h = Ret h"
  using assms by (simp add: release_single_body_def release_contents_scalar release_pointer_def)

text \<open>C39: When a union holds a static scalar and the next field on the wire is a pointer submessage
  of the same union, the decoder does not clear the union: the scalar's bytes are read as the old
  pointer and given to \<^verbatim>\<open>realloc\<close>, whatever they are.  A value that is not a live block is
  recorded as a bad free, and the field is answered with "realloc failed".\<close>

theorem stale_union_pointer:
  assumes "PB_ATYPE (ftype (cur it)) = PB_ATYPE_POINTER"
    and "PB_HTYPE (ftype (cur it)) = PB_HTYPE_ONEOF"
    and "PB_LTYPE (ftype (cur it)) = PB_LTYPE_SUBMESSAGE" and "data_size (cur it) \<noteq> 0"
    and "load_size h (pSize it) \<noteq> 0" and "load_size h (pSize it) \<noteq> tag (cur it)"
    and "pb_field_iter_find it (load_size h (pSize it)) = (True, old)"
    and "PB_ATYPE (ftype (cur old)) = PB_ATYPE_STATIC"
    and "PB_LTYPE (ftype (cur old)) \<notin> {PB_LTYPE_EXTENSION, PB_LTYPE_SUBMESSAGE}"
    and "pb_field_iter_find old (tag (cur it)) = (True, it)"
    and "load_ptr h (pData it) \<noteq> 0" and "blocks h (load_ptr h (pData it)) = None"
    and "apart (pData it) 8 (pSize it) 4"
  shows "decode_field E (Suc d) noinit s wt it h =
    Ret (False, set_error ''realloc failed'' s, it,
      (store_size (pSize it) (tag (cur it)) h)\<lparr>bad_free := True\<rparr>)"
proof -
  let ?h = "store_size (pSize it) (tag (cur it)) h"
  have union: "pb_release_union_field E (Suc d) s it h = Ret (True, s, it, h)"
    using assms(5-10) by (simp add: pb_release_union_field_def Let_def release_static_scalar del: pb_release_single_field.simps)
  have keep: "pb_release_single_field E (Suc d) it h = Ret h"
    using assms(2,6) by (simp add: release_single_body_def)
  have "load_ptr ?h (pData it) = load_ptr h (pData it)"
    using assms(13) by (simp add: h_load_store_apart)
  moreover have "(ucast (data_size (cur it)) :: size_t) \<noteq> 0"
    using assms(4) unat_ucast_32 [of "data_size (cur it)"] by (metis unat_eq_0)
  ultimately have "allocate_field (alloc E) s (pData it) (ucast (data_size (cur it))) 1 ?h =
      (False, set_error ''realloc failed'' s, ?h\<lparr>bad_free := True\<rparr>)"
    using assms(4,11,12) by (simp add: allocate_field_def Let_def pb_realloc_def)
  then show ?thesis
    using assms(1-3,11) keep
    by (simp add: decode_field_def union decode_pointer_field_def Let_def decode_pointer_single_def
        del: pb_release_single_field.simps)
qed

section \<open>The results at concrete inputs\<close>

definition sample_item :: "pb_type_t \<Rightarrow> pb_size_t \<Rightarrow> pb_field" where
  "sample_item t n = \<lparr>tag = 1, ftype = t, data_offset = 0, size_offset = 0, data_size = n, array_size = 0, ptr = 0\<rparr>"

lemma offers_exact: "length bs < 2 ^ 64 \<Longrightarrow> offers (pb_istream_from_buffer bs (of_nat (length bs))) bs"
  using offers_from_buffer [of bs "[]"] by simp

theorem unsigned_field_range_witness:
  "pb_dec_uvarint (pb_istream_from_buffer (varint_bytes 300) 2) (sample_item 0x02 1) 0x100 sample_heap =
    fail ''integer too large'' (consume 2 (pb_istream_from_buffer (varint_bytes 300) 2))
      (h_store 0x100 1 (300 :: 64 word) sample_heap)"
proof -
  have len: "length (varint_bytes 300) = 2" by code_simp
  then have "offers (pb_istream_from_buffer (varint_bytes 300) 2) (varint_bytes 300)"
    using offers_exact [of "varint_bytes 300"] by simp
  then show ?thesis
    using unsigned_field_range [of _ 300 "sample_item 0x02 1" "0x100" sample_heap] len
    by (simp add: sample_item_def)
qed

theorem signed_field_range_witness:
  "pb_dec_varint (pb_istream_from_buffer (varint_bytes (word_of_int (- 1))) 10) (sample_item 0x01 4) 0x100 sample_heap =
    Ret (True, consume 10 (pb_istream_from_buffer (varint_bytes (word_of_int (- 1))) 10),
      h_store 0x100 4 (- 1 :: 64 word) sample_heap)"
proof -
  have len: "length (varint_bytes (word_of_int (- 1))) = 10" by code_simp
  then have "offers (pb_istream_from_buffer (varint_bytes (word_of_int (- 1))) 10) (varint_bytes (word_of_int (- 1)))"
    using offers_exact [of "varint_bytes (word_of_int (- 1))"] by simp
  then show ?thesis
    using signed_field_range [of _ "- 1" "sample_item 0x01 4" "0x100" sample_heap] len
    by (simp add: sample_item_def)
qed

theorem string_field_fits_witness:
  "pb_dec_string (\<lambda>_ _ _. 0) (pb_istream_from_buffer [2, 0x68, 0x69] 3) (sample_item 0x07 3) 0x100 sample_heap =
    Ret (True, consume (Suc (Suc (Suc 0))) (pb_istream_from_buffer [2, 0x68, 0x69] 3), h_write 0x100 [0x68, 0x69, 0] sample_heap)"
proof -
  have v: "varint_bytes (of_nat (length [0x68, 0x69 :: byte])) = [2]" by (simp add: varint_bytes_small)
  have "offers (pb_istream_from_buffer [2, 0x68, 0x69] 3) ([2] @ [0x68, 0x69])"
    using offers_exact [of "[2, 0x68, 0x69]"] by simp
  then show ?thesis
    using string_field_fits [of _ "[0x68, 0x69]" "sample_item 0x07 3" "\<lambda>_ _ _. 0" "0x100" sample_heap]
    unfolding v by (simp add: sample_item_def PB_ATYPE_def)
qed

theorem bytes_field_fits_witness:
  "pb_dec_bytes (\<lambda>_ _ _. 0) (pb_istream_from_buffer [2, 0x68, 0x69] 3) (sample_item 0x06 5) 0x100 sample_heap =
    fail ''bytes overflow'' (consume 1 (pb_istream_from_buffer [2, 0x68, 0x69] 3)) sample_heap"
proof -
  have v: "varint_bytes (of_nat (length [0x68, 0x69 :: byte])) = [2]" by (simp add: varint_bytes_small)
  have "offers (pb_istream_from_buffer [2, 0x68, 0x69] 3) ([2] @ [0x68, 0x69])"
    using offers_exact [of "[2, 0x68, 0x69]"] by simp
  then show ?thesis
    using bytes_field_fits [of _ "[0x68, 0x69]" "sample_item 0x06 5" "\<lambda>_ _ _. 0" "0x100" sample_heap]
    unfolding v by (simp add: sample_item_def PB_ATYPE_def)
qed


theorem stale_union_pointer_witness:
  "decode_field (sample_env sub_fields) 1 (\<lambda>_ _ _ _. OutOfFuel) (pb_istream_from_buffer [] 0) PB_WT_STRING (iter_at union_fields 0x100 1)
      (h_store 0x108 8 (0x2A :: 64 word) (store_size 0x100 1 sample_heap)) =
    Ret (False, set_error ''realloc failed'' (pb_istream_from_buffer [] 0), iter_at union_fields 0x100 1,
      (store_size 0x100 2 (h_store 0x108 8 (0x2A :: 64 word) (store_size 0x100 1 sample_heap)))\<lparr>bad_free := True\<rparr>)"
proof -
  let ?it = "iter_at union_fields 0x100 1" and ?old = "iter_at union_fields 0x100 0"
  let ?h = "h_store 0x108 8 (0x2A :: 64 word) (store_size 0x100 1 sample_heap)"
  have n: "nfields union_fields = 2" by (simp add: union_fields_def nfields_def PB_LAST_FIELD_def)
  have f: "cur ?it = field_at union_fields 1" "cur ?old = field_at union_fields 0"
    "pData ?it = 0x108" "pSize ?it = 0x100"
    by (simp_all add: union_fields_def field_at_def iter_in_union_def pb_type_defs)
  have up: "[1..<2] @ [0..<1] = [1, 0 :: nat]" "[0..<2] @ [0..<0] = [0, 1 :: nat]" by (simp_all add: upt_rec)
  have find: "pb_field_iter_find ?it 1 = (True, ?old)" "pb_field_iter_find ?old 2 = (True, ?it)"
    using iter_find_eq [of 1 union_fields "0x100" 1] iter_find_eq [of 0 union_fields "0x100" 2]
    unfolding n up by (simp_all add: union_fields_def field_at_def pb_type_defs)
  have ap: "apart 0x108 8 0x100 4" "apart 0x100 4 0x108 8"
    using apart_above [of 4 "0x108" "0x100" 8] by (simp_all add: apart_sym)
  have l: "load_size ?h 0x100 = 1" "load_ptr ?h 0x108 = 0x2A"
    using ap by (simp_all add: h_load_store_apart h_load_store_same)
  have b: "blocks ?h (load_ptr ?h 0x108) = None" by (simp add: sample_heap_def)
  have t: "tag (field_at union_fields 1) = 2" "ftype (field_at union_fields 1) = 0xB8"
    "data_size (field_at union_fields 1) = 8" "ftype (field_at union_fields 0) = 0x31"
    by (simp_all add: union_fields_def field_at_def)
  show ?thesis
    using stale_union_pointer [of ?it ?h ?old "sample_env sub_fields" 0 "\<lambda>_ _ _ _. OutOfFuel" "pb_istream_from_buffer [] 0" PB_WT_STRING] b find ap(1)
    unfolding f l t by (simp add: pb_type_defs)
qed

end
