(* ===== verification/Pb_Encode.thy ===== *)
theory Pb_Encode
  imports Pb_Ostream Pb_Message
begin

text \<open>
  The message encoder of \<^verbatim>\<open>nanopb/pb_encode.c\<close>: the encoders of single values, arrays, basic,
  callback and extension fields, whole messages, and submessages with their two passes.
\<close>

section \<open>Surroundings and results\<close>

text \<open>
  Parameters: the user's encode callbacks, by function pointer, with the field and the address
  of their \<^verbatim>\<open>arg\<close>, and the user's extension encoders.  They write to the stream and may change
  memory that is theirs.
\<close>

type_synonym encode_result = "(bool \<times> pb_ostream \<times> heap) run"
type_synonym pb_encoder = "pb_ostream \<Rightarrow> pb_field \<Rightarrow> addr \<Rightarrow> heap \<Rightarrow> encode_result"
type_synonym message_encoder = "pb_ostream \<Rightarrow> pb_field list \<Rightarrow> addr \<Rightarrow> heap \<Rightarrow> encode_result"

record enc_env = pb_env +
  user_encode :: "addr \<Rightarrow> pb_ostream \<Rightarrow> pb_field \<Rightarrow> addr \<Rightarrow> heap \<Rightarrow> bool \<times> pb_ostream \<times> heap"
  user_ext_encode :: "addr \<Rightarrow> pb_ostream \<Rightarrow> addr \<Rightarrow> heap \<Rightarrow> bool \<times> pb_ostream \<times> heap"

definition efail :: "string \<Rightarrow> pb_ostream \<Rightarrow> heap \<Rightarrow> encode_result" where
  "efail msg s h = Ret (False, oset_error msg s, h)"

text \<open>A writer that leaves the memory alone, as an encoder's result.\<close>

definition wrote :: "bool \<times> pb_ostream \<Rightarrow> heap \<Rightarrow> encode_result" where
  "wrote r h = Ret (fst r, snd r, h)"

text \<open>\<^verbatim>\<open>if (!first) return false; second\<close>\<close>

definition and_then :: "encode_result \<Rightarrow> (pb_ostream \<Rightarrow> heap \<Rightarrow> encode_result) \<Rightarrow> encode_result" where
  "and_then r g = run_bind r (\<lambda>(ok, s, h). if ok then g s h else Ret (False, s, h))"

section \<open>Values\<close>

text \<open>With a one byte \<^verbatim>\<open>bool\<close>.\<close>

definition safe_read_bool :: "heap \<Rightarrow> addr \<Rightarrow> bool" where
  "safe_read_bool h a \<longleftrightarrow> mem h a \<noteq> 0"

definition pb_enc_bool :: pb_encoder where
  "pb_enc_bool s f src h = wrote (pb_encode_varint s (if safe_read_bool h src then 1 else 0)) h"

text \<open>Reading a signed or an unsigned integer of the field's size.\<close>

definition load_signed :: "pb_size_t \<Rightarrow> heap \<Rightarrow> addr \<Rightarrow> 64 word option" where
  "load_signed sz h src =
     (if sz = 1 then Some (scast (h_load h src 1 :: 8 word))
      else if sz = 2 then Some (scast (h_load h src 2 :: 16 word))
      else if sz = 4 then Some (scast (h_load h src 4 :: 32 word))
      else if sz = 8 then Some (h_load h src 8)
      else None)"

definition load_unsigned :: "pb_size_t \<Rightarrow> heap \<Rightarrow> addr \<Rightarrow> 64 word option" where
  "load_unsigned sz h src =
     (if sz = 1 then Some (ucast (h_load h src 1 :: 8 word))
      else if sz = 2 then Some (ucast (h_load h src 2 :: 16 word))
      else if sz = 4 then Some (ucast (h_load h src 4 :: 32 word))
      else if sz = 8 then Some (h_load h src 8)
      else None)"

definition pb_enc_varint :: pb_encoder where
  "pb_enc_varint s f src h =
     (case load_signed (data_size f) h src of
        None \<Rightarrow> efail ''invalid data_size'' s h
      | Some value \<Rightarrow> wrote (pb_encode_varint s value) h)"

definition pb_enc_uvarint :: pb_encoder where
  "pb_enc_uvarint s f src h =
     (case load_unsigned (data_size f) h src of
        None \<Rightarrow> efail ''invalid data_size'' s h
      | Some value \<Rightarrow> wrote (pb_encode_varint s value) h)"

definition pb_enc_svarint :: pb_encoder where
  "pb_enc_svarint s f src h =
     (case load_signed (data_size f) h src of
        None \<Rightarrow> efail ''invalid data_size'' s h
      | Some value \<Rightarrow> wrote (pb_encode_svarint s value) h)"

definition pb_enc_fixed64 :: pb_encoder where
  "pb_enc_fixed64 s f src h = wrote (pb_encode_fixed64 s (h_load h src 8)) h"

definition pb_enc_fixed32 :: pb_encoder where
  "pb_enc_fixed32 s f src h = wrote (pb_encode_fixed32 s (h_load h src 4)) h"

definition pb_enc_bytes :: pb_encoder where
  "pb_enc_bytes s f src h =
     (if src = 0 then wrote (pb_encode_string s []) h
      else let n = load_size h src in
        if PB_ATYPE (ftype f) = PB_ATYPE_STATIC \<and> (ucast n :: size_t) + 4 > ucast (data_size f)
        then efail ''bytes size exceeded'' s h
        else wrote (pb_encode_string s (load_bytes (mem h) (src + 4) (unat n))) h)"

text \<open>\<^verbatim>\<open>while (size < max_size && *p != '\0')\<close>\<close>

function string_size :: "nat \<Rightarrow> bytemem \<Rightarrow> addr \<Rightarrow> nat" where
  "string_size k m p = (if k = 0 \<or> m p = 0 then 0 else Suc (string_size (k - 1) m (p + 1)))"
  by pat_completeness auto
termination by (relation "measure (\<lambda>(k, m, p). k)") auto

declare string_size.simps [simp del]

definition pb_enc_string :: pb_encoder where
  "pb_enc_string s f src h =
     (let max_size = (if PB_ATYPE (ftype f) = PB_ATYPE_POINTER then 2 ^ 64 - 1 else unat (data_size f));
          n = (if src = 0 then 0 else string_size max_size (mem h) src) in
      wrote (pb_encode_string s (load_bytes (mem h) src n)) h)"

definition pb_enc_fixed_length_bytes :: pb_encoder where
  "pb_enc_fixed_length_bytes s f src h =
     wrote (pb_encode_string s (load_bytes (mem h) src (unat (data_size f)))) h"

section \<open>Submessages\<close>

text \<open>\<^verbatim>\<open>pb_encode_submessage\<close>; \<open>enc\<close> stands for \<^verbatim>\<open>pb_encode\<close> one level down.\<close>

definition pb_encode_submessage :: "message_encoder \<Rightarrow> message_encoder" where
  "pb_encode_submessage enc s fs src h =
     run_bind (enc PB_OSTREAM_SIZING fs src h) (\<lambda>(ok, sub, h).
       if \<not> ok then Ret (False, s\<lparr>oerrmsg := oerrmsg sub\<rparr>, h)
       else let n = bytes_written sub in
         and_then (wrote (pb_encode_varint s n) h) (\<lambda>s h.
           if ocallback s = None then wrote (pb_write_count s [] n) h
           else if bytes_written s + n > max_size s then efail ''stream full'' s h
           else run_bind
             (enc (sub\<lparr>ocallback := ocallback s, ostate := ostate s, max_size := n,
                       bytes_written := 0, oerrmsg := None\<rparr>) fs src h)
             (\<lambda>(status, sub, h).
                let s' = s\<lparr>bytes_written := bytes_written s + bytes_written sub,
                           ostate := ostate sub, oerrmsg := oerrmsg sub\<rparr> in
                if bytes_written sub \<noteq> n then efail ''submsg size changed'' s' h
                else Ret (status, s', h))))"

definition pb_enc_submessage :: "'z pb_env_scheme \<Rightarrow> message_encoder \<Rightarrow> pb_encoder" where
  "pb_enc_submessage E enc s f src h =
     (if ptr f = 0 then efail ''invalid field descriptor'' s h
      else pb_encode_submessage enc s (fields_of E (ptr f)) src h)"

text \<open>The call through \<^verbatim>\<open>PB_ENCODERS\<close>: entry 9 is NULL, and there is none from 11 on.\<close>

definition call_encoder :: "'z pb_env_scheme \<Rightarrow> message_encoder \<Rightarrow> pb_encoder" where
  "call_encoder E enc s f src h =
     (let lt = PB_LTYPE (ftype f) in
      if lt = PB_LTYPE_BOOL then pb_enc_bool s f src h
      else if lt = PB_LTYPE_VARINT then pb_enc_varint s f src h
      else if lt = PB_LTYPE_UVARINT then pb_enc_uvarint s f src h
      else if lt = PB_LTYPE_SVARINT then pb_enc_svarint s f src h
      else if lt = PB_LTYPE_FIXED32 then pb_enc_fixed32 s f src h
      else if lt = PB_LTYPE_FIXED64 then pb_enc_fixed64 s f src h
      else if lt = PB_LTYPE_BYTES then pb_enc_bytes s f src h
      else if lt = PB_LTYPE_STRING then pb_enc_string s f src h
      else if lt = PB_LTYPE_SUBMESSAGE then pb_enc_submessage E enc s f src h
      else if lt = PB_LTYPE_FIXED_LENGTH_BYTES then pb_enc_fixed_length_bytes s f src h
      else Undefined)"

section \<open>Arrays\<close>

text \<open>\<^verbatim>\<open>for (i = 0; i < count; i++) { ...; p = (const char*)p + field->data_size; }\<close>\<close>

primrec encode_items ::
  "nat \<Rightarrow> (pb_ostream \<Rightarrow> addr \<Rightarrow> heap \<Rightarrow> encode_result) \<Rightarrow> addr \<Rightarrow> pb_ostream \<Rightarrow> addr \<Rightarrow> heap \<Rightarrow>
   encode_result" where
  "encode_items 0 f step s p h = Ret (True, s, h)"
| "encode_items (Suc n) f step s p h =
     and_then (f s p h) (\<lambda>s h. encode_items n f step s (p + step) h)"

text \<open>The size of a packed array, or \<^verbatim>\<open>None\<close> when the sizing pass fails.\<close>

definition packed_size ::
  "pb_field \<Rightarrow> addr \<Rightarrow> size_t \<Rightarrow> pb_encoder \<Rightarrow> heap \<Rightarrow> (size_t option \<times> heap) run" where
  "packed_size f p count func h =
     (if PB_LTYPE (ftype f) = PB_LTYPE_FIXED32 then Ret (Some (4 * count), h)
      else if PB_LTYPE (ftype f) = PB_LTYPE_FIXED64 then Ret (Some (8 * count), h)
      else run_bind
        (encode_items (unat count) (\<lambda>s. func s f) (ucast (data_size f)) PB_OSTREAM_SIZING p h)
        (\<lambda>(ok, s, h). Ret (if ok then Some (bytes_written s) else None, h)))"

text \<open>The address of the data of an entry: pointer strings and bytes are one step further.\<close>

definition entry_data :: "pb_field \<Rightarrow> addr \<Rightarrow> heap \<Rightarrow> addr" where
  "entry_data f p h =
     (if PB_ATYPE (ftype f) = PB_ATYPE_POINTER \<and>
         (PB_LTYPE (ftype f) = PB_LTYPE_STRING \<or> PB_LTYPE (ftype f) = PB_LTYPE_BYTES)
      then load_ptr h p else p)"

definition encode_array :: "pb_ostream \<Rightarrow> pb_field \<Rightarrow> addr \<Rightarrow> size_t \<Rightarrow> pb_encoder \<Rightarrow> heap \<Rightarrow> encode_result" where
  "encode_array s f p count func h =
     (if count = 0 then Ret (True, s, h)
      else if PB_ATYPE (ftype f) \<noteq> PB_ATYPE_POINTER \<and> count > ucast (array_size f)
      then efail ''array max size exceeded'' s h
      else if PB_LTYPE (ftype f) \<le> PB_LTYPE_LAST_PACKABLE then
        and_then (wrote (pb_encode_tag s PB_WT_STRING (tag f)) h) (\<lambda>s h.
          run_bind (packed_size f p count func h) (\<lambda>(n, h).
            case n of
              None \<Rightarrow> Ret (False, s, h)
            | Some n \<Rightarrow>
                and_then (wrote (pb_encode_varint s n) h) (\<lambda>s h.
                  if ocallback s = None then wrote (pb_write_count s [] n) h
                  else encode_items (unat count) (\<lambda>s. func s f) (ucast (data_size f)) s p h)))
      else encode_items (unat count)
             (\<lambda>s p h. and_then (wrote (pb_encode_tag_for_field s f) h)
                         (\<lambda>s h. func s f (entry_data f p h) h))
             (ucast (data_size f)) s p h)"

section \<open>Default values of proto3\<close>

text \<open>\<^verbatim>\<open>pb_check_proto3_default_value\<close>, with the recursive calls as the argument \<open>self\<close>.\<close>

definition check_default_body ::
  "'z pb_env_scheme \<Rightarrow> (pb_field \<Rightarrow> addr \<Rightarrow> heap \<Rightarrow> bool run) \<Rightarrow> pb_field \<Rightarrow> addr \<Rightarrow> heap \<Rightarrow> bool run" where
  "check_default_body E self f p h =
     (let type = ftype f; sizep = size_ptr p f in
      if PB_HTYPE type = PB_HTYPE_REQUIRED then Ret False
      else if PB_HTYPE type = PB_HTYPE_REPEATED \<and> size_offset f \<noteq> 0 then Ret (load_size h sizep = 0)
      else if PB_HTYPE type = PB_HTYPE_REPEATED \<and> PB_ATYPE type = PB_ATYPE_STATIC then Ret False
      else if PB_HTYPE type = PB_HTYPE_ONEOF then Ret (load_size h sizep = 0)
      else if PB_HTYPE type = PB_HTYPE_OPTIONAL \<and> size_offset f \<noteq> 0
      then Ret (safe_read_bool h sizep = False)
      else if PB_ATYPE type = PB_ATYPE_STATIC \<and> PB_LTYPE type = PB_LTYPE_BYTES
      then Ret (load_size h p = 0)
      else if PB_ATYPE type = PB_ATYPE_STATIC \<and> PB_LTYPE type = PB_LTYPE_STRING
      then Ret (mem h p = 0)
      else if PB_ATYPE type = PB_ATYPE_STATIC \<and> PB_LTYPE type = PB_LTYPE_FIXED_LENGTH_BYTES
      then Ret (data_size f = 0)
      else if PB_ATYPE type = PB_ATYPE_STATIC \<and> PB_LTYPE type = PB_LTYPE_SUBMESSAGE then
        (case pb_field_iter_begin (fields_of E (ptr f)) p of
           (False, _) \<Rightarrow> Ret True
         | (True, it) \<Rightarrow>
             run_bind (do_fields (Suc (length (fields_of E (ptr f)))) pb_field_iter_next
                         (\<lambda>it _. run_bind (self (cur it) (pData it) h) (\<lambda>b. Ret (b, ()))) it ())
               (\<lambda>(b, _). Ret b))
      else Ret (\<forall>b \<in> set (load_bytes (mem h) p (unat (data_size f))). b = 0))"

primrec pb_check_proto3_default_value ::
  "'z pb_env_scheme \<Rightarrow> nat \<Rightarrow> pb_field \<Rightarrow> addr \<Rightarrow> heap \<Rightarrow> bool run" where
  "pb_check_proto3_default_value E 0 f p h = OutOfFuel"
| "pb_check_proto3_default_value E (Suc d) f p h =
     check_default_body E (pb_check_proto3_default_value E d) f p h"

section \<open>Fields\<close>

text \<open>
  The local \<^verbatim>\<open>implicit_has\<close> as it is left before the switch, for a field at \<open>p\<close>: of a
  pointer field it says that the pointer is not NULL.
\<close>

definition implicit_has :: "'z pb_env_scheme \<Rightarrow> nat \<Rightarrow> pb_field \<Rightarrow> addr \<Rightarrow> heap \<Rightarrow> bool run" where
  "implicit_has E d f p h =
     run_bind
       (if size_offset f \<noteq> 0 then Ret True
        else if PB_HTYPE (ftype f) = PB_HTYPE_OPTIONAL
        then run_bind (pb_check_proto3_default_value E (Suc d) f p h) (\<lambda>b. Ret (\<not> b))
        else Ret True)
       (\<lambda>b. Ret (if PB_ATYPE (ftype f) = PB_ATYPE_POINTER then load_ptr h p \<noteq> 0 else b))"

text \<open>
  \<^verbatim>\<open>encode_basic_field\<close>: without a size offset \<^verbatim>\<open>pSize\<close> points to the one byte local, and a union
  member would read four bytes there.
\<close>

definition encode_basic_field ::
  "'z pb_env_scheme \<Rightarrow> nat \<Rightarrow> message_encoder \<Rightarrow> pb_ostream \<Rightarrow> pb_field \<Rightarrow> addr \<Rightarrow> heap \<Rightarrow> encode_result" where
  "encode_basic_field E d enc s f p h =
     (let type = ftype f; func = call_encoder E enc; sizep = size_ptr p f;
          src = (if PB_ATYPE type = PB_ATYPE_POINTER then load_ptr h p else p);
          value = (\<lambda>s h. and_then (wrote (pb_encode_tag_for_field s f) h) (\<lambda>s h. func s f src h)) in
      if PB_LTYPE type \<ge> PB_LTYPES_COUNT then Undefined
      else run_bind (implicit_has E d f p h) (\<lambda>has.
        if PB_HTYPE type = PB_HTYPE_REQUIRED then
          (if src = 0 then efail ''missing required field'' s h else value s h)
        else if PB_HTYPE type = PB_HTYPE_OPTIONAL then
          (if (if size_offset f \<noteq> 0 then safe_read_bool h sizep else has)
           then value s h else Ret (True, s, h))
        else if PB_HTYPE type = PB_HTYPE_REPEATED then
          encode_array s f src
            (ucast (if size_offset f \<noteq> 0 then load_size h sizep else array_size f)) func h
        else if PB_HTYPE type = PB_HTYPE_ONEOF then
          (if size_offset f = 0 then Undefined
           else if load_size h sizep = tag f then value s h else Ret (True, s, h))
        else efail ''invalid field type'' s h))"

definition encode_callback_field :: "'z enc_env_scheme \<Rightarrow> pb_encoder" where
  "encode_callback_field E s f p h =
     (if load_ptr h p \<noteq> 0 then
        (case user_encode E (load_ptr h p) s f (p + 8) h of
           (False, s, h) \<Rightarrow> efail ''callback error'' s h
         | (True, s, h) \<Rightarrow> Ret (True, s, h))
      else Ret (True, s, h))"

definition encode_field ::
  "'z enc_env_scheme \<Rightarrow> nat \<Rightarrow> message_encoder \<Rightarrow> pb_ostream \<Rightarrow> pb_field \<Rightarrow> addr \<Rightarrow> heap \<Rightarrow> encode_result" where
  "encode_field E d enc s f p h =
     (let atype = PB_ATYPE (ftype f) in
      if atype = PB_ATYPE_STATIC \<or> atype = PB_ATYPE_POINTER then encode_basic_field E d enc s f p h
      else if atype = PB_ATYPE_CALLBACK then encode_callback_field E s f p h
      else efail ''invalid field type'' s h)"

definition default_extension_encoder ::
  "'z enc_env_scheme \<Rightarrow> nat \<Rightarrow> message_encoder \<Rightarrow> pb_ostream \<Rightarrow> addr \<Rightarrow> heap \<Rightarrow> encode_result" where
  "default_extension_encoder E d enc s ext h =
     (let f = field_at (fields_of E (ext_type_arg h ext)) 0 in
      encode_field E d enc s f
        (if PB_ATYPE (ftype f) = PB_ATYPE_POINTER then ext + 8 else ext_dest h ext) h)"

primrec encode_extension_loop ::
  "nat \<Rightarrow> 'z enc_env_scheme \<Rightarrow> nat \<Rightarrow> message_encoder \<Rightarrow> addr \<Rightarrow> pb_ostream \<Rightarrow> heap \<Rightarrow> encode_result" where
  "encode_extension_loop 0 E d enc ext s h = (if ext = 0 then Ret (True, s, h) else OutOfFuel)"
| "encode_extension_loop (Suc k) E d enc ext s h =
     (if ext = 0 then Ret (True, s, h)
      else and_then
        (if ext_type_encode h ext \<noteq> 0 then Ret (user_ext_encode E (ext_type_encode h ext) s ext h)
         else default_extension_encoder E d enc s ext h)
        (\<lambda>s h. encode_extension_loop k E d enc (ext_next h ext) s h))"

definition encode_extension_field ::
  "'z enc_env_scheme \<Rightarrow> nat \<Rightarrow> message_encoder \<Rightarrow> pb_ostream \<Rightarrow> addr \<Rightarrow> heap \<Rightarrow> encode_result" where
  "encode_extension_field E d enc s p h =
     encode_extension_loop (loop_fuel E) E d enc (load_ptr h p) s h"

section \<open>Messages\<close>

definition encode_entry ::
  "'z enc_env_scheme \<Rightarrow> nat \<Rightarrow> message_encoder \<Rightarrow> pb_field_iter \<Rightarrow> pb_ostream \<times> heap \<Rightarrow>
   (bool \<times> pb_ostream \<times> heap) run" where
  "encode_entry E d enc it = (\<lambda>(s, h).
     if PB_LTYPE (ftype (cur it)) = PB_LTYPE_EXTENSION
     then encode_extension_field E d enc s (pData it) h
     else encode_field E d enc s (cur it) (pData it) h)"

primrec pb_encode :: "'z enc_env_scheme \<Rightarrow> nat \<Rightarrow> message_encoder" where
  "pb_encode E 0 s fs src h = OutOfFuel"
| "pb_encode E (Suc d) s fs src h =
     (case pb_field_iter_begin fs src of
        (False, _) \<Rightarrow> Ret (True, s, h)
      | (True, it) \<Rightarrow>
          do_fields (Suc (length fs)) pb_field_iter_next (encode_entry E d (pb_encode E d)) it (s, h))"

definition pb_encode_delimited :: "'z enc_env_scheme \<Rightarrow> nat \<Rightarrow> message_encoder" where
  "pb_encode_delimited E d = pb_encode_submessage (pb_encode E d)"

definition pb_encode_nullterminated :: "'z enc_env_scheme \<Rightarrow> nat \<Rightarrow> message_encoder" where
  "pb_encode_nullterminated E d s fs src h =
     and_then (pb_encode E d s fs src h) (\<lambda>s h. wrote (pb_write s [0]) h)"

definition pb_get_encoded_size ::
  "'z enc_env_scheme \<Rightarrow> nat \<Rightarrow> pb_field list \<Rightarrow> addr \<Rightarrow> heap \<Rightarrow> (size_t option \<times> heap) run" where
  "pb_get_encoded_size E d fs src h =
     run_bind (pb_encode E d PB_OSTREAM_SIZING fs src h)
       (\<lambda>(ok, s, h). Ret (if ok then Some (bytes_written s) else None, h))"

end
