(* ===== verification/Pb_Encode_Facts.thy ===== *)
theory Pb_Encode_Facts
  imports Pb_Wire Pb_Encode
begin

text \<open>
  What the message encoder writes.  The protobuf encoding of a struct is defined as a byte string
  that mentions no stream, and the encoder is shown to refine it on sizing streams and on buffers
  with room; whatever the message and the room, it never writes behind the buffer.
\<close>

section \<open>The encoding of a struct as a byte string\<close>

text \<open>\<open>None\<close> where the encoder answers an error, runs out of fuel, or calls user code.\<close>

primrec concat_all :: "byte list option list \<Rightarrow> byte list option" where
  "concat_all [] = Some []"
| "concat_all (x # xs) =
     (case x of None \<Rightarrow> None
      | Some bs \<Rightarrow> (case concat_all xs of None \<Rightarrow> None | Some cs \<Rightarrow> Some (bs @ cs)))"

definition value_wire ::
  "'z pb_env_scheme \<Rightarrow> (pb_field list \<Rightarrow> addr \<Rightarrow> heap \<Rightarrow> byte list option) \<Rightarrow> pb_field \<Rightarrow> addr \<Rightarrow> heap \<Rightarrow>
   byte list option" where
  "value_wire E msg f src h =
     (let lt = PB_LTYPE (ftype f) in
      if lt = PB_LTYPE_BOOL then Some (varint_bytes (if safe_read_bool h src then 1 else 0))
      else if lt = PB_LTYPE_VARINT then map_option varint_bytes (load_signed (data_size f) h src)
      else if lt = PB_LTYPE_UVARINT then map_option varint_bytes (load_unsigned (data_size f) h src)
      else if lt = PB_LTYPE_SVARINT
      then map_option (\<lambda>v. varint_bytes (zigzag v)) (load_signed (data_size f) h src)
      else if lt = PB_LTYPE_FIXED32 then Some (fixed32_bytes (h_load h src 4))
      else if lt = PB_LTYPE_FIXED64 then Some (fixed64_bytes (h_load h src 8))
      else if lt = PB_LTYPE_BYTES then
        (if src = 0 then Some (string_bytes [])
         else if PB_ATYPE (ftype f) = PB_ATYPE_STATIC \<and>
                 (ucast (load_size h src) :: size_t) + 4 > ucast (data_size f) then None
         else Some (string_bytes (load_bytes (mem h) (src + 4) (unat (load_size h src)))))
      else if lt = PB_LTYPE_STRING then
        Some (string_bytes (if src = 0 then [] else
          load_bytes (mem h) src
            (string_size (if PB_ATYPE (ftype f) = PB_ATYPE_POINTER then 2 ^ 64 - 1 else unat (data_size f))
               (mem h) src)))
      else if lt = PB_LTYPE_SUBMESSAGE then
        (if ptr f = 0 then None else map_option string_bytes (msg (fields_of E (ptr f)) src h))
      else if lt = PB_LTYPE_FIXED_LENGTH_BYTES then
        Some (string_bytes (load_bytes (mem h) src (unat (data_size f))))
      else None)"

definition tag_bytes :: "pb_wire_type_t \<Rightarrow> pb_field \<Rightarrow> byte list" where
  "tag_bytes wt f = varint_bytes (tag_word wt (tag f))"

definition tagged_value ::
  "'z pb_env_scheme \<Rightarrow> (pb_field list \<Rightarrow> addr \<Rightarrow> heap \<Rightarrow> byte list option) \<Rightarrow> pb_field \<Rightarrow> addr \<Rightarrow> heap \<Rightarrow>
   byte list option" where
  "tagged_value E msg f src h =
     (case wire_type_of (PB_LTYPE (ftype f)) of None \<Rightarrow> None
      | Some wt \<Rightarrow> map_option ((@) (tag_bytes wt f)) (value_wire E msg f src h))"

text \<open>The addresses of the entries of an array.\<close>

definition entries :: "pb_field \<Rightarrow> addr \<Rightarrow> nat \<Rightarrow> addr list" where
  "entries f p n = map (\<lambda>i. p + of_nat i * ucast (data_size f)) [0..<n]"

definition array_wire ::
  "'z pb_env_scheme \<Rightarrow> (pb_field list \<Rightarrow> addr \<Rightarrow> heap \<Rightarrow> byte list option) \<Rightarrow> pb_field \<Rightarrow> addr \<Rightarrow> nat \<Rightarrow>
   heap \<Rightarrow> byte list option" where
  "array_wire E msg f p n h =
     (if n = 0 then Some []
      else if PB_ATYPE (ftype f) \<noteq> PB_ATYPE_POINTER \<and> unat (array_size f) < n then None
      else if PB_LTYPE (ftype f) \<le> PB_LTYPE_LAST_PACKABLE then
        map_option (\<lambda>bs. tag_bytes PB_WT_STRING f @ string_bytes bs)
          (concat_all (map (\<lambda>q. value_wire E msg f q h) (entries f p n)))
      else concat_all (map (\<lambda>q. tagged_value E msg f (entry_data f q h) h) (entries f p n)))"

definition field_wire ::
  "'z pb_env_scheme \<Rightarrow> nat \<Rightarrow> (pb_field list \<Rightarrow> addr \<Rightarrow> heap \<Rightarrow> byte list option) \<Rightarrow> pb_field \<Rightarrow> addr \<Rightarrow>
   heap \<Rightarrow> byte list option" where
  "field_wire E d msg f p h =
     (let type = ftype f; sizep = size_ptr p f;
          src = (if PB_ATYPE type = PB_ATYPE_POINTER then load_ptr h p else p) in
      if PB_LTYPE type \<ge> PB_LTYPES_COUNT \<or> PB_LTYPE type = PB_LTYPE_EXTENSION \<or>
         PB_ATYPE type \<notin> {PB_ATYPE_STATIC, PB_ATYPE_POINTER} then None
      else case implicit_has E d f p h of
        Ret has \<Rightarrow>
          if PB_HTYPE type = PB_HTYPE_REQUIRED
          then if src = 0 then None else tagged_value E msg f src h
          else if PB_HTYPE type = PB_HTYPE_OPTIONAL then
            (if (if size_offset f \<noteq> 0 then safe_read_bool h sizep else has)
             then tagged_value E msg f src h else Some [])
          else if PB_HTYPE type = PB_HTYPE_REPEATED then
            array_wire E msg f src
              (unat (if size_offset f \<noteq> 0 then load_size h sizep else array_size f)) h
          else if PB_HTYPE type = PB_HTYPE_ONEOF \<and> size_offset f \<noteq> 0 then
            (if load_size h sizep = tag f then tagged_value E msg f src h else Some [])
          else None
      | _ \<Rightarrow> None)"

primrec message_wire ::
  "'z pb_env_scheme \<Rightarrow> nat \<Rightarrow> pb_field list \<Rightarrow> addr \<Rightarrow> heap \<Rightarrow> byte list option" where
  "message_wire E 0 fs src h = None"
| "message_wire E (Suc d) fs src h =
     concat_all (map (\<lambda>i. field_wire E d (message_wire E d) (field_at fs i) (src + data_off fs i) h)
                  [0..<nfields fs])"

section \<open>Writers that emit a byte string\<close>

text \<open>
  \<open>emits h r bs\<close>: on a sizing or buffer stream without error, the writer \<open>r\<close> leaves the memory
  alone; when there is room for \<open>bs\<close> it appends \<open>bs\<close> and answers true, and otherwise it answers
  false with an error message, having appended a proper prefix of \<open>bs\<close> that fits.
\<close>

definition usable :: "pb_ostream \<Rightarrow> nat \<Rightarrow> bool" where
  "usable s n \<longleftrightarrow> plain s \<and> oerrmsg s = None \<and> unat (bytes_written s) + n < 2 ^ 64 \<and>
     (ocallback s \<noteq> None \<longrightarrow> bytes_written s \<le> max_size s)"

definition room :: "pb_ostream \<Rightarrow> nat \<Rightarrow> bool" where
  "room s n \<longleftrightarrow> (ocallback s \<noteq> None \<longrightarrow> unat (bytes_written s) + n \<le> unat (max_size s))"

definition cut :: "pb_ostream \<Rightarrow> byte list \<Rightarrow> pb_ostream \<Rightarrow> bool" where
  "cut s bs s' \<longleftrightarrow> oerrmsg s' \<noteq> None \<and>
     (\<exists>k<length bs. ostate s' = ostate s @ take k bs \<and> unat (bytes_written s) + k \<le> unat (max_size s))"

definition emits :: "heap \<Rightarrow> (pb_ostream \<Rightarrow> heap \<Rightarrow> encode_result) \<Rightarrow> byte list \<Rightarrow> bool" where
  "emits h r bs \<longleftrightarrow> (\<forall>s. usable s (length bs) \<longrightarrow>
     (if room s (length bs) then r s h = Ret (True, appended s bs, h)
      else \<exists>s'. r s h = Ret (False, s', h) \<and> cut s bs s'))"

lemma emits_room:
  "emits h r bs \<Longrightarrow> usable s (length bs) \<Longrightarrow> room s (length bs) \<Longrightarrow> r s h = Ret (True, appended s bs, h)"
  by (simp add: emits_def)

lemma emits_cut:
  "emits h r bs \<Longrightarrow> usable s (length bs) \<Longrightarrow> \<not> room s (length bs) \<Longrightarrow>
   \<exists>s'. r s h = Ret (False, s', h) \<and> cut s bs s'"
  by (simp add: emits_def)

lemma emitsI:
  assumes "\<And>s. usable s (length bs) \<Longrightarrow> room s (length bs) \<Longrightarrow> r s h = Ret (True, appended s bs, h)"
    and "\<And>s. usable s (length bs) \<Longrightarrow> \<not> room s (length bs) \<Longrightarrow> \<exists>s'. r s h = Ret (False, s', h) \<and> cut s bs s'"
  shows "emits h r bs"
  using assms by (simp add: emits_def)

lemma usable_less: "usable s n \<Longrightarrow> n < 2 ^ 64"
  by (simp add: usable_def)

lemma emits_cong:
  "emits h r' bs \<Longrightarrow> (\<And>s. length bs < 2 ^ 64 \<Longrightarrow> r s h = r' s h) \<Longrightarrow> emits h r bs"
  using usable_less by (auto simp: emits_def)

lemma sizing_written [simp]: "bytes_written PB_OSTREAM_SIZING = 0"
  by (simp add: PB_OSTREAM_SIZING_def)

lemma usable_sizing: "n < 2 ^ 64 \<Longrightarrow> usable PB_OSTREAM_SIZING n"
  by (simp add: usable_def PB_OSTREAM_SIZING_def plain_def)

lemma room_sizing: "room PB_OSTREAM_SIZING n"
  by (simp add: room_def PB_OSTREAM_SIZING_def)

lemma emits_sizing:
  "emits h r bs \<Longrightarrow> length bs < 2 ^ 64 \<Longrightarrow>
   r PB_OSTREAM_SIZING h = Ret (True, appended PB_OSTREAM_SIZING bs, h)"
  by (simp add: emits_room usable_sizing room_sizing)

lemma written_appended:
  "usable s (length bs) \<Longrightarrow> unat (bytes_written s + of_nat (length bs)) = unat (bytes_written s) + length bs"
  using unat_plus_if_small [of "bytes_written s" "of_nat (length bs)"]
  by (simp add: usable_def unat_of_nat)

lemma usable_append:
  "usable s (length (bs @ cs)) \<Longrightarrow> room s (length bs) \<Longrightarrow> usable (appended s bs) (length cs)"
  using written_appended [of s bs] by (auto simp: usable_def room_def word_le_nat_alt)

lemma usable_prefix: "usable s (length (bs @ cs)) \<Longrightarrow> usable s (length bs)"
  by (simp add: usable_def)

lemma room_append:
  "usable s (length (bs @ cs)) \<Longrightarrow> room s (length (bs @ cs)) \<longleftrightarrow> room s (length bs) \<and> room (appended s bs) (length cs)"
  using written_appended [of s bs] by (auto simp: usable_def room_def)

lemma cut_prefix:
  assumes "cut s bs s'"
  shows "cut s (bs @ cs) s'"
proof -
  obtain k where "k < length bs" "ostate s' = ostate s @ take k bs"
    "unat (bytes_written s) + k \<le> unat (max_size s)" "oerrmsg s' \<noteq> None"
    using assms by (auto simp: cut_def)
  then show ?thesis unfolding cut_def by (intro conjI exI [of _ k]) simp_all
qed

lemma cut_rest:
  assumes "cut (appended s bs) cs s'" and "usable s (length bs)" and "ocallback s \<noteq> None"
  shows "cut s (bs @ cs) s'"
proof -
  obtain k where "k < length cs" "ostate s' = ostate (appended s bs) @ take k cs"
    "unat (bytes_written (appended s bs)) + k \<le> unat (max_size s)" "oerrmsg s' \<noteq> None"
    using assms(1) by (auto simp: cut_def)
  then show ?thesis
    using written_appended [OF assms(2)] assms(3)
    unfolding cut_def by (intro conjI exI [of _ "length bs + k"]) (simp_all add: appended_def)
qed

lemma room_callback: "\<not> room s n \<Longrightarrow> ocallback s \<noteq> None"
  by (auto simp: room_def)

lemma emits_then:
  assumes r: "emits h r bs" and g: "emits h g cs"
  shows "emits h (\<lambda>s h. and_then (r s h) g) (bs @ cs)"
proof (rule emitsI)
  fix s assume s: "usable s (length (bs @ cs))" and room: "room s (length (bs @ cs))"
  then show "and_then (r s h) g = Ret (True, appended s (bs @ cs), h)"
    using emits_room [OF r usable_prefix [OF s]] emits_room [OF g usable_append [OF s]]
    by (simp only: room_append and_then_def) simp
next
  fix s assume s: "usable s (length (bs @ cs))" and full: "\<not> room s (length (bs @ cs))"
  show "\<exists>s'. and_then (r s h) g = Ret (False, s', h) \<and> cut s (bs @ cs) s'"
  proof (cases "room s (length bs)")
    case True
    then have "\<not> room (appended s bs) (length cs)" using full room_append [OF s] by blast
    then obtain s' where "g (appended s bs) h = Ret (False, s', h)" "cut (appended s bs) cs s'"
      using emits_cut [OF g usable_append [OF s True]] by blast
    then show ?thesis
      using emits_room [OF r usable_prefix [OF s] True] cut_rest [OF _ usable_prefix [OF s] room_callback [OF full]]
      by (simp add: and_then_def)
  next
    case False
    then obtain s' where "r s h = Ret (False, s', h)" "cut s bs s'"
      using emits_cut [OF r usable_prefix [OF s]] by blast
    then show ?thesis by (simp add: and_then_def cut_prefix)
  qed
qed

lemma emits_nothing: "emits h (\<lambda>s h. Ret (True, s, h)) []"
  by (rule emitsI) (auto simp: usable_def room_def word_le_nat_alt)

lemma cut_full:
  "\<not> room s (length bs) \<Longrightarrow> usable s (length bs) \<Longrightarrow> cut s bs (oset_error msg s)"
  by (auto simp: cut_def room_def usable_def word_le_nat_alt oset_error_def split: option.splits
      intro!: exI [of _ "0 :: nat"])

lemma emits_write: "emits h (\<lambda>s h. wrote (pb_write s bs) h) bs"
proof (rule emitsI)
  fix s assume "usable s (length bs)" "room s (length bs)"
  then show "wrote (pb_write s bs) h = Ret (True, appended s bs, h)"
    by (simp add: wrote_def pb_write_extend usable_def room_def fits_def)
next
  fix s assume s: "usable s (length bs)" and full: "\<not> room s (length bs)"
  then have "bs \<noteq> []" by (auto simp: room_def usable_def word_le_nat_alt)
  with s full have "pb_write s bs = (False, oset_error ''stream full'' s)"
    by (intro pb_write_full) (auto simp: room_def usable_def)
  with s full show "\<exists>s'. wrote (pb_write s bs) h = Ret (False, s', h) \<and> cut s bs s'"
    by (simp add: wrote_def cut_full)
qed

lemma emits_varint: "emits h (\<lambda>s h. wrote (pb_encode_varint s v) h) (varint_bytes v)"
  unfolding pb_encode_varint_def by (rule emits_write)

lemma emits_svarint: "emits h (\<lambda>s h. wrote (pb_encode_svarint s v) h) (varint_bytes (zigzag v))"
  unfolding pb_encode_svarint_def by (rule emits_varint)

lemma emits_tag: "emits h (\<lambda>s h. wrote (pb_encode_tag s wt (tag f)) h) (tag_bytes wt f)"
  unfolding pb_encode_tag_def tag_bytes_def by (rule emits_varint)

lemma emits_tag_for_field:
  "wire_type_of (PB_LTYPE (ftype f)) = Some wt \<Longrightarrow>
   emits h (\<lambda>s h. wrote (pb_encode_tag_for_field s f) h) (tag_bytes wt f)"
  using emits_tag [of h wt f] by (simp add: pb_encode_tag_for_field_def)

lemma emits_string: "emits h (\<lambda>s h. wrote (pb_encode_string s bs) h) (string_bytes bs)"
proof -
  have "wrote (pb_encode_string s bs) h =
      and_then (wrote (pb_encode_varint s (of_nat (length bs))) h) (\<lambda>s h. wrote (pb_write s bs) h)"
    for s h
    by (simp add: pb_encode_string_def and_then_def wrote_def split: prod.splits bool.splits)
  then show ?thesis
    unfolding string_bytes_def using emits_then [OF emits_varint emits_write] by simp
qed

lemma write_null_count:
  "ocallback s = None \<Longrightarrow> pb_write_count s [] (of_nat (length bs)) = (True, appended s bs)"
  by (simp add: pb_write_count_def appended_def)

section \<open>Submessages\<close>

text \<open>
  The two passes: both write the same bytes, so the second one fills exactly the size that the
  first one counted.
\<close>

definition second_pass :: "message_encoder \<Rightarrow> pb_field list \<Rightarrow> addr \<Rightarrow> pb_ostream \<Rightarrow> pb_ostream \<Rightarrow> heap \<Rightarrow> encode_result" where
  "second_pass enc fs src sub s h =
     (let n = bytes_written sub in
      if ocallback s = None then wrote (pb_write_count s [] n) h
      else if bytes_written s + n > max_size s then efail ''stream full'' s h
      else run_bind
        (enc (sub\<lparr>ocallback := ocallback s, ostate := ostate s, max_size := n,
                  bytes_written := 0, oerrmsg := None\<rparr>) fs src h)
        (\<lambda>(status, sub, h).
           let s' = s\<lparr>bytes_written := bytes_written s + bytes_written sub,
                      ostate := ostate sub, oerrmsg := oerrmsg sub\<rparr> in
           if bytes_written sub \<noteq> n then efail ''submsg size changed'' s' h
           else Ret (status, s', h)))"

lemma emits_second_pass:
  assumes enc: "emits h (\<lambda>s h. enc s fs src h) bs" and len: "length bs < 2 ^ 64"
  shows "emits h (second_pass enc fs src (appended PB_OSTREAM_SIZING bs)) bs"
proof (rule emitsI)
  let ?n = "of_nat (length bs) :: size_t"
  fix s assume s: "usable s (length bs)" and fits: "room s (length bs)"
  show "second_pass enc fs src (appended PB_OSTREAM_SIZING bs) s h = Ret (True, appended s bs, h)"
  proof (cases "ocallback s = None")
    case True
    then show ?thesis by (simp add: second_pass_def write_null_count wrote_def)
  next
    case False
    then obtain cb where cb: "ocallback s = Some cb" by blast
    let ?sub = "(appended PB_OSTREAM_SIZING bs)\<lparr>ocallback := ocallback s, ostate := ostate s,
      max_size := ?n, bytes_written := 0, oerrmsg := None\<rparr>"
    have "plain s" using s by (simp add: usable_def)
    then have "usable ?sub (length bs)" "room ?sub (length bs)"
      using len by (simp_all add: usable_def plain_def room_def unat_of_nat)
    then have sub: "enc ?sub fs src h = Ret (True, appended ?sub bs, h)"
      using emits_room [OF enc, of ?sub] by simp
    have room: "\<not> max_size s < bytes_written s + ?n"
      using fits False written_appended [OF s] by (simp add: word_less_nat_alt room_def)
    have out: "ostate (appended ?sub bs) = ostate s @ bs" using cb by (simp add: appended_def)
    have fin: "s\<lparr>bytes_written := bytes_written s + ?n, ostate := ostate s @ bs, oerrmsg := None\<rparr> = appended s bs"
      using cb s by (cases s) (simp add: appended_def usable_def)
    show ?thesis using sub room out fin cb by (simp add: second_pass_def Let_def)
  qed
next
  fix s assume s: "usable s (length bs)" and full: "\<not> room s (length bs)"
  then have "max_size s < bytes_written s + of_nat (length bs)"
    using written_appended [OF s] by (simp add: word_less_nat_alt room_def)
  then have "second_pass enc fs src (appended PB_OSTREAM_SIZING bs) s h = efail ''stream full'' s h"
    using room_callback [OF full] by (cases "ocallback s") (simp_all add: second_pass_def Let_def)
  then show "\<exists>s'. second_pass enc fs src (appended PB_OSTREAM_SIZING bs) s h = Ret (False, s', h) \<and> cut s bs s'"
    using s full by (simp add: efail_def cut_full)
qed

lemma emits_submessage:
  assumes enc: "emits h (\<lambda>s h. enc s fs src h) bs"
  shows "emits h (\<lambda>s h. pb_encode_submessage enc s fs src h) (string_bytes bs)"
proof (cases "length bs < 2 ^ 64")
  case True
  let ?second = "second_pass enc fs src (appended PB_OSTREAM_SIZING bs)"
  have "emits h (\<lambda>s h. and_then (wrote (pb_encode_varint s (of_nat (length bs))) h) ?second) (string_bytes bs)"
    unfolding string_bytes_def by (intro emits_then emits_varint emits_second_pass enc True)
  then show ?thesis
    by (rule emits_cong)
      (simp add: pb_encode_submessage_def emits_sizing [OF enc True] Let_def second_pass_def [abs_def])
next
  case False
  then have "\<not> usable s (length (string_bytes bs))" for s
    using usable_less [of s "length (string_bytes bs)"] by (auto simp: string_bytes_def)
  then show ?thesis by (simp add: emits_def)
qed

section \<open>The encoder refines the byte strings\<close>

lemma emits_value:
  assumes msg: "\<And>gs q bs. msg gs q h = Some bs \<Longrightarrow> emits h (\<lambda>s h. enc s gs q h) bs"
    and bs: "value_wire E msg f src h = Some bs"
  shows "emits h (\<lambda>s h. call_encoder E enc s f src h) bs"
proof -
  let ?lt = "PB_LTYPE (ftype f)"
  note defs = call_encoder_def value_wire_def Let_def
  have string: "emits h (\<lambda>s h. call_encoder E enc s f src h) bs"
    if "bs = string_bytes cs" and "\<And>s. call_encoder E enc s f src h = wrote (pb_encode_string s cs) h" for cs
    unfolding that(1) by (rule emits_cong [OF emits_string]) (rule that(2))
  have varint: "emits h (\<lambda>s h. call_encoder E enc s f src h) bs"
    if "bs = varint_bytes v" and "\<And>s. call_encoder E enc s f src h = wrote (pb_encode_varint s v) h" for v
    unfolding that(1) by (rule emits_cong [OF emits_varint]) (rule that(2))
  consider "?lt = PB_LTYPE_BOOL" | "?lt = PB_LTYPE_VARINT" | "?lt = PB_LTYPE_UVARINT"
    | "?lt = PB_LTYPE_SVARINT" | "?lt = PB_LTYPE_FIXED32" | "?lt = PB_LTYPE_FIXED64"
    | "?lt = PB_LTYPE_BYTES" | "?lt = PB_LTYPE_STRING" | "?lt = PB_LTYPE_SUBMESSAGE"
    | "?lt = PB_LTYPE_FIXED_LENGTH_BYTES"
    using bs by (auto simp: value_wire_def Let_def split: if_splits)
  then show ?thesis
  proof cases
    case 1
    then show ?thesis using bs by (intro varint) (auto simp: defs pb_enc_bool_def)
  next
    case 2
    then obtain v where "load_signed (data_size f) h src = Some v" "bs = varint_bytes v"
      using bs by (auto simp: defs)
    with 2 show ?thesis by (intro varint) (auto simp: defs pb_enc_varint_def)
  next
    case 3
    then obtain v where "load_unsigned (data_size f) h src = Some v" "bs = varint_bytes v"
      using bs by (auto simp: defs)
    with 3 show ?thesis by (intro varint) (auto simp: defs pb_enc_uvarint_def)
  next
    case 4
    then obtain v where "load_signed (data_size f) h src = Some v" "bs = varint_bytes (zigzag v)"
      using bs by (auto simp: defs)
    with 4 show ?thesis by (intro varint) (auto simp: defs pb_enc_svarint_def pb_encode_svarint_def)
  next
    case 5
    then have "bs = fixed32_bytes (h_load h src 4)" using bs by (simp add: defs)
    with 5 show ?thesis
      using emits_cong [OF emits_write, where r = "\<lambda>s h. call_encoder E enc s f src h" and bs = bs and h = h]
      by (simp add: defs pb_enc_fixed32_def pb_encode_fixed32_def)
  next
    case 6
    then have "bs = fixed64_bytes (h_load h src 8)" using bs by (simp add: defs)
    with 6 show ?thesis
      using emits_cong [OF emits_write, where r = "\<lambda>s h. call_encoder E enc s f src h" and bs = bs and h = h]
      by (simp add: defs pb_enc_fixed64_def pb_encode_fixed64_def)
  next
    case 7
    show ?thesis
    proof (cases "src = 0")
      case True
      with 7 bs show ?thesis by (intro string) (auto simp: defs pb_enc_bytes_def)
    next
      case False
      with 7 bs show ?thesis by (intro string) (auto simp: defs pb_enc_bytes_def split: if_splits)
    qed
  next
    case 8
    with bs show ?thesis by (intro string) (auto simp: defs pb_enc_string_def)
  next
    case 9
    then obtain cs where sub: "msg (fields_of E (ptr f)) src h = Some cs" "ptr f \<noteq> 0" and "bs = string_bytes cs"
      using bs by (auto simp: defs split: if_splits)
    with 9 show ?thesis
      using emits_cong [OF emits_submessage [of h enc "fields_of E (ptr f)" src cs, OF msg [OF sub(1)]], where r = "\<lambda>s h. call_encoder E enc s f src h"]
      by (simp add: defs pb_enc_submessage_def)
  next
    case 10
    with bs show ?thesis by (intro string) (auto simp: defs pb_enc_fixed_length_bytes_def)
  qed
qed

lemma emits_tagged:
  assumes "\<And>gs q bs. msg gs q h = Some bs \<Longrightarrow> emits h (\<lambda>s h. enc s gs q h) bs"
    and "tagged_value E msg f src h = Some bs"
  shows "emits h (\<lambda>s h. and_then (wrote (pb_encode_tag_for_field s f) h)
    (\<lambda>s h. call_encoder E enc s f src h)) bs"
proof -
  obtain wt vs where wt: "wire_type_of (PB_LTYPE (ftype f)) = Some wt"
    and vs: "value_wire E msg f src h = Some vs" and bs: "bs = tag_bytes wt f @ vs"
    using assms(2) by (auto simp: tagged_value_def split: option.splits)
  show ?thesis
    unfolding bs using emits_tag_for_field [OF wt] emits_value [OF assms(1) vs] by (rule emits_then)
qed

lemma entries_Suc: "entries f p (Suc n) = p # entries f (p + ucast (data_size f)) n"
proof -
  have "entries f p (Suc n) = map (\<lambda>i. p + of_nat i * ucast (data_size f)) (0 # map Suc [0..<n])"
    unfolding entries_def by (simp add: upt_conv_Cons map_Suc_upt del: upt_Suc)
  then show ?thesis by (simp add: entries_def algebra_simps)
qed

lemma emits_items:
  assumes "\<And>q bs. q \<in> set (entries f p n) \<Longrightarrow> w q = Some bs \<Longrightarrow> emits h (\<lambda>s h. r s q h) bs"
    and "concat_all (map w (entries f p n)) = Some bs"
  shows "emits h (\<lambda>s h. encode_items n r (ucast (data_size f)) s p h) bs"
  using assms
proof (induction n arbitrary: p bs)
  case 0
  then show ?case by (simp add: entries_def emits_nothing)
next
  case (Suc n)
  then obtain xs ys where x: "w p = Some xs"
    and y: "concat_all (map w (entries f (p + ucast (data_size f)) n)) = Some ys" and bs: "bs = xs @ ys"
    by (auto simp: entries_Suc split: option.splits)
  have "emits h (\<lambda>s h. r s p h) xs" using Suc.prems(1) [OF _ x] by (simp add: entries_Suc)
  moreover have "emits h (\<lambda>s h. encode_items n r (ucast (data_size f)) s (p + ucast (data_size f)) h) ys"
    using Suc.prems(1) y by (intro Suc.IH) (auto simp: entries_Suc)
  ultimately show ?case unfolding bs by (simp add: emits_then)
qed

lemma concat_all_length:
  "(\<And>q bs. q \<in> set qs \<Longrightarrow> w q = Some bs \<Longrightarrow> length bs = k) \<Longrightarrow>
   concat_all (map w qs) = Some bs \<Longrightarrow> length bs = k * length qs"
proof (induction qs arbitrary: bs)
  case (Cons q qs)
  then obtain xs ys where x: "w q = Some xs" and y: "concat_all (map w qs) = Some ys" and "bs = xs @ ys"
    by (auto split: option.splits)
  moreover have "length ys = k * length qs" using Cons.prems(1) y by (intro Cons.IH) auto
  ultimately show ?case using Cons.prems(1) [OF _ x] by simp
qed simp

lemma length_entries [simp]: "length (entries f p n) = n"
  by (simp add: entries_def)

text \<open>The size of a packed array, counted or computed, is the length of its contents.\<close>

lemma packed_size_correct:
  assumes func: "\<And>q bs. value_wire E msg f q h = Some bs \<Longrightarrow> emits h (\<lambda>s h. func s f q h) bs"
    and bs: "concat_all (map (\<lambda>q. value_wire E msg f q h) (entries f p (unat n))) = Some bs"
    and len: "length bs < 2 ^ 64"
  shows "packed_size f p n func h = Ret (Some (of_nat (length bs)), h)"
proof -
  have width: "PB_LTYPE (ftype f) = PB_LTYPE_FIXED32 \<Longrightarrow> length bs = 4 * unat n"
    "PB_LTYPE (ftype f) = PB_LTYPE_FIXED64 \<Longrightarrow> length bs = 8 * unat n"
    by (subst concat_all_length [OF _ bs], auto simp: value_wire_def fixed32_bytes_def fixed64_bytes_def)+
  have "emits h (\<lambda>s h. encode_items (unat n) (\<lambda>s. func s f) (ucast (data_size f)) s p h) bs"
    using func bs by (rule emits_items)
  then have "encode_items (unat n) (\<lambda>s. func s f) (ucast (data_size f)) PB_OSTREAM_SIZING p h =
      Ret (True, appended PB_OSTREAM_SIZING bs, h)"
    by (rule emits_sizing [OF _ len])
  then show ?thesis
    using width by (simp add: packed_size_def PB_OSTREAM_SIZING_def)
qed

lemma emits_packed_items:
  assumes "emits h (\<lambda>s h. r s h) bs"
  shows "emits h (\<lambda>s h. if ocallback s = None then wrote (pb_write_count s [] (of_nat (length bs))) h else r s h) bs"
proof (rule emitsI)
  fix s assume "usable s (length bs)" "room s (length bs)"
  then show "(if ocallback s = None then wrote (pb_write_count s [] (of_nat (length bs))) h else r s h) =
      Ret (True, appended s bs, h)"
    using emits_room [OF assms] by (simp add: write_null_count wrote_def)
next
  fix s assume s: "usable s (length bs)" "\<not> room s (length bs)"
  then show "\<exists>s'. (if ocallback s = None then wrote (pb_write_count s [] (of_nat (length bs))) h else r s h) =
      Ret (False, s', h) \<and> cut s bs s'"
    using emits_cut [OF assms s] room_callback [OF s(2)] by (cases "ocallback s") simp_all
qed

lemma emits_array:
  assumes msg: "\<And>gs q bs. msg gs q h = Some bs \<Longrightarrow> emits h (\<lambda>s h. enc s gs q h) bs"
    and bs: "array_wire E msg f p (unat (n :: size_t)) h = Some bs"
  shows "emits h (\<lambda>s h. encode_array s f p n (call_encoder E enc) h) bs"
proof (cases "n = 0")
  case True
  with bs show ?thesis by (simp add: array_wire_def encode_array_def emits_nothing)
next
  case n: False
  then have nz: "unat n \<noteq> 0" by (simp add: unat_eq_0)
  with bs have fits: "\<not> (PB_ATYPE (ftype f) \<noteq> PB_ATYPE_POINTER \<and> n > ucast (array_size f))"
    by (auto simp: array_wire_def word_less_nat_alt split: if_splits)
  note valued = emits_value [OF msg]
  show ?thesis
  proof (cases "PB_LTYPE (ftype f) \<le> PB_LTYPE_LAST_PACKABLE")
    case True
    then obtain cs where cs: "concat_all (map (\<lambda>q. value_wire E msg f q h) (entries f p (unat n))) = Some cs"
      and split: "bs = tag_bytes PB_WT_STRING f @ string_bytes cs"
      using bs nz by (auto simp: array_wire_def split: if_splits)
    have items: "emits h (\<lambda>s h. encode_items (unat n) (\<lambda>s. call_encoder E enc s f) (ucast (data_size f)) s p h) cs"
      using valued cs by (rule emits_items)
    have "emits h (\<lambda>s h. and_then (wrote (pb_encode_tag s PB_WT_STRING (tag f)) h)
        (\<lambda>s h. and_then (wrote (pb_encode_varint s (of_nat (length cs))) h)
          (\<lambda>s h. if ocallback s = None then wrote (pb_write_count s [] (of_nat (length cs))) h
            else encode_items (unat n) (\<lambda>s. call_encoder E enc s f) (ucast (data_size f)) s p h))) bs"
      unfolding split string_bytes_def
      by (intro emits_then emits_tag emits_varint emits_packed_items items)
    then show ?thesis
    proof (rule emits_cong)
      fix s assume "length bs < 2 ^ 64"
      then have "length cs < 2 ^ 64" using split by (simp add: string_bytes_def)
      then have "packed_size f p n (call_encoder E enc) h = Ret (Some (of_nat (length cs)), h)"
        using valued cs by (intro packed_size_correct)
      then show "encode_array s f p n (call_encoder E enc) h =
          and_then (wrote (pb_encode_tag s PB_WT_STRING (tag f)) h)
            (\<lambda>s h. and_then (wrote (pb_encode_varint s (of_nat (length cs))) h)
              (\<lambda>s h. if ocallback s = None then wrote (pb_write_count s [] (of_nat (length cs))) h
                else encode_items (unat n) (\<lambda>s. call_encoder E enc s f) (ucast (data_size f)) s p h))"
        unfolding encode_array_def if_not_P [OF n] if_not_P [OF fits] if_P [OF True]
        by (simp add: and_then_def wrote_def)
    qed
  next
    case False
    then have cs: "concat_all (map (\<lambda>q. tagged_value E msg f (entry_data f q h) h) (entries f p (unat n))) = Some bs"
      using bs nz by (auto simp: array_wire_def split: if_splits)
    have "emits h (\<lambda>s h. encode_items (unat n)
        (\<lambda>s p h. and_then (wrote (pb_encode_tag_for_field s f) h)
          (\<lambda>s h'. call_encoder E enc s f (entry_data f p h') h')) (ucast (data_size f)) s p h) bs"
    proof (rule emits_items [OF _ cs])
      fix q cs assume "tagged_value E msg f (entry_data f q h) h = Some cs"
      from emits_tagged [OF msg this]
      show "emits h (\<lambda>s h. and_then (wrote (pb_encode_tag_for_field s f) h)
          (\<lambda>s h'. call_encoder E enc s f (entry_data f q h') h')) cs"
        by (rule emits_cong) (simp_all add: and_then_def wrote_def)
    qed
    then show ?thesis
      unfolding encode_array_def if_not_P [OF n] if_not_P [OF fits] if_not_P [OF False] .
  qed
qed

lemma emits_field:
  assumes msg: "\<And>gs q bs. msg gs q h = Some bs \<Longrightarrow> emits h (\<lambda>s h. enc s gs q h) bs"
    and bs: "field_wire E d msg f p h = Some bs"
  shows "emits h (\<lambda>s h. encode_field E d enc s f p h) bs"
proof -
  let ?src = "if PB_ATYPE (ftype f) = PB_ATYPE_POINTER then load_ptr h p else p"
  obtain has where has: "implicit_has E d f p h = Ret has"
    using bs by (auto simp: field_wire_def Let_def split: run.splits if_splits)
  have kind: "PB_ATYPE (ftype f) = PB_ATYPE_STATIC \<or> PB_ATYPE (ftype f) = PB_ATYPE_POINTER"
    and lt: "\<not> PB_LTYPES_COUNT \<le> PB_LTYPE (ftype f)"
    using bs by (auto simp: field_wire_def Let_def split: if_splits)
  define src where "src = ?src"
  have basic: "encode_field E d enc s f p h = encode_basic_field E d enc s f p h" for s
    using kind by (auto simp: encode_field_def Let_def)
  have tagged: "emits h (\<lambda>s h. encode_field E d enc s f p h) cs"
    if "tagged_value E msg f src h = Some cs" and
      "\<And>s. encode_basic_field E d enc s f p h = and_then (wrote (pb_encode_tag_for_field s f) h)
         (\<lambda>s h. call_encoder E enc s f src h)" for cs
    using emits_tagged [OF msg that(1)] by (rule emits_cong) (simp_all add: basic that(2))
  have skipped: "emits h (\<lambda>s h. encode_field E d enc s f p h) []"
    if "\<And>s. encode_basic_field E d enc s f p h = Ret (True, s, h)"
    by (rule emits_cong [OF emits_nothing]) (simp add: basic that)
  note defs = encode_basic_field_def Let_def has src_def
  consider (req) "PB_HTYPE (ftype f) = PB_HTYPE_REQUIRED" | (opt) "PB_HTYPE (ftype f) = PB_HTYPE_OPTIONAL"
    | (rep) "PB_HTYPE (ftype f) = PB_HTYPE_REPEATED"
    | (one) "PB_HTYPE (ftype f) = PB_HTYPE_ONEOF" "size_offset f \<noteq> 0"
    using bs by (auto simp: field_wire_def Let_def has split: if_splits)
  then show ?thesis
  proof cases
    case req
    then have "src \<noteq> 0" "tagged_value E msg f src h = Some bs"
      using bs lt kind unfolding src_def by (auto simp: field_wire_def Let_def has split: if_splits)
    then show ?thesis by (intro tagged) (use req lt in \<open>auto simp: defs\<close>)
  next
    case opt
    let ?b = "if size_offset f \<noteq> 0 then safe_read_bool h (size_ptr p f) else has"
    have "(if ?b then tagged_value E msg f src h else Some []) = Some bs"
      using bs lt kind opt unfolding field_wire_def Let_def src_def by (auto simp: has split: if_splits)
    then show ?thesis
    proof (cases ?b)
      case True
      have t: "tagged_value E msg f src h = Some bs"
        using \<open>(if ?b then _ else _) = _\<close> unfolding if_P [OF True] .
      show ?thesis by (rule tagged [OF t]) (use True opt lt in \<open>auto simp: defs\<close>)
    next
      case False
      have "bs = []" using \<open>(if ?b then _ else _) = _\<close> unfolding if_not_P [OF False] by simp
      with False opt lt show ?thesis using skipped by (auto simp: defs)
    qed
  next
    case rep
    let ?n = "ucast (if size_offset f \<noteq> 0 then load_size h (size_ptr p f) else array_size f) :: size_t"
    have wire: "array_wire E msg f src (unat ?n) h = Some bs"
      using bs lt kind rep unfolding field_wire_def Let_def src_def by (auto simp: has split: if_splits)
    have "emits h (\<lambda>s h. encode_array s f src ?n (call_encoder E enc) h) bs"
      using msg wire by (rule emits_array)
    then show ?thesis
      by (rule emits_cong) (use rep lt in \<open>simp add: basic defs\<close>)
  next
    case one
    have "(if load_size h (size_ptr p f) = tag f then tagged_value E msg f src h else Some []) = Some bs"
      using bs lt kind one unfolding field_wire_def Let_def src_def by (auto simp: has split: if_splits)
    then show ?thesis
    proof (cases "load_size h (size_ptr p f) = tag f")
      case True
      with \<open>(if _ then _ else _) = _\<close> have t: "tagged_value E msg f src h = Some bs" by simp
      show ?thesis by (rule tagged [OF t]) (use True one lt in \<open>auto simp: defs\<close>)
    next
      case False
      with \<open>(if _ then _ else _) = _\<close> have "bs = []" by simp
      with False one lt show ?thesis using skipped by (auto simp: defs)
    qed
  qed
qed

lemma do_fields_then:
  "Suc i < nfields fs \<Longrightarrow> do_fields (Suc k) pb_field_iter_next body (iter_at fs src i) (s, h) =
     and_then (body (iter_at fs src i) (s, h))
       (\<lambda>s h. do_fields k pb_field_iter_next body (iter_at fs src (Suc i)) (s, h))"
  "Suc i = nfields fs \<Longrightarrow> do_fields (Suc k) pb_field_iter_next body (iter_at fs src i) (s, h) =
     body (iter_at fs src i) (s, h)"
  by (cases "body (iter_at fs src i) (s, h)";
      simp add: and_then_def walk.step_next walk.step_wrap split: prod.splits)+

lemma emits_entries:
  assumes "i < nfields fs" and "nfields fs - i \<le> k"
    and body: "\<And>j bs. j < nfields fs \<Longrightarrow> w j = Some bs \<Longrightarrow>
      emits h (\<lambda>s h. body (iter_at fs src j) (s, h)) bs"
    and bs: "concat_all (map w [i..<nfields fs]) = Some bs"
  shows "emits h (\<lambda>s h. do_fields k pb_field_iter_next body (iter_at fs src i) (s, h)) bs"
  using assms(1,2) bs
proof (induction k arbitrary: i bs)
  case 0
  then show ?case by simp
next
  case (Suc k)
  have "[i..<nfields fs] = i # [Suc i..<nfields fs]" using Suc.prems(1) by (simp add: upt_conv_Cons)
  then obtain es rs where es: "w i = Some es"
    and rs: "concat_all (map w [Suc i..<nfields fs]) = Some rs" and split: "bs = es @ rs"
    using Suc.prems(3) by (auto split: option.splits)
  note first = body [OF Suc.prems(1) es]
  show ?case
  proof (cases "Suc i < nfields fs")
    case True
    then have "emits h (\<lambda>s h. do_fields k pb_field_iter_next body (iter_at fs src (Suc i)) (s, h)) rs"
      using Suc.IH rs Suc.prems(2) by simp
    from emits_then [OF first this] show ?thesis
      unfolding split do_fields_then(1) [OF True] .
  next
    case False
    then have last: "Suc i = nfields fs" using Suc.prems(1) by simp
    with rs have "rs = []" by simp
    with first show ?thesis unfolding split do_fields_then(2) [OF last] by simp
  qed
qed

lemma emits_message:
  "message_wire E d fs src h = Some bs \<Longrightarrow> emits h (\<lambda>s h. pb_encode E d s fs src h) bs"
proof (induction d arbitrary: fs src bs)
  case 0
  then show ?case by simp
next
  case (Suc d)
  let ?w = "\<lambda>i. field_wire E d (message_wire E d) (field_at fs i) (src + data_off fs i) h"
  let ?loop = "\<lambda>s h. do_fields (Suc (length fs)) pb_field_iter_next (encode_entry E d (pb_encode E d))
    (iter_at fs src 0) (s, h)"
  have bs: "concat_all (map ?w [0..<nfields fs]) = Some bs" using Suc.prems by simp
  show ?case
  proof (cases "0 < nfields fs")
    case False
    with bs have "bs = []" by simp
    with False show ?thesis by (simp add: begin_iter_at emits_nothing)
  next
    case True
    have "emits h ?loop bs"
    proof (rule emits_entries [OF True _ _ bs])
      show "nfields fs - 0 \<le> Suc (length fs)" using nfields_le [of fs] by simp
    next
      fix i cs assume w: "?w i = Some cs"
      then have "PB_LTYPE (ftype (field_at fs i)) \<noteq> PB_LTYPE_EXTENSION"
        by (auto simp: field_wire_def Let_def split: if_splits)
      then show "emits h (\<lambda>s h. encode_entry E d (pb_encode E d) (iter_at fs src i) (s, h)) cs"
        using emits_field [OF Suc.IH w] by (simp add: encode_entry_def)
    qed
    with True show ?thesis by (simp add: begin_iter_at)
  qed
qed

section \<open>The encoder on a buffer\<close>

lemma usable_buffer: "k < 2 ^ 64 \<Longrightarrow> usable (pb_ostream_from_buffer n) k"
  by (simp add: usable_def pb_ostream_from_buffer_def plain_def)

lemma room_buffer: "room (pb_ostream_from_buffer n) k \<longleftrightarrow> k \<le> unat n"
  by (simp add: room_def pb_ostream_from_buffer_def)

lemma emits_buffer:
  assumes "emits h r bs" and "length bs < 2 ^ 64"
  shows "if length bs \<le> unat n
    then \<exists>s. r (pb_ostream_from_buffer n) h = Ret (True, s, h) \<and> ostate s = bs \<and>
           unat (bytes_written s) = length bs
    else \<exists>s k. r (pb_ostream_from_buffer n) h = Ret (False, s, h) \<and> ostate s = take k bs \<and>
           k \<le> unat n \<and> oerrmsg s \<noteq> None"
proof (cases "length bs \<le> unat n")
  case True
  then have "r (pb_ostream_from_buffer n) h = Ret (True, appended (pb_ostream_from_buffer n) bs, h)"
    using emits_room [OF assms(1) usable_buffer [OF assms(2)]] by (simp add: room_buffer)
  then show ?thesis
    using True assms(2) by (simp add: appended_def pb_ostream_from_buffer_def unat_of_nat)
next
  case False
  then obtain s where "r (pb_ostream_from_buffer n) h = Ret (False, s, h)" "cut (pb_ostream_from_buffer n) bs s"
    using emits_cut [OF assms(1) usable_buffer [OF assms(2)]] by (auto simp: room_buffer)
  then show ?thesis using False by (auto simp: cut_def pb_ostream_from_buffer_def)
qed


text \<open>C16: The size that \<^verbatim>\<open>pb_get_encoded_size\<close> answers is the number of bytes the encoder writes: a
  buffer of that size is just enough, and with one byte less the encoder fails.\<close>

theorem encoded_size_exact:
  assumes "message_wire E d fs src h = Some bs" and "length bs < 2 ^ 64"
  shows "\<exists>n. pb_get_encoded_size E d fs src h = Ret (Some n, h) \<and> unat n = length bs \<and>
    (\<exists>s. pb_encode E d (pb_ostream_from_buffer n) fs src h = Ret (True, s, h) \<and> ostate s = bs) \<and>
    (n \<noteq> 0 \<longrightarrow> (\<exists>s. pb_encode E d (pb_ostream_from_buffer (n - 1)) fs src h = Ret (False, s, h)))"
proof -
  note enc = emits_message [OF assms(1)]
  let ?n = "of_nat (length bs) :: size_t"
  have n: "unat ?n = length bs" using assms(2) by (simp add: unat_of_nat)
  have "pb_get_encoded_size E d fs src h = Ret (Some ?n, h)"
    using emits_sizing [OF enc assms(2)] by (simp add: pb_get_encoded_size_def)
  moreover have "\<exists>s. pb_encode E d (pb_ostream_from_buffer ?n) fs src h = Ret (True, s, h) \<and> ostate s = bs"
    using emits_buffer [OF enc assms(2), of ?n] n by auto
  moreover have "\<exists>s. pb_encode E d (pb_ostream_from_buffer (?n - 1)) fs src h = Ret (False, s, h)" if "?n \<noteq> 0"
  proof -
    have "unat (?n - 1) < length bs" using that n unat_dec [OF that] by (simp add: unat_eq_0 [symmetric])
    then show ?thesis using emits_buffer [OF enc assms(2), of "?n - 1"] by auto
  qed
  ultimately show ?thesis using n by blast
qed

text \<open>C30: A message written with its length in front is taken apart again at the right place: the
  substream that the reader opens on the output of \<^verbatim>\<open>pb_encode_delimited\<close> offers exactly the
  message, and the parent stream stands behind it, whatever follows.\<close>

theorem delimited_framing:
  assumes "message_wire E d fs src h = Some bs" and "length bs < 2 ^ 32"
    and "length (string_bytes bs) \<le> unat n" and "length (string_bytes bs @ rest) < 2 ^ 64"
  shows "\<exists>s sub s'. pb_encode_delimited E d (pb_ostream_from_buffer n) fs src h = Ret (True, s, h) \<and>
    pb_make_string_substream
      (pb_istream_from_buffer (ostate s @ rest) (of_nat (length (ostate s @ rest)))) = (Some sub, s') \<and>
    offers sub bs \<and> unat (bytes_left sub) = length bs \<and> unat (bytes_left s') = length rest"
proof -
  let ?out = "string_bytes bs" let ?in = "pb_istream_from_buffer (?out @ rest) (of_nat (length (?out @ rest)))"
  let ?k = "length (varint_bytes (of_nat (length bs)))"
  have "emits h (\<lambda>s h. pb_encode_delimited E d s fs src h) ?out"
    using emits_submessage [of h "pb_encode E d" fs src bs, OF emits_message [OF assms(1)]] by (simp add: pb_encode_delimited_def)
  then obtain s where s: "pb_encode_delimited E d (pb_ostream_from_buffer n) fs src h = Ret (True, s, h)" "ostate s = ?out"
    using emits_buffer [of h _ ?out n] assms(3,4) by auto
  have off: "offers ?in ?out" using assms(4) by (rule offers_from_buffer)
  let ?sub = "(consume ?k ?in)\<lparr>bytes_left := of_nat (length bs)\<rparr>"
  let ?s' = "(consume ?k ?in)\<lparr>bytes_left := bytes_left (consume ?k ?in) - of_nat (length bs)\<rparr>"
  have made: "pb_make_string_substream ?in = (Some ?sub, ?s')"
    using make_substream_bytes [OF off assms(2)] by (simp add: Let_def)
  have len: "unat (of_nat (length bs) :: 64 word) = length bs" using assms(2) by (simp add: unat_of_nat)
  have "offers (consume ?k ?in) bs" using off by (simp add: string_bytes_def offers_append)
  then have "offers ?sub bs" using len by (simp add: offers_def)
  moreover have "bytes_left ?s' = of_nat (length rest)"
    by (simp add: pb_istream_from_buffer_def string_bytes_def)
  moreover have "unat (of_nat (length rest) :: 64 word) = length rest"
    using assms(4) by (simp add: unat_of_nat)
  ultimately show ?thesis using s made len by auto
qed

section \<open>The results at a concrete message\<close>

text \<open>\<^verbatim>\<open>struct { uint32_t a; struct { bool b; } sub; }\<close>, all zero.\<close>

definition flag_fields :: "pb_field list" where
  "flag_fields = [\<lparr>tag = 1, ftype = 0x00, data_offset = 0, size_offset = 0, data_size = 1, array_size = 0, ptr = 0\<rparr>]"

definition pair_fields :: "pb_field list" where
  "pair_fields =
     [\<lparr>tag = 1, ftype = 0x02, data_offset = 0, size_offset = 0, data_size = 4, array_size = 0, ptr = 0\<rparr>,
      \<lparr>tag = 2, ftype = 0x08, data_offset = 0, size_offset = 0, data_size = 1, array_size = 0, ptr = 0x9000\<rparr>]"

definition zero_heap :: heap where
  "zero_heap = \<lparr>mem = \<lambda>_. 0, blocks = \<lambda>_. None, bad_free = False\<rparr>"

definition pair_env :: enc_env where
  "pair_env = \<lparr>fields_of = \<lambda>a. flag_fields, loop_fuel = 8, user_encode = \<lambda>p s f a h. (True, s, h),
     user_ext_encode = \<lambda>p s e h. (True, s, h)\<rparr>"

lemma zero_loads: "load_bytes (\<lambda>_. 0) a n = replicate n 0"
  by (induction n arbitrary: a) simp_all

lemma pair_wire: "message_wire pair_env (Suc (Suc 0)) pair_fields 0x100 zero_heap = Some [8, 0, 18, 2, 8, 0]"
proof -
  have tags: "varint_bytes 8 = [8]" "varint_bytes 18 = [18]" "varint_bytes 0 = [0]" "varint_bytes 2 = [2]"
    by (simp_all add: varint_bytes_small)
  have sub: "message_wire pair_env (Suc 0) flag_fields a zero_heap = Some [8, 0]" if "a \<noteq> 0" for a
    using that
    by (simp add: flag_fields_def nfields_def field_at_def field_wire_def Let_def pb_type_defs implicit_has_def
        tagged_value_def wire_type_of_def tag_bytes_def tag_word_def value_wire_def safe_read_bool_def
        zero_heap_def tags)
  have word: "(load_le (\<lambda>_. 0) a 4 :: 32 word) = 0" for a
    by (simp add: load_le_def zero_loads eval_nat_numeral)
  have fields: "field_wire pair_env (Suc 0) msg (field_at pair_fields 0) 0x100 zero_heap = Some [8, 0]"
    "field_wire pair_env (Suc 0) (message_wire pair_env (Suc 0)) (field_at pair_fields (Suc 0)) 0x104 zero_heap =
      Some [18, 2, 8, 0]" for msg
    by (simp_all add: pair_fields_def field_at_def field_wire_def Let_def pb_type_defs implicit_has_def
        tagged_value_def wire_type_of_def tag_bytes_def tag_word_def value_wire_def load_unsigned_def
        h_load_def string_bytes_def sub word tags pair_env_def [THEN arg_cong [where f = fields_of], simplified]
        zero_heap_def [THEN arg_cong [where f = mem], simplified] del: message_wire.simps)
  have offs: "nfields pair_fields = Suc (Suc 0)" "data_off pair_fields 0 = 0" "data_off pair_fields (Suc 0) = 4"
    by (simp_all add: pair_fields_def nfields_def field_at_def iter_in_union_def iter_prev_size_def pb_type_defs)
  show ?thesis
    by (subst message_wire.simps) (simp add: offs fields del: message_wire.simps data_off.simps)
qed


theorem encoded_size_exact_witness:
  "\<exists>n. pb_get_encoded_size pair_env (Suc (Suc 0)) pair_fields 0x100 zero_heap = Ret (Some n, zero_heap) \<and> unat n = 6"
  using encoded_size_exact [OF pair_wire] by auto

theorem delimited_framing_witness:
  "\<exists>s sub s'. pb_encode_delimited pair_env (Suc (Suc 0)) (pb_ostream_from_buffer 7) pair_fields 0x100 zero_heap = Ret (True, s, zero_heap) \<and>
    pb_make_string_substream (pb_istream_from_buffer (ostate s @ [1, 2]) (of_nat (length (ostate s @ [1, 2])))) = (Some sub, s') \<and>
    offers sub [8, 0, 18, 2, 8, 0] \<and> unat (bytes_left s') = 2"
proof -
  have "string_bytes [8, 0, 18, 2, 8, 0] = [6, 8, 0, 18, 2, 8, 0]"
    by (simp add: string_bytes_def varint_bytes_small)
  then show ?thesis using delimited_framing [OF pair_wire, of 7 "[1, 2]"] by auto
qed

end
