(* ===== verification/Ldb_Coding.thy ===== *)
theory Ldb_Coding
  imports Prelude
begin

text \<open>
  The number and string encodings of LevelDB (\<^verbatim>\<open>util/coding.h\<close>, \<^verbatim>\<open>util/coding.cc\<close>) and its slices
  (\<^verbatim>\<open>include/leveldb/slice.h\<close>).  A slice, a \<^verbatim>\<open>std::string\<close> and the bytes between two pointers are
  byte lists; a decoder answers its value and the bytes behind it.
\<close>

section \<open>Slices\<close>

type_synonym slice = "byte list"

definition slice_remove_prefix :: "slice \<Rightarrow> nat \<Rightarrow> slice" where
  "slice_remove_prefix s n = drop n s"

text \<open>\<^verbatim>\<open>memcmp\<close> on two buffers of the same length.\<close>

fun memcmp :: "byte list \<Rightarrow> byte list \<Rightarrow> int" where
  "memcmp (x # xs) (y # ys) = (if x < y then -1 else if y < x then 1 else memcmp xs ys)"
| "memcmp _ _ = 0"

definition slice_starts_with :: "slice \<Rightarrow> slice \<Rightarrow> bool" where
  "slice_starts_with s x \<longleftrightarrow> length s \<ge> length x \<and> memcmp (take (length x) s) (take (length x) x) = 0"

definition slice_eq :: "slice \<Rightarrow> slice \<Rightarrow> bool" where
  "slice_eq x y \<longleftrightarrow> length x = length y \<and> memcmp x y = 0"

definition slice_compare :: "slice \<Rightarrow> slice \<Rightarrow> int" where
  "slice_compare a b =
     (let min_len = (if length a < length b then length a else length b);
          r = memcmp (take min_len a) (take min_len b) in
      if r = 0 then (if length a < length b then -1 else if length a > length b then 1 else r) else r)"

lemma memcmp_eq_0: "length x = length y \<Longrightarrow> memcmp x y = 0 \<longleftrightarrow> x = y"
  by (induction x y rule: memcmp.induct) (auto simp: not_less_iff_gr_or_eq)

lemma slice_eq_iff: "slice_eq x y \<longleftrightarrow> x = y"
  by (auto simp: slice_eq_def memcmp_eq_0)

lemma slice_starts_with_iff: "slice_starts_with s x \<longleftrightarrow> take (length x) s = x"
  by (auto simp: slice_starts_with_def memcmp_eq_0) (metis length_take min.cobounded1)

section \<open>Fixed width numbers\<close>

text \<open>\<^verbatim>\<open>port::kLittleEndian\<close>, from \<^verbatim>\<open>LEVELDB_IS_BIG_ENDIAN=0\<close> in the build settings.\<close>

definition kLittleEndian :: bool where
  "kLittleEndian = True"

definition EncodeFixed32 :: "32 word \<Rightarrow> byte list" where
  "EncodeFixed32 value =
     (if kLittleEndian then le_bytes 4 value
      else [ucast (value AND 0xff), ucast (drop_bit 8 value AND 0xff),
            ucast (drop_bit 16 value AND 0xff), ucast (drop_bit 24 value AND 0xff)])"

definition EncodeFixed64 :: "64 word \<Rightarrow> byte list" where
  "EncodeFixed64 value =
     (if kLittleEndian then le_bytes 8 value
      else [ucast (value AND 0xff), ucast (drop_bit 8 value AND 0xff),
            ucast (drop_bit 16 value AND 0xff), ucast (drop_bit 24 value AND 0xff),
            ucast (drop_bit 32 value AND 0xff), ucast (drop_bit 40 value AND 0xff),
            ucast (drop_bit 48 value AND 0xff), ucast (drop_bit 56 value AND 0xff)])"

definition DecodeFixed32 :: "byte list \<Rightarrow> 32 word" where
  "DecodeFixed32 p =
     (if kLittleEndian then le_word (take 4 p)
      else ucast (p ! 0) OR push_bit 8 (ucast (p ! 1)) OR push_bit 16 (ucast (p ! 2)) OR
           push_bit 24 (ucast (p ! 3)))"

definition DecodeFixed64 :: "byte list \<Rightarrow> 64 word" where
  "DecodeFixed64 p =
     (if kLittleEndian then le_word (take 8 p)
      else let lo = ucast (DecodeFixed32 p); hi = ucast (DecodeFixed32 (drop 4 p)) in
        push_bit 32 hi OR lo)"

definition PutFixed32 :: "byte list \<Rightarrow> 32 word \<Rightarrow> byte list" where
  "PutFixed32 dst value = dst @ EncodeFixed32 value"

definition PutFixed64 :: "byte list \<Rightarrow> 64 word \<Rightarrow> byte list" where
  "PutFixed64 dst value = dst @ EncodeFixed64 value"

section \<open>Varints\<close>

text \<open>\<^verbatim>\<open>B\<close> is 128; the store to an \<^verbatim>\<open>unsigned char\<close> keeps the low eight bits.\<close>

definition EncodeVarint32 :: "32 word \<Rightarrow> byte list" where
  "EncodeVarint32 v =
     (if v < 2 ^ 7 then [ucast v]
      else if v < 2 ^ 14 then [ucast (v OR 128), ucast (drop_bit 7 v)]
      else if v < 2 ^ 21 then
        [ucast (v OR 128), ucast (drop_bit 7 v OR 128), ucast (drop_bit 14 v)]
      else if v < 2 ^ 28 then
        [ucast (v OR 128), ucast (drop_bit 7 v OR 128), ucast (drop_bit 14 v OR 128),
         ucast (drop_bit 21 v)]
      else
        [ucast (v OR 128), ucast (drop_bit 7 v OR 128), ucast (drop_bit 14 v OR 128),
         ucast (drop_bit 21 v OR 128), ucast (drop_bit 28 v)])"

function EncodeVarint64 :: "64 word \<Rightarrow> byte list" where
  "EncodeVarint64 v =
     (if v \<ge> 128 then ucast (v OR 128) # EncodeVarint64 (drop_bit 7 v) else [ucast v])"
  by pat_completeness auto
termination
proof (relation "measure unat")
  fix v :: "64 word" assume "v \<ge> 128"
  then have "0 < unat v" by (simp add: word_le_nat_alt)
  then show "(drop_bit 7 v, v) \<in> measure unat" by (simp add: drop_bit_eq_div unat_div)
qed simp

function VarintLength :: "64 word \<Rightarrow> int" where
  "VarintLength v = (if v \<ge> 128 then VarintLength (drop_bit 7 v) + 1 else 1)"
  by pat_completeness auto
termination
proof (relation "measure unat")
  fix v :: "64 word" assume "v \<ge> 128"
  then have "0 < unat v" by (simp add: word_le_nat_alt)
  then show "(drop_bit 7 v, v) \<in> measure unat" by (simp add: drop_bit_eq_div unat_div)
qed simp

declare EncodeVarint64.simps [simp del] VarintLength.simps [simp del]

definition PutVarint32 :: "byte list \<Rightarrow> 32 word \<Rightarrow> byte list" where
  "PutVarint32 dst v = dst @ EncodeVarint32 v"

definition PutVarint64 :: "byte list \<Rightarrow> 64 word \<Rightarrow> byte list" where
  "PutVarint64 dst v = dst @ EncodeVarint64 v"

text \<open>The loops over \<^verbatim>\<open>shift\<close>, between \<^verbatim>\<open>p\<close> and \<^verbatim>\<open>limit\<close>.\<close>

fun varint32_from :: "nat \<Rightarrow> 32 word \<Rightarrow> byte list \<Rightarrow> (32 word \<times> byte list) option" where
  "varint32_from shift result [] = None"
| "varint32_from shift result (b # p) =
     (if shift > 28 then None
      else let byte = ucast b :: 32 word in
        if byte AND 128 \<noteq> 0
        then varint32_from (shift + 7) (result OR push_bit shift (byte AND 127)) p
        else Some (result OR push_bit shift byte, p))"

definition GetVarint32PtrFallback :: "byte list \<Rightarrow> (32 word \<times> byte list) option" where
  "GetVarint32PtrFallback p = varint32_from 0 0 p"

definition GetVarint32Ptr :: "byte list \<Rightarrow> (32 word \<times> byte list) option" where
  "GetVarint32Ptr p =
     (if p \<noteq> [] \<and> (ucast (hd p) :: 32 word) AND 128 = 0 then Some (ucast (hd p), tl p)
      else GetVarint32PtrFallback p)"

definition GetVarint32 :: "slice \<Rightarrow> (32 word \<times> slice) option" where
  "GetVarint32 input = GetVarint32Ptr input"

fun varint64_from :: "nat \<Rightarrow> 64 word \<Rightarrow> byte list \<Rightarrow> (64 word \<times> byte list) option" where
  "varint64_from shift result [] = None"
| "varint64_from shift result (b # p) =
     (if shift > 63 then None
      else let byte = ucast b :: 64 word in
        if byte AND 128 \<noteq> 0
        then varint64_from (shift + 7) (result OR push_bit shift (byte AND 127)) p
        else Some (result OR push_bit shift byte, p))"

definition GetVarint64Ptr :: "byte list \<Rightarrow> (64 word \<times> byte list) option" where
  "GetVarint64Ptr p = varint64_from 0 0 p"

definition GetVarint64 :: "slice \<Rightarrow> (64 word \<times> slice) option" where
  "GetVarint64 input = GetVarint64Ptr input"

section \<open>Length-prefixed slices\<close>

text \<open>\<^verbatim>\<open>value.size()\<close> is passed as a \<^verbatim>\<open>uint32_t\<close>.\<close>

definition PutLengthPrefixedSlice :: "byte list \<Rightarrow> slice \<Rightarrow> byte list" where
  "PutLengthPrefixedSlice dst value = PutVarint32 dst (of_nat (length value)) @ value"

definition GetLengthPrefixedSlicePtr :: "byte list \<Rightarrow> (slice \<times> byte list) option" where
  "GetLengthPrefixedSlicePtr p =
     (case GetVarint32Ptr p of
        None \<Rightarrow> None
      | Some (len, q) \<Rightarrow>
          if unat len > length q then None else Some (take (unat len) q, drop (unat len) q))"

definition GetLengthPrefixedSlice :: "slice \<Rightarrow> (slice \<times> slice) option" where
  "GetLengthPrefixedSlice input =
     (case GetVarint32 input of
        None \<Rightarrow> None
      | Some (len, rest) \<Rightarrow>
          if length rest \<ge> unat len
          then Some (take (unat len) rest, slice_remove_prefix rest (unat len)) else None)"

section \<open>The contract of an encoding\<close>

text \<open>
  A decoder takes exactly what the encoder wrote off the front, whatever follows.  From that:
  encodings are prefix-free, and a sequence is read back item by item.
\<close>

locale prefix_codec =
  fixes enc :: "'a \<Rightarrow> byte list" and dec :: "byte list \<Rightarrow> ('a \<times> byte list) option" and ok :: "'a \<Rightarrow> bool"
  assumes dec_enc: "ok x \<Longrightarrow> dec (enc x @ rest) = Some (x, rest)"
begin

lemma prefix_free: "ok x \<Longrightarrow> ok y \<Longrightarrow> enc x @ rest = enc y @ rest' \<Longrightarrow> x = y \<and> rest = rest'"
  by (metis dec_enc option.inject prod.inject)

primrec read_many :: "nat \<Rightarrow> byte list \<Rightarrow> ('a list \<times> byte list) option" where
  "read_many 0 bs = Some ([], bs)"
| "read_many (Suc n) bs =
     (case dec bs of None \<Rightarrow> None
      | Some (x, bs') \<Rightarrow> (case read_many n bs' of None \<Rightarrow> None | Some (xs, bs'') \<Rightarrow> Some (x # xs, bs'')))"

lemma read_many_enc:
  "(\<forall>x \<in> set xs. ok x) \<Longrightarrow> read_many (length xs) (concat (map enc xs) @ rest) = Some (xs, rest)"
  by (induction xs) (simp_all add: dec_enc)

lemma dec_exact: "ok x \<Longrightarrow> dec (enc x) = Some (x, [])"
  using dec_enc [of x "[]"] by simp

end

section \<open>Correctness of the encodings\<close>

lemma DecodeFixed32_Encode: "DecodeFixed32 (EncodeFixed32 v @ rest) = v"
  by (simp add: DecodeFixed32_def EncodeFixed32_def kLittleEndian_def le_word_le_bytes)

lemma DecodeFixed64_Encode: "DecodeFixed64 (EncodeFixed64 v @ rest) = v"
  by (simp add: DecodeFixed64_def EncodeFixed64_def kLittleEndian_def le_word_le_bytes)

lemma length_EncodeFixed [simp]: "length (EncodeFixed32 v) = 4" "length (EncodeFixed64 w) = 8"
  by (simp_all add: EncodeFixed32_def EncodeFixed64_def)

lemma fixed_branches_agree:
  "le_bytes 4 v = [ucast (v AND 0xff), ucast (drop_bit 8 v AND 0xff), ucast (drop_bit 16 v AND 0xff),
     ucast (drop_bit 24 (v :: 32 word) AND 0xff)]"
  by (simp add: and_255_byte numeral_eq_Suc)

subsection \<open>Varints\<close>

lemma cont_byte64: "(ucast (ucast (x OR 128 :: 64 word) :: byte) :: 64 word) AND 128 \<noteq> 0"
  by (simp add: and_128_bit bit_simps bit_128)

lemma cont_byte32: "(ucast (ucast (x OR 128 :: 32 word) :: byte) :: 32 word) AND 128 \<noteq> 0"
  by (simp add: and_128_bit bit_simps bit_128)

lemma cont_value64: "(ucast (ucast (x OR 128 :: 64 word) :: byte) :: 64 word) AND 127 = take_bit 7 x"
  by (rule bit_word_eqI) (auto simp: and_127_take_bit bit_simps bit_128 simp del: bit_numeral_word_iff)

lemma cont_value32: "(ucast (ucast (x OR 128 :: 32 word) :: byte) :: 32 word) AND 127 = take_bit 7 x"
  by (rule bit_word_eqI) (auto simp: and_127_take_bit bit_simps bit_128 simp del: bit_numeral_word_iff)

lemma small_drop:
  assumes "(x :: 'a :: len word) < 2 ^ n"
  shows "drop_bit n x = 0"
proof (cases "n < LENGTH('a)")
  case True
  then have "unat (2 ^ n :: 'a word) = 2 ^ n"
    using unsigned_push_bit_eq [of n "1 :: 'a word", where 'a = nat] by (simp add: take_bit_nat_eq_self push_bit_eq_mult)
  then have "unat x < 2 ^ n" using assms by (simp add: word_less_nat_alt)
  moreover have "unat (drop_bit n x) = unat x div 2 ^ n"
    by (subst unat_drop_bit_eq) (rule drop_bit_eq_div)
  ultimately have "unat (drop_bit n x) = 0" by simp
  then show ?thesis by (simp add: unat_eq_0)
next
  case False
  then have "(2 :: 'a word) ^ n = 0" by simp
  then show ?thesis using assms by simp
qed

lemma small_take:
  assumes "(x :: 'a :: len word) < 2 ^ n"
  shows "take_bit n x = x"
  using small_drop [OF assms] bits_ident [of n x] by simp

lemma byte_id:
  assumes "drop_bit 8 (v :: 'a :: len word) = 0"
  shows "ucast (ucast v :: byte) = v"
proof (rule bit_word_eqI)
  fix n assume "n < LENGTH('a)"
  then show "bit (ucast (ucast v :: byte) :: 'a word) n = bit v n"
    using drop_bit_zero_bit [OF assms, of n] by (auto simp: bit_simps)
qed

lemma seven_bits:
  assumes "drop_bit 7 (v :: 'a :: len word) = 0"
  shows "ucast (ucast v :: byte) = v" and "v AND 128 = 0"
proof -
  have "drop_bit 8 v = 0" using drop_bit_zero_mono [OF assms] by simp
  then show "ucast (ucast v :: byte) = v" by (rule byte_id)
  show "v AND 128 = 0" using drop_bit_zero_bit [OF assms, of 7] by (auto simp: and_128_bit)
qed

lemma varint64_loop:
  assumes "k \<le> 9" and "drop_bit (64 - 7 * k) v = 0"
  shows "varint64_from (7 * k) r (EncodeVarint64 v @ rest) = Some (r OR push_bit (7 * k) v, rest)"
  using assms
proof (induction v arbitrary: k r rule: EncodeVarint64.induct)
  case (1 v)
  show ?case
  proof (cases "v \<ge> 128")
    case True
    have "drop_bit 7 v \<noteq> 0" using True by (simp add: le_127_bits [symmetric] word_le_nat_alt)
    then have "\<not> 64 - 7 * k \<le> 7" using drop_bit_zero_mono [OF 1(3)] by blast
    then have k: "Suc k \<le> 9" and split: "64 - 7 * k = (64 - 7 * Suc k) + 7" by simp_all
    have high: "drop_bit (64 - 7 * Suc k) (drop_bit 7 v) = 0"
      using 1(3) unfolding split by (simp only: drop_bit_drop_bit)
    have "varint64_from (7 * Suc k) (r OR push_bit (7 * k) (take_bit 7 v)) (EncodeVarint64 (drop_bit 7 v) @ rest)
        = Some ((r OR push_bit (7 * k) (take_bit 7 v)) OR push_bit (7 * Suc k) (drop_bit 7 v), rest)"
      using 1(1) [OF True k high] .
    then show ?thesis
      using True 1(2) cont_byte64 [of v] low_and_rest [of "7 * k" v]
      by (simp add: EncodeVarint64.simps [of v] cont_value64 or.assoc add.commute)
  next
    case False
    then have low: "drop_bit 7 v = 0" using small_drop [of v 7] by simp
    show ?thesis
      using False 1(2) seven_bits [OF low] by (simp add: EncodeVarint64.simps [of v])
  qed
qed

lemma varint64_codec: "GetVarint64 (EncodeVarint64 v @ rest) = Some (v, rest)"
proof -
  have "drop_bit (64 - 7 * 0) v = 0" by (rule bit_word_eqI) (simp add: bit_simps)
  from varint64_loop [OF _ this, of 0 rest] show ?thesis
    by (simp add: GetVarint64_def GetVarint64Ptr_def)
qed

text \<open>One continuation byte, and the last byte, of the 32-bit loop.\<close>

lemma varint32_more:
  assumes "shift \<le> 28"
  shows "varint32_from shift r (ucast (x OR 128 :: 32 word) # p) =
    varint32_from (shift + 7) (r OR push_bit shift (take_bit 7 x)) p"
  using assms cont_byte32 [of x] by (simp add: cont_value32)

lemma varint32_last:
  assumes "shift \<le> 28" and "drop_bit 7 x = 0"
  shows "varint32_from shift r (ucast (x :: 32 word) # p) = Some (r OR push_bit shift x, p)"
  using assms(1) seven_bits [OF assms(2)] by simp

lemma split7:
  "push_bit n (take_bit 7 (drop_bit n v)) OR push_bit (n + 7) (drop_bit (n + 7) v)
    = push_bit n (drop_bit n (v :: 32 word))"
  using low_and_rest [of n "drop_bit n v"] by (simp add: drop_bit_drop_bit add.commute)

lemmas split7_32 = split7 [of 0, simplified] split7 [of 7, simplified] split7 [of 14, simplified]
  split7 [of 21, simplified]

lemma varint32_loop_codec: "varint32_from 0 0 (EncodeVarint32 v @ rest) = Some (v, rest)"
proof -
  have all: "drop_bit 7 (drop_bit 28 v) = 0"
    by (rule bit_word_eqI) (auto simp: bit_simps dest: bit_imp_le_length)
  consider (1) "v < 2 ^ 7" | (2) "\<not> v < 2 ^ 7" "v < 2 ^ 14"
    | (3) "\<not> v < 2 ^ 7" "\<not> v < 2 ^ 14" "v < 2 ^ 21"
    | (4) "\<not> v < 2 ^ 7" "\<not> v < 2 ^ 14" "\<not> v < 2 ^ 21" "v < 2 ^ 28"
    | (5) "\<not> v < 2 ^ 7" "\<not> v < 2 ^ 14" "\<not> v < 2 ^ 21" "\<not> v < 2 ^ 28"
    by blast
  then show ?thesis
  proof cases
    case 1
    then show ?thesis using small_drop [OF 1]
      by (simp add: EncodeVarint32_def varint32_last del: varint32_from.simps)
  next
    case 2
    have "drop_bit 7 (drop_bit 7 v) = 0" using small_drop [OF 2(2)] by (simp add: drop_bit_drop_bit)
    then show ?thesis using 2
      by (simp add: EncodeVarint32_def varint32_more varint32_last split7_32 del: varint32_from.simps)
  next
    case 3
    have "drop_bit 7 (drop_bit 14 v) = 0" using small_drop [OF 3(3)] by (simp add: drop_bit_drop_bit)
    then show ?thesis using 3
      by (simp add: EncodeVarint32_def varint32_more varint32_last or.assoc split7_32
          del: varint32_from.simps)
  next
    case 4
    have "drop_bit 7 (drop_bit 21 v) = 0" using small_drop [OF 4(4)] by (simp add: drop_bit_drop_bit)
    then show ?thesis using 4
      by (simp add: EncodeVarint32_def varint32_more varint32_last or.assoc split7_32
          del: varint32_from.simps)
  next
    case 5
    then show ?thesis using all
      by (simp add: EncodeVarint32_def varint32_more varint32_last or.assoc split7_32
          del: varint32_from.simps)
  qed
qed

text \<open>The inlined first byte of \<^verbatim>\<open>GetVarint32Ptr\<close> does what the loop does.\<close>

lemma fast_path: "GetVarint32Ptr p = varint32_from 0 0 p"
  by (cases p) (simp_all add: GetVarint32Ptr_def GetVarint32PtrFallback_def)

lemma varint32_codec: "GetVarint32 (EncodeVarint32 v @ rest) = Some (v, rest)"
  by (simp add: GetVarint32_def fast_path varint32_loop_codec)

interpretation c_fixed32: prefix_codec EncodeFixed32 "\<lambda>p. Some (DecodeFixed32 p, drop 4 p)" "\<lambda>_. True"
  by unfold_locales (simp add: DecodeFixed32_Encode)

interpretation c_fixed64: prefix_codec EncodeFixed64 "\<lambda>p. Some (DecodeFixed64 p, drop 8 p)" "\<lambda>_. True"
  by unfold_locales (simp add: DecodeFixed64_Encode)

interpretation c_varint32: prefix_codec EncodeVarint32 GetVarint32 "\<lambda>_. True"
  by unfold_locales (rule varint32_codec)

interpretation c_varint64: prefix_codec EncodeVarint64 GetVarint64 "\<lambda>_. True"
  by unfold_locales (rule varint64_codec)

lemma length_prefixed_ptr: "GetLengthPrefixedSlice p = GetLengthPrefixedSlicePtr p"
  by (auto simp: GetLengthPrefixedSlice_def GetLengthPrefixedSlicePtr_def GetVarint32_def
      slice_remove_prefix_def split: option.splits)

interpretation c_slice: prefix_codec "PutLengthPrefixedSlice []" GetLengthPrefixedSlice
    "\<lambda>s. length s < 2 ^ 32"
proof unfold_locales
  fix x :: slice and rest
  assume "length x < 2 ^ 32"
  then have "unat (of_nat (length x) :: 32 word) = length x" by (simp add: unat_of_nat)
  then show "GetLengthPrefixedSlice (PutLengthPrefixedSlice [] x @ rest) = Some (x, rest)"
    by (simp add: GetLengthPrefixedSlice_def PutLengthPrefixedSlice_def PutVarint32_def
        c_varint32.dec_enc slice_remove_prefix_def)
qed

lemma PutLengthPrefixedSlice_append:
  "PutLengthPrefixedSlice dst s = dst @ PutLengthPrefixedSlice [] s"
  by (simp add: PutLengthPrefixedSlice_def PutVarint32_def)

lemma VarintLength_length: "VarintLength v = int (length (EncodeVarint64 v))"
  by (induction v rule: VarintLength.induct) (simp add: VarintLength.simps EncodeVarint64.simps)

lemma EncodeVarint64_nonempty [simp]: "EncodeVarint64 v \<noteq> []"
  by (subst EncodeVarint64.simps) simp

lemma EncodeVarint64_length: "k \<le> 9 \<Longrightarrow> drop_bit (64 - 7 * k) v = 0 \<Longrightarrow> length (EncodeVarint64 v) \<le> 10 - k"
proof (induction v arbitrary: k rule: EncodeVarint64.induct)
  case (1 v)
  show ?case
  proof (cases "v \<ge> 128")
    case True
    have "drop_bit 7 v \<noteq> 0" using True by (simp add: le_127_bits [symmetric] word_le_nat_alt)
    then have "\<not> 64 - 7 * k \<le> 7" using drop_bit_zero_mono [OF 1(3)] by blast
    then have k: "Suc k \<le> 9" and split: "64 - 7 * k = (64 - 7 * Suc k) + 7" by simp_all
    have "drop_bit (64 - 7 * Suc k) (drop_bit 7 v) = 0"
      using 1(3) unfolding split by (simp only: drop_bit_drop_bit)
    then have "length (EncodeVarint64 (drop_bit 7 v)) \<le> 10 - Suc k" using 1(1) [OF True k] by blast
    then show ?thesis using True k by (subst EncodeVarint64.simps) simp
  next
    case False
    then show ?thesis using 1(2) by (subst EncodeVarint64.simps) simp
  qed
qed

text \<open>\<^verbatim>\<open>buf[5]\<close> and \<^verbatim>\<open>buf[10]\<close> of the \<^verbatim>\<open>Put\<close> functions are large enough.\<close>

lemma varint_buffers: "length (EncodeVarint32 v) \<le> 5 \<and> length (EncodeVarint64 w) \<le> 10"
proof -
  have "drop_bit (64 - 7 * 0) w = 0" by (rule bit_word_eqI) (simp add: bit_simps)
  from EncodeVarint64_length [OF _ this] show ?thesis by (simp add: EncodeVarint32_def)
qed

section \<open>Properties\<close>

text \<open>C37: every encoding of \<^verbatim>\<open>coding.cc\<close> is read back exactly, and what follows it is left in
  place: fixed width numbers, varints of both widths, and length-prefixed slices shorter than
  four gigabytes; the varints fit the buffers of the \<^verbatim>\<open>Put\<close> functions.\<close>

theorem coding_roundtrip:
  assumes "length s < 2 ^ 32"
  shows "DecodeFixed32 (PutFixed32 [] a @ rest) = a \<and> DecodeFixed64 (PutFixed64 [] b @ rest) = b \<and>
    GetVarint32 (PutVarint32 [] a @ rest) = Some (a, rest) \<and>
    GetVarint64 (PutVarint64 [] b @ rest) = Some (b, rest) \<and>
    GetLengthPrefixedSlice (PutLengthPrefixedSlice [] s @ rest) = Some (s, rest) \<and>
    length (EncodeVarint32 a) \<le> 5 \<and> length (EncodeVarint64 b) \<le> 10 \<and>
    VarintLength b = int (length (EncodeVarint64 b))"
  using c_slice.dec_enc [OF assms, of rest] varint_buffers [of a b]
  by (simp add: PutFixed32_def PutFixed64_def PutVarint32_def PutVarint64_def DecodeFixed32_Encode
      DecodeFixed64_Encode varint32_codec varint64_codec VarintLength_length)

lemma coding_roundtrip_witness:
  "GetLengthPrefixedSlice (PutLengthPrefixedSlice [] [1, 2, 3] @ [9]) = Some ([1, 2, 3], [9])"
  using coding_roundtrip [of "[1, 2, 3]" 0 "[9]" 0] by simp

end
