(* ===== verification/Ldb_Status.thy ===== *)
theory Ldb_Status
  imports Ldb_Coding
begin

text \<open>
  The result type of LevelDB (\<^verbatim>\<open>include/leveldb/status.h\<close>, \<^verbatim>\<open>util/status.cc\<close>) as the array it keeps,
  and the decimal numbers of \<^verbatim>\<open>util/logging.cc\<close> that file names and messages are made of.
\<close>

definition bytes_of :: "string \<Rightarrow> byte list" where
  "bytes_of s = map of_char s"

section \<open>Printing and parsing numbers\<close>

text \<open>What \<^verbatim>\<open>%llu\<close>, and \<^verbatim>\<open>%d\<close> on a number that is not negative, print.\<close>

fun decimal :: "nat \<Rightarrow> byte list" where
  "decimal n = (if n < 10 then [of_nat (48 + n)] else decimal (n div 10) @ [of_nat (48 + n mod 10)])"

declare decimal.simps [simp del]

definition AppendNumberTo :: "byte list \<Rightarrow> 64 word \<Rightarrow> byte list" where
  "AppendNumberTo str num = str @ decimal (unat num)"

definition hex_digit :: "nat \<Rightarrow> byte" where
  "hex_digit d = (if d < 10 then of_nat (48 + d) else of_nat (87 + d))"

text \<open>\<^verbatim>\<open>char\<close> is signed; what is outside \<^verbatim>\<open>' '\<close> to \<^verbatim>\<open>'~'\<close> is printed as a backslash, an x and two hex digits.\<close>

fun AppendEscapedStringTo :: "byte list \<Rightarrow> slice \<Rightarrow> byte list" where
  "AppendEscapedStringTo str [] = str"
| "AppendEscapedStringTo str (c # value) =
     (if sint c \<ge> 32 \<and> sint c \<le> 126 then AppendEscapedStringTo (str @ [c]) value
      else AppendEscapedStringTo
        (str @ [92, 120, hex_digit (unat c div 16), hex_digit (unat c mod 16)]) value)"

definition NumberToString :: "64 word \<Rightarrow> byte list" where
  "NumberToString num = AppendNumberTo [] num"

definition EscapeString :: "slice \<Rightarrow> byte list" where
  "EscapeString value = AppendEscapedStringTo [] value"

definition kMaxUint64 :: "64 word" where
  "kMaxUint64 = - 1"

definition kLastDigitOfMaxUint64 :: byte where
  "kLastDigitOfMaxUint64 = 48 + ucast (kMaxUint64 mod 10)"

text \<open>The loop: the value and the bytes from the first one that is no digit, or \<^const>\<open>None\<close> on an overflow.\<close>

fun consume_digits :: "64 word \<Rightarrow> slice \<Rightarrow> (64 word \<times> slice) option" where
  "consume_digits v [] = Some (v, [])"
| "consume_digits v (ch # s) =
     (if ch < 48 \<or> ch > 57 then Some (v, ch # s)
      else if v > kMaxUint64 div 10 \<or> (v = kMaxUint64 div 10 \<and> ch > kLastDigitOfMaxUint64) then None
      else consume_digits (v * 10 + ucast (ch - 48)) s)"

text \<open>\<open>ConsumeDecimalNumber inp val\<close>: the answer, the slice and the number it leaves.\<close>

definition ConsumeDecimalNumber :: "slice \<Rightarrow> 64 word \<Rightarrow> bool \<times> slice \<times> 64 word" where
  "ConsumeDecimalNumber inp val =
     (case consume_digits 0 inp of
        None \<Rightarrow> (False, inp, val)
      | Some (v, rest) \<Rightarrow>
          let digits_consumed = length inp - length rest in
          (digits_consumed \<noteq> 0, slice_remove_prefix inp digits_consumed, v))"

section \<open>Status\<close>

datatype status_code = kOk | kNotFound | kCorruption | kNotSupported | kInvalidArgument | kIOError

primrec code_number :: "status_code \<Rightarrow> byte" where
  "code_number kOk = 0"
| "code_number kNotFound = 1"
| "code_number kCorruption = 2"
| "code_number kNotSupported = 3"
| "code_number kInvalidArgument = 4"
| "code_number kIOError = 5"

record Status =
  state_bytes :: "byte list option"

definition Status_OK :: Status where
  "Status_OK = \<lparr>state_bytes = None\<rparr>"

definition CopyState :: "byte list \<Rightarrow> byte list" where
  "CopyState state = (let size = le_word (take 4 state) :: 32 word in take (unat (size + 5)) state)"

definition Status_copy :: "Status \<Rightarrow> Status" where
  "Status_copy rhs = \<lparr>state_bytes = map_option CopyState (state_bytes rhs)\<rparr>"

definition make_Status :: "status_code \<Rightarrow> slice \<Rightarrow> slice \<Rightarrow> Status" where
  "make_Status code msg msg2 =
     (let len1 = of_nat (length msg) :: 32 word;
          len2 = of_nat (length msg2) :: 32 word;
          size = len1 + (if len2 \<noteq> 0 then 2 + len2 else 0)
      in \<lparr>state_bytes = Some (le_bytes 4 size @ [code_number code] @ take (unat len1) msg @
           (if len2 \<noteq> 0 then [58, 32] @ take (unat len2) msg2 else []))\<rparr>)"

definition Status_NotFound :: "slice \<Rightarrow> slice \<Rightarrow> Status" where
  "Status_NotFound msg msg2 = make_Status kNotFound msg msg2"

definition Status_Corruption :: "slice \<Rightarrow> slice \<Rightarrow> Status" where
  "Status_Corruption msg msg2 = make_Status kCorruption msg msg2"

definition Status_NotSupported :: "slice \<Rightarrow> slice \<Rightarrow> Status" where
  "Status_NotSupported msg msg2 = make_Status kNotSupported msg msg2"

definition Status_InvalidArgument :: "slice \<Rightarrow> slice \<Rightarrow> Status" where
  "Status_InvalidArgument msg msg2 = make_Status kInvalidArgument msg msg2"

definition Status_IOError :: "slice \<Rightarrow> slice \<Rightarrow> Status" where
  "Status_IOError msg msg2 = make_Status kIOError msg msg2"

definition status_ok :: "Status \<Rightarrow> bool" where
  "status_ok s \<longleftrightarrow> state_bytes s = None"

definition status_code_of :: "Status \<Rightarrow> byte" where
  "status_code_of s = (case state_bytes s of None \<Rightarrow> code_number kOk | Some st \<Rightarrow> st ! 4)"

definition IsNotFound :: "Status \<Rightarrow> bool" where
  "IsNotFound s \<longleftrightarrow> status_code_of s = code_number kNotFound"

definition IsCorruption :: "Status \<Rightarrow> bool" where
  "IsCorruption s \<longleftrightarrow> status_code_of s = code_number kCorruption"

definition IsIOError :: "Status \<Rightarrow> bool" where
  "IsIOError s \<longleftrightarrow> status_code_of s = code_number kIOError"

definition IsNotSupportedError :: "Status \<Rightarrow> bool" where
  "IsNotSupportedError s \<longleftrightarrow> status_code_of s = code_number kNotSupported"

definition IsInvalidArgument :: "Status \<Rightarrow> bool" where
  "IsInvalidArgument s \<longleftrightarrow> status_code_of s = code_number kInvalidArgument"

text \<open>\<^verbatim>\<open>snprintf\<close> into \<^verbatim>\<open>tmp[30]\<close>; the number is that of a \<^verbatim>\<open>char\<close>, at most 22 characters.\<close>

definition signed_decimal :: "int \<Rightarrow> byte list" where
  "signed_decimal i = (if i < 0 then 45 # decimal (nat (- i)) else decimal (nat i))"

definition status_type_name :: "byte \<Rightarrow> byte list" where
  "status_type_name c =
     (if c = code_number kOk then bytes_of ''OK''
      else if c = code_number kNotFound then bytes_of ''NotFound: ''
      else if c = code_number kCorruption then bytes_of ''Corruption: ''
      else if c = code_number kNotSupported then bytes_of ''Not implemented: ''
      else if c = code_number kInvalidArgument then bytes_of ''Invalid argument: ''
      else if c = code_number kIOError then bytes_of ''IO error: ''
      else bytes_of ''Unknown code('' @ signed_decimal (sint c) @ bytes_of ''): '')"

definition Status_ToString :: "Status \<Rightarrow> byte list" where
  "Status_ToString s =
     (case state_bytes s of
        None \<Rightarrow> bytes_of ''OK''
      | Some st \<Rightarrow>
          let len = le_word (take 4 st) :: 32 word in
          status_type_name (status_code_of s) @ take (unat len) (drop 5 st))"

section \<open>Facts on numbers\<close>

definition is_digit :: "byte \<Rightarrow> bool" where
  "is_digit ch \<longleftrightarrow> 48 \<le> ch \<and> ch \<le> 57"

definition digits_value :: "nat \<Rightarrow> byte list \<Rightarrow> nat" where
  "digits_value a ds = foldl (\<lambda>a d. a * 10 + (unat d - 48)) a ds"

definition ends_digits :: "byte list \<Rightarrow> bool" where
  "ends_digits rest \<longleftrightarrow> rest = [] \<or> \<not> is_digit (hd rest)"

lemma digits_value_Cons: "digits_value a (d # ds) = digits_value (a * 10 + (unat d - 48)) ds"
  by (simp add: digits_value_def)

lemma digits_value_snoc: "digits_value a (ds @ [d]) = digits_value a ds * 10 + (unat d - 48)"
  by (simp add: digits_value_def)

lemma digits_value_ge: "a \<le> digits_value a ds"
proof (induction ds arbitrary: a)
  case Nil
  then show ?case by (simp add: digits_value_def)
next
  case (Cons d ds)
  have "a \<le> a * 10 + (unat d - 48)" by simp
  also have "\<dots> \<le> digits_value a (d # ds)" unfolding digits_value_Cons by (rule Cons.IH)
  finally show ?case .
qed

lemma overflow_check:
  assumes a: "a < 2 ^ 64" and d: "is_digit d"
  shows "((of_nat a :: 64 word) > kMaxUint64 div 10 \<or>
      (of_nat a = kMaxUint64 div 10 \<and> d > kLastDigitOfMaxUint64)) \<longleftrightarrow> a * 10 + (unat d - 48) \<ge> 2 ^ 64"
proof -
  have max: "unat (kMaxUint64 div 10) = 1844674407370955161" by (simp add: kMaxUint64_def unat_div)
  have last: "unat kLastDigitOfMaxUint64 = 53" by (simp add: kLastDigitOfMaxUint64_def kMaxUint64_def)
  have ua: "unat (of_nat a :: 64 word) = a" using a by (simp add: unat_of_nat)
  have ud: "48 \<le> unat d" "unat d \<le> 57" using d by (simp_all add: is_digit_def word_le_nat_alt)
  have "(of_nat a = kMaxUint64 div 10) \<longleftrightarrow> a = 1844674407370955161"
    using ua max by (metis word_unat_eq_iff)
  then show ?thesis
    using ua max last ud by (auto simp: word_less_nat_alt)
qed

lemma consume_digits_value:
  assumes "list_all is_digit ds" and "ends_digits rest" and "a < 2 ^ 64"
  shows "consume_digits (of_nat a) (ds @ rest) =
    (if digits_value a ds < 2 ^ 64 then Some (of_nat (digits_value a ds), rest) else None)"
  using assms
proof (induction ds arbitrary: a)
  case Nil
  then show ?case
    by (cases rest) (auto simp: digits_value_def ends_digits_def is_digit_def not_le)
next
  case (Cons d ds)
  let ?a = "a * 10 + (unat d - 48)"
  have d: "is_digit d" using Cons.prems by simp
  then have range: "\<not> (d < 48 \<or> d > 57)" by (auto simp: is_digit_def)
  have next_a: "of_nat a * 10 + ucast (d - 48) = (of_nat ?a :: 64 word)"
  proof -
    have "unat (d - 48) = unat d - 48" using d by (simp add: is_digit_def unat_sub)
    then have "(ucast (d - 48) :: 64 word) = of_nat (unat d - 48)" by (metis of_nat_unat)
    then show ?thesis by simp
  qed
  show ?case
  proof (cases "?a < 2 ^ 64")
    case True
    then show ?thesis
      using Cons.IH [of ?a] Cons.prems range next_a overflow_check [OF Cons.prems(3) d]
      by (auto simp: digits_value_Cons)
  next
    case False
    then have "\<not> digits_value ?a ds < 2 ^ 64" using digits_value_ge [of ?a ds] by simp
    then show ?thesis
      using False range overflow_check [OF Cons.prems(3) d] by (simp add: digits_value_Cons)
  qed
qed

lemma ConsumeDecimalNumber_value:
  assumes "list_all is_digit ds" and "ends_digits rest"
  shows "ConsumeDecimalNumber (ds @ rest) v =
    (if digits_value 0 ds < 2 ^ 64 then (ds \<noteq> [], rest, of_nat (digits_value 0 ds)) else (False, ds @ rest, v))"
  using consume_digits_value [OF assms, of 0]
  by (simp add: ConsumeDecimalNumber_def slice_remove_prefix_def)

lemma digit_char: "d < 10 \<Longrightarrow> unat (of_nat (48 + d) :: byte) = 48 + d" for d :: nat
  by (simp add: unat_of_nat del: of_nat_add)

lemma decimal_digits: "list_all is_digit (decimal n) \<and> digits_value 0 (decimal n) = n \<and> decimal n \<noteq> []"
proof (induction n rule: decimal.induct)
  case (1 n)
  have digit: "is_digit (of_nat (48 + d))" if "d < 10" for d
    using digit_char [OF that] that by (simp add: is_digit_def word_le_nat_alt del: of_nat_add)
  show ?case
  proof (cases "n < 10")
    case True
    then show ?thesis
      using digit [of n] digit_char [of n]
      by (simp add: decimal.simps [of n] digits_value_def del: of_nat_add)
  next
    case False
    then show ?thesis
      using 1 digit [of "n mod 10"] digit_char [of "n mod 10"]
      by (simp add: decimal.simps [of n] digits_value_snoc del: of_nat_add)
  qed
qed

lemma parse_number:
  assumes "ends_digits rest"
  shows "ConsumeDecimalNumber (NumberToString n @ rest) v = (True, rest, n)"
  using ConsumeDecimalNumber_value [OF _ assms, of "decimal (unat n)" v] decimal_digits [of "unat n"] unsigned_less [of n, where 'a = nat]
  by (simp add: NumberToString_def AppendNumberTo_def)

section \<open>Facts on status values\<close>

lemma code_number_range: "code_number c < 6"
  by (cases c) simp_all

lemma status_code_make: "status_code_of (make_Status c a b) = code_number c"
  by (simp add: status_code_of_def make_Status_def Let_def nth_append)

lemma status_ok_simps [simp]:
  "status_ok Status_OK" "\<not> status_ok (make_Status c a b)" "\<not> status_ok (Status_Corruption a b)"
  "\<not> status_ok (Status_IOError a b)" "\<not> status_ok (Status_InvalidArgument a b)"
  "\<not> status_ok (Status_NotFound a b)" "\<not> status_ok (Status_NotSupported a b)"
  by (simp_all add: status_ok_def Status_OK_def make_Status_def Status_Corruption_def Let_def
      Status_IOError_def Status_InvalidArgument_def Status_NotFound_def Status_NotSupported_def)

section \<open>Properties\<close>

text \<open>C38: the number parser takes the longest run of decimal digits; it answers their value when it
  is below 2^64 and refuses a larger number with the slice untouched, an empty run with false; what
  the printer wrote is read back.\<close>

theorem decimal_numbers:
  assumes "list_all is_digit ds" and "ends_digits rest"
  shows "ConsumeDecimalNumber (ds @ rest) v =
      (if digits_value 0 ds < 2 ^ 64 then (ds \<noteq> [], rest, of_nat (digits_value 0 ds))
       else (False, ds @ rest, v)) \<and>
    ConsumeDecimalNumber (NumberToString n @ rest) v = (True, rest, n)"
  using ConsumeDecimalNumber_value [OF assms] parse_number [OF assms(2)] by simp

lemma decimal_numbers_witness:
  "ConsumeDecimalNumber [52, 50, 46] 7 = (True, [46], 42)"
  using decimal_numbers [of "[52, 50]" "[46]" 7 0]
  by (simp add: is_digit_def ends_digits_def digits_value_def)

end
