(* ===== verification/Ldb_Env.thy ===== *)
theory Ldb_Env
  imports Ldb_Status "HOL-Library.Sublist"
begin

text \<open>
  The files of LevelDB on POSIX (\<^verbatim>\<open>util/env_posix.cc\<close>) behind the interfaces of \<^verbatim>\<open>include/leveldb/env.h\<close>:
  the buffered writable file, the sequential, positioned and mapped readers, the limiter of open files
  and the table of locked files.  The kernel is a parameter: the list of the answers its calls will
  give, each the number of bytes taken or an error number; behind the end of the list every call
  succeeds in full.
\<close>

section \<open>The interfaces\<close>

record 's WritableFile =
  Append_op :: "'s \<Rightarrow> slice \<Rightarrow> Status \<times> 's"
  Close_op :: "'s \<Rightarrow> Status \<times> 's"
  Flush_op :: "'s \<Rightarrow> Status \<times> 's"
  Sync_op :: "'s \<Rightarrow> Status \<times> 's"

text \<open>\<open>Read_op s n r\<close>: \<open>r\<close> is what \<^verbatim>\<open>*result\<close> holds before the call.\<close>

record 's SequentialFile =
  Read_op :: "'s \<Rightarrow> nat \<Rightarrow> slice \<Rightarrow> Status \<times> slice \<times> 's"
  Skip_op :: "'s \<Rightarrow> 64 word \<Rightarrow> Status \<times> 's"

section \<open>System calls\<close>

datatype answer = Done nat | Failed int

definition ENOENT :: int where "ENOENT = 2"

definition EINTR :: int where "EINTR = 4"

definition EINVAL :: int where "EINVAL = 22"

record kernel =
  answers :: "answer list"
  strerror :: "int \<Rightarrow> byte list"

text \<open>A call that only succeeds or fails, such as \<^verbatim>\<open>open\<close>, \<^verbatim>\<open>close\<close> and \<^verbatim>\<open>fsync\<close>.\<close>

definition syscall :: "kernel \<Rightarrow> int option \<times> kernel" where
  "syscall k =
     (case answers k of
        [] \<Rightarrow> (None, k)
      | Done _ # as \<Rightarrow> (None, k\<lparr>answers := as\<rparr>)
      | Failed e # as \<Rightarrow> (Some e, k\<lparr>answers := as\<rparr>))"

definition PosixError :: "kernel \<Rightarrow> byte list \<Rightarrow> int \<Rightarrow> Status" where
  "PosixError k context_name error_number =
     (if error_number = ENOENT then Status_NotFound context_name (strerror k error_number)
      else Status_IOError context_name (strerror k error_number))"

section \<open>The writable file\<close>

definition kWritableFileBufferSize :: nat where
  "kWritableFileBufferSize = 65536"

text \<open>
  \<open>buf\<close> holds \<^verbatim>\<open>buf_[0, pos_)\<close>; \<open>disk\<close> is the file behind the descriptor.  A descriptor of -1 is closed.
\<close>

record PosixWritableFile =
  buf :: "byte list"
  fd :: int
  is_manifest :: bool
  filename :: "byte list"
  dirname :: "byte list"
  disk :: "byte list"
  kern :: kernel

text \<open>The position of the last separator; \<^verbatim>\<open>'/'\<close> is 47.\<close>

definition rfind_slash :: "byte list \<Rightarrow> nat option" where
  "rfind_slash s = (let r = dropWhile (\<lambda>c. c \<noteq> 47) (rev s) in if r = [] then None else Some (length r - 1))"

definition Dirname :: "byte list \<Rightarrow> byte list" where
  "Dirname s = (case rfind_slash s of None \<Rightarrow> bytes_of ''.'' | Some separator_pos \<Rightarrow> take separator_pos s)"

definition Basename :: "byte list \<Rightarrow> slice" where
  "Basename s = (case rfind_slash s of None \<Rightarrow> s | Some separator_pos \<Rightarrow> drop (separator_pos + 1) s)"

definition IsManifest :: "byte list \<Rightarrow> bool" where
  "IsManifest s = slice_starts_with (Basename s) (bytes_of ''MANIFEST'')"

definition new_PosixWritableFile :: "byte list \<Rightarrow> int \<Rightarrow> byte list \<Rightarrow> kernel \<Rightarrow> PosixWritableFile" where
  "new_PosixWritableFile name d content k =
     \<lparr>buf = [], fd = d, is_manifest = IsManifest name, filename = name, dirname = Dirname name,
      disk = content, kern = k\<rparr>"

text \<open>The loop around \<^verbatim>\<open>write\<close>: the error number if it gave up, the answers left, the file.\<close>

fun write_loop :: "answer list \<Rightarrow> byte list \<Rightarrow> byte list \<Rightarrow> int option \<times> answer list \<times> byte list" where
  "write_loop as d [] = (None, as, d)"
| "write_loop [] d data = (None, [], d @ data)"
| "write_loop (Done n # as) d data = write_loop as (d @ take n data) (drop n data)"
| "write_loop (Failed e # as) d data =
     (if e = EINTR then write_loop as d data else (Some e, as, d))"

definition WriteUnbuffered :: "PosixWritableFile \<Rightarrow> byte list \<Rightarrow> Status \<times> PosixWritableFile" where
  "WriteUnbuffered f data =
     (case write_loop (answers (kern f)) (disk f) data of
        (err, as, d) \<Rightarrow>
          (case err of None \<Rightarrow> Status_OK | Some e \<Rightarrow> PosixError (kern f) (filename f) e,
           f\<lparr>disk := d, kern := (kern f)\<lparr>answers := as\<rparr>\<rparr>))"

definition FlushBuffer :: "PosixWritableFile \<Rightarrow> Status \<times> PosixWritableFile" where
  "FlushBuffer f = (case WriteUnbuffered f (buf f) of (s, f') \<Rightarrow> (s, f'\<lparr>buf := []\<rparr>))"

definition Posix_Append :: "PosixWritableFile \<Rightarrow> slice \<Rightarrow> Status \<times> PosixWritableFile" where
  "Posix_Append f data =
     (let copy_size = min (length data) (kWritableFileBufferSize - length (buf f));
          f = f\<lparr>buf := buf f @ take copy_size data\<rparr>;
          data = drop copy_size data in
      if data = [] then (Status_OK, f)
      else case FlushBuffer f of
        (status, f) \<Rightarrow>
          if \<not> status_ok status then (status, f)
          else if length data < kWritableFileBufferSize then (Status_OK, f\<lparr>buf := data\<rparr>)
          else WriteUnbuffered f data)"

definition Posix_Close :: "PosixWritableFile \<Rightarrow> Status \<times> PosixWritableFile" where
  "Posix_Close f =
     (case FlushBuffer f of
        (status, f) \<Rightarrow> (case syscall (kern f) of
          (err, k) \<Rightarrow>
            (case err of
               Some e \<Rightarrow> if status_ok status then PosixError k (filename f) e else status
             | None \<Rightarrow> status,
             f\<lparr>fd := -1, kern := k\<rparr>)))"

definition Posix_destroy :: "PosixWritableFile \<Rightarrow> PosixWritableFile" where
  "Posix_destroy f = (if fd f \<ge> 0 then snd (Posix_Close f) else f)"

definition Posix_Flush :: "PosixWritableFile \<Rightarrow> Status \<times> PosixWritableFile" where
  "Posix_Flush f = FlushBuffer f"

text \<open>\<^verbatim>\<open>HAVE_FULLFSYNC\<close> is 1 and \<^verbatim>\<open>HAVE_FDATASYNC\<close> not set: \<^verbatim>\<open>fcntl(F_FULLFSYNC)\<close>, then \<^verbatim>\<open>fsync\<close>.\<close>

definition SyncFd :: "kernel \<Rightarrow> byte list \<Rightarrow> Status \<times> kernel" where
  "SyncFd k fd_path =
     (case syscall k of
        (None, k) \<Rightarrow> (Status_OK, k)
      | (Some _, k) \<Rightarrow> (case syscall k of
          (None, k) \<Rightarrow> (Status_OK, k)
        | (Some e, k) \<Rightarrow> (PosixError k fd_path e, k)))"

definition SyncDirIfManifest :: "PosixWritableFile \<Rightarrow> Status \<times> PosixWritableFile" where
  "SyncDirIfManifest f =
     (if \<not> is_manifest f then (Status_OK, f)
      else case syscall (kern f) of
        (Some e, k) \<Rightarrow> (PosixError k (dirname f) e, f\<lparr>kern := k\<rparr>)
      | (None, k) \<Rightarrow> (case SyncFd k (dirname f) of
          (status, k) \<Rightarrow> (status, f\<lparr>kern := snd (syscall k)\<rparr>)))"

definition Posix_Sync :: "PosixWritableFile \<Rightarrow> Status \<times> PosixWritableFile" where
  "Posix_Sync f =
     (case SyncDirIfManifest f of
        (status, f) \<Rightarrow>
          if \<not> status_ok status then (status, f)
          else case FlushBuffer f of
            (status, f) \<Rightarrow>
              if \<not> status_ok status then (status, f)
              else case SyncFd (kern f) (filename f) of (status, k) \<Rightarrow> (status, f\<lparr>kern := k\<rparr>))"

definition posix_writable :: "PosixWritableFile WritableFile" where
  "posix_writable =
     \<lparr>Append_op = Posix_Append, Close_op = Posix_Close, Flush_op = Posix_Flush, Sync_op = Posix_Sync\<rparr>"

section \<open>The readers\<close>

record PosixSequentialFile =
  seq_name :: "byte list"
  seq_rest :: "byte list"
  seq_kern :: kernel

text \<open>
  \<open>seq_rest\<close> is the file behind the offset of the descriptor.  \<^verbatim>\<open>read\<close> of \<open>n\<close> bytes takes what the
  kernel gives, at most \<open>n\<close> and at most what is there.
\<close>

fun read_loop :: "answer list \<Rightarrow> byte list \<Rightarrow> nat \<Rightarrow> (int + byte list) \<times> answer list \<times> byte list" where
  "read_loop [] r n = (Inr (take n r), [], drop n r)"
| "read_loop (Done i # as) r n = (Inr (take (min i n) r), as, drop (min i n) r)"
| "read_loop (Failed e # as) r n = (if e = EINTR then read_loop as r n else (Inl e, as, r))"

definition Posix_Read :: "PosixSequentialFile \<Rightarrow> nat \<Rightarrow> slice \<Rightarrow> Status \<times> slice \<times> PosixSequentialFile" where
  "Posix_Read f n result =
     (case read_loop (answers (seq_kern f)) (seq_rest f) n of
        (r, as, rest) \<Rightarrow>
          let f' = f\<lparr>seq_rest := rest, seq_kern := (seq_kern f)\<lparr>answers := as\<rparr>\<rparr> in
          case r of
            Inl e \<Rightarrow> (PosixError (seq_kern f) (seq_name f) e, result, f')
          | Inr bs \<Rightarrow> (Status_OK, bs, f'))"

definition Posix_Skip :: "PosixSequentialFile \<Rightarrow> 64 word \<Rightarrow> Status \<times> PosixSequentialFile" where
  "Posix_Skip f n =
     (case syscall (seq_kern f) of
        (Some e, k) \<Rightarrow> (PosixError k (seq_name f) e, f\<lparr>seq_kern := k\<rparr>)
      | (None, k) \<Rightarrow> (Status_OK, f\<lparr>seq_rest := drop (unat n) (seq_rest f), seq_kern := k\<rparr>))"

definition posix_sequential :: "PosixSequentialFile SequentialFile" where
  "posix_sequential = \<lparr>Read_op = Posix_Read, Skip_op = Posix_Skip\<rparr>"

text \<open>
  The mapped file: the bytes from \<open>offset\<close> in the mapping of \<open>length_\<close> bytes at \<open>base\<close>.  The answer
  names the region the slice refers to.
\<close>

record PosixMmapReadableFile =
  mmap_base :: addr
  mmap_length :: "64 word"
  mmap_name :: "byte list"

definition Mmap_Read :: "kernel \<Rightarrow> PosixMmapReadableFile \<Rightarrow> 64 word \<Rightarrow> 64 word \<Rightarrow> Status \<times> addr \<times> 64 word" where
  "Mmap_Read k f offset n =
     (if offset + n > mmap_length f then (PosixError k (mmap_name f) EINVAL, 0, 0)
      else (Status_OK, mmap_base f + offset, n))"

section \<open>The limiter\<close>

text \<open>\<open>fetch_sub\<close> and \<open>fetch_add\<close> on the counter, as \<^verbatim>\<open>Acquire\<close> runs them without another thread between.\<close>

definition Limiter_Acquire :: "int \<Rightarrow> bool \<times> int" where
  "Limiter_Acquire acquires_allowed =
     (let old_acquires_allowed = acquires_allowed; c = acquires_allowed - 1 in
      if old_acquires_allowed > 0 then (True, c) else (False, c + 1))"

definition Limiter_Release :: "int \<Rightarrow> int" where
  "Limiter_Release acquires_allowed = acquires_allowed + 1"

text \<open>
  The same with any number of threads: a thread is outside, holds a resource, or is between its
  \<^verbatim>\<open>fetch_sub\<close> that came too late and the \<^verbatim>\<open>fetch_add\<close> that takes it back.
\<close>

datatype phase = Outside | Refused | Holding

inductive limiter_step :: "int \<times> phase list \<Rightarrow> int \<times> phase list \<Rightarrow> bool" where
  acquired: "t < length ps \<Longrightarrow> ps ! t = Outside \<Longrightarrow> c > 0 \<Longrightarrow>
    limiter_step (c, ps) (c - 1, ps[t := Holding])"
| too_late: "t < length ps \<Longrightarrow> ps ! t = Outside \<Longrightarrow> \<not> c > 0 \<Longrightarrow>
    limiter_step (c, ps) (c - 1, ps[t := Refused])"
| take_back: "t < length ps \<Longrightarrow> ps ! t = Refused \<Longrightarrow>
    limiter_step (c, ps) (c + 1, ps[t := Outside])"
| released: "t < length ps \<Longrightarrow> ps ! t = Holding \<Longrightarrow>
    limiter_step (c, ps) (c + 1, ps[t := Outside])"

inductive_cases limiter_stepE: "limiter_step (c, ps) s"

section \<open>Locked files\<close>

text \<open>
  The kernel of the lock calls on a file name: \<^verbatim>\<open>open\<close> and \<^verbatim>\<open>fcntl(F_SETLK)\<close> with their error
  numbers, and \<^verbatim>\<open>close\<close> of a descriptor of the file.
\<close>

record 'k lock_kernel =
  open_call :: "'k \<Rightarrow> byte list \<Rightarrow> int option \<times> 'k"
  setlk_call :: "'k \<Rightarrow> byte list \<Rightarrow> bool \<Rightarrow> int option \<times> 'k"
  close_call :: "'k \<Rightarrow> byte list \<Rightarrow> 'k"
  error_text :: "int \<Rightarrow> byte list"

type_synonym lock_table = "byte list set"

definition lock_Insert :: "lock_table \<Rightarrow> byte list \<Rightarrow> bool \<times> lock_table" where
  "lock_Insert locked_files fname = (fname \<notin> locked_files, insert fname locked_files)"

definition lock_Remove :: "lock_table \<Rightarrow> byte list \<Rightarrow> lock_table" where
  "lock_Remove locked_files fname = locked_files - {fname}"

definition lock_error :: "'k lock_kernel \<Rightarrow> byte list \<Rightarrow> int \<Rightarrow> Status" where
  "lock_error ops context_name e =
     (if e = ENOENT then Status_NotFound context_name (error_text ops e)
      else Status_IOError context_name (error_text ops e))"

definition LockFile :: "'k lock_kernel \<Rightarrow> byte list \<Rightarrow> lock_table \<Rightarrow> 'k \<Rightarrow>
    Status \<times> byte list option \<times> lock_table \<times> 'k" where
  "LockFile ops fname locks k =
     (case open_call ops k fname of
        (Some e, k) \<Rightarrow> (lock_error ops fname e, None, locks, k)
      | (None, k) \<Rightarrow> (case lock_Insert locks fname of
          (inserted, locks) \<Rightarrow>
            if \<not> inserted then
              (Status_IOError (bytes_of ''lock '' @ fname) (bytes_of ''already held by process''),
               None, locks, close_call ops k fname)
            else case setlk_call ops k fname True of
              (Some lock_errno, k) \<Rightarrow>
                (lock_error ops (bytes_of ''lock '' @ fname) lock_errno, None,
                 lock_Remove locks fname, close_call ops k fname)
            | (None, k) \<Rightarrow> (Status_OK, Some fname, locks, k)))"

definition UnlockFile :: "'k lock_kernel \<Rightarrow> byte list \<Rightarrow> lock_table \<Rightarrow> 'k \<Rightarrow> Status \<times> lock_table \<times> 'k" where
  "UnlockFile ops fname locks k =
     (case setlk_call ops k fname False of
        (Some e, k) \<Rightarrow> (lock_error ops (bytes_of ''unlock '' @ fname) e, locks, k)
      | (None, k) \<Rightarrow> (Status_OK, lock_Remove locks fname, close_call ops k fname))"

section \<open>Facts on the writable file\<close>

text \<open>What was appended and not lost: the file, then the buffer.\<close>

definition contents :: "PosixWritableFile \<Rightarrow> byte list" where
  "contents f = disk f @ buf f"

definition buffer_ok :: "PosixWritableFile \<Rightarrow> bool" where
  "buffer_ok f \<longleftrightarrow> length (buf f) \<le> kWritableFileBufferSize"

lemma write_loop_data:
  "write_loop as d data = (err, as', d') \<Longrightarrow>
    (err = None \<longrightarrow> d' = d @ data) \<and> (\<exists>n. d' = d @ take n data)"
proof (induction as d data rule: write_loop.induct)
  case (3 n as d b bs)
  then have IH: "(err = None \<longrightarrow> d' = (d @ take n (b # bs)) @ drop n (b # bs)) \<and>
      (\<exists>m. d' = (d @ take n (b # bs)) @ take m (drop n (b # bs)))" by simp
  moreover have "take n (b # bs) @ take m (drop n (b # bs)) = take (n + m) (b # bs)" for m
    by (rule take_add [symmetric])
  ultimately show ?case by (metis append.assoc append_take_drop_id)
next
  case (4 e as d b bs)
  then show ?case by (auto split: if_splits intro: exI [of _ 0])
next
  case (2 d v va)
  then show ?case by (auto intro: exI [of _ "length (v # va)"])
qed (auto intro: exI [of _ 0])

lemma WriteUnbuffered_data:
  assumes "WriteUnbuffered f data = (s, f')"
  shows "buf f' = buf f" and "status_ok s \<Longrightarrow> disk f' = disk f @ data" and "\<exists>n. disk f' = disk f @ take n data"
  using assms
  by (auto simp: WriteUnbuffered_def PosixError_def split: prod.splits option.splits if_splits
      dest: write_loop_data)

lemma FlushBuffer_data:
  assumes "FlushBuffer f = (s, f')"
  shows "buf f' = []" and "status_ok s \<Longrightarrow> disk f' = contents f" and "\<exists>n. disk f' = disk f @ take n (buf f)"
proof -
  obtain g where "WriteUnbuffered f (buf f) = (s, g)" and "f' = g\<lparr>buf := []\<rparr>"
    using assms by (auto simp: FlushBuffer_def split: prod.splits)
  then show "buf f' = []" "status_ok s \<Longrightarrow> disk f' = contents f" "\<exists>n. disk f' = disk f @ take n (buf f)"
    using WriteUnbuffered_data [of f "buf f" s g] by (simp_all add: contents_def)
qed

lemma Posix_Append_data:
  assumes "Posix_Append f data = (s, f')" and "buffer_ok f"
  shows "buffer_ok f'" and "status_ok s \<Longrightarrow> contents f' = contents f @ data"
    and "prefix (disk f) (disk f')" and "prefix (disk f') (contents f @ data)"
proof -
  define c where "c = min (length data) (kWritableFileBufferSize - length (buf f))"
  define g where "g = f\<lparr>buf := buf f @ take c data\<rparr>"
  have g: "disk g = disk f" "buf g = buf f @ take c data" "buffer_ok g"
    using assms(2) by (simp_all add: g_def buffer_ok_def c_def)
  have all: "buffer_ok f' \<and> (status_ok s \<longrightarrow> contents f' = contents f @ data) \<and>
      prefix (disk f) (disk f') \<and> prefix (disk f') (contents f @ data)"
  proof (cases "drop c data = []")
    case True
    then have "s = Status_OK" "f' = g" "take c data = data"
      using assms(1) by (simp_all add: Posix_Append_def Let_def g_def flip: c_def)
    then show ?thesis using g by (simp add: contents_def)
  next
    case False
    obtain t h where fl: "FlushBuffer g = (t, h)" by fastforce
    note fd = FlushBuffer_data [OF fl]
    have flushed: "prefix (disk f) (disk h)" "prefix (disk h) (contents f @ data)"
    proof -
      obtain n where h: "disk h = disk f @ take n (buf f @ take c data)" using fd(3) g by auto
      then show "prefix (disk f) (disk h)" by simp
      have "prefix (take n (buf f @ take c data)) (buf f @ data)"
        by (metis append.assoc append_take_drop_id prefixI take_is_prefix prefix_order.trans)
      then show "prefix (disk h) (contents f @ data)" using h by (simp add: contents_def)
    qed
    have body: "(s, f') = (if \<not> status_ok t then (t, h)
        else if length (drop c data) < kWritableFileBufferSize then (Status_OK, h\<lparr>buf := drop c data\<rparr>)
        else WriteUnbuffered h (drop c data))"
      using assms(1) False fl by (simp add: Posix_Append_def Let_def flip: c_def g_def)
    consider "\<not> status_ok t" "f' = h" "s = t"
      | "status_ok t" "f' = h\<lparr>buf := drop c data\<rparr>" "length (drop c data) < kWritableFileBufferSize"
      | "status_ok t" "WriteUnbuffered h (drop c data) = (s, f')"
      using body by (auto split: if_splits)
    then show ?thesis
    proof cases
      case 1
      then show ?thesis using flushed fd(1) by (simp add: buffer_ok_def)
    next
      case 2
      then show ?thesis using flushed fd(2) g by (simp add: buffer_ok_def contents_def)
    next
      case 3
      have h: "disk h = disk f @ buf f @ take c data" using fd(2) 3 g by (simp add: contents_def)
      note w = WriteUnbuffered_data [OF 3(2)]
      obtain n where n: "disk f' = disk h @ take n (drop c data)" using w(3) by auto
      have "prefix (take c data @ take n (drop c data)) data"
        by (metis append_take_drop_id prefix_def take_is_prefix same_prefix_prefix)
      then show ?thesis
        using h n w(1,2) fd(1) flushed(1) by (auto simp: buffer_ok_def contents_def)
    qed
  qed
  then show "buffer_ok f'" "status_ok s \<Longrightarrow> contents f' = contents f @ data"
    "prefix (disk f) (disk f')" "prefix (disk f') (contents f @ data)" by simp_all
qed

text \<open>Interruptions and short writes alone never make an append or a flush fail.\<close>

definition healthy :: "PosixWritableFile \<Rightarrow> bool" where
  "healthy f \<longleftrightarrow> (\<forall>e. Failed e \<in> set (answers (kern f)) \<longrightarrow> e = EINTR)"

lemma write_loop_healthy:
  "(\<forall>e. Failed e \<in> set as \<longrightarrow> e = EINTR) \<Longrightarrow> write_loop as d data = (err, as', d') \<Longrightarrow>
    err = None \<and> set as' \<subseteq> set as"
  by (induction as d data rule: write_loop.induct) (auto split: if_splits)

lemma healthy_buf [simp]: "healthy (f\<lparr>buf := b\<rparr>) = healthy f"
  by (simp add: healthy_def)

lemma WriteUnbuffered_healthy:
  assumes "healthy f" and "WriteUnbuffered f data = (s, f')"
  shows "status_ok s \<and> healthy f'"
proof -
  obtain err as d where w: "write_loop (answers (kern f)) (disk f) data = (err, as, d)" by (metis prod_cases3)
  have "err = None \<and> set as \<subseteq> set (answers (kern f))"
    by (rule write_loop_healthy [OF _ w]) (use assms(1) in \<open>simp add: healthy_def\<close>)
  then show ?thesis using assms w by (auto simp: WriteUnbuffered_def healthy_def)
qed

lemma FlushBuffer_healthy:
  assumes "healthy f" and "FlushBuffer f = (s, f')"
  shows "status_ok s \<and> healthy f'"
proof -
  obtain t g where w: "WriteUnbuffered f (buf f) = (t, g)" by fastforce
  then show ?thesis using WriteUnbuffered_healthy [OF assms(1) w] assms(2) by (auto simp: FlushBuffer_def)
qed

lemma Posix_Append_healthy: "healthy f \<Longrightarrow> Posix_Append f data = (s, f') \<Longrightarrow> status_ok s \<and> healthy f'"
proof -
  assume h: "healthy f" and a: "Posix_Append f data = (s, f')"
  define c where "c = min (length data) (kWritableFileBufferSize - length (buf f))"
  define g where "g = f\<lparr>buf := buf f @ take c data\<rparr>"
  have g: "healthy g" using h by (simp add: g_def healthy_def)
  obtain t u where fl: "FlushBuffer g = (t, u)" by fastforce
  note u = FlushBuffer_healthy [OF g fl]
  show ?thesis
  proof (cases "drop c data = []")
    case True
    then have "s = Status_OK" "f' = g" using a by (simp_all add: Posix_Append_def Let_def g_def flip: c_def)
    then show ?thesis using g by simp
  next
    case False
    then have body: "(s, f') = (if length (drop c data) < kWritableFileBufferSize
        then (Status_OK, u\<lparr>buf := drop c data\<rparr>) else WriteUnbuffered u (drop c data))"
      using a fl u by (simp add: Posix_Append_def Let_def flip: c_def g_def)
    show ?thesis
    proof (cases "length (drop c data) < kWritableFileBufferSize")
      case True
      then have "s = Status_OK" "f' = u\<lparr>buf := drop c data\<rparr>" using body by simp_all
      then show ?thesis using u by simp
    next
      case False
      then have "WriteUnbuffered u (drop c data) = (s, f')" using body by simp
      then show ?thesis using WriteUnbuffered_healthy u by blast
    qed
  qed
qed

section \<open>The contract of a writable file\<close>

text \<open>
  \<open>all s\<close> is what was appended, \<open>durable s\<close> what has been handed to the kernel.  A call that answers
  OK keeps all of it; a small append right after a flush cannot fail.
\<close>

locale writable_file =
  fixes ops :: "'s WritableFile" and good :: "'s \<Rightarrow> bool"
    and all :: "'s \<Rightarrow> byte list" and durable :: "'s \<Rightarrow> byte list"
  assumes append_good: "good s \<Longrightarrow> Append_op ops s d = (st, s') \<Longrightarrow> good s'"
    and append_all: "good s \<Longrightarrow> Append_op ops s d = (st, s') \<Longrightarrow> status_ok st \<Longrightarrow> all s' = all s @ d"
    and append_small: "good s \<Longrightarrow> durable s = all s \<Longrightarrow> length d < 7 \<Longrightarrow> status_ok (fst (Append_op ops s d))"
    and flush_good: "good s \<Longrightarrow> Flush_op ops s = (st, s') \<Longrightarrow> good s'"
    and flush_all: "good s \<Longrightarrow> Flush_op ops s = (st, s') \<Longrightarrow> status_ok st \<Longrightarrow> all s' = all s \<and> durable s' = all s"
begin

primrec append_many :: "'s \<Rightarrow> slice list \<Rightarrow> Status \<times> 's" where
  "append_many s [] = Flush_op ops s"
| "append_many s (d # ds) =
     (case Append_op ops s d of (st, s') \<Rightarrow> if status_ok st then append_many s' ds else (st, s'))"

lemma append_many_durable:
  "good s \<Longrightarrow> append_many s ds = (st, s') \<Longrightarrow> status_ok st \<Longrightarrow>
    good s' \<and> durable s' = all s @ concat ds \<and> all s' = all s @ concat ds"
proof (induction ds arbitrary: s)
  case Nil
  then show ?case using flush_all flush_good by simp
next
  case (Cons d ds)
  obtain t s1 where a: "Append_op ops s d = (t, s1)" by fastforce
  show ?case
  proof (cases "status_ok t")
    case True
    then have "all s1 = all s @ d" "good s1" using a Cons.prems append_all append_good by auto
    then show ?thesis using True a Cons.IH [of s1] Cons.prems by simp
  next
    case False
    then show ?thesis using a Cons.prems by auto
  qed
qed

end

lemma Posix_Flush_data:
  assumes "Posix_Flush f = (s, f')"
  shows "buffer_ok f'" and "status_ok s \<Longrightarrow> contents f' = contents f \<and> disk f' = contents f"
  using FlushBuffer_data [of f s f'] assms by (simp_all add: Posix_Flush_def buffer_ok_def contents_def)

interpretation posix_w: writable_file posix_writable buffer_ok contents disk
proof unfold_locales
  fix f d
  assume "buffer_ok f" and "disk f = contents f" and "length (d :: slice) < 7"
  then have "buf f = []" by (simp add: contents_def)
  with \<open>length d < 7\<close> show "status_ok (fst (Append_op posix_writable f d))"
    by (simp add: posix_writable_def Posix_Append_def kWritableFileBufferSize_def Let_def)
qed (auto simp: posix_writable_def dest: Posix_Append_data Posix_Flush_data)

section \<open>The contract of a sequential file\<close>

text \<open>A read takes the next bytes, all that were asked for unless the file ends.\<close>

locale sequential_file =
  fixes ops :: "'f SequentialFile" and good :: "'f \<Rightarrow> bool" and rest :: "'f \<Rightarrow> byte list"
  assumes read_full: "good f \<Longrightarrow> \<exists>f'. Read_op ops f n res = (Status_OK, take n (rest f), f') \<and>
    rest f' = drop n (rest f) \<and> good f'"

text \<open>On POSIX: the kernel may interrupt a read any number of times, but does not fail or cut it short.\<close>

definition only_interrupted :: "PosixSequentialFile \<Rightarrow> bool" where
  "only_interrupted f \<longleftrightarrow> set (answers (seq_kern f)) \<subseteq> {Failed EINTR}"

lemma read_loop_interrupted:
  "set as \<subseteq> {Failed EINTR} \<Longrightarrow> read_loop as r n = (Inr (take n r), [], drop n r)"
  by (induction as) auto

interpretation posix_r: sequential_file posix_sequential only_interrupted seq_rest
proof unfold_locales
  fix f n res
  assume "only_interrupted f"
  then show "\<exists>f'. Read_op posix_sequential f n res = (Status_OK, take n (seq_rest f), f') \<and>
      seq_rest f' = drop n (seq_rest f) \<and> only_interrupted f'"
    by (simp add: posix_sequential_def Posix_Read_def only_interrupted_def read_loop_interrupted)
qed

section \<open>Facts on the limiter\<close>

definition count_phase :: "phase \<Rightarrow> phase list \<Rightarrow> nat" where
  "count_phase p ps = length (filter (\<lambda>q. q = p) ps)"

definition limiter_ok :: "int \<Rightarrow> int \<times> phase list \<Rightarrow> bool" where
  "limiter_ok allowed s \<longleftrightarrow>
     fst s + int (count_phase Holding (snd s)) + int (count_phase Refused (snd s)) = allowed \<and>
     int (count_phase Holding (snd s)) \<le> max allowed 0"

lemma count_phase_update:
  "t < length ps \<Longrightarrow> int (count_phase p (ps[t := q])) =
    int (count_phase p ps) + (if q = p then 1 else 0) - (if ps ! t = p then 1 else 0)"
proof (induction ps arbitrary: t)
  case (Cons x xs)
  then show ?case
  proof (cases t)
    case (Suc n)
    then show ?thesis using Cons.IH [of n] Cons.prems by (auto simp: count_phase_def split: if_splits)
  qed (auto simp: count_phase_def)
qed simp

lemma limiter_step_ok: "limiter_step s s' \<Longrightarrow> limiter_ok m s \<Longrightarrow> limiter_ok m s'"
  by (induction rule: limiter_step.induct) (auto simp: limiter_ok_def count_phase_update)

lemma limiter_reachable: "limiter_step\<^sup>*\<^sup>* s s' \<Longrightarrow> limiter_ok m s \<Longrightarrow> limiter_ok m s'"
  by (induction rule: rtranclp_induct) (auto intro: limiter_step_ok)

lemma count_phase_replicate: "count_phase p (replicate n q) = (if q = p then n else 0)"
  by (simp add: count_phase_def)

lemma limiter_start: "limiter_ok m (m, replicate n Outside)"
  by (simp add: limiter_ok_def count_phase_replicate)

section \<open>Properties\<close>

text \<open>C32: however the atomic steps of any number of threads interleave, never more threads hold a
  resource of the limiter than it was made for, and when no thread is inside the counter is back at
  its first value: a refused thread leaves nothing behind.\<close>

theorem limiter_never_exceeded:
  assumes "limiter_step\<^sup>*\<^sup>* (m, replicate n Outside) (c, ps)"
  shows "int (count_phase Holding ps) \<le> max m 0 \<and>
    (count_phase Holding ps = 0 \<and> count_phase Refused ps = 0 \<longrightarrow> c = m)"
  using limiter_reachable [OF assms limiter_start] by (simp add: limiter_ok_def)

lemma limiter_never_exceeded_witness:
  "limiter_step\<^sup>*\<^sup>* (1, replicate 2 Outside) (-1, [Holding, Refused]) \<and>
   int (count_phase Holding [Holding, Refused]) \<le> 1"
proof -
  have "limiter_step (1, [Outside, Outside]) (0, [Holding, Outside])"
    using limiter_step.acquired [of 0 "[Outside, Outside]" 1] by simp
  moreover have "limiter_step (0, [Holding, Outside]) (-1, [Holding, Refused])"
    using limiter_step.too_late [of 1 "[Holding, Outside]" 0] by simp
  ultimately have "limiter_step\<^sup>*\<^sup>* (1, replicate 2 Outside) (-1, [Holding, Refused])"
    by (simp add: numeral_2_eq_2)
  then show ?thesis using limiter_never_exceeded [of 1 2 "-1" "[Holding, Refused]"] by simp
qed

section \<open>Two faults\<close>

text \<open>
  A second attempt to lock a file is refused, but it closes a descriptor of the file, and POSIX
  drops every lock the process has on a file when any descriptor of it is closed: the first lock,
  still in the table, is gone.
\<close>

theorem second_lock_drops_first:
  assumes "open_call ops k fname = (None, k1)" and "fname \<in> locks"
    and posix_close: "\<And>k f. \<not> owns (close_call ops k f) f"
  shows "\<exists>st k'. LockFile ops fname locks k = (st, None, locks, k') \<and> \<not> status_ok st \<and> \<not> owns k' fname"
  using assms by (simp add: LockFile_def lock_Insert_def insert_absorb)

text \<open>
  \<^verbatim>\<open>offset + n\<close> wraps around: an offset just below 2^64 passes the test, and the slice starts in
  front of the mapping.
\<close>

theorem mmap_read_before_mapping:
  assumes "8 \<le> mmap_length f"
  shows "Mmap_Read k f (-8) 16 = (Status_OK, mmap_base f - 8, 16)"
  using assms by (simp add: Mmap_Read_def not_less)

end
