(* ===== verification/Ldb_Log.thy ===== *)
theory Ldb_Log
  imports Ldb_Env Ldb_Crc32c
begin

text \<open>
  The write-ahead log of LevelDB: the format (\<^verbatim>\<open>db/log_format.h\<close>), the writer that cuts records into
  fragments that do not cross a block (\<^verbatim>\<open>db/log_writer.cc\<close>) and the reader that puts them together
  again, drops what is damaged and reports it (\<^verbatim>\<open>db/log_reader.cc\<close>).  Both work on any file behind
  the interfaces of \<open>Ldb_Env\<close>.
\<close>

section \<open>The format\<close>

datatype RecordType = kZeroType | kFullType | kFirstType | kMiddleType | kLastType

primrec record_code :: "RecordType \<Rightarrow> 32 word" where
  "record_code kZeroType = 0"
| "record_code kFullType = 1"
| "record_code kFirstType = 2"
| "record_code kMiddleType = 3"
| "record_code kLastType = 4"

definition kMaxRecordType :: "32 word" where
  "kMaxRecordType = record_code kLastType"

definition kBlockSize :: nat where "kBlockSize = 32768"

definition kHeaderSize :: nat where "kHeaderSize = 4 + 2 + 1"

section \<open>The writer\<close>

record log_writer =
  block_offset :: int
  type_crc :: "32 word list"

text \<open>The result of a checksum does not depend on the address of the buffer; the model puts every buffer at 0.\<close>

definition InitTypeCrc :: "32 word list" where
  "InitTypeCrc = map (\<lambda>i. crc32c_Value 0 [of_nat i]) [0..<Suc (unat kMaxRecordType)]"

definition new_Writer :: log_writer where
  "new_Writer = \<lparr>block_offset = 0, type_crc = InitTypeCrc\<rparr>"

definition new_Writer_at :: "64 word \<Rightarrow> log_writer" where
  "new_Writer_at dest_length =
     \<lparr>block_offset = int (unat dest_length mod kBlockSize), type_crc = InitTypeCrc\<rparr>"

definition record_header :: "32 word list \<Rightarrow> RecordType \<Rightarrow> slice \<Rightarrow> byte list" where
  "record_header crcs t data =
     (let n = of_nat (length data) :: 64 word;
          crc = Extend (crcs ! unat (record_code t)) 0 data;
          crc = Mask crc in
      EncodeFixed32 crc @ [ucast (n AND 0xff), ucast (drop_bit 8 n), ucast (record_code t)])"

definition EmitPhysicalRecord :: "'s WritableFile \<Rightarrow> RecordType \<Rightarrow> slice \<Rightarrow> log_writer \<Rightarrow> 's \<Rightarrow>
    Status \<times> log_writer \<times> 's" where
  "EmitPhysicalRecord ops t data w d =
     (let (s, d) = Append_op ops d (record_header (type_crc w) t data);
          (s, d) = (if status_ok s
             then let (s, d) = Append_op ops d data in if status_ok s then Flush_op ops d else (s, d)
             else (s, d))
      in (s, w\<lparr>block_offset := block_offset w + int (kHeaderSize + length data)\<rparr>, d))"

text \<open>The switch to a new block: the answer of the append of the trailer is not looked at.\<close>

definition switch_block :: "'s WritableFile \<Rightarrow> log_writer \<Rightarrow> 's \<Rightarrow> log_writer \<times> 's" where
  "switch_block ops w d =
     (let leftover = int kBlockSize - block_offset w in
      if leftover < int kHeaderSize
      then (w\<lparr>block_offset := 0\<rparr>,
            if leftover > 0 then snd (Append_op ops d (replicate (nat leftover) 0)) else d)
      else (w, d))"

definition fragment_type :: "bool \<Rightarrow> bool \<Rightarrow> RecordType" where
  "fragment_type begin_rec end_rec =
     (if begin_rec \<and> end_rec then kFullType else if begin_rec then kFirstType
      else if end_rec then kLastType else kMiddleType)"

lemma Emit_offset: "EmitPhysicalRecord ops t data w d = (s, w', d') \<Longrightarrow>
    block_offset w' = block_offset w + 7 + int (length data) \<and> type_crc w' = type_crc w"
  by (auto simp: EmitPhysicalRecord_def kHeaderSize_def split: prod.splits if_splits)

text \<open>
  The loop runs again with less data, or, when the block had room for a header only, at a block
  that is full.
\<close>

function add_loop :: "'s WritableFile \<Rightarrow> bool \<Rightarrow> slice \<Rightarrow> log_writer \<Rightarrow> 's \<Rightarrow> Status \<times> log_writer \<times> 's" where
  "add_loop ops begin_rec data w d =
     (let (w1, d1) = switch_block ops w d;
          avail = nat (int kBlockSize - block_offset w1 - int kHeaderSize);
          fragment_length = (if length data < avail then length data else avail);
          end_rec = (length data = fragment_length);
          (s, w2, d2) =
            EmitPhysicalRecord ops (fragment_type begin_rec end_rec) (take fragment_length data) w1 d1
      in if status_ok s \<and> length data - fragment_length > 0
         then add_loop ops False (drop fragment_length data) w2 d2 else (s, w2, d2))"
  by pat_completeness auto
termination
proof (relation "measure (\<lambda>(ops, b, data, w, d). 2 * length data + (if block_offset w = 32761 then 1 else 0))")
  fix ops :: "'s WritableFile" and b data w d w1 d1 avail n end_rec s w2 d2 p q r
  assume p: "p = switch_block ops w d" "(w1, d1) = p"
    and avail: "avail = nat (int kBlockSize - block_offset w1 - int kHeaderSize)"
    and n: "n = (if length data < avail then length data else avail)"
    and q: "q = EmitPhysicalRecord ops (fragment_type b end_rec) (take n data) w1 d1" "(s, r) = q" "(w2, d2) = r"
    and more: "status_ok s \<and> length data - n > 0"
  have off: "block_offset w1 \<le> 32761" "block_offset w1 = 32761 \<longrightarrow> block_offset w = 32761"
    using p by (auto simp: switch_block_def kBlockSize_def kHeaderSize_def Let_def split: if_splits)
  have w2: "block_offset w2 = block_offset w1 + 7 + int n"
    using q more Emit_offset [of ops _ "take n data" w1 d1 s w2 d2] by (simp add: min_def split: if_splits)
  show "((ops, False, drop n data, w2, d2), ops, b, data, w, d)
      \<in> measure (\<lambda>(ops, b, data, w, d). 2 * length data + (if block_offset w = 32761 then 1 else 0))"
  proof (cases "n = 0")
    case True
    then have "avail = 0" using n more by (auto split: if_splits)
    then have "block_offset w1 = 32761" using avail off by (simp add: kBlockSize_def kHeaderSize_def)
    then show ?thesis using w2 off True more by simp
  next
    case False
    then show ?thesis using more by auto
  qed
qed simp

declare add_loop.simps [simp del]

definition AddRecord :: "'s WritableFile \<Rightarrow> slice \<Rightarrow> log_writer \<Rightarrow> 's \<Rightarrow> Status \<times> log_writer \<times> 's" where
  "AddRecord ops data w d = add_loop ops True data w d"

section \<open>The reader\<close>

definition kEof :: "32 word" where "kEof = kMaxRecordType + 1"

definition kBadRecord :: "32 word" where "kBadRecord = kMaxRecordType + 2"

text \<open>\<open>reports\<close> are the calls of \<^verbatim>\<open>reporter_->Corruption\<close>, the newest last.\<close>

record log_reader =
  has_reporter :: bool
  checksum :: bool
  buffer :: slice
  eof :: bool
  last_record_offset :: "64 word"
  end_of_buffer_offset :: "64 word"
  initial_offset :: "64 word"
  resyncing :: bool
  reports :: "(64 word \<times> Status) list"

definition new_Reader :: "bool \<Rightarrow> bool \<Rightarrow> 64 word \<Rightarrow> log_reader" where
  "new_Reader reporter check offset =
     \<lparr>has_reporter = reporter, checksum = check, buffer = [], eof = False, last_record_offset = 0,
      end_of_buffer_offset = 0, initial_offset = offset, resyncing = (offset > 0), reports = []\<rparr>"

definition buffer_size :: "log_reader \<Rightarrow> 64 word" where
  "buffer_size r = of_nat (length (buffer r))"

definition ReportDrop :: "64 word \<Rightarrow> Status \<Rightarrow> log_reader \<Rightarrow> log_reader" where
  "ReportDrop bytes reason r =
     (if has_reporter r \<and> end_of_buffer_offset r - buffer_size r - bytes \<ge> initial_offset r
      then r\<lparr>reports := reports r @ [(bytes, reason)]\<rparr> else r)"

definition ReportCorruption :: "64 word \<Rightarrow> byte list \<Rightarrow> log_reader \<Rightarrow> log_reader" where
  "ReportCorruption bytes reason r = ReportDrop bytes (Status_Corruption reason []) r"

definition SkipToInitialBlock :: "'f SequentialFile \<Rightarrow> log_reader \<Rightarrow> 'f \<Rightarrow> bool \<times> log_reader \<times> 'f" where
  "SkipToInitialBlock ops r f =
     (let offset_in_block = initial_offset r mod of_nat kBlockSize;
          block_start_location = initial_offset r - offset_in_block;
          block_start_location =
            (if offset_in_block > of_nat kBlockSize - 6 then block_start_location + of_nat kBlockSize
             else block_start_location);
          r = r\<lparr>end_of_buffer_offset := block_start_location\<rparr> in
      if block_start_location > 0 then
        (case Skip_op ops f block_start_location of
           (skip_status, f) \<Rightarrow>
             if \<not> status_ok skip_status then (False, ReportDrop block_start_location skip_status r, f)
             else (True, r, f))
      else (True, r, f))"

text \<open>One turn of the inner loop when the buffer is too short: an answer, or the reader to go on with.\<close>

definition refill :: "'f SequentialFile \<Rightarrow> log_reader \<Rightarrow> 'f \<Rightarrow> (32 word \<times> log_reader \<times> 'f) + (log_reader \<times> 'f)" where
  "refill ops r f =
     (if \<not> eof r then
        (case Read_op ops f kBlockSize [] of
           (status, b, f) \<Rightarrow>
             let r = r\<lparr>buffer := b, end_of_buffer_offset := end_of_buffer_offset r + of_nat (length b)\<rparr> in
             if \<not> status_ok status then
               Inl (kEof, (ReportDrop (of_nat kBlockSize) status (r\<lparr>buffer := []\<rparr>))\<lparr>eof := True\<rparr>, f)
             else if length b < kBlockSize then Inr (r\<lparr>eof := True\<rparr>, f) else Inr (r, f))
      else Inl (kEof, r\<lparr>buffer := []\<rparr>, f))"

definition header_length :: "slice \<Rightarrow> 32 word" where
  "header_length header =
     (let a = scast (header ! 4) AND 0xff :: 32 word; b = scast (header ! 5) AND 0xff in a OR push_bit 8 b)"

text \<open>\<^verbatim>\<open>header[6]\<close> is a (signed) \<^verbatim>\<open>char\<close>.\<close>

definition header_type :: "slice \<Rightarrow> 32 word" where
  "header_type header = scast (header ! 6)"

text \<open>The rest of the inner loop; the slice \<open>result\<close> stays what it was unless it is assigned.\<close>

definition parse_physical :: "slice \<Rightarrow> log_reader \<Rightarrow> 32 word \<times> slice \<times> log_reader" where
  "parse_physical result r =
     (let header = buffer r;
          type = header_type header;
          n = unat (header_length header) in
      if kHeaderSize + n > length (buffer r) then
        (let drop_size = buffer_size r; r = r\<lparr>buffer := []\<rparr> in
         if \<not> eof r then (kBadRecord, result, ReportCorruption drop_size (bytes_of ''bad record length'') r)
         else (kEof, result, r))
      else if type = record_code kZeroType \<and> n = 0 then (kBadRecord, result, r\<lparr>buffer := []\<rparr>)
      else if checksum r \<and>
          crc32c_Value 0 (take (1 + n) (drop 6 header)) \<noteq> Unmask (DecodeFixed32 header) then
        (let drop_size = buffer_size r; r = r\<lparr>buffer := []\<rparr> in
         (kBadRecord, result, ReportCorruption drop_size (bytes_of ''checksum mismatch'') r))
      else
        (let r = r\<lparr>buffer := slice_remove_prefix (buffer r) (kHeaderSize + n)\<rparr> in
         if end_of_buffer_offset r - buffer_size r - of_nat kHeaderSize - of_nat n < initial_offset r
         then (kBadRecord, [], r)
         else (type, take n (drop kHeaderSize header), r)))"

lemma refill_progress: "refill ops r f = Inr (r', f') \<Longrightarrow> \<not> eof r \<and> (eof r' \<or> length (buffer r') \<ge> kHeaderSize)"
  by (auto simp: refill_def Let_def kHeaderSize_def kBlockSize_def split: if_splits prod.splits)

function ReadPhysicalRecord :: "'f SequentialFile \<Rightarrow> slice \<Rightarrow> log_reader \<Rightarrow> 'f \<Rightarrow>
    32 word \<times> slice \<times> log_reader \<times> 'f" where
  "ReadPhysicalRecord ops result r f =
     (if length (buffer r) < kHeaderSize then
        (case refill ops r f of
           Inl (t, r, f) \<Rightarrow> (t, result, r, f)
         | Inr (r, f) \<Rightarrow> ReadPhysicalRecord ops result r f)
      else case parse_physical result r of (t, result, r) \<Rightarrow> (t, result, r, f))"
  by pat_completeness auto
termination
proof (relation "measure (\<lambda>(ops, result, r, f). if \<not> eof r \<and> length (buffer r) < kHeaderSize then 1 else 0)")
  fix ops :: "'f SequentialFile" and result r f x r' f'
  assume short: "length (buffer r) < kHeaderSize" and "refill ops r f = Inr x" and "(r', f') = x"
  then show "((ops, result, r', f'), ops, result, r, f)
      \<in> measure (\<lambda>(ops, result, r, f). if \<not> eof r \<and> length (buffer r) < kHeaderSize then 1 else 0)"
    using refill_progress [of ops r f r' f'] by auto
qed simp

declare ReadPhysicalRecord.simps [simp del]

text \<open>
  The variables of \<^verbatim>\<open>ReadRecord\<close>: the fragment, \<^verbatim>\<open>scratch\<close>, whether a record has begun and where.
  A turn of its loop answers (\<^const>\<open>None\<close> is false), or goes on.
\<close>

record read_vars =
  fragment :: slice
  scratch :: slice
  in_fragmented_record :: bool
  prospective_record_offset :: "64 word"

definition unknown_type :: "32 word \<Rightarrow> byte list" where
  "unknown_type t = take 39 (bytes_of ''unknown record type '' @ decimal (unat t))"

definition partial_record :: "byte list \<Rightarrow> read_vars \<Rightarrow> log_reader \<Rightarrow> log_reader" where
  "partial_record reason v r =
     (if in_fragmented_record v \<and> scratch v \<noteq> []
      then ReportCorruption (of_nat (length (scratch v))) reason r else r)"

definition handle_record :: "32 word \<Rightarrow> 64 word \<Rightarrow> read_vars \<Rightarrow> log_reader \<Rightarrow>
    (slice option \<times> log_reader) + (read_vars \<times> log_reader)" where
  "handle_record record_type physical_record_offset v r =
     (if record_type = record_code kFullType then
        let r = partial_record (bytes_of ''partial record without end(1)'') v r in
        Inl (Some (fragment v), r\<lparr>last_record_offset := physical_record_offset\<rparr>)
      else if record_type = record_code kFirstType then
        let r = partial_record (bytes_of ''partial record without end(2)'') v r in
        Inr (v\<lparr>prospective_record_offset := physical_record_offset, scratch := fragment v,
               in_fragmented_record := True\<rparr>, r)
      else if record_type = record_code kMiddleType then
        if \<not> in_fragmented_record v
        then Inr (v, ReportCorruption (of_nat (length (fragment v)))
                       (bytes_of ''missing start of fragmented record(1)'') r)
        else Inr (v\<lparr>scratch := scratch v @ fragment v\<rparr>, r)
      else if record_type = record_code kLastType then
        if \<not> in_fragmented_record v
        then Inr (v, ReportCorruption (of_nat (length (fragment v)))
                       (bytes_of ''missing start of fragmented record(2)'') r)
        else Inl (Some (scratch v @ fragment v), r\<lparr>last_record_offset := prospective_record_offset v\<rparr>)
      else if record_type = kEof then Inl (None, r)
      else if record_type = kBadRecord then
        if in_fragmented_record v
        then Inr (v\<lparr>in_fragmented_record := False, scratch := []\<rparr>,
                  ReportCorruption (of_nat (length (scratch v))) (bytes_of ''error in middle of record'') r)
        else Inr (v, r)
      else
        Inr (v\<lparr>in_fragmented_record := False, scratch := []\<rparr>,
             ReportCorruption
               (of_nat (length (fragment v) + (if in_fragmented_record v then length (scratch v) else 0)))
               (unknown_type record_type) r))"

definition read_turn :: "'f SequentialFile \<Rightarrow> read_vars \<Rightarrow> log_reader \<Rightarrow> 'f \<Rightarrow>
    (slice option \<times> log_reader \<times> 'f) + (read_vars \<times> log_reader \<times> 'f)" where
  "read_turn ops v r f =
     (case ReadPhysicalRecord ops (fragment v) r f of
        (record_type, frag, r, f) \<Rightarrow>
          let physical_record_offset =
                end_of_buffer_offset r - buffer_size r - of_nat kHeaderSize - of_nat (length frag);
              v = v\<lparr>fragment := frag\<rparr> in
          if resyncing r \<and> record_type = record_code kMiddleType then Inr (v, r, f)
          else if resyncing r \<and> record_type = record_code kLastType then Inr (v, r\<lparr>resyncing := False\<rparr>, f)
          else case handle_record record_type physical_record_offset v (r\<lparr>resyncing := False\<rparr>) of
            Inl (x, r) \<Rightarrow> Inl (x, r, f)
          | Inr (v, r) \<Rightarrow> Inr (v, r, f))"

partial_function (option) read_loop_log :: "'f SequentialFile \<Rightarrow> read_vars \<Rightarrow> log_reader \<Rightarrow> 'f \<Rightarrow>
    (slice option \<times> log_reader \<times> 'f) option" where
  "read_loop_log ops v r f =
     (case read_turn ops v r f of
        Inl res \<Rightarrow> Some res
      | Inr (v, r, f) \<Rightarrow> read_loop_log ops v r f)"

definition start_vars :: read_vars where
  "start_vars = \<lparr>fragment = [], scratch = [], in_fragmented_record = False, prospective_record_offset = 0\<rparr>"

text \<open>\<^const>\<open>None\<close>: the call does not return; \<open>Some (None, \<dots>)\<close>: it returns false.\<close>

definition ReadRecord :: "'f SequentialFile \<Rightarrow> log_reader \<Rightarrow> 'f \<Rightarrow> (slice option \<times> log_reader \<times> 'f) option" where
  "ReadRecord ops r f =
     (case (if last_record_offset r < initial_offset r then SkipToInitialBlock ops r f else (True, r, f)) of
        (skipped, r, f) \<Rightarrow>
          if \<not> skipped then Some (None, r, f) else read_loop_log ops start_vars r f)"

end
