(* ===== verification/Ldb_Log_Facts.thy ===== *)
theory Ldb_Log_Facts
  imports Ldb_Log
begin

text \<open>
  The log is read back as it was written.  The format is stated as a relation between a record and
  its bytes; the writer is shown to produce it, the reader to take it apart, also when the file was
  cut off at any byte.
\<close>

section \<open>The format as a specification\<close>

text \<open>\<open>phys t data\<close> is one physical record; \<open>encodes b data off out off'\<close> says that \<open>out\<close>, written
  at the offset \<open>off\<close> of a block, holds the (rest of the) record \<open>data\<close> and ends at \<open>off'\<close>.\<close>

definition phys :: "RecordType \<Rightarrow> slice \<Rightarrow> byte list" where
  "phys t data = record_header InitTypeCrc t data @ data"

inductive encodes :: "bool \<Rightarrow> slice \<Rightarrow> nat \<Rightarrow> byte list \<Rightarrow> nat \<Rightarrow> bool" where
  final: "off + 7 + length data \<le> 32768 \<Longrightarrow>
    encodes b data off (phys (fragment_type b True) data) (off + 7 + length data)"
| fragment: "off + 7 + length x = 32768 \<Longrightarrow> y \<noteq> [] \<Longrightarrow> encodes False y 32768 out off' \<Longrightarrow>
    encodes b (x @ y) off (phys (fragment_type b False) x @ out) off'"
| trailer: "off \<le> 32768 \<Longrightarrow> 32768 < off + 7 \<Longrightarrow> encodes b data 0 out off' \<Longrightarrow>
    encodes b data off (replicate (32768 - off) 0 @ out) off'"

subsection \<open>One physical record\<close>

lemma length_header [simp]: "length (record_header crcs t data) = 7"
  by (simp add: record_header_def Let_def)

lemma length_phys [simp]: "length (phys t data) = 7 + length data"
  by (simp add: phys_def)

lemma record_code_less: "record_code t < 5"
  by (cases t) simp_all

lemma InitTypeCrc_nth: "InitTypeCrc ! unat (record_code t) = crc32c_spec 0 [ucast (record_code t)]"
proof -
  have "unat kMaxRecordType = 4" by (simp add: kMaxRecordType_def)
  moreover have "unat (record_code t) < 5" by (cases t) simp_all
  ultimately show ?thesis
    by (simp add: InitTypeCrc_def crc32c_Value_def portable_spec nth_append del: upt_Suc)
qed

lemma scast_byte: "(scast b AND 0xff :: 32 word) = ucast (b :: byte)"
proof (rule bit_word_eqI)
  fix n assume "n < LENGTH(32)"
  then show "bit (scast b AND 0xff :: 32 word) n = bit (ucast b :: 32 word) n"
    using bit_imp_le_length [of b n] by (cases "n < 8") (auto simp: byte_mask bit_simps)
qed

lemma two_bytes:
  assumes "n < 65536"
  shows "(ucast (ucast (of_nat n AND 0xff :: 64 word) :: byte) :: 32 word) OR
    push_bit 8 (ucast (ucast (drop_bit 8 (of_nat n :: 64 word)) :: byte)) = of_nat n"
proof -
  let ?w = "of_nat n :: 64 word"
  have "unat ?w = n" using assms by (simp add: unat_of_nat)
  then have "?w < 2 ^ 16" using assms by (simp add: word_less_nat_alt)
  then have z: "drop_bit 16 ?w = 0" by (rule small_drop)
  have "(of_nat n :: 32 word) = ucast ?w" using assms by (simp add: unsigned_of_nat take_bit_nat_eq_self)
  moreover have "(ucast (ucast (?w AND 0xff) :: byte) :: 32 word) OR push_bit 8 (ucast (ucast (drop_bit 8 ?w) :: byte))
      = ucast ?w"
  proof (rule bit_word_eqI)
    fix k assume "k < LENGTH(32)"
    then show "bit ((ucast (ucast (?w AND 0xff) :: byte) :: 32 word) OR push_bit 8 (ucast (ucast (drop_bit 8 ?w) :: byte))) k
        = bit (ucast ?w :: 32 word) k"
      using drop_bit_zero_bit [OF z, of k] by (cases "k < 8") (auto simp: and_255_byte bit_simps)
  qed
  ultimately show ?thesis by simp
qed

lemma phys_header:
  assumes "length data < 65536"
  shows "header_length (phys t data @ rest) = of_nat (length data)"
    and "header_type (phys t data @ rest) = record_code t"
    and "crc32c_Value 0 (take (1 + length data) (drop 6 (phys t data @ rest))) =
      Unmask (DecodeFixed32 (phys t data @ rest))"
proof -
  let ?n = "of_nat (length data) :: 64 word"
  let ?e = "EncodeFixed32 (Mask (Extend (InitTypeCrc ! unat (record_code t)) 0 data))"
  have p: "phys t data @ rest = ?e @ ucast (?n AND 0xff) # ucast (drop_bit 8 ?n) # ucast (record_code t) # data @ rest"
    by (simp add: phys_def record_header_def Let_def)
  show "header_length (phys t data @ rest) = of_nat (length data)"
    unfolding p header_length_def Let_def scast_byte using two_bytes [OF assms] by (simp add: nth_append)
  show "header_type (phys t data @ rest) = record_code t"
    unfolding p header_type_def by (cases t) (simp_all add: nth_append)
  have "DecodeFixed32 (phys t data @ rest) = Mask (Extend (InitTypeCrc ! unat (record_code t)) 0 data)"
    unfolding p by (rule DecodeFixed32_Encode)
  moreover have "drop 6 (phys t data @ rest) = ucast (record_code t) # data @ rest"
    unfolding p by (simp add: drop_append)
  ultimately show "crc32c_Value 0 (take (1 + length data) (drop 6 (phys t data @ rest))) =
      Unmask (DecodeFixed32 (phys t data @ rest))"
    by (simp add: Unmask_Mask crc32c_Value_def portable_spec InitTypeCrc_nth crc32c_spec_append)
qed

text \<open>What a call of the reader leaves alone.\<close>

definition same_settings :: "log_reader \<Rightarrow> log_reader \<Rightarrow> bool" where
  "same_settings r r' \<longleftrightarrow> has_reporter r' = has_reporter r \<and> checksum r' = checksum r \<and>
     initial_offset r' = initial_offset r \<and> resyncing r' = resyncing r \<and> reports r' = reports r"

lemma same_settings_trans: "same_settings a b \<Longrightarrow> same_settings b c \<Longrightarrow> same_settings a c"
  by (simp add: same_settings_def)

lemma unat_of_nat_record: "n < 65536 \<Longrightarrow> unat (of_nat n :: 32 word) = n"
  by (simp add: unat_of_nat)

lemma parse_phys:
  assumes "length data < 65536" and "t \<noteq> kZeroType" and "initial_offset r = 0"
    and "buffer r = phys t data @ rest"
  shows "parse_physical res r = (record_code t, data, r\<lparr>buffer := rest\<rparr>)"
proof -
  have "record_code t \<noteq> 0" using assms(2) by (cases t) simp_all
  then show ?thesis
    using assms(3,4) phys_header [OF assms(1), of t rest] unat_of_nat_record [OF assms(1)]
    by (simp add: parse_physical_def Let_def kHeaderSize_def slice_remove_prefix_def drop_append phys_def)
qed

text \<open>A record whose end is missing at the end of the file.\<close>

lemma parse_cut:
  assumes "length data < 65536" and "eof r" and "buffer r = take m (phys t data)"
    and "7 \<le> m" and "m < 7 + length data"
  shows "parse_physical res r = (kEof, res, r\<lparr>buffer := []\<rparr>)"
proof -
  have "header_length (buffer r) = of_nat (length data)"
  proof -
    have "buffer r ! i = phys t data ! i" if "i < 7" for i using assms that by simp
    then have "header_length (buffer r) = header_length (phys t data @ [])" by (simp add: header_length_def)
    then show ?thesis using phys_header(1) [OF assms(1), of t "[]"] by simp
  qed
  then show ?thesis
    using assms unat_of_nat_record [OF assms(1)] by (simp add: parse_physical_def Let_def kHeaderSize_def)
qed

lemma encodes_offset:
  "encodes b data off out off' \<Longrightarrow> off \<le> 32768 \<and> off' \<le> 32768 \<and> 7 \<le> length out \<and>
    (off + length out) mod 32768 = off' mod 32768"
proof (induction rule: encodes.induct)
  case (final off data b)
  then show ?case by (simp add: add.assoc)
next
  case (fragment off x y out off' b)
  then have eq: "off + length (phys (fragment_type b False) x @ out) = 32768 + length out" by simp
  show ?case unfolding eq using fragment by simp
next
  case (trailer off b data out off')
  then have eq: "off + length (replicate (32768 - off) (0 :: byte) @ out) = 32768 + length out" by simp
  show ?case unfolding eq using trailer by auto
qed

section \<open>The reader\<close>

text \<open>The end of the block the position \<open>pos\<close> lies in.\<close>

definition block_end :: "nat \<Rightarrow> nat" where
  "block_end pos = (pos div 32768 + 1) * 32768"

lemma block_parts:
  obtains q m where "pos = 32768 * q + m" "m < 32768" "block_end pos = 32768 * q + 32768" "pos mod 32768 = m"
proof
  show "pos = 32768 * (pos div 32768) + pos mod 32768" by simp
  show "block_end pos = 32768 * (pos div 32768) + 32768" by (simp add: block_end_def)
qed simp_all

lemma aligned_mult: "e mod 32768 = 0 \<Longrightarrow> \<exists>k. e = 32768 * k" for e :: nat
  by (rule exI [of _ "e div 32768"]) (use div_mult_mod_eq [of e 32768] in simp)

lemma block_end_unique: "pos < e \<Longrightarrow> e \<le> block_end pos \<Longrightarrow> e mod 32768 = 0 \<Longrightarrow> e = block_end pos"
proof -
  assume a: "pos < e" "e \<le> block_end pos" "e mod 32768 = 0"
  obtain k where k: "e = 32768 * k" using a(3) aligned_mult by blast
  obtain q m where q: "pos = 32768 * q + m" "m < 32768" "block_end pos = 32768 * q + 32768"
    by (rule block_parts [of pos])
  have "q < k" "k \<le> q + 1" using a k q by linarith+
  then have "k = q + 1" by simp
  then show ?thesis using k q by simp
qed

lemma block_end_aligned: "e mod 32768 = 0 \<Longrightarrow> block_end e = e + 32768"
  unfolding block_end_def by (metis add.commute div_mult_mod_eq distrib_right mult_1 add_0_right)

lemma block_end_bound: "block_end pos \<le> pos + 32768"
  by (rule block_parts [of pos]) linarith

lemma block_end_mono: "a \<le> b \<Longrightarrow> block_end a \<le> block_end b"
  unfolding block_end_def by (simp add: div_le_mono)

lemma block_end_offset:
  "pos mod 32768 = off mod 32768 \<Longrightarrow> off < 32768 \<Longrightarrow> block_end pos = pos + (32768 - off)"
  by (rule block_parts [of pos]) simp

lemma aligned_within: "a mod 32768 = 0 \<Longrightarrow> b mod 32768 = 0 \<Longrightarrow> a \<le> b \<Longrightarrow> b - a < 32768 \<Longrightarrow> a = (b :: nat)"
proof -
  assume a: "a mod 32768 = 0" "b mod 32768 = 0" "a \<le> b" "b - a < 32768"
  obtain k l where "a = 32768 * k" "b = 32768 * l" using a aligned_mult by metis
  moreover from this have "k \<le> l" "l < k + 1" using a by linarith+
  ultimately show ?thesis by simp
qed

lemma block_end_before:
  assumes "p < pos" and "pos mod 32768 = 0" and "pos - p < 7"
  shows "block_end p = pos"
proof -
  obtain k where k: "pos = 32768 * k" using assms(2) aligned_mult by blast
  obtain q m where q: "p = 32768 * q + m" "m < 32768" "block_end p = 32768 * q + 32768"
    by (rule block_parts [of p])
  have "q < k" "k < q + 2" using assms k q by linarith+
  then have "k = q + 1" by simp
  then show ?thesis using k q by simp
qed

context sequential_file
begin

text \<open>The reader has read the file \<open>F\<close> up to \<open>pos\<close>; what it has buffered ends at \<open>e\<close>.\<close>

definition reader_at :: "byte list \<Rightarrow> nat \<Rightarrow> log_reader \<Rightarrow> 'f \<Rightarrow> bool" where
  "reader_at F pos r f \<longleftrightarrow> good f \<and>
     (\<exists>e. pos \<le> e \<and> e \<le> length F \<and> rest f = drop e F \<and> buffer r = drop pos (take e F) \<and>
       (pos < e \<longrightarrow> e \<le> block_end pos) \<and> (if eof r then e = length F else e mod 32768 = 0))"

text \<open>The next record starts at \<open>pos\<close>, maybe behind the trailer of a block.\<close>

definition reader_before :: "byte list \<Rightarrow> nat \<Rightarrow> log_reader \<Rightarrow> 'f \<Rightarrow> bool" where
  "reader_before F pos r f \<longleftrightarrow>
     (\<exists>p. reader_at F p r f \<and> p \<le> pos \<and> (p = pos \<or> pos mod 32768 = 0 \<and> pos - p < 7))"

lemma reader_at_before: "reader_at F pos r f \<Longrightarrow> reader_before F pos r f"
  unfolding reader_before_def by auto

text \<open>After the reader has filled its buffer, which it does as long as there are bytes.\<close>

lemma refill_at:
  assumes at: "reader_at F p r f" and short: "length (buffer r) < 7"
    and before: "p = pos \<or> pos mod 32768 = 0 \<and> pos - p < 7" and p: "p \<le> pos" and more: "pos + 7 \<le> length F"
    and fits: "pos + 7 \<le> block_end pos"
  shows "\<exists>r' f'. refill ops r f = Inr (r', f') \<and> reader_at F pos r' f' \<and> length (buffer r') \<ge> 7 \<and> same_settings r r'"
proof -
  obtain e where e: "p \<le> e" "e \<le> length F" "rest f = drop e F" "buffer r = drop p (take e F)"
    "p < e \<longrightarrow> e \<le> block_end p" "if eof r then e = length F else e mod 32768 = 0" and good: "good f"
    using at unfolding reader_at_def by blast
  have "e - p < 7" using short e by simp
  then have "e \<noteq> length F" using more p by linarith
  then have no_eof: "\<not> eof r" and e0: "e mod 32768 = 0" using e(6) by (auto split: if_splits)
  have "pos = e"
  proof (cases "p = e")
    case True
    then show ?thesis using before e0 p aligned_within [of p pos] by auto
  next
    case False
    then have end_p: "e = block_end p" using e e0 block_end_unique by simp
    then have "p \<noteq> pos" using fits \<open>e - p < 7\<close> by auto
    then show ?thesis using before p end_p block_end_before [of p pos] by simp
  qed
  obtain f' where rd: "Read_op ops f 32768 [] = (Status_OK, take 32768 (drop e F), f')"
    "rest f' = drop 32768 (drop e F)" "good f'"
    using read_full [OF good, of 32768 "[]"] e(3) by auto
  let ?e' = "min (length F) (e + 32768)"
  let ?r' = "r\<lparr>buffer := take 32768 (drop e F),
      end_of_buffer_offset := end_of_buffer_offset r + of_nat (min (length F - e) 32768),
      eof := length F - e < 32768\<rparr>"
  have fill: "refill ops r f = Inr (?r', f')"
    using no_eof rd by (cases r) (auto simp: refill_def kBlockSize_def Let_def min_def)
  have "reader_at F e ?r' f'"
    unfolding reader_at_def
  proof (intro conjI exI [of _ ?e'])
    show "rest f' = drop ?e' F" using rd(2) by (auto simp: min_def add.commute)
    show "buffer ?r' = drop e (take ?e' F)"
      by (cases "length F \<le> e + 32768") (simp_all add: drop_take)
    show "e < ?e' \<longrightarrow> ?e' \<le> block_end e" using e0 by (simp add: block_end_aligned)
    show "if eof ?r' then ?e' = length F else ?e' mod 32768 = 0"
    proof (cases "length F - e < 32768")
      case False
      then have "?e' = e + 32768" by simp
      then show ?thesis using False e0 by simp
    qed simp
  qed (use rd e in auto)
  moreover have "length (buffer ?r') \<ge> 7" using more \<open>pos = e\<close> by simp
  moreover have "same_settings r ?r'" by (simp add: same_settings_def)
  ultimately show ?thesis using fill \<open>pos = e\<close> by blast
qed

lemma filled:
  assumes "reader_before F pos r f" and "pos + 7 \<le> length F" and "pos + 7 \<le> block_end pos"
  shows "\<exists>r' f'. ReadPhysicalRecord ops res r f =
      (case parse_physical res r' of (t, x, r) \<Rightarrow> (t, x, r, f')) \<and>
    reader_at F pos r' f' \<and> length (buffer r') \<ge> 7 \<and> same_settings r r'"
proof -
  obtain p where p: "reader_at F p r f" "p \<le> pos" "p = pos \<or> pos mod 32768 = 0 \<and> pos - p < 7"
    using assms(1) unfolding reader_before_def by (elim exE conjE) (rule that)
  show ?thesis
  proof (cases "length (buffer r) < 7")
    case True
    obtain r' f' where f: "refill ops r f = Inr (r', f')" "reader_at F pos r' f'"
      "length (buffer r') \<ge> 7" "same_settings r r'"
      using refill_at [OF p(1) True p(3,2) assms(2,3)] by blast
    have "ReadPhysicalRecord ops res r f = ReadPhysicalRecord ops res r' f'"
      using True f(1) by (subst ReadPhysicalRecord.simps) (simp add: kHeaderSize_def)
    also have "\<dots> = (case parse_physical res r' of (t, x, r) \<Rightarrow> (t, x, r, f'))"
      using f(3) by (subst ReadPhysicalRecord.simps) (simp add: kHeaderSize_def)
    finally show ?thesis using f by blast
  next
    case False
    obtain e where e: "p \<le> e" "buffer r = drop p (take e F)" "p < e \<longrightarrow> e \<le> block_end p"
      using p(1) unfolding reader_at_def by blast
    have "e - p \<ge> 7" using False e by simp
    then have "pos = p"
      using e p(2,3) block_end_before [of p pos] by (cases "p = pos") auto
    have "ReadPhysicalRecord ops res r f = (case parse_physical res r of (t, x, r) \<Rightarrow> (t, x, r, f))"
      using False by (subst ReadPhysicalRecord.simps) (simp add: kHeaderSize_def)
    moreover have "same_settings r r" by (simp add: same_settings_def)
    ultimately show ?thesis using False p(1) \<open>pos = p\<close> by (metis not_le_imp_less)
  qed
qed

text \<open>Moving on within the buffer.\<close>

lemma advance:
  assumes at: "reader_at F pos r f" and split: "buffer r = a @ b" and pos': "pos' = pos + length a"
    and block: "pos' \<le> block_end pos"
  shows "reader_at F pos' (r\<lparr>buffer := b\<rparr>) f"
proof -
  obtain e where e: "pos \<le> e" "e \<le> length F" "rest f = drop e F" "buffer r = drop pos (take e F)"
    "pos < e \<longrightarrow> e \<le> block_end pos" "if eof r then e = length F else e mod 32768 = 0" and good: "good f"
    using at unfolding reader_at_def by blast
  have len: "e - pos = length a + length b" using e(2,4) split by (metis length_append length_drop length_take min.absorb2)
  then have "pos' \<le> e" using pos' e(1) by linarith
  moreover have "b = drop pos' (take e F)"
    using split e(4) pos' by (metis append_eq_conv_conj drop_drop add.commute)
  moreover have "pos' < e \<longrightarrow> e \<le> block_end pos'"
  proof
    assume "pos' < e"
    then have "e \<le> block_end pos" using e(5) pos' by simp
    then show "e \<le> block_end pos'" using block_end_mono [of pos pos'] pos' by simp
  qed
  ultimately show ?thesis unfolding reader_at_def using e good by auto
qed

text \<open>The next physical record, wherever the reader stands before it.\<close>

lemma read_phys:
  assumes before: "reader_before F pos r f" and F: "drop pos F = phys t data @ G"
    and fits: "pos + 7 + length data \<le> block_end pos" and t: "t \<noteq> kZeroType" and i: "initial_offset r = 0"
  shows "\<exists>r' f'. ReadPhysicalRecord ops res r f = (record_code t, data, r', f') \<and>
    reader_at F (pos + 7 + length data) r' f' \<and> same_settings r r'"
proof -
  have len: "pos + 7 + length data \<le> length F"
    using arg_cong [OF F, of length] by simp
  obtain r1 f1 where r1: "ReadPhysicalRecord ops res r f = (case parse_physical res r1 of (t, x, r) \<Rightarrow> (t, x, r, f1))"
    "reader_at F pos r1 f1" "length (buffer r1) \<ge> 7" "same_settings r r1"
    using filled [OF before, of res] len fits by force
  obtain e where e: "pos \<le> e" "e \<le> length F" "buffer r1 = drop pos (take e F)"
    "if eof r1 then e = length F else e mod 32768 = 0" "pos < e \<longrightarrow> e \<le> block_end pos"
    using r1(2) unfolding reader_at_def by blast
  have "pos < e" using r1(3) e(1,2,3) by simp
  then have "pos + 7 + length data \<le> e"
    using e(4,5) len fits block_end_unique [of pos e] by (auto split: if_splits)
  then have buf1: "buffer r1 = phys t data @ take (e - pos - (7 + length data)) G"
    using e(3) F by (simp add: drop_take)
  moreover have "length data < 65536" using fits block_end_bound [of pos] by linarith
  ultimately have "parse_physical res r1 = (record_code t, data, r1\<lparr>buffer := take (e - pos - (7 + length data)) G\<rparr>)"
    using t i r1(4) by (intro parse_phys) (simp_all add: same_settings_def)
  moreover have "reader_at F (pos + 7 + length data) (r1\<lparr>buffer := take (e - pos - (7 + length data)) G\<rparr>) f1"
    using fits by (intro advance [OF r1(2) buf1]) simp_all
  ultimately show ?thesis using r1(1,4) by (auto simp: same_settings_def)
qed

text \<open>The end of the file: fewer bytes than a header, or a record whose end is missing.\<close>

lemma read_end:
  assumes good: "good f" and short: "length (buffer r) < 7" and left: "length (rest f) < 7"
  shows "\<exists>r' f'. ReadPhysicalRecord ops res r f = (kEof, res, r', f') \<and> same_settings r r'"
proof (cases "eof r")
  case True
  then show ?thesis using short
    by (subst ReadPhysicalRecord.simps) (simp add: kHeaderSize_def refill_def same_settings_def)
next
  case False
  obtain f' where rd: "Read_op ops f 32768 [] = (Status_OK, rest f, f')"
    using read_full [OF good, of 32768 "[]"] left by auto
  let ?r' = "r\<lparr>buffer := rest f, end_of_buffer_offset := end_of_buffer_offset r + of_nat (length (rest f)),
      eof := True\<rparr>"
  have "refill ops r f = Inr (?r', f')"
    using False rd left by (cases r) (auto simp: refill_def kBlockSize_def Let_def)
  then have "ReadPhysicalRecord ops res r f = ReadPhysicalRecord ops res ?r' f'"
    using short by (subst ReadPhysicalRecord.simps) (simp add: kHeaderSize_def)
  also have "\<dots> = (kEof, res, ?r'\<lparr>buffer := []\<rparr>, f')"
    using left by (subst ReadPhysicalRecord.simps) (simp add: kHeaderSize_def refill_def)
  finally show ?thesis by (simp add: same_settings_def)
qed

lemma read_short:
  assumes before: "reader_before F pos r f" and len: "length F < pos + 7" and pos: "pos \<le> length F"
  shows "\<exists>r' f'. ReadPhysicalRecord ops res r f = (kEof, res, r', f') \<and> same_settings r r'"
proof -
  obtain p where p: "reader_at F p r f" "p \<le> pos" "p = pos \<or> pos mod 32768 = 0 \<and> pos - p < 7"
    using before unfolding reader_before_def by (elim exE conjE) (rule that)
  obtain e where e: "p \<le> e" "e \<le> length F" "rest f = drop e F" "buffer r = drop p (take e F)"
    "p < e \<longrightarrow> e \<le> block_end p" "if eof r then e = length F else e mod 32768 = 0" and good: "good f"
    using p(1) unfolding reader_at_def by blast
  show ?thesis
  proof (cases "p = pos")
    case True
    then show ?thesis using e len by (intro read_end [OF good]) simp_all
  next
    case False
    then have "block_end p = pos" and aligned: "pos mod 32768 = 0" and near: "pos - p < 7"
      using p(2,3) block_end_before [of p pos] by auto
    then have "e \<le> pos" using e(5) p(2) by (cases "p < e") auto
    have "length F - e < 7"
    proof (cases "eof r")
      case True
      then show ?thesis using e(6) by simp
    next
      case no_eof: False
      then have "e mod 32768 = 0" using e(6) by simp
      then have "e = pos" using aligned_within [of e pos] aligned \<open>e \<le> pos\<close> near e(1) by simp
      then show ?thesis using len by simp
    qed
    then show ?thesis using e \<open>e \<le> pos\<close> near by (intro read_end [OF good]) simp_all
  qed
qed

lemma read_cut:
  assumes before: "reader_before F pos r f" and F: "drop pos F = take m (phys t data)"
    and m: "m < 7 + length data" and pos: "pos \<le> length F" and fits: "pos + 7 + length data \<le> block_end pos"
  shows "\<exists>r' f'. ReadPhysicalRecord ops res r f = (kEof, res, r', f') \<and> same_settings r r'"
proof (cases "m < 7")
  case True
  have "length F = pos + m" using arg_cong [OF F, of length] pos m by simp
  then show ?thesis using read_short [OF before] True pos by simp
next
  case False
  have len: "length F = pos + m" using arg_cong [OF F, of length] pos m by simp
  obtain r1 f1 where r1: "ReadPhysicalRecord ops res r f = (case parse_physical res r1 of (t, x, r) \<Rightarrow> (t, x, r, f1))"
    "reader_at F pos r1 f1" "length (buffer r1) \<ge> 7" "same_settings r r1"
    using filled [OF before, of res] len fits False by force
  obtain e where e: "pos \<le> e" "e \<le> length F" "buffer r1 = drop pos (take e F)"
    "if eof r1 then e = length F else e mod 32768 = 0" "pos < e \<longrightarrow> e \<le> block_end pos"
    using r1(2) unfolding reader_at_def by blast
  have "pos < e" using r1(3) e(1,2,3) by simp
  then have "eof r1" using e(2,4,5) len m fits block_end_unique [of pos e] by (auto split: if_splits)
  then have "buffer r1 = take m (phys t data)" using e(3,4) F by simp
  moreover have "length data < 65536" using fits block_end_bound [of pos] by linarith
  ultimately have "parse_physical res r1 = (kEof, res, r1\<lparr>buffer := []\<rparr>)"
    using \<open>eof r1\<close> False m by (intro parse_cut) simp_all
  then show ?thesis using r1(1,4) by (simp add: same_settings_def)
qed

text \<open>One turn of the loop of \<^verbatim>\<open>ReadRecord\<close>.\<close>

lemma turn:
  assumes "ReadPhysicalRecord ops (fragment v) r f = (t, data, r', f')" and "same_settings r r'" and "\<not> resyncing r"
  shows "\<exists>off. read_turn ops v r f =
    (case handle_record t off (v\<lparr>fragment := data\<rparr>) r' of
       Inl (x, r) \<Rightarrow> Inl (x, r, f') | Inr (v, r) \<Rightarrow> Inr (v, r, f'))"
proof -
  have "\<not> resyncing r'" using assms(2,3) by (simp add: same_settings_def)
  then have settled: "r'\<lparr>resyncing := False\<rparr> = r'" by (cases r') simp
  have "read_turn ops v r f =
    (case handle_record t (end_of_buffer_offset r' - buffer_size r' - of_nat kHeaderSize - of_nat (length data))
       (v\<lparr>fragment := data\<rparr>) r' of
       Inl (x, r) \<Rightarrow> Inl (x, r, f') | Inr (v, r) \<Rightarrow> Inr (v, r, f'))"
    using assms(1) \<open>\<not> resyncing r'\<close> by (simp add: read_turn_def Let_def settled)
  then show ?thesis by (rule exI)
qed

lemma loop_eof:
  assumes "\<exists>r' f'. ReadPhysicalRecord ops (fragment v) r f = (kEof, fragment v, r', f') \<and> same_settings r r'"
    and "\<not> resyncing r"
  shows "\<exists>r' f'. read_loop_log ops v r f = Some (None, r', f') \<and> same_settings r r'"
proof -
  obtain r' f' where r': "ReadPhysicalRecord ops (fragment v) r f = (kEof, fragment v, r', f')" "same_settings r r'"
    using assms(1) by blast
  obtain off where "read_turn ops v r f = (case handle_record kEof off (v\<lparr>fragment := fragment v\<rparr>) r' of
       Inl (x, r) \<Rightarrow> Inl (x, r, f') | Inr (v, r) \<Rightarrow> Inr (v, r, f'))"
    using turn [OF r' assms(2)] by blast
  then have "read_turn ops v r f = Inl (None, r', f')"
    by (simp add: handle_record_def kEof_def kMaxRecordType_def)
  then show ?thesis using r'(2) by (subst read_loop_log.simps) simp
qed

text \<open>A last fragment ends the loop, any other leaves it with what was read so far in \<^verbatim>\<open>scratch\<close>.\<close>

lemma loop_final:
  assumes rd: "ReadPhysicalRecord ops (fragment v) r f = (record_code (fragment_type b True), data, r', f')"
    and "same_settings r r'" and "\<not> resyncing r" and b: "in_fragmented_record v = (\<not> b)"
  shows "\<exists>off. read_loop_log ops v r f =
    Some (Some ((if b then [] else scratch v) @ data), r'\<lparr>last_record_offset := off\<rparr>, f')"
proof -
  obtain off where "read_turn ops v r f = (case handle_record (record_code (fragment_type b True)) off (v\<lparr>fragment := data\<rparr>) r' of
       Inl (x, r) \<Rightarrow> Inl (x, r, f') | Inr (v, r) \<Rightarrow> Inr (v, r, f'))"
    using turn [OF rd assms(2,3)] by blast
  then have "\<exists>off. read_turn ops v r f =
      Inl (Some ((if b then [] else scratch v) @ data), r'\<lparr>last_record_offset := off\<rparr>, f')"
    using b by (auto simp: handle_record_def fragment_type_def partial_record_def Let_def)
  then show ?thesis by (subst read_loop_log.simps) auto
qed

lemma loop_fragment:
  assumes rd: "ReadPhysicalRecord ops (fragment v) r f = (record_code (fragment_type b False), data, r', f')"
    and "same_settings r r'" and "\<not> resyncing r" and b: "in_fragmented_record v = (\<not> b)"
  shows "\<exists>v'. read_loop_log ops v r f = read_loop_log ops v' r' f' \<and> in_fragmented_record v' \<and>
    scratch v' = (if b then [] else scratch v) @ data"
proof -
  obtain off where "read_turn ops v r f = (case handle_record (record_code (fragment_type b False)) off (v\<lparr>fragment := data\<rparr>) r' of
       Inl (x, r) \<Rightarrow> Inl (x, r, f') | Inr (v, r) \<Rightarrow> Inr (v, r, f'))"
    using turn [OF rd assms(2,3)] by blast
  then have "\<exists>v'. read_turn ops v r f = Inr (v', r', f') \<and> in_fragmented_record v' \<and>
      scratch v' = (if b then [] else scratch v) @ data"
    using b by (auto simp: handle_record_def fragment_type_def partial_record_def Let_def)
  then show ?thesis by (subst read_loop_log.simps) auto
qed

lemma before_trailer:
  assumes "reader_before F pos r f" and "pos mod 32768 = off mod 32768" and "off \<le> 32768" and "32768 < off + 7"
  shows "reader_before F (pos + (32768 - off)) r f"
proof (cases "off = 32768")
  case True
  then show ?thesis using assms(1) by simp
next
  case False
  then have "pos mod 32768 = off" using assms(2,3) by simp
  obtain p where p: "reader_at F p r f" "p \<le> pos" "p = pos \<or> pos mod 32768 = 0 \<and> pos - p < 7"
    using assms(1) unfolding reader_before_def by (elim exE conjE) (rule that)
  have "p = pos" using p(3) \<open>pos mod 32768 = off\<close> assms(4) by auto
  moreover have "(pos + (32768 - off)) mod 32768 = 0"
    using \<open>pos mod 32768 = off\<close> assms(3) by (metis le_add_diff_inverse mod_add_left_eq mod_self)
  ultimately show ?thesis using p(1) assms(3,4) unfolding reader_before_def
    by (intro exI [of _ p]) auto
qed

theorem read_encoded:
  assumes "encodes b data off out off'" and "length P mod 32768 = off mod 32768"
    and "reader_before (P @ out @ G) (length P) r f" and "initial_offset r = 0" and "\<not> resyncing r"
    and "in_fragmented_record v = (\<not> b)"
  shows "\<exists>r' f'. read_loop_log ops v r f = Some (Some ((if b then [] else scratch v) @ data), r', f') \<and>
    reader_before (P @ out @ G) (length P + length out) r' f' \<and> same_settings r r'"
  using assms
proof (induction arbitrary: P v r f rule: encodes.induct)
  case (final off data b)
  let ?F = "P @ phys (fragment_type b True) data @ G"
  have "drop (length P) ?F = phys (fragment_type b True) data @ G" by simp
  moreover have "length P + 7 + length data \<le> block_end (length P)"
    using final block_end_offset [of "length P" off] by simp
  moreover have "fragment_type b True \<noteq> kZeroType" by (simp add: fragment_type_def)
  ultimately obtain r' f' where r': "ReadPhysicalRecord ops (fragment v) r f = (record_code (fragment_type b True), data, r', f')"
    "reader_at ?F (length P + 7 + length data) r' f'" "same_settings r r'"
    using read_phys [OF final(3), of _ data G "fragment v"] final(4) by blast
  obtain off' where l: "read_loop_log ops v r f =
      Some (Some ((if b then [] else scratch v) @ data), r'\<lparr>last_record_offset := off'\<rparr>, f')"
    using loop_final [OF r'(1,3) final(5,6)] by blast
  have "reader_at ?F (length P + 7 + length data) (r'\<lparr>last_record_offset := off'\<rparr>) f'"
    using r'(2) by (simp add: reader_at_def)
  then show ?case using l r'(3) reader_at_before by (auto simp: same_settings_def add.assoc)
next
  case (fragment off x y out off' b)
  let ?t = "fragment_type b False"
  let ?F = "P @ (phys ?t x @ out) @ G"
  have F: "?F = (P @ phys ?t x) @ out @ G" by simp
  have "drop (length P) ?F = phys ?t x @ (out @ G)" by simp
  moreover have "length P + 7 + length x \<le> block_end (length P)"
    using fragment(1,5) block_end_offset [of "length P" off] by simp
  moreover have "?t \<noteq> kZeroType" by (simp add: fragment_type_def)
  ultimately obtain r' f' where r': "ReadPhysicalRecord ops (fragment v) r f = (record_code ?t, x, r', f')"
    "reader_at ?F (length P + 7 + length x) r' f'" "same_settings r r'"
    using read_phys [OF fragment(6), of _ x "out @ G" "fragment v"] fragment(7) by blast
  obtain v' where v': "read_loop_log ops v r f = read_loop_log ops v' r' f'" "in_fragmented_record v'"
    "scratch v' = (if b then [] else scratch v) @ x"
    using loop_fragment [OF r'(1,3) fragment(8,9)] by blast
  have at: "reader_before ((P @ phys ?t x) @ out @ G) (length (P @ phys ?t x)) r' f'"
    using reader_at_before [OF r'(2)] unfolding F by (simp add: add.assoc)
  have "off + (7 + length x) = 32768" using fragment(1) by simp
  then have "(off + (7 + length x)) mod 32768 = 0" by (metis mod_self)
  then have aligned: "length (P @ phys ?t x) mod 32768 = 32768 mod 32768"
    using mod_add_cong [OF fragment(5) refl, of "7 + length x"] by simp
  have i: "initial_offset r' = 0" "\<not> resyncing r'"
    using r'(3) fragment(7,8) by (simp_all add: same_settings_def)
  have "in_fragmented_record v' = (\<not> False)" using v'(2) by simp
  from fragment(4) [OF aligned at i this]
  obtain r2 f2 where r2: "read_loop_log ops v' r' f' = Some (Some (scratch v' @ y), r2, f2)"
    "reader_before ((P @ phys ?t x) @ out @ G) (length (P @ phys ?t x) + length out) r2 f2" "same_settings r' r2"
    by auto
  have "same_settings r r2" by (rule same_settings_trans [OF r'(3) r2(3)])
  moreover have "scratch v' @ y = (if b then [] else scratch v) @ (x @ y)" using v'(3) by simp
  moreover have "reader_before ?F (length P + length (phys ?t x @ out)) r2 f2"
    using r2(2) unfolding F by (simp add: add.assoc)
  ultimately show ?case using r2(1) v'(1) by metis
next
  case (trailer off b data out off')
  have F: "P @ (replicate (32768 - off) 0 @ out) @ G = (P @ replicate (32768 - off) 0) @ out @ G" by simp
  have at: "reader_before ((P @ replicate (32768 - off) 0) @ out @ G) (length (P @ replicate (32768 - off) (0 :: byte))) r f"
    using before_trailer [OF trailer(6,5,1,2)] unfolding F by simp
  have "length (P @ replicate (32768 - off) (0 :: byte)) mod 32768 = 0 mod 32768"
    using mod_add_cong [OF trailer(5) refl, of "32768 - off"] trailer(1) by simp
  from trailer(4) [OF this at trailer(7,8,9)] show ?case by (auto simp: add.assoc)
qed

text \<open>A record cut off by the end of the file is not delivered, and nothing is reported.\<close>

theorem read_cut_record:
  assumes "encodes b data off out off'" and "length P mod 32768 = off mod 32768" and "n < length out"
    and "reader_before (P @ take n out) (length P) r f" and "initial_offset r = 0" and "\<not> resyncing r"
    and "in_fragmented_record v = (\<not> b)"
  shows "\<exists>r' f'. read_loop_log ops v r f = Some (None, r', f') \<and> same_settings r r'"
  using assms
proof (induction arbitrary: P n v r f rule: encodes.induct)
  case (final off data b)
  let ?p = "phys (fragment_type b True) data"
  have fits: "length P + 7 + length data \<le> block_end (length P)"
    using final block_end_offset [of "length P" off] by simp
  have "drop (length P) (P @ take n ?p) = take n ?p" by simp
  from read_cut [OF final(4) this _ _ fits, of "fragment v"] show ?case
    using final(3,6) by (intro loop_eof) simp_all
next
  case (fragment off x y out off' b)
  let ?t = "fragment_type b False"
  have fits: "length P + 7 + length x \<le> block_end (length P)"
    using fragment(1,5) block_end_offset [of "length P" off] by simp
  show ?case
  proof (cases "n < 7 + length x")
    case True
    then have "drop (length P) (P @ take n (phys ?t x @ out)) = take n (phys ?t x)" by simp
    from read_cut [OF fragment(7) this True _ fits, of "fragment v"] show ?thesis
      using fragment(9) by (intro loop_eof) simp_all
  next
    case False
    define m where "m = n - (7 + length x)"
    have F: "P @ take n (phys ?t x @ out) = (P @ phys ?t x) @ take m out"
      using False by (simp add: m_def)
    have d: "drop (length P) (P @ take n (phys ?t x @ out)) = phys ?t x @ take m out" unfolding F by simp
    have "?t \<noteq> kZeroType" by (simp add: fragment_type_def)
    from read_phys [OF fragment(7) d fits this fragment(8), of "fragment v"]
    obtain r' f' where r': "ReadPhysicalRecord ops (fragment v) r f = (record_code ?t, x, r', f')"
      "reader_at (P @ take n (phys ?t x @ out)) (length P + 7 + length x) r' f'" "same_settings r r'" by blast
    obtain v' where v': "read_loop_log ops v r f = read_loop_log ops v' r' f'" "in_fragmented_record v'"
      using loop_fragment [OF r'(1,3) fragment(9,10)] by blast
    have at: "reader_before ((P @ phys ?t x) @ take m out) (length (P @ phys ?t x)) r' f'"
      using reader_at_before [OF r'(2)] unfolding F by (simp add: add.assoc)
    have "off + (7 + length x) = 32768" using fragment(1) by simp
    then have "(off + (7 + length x)) mod 32768 = 0" by (metis mod_self)
    then have aligned: "length (P @ phys ?t x) mod 32768 = 32768 mod 32768"
      using mod_add_cong [OF fragment(5) refl, of "7 + length x"] by simp
    have i: "initial_offset r' = 0" "\<not> resyncing r'"
      using r'(3) fragment(8,9) by (simp_all add: same_settings_def)
    have "m < length out" using False fragment(6) by (simp add: m_def)
    moreover have "in_fragmented_record v' = (\<not> False)" using v'(2) by simp
    ultimately obtain r2 f2 where "read_loop_log ops v' r' f' = Some (None, r2, f2)" "same_settings r' r2"
      using fragment(4) [OF aligned _ at i] by blast
    then show ?thesis using v'(1) same_settings_trans [OF r'(3)] by auto
  qed
next
  case (trailer off b data out off')
  let ?z = "replicate (32768 - off) (0 :: byte)"
  show ?case
  proof (cases "n < 32768 - off")
    case True
    then have "length (P @ take n (?z @ out)) < length P + 7" using trailer(1,2) by simp
    from read_short [OF trailer(7) this, of "fragment v"] show ?thesis
      using trailer(9) by (intro loop_eof) simp_all
  next
    case False
    define m where "m = n - (32768 - off)"
    have F: "P @ take n (?z @ out) = (P @ ?z) @ take m out" using False by (simp add: m_def)
    have at: "reader_before ((P @ ?z) @ take m out) (length (P @ ?z)) r f"
      using before_trailer [OF trailer(7,5,1,2)] unfolding F by simp
    have aligned: "length (P @ ?z) mod 32768 = 0 mod 32768"
      using mod_add_cong [OF trailer(5) refl, of "32768 - off"] trailer(1) by simp
    have "m < length out" using False trailer(6) by (simp add: m_def)
    from trailer(4) [OF aligned this at trailer(8,9,10)] show ?thesis .
  qed
qed

end

section \<open>The writer\<close>

context writable_file
begin

lemma emit_ok:
  assumes "EmitPhysicalRecord ops t data w d = (s, w', d')" and "good d" and "status_ok s"
    and "type_crc w = InitTypeCrc"
  shows "all d' = all d @ phys t data" and "durable d' = all d'" and "good d'"
    and "type_crc w' = InitTypeCrc" and "block_offset w' = block_offset w + int (7 + length data)"
proof -
  obtain s1 d1 where a1: "Append_op ops d (record_header (type_crc w) t data) = (s1, d1)" by fastforce
  obtain s2 d2 where a2: "Append_op ops d1 data = (s2, d2)" by fastforce
  have ok: "status_ok s1" "status_ok s2" and fl: "Flush_op ops d2 = (s, d')"
    using assms(1,3) a1 a2 by (auto simp: EmitPhysicalRecord_def split: prod.splits if_splits)
  note g1 = append_good [OF assms(2) a1] and f1 = append_all [OF assms(2) a1 ok(1)]
  note g2 = append_good [OF g1 a2] and f2 = append_all [OF g1 a2 ok(2)]
  note fl' = flush_all [OF g2 fl assms(3)]
  show "all d' = all d @ phys t data" "durable d' = all d'" "good d'"
    using f1 f2 fl' flush_good [OF g2 fl] assms(4) by (simp_all add: phys_def)
  show "type_crc w' = InitTypeCrc" "block_offset w' = block_offset w + int (7 + length data)"
    using Emit_offset [OF assms(1)] assms(4) by simp_all
qed

lemma switch_ok:
  assumes "switch_block ops w d = (w1, d1)" and "good d" and "durable d = all d"
    and "block_offset w = int off" and "off \<le> 32768"
  shows "good d1 \<and> type_crc w1 = type_crc w \<and>
    (if 32768 < off + 7 then block_offset w1 = 0 \<and> all d1 = all d @ replicate (32768 - off) 0
     else block_offset w1 = int off \<and> all d1 = all d)"
proof -
  have room: "int kBlockSize - block_offset w = int (32768 - off)"
    using assms(4,5) by (simp add: kBlockSize_def)
  consider "off + 7 \<le> 32768" | "off = 32768" | "32768 < off + 7" "off < 32768" using assms(5) by linarith
  then show ?thesis
  proof cases
    case 3
    let ?z = "replicate (32768 - off) 0"
    obtain s1 e1 where a: "Append_op ops d ?z = (s1, e1)" by fastforce
    have "status_ok s1" using append_small [OF assms(2,3), of ?z] a 3 by simp
    then have "all e1 = all d @ ?z" "good e1" using append_all [OF assms(2) a] append_good [OF assms(2) a] by auto
    moreover have "nat (32768 - int off) = 32768 - off" by simp
    ultimately show ?thesis using 3 a assms(1) room by (auto simp: switch_block_def Let_def kHeaderSize_def)
  qed (use assms(1,2,4) room in \<open>auto simp: switch_block_def Let_def kHeaderSize_def\<close>)
qed

text \<open>What the loop appends is the encoding of the record.\<close>

theorem add_loop_encodes:
  assumes "add_loop ops b data w d = (s, w', d')" and "status_ok s" and "good d" and "durable d = all d"
    and "block_offset w = int off" and "off \<le> 32768" and "type_crc w = InitTypeCrc"
  shows "\<exists>out off'. encodes b data off out off' \<and> all d' = all d @ out \<and> durable d' = all d' \<and> good d' \<and>
    block_offset w' = int off' \<and> type_crc w' = InitTypeCrc"
  using assms
proof (induction "2 * length data + (if block_offset w = 32761 then 1 else 0)"
    arbitrary: b data w d off rule: less_induct)
  case less
  obtain w1 d1 where sw: "switch_block ops w d = (w1, d1)" by fastforce
  define off1 where "off1 = (if 32768 < off + 7 then 0 else off)"
  define pad where "pad = (if 32768 < off + 7 then replicate (32768 - off) (0 :: byte) else [])"
  have sw': "good d1" "type_crc w1 = InitTypeCrc" "block_offset w1 = int off1" "all d1 = all d @ pad"
    using switch_ok [OF sw less(4,5,6,7)] less(8) by (auto simp: off1_def pad_def split: if_splits)
  have off1: "off1 + 7 \<le> 32768" by (simp add: off1_def)
  have lift: "encodes b data off (pad @ out) off'" if "encodes b data off1 out off'" for out off'
    using that encodes.trailer [of off b data out off'] less(7) by (simp add: off1_def pad_def split: if_splits)
  define n where "n = min (length data) (32768 - off1 - 7)"
  have n: "(if length data < nat (int kBlockSize - block_offset w1 - int kHeaderSize) then length data
      else nat (int kBlockSize - block_offset w1 - int kHeaderSize)) = n"
    using off1 sw'(3) by (auto simp: n_def kBlockSize_def kHeaderSize_def min_def)
  let ?t = "fragment_type b (length data = n)"
  obtain s2 w2 d2 where em: "EmitPhysicalRecord ops ?t (take n data) w1 d1 = (s2, w2, d2)"
    by (metis prod_cases3)
  have step: "add_loop ops b data w d =
      (if status_ok s2 \<and> length data - n > 0 then add_loop ops False (drop n data) w2 d2 else (s2, w2, d2))"
    by (subst add_loop.simps) (simp add: sw n em Let_def del: length_take)
  have ok: "status_ok s2" using step less(2,3) by (auto split: if_splits)
  note e = emit_ok [OF em sw'(1) ok sw'(2)]
  have len: "length (take n data) = n" by (simp add: n_def)
  show ?case
  proof (cases "length data - n > 0")
    case False
    then have whole: "n = length data" by (simp add: n_def)
    then have fits: "off1 + 7 + length data \<le> 32768" using off1 by (simp add: n_def min_def split: if_splits)
    have out: "encodes b data off1 (phys (fragment_type b True) data) (off1 + 7 + length data)"
      by (rule encodes.final [OF fits])
    show ?thesis
      using lift [OF out] e sw' step less(2) False whole by (intro exI conjI) auto
  next
    case True
    have n': "off1 + 7 + n = 32768" using True off1 by (simp add: n_def min_def split: if_splits)
    have rest: "add_loop ops False (drop n data) w2 d2 = (s, w', d')" using step ok True less(2) by simp
    have off2: "block_offset w2 = int 32768" using e(5) sw'(3) len n' by simp
    have smaller: "2 * length (drop n data) + (if block_offset w2 = 32761 then 1 else 0)
        < 2 * length data + (if block_offset w = 32761 then 1 else 0)"
    proof (cases "n = 0")
      case True
      then have "off1 = 32761" using n' by simp
      then have "block_offset w = 32761" using less(6) by (auto simp: off1_def split: if_splits)
      then show ?thesis using off2 True by simp
    next
      case False
      then show ?thesis using True off2 by simp
    qed
    from less(1) [OF smaller rest less(3) e(3,2) off2 _ e(4)]
    obtain out off' where r: "encodes False (drop n data) 32768 out off'" "all d' = all d2 @ out"
      "durable d' = all d'" "good d'" "block_offset w' = int off'" "type_crc w' = InitTypeCrc"
      by auto
    have "encodes b (take n data @ drop n data) off1 (phys (fragment_type b False) (take n data) @ out) off'"
      using n' len True r(1) by (intro encodes.fragment) auto
    moreover have "?t = fragment_type b False" using True by auto
    ultimately show ?thesis
      using lift [of "phys ?t (take n data) @ out" off'] e(1) sw'(4) r by (intro exI conjI) auto
  qed
qed

end

section \<open>Logs of many records\<close>

primrec add_records :: "'s WritableFile \<Rightarrow> slice list \<Rightarrow> log_writer \<Rightarrow> 's \<Rightarrow> Status \<times> log_writer \<times> 's" where
  "add_records ops [] w d = (Status_OK, w, d)"
| "add_records ops (x # xs) w d =
     (case AddRecord ops x w d of
        (s, w, d) \<Rightarrow> if status_ok s then add_records ops xs w d else (s, w, d))"

text \<open>At most \<open>n\<close> calls of \<^const>\<open>ReadRecord\<close>, until one answers false.\<close>

primrec read_records :: "'f SequentialFile \<Rightarrow> nat \<Rightarrow> log_reader \<Rightarrow> 'f \<Rightarrow> (slice list \<times> log_reader \<times> 'f) option" where
  "read_records ops 0 r f = Some ([], r, f)"
| "read_records ops (Suc n) r f =
     (case ReadRecord ops r f of
        None \<Rightarrow> None
      | Some (None, r, f) \<Rightarrow> Some ([], r, f)
      | Some (Some x, r, f) \<Rightarrow> map_option (\<lambda>(xs, r, f). (x # xs, r, f)) (read_records ops n r f))"

inductive encodes_all :: "slice list \<Rightarrow> nat \<Rightarrow> byte list \<Rightarrow> nat \<Rightarrow> bool" where
  none: "off \<le> 32768 \<Longrightarrow> encodes_all [] off [] off"
| more: "encodes True x off out off' \<Longrightarrow> encodes_all xs off' outs off'' \<Longrightarrow>
    encodes_all (x # xs) off (out @ outs) off''"

lemma encodes_all_end: "encodes_all xs off out off' \<Longrightarrow> off' \<le> 32768"
  by (induction rule: encodes_all.induct) simp_all

context writable_file
begin

lemma add_records_encodes:
  assumes "add_records ops xs w d = (s, w', d')" and "status_ok s" and "good d" and "durable d = all d"
    and "block_offset w = int off" and "off \<le> 32768" and "type_crc w = InitTypeCrc"
  shows "\<exists>out off'. encodes_all xs off out off' \<and> all d' = all d @ out \<and> durable d' = all d' \<and> good d' \<and>
    block_offset w' = int off' \<and> type_crc w' = InitTypeCrc"
  using assms
proof (induction xs arbitrary: w d off)
  case Nil
  then show ?case using encodes_all.none [of off] by auto
next
  case (Cons x xs)
  obtain s1 w1 d1 where a: "AddRecord ops x w d = (s1, w1, d1)" by (metis prod_cases3)
  have ok: "status_ok s1" and rest: "add_records ops xs w1 d1 = (s, w', d')"
    using Cons.prems(1,2) a by (auto split: if_splits)
  obtain out off' where e: "encodes True x off out off'" "all d1 = all d @ out" "durable d1 = all d1"
    "good d1" "block_offset w1 = int off'" "type_crc w1 = InitTypeCrc"
    using add_loop_encodes [OF a [unfolded AddRecord_def] ok Cons.prems(3-7)] by blast
  have "off' \<le> 32768" using encodes_offset [OF e(1)] by simp
  from Cons.IH [OF rest Cons.prems(2) e(4,3,5) this e(6)]
  obtain outs off'' where "encodes_all xs off' outs off''" "all d' = all d1 @ outs" "durable d' = all d'" "good d'"
    "block_offset w' = int off''" "type_crc w' = InitTypeCrc"
    by blast
  then show ?case using encodes_all.more [OF e(1)] e(2) by (metis append.assoc)
qed

end

context sequential_file
begin

lemma ReadRecord_loop: "initial_offset r = 0 \<Longrightarrow> ReadRecord ops r f = read_loop_log ops start_vars r f"
  by (simp add: ReadRecord_def)

text \<open>All records are read back; then the end of the file is answered, and nothing is reported.\<close>

lemma read_all:
  assumes "encodes_all xs off out off'" and "length P mod 32768 = off mod 32768"
    and "reader_before (P @ out) (length P) r f" and "initial_offset r = 0" and "\<not> resyncing r"
  shows "\<exists>r' f'. read_records ops (Suc (length xs)) r f = Some (xs, r', f') \<and> reports r' = reports r"
  using assms
proof (induction arbitrary: P r f rule: encodes_all.induct)
  case (none off)
  have "length (P @ []) < length P + 7" "length P \<le> length (P @ [])" by simp_all
  from read_short [OF none(3) this, of "fragment start_vars"] none(4,5)
  obtain r' f' where "read_loop_log ops start_vars r f = Some (None, r', f')" "same_settings r r'"
    using loop_eof [of start_vars r f] by blast
  then show ?case using none(4) by (auto simp: ReadRecord_loop same_settings_def)
next
  case (more x off out off' xs outs off'')
  have b: "reader_before (P @ out @ outs) (length P) r f" using more(5) by simp
  have v: "in_fragmented_record start_vars = (\<not> True)" by (simp add: start_vars_def)
  from read_encoded [OF more(1,4) b more(6,7) v]
  obtain r' f' where r': "read_loop_log ops start_vars r f = Some (Some x, r', f')"
    "reader_before (P @ out @ outs) (length P + length out) r' f'" "same_settings r r'" by auto
  have at: "reader_before ((P @ out) @ outs) (length (P @ out)) r' f'" using r'(2) by simp
  have aligned: "length (P @ out) mod 32768 = off' mod 32768"
    using mod_add_cong [OF more(4) refl, of "length out"] encodes_offset [OF more(1)] by simp
  have i: "initial_offset r' = 0" "\<not> resyncing r'" using r'(3) more(6,7) by (simp_all add: same_settings_def)
  obtain r2 f2 where "read_records ops (Suc (length xs)) r' f' = Some (xs, r2, f2)" "reports r2 = reports r'"
    using more(3) [OF aligned at i] by blast
  then show ?case using r' more(6) by (simp add: ReadRecord_loop same_settings_def)
qed

text \<open>Of a file cut off anywhere a prefix of the records is read, and nothing is reported.\<close>

lemma read_prefix:
  assumes "encodes_all xs off out off'" and "length P mod 32768 = off mod 32768"
    and "reader_before (P @ take n out) (length P) r f" and "initial_offset r = 0" and "\<not> resyncing r"
  shows "\<exists>k r' f'. read_records ops (Suc (length xs)) r f = Some (take k xs, r', f') \<and> reports r' = reports r"
  using assms
proof (induction arbitrary: P n r f rule: encodes_all.induct)
  case (none off)
  then show ?case using read_all [OF encodes_all.none, of off P r f] by force
next
  case (more x off out off' xs outs off'')
  have v: "in_fragmented_record start_vars = (\<not> True)" by (simp add: start_vars_def)
  show ?case
  proof (cases "n < length out")
    case True
    have "reader_before (P @ take n out) (length P) r f" using more(5) True by simp
    from read_cut_record [OF more(1,4) True this more(6,7) v]
    obtain r' f' where "read_loop_log ops start_vars r f = Some (None, r', f')" "same_settings r r'" by blast
    then show ?thesis using more(6) by (intro exI [of _ 0]) (simp add: ReadRecord_loop same_settings_def)
  next
    case False
    define m where "m = n - length out"
    have b: "reader_before (P @ out @ take m outs) (length P) r f" using more(5) False by (simp add: m_def)
    from read_encoded [OF more(1,4) b more(6,7) v]
    obtain r' f' where r': "read_loop_log ops start_vars r f = Some (Some x, r', f')"
      "reader_before (P @ out @ take m outs) (length P + length out) r' f'" "same_settings r r'" by auto
    have at: "reader_before ((P @ out) @ take m outs) (length (P @ out)) r' f'" using r'(2) by simp
    have aligned: "length (P @ out) mod 32768 = off' mod 32768"
      using mod_add_cong [OF more(4) refl, of "length out"] encodes_offset [OF more(1)] by simp
    have i: "initial_offset r' = 0" "\<not> resyncing r'" using r'(3) more(6,7) by (simp_all add: same_settings_def)
    obtain k r2 f2 where "read_records ops (Suc (length xs)) r' f' = Some (take k xs, r2, f2)" "reports r2 = reports r'"
      using more(3) [OF aligned at i] by blast
    then show ?thesis using r' more(6) by (intro exI [of _ "Suc k"]) (simp add: ReadRecord_loop same_settings_def)
  qed
qed

text \<open>What was written before stays readable whatever is cut off behind it.\<close>

lemma read_survivors:
  assumes "encodes_all xs off out off'" and "encodes_all ys off' out' off''"
    and "length P mod 32768 = off mod 32768"
    and "reader_before (P @ out @ take n out') (length P) r f" and "initial_offset r = 0" and "\<not> resyncing r"
  shows "\<exists>k r' f'. read_records ops (Suc (length xs + length ys)) r f = Some (xs @ take k ys, r', f') \<and>
    reports r' = reports r"
  using assms
proof (induction arbitrary: P r f rule: encodes_all.induct)
  case (none off)
  then show ?case using read_prefix [OF none(2,3)] by simp
next
  case (more x off out off' xs outs off3)
  have b: "reader_before (P @ out @ (outs @ take n out')) (length P) r f" using more(6) by simp
  have v: "in_fragmented_record start_vars = (\<not> True)" by (simp add: start_vars_def)
  from read_encoded [OF more(1,5) b more(7,8) v]
  obtain r' f' where r': "read_loop_log ops start_vars r f = Some (Some x, r', f')"
    "reader_before (P @ out @ (outs @ take n out')) (length P + length out) r' f'" "same_settings r r'" by auto
  have at: "reader_before ((P @ out) @ outs @ take n out') (length (P @ out)) r' f'" using r'(2) by simp
  have aligned: "length (P @ out) mod 32768 = off' mod 32768"
    using mod_add_cong [OF more(5) refl, of "length out"] encodes_offset [OF more(1)] by simp
  have i: "initial_offset r' = 0" "\<not> resyncing r'" using r'(3) more(7,8) by (simp_all add: same_settings_def)
  obtain k r2 f2 where "read_records ops (Suc (length xs + length ys)) r' f' = Some (xs @ take k ys, r2, f2)"
    "reports r2 = reports r'"
    using more(3) [OF more(4) aligned at i] by blast
  then show ?case using r' more(7) by (intro exI [of _ k]) (simp add: ReadRecord_loop same_settings_def)
qed

lemma start_at:
  assumes "good f" and "rest f = F"
  shows "reader_before F 0 (new_Reader rep check 0) f"
  using assms by (intro reader_at_before) (auto simp: reader_at_def new_Reader_def intro!: exI [of _ 0])

end

section \<open>Damaged records\<close>

lemma parse_checked:
  assumes "parse_physical res r = (t, data, r')" and "checksum r" and "t \<noteq> kEof" and "t \<noteq> kBadRecord"
  shows "Unmask (DecodeFixed32 (buffer r)) = crc32c_spec 0 (buffer r ! 6 # data) \<and> header_type (buffer r) = t \<and>
    data = take (unat (header_length (buffer r))) (drop 7 (buffer r)) \<and> 7 + length data \<le> length (buffer r)"
proof -
  let ?b = "buffer r" and ?n = "unat (header_length (buffer r))"
  have len: "7 + ?n \<le> length ?b" and crc: "crc32c_Value 0 (take (1 + ?n) (drop 6 ?b)) = Unmask (DecodeFixed32 ?b)"
    and out: "t = header_type ?b" "data = take ?n (drop 7 ?b)"
    using assms by (auto simp: parse_physical_def Let_def kHeaderSize_def split: if_splits)
  have "drop 6 ?b = ?b ! 6 # drop 7 ?b" using len Cons_nth_drop_Suc [of 6 ?b] by (simp add: numeral_eq_Suc)
  then have "take (1 + ?n) (drop 6 ?b) = ?b ! 6 # data" using out by simp
  then show ?thesis using len crc out by (simp add: crc32c_Value_def portable_spec)
qed

lemma refill_settings:
  "refill ops r f = Inr (r', f') \<Longrightarrow> checksum r' = checksum r"
  by (auto simp: refill_def Let_def split: prod.splits if_splits)

lemma refill_type: "refill ops r f = Inl (t, r', f') \<Longrightarrow> t = kEof"
  by (auto simp: refill_def Let_def split: prod.splits if_splits)

section \<open>A healthy kernel\<close>

lemma emit_healthy:
  assumes "EmitPhysicalRecord posix_writable t data w d = (s, w', d')" and "healthy d"
  shows "status_ok s \<and> healthy d'"
proof -
  obtain s1 d1 where a1: "Posix_Append d (record_header (type_crc w) t data) = (s1, d1)" by fastforce
  obtain s2 d2 where a2: "Posix_Append d1 data = (s2, d2)" by fastforce
  obtain s3 d3 where a3: "FlushBuffer d2 = (s3, d3)" by fastforce
  note h1 = Posix_Append_healthy [OF assms(2) a1]
  note h2 = Posix_Append_healthy [OF conjunct2 [OF h1] a2]
  note h3 = FlushBuffer_healthy [OF conjunct2 [OF h2] a3]
  have "s = s3 \<and> d' = d3"
    using assms(1) a1 a2 a3 h1 h2 by (simp add: EmitPhysicalRecord_def posix_writable_def Posix_Flush_def)
  then show ?thesis using h3 by simp
qed

lemma switch_healthy: "healthy d \<Longrightarrow> switch_block posix_writable w d = (w1, d1) \<Longrightarrow> healthy d1"
  using Posix_Append_healthy
  by (auto simp: switch_block_def posix_writable_def Let_def split: if_splits)
    (metis prod.collapse)

lemma add_loop_healthy:
  "healthy d \<Longrightarrow> ops = posix_writable \<Longrightarrow> add_loop ops b data w d = (s, w', d') \<Longrightarrow> status_ok s \<and> healthy d'"
proof (induction ops b data w d rule: add_loop.induct)
  case (1 ops b data w d)
  obtain w1 d1 where sw: "switch_block ops w d = (w1, d1)" by fastforce
  define n where "n = (if length data < nat (int kBlockSize - block_offset w1 - int kHeaderSize) then length data
      else nat (int kBlockSize - block_offset w1 - int kHeaderSize))"
  obtain s2 w2 d2 where em: "EmitPhysicalRecord ops (fragment_type b (length data = n)) (take n data) w1 d1 = (s2, w2, d2)"
    by (metis prod_cases3)
  have h: "status_ok s2" "healthy d2"
    using emit_healthy em switch_healthy [of d w w1 d1] sw 1(2,3) by blast+
  have step: "add_loop ops b data w d =
      (if status_ok s2 \<and> length data - n > 0 then add_loop ops False (drop n data) w2 d2 else (s2, w2, d2))"
    by (subst add_loop.simps) (simp add: sw em Let_def flip: n_def del: length_take)
  show ?case
  proof (cases "length data - n > 0")
    case True
    from 1(1) [OF refl sw [symmetric] refl n_def refl em [symmetric] refl refl] h True
    show ?thesis using step 1(3,4) by simp
  qed (use h step 1(4) in auto)
qed

lemma add_records_healthy:
  "healthy d \<Longrightarrow> add_records posix_writable xs w d = (s, w', d') \<Longrightarrow> status_ok s \<and> healthy d'"
proof (induction xs arbitrary: w d)
  case (Cons x xs)
  obtain s1 w1 d1 where a: "AddRecord posix_writable x w d = (s1, w1, d1)" by (metis prod_cases3)
  have "status_ok s1 \<and> healthy d1"
    using add_loop_healthy [OF Cons.prems(1) refl] a by (simp add: AddRecord_def)
  then show ?case using Cons.IH [of d1 w1] Cons.prems(2) a by auto
qed simp

definition empty_file :: "answer list \<Rightarrow> PosixWritableFile" where
  "empty_file as = new_PosixWritableFile (bytes_of ''000003.log'') 3 [] \<lparr>answers = as, strerror = \<lambda>_. []\<rparr>"

lemma empty_file_simps [simp]: "disk (empty_file as) = []" "buf (empty_file as) = []"
  by (simp_all add: empty_file_def new_PosixWritableFile_def)

lemma empty_file_healthy [simp]: "healthy (empty_file [Done 3, Failed EINTR])"
  by (simp add: healthy_def empty_file_def new_PosixWritableFile_def)

section \<open>Properties\<close>

lemma new_Writer_start: "block_offset new_Writer = int 0" "type_crc new_Writer = InitTypeCrc"
  by (simp_all add: new_Writer_def)

text \<open>C11: when every \<^verbatim>\<open>AddRecord\<close> to a new POSIX file answered OK, a reader of that file returns
  exactly the records, in order and however they were cut into fragments and blocks, then the end of
  the file, and reports no corruption.\<close>

theorem log_roundtrip:
  assumes "add_records posix_writable xs new_Writer d = (s, w, d')" and "status_ok s"
    and "disk d = []" and "buf d = []" and "only_interrupted f" and "seq_rest f = disk d'"
  shows "\<exists>r' f'. read_records posix_sequential (Suc (length xs)) (new_Reader reporter check 0) f =
    Some (xs, r', f') \<and> reports r' = []"
proof -
  have "buffer_ok d" "disk d = contents d" using assms(3,4) by (simp_all add: buffer_ok_def contents_def)
  from posix_w.add_records_encodes [OF assms(1,2) this new_Writer_start(1) _ new_Writer_start(2)]
  obtain out off' where e: "encodes_all xs 0 out off'" "disk d' = out"
    using assms(3,4) by (auto simp: contents_def)
  have "posix_r.reader_before ([] @ out) (length ([] :: byte list)) (new_Reader reporter check 0) f"
    using posix_r.start_at [OF assms(5)] assms(6) e(2) by simp
  from posix_r.read_all [OF e(1) _ this] show ?thesis by (simp add: new_Reader_def)
qed

lemma log_roundtrip_witness:
  "\<exists>(d' :: PosixWritableFile) r' f'. status_ok (fst (add_records posix_writable [[65, 66], []] new_Writer (empty_file [Done 3, Failed EINTR]))) \<and>
    read_records posix_sequential 3 (new_Reader True True 0)
      \<lparr>seq_name = [], seq_rest = disk d', seq_kern = \<lparr>answers = [Failed EINTR], strerror = \<lambda>_. []\<rparr>\<rparr> =
    Some ([[65, 66], []], r', f') \<and> reports r' = []"
proof -
  obtain s w d' where a: "add_records posix_writable [[65, 66], []] new_Writer (empty_file [Done 3, Failed EINTR]) = (s, w, d')"
    by (metis prod_cases3)
  have ok: "status_ok s" using add_records_healthy [OF empty_file_healthy a] by simp
  let ?f = "\<lparr>seq_name = [], seq_rest = disk d', seq_kern = \<lparr>answers = [Failed EINTR], strerror = \<lambda>_. []\<rparr>\<rparr>"
  have "only_interrupted ?f" "seq_rest ?f = disk d'" by (simp_all add: only_interrupted_def)
  from log_roundtrip [OF a ok empty_file_simps this, of True True]
  obtain r' f' where rd: "read_records posix_sequential (Suc (length [[65, 66 :: byte], []])) (new_Reader True True 0) ?f =
      Some ([[65, 66], []], r', f')" "reports r' = []" by blast
  have three: "Suc (length [[65, 66 :: byte], []]) = 3" by simp
  have "status_ok (fst (add_records posix_writable [[65, 66], []] new_Writer (empty_file [Done 3, Failed EINTR])))"
    unfolding a using ok by simp
  then show ?thesis using rd unfolding three by blast
qed

text \<open>C10: whatever a crash cuts off the end of the file, as long as what had been written when a
  first list of records was complete is still there, all of those records are read back, then a
  prefix of the later ones, and the torn record is not reported as a corruption.\<close>

theorem log_survives_crash:
  assumes "add_records posix_writable xs new_Writer d = (s1, w1, d1)" and "status_ok s1"
    and "add_records posix_writable ys w1 d1 = (s2, w2, d2)" and "status_ok s2"
    and "disk d = []" and "buf d = []" and "only_interrupted f"
    and "seq_rest f = take n (disk d2)" and "length (disk d1) \<le> n"
  shows "\<exists>k r' f'. read_records posix_sequential (Suc (length xs + length ys)) (new_Reader reporter check 0) f =
    Some (xs @ take k ys, r', f') \<and> reports r' = []"
proof -
  have "buffer_ok d" "disk d = contents d" using assms(5,6) by (simp_all add: buffer_ok_def contents_def)
  from posix_w.add_records_encodes [OF assms(1,2) this new_Writer_start(1) _ new_Writer_start(2)]
  obtain out off' where e: "encodes_all xs 0 out off'" "contents d1 = out" "disk d1 = out" "buffer_ok d1"
      "block_offset w1 = int off'" "type_crc w1 = InitTypeCrc"
    using assms(5,6) by (auto simp: contents_def)
  have "disk d1 = contents d1" using e(2,3) by simp
  from posix_w.add_records_encodes [OF assms(3,4) e(4) this e(5) _ e(6)] encodes_all_end [OF e(1)]
  obtain out' off'' where e': "encodes_all ys off' out' off''" "disk d2 = out @ out'"
    using e(2) by (auto simp: contents_def)
  have "seq_rest f = out @ take (n - length out) out'" using assms(8,9) e(3) e'(2) by simp
  then have "posix_r.reader_before ([] @ out @ take (n - length out) out') (length ([] :: byte list))
      (new_Reader reporter check 0) f"
    using posix_r.start_at [OF assms(7)] by simp
  from posix_r.read_survivors [OF e(1) e'(1) _ this] show ?thesis by (simp add: new_Reader_def)
qed

lemma log_survives_crash_witness:
  "\<exists>w1 d1 (d2 :: PosixWritableFile) k r' f'. add_records posix_writable [[65]] new_Writer (empty_file [Done 3, Failed EINTR]) = (Status_OK, w1, d1) \<and>
    read_records posix_sequential 3 (new_Reader True True 0)
      \<lparr>seq_name = [], seq_rest = take (length (disk d1) + 5) (disk d2), seq_kern = \<lparr>answers = [], strerror = \<lambda>_. []\<rparr>\<rparr> =
    Some ([[65]] @ take k [[66]], r', f') \<and> reports r' = []"
proof -
  obtain s w1 d1 where a: "add_records posix_writable [[65]] new_Writer (empty_file [Done 3, Failed EINTR]) = (s, w1, d1)"
    by (metis prod_cases3)
  note h = add_records_healthy [OF empty_file_healthy a]
  then have s: "status_ok s" "s = Status_OK" by (simp_all add: status_ok_def Status_OK_def)
  obtain t w2 d2 where b: "add_records posix_writable [[66]] w1 d1 = (t, w2, d2)" by (metis prod_cases3)
  have t: "status_ok t" using add_records_healthy [OF conjunct2 [OF h] b] by simp
  let ?f = "\<lparr>seq_name = [], seq_rest = take (length (disk d1) + 5) (disk d2), seq_kern = \<lparr>answers = [], strerror = \<lambda>_. []\<rparr>\<rparr>"
  have "only_interrupted ?f" "seq_rest ?f = take (length (disk d1) + 5) (disk d2)"
    by (simp_all add: only_interrupted_def)
  from log_survives_crash [OF a s(1) b t empty_file_simps this le_add1, of True True]
  obtain k r' f' where rd: "read_records posix_sequential (Suc (length [[65 :: byte]] + length [[66 :: byte]]))
      (new_Reader True True 0) ?f = Some ([[65]] @ take k [[66]], r', f')" "reports r' = []" by blast
  have three: "Suc (length [[65 :: byte]] + length [[66 :: byte]]) = 3" by simp
  show ?thesis using a rd unfolding three s(2) by blast
qed



text \<open>C33: adding a record to a POSIX file returns, and answers OK, for every record and every state of
  the writer, as long as the kernel only interrupts writes or takes fewer bytes than it was given.\<close>

theorem add_record_succeeds:
  assumes "\<forall>e. Failed e \<in> set (answers (kern d)) \<longrightarrow> e = EINTR"
  shows "status_ok (fst (AddRecord posix_writable data w d))"
proof -
  obtain s w' d' where "AddRecord posix_writable data w d = (s, w', d')" by (metis prod_cases3)
  then show ?thesis
    using add_loop_healthy [of d posix_writable True data w s w' d'] assms by (simp add: AddRecord_def healthy_def)
qed

lemma add_record_succeeds_witness:
  "status_ok (fst (AddRecord posix_writable [1, 2, 3] new_Writer (empty_file [Done 2, Failed EINTR, Done 1])))"
  by (rule add_record_succeeds) (simp add: empty_file_def new_PosixWritableFile_def)

text \<open>
  The reader keeps its own answers \<^const>\<open>kEof\<close> and \<^const>\<open>kBadRecord\<close> in the numbers behind the types
  of the format: a record of the file with the type 5, intact as it is, is taken for the end of the file.
\<close>

theorem type_5_ends_reading:
  assumes "buffer r = h @ rest" and "length h = 7" and "h ! 6 = 5" and "header_length h = 0"
    and "\<not> checksum r" and "initial_offset r = 0"
  shows "\<exists>r'. ReadPhysicalRecord ops res r f = (kEof, [], r', f) \<and> buffer r' = rest \<and> eof r' = eof r"
proof -
  have "header_length (h @ rest) = header_length h" "header_type (h @ rest) = 5"
    using assms(2,3) by (simp_all add: header_length_def header_type_def nth_append)
  then have "parse_physical res r = (5, [], r\<lparr>buffer := rest\<rparr>)"
    using assms by (simp add: parse_physical_def Let_def kHeaderSize_def slice_remove_prefix_def)
  then show ?thesis
    using assms(1,2) by (subst ReadPhysicalRecord.simps) (simp add: kHeaderSize_def kEof_def kMaxRecordType_def)
qed

end
