(* ===== verification/Ldb_Format.thy ===== *)
theory Ldb_Format
  imports Ldb_Status
begin

text \<open>
  Keys: the interface of a comparator (\<^verbatim>\<open>include/leveldb/comparator.h\<close>), the bytewise comparator
  (\<^verbatim>\<open>util/comparator.cc\<close>), and internal keys, which carry a sequence number and a type behind the
  user's key, with their comparator (\<^verbatim>\<open>db/dbformat.h\<close>, \<^verbatim>\<open>db/dbformat.cc\<close>).
\<close>

section \<open>Comparators\<close>

text \<open>The two shortening operations return what they leave in \<^verbatim>\<open>*start\<close> and \<^verbatim>\<open>*key\<close>.\<close>

record Comparator =
  comparator_Name :: "byte list"
  Compare :: "slice \<Rightarrow> slice \<Rightarrow> int"
  FindShortestSeparator :: "slice \<Rightarrow> slice \<Rightarrow> slice"
  FindShortSuccessor :: "slice \<Rightarrow> slice"

fun common_prefix :: "slice \<Rightarrow> slice \<Rightarrow> nat" where
  "common_prefix (x # xs) (y # ys) = (if x = y then Suc (common_prefix xs ys) else 0)"
| "common_prefix _ _ = 0"

definition Bytewise_Separator :: "slice \<Rightarrow> slice \<Rightarrow> slice" where
  "Bytewise_Separator start limit =
     (let min_length = min (length start) (length limit);
          diff_index = common_prefix start limit in
      if diff_index \<ge> min_length then start
      else
        let diff_byte = start ! diff_index in
        if diff_byte < 0xff \<and> uint diff_byte + 1 < uint (limit ! diff_index)
        then take (diff_index + 1) (start[diff_index := start ! diff_index + 1])
        else start)"

text \<open>The loop over \<open>i\<close>.\<close>

function successor_from :: "nat \<Rightarrow> slice \<Rightarrow> slice" where
  "successor_from i key =
     (if i < length key then
        let byte = key ! i in
        if byte \<noteq> 0xff then take (i + 1) (key[i := byte + 1]) else successor_from (i + 1) key
      else key)"
  by pat_completeness auto
termination by (relation "measure (\<lambda>(i, key). length key - i)") auto

declare successor_from.simps [simp del]

definition Bytewise_Successor :: "slice \<Rightarrow> slice" where
  "Bytewise_Successor key = successor_from 0 key"

definition BytewiseComparator :: Comparator where
  "BytewiseComparator =
     \<lparr>comparator_Name = bytes_of ''leveldb.BytewiseComparator'', Compare = slice_compare,
      FindShortestSeparator = Bytewise_Separator, FindShortSuccessor = Bytewise_Successor\<rparr>"

section \<open>Internal keys\<close>

datatype ValueType = kTypeDeletion | kTypeValue

primrec value_type_code :: "ValueType \<Rightarrow> 64 word" where
  "value_type_code kTypeDeletion = 0"
| "value_type_code kTypeValue = 1"

definition kValueTypeForSeek :: ValueType where
  "kValueTypeForSeek = kTypeValue"

type_synonym SequenceNumber = "64 word"

definition kMaxSequenceNumber :: SequenceNumber where
  "kMaxSequenceNumber = push_bit 56 1 - 1"

record ParsedInternalKey =
  user_key :: slice
  sequence :: SequenceNumber
  value_type :: ValueType

definition InternalKeyEncodingLength :: "ParsedInternalKey \<Rightarrow> nat" where
  "InternalKeyEncodingLength key = length (user_key key) + 8"

definition PackSequenceAndType :: "64 word \<Rightarrow> ValueType \<Rightarrow> 64 word" where
  "PackSequenceAndType seq t = push_bit 8 seq OR value_type_code t"

definition AppendInternalKey :: "byte list \<Rightarrow> ParsedInternalKey \<Rightarrow> byte list" where
  "AppendInternalKey result key =
     PutFixed64 (result @ user_key key) (PackSequenceAndType (sequence key) (value_type key))"

definition ExtractUserKey :: "slice \<Rightarrow> slice" where
  "ExtractUserKey internal_key = take (length internal_key - 8) internal_key"

text \<open>\<^const>\<open>None\<close> is false, with \<^verbatim>\<open>*result\<close> undefined.\<close>

definition ParseInternalKey :: "slice \<Rightarrow> ParsedInternalKey option" where
  "ParseInternalKey internal_key =
     (let n = length internal_key in
      if n < 8 then None
      else
        let num = DecodeFixed64 (drop (n - 8) internal_key);
            c = ucast (num AND 0xff) :: byte in
        if c > 1 then None
        else Some \<lparr>user_key = take (n - 8) internal_key, sequence = drop_bit 8 num,
                   value_type = (if c = 0 then kTypeDeletion else kTypeValue)\<rparr>)"

text \<open>The quote is 39; \<^verbatim>\<open>buf[50]\<close> holds every number.\<close>

definition ParsedInternalKey_DebugString :: "ParsedInternalKey \<Rightarrow> byte list" where
  "ParsedInternalKey_DebugString k =
     [39] @ EscapeString (user_key k) @ [39] @ bytes_of '' @ '' @ decimal (unat (sequence k)) @
     bytes_of '' : '' @ decimal (unat (value_type_code (value_type k)))"

record InternalKey =
  rep :: "byte list"

definition new_InternalKey :: "slice \<Rightarrow> SequenceNumber \<Rightarrow> ValueType \<Rightarrow> InternalKey" where
  "new_InternalKey u s t = \<lparr>rep = AppendInternalKey [] \<lparr>user_key = u, sequence = s, value_type = t\<rparr>\<rparr>"

definition InternalKey_DecodeFrom :: "slice \<Rightarrow> InternalKey" where
  "InternalKey_DecodeFrom s = \<lparr>rep = s\<rparr>"

definition InternalKey_Encode :: "InternalKey \<Rightarrow> slice" where
  "InternalKey_Encode k = rep k"

definition InternalKey_user_key :: "InternalKey \<Rightarrow> slice" where
  "InternalKey_user_key k = ExtractUserKey (rep k)"

definition InternalKey_SetFrom :: "ParsedInternalKey \<Rightarrow> InternalKey" where
  "InternalKey_SetFrom p = \<lparr>rep = AppendInternalKey [] p\<rparr>"

definition InternalKey_Clear :: InternalKey where
  "InternalKey_Clear = \<lparr>rep = []\<rparr>"

definition InternalKey_DebugString :: "InternalKey \<Rightarrow> byte list" where
  "InternalKey_DebugString k =
     (case ParseInternalKey (rep k) of
        Some parsed \<Rightarrow> ParsedInternalKey_DebugString parsed
      | None \<Rightarrow> bytes_of ''(bad)'' @ EscapeString (rep k))"

subsection \<open>Their comparator\<close>

definition Internal_Compare :: "Comparator \<Rightarrow> slice \<Rightarrow> slice \<Rightarrow> int" where
  "Internal_Compare user_comparator akey bkey =
     (let r = Compare user_comparator (ExtractUserKey akey) (ExtractUserKey bkey) in
      if r = 0 then
        let anum = DecodeFixed64 (drop (length akey - 8) akey);
            bnum = DecodeFixed64 (drop (length bkey - 8) bkey) in
        if anum > bnum then -1 else if anum < bnum then 1 else r
      else r)"

definition Internal_Separator :: "Comparator \<Rightarrow> slice \<Rightarrow> slice \<Rightarrow> slice" where
  "Internal_Separator user_comparator start limit =
     (let user_start = ExtractUserKey start;
          user_limit = ExtractUserKey limit;
          tmp = FindShortestSeparator user_comparator user_start user_limit in
      if length tmp < length user_start \<and> Compare user_comparator user_start tmp < 0
      then PutFixed64 tmp (PackSequenceAndType kMaxSequenceNumber kValueTypeForSeek)
      else start)"

definition Internal_Successor :: "Comparator \<Rightarrow> slice \<Rightarrow> slice" where
  "Internal_Successor user_comparator key =
     (let ukey = ExtractUserKey key;
          tmp = FindShortSuccessor user_comparator ukey in
      if length tmp < length ukey \<and> Compare user_comparator ukey tmp < 0
      then PutFixed64 tmp (PackSequenceAndType kMaxSequenceNumber kValueTypeForSeek)
      else key)"

definition InternalKeyComparator :: "Comparator \<Rightarrow> Comparator" where
  "InternalKeyComparator c =
     \<lparr>comparator_Name = bytes_of ''leveldb.InternalKeyComparator'', Compare = Internal_Compare c,
      FindShortestSeparator = Internal_Separator c, FindShortSuccessor = Internal_Successor c\<rparr>"

definition Compare_InternalKey :: "Comparator \<Rightarrow> InternalKey \<Rightarrow> InternalKey \<Rightarrow> int" where
  "Compare_InternalKey c a b = Internal_Compare c (InternalKey_Encode a) (InternalKey_Encode b)"

section \<open>Lookup keys\<close>

text \<open>The array from \<^verbatim>\<open>start_\<close> to \<^verbatim>\<open>end_\<close>, and where in it \<^verbatim>\<open>kstart_\<close> is.\<close>

record LookupKey =
  lk_start :: "byte list"
  lk_kstart :: nat

definition new_LookupKey :: "slice \<Rightarrow> SequenceNumber \<Rightarrow> LookupKey" where
  "new_LookupKey ukey s =
     (let usize = length ukey;
          dst = EncodeVarint32 (of_nat (usize + 8));
          kstart = length dst;
          dst = dst @ ukey;
          dst = dst @ EncodeFixed64 (PackSequenceAndType s kValueTypeForSeek) in
      \<lparr>lk_start = dst, lk_kstart = kstart\<rparr>)"

definition LookupKey_memtable_key :: "LookupKey \<Rightarrow> slice" where
  "LookupKey_memtable_key k = lk_start k"

definition LookupKey_internal_key :: "LookupKey \<Rightarrow> slice" where
  "LookupKey_internal_key k = drop (lk_kstart k) (lk_start k)"

definition LookupKey_user_key :: "LookupKey \<Rightarrow> slice" where
  "LookupKey_user_key k = take (length (lk_start k) - lk_kstart k - 8) (drop (lk_kstart k) (lk_start k))"

section \<open>The contract of a comparator\<close>

text \<open>A total order, with the two shortening operations within the bounds the header promises.\<close>

locale comparator =
  fixes cmp :: Comparator and valid :: "slice \<Rightarrow> bool"
  assumes cmp_eq: "valid a \<Longrightarrow> valid b \<Longrightarrow> Compare cmp a b = 0 \<longleftrightarrow> a = b"
    and cmp_sym: "valid a \<Longrightarrow> valid b \<Longrightarrow> Compare cmp a b < 0 \<longleftrightarrow> 0 < Compare cmp b a"
    and cmp_trans: "valid a \<Longrightarrow> valid b \<Longrightarrow> valid c \<Longrightarrow> Compare cmp a b < 0 \<Longrightarrow> Compare cmp b c < 0 \<Longrightarrow> Compare cmp a c < 0"
    and separator: "valid a \<Longrightarrow> valid l \<Longrightarrow> Compare cmp a l < 0 \<Longrightarrow>
      valid (FindShortestSeparator cmp a l) \<and> Compare cmp a (FindShortestSeparator cmp a l) \<le> 0 \<and>
      Compare cmp (FindShortestSeparator cmp a l) l < 0"
    and successor: "valid k \<Longrightarrow> valid (FindShortSuccessor cmp k) \<and> Compare cmp k (FindShortSuccessor cmp k) \<le> 0"
begin

definition less :: "slice \<Rightarrow> slice \<Rightarrow> bool" where
  "less a b \<longleftrightarrow> Compare cmp a b < 0"

lemma less_irrefl: "valid a \<Longrightarrow> \<not> less a a"
  using cmp_eq [of a a] by (simp add: less_def)

lemma less_linear: "valid a \<Longrightarrow> valid b \<Longrightarrow> less a b \<or> a = b \<or> less b a"
  using cmp_eq [of a b] cmp_sym [of a b] cmp_sym [of b a] unfolding less_def by linarith

lemma less_asym: "valid a \<Longrightarrow> valid b \<Longrightarrow> less a b \<Longrightarrow> \<not> less b a"
  using cmp_sym [of a b] cmp_sym [of b a] unfolding less_def by linarith

lemma less_trans: "valid a \<Longrightarrow> valid b \<Longrightarrow> valid c \<Longrightarrow> less a b \<Longrightarrow> less b c \<Longrightarrow> less a c"
  unfolding less_def by (rule cmp_trans)

lemma le_iff: "valid a \<Longrightarrow> valid b \<Longrightarrow> Compare cmp a b \<le> 0 \<longleftrightarrow> a = b \<or> less a b"
  using cmp_eq [of a b] by (auto simp: less_def)

text \<open>A separator is above all that is not above \<open>a\<close>, and below \<open>l\<close>.\<close>

lemma separator_between:
  assumes "valid a" and "valid l" and "less a l" and "valid x" and "x = a \<or> less x a"
  shows "\<not> less (FindShortestSeparator cmp a l) x" and "less (FindShortestSeparator cmp a l) l"
proof -
  let ?s = "FindShortestSeparator cmp a l"
  have s: "valid ?s" "a = ?s \<or> less a ?s" "less ?s l"
    using separator [OF assms(1,2)] assms(3) le_iff [of a ?s] assms(1) by (auto simp: less_def)
  show "\<not> less ?s x"
    using s assms less_asym less_trans less_irrefl by metis
  show "less ?s l" by (rule s(3))
qed

end

text \<open>What the internal comparator asks more of the comparator it wraps: called with equal keys, the
  separator does not invent a greater key.\<close>

locale user_comparator = comparator +
  assumes separator_same: "valid a \<Longrightarrow> \<not> 0 > Compare cmp a (FindShortestSeparator cmp a a)"
begin

definition ikey :: "slice \<Rightarrow> bool" where
  "ikey k \<longleftrightarrow> 8 \<le> length k \<and> valid (ExtractUserKey k)"

end

section \<open>The bytewise comparator\<close>

lemma slice_compare_simps [simp]:
  "slice_compare [] [] = 0" "slice_compare [] (y # ys) = -1" "slice_compare (x # xs) [] = 1"
  "slice_compare (x # xs) (y # ys) = (if x < y then -1 else if y < x then 1 else slice_compare xs ys)"
  by (simp_all add: slice_compare_def Let_def)

lemma slice_compare_eq: "slice_compare a b = 0 \<longleftrightarrow> a = b"
proof (induction a arbitrary: b)
  case Nil
  then show ?case by (cases b) simp_all
next
  case (Cons x a)
  then show ?case by (cases b) auto
qed

lemma slice_compare_sym: "slice_compare a b < 0 \<longleftrightarrow> 0 < slice_compare b a"
proof (induction a arbitrary: b)
  case Nil
  then show ?case by (cases b) simp_all
next
  case (Cons x a)
  then show ?case by (cases b) auto
qed

lemma slice_compare_trans: "slice_compare a b < 0 \<Longrightarrow> slice_compare b c < 0 \<Longrightarrow> slice_compare a c < 0"
proof (induction a arbitrary: b c)
  case Nil
  then show ?case by (cases b; cases c) simp_all
next
  case (Cons x a)
  then show ?case by (cases b; cases c) (auto split: if_splits)
qed

lemma Separator_Cons:
  "Bytewise_Separator (x # xs) (y # ys) =
    (if x = y then x # Bytewise_Separator xs ys
     else if x < 0xff \<and> uint x + 1 < uint y then [x + 1] else x # xs)"
  by (simp add: Bytewise_Separator_def Let_def)

lemma Separator_Nil [simp]: "Bytewise_Separator [] l = []" "Bytewise_Separator a [] = a"
  by (simp_all add: Bytewise_Separator_def Let_def)

lemma unat_numeral_byte: "unat (0xff :: byte) = 255"
  by simp

lemma byte_incr: "(x :: byte) \<noteq> 0xff \<Longrightarrow> uint (x + 1) = uint x + 1"
proof -
  assume "x \<noteq> 0xff"
  then have "unat x \<noteq> 255" by (metis unat_numeral_byte word_unat_eq_iff)
  moreover have "unat x < 256" using unsigned_less [of x, where 'a = nat] by simp
  ultimately have "unat (x + 1) = unat x + 1" using unat_plus_if_small [of x 1] by simp
  then show ?thesis by (simp only: uint_nat of_nat_add of_nat_1)
qed

lemma byte_incr_less: "(x :: byte) \<noteq> 0xff \<Longrightarrow> x < x + 1"
  using byte_incr [of x] by (simp add: word_less_def)

lemma bytewise_separator:
  "slice_compare a l < 0 \<Longrightarrow>
    slice_compare a (Bytewise_Separator a l) \<le> 0 \<and> slice_compare (Bytewise_Separator a l) l < 0"
proof (induction a arbitrary: l)
  case Nil
  then show ?case by simp
next
  case (Cons x xs)
  obtain y ys where l: "l = y # ys" using Cons.prems by (cases l) auto
  have eq: "slice_compare (x # xs) (x # xs) \<le> 0" using slice_compare_eq [of xs xs] by simp
  show ?case
  proof (cases "x = y")
    case True
    then show ?thesis using Cons unfolding l by (simp add: Separator_Cons)
  next
    case False
    then have less: "x < y" using Cons.prems unfolding l by (simp split: if_splits)
    show ?thesis
    proof (cases "x < 0xff \<and> uint x + 1 < uint y")
      case True
      then have "x \<noteq> 0xff" by auto
      then have "x < x + 1" "x + 1 < y" using True byte_incr byte_incr_less by (simp_all add: word_less_def)
      then show ?thesis using False True unfolding l by (simp add: Separator_Cons)
    next
      case no_room: False
      have "Bytewise_Separator (x # xs) (y # ys) = x # xs" using no_room False by (auto simp: Separator_Cons)
      then show ?thesis using less eq unfolding l by simp
    qed
  qed
qed

lemma bytewise_separator_same: "Bytewise_Separator a a = a"
  by (induction a) (simp_all add: Separator_Cons)

lemma successor_shift: "successor_from (Suc i) (x # xs) = x # successor_from i xs"
proof (induction i xs rule: successor_from.induct)
  case (1 i xs)
  then show ?case by (subst (1 2) successor_from.simps) (auto simp: Let_def)
qed

lemma Successor_Cons: "Bytewise_Successor (x # xs) = (if x \<noteq> 0xff then [x + 1] else x # Bytewise_Successor xs)"
  unfolding Bytewise_Successor_def
  by (subst successor_from.simps) (simp add: Let_def successor_shift [of 0, simplified])

lemma bytewise_successor: "slice_compare k (Bytewise_Successor k) \<le> 0"
proof (induction k)
  case Nil
  then show ?case by (simp add: Bytewise_Successor_def successor_from.simps)
next
  case (Cons x xs)
  then show ?case using byte_incr_less [of x] by (auto simp: Successor_Cons)
qed

interpretation bytewise: user_comparator BytewiseComparator "\<lambda>_. True"
proof unfold_locales
  fix a l
  show "Compare BytewiseComparator a l < 0 \<Longrightarrow>
      True \<and> Compare BytewiseComparator a (FindShortestSeparator BytewiseComparator a l) \<le> 0 \<and>
      Compare BytewiseComparator (FindShortestSeparator BytewiseComparator a l) l < 0"
    using bytewise_separator [of a l] by (simp add: BytewiseComparator_def)
  show "Compare BytewiseComparator a l < 0 \<longleftrightarrow> 0 < Compare BytewiseComparator l a"
    by (simp add: BytewiseComparator_def slice_compare_sym)
  show "\<not> 0 > Compare BytewiseComparator a (FindShortestSeparator BytewiseComparator a a)"
    using slice_compare_eq [of a a] by (simp add: BytewiseComparator_def bytewise_separator_same)
  fix c
  show "Compare BytewiseComparator a l < 0 \<Longrightarrow> Compare BytewiseComparator l c < 0 \<Longrightarrow>
      Compare BytewiseComparator a c < 0"
    using slice_compare_trans by (simp add: BytewiseComparator_def)
qed (simp_all add: BytewiseComparator_def slice_compare_eq bytewise_successor)

section \<open>Internal keys are a comparator again\<close>

definition key_number :: "slice \<Rightarrow> 64 word" where
  "key_number k = DecodeFixed64 (drop (length k - 8) k)"

lemma Internal_Compare_number:
  "Internal_Compare c a b =
    (let r = Compare c (ExtractUserKey a) (ExtractUserKey b) in
     if r = 0 then (if key_number a > key_number b then -1 else if key_number a < key_number b then 1 else 0) else r)"
  by (simp add: Internal_Compare_def key_number_def Let_def)

lemma key_number_eq:
  assumes "8 \<le> length a" and "8 \<le> length b" and "ExtractUserKey a = ExtractUserKey b"
    and "key_number a = key_number b"
  shows "a = b"
proof -
  let ?x = "drop (length a - 8) a" and ?y = "drop (length b - 8) b"
  have "length ?x = 8" "length ?y = 8" using assms(1,2) by simp_all
  moreover have "(le_word ?x :: 64 word) = le_word ?y"
    using assms by (simp add: key_number_def DecodeFixed64_def kLittleEndian_def)
  moreover have "le_bytes (length z) (le_word z :: 64 word) = z" if "length z = 8" for z
    using that by (intro le_bytes_le_word) simp
  ultimately have "?x = ?y" by metis
  then show ?thesis using assms(3) unfolding ExtractUserKey_def by (metis append_take_drop_id)
qed

lemma ExtractUserKey_Put: "ExtractUserKey (PutFixed64 u n) = u"
  by (simp add: ExtractUserKey_def PutFixed64_def)

lemma key_number_Put: "key_number (PutFixed64 u n) = n"
  using DecodeFixed64_Encode [of n "[]"] by (simp add: key_number_def PutFixed64_def)

context user_comparator
begin

lemma ikey_Put: "ikey (PutFixed64 u n) \<longleftrightarrow> valid u"
  by (simp add: ikey_def ExtractUserKey_Put) (simp add: PutFixed64_def)

lemma ikey_user: "ikey k \<Longrightarrow> valid (ExtractUserKey k)"
  by (simp add: ikey_def)

lemma Internal_less:
  assumes "ikey a" and "ikey b"
  shows "Internal_Compare cmp a b < 0 \<longleftrightarrow> less (ExtractUserKey a) (ExtractUserKey b) \<or>
    ExtractUserKey a = ExtractUserKey b \<and> key_number b < key_number a"
  using cmp_eq [OF ikey_user [OF assms(1)] ikey_user [OF assms(2)]]
  by (auto simp: Internal_Compare_number Let_def less_def split: if_splits)

lemma Internal_greater:
  assumes "ikey a" and "ikey b"
  shows "0 < Internal_Compare cmp a b \<longleftrightarrow> less (ExtractUserKey b) (ExtractUserKey a) \<or>
    ExtractUserKey a = ExtractUserKey b \<and> key_number a < key_number b"
  using cmp_eq [OF ikey_user [OF assms(1)] ikey_user [OF assms(2)]]
    cmp_sym [OF ikey_user [OF assms(2)] ikey_user [OF assms(1)]]
  by (auto simp: Internal_Compare_number Let_def less_def split: if_splits)

lemma Internal_eq:
  assumes "ikey a" and "ikey b"
  shows "Internal_Compare cmp a b = 0 \<longleftrightarrow> a = b"
  using cmp_eq [OF ikey_user [OF assms(1)] ikey_user [OF assms(2)]] key_number_eq [of a b] assms
  by (auto simp: Internal_Compare_number Let_def ikey_def split: if_splits)

lemma Internal_trans:
  assumes "ikey a" and "ikey b" and "ikey c"
    and "Internal_Compare cmp a b < 0" and "Internal_Compare cmp b c < 0"
  shows "Internal_Compare cmp a c < 0"
  using assms(4,5) less_trans [OF ikey_user [OF assms(1)] ikey_user [OF assms(2)] ikey_user [OF assms(3)]]
  unfolding Internal_less [OF assms(1,2)] Internal_less [OF assms(2,3)] Internal_less [OF assms(1,3)]
  by (metis order_less_trans)

lemma Internal_le_self: "ikey a \<Longrightarrow> Internal_Compare cmp a a \<le> 0"
  using Internal_eq [of a a] by simp

text \<open>A shortened user key that is greater comes with the largest number, before all others of it.\<close>

lemma Internal_shortened:
  assumes "ikey a" and "valid u" and "less (ExtractUserKey a) u"
  shows "ikey (PutFixed64 u n) \<and> Internal_Compare cmp a (PutFixed64 u n) \<le> 0"
  using Internal_less [OF assms(1), of "PutFixed64 u n"] assms by (simp add: ikey_Put ExtractUserKey_Put)

lemma Internal_separator:
  assumes "ikey a" and "ikey l" and "Internal_Compare cmp a l < 0"
  shows "ikey (Internal_Separator cmp a l) \<and> Internal_Compare cmp a (Internal_Separator cmp a l) \<le> 0 \<and>
    Internal_Compare cmp (Internal_Separator cmp a l) l < 0"
proof -
  let ?u = "ExtractUserKey a" and ?v = "ExtractUserKey l"
  let ?t = "FindShortestSeparator cmp ?u ?v"
  let ?n = "PackSequenceAndType kMaxSequenceNumber kValueTypeForSeek"
  show ?thesis
  proof (cases "length ?t < length ?u \<and> Compare cmp ?u ?t < 0")
    case True
    then have s: "Internal_Separator cmp a l = PutFixed64 ?t ?n" by (simp add: Internal_Separator_def Let_def)
    have "?u \<noteq> ?v" using True separator_same [OF ikey_user [OF assms(1)]] by auto
    then have "less ?u ?v" using assms Internal_less by blast
    then have t: "valid ?t" "less ?t ?v"
      using separator [OF ikey_user [OF assms(1)] ikey_user [OF assms(2)]] by (auto simp: less_def)
    then have "Internal_Compare cmp (PutFixed64 ?t ?n) l < 0"
      using Internal_less [of "PutFixed64 ?t ?n" l] assms(2) by (simp add: ikey_Put ExtractUserKey_Put)
    then show ?thesis
      unfolding s using Internal_shortened [OF assms(1) t(1)] True by (auto simp: less_def)
  next
    case False
    then have "Internal_Separator cmp a l = a" unfolding Internal_Separator_def Let_def by (rule if_not_P)
    then show ?thesis using assms Internal_le_self by simp
  qed
qed

lemma Internal_successor:
  assumes "ikey k"
  shows "ikey (Internal_Successor cmp k) \<and> Internal_Compare cmp k (Internal_Successor cmp k) \<le> 0"
proof (cases "length (FindShortSuccessor cmp (ExtractUserKey k)) < length (ExtractUserKey k) \<and>
    Compare cmp (ExtractUserKey k) (FindShortSuccessor cmp (ExtractUserKey k)) < 0")
  case True
  then show ?thesis
    using Internal_shortened [OF assms, of "FindShortSuccessor cmp (ExtractUserKey k)"]
      successor [OF ikey_user [OF assms]]
    by (simp add: Internal_Successor_def Let_def less_def)
next
  case False
  then have "Internal_Successor cmp k = k" unfolding Internal_Successor_def Let_def by (rule if_not_P)
  then show ?thesis using assms Internal_le_self by simp
qed

end

sublocale user_comparator \<subseteq> ikc: comparator "InternalKeyComparator cmp" ikey
proof unfold_locales
  fix a b c
  assume a: "ikey a" and b: "ikey b"
  show "Compare (InternalKeyComparator cmp) a b = 0 \<longleftrightarrow> a = b"
    using Internal_eq [OF a b] by (simp add: InternalKeyComparator_def)
  show "Compare (InternalKeyComparator cmp) a b < 0 \<longleftrightarrow> 0 < Compare (InternalKeyComparator cmp) b a"
    using Internal_less [OF a b] Internal_greater [OF b a] by (auto simp: InternalKeyComparator_def)
  show "Compare (InternalKeyComparator cmp) a b < 0 \<Longrightarrow>
      ikey (FindShortestSeparator (InternalKeyComparator cmp) a b) \<and>
      Compare (InternalKeyComparator cmp) a (FindShortestSeparator (InternalKeyComparator cmp) a b) \<le> 0 \<and>
      Compare (InternalKeyComparator cmp) (FindShortestSeparator (InternalKeyComparator cmp) a b) b < 0"
    using Internal_separator [OF a b] by (simp add: InternalKeyComparator_def)
  show "ikey c \<Longrightarrow> Compare (InternalKeyComparator cmp) a b < 0 \<Longrightarrow>
      Compare (InternalKeyComparator cmp) b c < 0 \<Longrightarrow> Compare (InternalKeyComparator cmp) a c < 0"
    using Internal_trans [OF a b] by (simp add: InternalKeyComparator_def)
  show "ikey (FindShortSuccessor (InternalKeyComparator cmp) a) \<and>
      Compare (InternalKeyComparator cmp) a (FindShortSuccessor (InternalKeyComparator cmp) a) \<le> 0"
    using Internal_successor [OF a] by (simp add: InternalKeyComparator_def)
qed

section \<open>Packing\<close>

lemma kMaxSequenceNumber_mask: "kMaxSequenceNumber = mask 56"
  by (simp add: kMaxSequenceNumber_def mask_eq_exp_minus_1)

lemma sequence_bits: "s \<le> kMaxSequenceNumber \<Longrightarrow> drop_bit 56 s = 0"
proof -
  assume "s \<le> kMaxSequenceNumber"
  then have "s < 2 ^ 56" by (simp add: kMaxSequenceNumber_def word_le_nat_alt word_less_nat_alt)
  then show ?thesis by (rule small_drop)
qed

lemma type_bits: "bit (value_type_code t) n \<Longrightarrow> n = 0"
  by (cases t) (simp_all add: bit_1_iff)

lemma Pack_low: "ucast (PackSequenceAndType s t AND 0xff) = (ucast (value_type_code t) :: byte)"
  by (rule bit_word_eqI) (auto simp: and_255_byte PackSequenceAndType_def bit_simps dest: type_bits)

lemma Pack_high: "s \<le> kMaxSequenceNumber \<Longrightarrow> drop_bit 8 (PackSequenceAndType s t) = s"
proof (rule bit_word_eqI)
  fix n assume "s \<le> kMaxSequenceNumber" and n: "n < LENGTH(64)"
  then have "bit s n \<Longrightarrow> n < 56" using drop_bit_zero_bit [OF sequence_bits] by blast
  then show "bit (drop_bit 8 (PackSequenceAndType s t)) n = bit s n"
    using n type_bits [of t "8 + n"] by (auto simp: PackSequenceAndType_def bit_simps)
qed

lemma parse_append:
  assumes "sequence k \<le> kMaxSequenceNumber"
  shows "ParseInternalKey (AppendInternalKey [] k) = Some (k :: ParsedInternalKey)"
proof -
  let ?n = "PackSequenceAndType (sequence k) (value_type k)"
  have "DecodeFixed64 (EncodeFixed64 ?n) = ?n" using DecodeFixed64_Encode [of ?n "[]"] by simp
  moreover have "(ucast (value_type_code (value_type k)) :: byte) = (if value_type k = kTypeDeletion then 0 else 1)"
    by (cases "value_type k") simp_all
  ultimately show ?thesis
    using Pack_low [of "sequence k" "value_type k"] Pack_high [OF assms, of "value_type k"]
    by (cases k; cases "value_type k")
      (simp_all add: ParseInternalKey_def AppendInternalKey_def PutFixed64_def Let_def)
qed

lemma Pack_order:
  assumes "s \<le> kMaxSequenceNumber" and "s' \<le> kMaxSequenceNumber" and "s < s'"
  shows "PackSequenceAndType s t < PackSequenceAndType s' t'"
proof (rule ccontr)
  assume "\<not> ?thesis"
  then have "drop_bit 8 (PackSequenceAndType s' t') \<le> drop_bit 8 (PackSequenceAndType s t)"
    by (simp add: drop_bit_eq_div word_le_nat_alt unat_div div_le_mono not_less)
  then show False using assms Pack_high [OF assms(1)] Pack_high [OF assms(2)] by simp
qed

lemma lookup_key: "LookupKey_internal_key (new_LookupKey u s) =
    AppendInternalKey [] \<lparr>user_key = u, sequence = s, value_type = kTypeValue\<rparr>"
  by (simp add: LookupKey_internal_key_def new_LookupKey_def AppendInternalKey_def PutFixed64_def Let_def kValueTypeForSeek_def)

lemma Pack_type: "PackSequenceAndType s t \<le> PackSequenceAndType s kTypeValue"
proof (cases t)
  case kTypeDeletion
  have "push_bit 8 s = (push_bit 8 s OR 1) AND push_bit 8 s" by (rule bit_word_eqI) (auto simp: bit_simps)
  also have "\<dots> \<le> push_bit 8 s OR 1" by (rule word_and_le2)
  finally show ?thesis using kTypeDeletion by (simp add: PackSequenceAndType_def)
qed simp

lemma Pack_le: "s \<le> kMaxSequenceNumber \<Longrightarrow> s' \<le> kMaxSequenceNumber \<Longrightarrow>
    PackSequenceAndType s t \<le> PackSequenceAndType s' kTypeValue \<longleftrightarrow> s \<le> s'"
  using Pack_order [of s s' t kTypeValue] Pack_order [of s' s kTypeValue t] Pack_type [of s t]
  by (metis linorder_le_less_linear order_less_imp_le order_antisym_conv not_le)

section \<open>Properties\<close>



text \<open>C21: shortening keeps the order of internal keys: the separator of two keys that differ is an
  internal key between them, at or above the lower and strictly below the upper one, and the short
  successor of a key is an internal key at or above it.\<close>

theorem internal_shortening:
  assumes "8 \<le> length a" and "8 \<le> length l" and "Internal_Compare BytewiseComparator a l < 0"
  shows "Internal_Compare BytewiseComparator a (Internal_Separator BytewiseComparator a l) \<le> 0 \<and>
    Internal_Compare BytewiseComparator (Internal_Separator BytewiseComparator a l) l < 0 \<and>
    8 \<le> length (Internal_Separator BytewiseComparator a l) \<and>
    Internal_Compare BytewiseComparator a (Internal_Successor BytewiseComparator a) \<le> 0 \<and>
    8 \<le> length (Internal_Successor BytewiseComparator a)"
  using bytewise.Internal_separator [of a l] bytewise.Internal_successor [of a] assms
  by (simp add: bytewise.ikey_def)

lemma internal_shortening_witness:
  "Internal_Separator BytewiseComparator [97, 98, 0, 0, 0, 0, 0, 0, 0, 0] [100, 1, 0, 0, 0, 0, 0, 0, 0]
     = [98, 1, 255, 255, 255, 255, 255, 255, 255] \<and>
   Internal_Compare BytewiseComparator [98, 1, 255, 255, 255, 255, 255, 255, 255] [100, 1, 0, 0, 0, 0, 0, 0, 0] < 0"
proof -
  let ?a = "[97, 98, 0, 0, 0, 0, 0, 0, 0, 0] :: byte list" and ?l = "[100, 1, 0, 0, 0, 0, 0, 0, 0] :: byte list"
  have less: "Internal_Compare BytewiseComparator ?a ?l < 0" by code_simp
  have "Internal_Separator BytewiseComparator ?a ?l = [98, 1, 255, 255, 255, 255, 255, 255, 255]" by code_simp
  then show ?thesis using internal_shortening [OF _ _ less] by simp
qed

end
