(* ===== verification/Ldb_Iterator.thy ===== *)
theory Ldb_Iterator
  imports Ldb_Format
begin

text \<open>
  The interface of an iterator (\<^verbatim>\<open>include/leveldb/iterator.h\<close>), the empty iterator and the list of
  cleanup functions (\<^verbatim>\<open>table/iterator.cc\<close>), and the contract every iterator over a list of entries
  keeps.
\<close>

section \<open>The interface\<close>

record 'i Iterator =
  it_Valid :: "'i \<Rightarrow> bool"
  it_SeekToFirst :: "'i \<Rightarrow> 'i"
  it_SeekToLast :: "'i \<Rightarrow> 'i"
  it_Seek :: "'i \<Rightarrow> slice \<Rightarrow> 'i"
  it_Next :: "'i \<Rightarrow> 'i"
  it_Prev :: "'i \<Rightarrow> 'i"
  it_key :: "'i \<Rightarrow> slice"
  it_value :: "'i \<Rightarrow> slice"
  it_status :: "'i \<Rightarrow> Status"

text \<open>The empty iterator is its status; what it asserts never to be called on changes nothing.\<close>

definition EmptyIterator :: "Status Iterator" where
  "EmptyIterator =
     \<lparr>it_Valid = (\<lambda>s. False), it_SeekToFirst = (\<lambda>s. s), it_SeekToLast = (\<lambda>s. s), it_Seek = (\<lambda>s target. s),
      it_Next = (\<lambda>s. s), it_Prev = (\<lambda>s. s), it_key = (\<lambda>s. []), it_value = (\<lambda>s. []), it_status = (\<lambda>s. s)\<rparr>"

definition NewEmptyIterator :: Status where
  "NewEmptyIterator = Status_OK"

definition NewErrorIterator :: "Status \<Rightarrow> Status" where
  "NewErrorIterator status = status"

subsection \<open>Cleanup functions\<close>

text \<open>
  The list from \<^verbatim>\<open>cleanup_head_\<close> on, without the head while its function is null; \<open>'f\<close> stands for a
  function with its two arguments.  The destructor runs them in the order of the list.
\<close>

definition RegisterCleanup :: "'f list \<Rightarrow> 'f \<Rightarrow> 'f list" where
  "RegisterCleanup nodes f =
     (case nodes of [] \<Rightarrow> [f] | head_node # rest \<Rightarrow> head_node # f # rest)"

definition destroy_iterator :: "('f \<Rightarrow> 'w \<Rightarrow> 'w) \<Rightarrow> 'f list \<Rightarrow> 'w \<Rightarrow> 'w" where
  "destroy_iterator run nodes w = (if nodes = [] then w else fold run (tl nodes) (run (hd nodes) w))"

lemma destroy_runs_all: "destroy_iterator run nodes w = fold run nodes w"
  by (cases nodes) (simp_all add: destroy_iterator_def)

lemma RegisterCleanup_set: "set (RegisterCleanup nodes f) = insert f (set nodes) \<and>
    length (RegisterCleanup nodes f) = Suc (length nodes)"
  by (auto simp: RegisterCleanup_def split: list.splits)

section \<open>Reading through an iterator\<close>

type_synonym entries = "(slice \<times> slice) list"

text \<open>At most \<open>n\<close> entries, by \<^verbatim>\<open>for (...; it->Valid(); it->Next())\<close>, and backwards with \<^verbatim>\<open>Prev\<close>.\<close>

primrec read_forward :: "'i Iterator \<Rightarrow> nat \<Rightarrow> 'i \<Rightarrow> entries" where
  "read_forward ops 0 s = []"
| "read_forward ops (Suc n) s =
     (if it_Valid ops s then (it_key ops s, it_value ops s) # read_forward ops n (it_Next ops s) else [])"

primrec read_backward :: "'i Iterator \<Rightarrow> nat \<Rightarrow> 'i \<Rightarrow> entries" where
  "read_backward ops 0 s = []"
| "read_backward ops (Suc n) s =
     (if it_Valid ops s then (it_key ops s, it_value ops s) # read_backward ops n (it_Prev ops s) else [])"

section \<open>The contract\<close>

text \<open>The first entry at or behind a target.\<close>

definition seek_index :: "Comparator \<Rightarrow> entries \<Rightarrow> slice \<Rightarrow> nat" where
  "seek_index cmp es target = length (takeWhile (\<lambda>e. Compare cmp (fst e) target < 0) es)"

lemma seek_index_le: "seek_index cmp es target \<le> length es"
  by (simp add: seek_index_def length_takeWhile_le)

text \<open>
  \<open>at s i\<close>: the iterator is at entry \<open>i\<close>, behind the last one for \<open>i = length es\<close>; \<open>good s\<close>: it may be
  positioned.
\<close>

locale entry_iterator =
  fixes ops :: "'i Iterator" and cmp :: Comparator and es :: entries
    and at :: "'i \<Rightarrow> nat \<Rightarrow> bool" and good :: "'i \<Rightarrow> bool" and target_ok :: "slice \<Rightarrow> bool"
  assumes at_good: "at s i \<Longrightarrow> good s"
    and at_bound: "at s i \<Longrightarrow> i \<le> length es"
    and at_valid: "at s i \<Longrightarrow> it_Valid ops s \<longleftrightarrow> i < length es"
    and at_entry: "at s i \<Longrightarrow> i < length es \<Longrightarrow> (it_key ops s, it_value ops s) = es ! i"
    and good_status: "good s \<Longrightarrow> status_ok (it_status ops s)"
    and at_first: "good s \<Longrightarrow> at (it_SeekToFirst ops s) 0"
    and at_last: "good s \<Longrightarrow> at (it_SeekToLast ops s) (length es - 1)"
    and at_seek: "good s \<Longrightarrow> target_ok t \<Longrightarrow> at (it_Seek ops s t) (seek_index cmp es t)"
    and at_next: "at s i \<Longrightarrow> i < length es \<Longrightarrow> at (it_Next ops s) (Suc i)"
    and at_prev: "at s i \<Longrightarrow> i < length es \<Longrightarrow> at (it_Prev ops s) (if i = 0 then length es else i - 1)"
begin

lemma read_from: "at s i \<Longrightarrow> read_forward ops n s = take n (drop i es)"
proof (induction n arbitrary: s i)
  case (Suc n)
  show ?case
  proof (cases "i < length es")
    case True
    then show ?thesis
      using Suc.IH [OF at_next [OF Suc.prems True]] at_entry [OF Suc.prems True] at_valid [OF Suc.prems]
      by (simp flip: Cons_nth_drop_Suc)
  next
    case False
    then show ?thesis using at_valid [OF Suc.prems] by simp
  qed
qed simp

lemma read_back_from:
  "at s i \<Longrightarrow> i < length es \<Longrightarrow> read_backward ops n s = take n (rev (take (Suc i) es))"
proof (induction n arbitrary: s i)
  case (Suc n)
  note e = at_entry [OF Suc.prems] and v = at_valid [OF Suc.prems(1)] and p = at_prev [OF Suc.prems]
  have step: "read_backward ops (Suc n) s = es ! i # read_backward ops n (it_Prev ops s)"
    using e v Suc.prems(2) by simp
  have last: "rev (take (Suc i) es) = es ! i # rev (take i es)"
    using Suc.prems(2) by (simp add: take_Suc_conv_app_nth)
  show ?case
  proof (cases i)
    case 0
    then have "read_backward ops n (it_Prev ops s) = []"
      using p at_valid [OF p] by (cases n) simp_all
    then show ?thesis unfolding step last using 0 by simp
  next
    case (Suc j)
    then have "read_backward ops n (it_Prev ops s) = take n (rev (take (Suc j) es))"
      using Suc.IH [of "it_Prev ops s" j] p Suc.prems(2) by simp
    then show ?thesis unfolding step last using Suc by simp
  qed
qed simp

theorem reads_all: "good s \<Longrightarrow> length es \<le> n \<Longrightarrow> read_forward ops n (it_SeekToFirst ops s) = es"
  using read_from [OF at_first] by simp

theorem reads_back:
  assumes "good s" and "length es \<le> n"
  shows "read_backward ops n (it_SeekToLast ops s) = rev es"
proof (cases "es = []")
  case True
  then have "\<not> it_Valid ops (it_SeekToLast ops s)" using at_valid [OF at_last [OF assms(1)]] by simp
  then show ?thesis using True by (cases n) simp_all
next
  case False
  then have "length es - 1 < length es" by (cases es) simp_all
  then show ?thesis using read_back_from [OF at_last [OF assms(1)], of n] assms(2) by simp
qed

theorem reads_from_target:
  "good s \<Longrightarrow> target_ok t \<Longrightarrow> length es \<le> n \<Longrightarrow>
    read_forward ops n (it_Seek ops s t) = dropWhile (\<lambda>e. Compare cmp (fst e) t < 0) es"
  using read_from [OF at_seek, of s t n] by (simp add: seek_index_def dropWhile_eq_drop)

end

text \<open>A family of contracts with a hidden parameter is one contract.\<close>

lemma entry_iterator_hide:
  assumes "\<And>x. entry_iterator ops cmp es (at x) (good x) tok"
  shows "entry_iterator ops cmp es (\<lambda>s i. \<exists>x. at x s i) (\<lambda>s. \<exists>x. good x s) tok"
proof
  fix s i assume "\<exists>x. at x s i"
  then obtain x where x: "at x s i" ..
  show "\<exists>x. good x s" using entry_iterator.at_good [OF assms x] by blast
  show "i \<le> length es" by (rule entry_iterator.at_bound [OF assms x])
  show "it_Valid ops s = (i < length es)" by (rule entry_iterator.at_valid [OF assms x])
  show "i < length es \<Longrightarrow> (it_key ops s, it_value ops s) = es ! i" by (rule entry_iterator.at_entry [OF assms x])
  show "i < length es \<Longrightarrow> \<exists>x. at x (it_Next ops s) (Suc i)" using entry_iterator.at_next [OF assms x] by blast
  show "i < length es \<Longrightarrow> \<exists>x. at x (it_Prev ops s) (if i = 0 then length es else i - 1)"
    using entry_iterator.at_prev [OF assms x] by blast
next
  fix s assume "\<exists>x. good x s"
  then obtain x where x: "good x s" ..
  show "status_ok (it_status ops s)" by (rule entry_iterator.good_status [OF assms x])
  show "\<exists>x. at x (it_SeekToFirst ops s) 0" using entry_iterator.at_first [OF assms x] by blast
  show "\<exists>x. at x (it_SeekToLast ops s) (length es - 1)" using entry_iterator.at_last [OF assms x] by blast
  fix t assume "tok t"
  then show "\<exists>x. at x (it_Seek ops s t) (seek_index cmp es t)" using entry_iterator.at_seek [OF assms x] by blast
qed

interpretation empty_iterator: entry_iterator EmptyIterator cmp "[]" "\<lambda>s i. status_ok s \<and> i = 0" status_ok "\<lambda>_. True"
  for cmp
  by unfold_locales (simp_all add: EmptyIterator_def seek_index_def)

end
