(* ===== verification/Ldb_Filter.thy ===== *)
theory Ldb_Filter
  imports Ldb_Format
begin

text \<open>
  Filters, which tell the database that a key is not in a block: the hash function (\<^verbatim>\<open>util/hash.cc\<close>),
  the Bloom filter (\<^verbatim>\<open>util/bloom.cc\<close>), its wrapper for internal keys (\<^verbatim>\<open>db/dbformat.cc\<close>) and the filter
  block of a table (\<^verbatim>\<open>table/filter_block.cc\<close>).  What matters is that a key that was added is never
  denied.
\<close>

section \<open>The hash function\<close>

function hash_words :: "32 word \<Rightarrow> byte list \<Rightarrow> 32 word \<times> byte list" where
  "hash_words h data =
     (if 4 \<le> length data then
        let w = DecodeFixed32 data;
            h = h + w;
            h = h * 0xc6a4a793;
            h = h XOR drop_bit 16 h
        in hash_words h (drop 4 data)
      else (h, data))"
  by pat_completeness auto
termination by (relation "measure (\<lambda>(h, data). length data)") auto

declare hash_words.simps [simp del]

text \<open>The \<^verbatim>\<open>switch\<close> over the bytes left, with its fall-through.\<close>

definition Hash :: "byte list \<Rightarrow> 32 word \<Rightarrow> 32 word" where
  "Hash data seed =
     (let m = 0xc6a4a793;
          (h, rest) = hash_words (seed XOR (of_nat (length data) * m)) data;
          h = (if length rest = 3 then h + push_bit 16 (ucast (rest ! 2)) else h);
          h = (if length rest \<ge> 2 then h + push_bit 8 (ucast (rest ! 1)) else h) in
      if length rest \<ge> 1 then
        let h = h + ucast (rest ! 0); h = h * m in h XOR drop_bit 24 h
      else h)"

definition BloomHash :: "slice \<Rightarrow> 32 word" where
  "BloomHash key = Hash key 0xbc9f1d34"

section \<open>Filter policies\<close>

record FilterPolicy =
  policy_Name :: "byte list"
  CreateFilter :: "slice list \<Rightarrow> byte list \<Rightarrow> byte list"
  KeyMayMatch :: "slice \<Rightarrow> slice \<Rightarrow> bool"

record BloomFilterPolicy =
  bits_per_key :: nat
  k_probes :: nat

text \<open>The product with \<^verbatim>\<open>0.69\<close> is rounded down; below 44 bits it is not near a whole number.\<close>

definition new_BloomFilterPolicy :: "nat \<Rightarrow> BloomFilterPolicy" where
  "new_BloomFilterPolicy bpk =
     (let k = bpk * 69 div 100;
          k = (if k < 1 then 1 else k);
          k = (if k > 30 then 30 else k)
      in \<lparr>bits_per_key = bpk, k_probes = k\<rparr>)"

definition rotate17 :: "32 word \<Rightarrow> 32 word" where
  "rotate17 h = drop_bit 17 h OR push_bit 15 h"

text \<open>The inner loop for one key: \<open>j\<close> probes are left.\<close>

primrec set_probes :: "nat \<Rightarrow> nat \<Rightarrow> 32 word \<Rightarrow> 32 word \<Rightarrow> byte list \<Rightarrow> byte list" where
  "set_probes 0 bits h delta array = array"
| "set_probes (Suc j) bits h delta array =
     (let bitpos = unat h mod bits;
          array = array[bitpos div 8 := array ! (bitpos div 8) OR push_bit (bitpos mod 8) 1]
      in set_probes j bits (h + delta) delta array)"

definition Bloom_CreateFilter :: "BloomFilterPolicy \<Rightarrow> slice list \<Rightarrow> byte list \<Rightarrow> byte list" where
  "Bloom_CreateFilter p keys dst =
     (let bits = length keys * bits_per_key p;
          bits = (if bits < 64 then 64 else bits);
          bytes = (bits + 7) div 8;
          bits = bytes * 8;
          array = fold (\<lambda>key array. let h = BloomHash key; delta = rotate17 h in
                          set_probes (k_probes p) bits h delta array) keys (replicate bytes 0)
      in dst @ array @ [of_nat (k_probes p)])"

primrec test_probes :: "nat \<Rightarrow> nat \<Rightarrow> 32 word \<Rightarrow> 32 word \<Rightarrow> byte list \<Rightarrow> bool" where
  "test_probes 0 bits h delta array = True"
| "test_probes (Suc j) bits h delta array =
     (let bitpos = unat h mod bits in
      if array ! (bitpos div 8) AND push_bit (bitpos mod 8) 1 = 0 then False
      else test_probes j bits (h + delta) delta array)"

text \<open>The last byte is a signed \<^verbatim>\<open>char\<close>; as a \<^verbatim>\<open>size_t\<close> a negative one is large.\<close>

definition Bloom_KeyMayMatch :: "slice \<Rightarrow> slice \<Rightarrow> bool" where
  "Bloom_KeyMayMatch key bloom_filter =
     (let len = length bloom_filter in
      if len < 2 then False
      else
        let bits = (len - 1) * 8;
            k = unat (scast (bloom_filter ! (len - 1)) :: 64 word) in
        if k > 30 then True
        else let h = BloomHash key; delta = rotate17 h in test_probes k bits h delta bloom_filter)"

definition NewBloomFilterPolicy :: "nat \<Rightarrow> FilterPolicy" where
  "NewBloomFilterPolicy bpk =
     \<lparr>policy_Name = bytes_of ''leveldb.BuiltinBloomFilter2'',
      CreateFilter = Bloom_CreateFilter (new_BloomFilterPolicy bpk), KeyMayMatch = Bloom_KeyMayMatch\<rparr>"

definition InternalFilterPolicy :: "FilterPolicy \<Rightarrow> FilterPolicy" where
  "InternalFilterPolicy user_policy =
     \<lparr>policy_Name = policy_Name user_policy,
      CreateFilter = (\<lambda>keys dst. CreateFilter user_policy (map ExtractUserKey keys) dst),
      KeyMayMatch = (\<lambda>key f. KeyMayMatch user_policy (ExtractUserKey key) f)\<rparr>"

section \<open>The filter block\<close>

definition kFilterBaseLg :: nat where "kFilterBaseLg = 11"

definition kFilterBase :: "64 word" where "kFilterBase = push_bit kFilterBaseLg 1"

record FilterBlockBuilder =
  fb_policy :: FilterPolicy
  fb_keys :: "byte list"
  fb_start :: "nat list"
  fb_result :: "byte list"
  filter_offsets :: "32 word list"

definition new_FilterBlockBuilder :: "FilterPolicy \<Rightarrow> FilterBlockBuilder" where
  "new_FilterBlockBuilder p = \<lparr>fb_policy = p, fb_keys = [], fb_start = [], fb_result = [], filter_offsets = []\<rparr>"

definition GenerateFilter :: "FilterBlockBuilder \<Rightarrow> FilterBlockBuilder" where
  "GenerateFilter b =
     (let num_keys = length (fb_start b) in
      if num_keys = 0 then b\<lparr>filter_offsets := filter_offsets b @ [of_nat (length (fb_result b))]\<rparr>
      else
        let starts = fb_start b @ [length (fb_keys b)];
            tmp_keys = map (\<lambda>i. take (starts ! (i + 1) - starts ! i) (drop (starts ! i) (fb_keys b))) [0..<num_keys]
        in b\<lparr>filter_offsets := filter_offsets b @ [of_nat (length (fb_result b))],
             fb_result := CreateFilter (fb_policy b) tmp_keys (fb_result b), fb_keys := [], fb_start := []\<rparr>)"

lemma GenerateFilter_offsets: "length (filter_offsets (GenerateFilter b)) = Suc (length (filter_offsets b))"
  by (simp add: GenerateFilter_def Let_def)

function generate_until :: "nat \<Rightarrow> FilterBlockBuilder \<Rightarrow> FilterBlockBuilder" where
  "generate_until filter_index b =
     (if filter_index > length (filter_offsets b) then generate_until filter_index (GenerateFilter b) else b)"
  by pat_completeness auto
termination
  by (relation "measure (\<lambda>(i, b). i - length (filter_offsets b))") (auto simp: GenerateFilter_offsets)

declare generate_until.simps [simp del]

definition StartBlock :: "64 word \<Rightarrow> FilterBlockBuilder \<Rightarrow> FilterBlockBuilder" where
  "StartBlock block_offset b = generate_until (unat (block_offset div kFilterBase)) b"

definition AddKey :: "slice \<Rightarrow> FilterBlockBuilder \<Rightarrow> FilterBlockBuilder" where
  "AddKey k b = b\<lparr>fb_start := fb_start b @ [length (fb_keys b)], fb_keys := fb_keys b @ k\<rparr>"

definition FilterBlock_Finish :: "FilterBlockBuilder \<Rightarrow> FilterBlockBuilder" where
  "FilterBlock_Finish b =
     (let b = (if fb_start b \<noteq> [] then GenerateFilter b else b);
          array_offset = of_nat (length (fb_result b));
          r = fold (\<lambda>off r. PutFixed32 r off) (filter_offsets b) (fb_result b);
          r = PutFixed32 r array_offset
      in b\<lparr>fb_result := r @ [of_nat kFilterBaseLg]\<rparr>)"

text \<open>\<open>fdata\<close> and \<open>foffset\<close> are the contents from \<^verbatim>\<open>data_\<close> and from \<^verbatim>\<open>offset_\<close> on.\<close>

record FilterBlockReader =
  rpolicy :: FilterPolicy
  fdata :: "byte list"
  foffset :: "byte list"
  fnum :: nat
  base_lg :: "64 word"

definition new_FilterBlockReader :: "FilterPolicy \<Rightarrow> slice \<Rightarrow> FilterBlockReader" where
  "new_FilterBlockReader p contents =
     (let n = length contents;
          r = \<lparr>rpolicy = p, fdata = [], foffset = [], fnum = 0, base_lg = 0\<rparr> in
      if n < 5 then r
      else
        let r = r\<lparr>base_lg := scast (contents ! (n - 1))\<rparr>;
            last_word = unat (DecodeFixed32 (drop (n - 5) contents)) in
        if last_word > n - 5 then r
        else r\<lparr>fdata := contents, foffset := drop last_word contents, fnum := (n - 5 - last_word) div 4\<rparr>)"

definition FilterBlock_KeyMayMatch :: "FilterBlockReader \<Rightarrow> 64 word \<Rightarrow> slice \<Rightarrow> bool" where
  "FilterBlock_KeyMayMatch r block_offset key =
     (let index = unat (drop_bit (unat (base_lg r)) block_offset) in
      if index < fnum r then
        let start = DecodeFixed32 (drop (index * 4) (foffset r));
            limit = DecodeFixed32 (drop (index * 4 + 4) (foffset r)) in
        if start \<le> limit \<and> unat limit \<le> length (fdata r) - length (foffset r)
        then KeyMayMatch (rpolicy r) key (take (unat (limit - start)) (drop (unat start) (fdata r)))
        else if start = limit then False
        else True
      else True)"

section \<open>The contract of a filter policy\<close>

locale filter_policy =
  fixes pol :: FilterPolicy
  assumes create_appends: "CreateFilter pol ks dst = dst @ CreateFilter pol ks []"
    and create_match: "k \<in> set ks \<Longrightarrow> KeyMayMatch pol k (CreateFilter pol ks [])"
begin

lemma match_appended: "k \<in> set ks \<Longrightarrow> KeyMayMatch pol k (drop (length dst) (CreateFilter pol ks dst))"
  using create_appends [of ks dst] create_match by simp

end


section \<open>The Bloom filter\<close>

definition probe_set :: "byte list \<Rightarrow> nat \<Rightarrow> bool" where
  "probe_set array p \<longleftrightarrow> bit (array ! (p div 8)) (p mod 8)"

lemma probe_test: "array ! (p div 8) AND 2 ^ (p mod 8) = (0 :: byte) \<longleftrightarrow> \<not> probe_set array p"
  using and_exp_eq_0_iff_not_bit [of "array ! (p div 8)" "p mod 8"]
  by (simp add: probe_set_def)

definition included :: "nat \<Rightarrow> byte list \<Rightarrow> byte list \<Rightarrow> bool" where
  "included bits a b \<longleftrightarrow> (\<forall>p < bits. probe_set a p \<longrightarrow> probe_set b p)"

lemma included_refl: "included bits a a"
  by (simp add: included_def)

lemma included_trans: "included bits a b \<Longrightarrow> included bits b c \<Longrightarrow> included bits a c"
  by (simp add: included_def)

lemma length_set_probes [simp]: "length (set_probes j bits h d a) = length a"
  by (induction j arbitrary: h a) (simp_all add: Let_def)

lemma probe_update:
  assumes "p < 8 * length a"
  shows "included (8 * length a) a (a[p div 8 := a ! (p div 8) OR 2 ^ (p mod 8)])"
    and "probe_set (a[p div 8 := a ! (p div 8) OR 2 ^ (p mod 8)]) p"
proof -
  have p: "p div 8 < length a" using assms by simp
  then show "probe_set (a[p div 8 := a ! (p div 8) OR 2 ^ (p mod 8)]) p"
    by (simp add: probe_set_def bit_or_iff bit_exp_iff)
  show "included (8 * length a) a (a[p div 8 := a ! (p div 8) OR 2 ^ (p mod 8)])"
    using p by (auto simp: included_def probe_set_def bit_or_iff nth_list_update)
qed

lemma set_probes_included:
  "0 < bits \<Longrightarrow> bits = 8 * length a \<Longrightarrow> included bits a (set_probes j bits h d a)"
proof (induction j arbitrary: h a)
  case 0
  then show ?case by (simp add: included_refl)
next
  case (Suc j)
  let ?p = "unat h mod bits"
  let ?a = "a[?p div 8 := a ! (?p div 8) OR 2 ^ (?p mod 8)]"
  have "?p < 8 * length a" using Suc.prems by simp
  then have "included bits a ?a" using probe_update(1) Suc.prems by simp
  moreover have "included bits ?a (set_probes j bits (h + d) d ?a)"
    using Suc.IH [of ?a "h + d", OF Suc.prems(1)] Suc.prems(2) by (simp only: length_list_update)
  ultimately have "included bits a (set_probes j bits (h + d) d ?a)" by (rule included_trans)
  then show ?case by (simp add: Let_def)
qed

lemma test_probes_included:
  "0 < bits \<Longrightarrow> test_probes j bits h d a \<Longrightarrow> included bits a b \<Longrightarrow> test_probes j bits h d b"
proof (induction j arbitrary: h)
  case (Suc j)
  have "unat h mod bits < bits" using Suc.prems by simp
  then show ?case using Suc by (auto simp: probe_test included_def Let_def split: if_splits)
qed simp

lemma test_set_probes: "0 < bits \<Longrightarrow> bits = 8 * length a \<Longrightarrow> test_probes j bits h d (set_probes j bits h d a)"
proof (induction j arbitrary: h a)
  case (Suc j)
  let ?p = "unat h mod bits"
  let ?a = "a[?p div 8 := a ! (?p div 8) OR 2 ^ (?p mod 8)]"
  have p: "?p < 8 * length a" using Suc.prems by simp
  have "included bits ?a (set_probes j bits (h + d) d ?a)" using Suc.prems by (intro set_probes_included) simp_all
  then have "probe_set (set_probes j bits (h + d) d ?a) ?p"
    using probe_update(2) [OF p] Suc.prems p by (simp add: included_def)
  moreover have "test_probes j bits (h + d) d (set_probes j bits (h + d) d ?a)"
    using Suc.IH [of ?a "h + d", OF Suc.prems(1)] Suc.prems(2) by (simp only: length_list_update)
  ultimately show ?case by (simp add: Let_def probe_test)
qed simp

definition add_probes :: "nat \<Rightarrow> nat \<Rightarrow> slice \<Rightarrow> byte list \<Rightarrow> byte list" where
  "add_probes k bits key array = (let h = BloomHash key in set_probes k bits h (rotate17 h) array)"

lemma fold_probes:
  "0 < bits \<Longrightarrow> bits = 8 * length a \<Longrightarrow> included bits a (fold (add_probes k bits) ks a) \<and>
    length (fold (add_probes k bits) ks a) = length a \<and>
    (\<forall>key \<in> set ks. test_probes k bits (BloomHash key) (rotate17 (BloomHash key)) (fold (add_probes k bits) ks a))"
proof (induction ks arbitrary: a)
  case Nil
  then show ?case by (simp add: included_refl)
next
  case (Cons x ks)
  let ?a = "add_probes k bits x a"
  have a: "length ?a = length a" "included bits a ?a"
    "test_probes k bits (BloomHash x) (rotate17 (BloomHash x)) ?a"
    using Cons.prems by (simp_all add: add_probes_def Let_def set_probes_included test_set_probes)
  have IH: "included bits ?a (fold (add_probes k bits) ks ?a)"
    "length (fold (add_probes k bits) ks ?a) = length ?a"
    "\<forall>key \<in> set ks. test_probes k bits (BloomHash key) (rotate17 (BloomHash key)) (fold (add_probes k bits) ks ?a)"
    using Cons.IH [of ?a] Cons.prems a(1) by simp_all
  show ?case
    using IH a Cons.prems(1) included_trans [OF a(2) IH(1)] test_probes_included [OF _ a(3) IH(1)] by simp
qed

lemma length_Bloom:
  "length (Bloom_CreateFilter p ks dst) = length dst + (max 64 (length ks * bits_per_key p) + 7) div 8 + 1"
proof -
  have "length (fold (add_probes k b) ks a) = length a" for k b and a :: "byte list"
    by (induction ks arbitrary: a) (simp_all add: add_probes_def Let_def)
  then show ?thesis
    by (simp add: Bloom_CreateFilter_def Let_def max_def add_probes_def [abs_def])
qed

lemma Bloom_shape:
  "\<exists>bytes array. 8 \<le> bytes \<and> length array = bytes \<and>
    (\<forall>key \<in> set ks. test_probes (k_probes p) (bytes * 8) (BloomHash key) (rotate17 (BloomHash key)) array) \<and>
    (\<forall>dst. Bloom_CreateFilter p ks dst = dst @ array @ [of_nat (k_probes p)])"
proof -
  define bits where "bits = length ks * bits_per_key p"
  define bytes where "bytes = ((if bits < 64 then 64 else bits) + 7) div 8"
  define array where "array = fold (add_probes (k_probes p) (bytes * 8)) ks (replicate bytes 0)"
  have "8 \<le> bytes" using div_le_mono [of 64 "bits + 7" 8] by (simp add: bytes_def)
  moreover have "\<forall>dst. Bloom_CreateFilter p ks dst = dst @ array @ [of_nat (k_probes p)]"
    by (simp only: Bloom_CreateFilter_def Let_def array_def bytes_def bits_def add_probes_def [abs_def]) simp
  moreover have "length array = bytes \<and>
      (\<forall>key \<in> set ks. test_probes (k_probes p) (bytes * 8) (BloomHash key) (rotate17 (BloomHash key)) array)"
    using fold_probes [of "bytes * 8" "replicate bytes 0" "k_probes p" ks] \<open>8 \<le> bytes\<close>
    unfolding array_def by simp
  ultimately show ?thesis by blast
qed

lemma test_probes_append:
  "bits \<le> 8 * length a \<Longrightarrow> 0 < bits \<Longrightarrow> test_probes j bits h d (a @ xs) = test_probes j bits h d a"
proof (induction j arbitrary: h)
  case (Suc j)
  have "unat h mod bits < bits" using Suc.prems by simp
  then have "unat h mod bits < length a * 8" using Suc.prems(1) by linarith
  then have "unat h mod bits div 8 < length a" by (rule less_mult_imp_div_less)
  then show ?case using Suc by (simp add: Let_def nth_append)
qed simp

lemma scast_probes: "k \<le> 30 \<Longrightarrow> unat (scast (of_nat k :: byte) :: 64 word) = k"
proof -
  have "\<forall>k \<in> set [0..<31]. unat (scast (of_nat k :: byte) :: 64 word) = k" by code_simp
  then show "k \<le> 30 \<Longrightarrow> ?thesis" by simp
qed

lemma k_probes_range: "1 \<le> k_probes (new_BloomFilterPolicy b) \<and> k_probes (new_BloomFilterPolicy b) \<le> 30"
  by (simp add: new_BloomFilterPolicy_def Let_def)

interpretation bloom: filter_policy "NewBloomFilterPolicy b" for b
proof unfold_locales
  fix ks dst
  show "CreateFilter (NewBloomFilterPolicy b) ks dst = dst @ CreateFilter (NewBloomFilterPolicy b) ks []"
    by (simp add: NewBloomFilterPolicy_def Bloom_CreateFilter_def Let_def)
next
  fix k and ks :: "slice list" assume k: "k \<in> set ks"
  let ?p = "new_BloomFilterPolicy b"
  obtain bytes array where s: "8 \<le> bytes" "length array = bytes"
    "\<forall>key \<in> set ks. test_probes (k_probes ?p) (bytes * 8) (BloomHash key) (rotate17 (BloomHash key)) array"
    "\<forall>dst. Bloom_CreateFilter ?p ks dst = dst @ array @ [of_nat (k_probes ?p)]"
    using Bloom_shape by blast
  then have "test_probes (k_probes ?p) (bytes * 8) (BloomHash k) (rotate17 (BloomHash k)) (array @ [of_nat (k_probes ?p)])"
    using k test_probes_append [of "bytes * 8" array] by simp
  then show "KeyMayMatch (NewBloomFilterPolicy b) k (CreateFilter (NewBloomFilterPolicy b) ks [])"
    using s scast_probes [of "k_probes ?p"] k_probes_range [of b]
    by (simp add: NewBloomFilterPolicy_def Bloom_KeyMayMatch_def Let_def nth_append)
qed

lemma internal_policy:
  assumes "filter_policy pol"
  shows "filter_policy (InternalFilterPolicy pol)"
proof
  fix ks dst
  show "CreateFilter (InternalFilterPolicy pol) ks dst = dst @ CreateFilter (InternalFilterPolicy pol) ks []"
    using filter_policy.create_appends [OF assms, of "map ExtractUserKey ks" dst] by (simp add: InternalFilterPolicy_def)
next
  fix k and ks :: "slice list" assume "k \<in> set ks"
  then show "KeyMayMatch (InternalFilterPolicy pol) k (CreateFilter (InternalFilterPolicy pol) ks [])"
    using filter_policy.create_match [OF assms, of "ExtractUserKey k" "map ExtractUserKey ks"]
    by (simp add: InternalFilterPolicy_def)
qed

interpretation internal_bloom: filter_policy "InternalFilterPolicy (NewBloomFilterPolicy b)" for b
  by (rule internal_policy) (rule bloom.filter_policy_axioms)

section \<open>The filter block\<close>

text \<open>
  What a builder stands for: the key lists of the filters it has closed, and the keys of the one it
  collects.
\<close>

type_synonym filters = "slice list list \<times> slice list"

definition start_filter :: "nat \<Rightarrow> filters \<Rightarrow> filters" where
  "start_filter i s = (case s of (d, p) \<Rightarrow>
     if i \<le> length d then (d, p) else (d @ p # replicate (i - length d - 1) [], []))"

definition close_filters :: "filters \<Rightarrow> slice list list" where
  "close_filters s = (case s of (d, p) \<Rightarrow> if p = [] then d else d @ [p])"

definition offset_index :: "64 word \<Rightarrow> nat" where
  "offset_index off = unat off div 2048"

text \<open>A table writer starts a block and then adds its keys.\<close>

definition add_block :: "64 word \<times> slice list \<Rightarrow> FilterBlockBuilder \<Rightarrow> FilterBlockBuilder" where
  "add_block x b = fold AddKey (snd x) (StartBlock (fst x) b)"

definition block_filters :: "64 word \<times> slice list \<Rightarrow> filters \<Rightarrow> filters" where
  "block_filters x s = (case start_filter (offset_index (fst x)) s of (d, p) \<Rightarrow> (d, p @ snd x))"

lemma block_index: "unat (off div kFilterBase) = offset_index off"
  by (simp add: kFilterBase_def kFilterBaseLg_def offset_index_def unat_div)

text \<open>Every key ends up in the filter of its block's offset.\<close>

lemma filters_hold_keys:
  assumes "sorted (map (\<lambda>x. offset_index (fst x)) blocks)" and "\<forall>x \<in> set blocks. length d \<le> offset_index (fst x)"
  shows "(\<forall>i < length d. i < length (close_filters (fold block_filters blocks (d, p))) \<and>
      close_filters (fold block_filters blocks (d, p)) ! i = d ! i) \<and>
    (p \<noteq> [] \<longrightarrow> length d < length (close_filters (fold block_filters blocks (d, p))) \<and>
      set p \<subseteq> set (close_filters (fold block_filters blocks (d, p)) ! length d)) \<and>
    (\<forall>x \<in> set blocks. \<forall>k \<in> set (snd x).
      offset_index (fst x) < length (close_filters (fold block_filters blocks (d, p))) \<and>
      k \<in> set (close_filters (fold block_filters blocks (d, p)) ! offset_index (fst x)))"
  using assms
proof (induction blocks arbitrary: d p)
  case Nil
  then show ?case by (auto simp: close_filters_def nth_append)
next
  case (Cons x blocks)
  let ?i = "offset_index (fst x)"
  obtain d' p' where dp: "block_filters x (d, p) = (d', p')" by fastforce
  have d': "length d' = ?i" and pre: "\<forall>i < length d. d' ! i = d ! i \<and> i < length d'"
    and p': "?i = length d \<Longrightarrow> p' = p @ snd x" "?i \<noteq> length d \<Longrightarrow> p' = snd x \<and> d' ! length d = p \<and> length d < length d'"
    using dp Cons.prems(2) by (auto simp: block_filters_def start_filter_def nth_append split: if_splits)
  let ?D = "close_filters (fold block_filters blocks (d', p'))"
  have "sorted (map (\<lambda>x. offset_index (fst x)) blocks)" "\<forall>y \<in> set blocks. length d' \<le> offset_index (fst y)"
    using Cons.prems(1) d' by auto
  note IH = Cons.IH [OF this, of p']
  have D: "close_filters (fold block_filters (x # blocks) (d, p)) = ?D" using dp by simp
  have one: "\<forall>i < length d. i < length ?D \<and> ?D ! i = d ! i" using IH pre by auto
  have two: "p \<noteq> [] \<longrightarrow> length d < length ?D \<and> set p \<subseteq> set (?D ! length d)"
    using IH p' d' by (cases "?i = length d") auto
  have three: "\<forall>k \<in> set (snd x). ?i < length ?D \<and> k \<in> set (?D ! ?i)"
    using IH p' d' by (cases "?i = length d") auto
  show ?case unfolding D using one two three IH by simp
qed

lemma fold_PutFixed32: "fold (\<lambda>off r. PutFixed32 r off) ws r = r @ concat (map EncodeFixed32 ws)"
  by (induction ws arbitrary: r) (simp_all add: PutFixed32_def)

lemma length_Fixed32s: "length (concat (map EncodeFixed32 ws)) = 4 * length ws"
  by (induction ws) simp_all

lemma drop_Fixed32s: "i \<le> length ws \<Longrightarrow> drop (i * 4) (concat (map EncodeFixed32 ws) @ t) = concat (map EncodeFixed32 (drop i ws)) @ t"
proof (induction ws arbitrary: i)
  case (Cons w ws)
  then show ?case by (cases i) simp_all
qed simp

lemma nth_Fixed32:
  assumes "i < length ws"
  shows "DecodeFixed32 (drop (i * 4) (concat (map EncodeFixed32 ws) @ t)) = ws ! i"
proof -
  have "drop i ws = ws ! i # drop (Suc i) ws" using assms by (simp add: Cons_nth_drop_Suc)
  then have "drop (i * 4) (concat (map EncodeFixed32 ws) @ t) =
      EncodeFixed32 (ws ! i) @ concat (map EncodeFixed32 (drop (Suc i) ws)) @ t"
    by (simp only: drop_Fixed32s [OF less_imp_le [OF assms]]) simp
  then show ?thesis by (simp only: DecodeFixed32_Encode)
qed

context filter_policy
begin

definition flt :: "slice list \<Rightarrow> byte list" where
  "flt ks = (if ks = [] then [] else CreateFilter pol ks [])"

definition filter_offset :: "slice list list \<Rightarrow> nat \<Rightarrow> 32 word" where
  "filter_offset d i = of_nat (length (concat (map flt (take i d))))"

definition builder_for :: "filters \<Rightarrow> FilterBlockBuilder \<Rightarrow> bool" where
  "builder_for s b \<longleftrightarrow> (case s of (d, p) \<Rightarrow>
     fb_policy b = pol \<and> fb_result b = concat (map flt d) \<and>
     filter_offsets b = map (filter_offset d) [0..<length d] \<and>
     fb_keys b = concat p \<and> fb_start b = map (\<lambda>i. length (concat (take i p))) [0..<length p])"

lemma tmp_keys:
  "map (\<lambda>i. take ((map (\<lambda>i. length (concat (take i p))) [0..<length p] @ [length (concat p)]) ! (i + 1) -
       (map (\<lambda>i. length (concat (take i p))) [0..<length p] @ [length (concat p)]) ! i)
     (drop ((map (\<lambda>i. length (concat (take i p))) [0..<length p] @ [length (concat p)]) ! i) (concat p)))
   [0..<length p] = p"
proof (rule nth_equalityI)
  fix i assume "i < length (map (\<lambda>i. take ((map (\<lambda>i. length (concat (take i p))) [0..<length p] @ [length (concat p)]) ! (i + 1) -
       (map (\<lambda>i. length (concat (take i p))) [0..<length p] @ [length (concat p)]) ! i)
     (drop ((map (\<lambda>i. length (concat (take i p))) [0..<length p] @ [length (concat p)]) ! i) (concat p))) [0..<length p])"
  then have i: "i < length p" by simp
  have nth: "(map (\<lambda>i. length (concat (take i p))) [0..<length p] @ [length (concat p)]) ! j = length (concat (take j p))"
    if "j \<le> length p" for j
    using that by (auto simp: nth_append)
  have split: "concat p = concat (take i p) @ p ! i @ concat (drop (Suc i) p)"
    using id_take_nth_drop [OF i] by (metis concat.simps(2) concat_append)
  have step: "concat (take (Suc i) p) = concat (take i p) @ p ! i"
    using i by (simp add: take_Suc_conv_app_nth)
  show "map (\<lambda>i. take ((map (\<lambda>i. length (concat (take i p))) [0..<length p] @ [length (concat p)]) ! (i + 1) -
       (map (\<lambda>i. length (concat (take i p))) [0..<length p] @ [length (concat p)]) ! i)
     (drop ((map (\<lambda>i. length (concat (take i p))) [0..<length p] @ [length (concat p)]) ! i) (concat p)))
     [0..<length p] ! i = p ! i"
    using i nth [of i] nth [of "Suc i"] step by (simp add: split)
qed simp

lemma builder_AddKey: "builder_for (d, p) b \<Longrightarrow> builder_for (d, p @ [k]) (AddKey k b)"
  by (auto simp: builder_for_def AddKey_def)

lemma builder_AddKeys: "builder_for (d, p) b \<Longrightarrow> builder_for (d, p @ ks) (fold AddKey ks b)"
proof (induction ks arbitrary: p b)
  case (Cons k ks)
  then show ?case using Cons.IH [OF builder_AddKey [OF Cons.prems, of k]] by simp
qed simp

lemma filter_offset_append: "i \<le> length d \<Longrightarrow> filter_offset (d @ e) i = filter_offset d i"
  by (simp add: filter_offset_def)

lemma builder_Generate:
  assumes "builder_for (d, p) b"
  shows "builder_for (d @ [p], []) (GenerateFilter b)"
proof -
  have offs: "map (filter_offset (d @ [p])) [0..<length (d @ [p])] =
      map (filter_offset d) [0..<length d] @ [of_nat (length (concat (map flt d)))]"
    by (simp add: filter_offset_append) (simp add: filter_offset_def)
  have res: "concat (map flt (d @ [p])) = concat (map flt d) @ flt p" by simp
  show ?thesis
  proof (cases "p = []")
    case True
    then show ?thesis using assms unfolding builder_for_def prod.case offs res
      by (simp add: GenerateFilter_def flt_def)
  next
    case False
    then show ?thesis using assms create_appends [of p "concat (map flt d)"]
      unfolding builder_for_def prod.case offs res
      by (simp add: GenerateFilter_def Let_def tmp_keys [unfolded Suc_eq_plus1 [symmetric]] flt_def)
  qed
qed

lemma builder_offsets: "builder_for (d, p) b \<Longrightarrow> length (filter_offsets b) = length d"
  by (simp add: builder_for_def)

lemma builder_until:
  "builder_for (d, p) b \<Longrightarrow> builder_for (start_filter i (d, p)) (generate_until i b)"
proof (induction i b arbitrary: d p rule: generate_until.induct)
  case (1 i b)
  show ?case
  proof (cases "i > length d")
    case True
    then have more: "i > length (filter_offsets b)" using builder_offsets [OF 1(2)] by simp
    have "start_filter i (d @ [p], []) = start_filter i (d, p)"
    proof (cases "i = Suc (length d)")
      case False
      have "replicate (i - Suc (length d)) ([] :: slice list) = [] # replicate (i - Suc (Suc (length d))) []"
        using True False by (simp add: Suc_diff_Suc flip: replicate_Suc)
      then show ?thesis using True False by (simp add: start_filter_def)
    qed (simp add: start_filter_def)
    then show ?thesis using 1(1) [OF more builder_Generate [OF 1(2)]] more by (simp add: generate_until.simps [of i b])
  next
    case False
    then show ?thesis using 1(2) builder_offsets [OF 1(2)]
      by (simp add: generate_until.simps [of i b] start_filter_def)
  qed
qed

lemma builder_block:
  assumes "builder_for s b"
  shows "builder_for (block_filters x s) (add_block x b)"
proof -
  obtain d p where s: "s = (d, p)" by (cases s)
  obtain d' p' where s': "start_filter (offset_index (fst x)) s = (d', p')" by fastforce
  have "builder_for (d', p') (generate_until (offset_index (fst x)) b)"
    using builder_until [OF assms [unfolded s]] s' s by metis
  from builder_AddKeys [OF this] show ?thesis
    by (simp add: block_filters_def add_block_def StartBlock_def block_index s')
qed

lemma builder_blocks: "builder_for s b \<Longrightarrow> builder_for (fold block_filters xs s) (fold add_block xs b)"
  by (induction xs arbitrary: s b) (simp_all add: builder_block)

lemma builder_new: "builder_for ([], []) (new_FilterBlockBuilder pol)"
  by (simp add: builder_for_def new_FilterBlockBuilder_def)

text \<open>What \<^verbatim>\<open>Finish\<close> writes for the closed filters \<open>D\<close>, and what a reader makes of it.\<close>

definition offset_words :: "slice list list \<Rightarrow> 32 word list" where
  "offset_words D = map (filter_offset D) [0..<Suc (length D)]"

definition filter_contents :: "slice list list \<Rightarrow> byte list" where
  "filter_contents D = concat (map flt D) @ concat (map EncodeFixed32 (offset_words D)) @ [11]"

lemma Finish_closed:
  assumes "builder_for (d, p) b" and "d' = close_filters (d, p)"
  shows "fb_result (FilterBlock_Finish b) = filter_contents d'"
proof -
  define b' where "b' = (if fb_start b \<noteq> [] then GenerateFilter b else b)"
  have "fb_start b = [] \<longleftrightarrow> p = []" using assms(1) by (simp add: builder_for_def)
  then have "builder_for (d', []) b'"
    using assms builder_Generate [OF assms(1)] by (auto simp: b'_def close_filters_def)
  then have r: "fb_result b' = concat (map flt d')" "filter_offsets b' = map (filter_offset d') [0..<length d']"
    by (simp_all add: builder_for_def)
  have "FilterBlock_Finish b = b'\<lparr>fb_result := PutFixed32 (fold (\<lambda>off r. PutFixed32 r off)
      (filter_offsets b') (fb_result b')) (of_nat (length (fb_result b'))) @ [of_nat kFilterBaseLg]\<rparr>"
    by (simp add: FilterBlock_Finish_def Let_def b'_def)
  also have "fold (\<lambda>off r. PutFixed32 r off) (filter_offsets b') (fb_result b') =
      concat (map flt d') @ concat (map EncodeFixed32 (map (filter_offset d') [0..<length d']))"
    by (simp only: r fold_PutFixed32)
  finally show ?thesis
    by (simp add: r(1) PutFixed32_def filter_contents_def offset_words_def kFilterBaseLg_def filter_offset_def)
qed

lemma filter_range:
  assumes "i < length D"
  shows "concat (map flt D) = concat (map flt (take i D)) @ flt (D ! i) @ concat (map flt (drop (Suc i) D))"
    and "concat (map flt (take (Suc i) D)) = concat (map flt (take i D)) @ flt (D ! i)"
proof -
  show "concat (map flt D) = concat (map flt (take i D)) @ flt (D ! i) @ concat (map flt (drop (Suc i) D))"
    using id_take_nth_drop [OF assms] by (metis concat.simps(2) concat_append list.simps(9) map_append)
  show "concat (map flt (take (Suc i) D)) = concat (map flt (take i D)) @ flt (D ! i)"
    using assms by (simp add: take_Suc_conv_app_nth)
qed

lemma filter_offset_le:
  assumes "i \<le> length D" and "length (concat (map flt D)) < 2 ^ 32"
  shows "unat (filter_offset D i) = length (concat (map flt (take i D)))"
    and "length (concat (map flt (take i D))) \<le> length (concat (map flt D))"
proof -
  show le: "length (concat (map flt (take i D))) \<le> length (concat (map flt D))"
    by (metis append_take_drop_id concat_append length_append le_add1 map_append)
  show "unat (filter_offset D i) = length (concat (map flt (take i D)))"
    using le assms(2) by (simp add: filter_offset_def unat_of_nat)
qed

lemma reader_closed:
  assumes "length (concat (map flt D)) < 2 ^ 32"
  shows "new_FilterBlockReader pol (filter_contents D) =
    \<lparr>rpolicy = pol, fdata = filter_contents D, foffset = concat (map EncodeFixed32 (offset_words D)) @ [11],
     fnum = length D, base_lg = 11\<rparr>"
proof -
  let ?F = "concat (map flt D)" and ?W = "concat (map EncodeFixed32 (offset_words D))"
  let ?c = "filter_contents D" and ?W' = "concat (map EncodeFixed32 (map (filter_offset D) [0..<length D]))"
  have W: "length ?W = 4 * length D + 4" by (simp only: length_Fixed32s) (simp add: offset_words_def)
  have n: "length ?c = length ?F + 4 * length D + 5" by (simp add: filter_contents_def W)
  have last: "?c ! (length ?c - 1) = 11" by (simp add: n filter_contents_def nth_append W)
  have "?c = (?F @ ?W') @ EncodeFixed32 (filter_offset D (length D)) @ [11]"
    by (simp add: filter_contents_def offset_words_def)
  moreover have "length ?c - 5 = length (?F @ ?W')" by (simp only: n length_append length_Fixed32s) simp
  ultimately have "drop (length ?c - 5) ?c = EncodeFixed32 (filter_offset D (length D)) @ [11]"
    by (metis append_eq_conv_conj)
  then have word: "unat (DecodeFixed32 (drop (length ?c - 5) ?c)) = length ?F"
    using filter_offset_le [of "length D"] assms by (simp add: DecodeFixed32_Encode)
  have off: "drop (length ?F) ?c = ?W @ [11]" by (simp add: filter_contents_def)
  have "(scast (11 :: byte) :: 64 word) = 11" by code_simp
  then show ?thesis
    using last word by (simp add: new_FilterBlockReader_def Let_def off n)
qed

lemma reader_filter:
  assumes D: "length (concat (map flt D)) < 2 ^ 32" and i: "offset_index off < length D"
    and k: "k \<in> set (D ! offset_index off)"
  shows "FilterBlock_KeyMayMatch (new_FilterBlockReader pol (filter_contents D)) off k"
proof -
  let ?i = "offset_index off"
  have index: "unat (drop_bit 11 off) = ?i" by (simp add: offset_index_def drop_bit_eq_div unat_div)
  have nth: "DecodeFixed32 (drop (j * 4) (concat (map EncodeFixed32 (offset_words D)) @ [11])) = filter_offset D j"
    if "j \<le> length D" for j
    using that nth_Fixed32 [of j "offset_words D"] by (simp add: offset_words_def less_Suc_eq_le nth_append)
  have start: "DecodeFixed32 (drop (?i * 4) (concat (map EncodeFixed32 (offset_words D)) @ [11])) = filter_offset D ?i"
    and limit: "DecodeFixed32 (drop (?i * 4 + 4) (concat (map EncodeFixed32 (offset_words D)) @ [11])) = filter_offset D (Suc ?i)"
    using nth [of ?i] nth [of "Suc ?i"] i by (simp_all add: add.commute)
  note us = filter_offset_le [OF less_imp_le [OF i] D] and ul = filter_offset_le [OF Suc_leI [OF i] D]
  have le: "filter_offset D ?i \<le> filter_offset D (Suc ?i)"
    by (simp add: word_le_nat_alt us ul filter_range(2) [OF i])
  have len: "unat (filter_offset D (Suc ?i) - filter_offset D ?i) = length (flt (D ! ?i))"
    using le by (simp add: unat_sub us ul filter_range(2) [OF i])
  have "take (length (flt (D ! ?i))) (drop (unat (filter_offset D ?i)) (filter_contents D)) = flt (D ! ?i)"
    by (simp add: us filter_contents_def filter_range(1) [OF i])
  moreover have "KeyMayMatch pol k (flt (D ! ?i))"
    using create_match [OF k] k by (auto simp: flt_def)
  moreover have "length (filter_contents D) - length (concat (map EncodeFixed32 (offset_words D)) @ [11 :: byte]) =
      length (concat (map flt D))"
    by (simp add: filter_contents_def)
  ultimately show ?thesis
    using le ul i by (simp add: FilterBlock_KeyMayMatch_def reader_closed [OF D] index start limit len Let_def del: drop_append)
qed

lemma filter_block_complete:
  assumes sorted: "sorted (map (\<lambda>x. offset_index (fst x)) blocks)"
    and size: "length (fb_result (FilterBlock_Finish (fold add_block blocks (new_FilterBlockBuilder pol)))) < 2 ^ 32"
    and x: "(off, ks) \<in> set blocks" "k \<in> set ks"
  shows "FilterBlock_KeyMayMatch (new_FilterBlockReader pol
    (fb_result (FilterBlock_Finish (fold add_block blocks (new_FilterBlockBuilder pol))))) off k"
proof -
  obtain d p where dp: "fold block_filters blocks ([], []) = (d, p)" by fastforce
  define D where "D = close_filters (d, p)"
  have "builder_for (d, p) (fold add_block blocks (new_FilterBlockBuilder pol))"
    using builder_blocks [OF builder_new, of blocks] dp by simp
  then have fin: "fb_result (FilterBlock_Finish (fold add_block blocks (new_FilterBlockBuilder pol))) = filter_contents D"
    using Finish_closed D_def by blast
  have "\<forall>x \<in> set blocks. \<forall>k \<in> set (snd x). offset_index (fst x) < length D \<and> k \<in> set (D ! offset_index (fst x))"
    using filters_hold_keys [OF sorted, of "[]" "[]"] dp by (simp add: D_def)
  then have "offset_index off < length D" "k \<in> set (D ! offset_index off)" using x by fastforce+
  moreover have "length (concat (map flt D)) < 2 ^ 32" using size by (simp add: fin filter_contents_def)
  ultimately show ?thesis using reader_filter fin by simp
qed

end

section \<open>No false negatives\<close>

text \<open>C18:
  A filter block denies no key that was added to it.  A table writer that starts its data blocks at
  nondecreasing offsets and adds their keys, then finishes a filter block shorter than 4 GB, gets one
  whose reader answers that the key may match for every key of the block at its offset, under the
  Bloom policy of any number of bits per key and under its wrapper for internal keys.
\<close>

theorem filter_block_no_false_negatives:
  assumes "sorted (map (\<lambda>x. offset_index (fst x)) blocks)"
    and "pol = NewBloomFilterPolicy bits \<or> pol = InternalFilterPolicy (NewBloomFilterPolicy bits)"
    and "length (fb_result (FilterBlock_Finish (fold add_block blocks (new_FilterBlockBuilder pol)))) < 2 ^ 32"
    and "(off, ks) \<in> set blocks" and "k \<in> set ks"
  shows "FilterBlock_KeyMayMatch (new_FilterBlockReader pol
    (fb_result (FilterBlock_Finish (fold add_block blocks (new_FilterBlockBuilder pol))))) off k"
  using assms(2) bloom.filter_block_complete [OF assms(1) _ assms(4,5)]
    internal_bloom.filter_block_complete [OF assms(1) _ assms(4,5)] assms(3) by auto

lemma filter_block_no_false_negatives_witness:
  "FilterBlock_KeyMayMatch (new_FilterBlockReader (NewBloomFilterPolicy 3)
    (fb_result (FilterBlock_Finish (fold add_block [(0, [[97]]), (4096, [[98]])]
       (new_FilterBlockBuilder (NewBloomFilterPolicy 3)))))) 4096 [98]"
proof (rule filter_block_no_false_negatives [of "[(0, [[97]]), (4096, [[98]])]" _ 3])
  have "length (fb_result (FilterBlock_Finish (fold add_block [(0, [[97]]), (4096, [[98]])]
       (new_FilterBlockBuilder (NewBloomFilterPolicy 3))))) = 35"
    by (simp add: add_block_def AddKey_def StartBlock_def generate_until.simps kFilterBase_def kFilterBaseLg_def
      unat_div new_FilterBlockBuilder_def FilterBlock_Finish_def GenerateFilter_def Let_def NewBloomFilterPolicy_def
      length_Bloom PutFixed32_def new_BloomFilterPolicy_def)
  then show "length (fb_result (FilterBlock_Finish (fold add_block [(0, [[97]]), (4096, [[98]])]
       (new_FilterBlockBuilder (NewBloomFilterPolicy 3))))) < 2 ^ 32" by simp
qed (auto simp: offset_index_def)

end
