(* ===== verification/Ldb_Block.thy ===== *)
theory Ldb_Block
  imports Ldb_Iterator Ldb_Filter
begin

text \<open>
  Blocks, which hold sorted entries with their keys cut by what they share with the key before:
  the builder (\<^verbatim>\<open>table/block_builder.cc\<close>), the block and its iterator (\<^verbatim>\<open>table/block.cc\<close>), with the options
  they read (\<^verbatim>\<open>include/leveldb/options.h\<close>).
\<close>

section \<open>Options\<close>

datatype CompressionType = kNoCompression | kSnappyCompression

primrec compression_code :: "CompressionType \<Rightarrow> byte" where
  "compression_code kNoCompression = 0"
| "compression_code kSnappyCompression = 1"

text \<open>The options that shape a table; a null filter policy is \<^const>\<open>None\<close>.\<close>

record Options =
  comparator_of :: Comparator
  paranoid_checks :: bool
  block_size :: nat
  block_restart_interval :: nat
  compression :: CompressionType
  filter_policy_of :: "FilterPolicy option"

definition default_Options :: Options where
  "default_Options =
     \<lparr>comparator_of = BytewiseComparator, paranoid_checks = False, block_size = 4 * 1024,
      block_restart_interval = 16, compression = kSnappyCompression, filter_policy_of = None\<rparr>"

record ReadOptions =
  verify_checksums :: bool
  fill_cache :: bool

section \<open>The builder\<close>

record BlockBuilder =
  bb_options :: Options
  bb_buffer :: "byte list"
  bb_restarts :: "32 word list"
  bb_counter :: nat
  bb_finished :: bool
  bb_last_key :: "byte list"

definition new_BlockBuilder :: "Options \<Rightarrow> BlockBuilder" where
  "new_BlockBuilder options =
     \<lparr>bb_options = options, bb_buffer = [], bb_restarts = [0], bb_counter = 0, bb_finished = False, bb_last_key = []\<rparr>"

definition BlockBuilder_Reset :: "BlockBuilder \<Rightarrow> BlockBuilder" where
  "BlockBuilder_Reset b =
     b\<lparr>bb_buffer := [], bb_restarts := [0], bb_counter := 0, bb_finished := False, bb_last_key := []\<rparr>"

definition CurrentSizeEstimate :: "BlockBuilder \<Rightarrow> nat" where
  "CurrentSizeEstimate b = length (bb_buffer b) + length (bb_restarts b) * 4 + 4"

definition BlockBuilder_Finish :: "BlockBuilder \<Rightarrow> BlockBuilder" where
  "BlockBuilder_Finish b =
     (let buffer = fold (\<lambda>r buffer. PutFixed32 buffer r) (bb_restarts b) (bb_buffer b);
          buffer = PutFixed32 buffer (of_nat (length (bb_restarts b)))
      in b\<lparr>bb_buffer := buffer, bb_finished := True\<rparr>)"

definition BlockBuilder_empty :: "BlockBuilder \<Rightarrow> bool" where
  "BlockBuilder_empty b \<longleftrightarrow> bb_buffer b = []"

definition BlockBuilder_Add :: "slice \<Rightarrow> slice \<Rightarrow> BlockBuilder \<Rightarrow> BlockBuilder" where
  "BlockBuilder_Add key val b =
     (let (shared, b) =
            (if bb_counter b < block_restart_interval (bb_options b) then (common_prefix (bb_last_key b) key, b)
             else (0, b\<lparr>bb_restarts := bb_restarts b @ [of_nat (length (bb_buffer b))], bb_counter := 0\<rparr>));
          non_shared = length key - shared;
          buffer = PutVarint32 (bb_buffer b) (of_nat shared);
          buffer = PutVarint32 buffer (of_nat non_shared);
          buffer = PutVarint32 buffer (of_nat (length val));
          buffer = buffer @ take non_shared (drop shared key);
          buffer = buffer @ val
      in b\<lparr>bb_buffer := buffer, bb_last_key := take shared (bb_last_key b) @ take non_shared (drop shared key),
           bb_counter := bb_counter b + 1\<rparr>)"

section \<open>Blocks\<close>

record BlockContents =
  contents_data :: slice
  cachable :: bool
  heap_allocated :: bool

text \<open>
  \<open>restart_offset\<close> is left as it is by the constructor when the block is marked bad; 0 stands for
  that.
\<close>

record Block =
  bl_data :: "byte list"
  bl_size :: nat
  restart_offset :: "32 word"
  bl_owned :: bool

definition NumRestarts :: "byte list \<Rightarrow> nat \<Rightarrow> 32 word" where
  "NumRestarts data sz = DecodeFixed32 (drop (sz - 4) data)"

definition new_Block :: "BlockContents \<Rightarrow> Block" where
  "new_Block c =
     (let data = contents_data c; sz = length data;
          b = \<lparr>bl_data = data, bl_size = sz, restart_offset = 0, bl_owned = heap_allocated c\<rparr> in
      if sz < 4 then b\<lparr>bl_size := 0\<rparr>
      else
        let max_restarts_allowed = (sz - 4) div 4 in
        if unat (NumRestarts data sz) > max_restarts_allowed then b\<lparr>bl_size := 0\<rparr>
        else b\<lparr>restart_offset := of_nat (sz - unat (1 + NumRestarts data sz) * 4)\<rparr>)"

text \<open>
  The bytes from \<^verbatim>\<open>p\<close> to \<^verbatim>\<open>limit\<close>; the result is the three numbers and what is left of the bytes, or
  \<^const>\<open>None\<close> for a null pointer.  The sum of the two lengths is one of 32 bits.
\<close>

definition DecodeEntry :: "byte list \<Rightarrow> (32 word \<times> 32 word \<times> 32 word \<times> byte list) option" where
  "DecodeEntry p =
     (if length p < 3 then None
      else
        let shared = ucast (p ! 0); non_shared = ucast (p ! 1); value_length = ucast (p ! 2);
            heads =
              (if (shared OR non_shared OR value_length) < 128 then Some (shared, non_shared, value_length, drop 3 p)
               else
                 case GetVarint32Ptr p of None \<Rightarrow> None
                 | Some (shared, p) \<Rightarrow>
                     (case GetVarint32Ptr p of None \<Rightarrow> None
                      | Some (non_shared, p) \<Rightarrow>
                          (case GetVarint32Ptr p of None \<Rightarrow> None
                           | Some (value_length, p) \<Rightarrow> Some (shared, non_shared, value_length, p)))) in
        case heads of None \<Rightarrow> None
        | Some (shared, non_shared, value_length, p) \<Rightarrow>
            if of_nat (length p) < non_shared + value_length then None
            else Some (shared, non_shared, value_length, p))"

section \<open>The iterator of a block\<close>

text \<open>
  \<^verbatim>\<open>value_\<close> is the offset of its first byte in \<^verbatim>\<open>data_\<close> and its size; when it has been cleared both are 0,
  and the next operation that reads it is a seek, which sets it.
\<close>

record BlockIter =
  bi_comparator :: Comparator
  bi_data :: "byte list"
  restarts :: "32 word"
  num_restarts :: "32 word"
  current :: "32 word"
  restart_index :: "32 word"
  bi_key :: "byte list"
  value_at :: nat
  value_size :: nat
  bi_status :: Status

definition new_BlockIter :: "Comparator \<Rightarrow> byte list \<Rightarrow> 32 word \<Rightarrow> 32 word \<Rightarrow> BlockIter" where
  "new_BlockIter c data r n =
     \<lparr>bi_comparator = c, bi_data = data, restarts = r, num_restarts = n, current = r, restart_index = n,
      bi_key = [], value_at = 0, value_size = 0, bi_status = Status_OK\<rparr>"

definition bi_Valid :: "BlockIter \<Rightarrow> bool" where
  "bi_Valid it \<longleftrightarrow> current it < restarts it"

definition bi_value :: "BlockIter \<Rightarrow> slice" where
  "bi_value it = take (value_size it) (drop (value_at it) (bi_data it))"

definition NextEntryOffset :: "BlockIter \<Rightarrow> 32 word" where
  "NextEntryOffset it = of_nat (value_at it + value_size it)"

definition GetRestartPoint :: "BlockIter \<Rightarrow> 32 word \<Rightarrow> 32 word" where
  "GetRestartPoint it index = DecodeFixed32 (drop (unat (restarts it) + unat index * 4) (bi_data it))"

definition SeekToRestartPoint :: "32 word \<Rightarrow> BlockIter \<Rightarrow> BlockIter" where
  "SeekToRestartPoint index it =
     it\<lparr>bi_key := [], restart_index := index, value_at := unat (GetRestartPoint it index), value_size := 0\<rparr>"

definition CorruptionError :: "BlockIter \<Rightarrow> BlockIter" where
  "CorruptionError it =
     it\<lparr>current := restarts it, restart_index := num_restarts it,
        bi_status := Status_Corruption (bytes_of ''bad entry in block'') [],
        bi_key := [], value_at := 0, value_size := 0\<rparr>"

text \<open>The bytes from an offset up to the restart points.\<close>

definition entry_region :: "BlockIter \<Rightarrow> nat \<Rightarrow> byte list" where
  "entry_region it off = take (unat (restarts it) - off) (drop off (bi_data it))"

function advance_restart :: "BlockIter \<Rightarrow> 32 word \<Rightarrow> 32 word" where
  "advance_restart it index =
     (if index + 1 < num_restarts it \<and> GetRestartPoint it (index + 1) < current it
      then advance_restart it (index + 1) else index)"
  by pat_completeness auto
termination
proof (relation "measure (\<lambda>(it, index). unat (num_restarts it - (index + 1)))")
  fix it :: BlockIter and index :: "32 word"
  assume "index + 1 < num_restarts it \<and> GetRestartPoint it (index + 1) < current it"
  then have "num_restarts it - (index + 1) \<noteq> 0" by auto
  then have "unat (num_restarts it - (index + 1) - 1) < unat (num_restarts it - (index + 1))"
    by (rule measure_unat)
  moreover have "num_restarts it - (index + 1) - 1 = num_restarts it - (index + 1 + 1)" by simp
  ultimately show "((it, index + 1), (it, index)) \<in> measure (\<lambda>(it, index). unat (num_restarts it - (index + 1)))"
    by (simp only: in_measure prod.case)
qed simp

declare advance_restart.simps [simp del]

definition ParseNextKey :: "BlockIter \<Rightarrow> bool \<times> BlockIter" where
  "ParseNextKey it =
     (let it = it\<lparr>current := NextEntryOffset it\<rparr> in
      if current it \<ge> restarts it then (False, it\<lparr>current := restarts it, restart_index := num_restarts it\<rparr>)
      else
        case DecodeEntry (entry_region it (unat (current it))) of
          None \<Rightarrow> (False, CorruptionError it)
        | Some (shared, non_shared, value_length, p) \<Rightarrow>
            if length (bi_key it) < unat shared then (False, CorruptionError it)
            else
              let it = it\<lparr>bi_key := take (unat shared) (bi_key it) @ take (unat non_shared) p,
                          value_at := unat (restarts it) - length p + unat non_shared,
                          value_size := unat value_length\<rparr>
              in (True, it\<lparr>restart_index := advance_restart it (restart_index it)\<rparr>))"

subsection \<open>Each parsed entry moves forward\<close>

lemma varint32_shorter: "varint32_from s r p = Some (v, q) \<Longrightarrow> length q < length p"
proof (induction s r p rule: varint32_from.induct)
  case (2 shift result b p)
  then show ?case by (force simp: Let_def split: if_splits)
qed simp

lemma GetVarint32Ptr_shorter: "GetVarint32Ptr p = Some (v, q) \<Longrightarrow> length q < length p"
  by (simp add: fast_path varint32_shorter)

lemma DecodeEntry_shorter:
  assumes "DecodeEntry p = Some (s, ns, vl, q)"
  shows "length q + 3 \<le> length p" and "ns + vl \<le> of_nat (length q)"
proof -
  have sh: "GetVarint32Ptr a = Some (x, b) \<Longrightarrow> length b + 1 \<le> length a" for a x b
    using GetVarint32Ptr_shorter by (simp add: Suc_leI)
  show "length q + 3 \<le> length p"
    using assms by (auto simp: DecodeEntry_def Let_def split: if_splits option.splits dest!: sh)
  show "ns + vl \<le> of_nat (length q)"
    using assms by (auto simp: DecodeEntry_def Let_def not_less split: if_splits option.splits)
qed

lemma ParseNextKey_kept:
  assumes "ParseNextKey it = (b, it')"
  shows "restarts it' = restarts it" and "num_restarts it' = num_restarts it" and "bi_data it' = bi_data it"
    and "bi_comparator it' = bi_comparator it"
  using assms by (auto simp: ParseNextKey_def CorruptionError_def Let_def split: if_splits option.splits prod.splits)

lemma ParseNextKey_forward:
  assumes "ParseNextKey it = (True, it')"
  shows "NextEntryOffset it < restarts it" and "NextEntryOffset it < NextEntryOffset it'"
    and "NextEntryOffset it' \<le> restarts it"
proof -
  let ?c = "NextEntryOffset it" and ?R = "unat (restarts it)"
  obtain s ns vl p where e: "DecodeEntry (entry_region (it\<lparr>current := ?c\<rparr>) (unat ?c)) = Some (s, ns, vl, p)"
    and va: "value_at it' = ?R - length p + unat ns" "value_size it' = unat vl" and c: "?c < restarts it"
    using assms by (auto simp: ParseNextKey_def Let_def split: if_splits option.splits prod.splits)
  then show "?c < restarts it" by simp
  have "length (entry_region (it\<lparr>current := ?c\<rparr>) (unat ?c)) \<le> ?R - unat ?c" by (simp add: entry_region_def)
  then have p: "length p + 3 \<le> ?R - unat ?c" using DecodeEntry_shorter(1) [OF e] by linarith
  have R: "?R < 2 ^ 32" using unsigned_less [of "restarts it"] by simp
  have len: "unat (ns + vl) \<le> length p"
    using DecodeEntry_shorter(2) [OF e] p R by (simp add: word_le_nat_alt unat_of_nat)
  have "NextEntryOffset it' = of_nat (?R - length p) + (ns + vl)"
    by (simp add: NextEntryOffset_def va)
  moreover have "unat (of_nat (?R - length p) :: 32 word) = ?R - length p"
    using R by (intro unat_of_nat_32) simp
  moreover have "?R - length p + unat (ns + vl) < 2 ^ 32" using len p R by simp
  ultimately have "unat (NextEntryOffset it') = ?R - length p + unat (ns + vl)"
    using unat_add_lem [of "of_nat (?R - length p) :: 32 word" "ns + vl"] by simp
  then show "?c < NextEntryOffset it'" "NextEntryOffset it' \<le> restarts it"
    using p len by (simp_all add: word_less_nat_alt word_le_nat_alt)
qed

lemma ParseNextKey_measure:
  "ParseNextKey it = (True, it') \<Longrightarrow>
    unat (restarts it') - unat (NextEntryOffset it') < unat (restarts it) - unat (NextEntryOffset it)"
  using ParseNextKey_forward [of it it'] ParseNextKey_kept(1) [of it True it']
  by (simp add: word_less_nat_alt word_le_nat_alt diff_less_mono2)

subsection \<open>Its operations\<close>

definition bi_Next :: "BlockIter \<Rightarrow> BlockIter" where
  "bi_Next it = snd (ParseNextKey it)"

text \<open>\<^verbatim>\<open>ParseNextKey\<close> until it fails or the entry after the current one is at or behind \<open>limit\<close>.\<close>

function parse_until :: "32 word \<Rightarrow> BlockIter \<Rightarrow> BlockIter" where
  "parse_until limit it =
     (case ParseNextKey it of (found, it') \<Rightarrow>
        if found \<and> NextEntryOffset it' < limit then parse_until limit it' else it')"
  by pat_completeness auto
termination
  by (relation "measure (\<lambda>(limit, it). unat (restarts it) - unat (NextEntryOffset it))")
    (auto simp: ParseNextKey_measure dest: sym)

declare parse_until.simps [simp del]

text \<open>The loop over the restart points: \<^const>\<open>None\<close> when there are no more entries.\<close>

function restart_before :: "BlockIter \<Rightarrow> 32 word \<Rightarrow> 32 word \<Rightarrow> 32 word option" where
  "restart_before it original index =
     (if GetRestartPoint it index \<ge> original then
        if index = 0 then None else restart_before it original (index - 1)
      else Some index)"
  by pat_completeness auto
termination
proof (relation "measure (\<lambda>(it, original, index). unat index)")
  fix it :: BlockIter and original index :: "32 word"
  assume "index \<noteq> 0"
  then show "((it, original, index - 1), (it, original, index)) \<in> measure (\<lambda>(it, original, index). unat index)"
    using measure_unat [of index] by simp
qed simp

declare restart_before.simps [simp del]

definition bi_Prev :: "BlockIter \<Rightarrow> BlockIter" where
  "bi_Prev it =
     (let original = current it in
      case restart_before it original (restart_index it) of
        None \<Rightarrow> it\<lparr>current := restarts it, restart_index := num_restarts it\<rparr>
      | Some index \<Rightarrow> parse_until original (SeekToRestartPoint index it))"

text \<open>
  The binary search over the restart points; \<^const>\<open>None\<close> is a corruption error.  A block shorter than
  4 GB has fewer than \<open>2 ^ 30\<close> restart points, so \<^verbatim>\<open>left + right + 1\<close> does not wrap around.
\<close>

function search_restarts :: "BlockIter \<Rightarrow> slice \<Rightarrow> nat \<Rightarrow> nat \<Rightarrow> nat option" where
  "search_restarts it target left right =
     (if left < right then
        let mid = (left + right + 1) div 2;
            region_offset = GetRestartPoint it (of_nat mid) in
        case DecodeEntry (entry_region it (unat region_offset)) of
          None \<Rightarrow> None
        | Some (shared, non_shared, value_length, key_ptr) \<Rightarrow>
            if shared \<noteq> 0 then None
            else if Compare (bi_comparator it) (take (unat non_shared) key_ptr) target < 0
            then search_restarts it target mid right
            else search_restarts it target left (mid - 1)
      else Some left)"
  by pat_completeness auto
termination by (relation "measure (\<lambda>(it, target, left, right). right - left)") auto

declare search_restarts.simps [simp del]

function seek_linear :: "slice \<Rightarrow> BlockIter \<Rightarrow> BlockIter" where
  "seek_linear target it =
     (case ParseNextKey it of (found, it') \<Rightarrow>
        if \<not> found then it'
        else if Compare (bi_comparator it') (bi_key it') target \<ge> 0 then it'
        else seek_linear target it')"
  by pat_completeness auto
termination
  by (relation "measure (\<lambda>(target, it). unat (restarts it) - unat (NextEntryOffset it))")
    (auto simp: ParseNextKey_measure dest: sym)

declare seek_linear.simps [simp del]

definition bi_Seek :: "BlockIter \<Rightarrow> slice \<Rightarrow> BlockIter" where
  "bi_Seek it target =
     (case search_restarts it target 0 (unat (num_restarts it - 1)) of
        None \<Rightarrow> CorruptionError it
      | Some left \<Rightarrow> seek_linear target (SeekToRestartPoint (of_nat left) it))"

definition bi_SeekToFirst :: "BlockIter \<Rightarrow> BlockIter" where
  "bi_SeekToFirst it = snd (ParseNextKey (SeekToRestartPoint 0 it))"

definition bi_SeekToLast :: "BlockIter \<Rightarrow> BlockIter" where
  "bi_SeekToLast it = parse_until (restarts it) (SeekToRestartPoint (num_restarts it - 1) it)"

text \<open>What \<^verbatim>\<open>NewIterator\<close> makes, and the calls through its virtual functions.\<close>

datatype block_iterator = No_Entries Status | Block_Entries BlockIter

definition Block_NewIterator :: "Comparator \<Rightarrow> Block \<Rightarrow> block_iterator" where
  "Block_NewIterator c b =
     (if bl_size b < 4 then No_Entries (NewErrorIterator (Status_Corruption (bytes_of ''bad block contents'') []))
      else
        let n = NumRestarts (bl_data b) (bl_size b) in
        if n = 0 then No_Entries NewEmptyIterator
        else Block_Entries (new_BlockIter c (bl_data b) (restart_offset b) n))"

definition BlockIterator :: "BlockIter Iterator" where
  "BlockIterator =
     \<lparr>it_Valid = bi_Valid, it_SeekToFirst = bi_SeekToFirst, it_SeekToLast = bi_SeekToLast, it_Seek = bi_Seek,
      it_Next = bi_Next, it_Prev = bi_Prev, it_key = bi_key, it_value = bi_value, it_status = bi_status\<rparr>"

definition dispatch :: "(Status \<Rightarrow> Status) \<Rightarrow> (BlockIter \<Rightarrow> BlockIter) \<Rightarrow> block_iterator \<Rightarrow> block_iterator" where
  "dispatch f g it = (case it of No_Entries s \<Rightarrow> No_Entries (f s) | Block_Entries i \<Rightarrow> Block_Entries (g i))"

definition block_Iterator :: "block_iterator Iterator" where
  "block_Iterator =
     \<lparr>it_Valid = case_block_iterator (it_Valid EmptyIterator) bi_Valid,
      it_SeekToFirst = dispatch (it_SeekToFirst EmptyIterator) bi_SeekToFirst,
      it_SeekToLast = dispatch (it_SeekToLast EmptyIterator) bi_SeekToLast,
      it_Seek = (\<lambda>it target. dispatch (\<lambda>s. it_Seek EmptyIterator s target) (\<lambda>i. bi_Seek i target) it),
      it_Next = dispatch (it_Next EmptyIterator) bi_Next,
      it_Prev = dispatch (it_Prev EmptyIterator) bi_Prev,
      it_key = case_block_iterator (it_key EmptyIterator) bi_key,
      it_value = case_block_iterator (it_value EmptyIterator) bi_value,
      it_status = case_block_iterator (it_status EmptyIterator) bi_status\<rparr>"

end
