(* ===== verification/Ldb_TwoLevel.thy ===== *)
theory Ldb_TwoLevel
  imports Ldb_Iterator
begin

text \<open>
  The iterator wrapper that caches \<^verbatim>\<open>valid()\<close> and \<^verbatim>\<open>key()\<close> (\<^verbatim>\<open>table/iterator_wrapper.h\<close>) and the two-level
  iterator, which opens the block an index entry points to (\<^verbatim>\<open>table/two_level_iterator.cc\<close>).
\<close>

section \<open>The wrapper\<close>

record 'i IteratorWrapper =
  w_iter :: "'i option"
  w_valid :: bool
  w_key :: slice

definition new_Wrapper :: "'i IteratorWrapper" where
  "new_Wrapper = \<lparr>w_iter = None, w_valid = False, w_key = []\<rparr>"

definition w_Update :: "'i Iterator \<Rightarrow> 'i \<Rightarrow> 'i IteratorWrapper \<Rightarrow> 'i IteratorWrapper" where
  "w_Update ops i w =
     (let w = w\<lparr>w_iter := Some i, w_valid := it_Valid ops i\<rparr> in
      if w_valid w then w\<lparr>w_key := it_key ops i\<rparr> else w)"

definition w_Set :: "'i Iterator \<Rightarrow> 'i option \<Rightarrow> 'i IteratorWrapper \<Rightarrow> 'i IteratorWrapper" where
  "w_Set ops iter w =
     (case iter of None \<Rightarrow> w\<lparr>w_iter := None, w_valid := False\<rparr> | Some i \<Rightarrow> w_Update ops i w)"

text \<open>A call of the iterator behind the wrapper, which the code asserts is there.\<close>

definition w_call :: "'i Iterator \<Rightarrow> ('i \<Rightarrow> 'i) \<Rightarrow> 'i IteratorWrapper \<Rightarrow> 'i IteratorWrapper" where
  "w_call ops f w = (case w_iter w of None \<Rightarrow> w | Some i \<Rightarrow> w_Update ops (f i) w)"

definition w_Next :: "'i Iterator \<Rightarrow> 'i IteratorWrapper \<Rightarrow> 'i IteratorWrapper" where
  "w_Next ops = w_call ops (it_Next ops)"

definition w_Prev :: "'i Iterator \<Rightarrow> 'i IteratorWrapper \<Rightarrow> 'i IteratorWrapper" where
  "w_Prev ops = w_call ops (it_Prev ops)"

definition w_Seek :: "'i Iterator \<Rightarrow> slice \<Rightarrow> 'i IteratorWrapper \<Rightarrow> 'i IteratorWrapper" where
  "w_Seek ops k = w_call ops (\<lambda>i. it_Seek ops i k)"

definition w_SeekToFirst :: "'i Iterator \<Rightarrow> 'i IteratorWrapper \<Rightarrow> 'i IteratorWrapper" where
  "w_SeekToFirst ops = w_call ops (it_SeekToFirst ops)"

definition w_SeekToLast :: "'i Iterator \<Rightarrow> 'i IteratorWrapper \<Rightarrow> 'i IteratorWrapper" where
  "w_SeekToLast ops = w_call ops (it_SeekToLast ops)"

definition w_value :: "'i Iterator \<Rightarrow> 'i IteratorWrapper \<Rightarrow> slice" where
  "w_value ops w = (case w_iter w of None \<Rightarrow> [] | Some i \<Rightarrow> it_value ops i)"

definition w_status :: "'i Iterator \<Rightarrow> 'i IteratorWrapper \<Rightarrow> Status" where
  "w_status ops w = (case w_iter w of None \<Rightarrow> Status_OK | Some i \<Rightarrow> it_status ops i)"

section \<open>The two-level iterator\<close>

text \<open>
  \<open>block_function\<close> is the function with its argument and options.  \<open>turns\<close> bounds the loops over empty
  blocks, which in the code end when the index does.
\<close>

record ('i, 'd) TwoLevelIterator =
  block_function :: "slice \<Rightarrow> 'd"
  tl_status :: Status
  index_iter :: "'i IteratorWrapper"
  data_iter :: "'d IteratorWrapper"
  data_block_handle :: "byte list"
  turns :: nat

definition NewTwoLevelIterator ::
  "'i Iterator \<Rightarrow> nat \<Rightarrow> 'i \<Rightarrow> (slice \<Rightarrow> 'd) \<Rightarrow> ('i, 'd) TwoLevelIterator" where
  "NewTwoLevelIterator iops n index f =
     \<lparr>block_function = f, tl_status = Status_OK, index_iter = w_Set iops (Some index) new_Wrapper,
      data_iter = new_Wrapper, data_block_handle = [], turns = n\<rparr>"

definition SaveError :: "Status \<Rightarrow> ('i, 'd) TwoLevelIterator \<Rightarrow> ('i, 'd) TwoLevelIterator" where
  "SaveError s t = (if status_ok (tl_status t) \<and> \<not> status_ok s then t\<lparr>tl_status := s\<rparr> else t)"

definition SetDataIterator ::
  "'d Iterator \<Rightarrow> 'd option \<Rightarrow> ('i, 'd) TwoLevelIterator \<Rightarrow> ('i, 'd) TwoLevelIterator" where
  "SetDataIterator dops iter t =
     (let t = (if w_iter (data_iter t) \<noteq> None then SaveError (w_status dops (data_iter t)) t else t)
      in t\<lparr>data_iter := w_Set dops iter (data_iter t)\<rparr>)"

definition InitDataBlock ::
  "'i Iterator \<Rightarrow> 'd Iterator \<Rightarrow> ('i, 'd) TwoLevelIterator \<Rightarrow> ('i, 'd) TwoLevelIterator" where
  "InitDataBlock iops dops t =
     (if \<not> w_valid (index_iter t) then SetDataIterator dops None t
      else
        let handle = w_value iops (index_iter t) in
        if w_iter (data_iter t) \<noteq> None \<and> slice_compare handle (data_block_handle t) = 0 then t
        else SetDataIterator dops (Some (block_function t handle)) (t\<lparr>data_block_handle := handle\<rparr>))"

text \<open>\<^verbatim>\<open>if (data_iter_.iter() != nullptr) data_iter_.f()\<close>.\<close>

definition with_data ::
  "('d IteratorWrapper \<Rightarrow> 'd IteratorWrapper) \<Rightarrow> ('i, 'd) TwoLevelIterator \<Rightarrow> ('i, 'd) TwoLevelIterator" where
  "with_data f t = (if w_iter (data_iter t) \<noteq> None then t\<lparr>data_iter := f (data_iter t)\<rparr> else t)"

primrec SkipEmptyDataBlocksForward ::
  "'i Iterator \<Rightarrow> 'd Iterator \<Rightarrow> nat \<Rightarrow> ('i, 'd) TwoLevelIterator \<Rightarrow> ('i, 'd) TwoLevelIterator" where
  "SkipEmptyDataBlocksForward iops dops 0 t = t"
| "SkipEmptyDataBlocksForward iops dops (Suc n) t =
     (if w_iter (data_iter t) = None \<or> \<not> w_valid (data_iter t) then
        if \<not> w_valid (index_iter t) then SetDataIterator dops None t
        else
          let t = t\<lparr>index_iter := w_Next iops (index_iter t)\<rparr>;
              t = InitDataBlock iops dops t;
              t = with_data (w_SeekToFirst dops) t
          in SkipEmptyDataBlocksForward iops dops n t
      else t)"

primrec SkipEmptyDataBlocksBackward ::
  "'i Iterator \<Rightarrow> 'd Iterator \<Rightarrow> nat \<Rightarrow> ('i, 'd) TwoLevelIterator \<Rightarrow> ('i, 'd) TwoLevelIterator" where
  "SkipEmptyDataBlocksBackward iops dops 0 t = t"
| "SkipEmptyDataBlocksBackward iops dops (Suc n) t =
     (if w_iter (data_iter t) = None \<or> \<not> w_valid (data_iter t) then
        if \<not> w_valid (index_iter t) then SetDataIterator dops None t
        else
          let t = t\<lparr>index_iter := w_Prev iops (index_iter t)\<rparr>;
              t = InitDataBlock iops dops t;
              t = with_data (w_SeekToLast dops) t
          in SkipEmptyDataBlocksBackward iops dops n t
      else t)"

definition tl_Seek where
  "tl_Seek iops dops (t :: ('i, 'd) TwoLevelIterator) target =
     (let t = t\<lparr>index_iter := w_Seek iops target (index_iter t)\<rparr>;
          t = InitDataBlock iops dops t;
          t = with_data (w_Seek dops target) t
      in SkipEmptyDataBlocksForward iops dops (turns t) t)"

definition tl_SeekToFirst where
  "tl_SeekToFirst iops dops (t :: ('i, 'd) TwoLevelIterator) =
     (let t = t\<lparr>index_iter := w_SeekToFirst iops (index_iter t)\<rparr>;
          t = InitDataBlock iops dops t;
          t = with_data (w_SeekToFirst dops) t
      in SkipEmptyDataBlocksForward iops dops (turns t) t)"

definition tl_SeekToLast where
  "tl_SeekToLast iops dops (t :: ('i, 'd) TwoLevelIterator) =
     (let t = t\<lparr>index_iter := w_SeekToLast iops (index_iter t)\<rparr>;
          t = InitDataBlock iops dops t;
          t = with_data (w_SeekToLast dops) t
      in SkipEmptyDataBlocksBackward iops dops (turns t) t)"

definition tl_Next where
  "tl_Next iops dops (t :: ('i, 'd) TwoLevelIterator) =
     (let t = t\<lparr>data_iter := w_Next dops (data_iter t)\<rparr> in SkipEmptyDataBlocksForward iops dops (turns t) t)"

definition tl_Prev where
  "tl_Prev iops dops (t :: ('i, 'd) TwoLevelIterator) =
     (let t = t\<lparr>data_iter := w_Prev dops (data_iter t)\<rparr> in SkipEmptyDataBlocksBackward iops dops (turns t) t)"

definition tl_get_status where
  "tl_get_status iops dops (t :: ('i, 'd) TwoLevelIterator) =
     (if \<not> status_ok (w_status iops (index_iter t)) then w_status iops (index_iter t)
      else if w_iter (data_iter t) \<noteq> None \<and> \<not> status_ok (w_status dops (data_iter t)) then w_status dops (data_iter t)
      else tl_status t)"

definition two_level_Iterator :: "'i Iterator \<Rightarrow> 'd Iterator \<Rightarrow> ('i, 'd) TwoLevelIterator Iterator" where
  "two_level_Iterator iops dops =
     \<lparr>it_Valid = (\<lambda>t. w_valid (data_iter t)),
      it_SeekToFirst = tl_SeekToFirst iops dops, it_SeekToLast = tl_SeekToLast iops dops,
      it_Seek = tl_Seek iops dops, it_Next = tl_Next iops dops, it_Prev = tl_Prev iops dops,
      it_key = (\<lambda>t. w_key (data_iter t)), it_value = (\<lambda>t. w_value dops (data_iter t)),
      it_status = tl_get_status iops dops\<rparr>"

section \<open>The contract of the wrapper\<close>

definition wrapped :: "'i Iterator \<Rightarrow> 'i IteratorWrapper \<Rightarrow> bool" where
  "wrapped ops w \<longleftrightarrow> (case w_iter w of None \<Rightarrow> \<not> w_valid w
     | Some i \<Rightarrow> w_valid w = it_Valid ops i \<and> (w_valid w \<longrightarrow> w_key w = it_key ops i))"

lemma wrapped_new [simp]: "wrapped ops new_Wrapper"
  by (simp add: wrapped_def new_Wrapper_def)

lemma wrapped_Set [simp]: "wrapped ops (w_Set ops iter w)" "w_iter (w_Set ops iter w) = iter"
  by (simp_all add: wrapped_def w_Set_def w_Update_def Let_def split: option.split)

lemma wrapped_call [simp]: "wrapped ops w \<Longrightarrow> wrapped ops (w_call ops f w)"
  "w_iter (w_call ops f w) = map_option f (w_iter w)"
  by (cases "w_iter w"; simp add: wrapped_def w_call_def w_Update_def Let_def)+

lemmas w_ops = w_Next_def w_Prev_def w_Seek_def w_SeekToFirst_def w_SeekToLast_def

section \<open>The two-level iterator keeps the contract\<close>

text \<open>
  Each index entry names a block of entries, \<open>blk\<close> of its value; the index key is at or above all keys
  of its block and below those of the later ones, which is said for each target of a seek.
\<close>

locale two_level = ix: entry_iterator iops cmp ies iat igood tok
  for iops :: "'i Iterator" and cmp ies iat igood tok +
  fixes dops :: "'d Iterator" and f :: "slice \<Rightarrow> 'd" and blk :: "slice \<Rightarrow> entries"
    and dat :: "slice \<Rightarrow> 'd \<Rightarrow> nat \<Rightarrow> bool" and dgood :: "slice \<Rightarrow> 'd \<Rightarrow> bool"
  assumes data: "e \<in> set ies \<Longrightarrow> entry_iterator dops cmp (blk (snd e)) (dat (snd e)) (dgood (snd e)) tok"
    and opened: "e \<in> set ies \<Longrightarrow> dgood (snd e) (f (snd e))"
    and index_below: "tok t \<Longrightarrow> i < length ies \<Longrightarrow> Compare cmp (fst (ies ! i)) t < 0 \<Longrightarrow>
      e \<in> set (blk (snd (ies ! i))) \<Longrightarrow> Compare cmp (fst e) t < 0"
    and index_above: "tok t \<Longrightarrow> i < j \<Longrightarrow> j < length ies \<Longrightarrow> \<not> Compare cmp (fst (ies ! i)) t < 0 \<Longrightarrow>
      e \<in> set (blk (snd (ies ! j))) \<Longrightarrow> \<not> Compare cmp (fst e) t < 0"
begin

definition block :: "nat \<Rightarrow> entries" where
  "block k = blk (snd (ies ! k))"

definition all_entries :: entries where
  "all_entries = concat (map (\<lambda>e. blk (snd e)) ies)"

definition start :: "nat \<Rightarrow> nat" where
  "start k = length (concat (map (\<lambda>e. blk (snd e)) (take k ies)))"

lemma start_0 [simp]: "start 0 = 0"
  by (simp add: start_def)

lemma start_Suc: "k < length ies \<Longrightarrow> start (Suc k) = start k + length (block k)"
  by (simp add: start_def block_def take_Suc_conv_app_nth)

lemma start_all: "start (length ies) = length all_entries"
  by (simp add: start_def all_entries_def)

lemma all_split:
  assumes "k < length ies"
  shows "all_entries = concat (map (\<lambda>e. blk (snd e)) (take k ies)) @ block k @
    concat (map (\<lambda>e. blk (snd e)) (drop (Suc k) ies))"
proof -
  have "map (\<lambda>e. blk (snd e)) ies = map (\<lambda>e. blk (snd e)) (take k ies @ ies ! k # drop (Suc k) ies)"
    by (rule arg_cong [OF id_take_nth_drop [OF assms]])
  then show ?thesis unfolding all_entries_def by (simp add: block_def)
qed

lemma entry_at: "k < length ies \<Longrightarrow> j < length (block k) \<Longrightarrow> all_entries ! (start k + j) = block k ! j"
  by (simp add: all_split start_def nth_append)

lemma entry_in_range: "k < length ies \<Longrightarrow> j < length (block k) \<Longrightarrow> start k + j < length all_entries"
  by (simp add: all_split start_def)

lemma data_k: "k < length ies \<Longrightarrow>
    entry_iterator dops cmp (block k) (dat (snd (ies ! k))) (dgood (snd (ies ! k))) tok"
  unfolding block_def by (rule data) simp

subsection \<open>States\<close>

definition tl_good :: "('i, 'd) TwoLevelIterator \<Rightarrow> bool" where
  "tl_good t \<longleftrightarrow> block_function t = f \<and> status_ok (tl_status t) \<and> length ies + 1 < turns t \<and>
     wrapped iops (index_iter t) \<and> (\<exists>i. w_iter (index_iter t) = Some i \<and> igood i) \<and> wrapped dops (data_iter t) \<and>
     (\<forall>d. w_iter (data_iter t) = Some d \<longrightarrow> (\<exists>e \<in> set ies. data_block_handle t = snd e \<and> dgood (snd e) d))"

definition index_at :: "('i, 'd) TwoLevelIterator \<Rightarrow> nat \<Rightarrow> bool" where
  "index_at t k \<longleftrightarrow> (\<exists>i. w_iter (index_iter t) = Some i \<and> iat i k)"

definition data_at :: "('i, 'd) TwoLevelIterator \<Rightarrow> nat \<Rightarrow> nat \<Rightarrow> bool" where
  "data_at t k j \<longleftrightarrow> data_block_handle t = snd (ies ! k) \<and>
     (\<exists>d. w_iter (data_iter t) = Some d \<and> dat (snd (ies ! k)) d j)"

text \<open>Within the loops: at block \<open>k\<close>, its iterator at \<open>j\<close>; behind the last block without one.\<close>

definition looping :: "('i, 'd) TwoLevelIterator \<Rightarrow> nat \<Rightarrow> nat \<Rightarrow> bool" where
  "looping t k j \<longleftrightarrow> tl_good t \<and> index_at t k \<and> k \<le> length ies \<and>
     (if k < length ies then data_at t k j else w_iter (data_iter t) = None \<and> j = 0)"

definition tl_at :: "('i, 'd) TwoLevelIterator \<Rightarrow> nat \<Rightarrow> bool" where
  "tl_at t p \<longleftrightarrow> (\<exists>k j. looping t k j \<and> p = start k + j \<and> (k < length ies \<longrightarrow> j < length (block k)))"

lemma index_valid: "tl_good t \<Longrightarrow> index_at t k \<Longrightarrow> w_valid (index_iter t) \<longleftrightarrow> k < length ies"
  by (auto simp: tl_good_def index_at_def wrapped_def ix.at_valid)

lemma index_value: "tl_good t \<Longrightarrow> index_at t k \<Longrightarrow> k < length ies \<Longrightarrow> w_value iops (index_iter t) = snd (ies ! k)"
proof -
  assume "index_at t k" and k: "k < length ies"
  then obtain i where i: "w_iter (index_iter t) = Some i" "iat i k" by (auto simp: index_at_def)
  from ix.at_entry [OF i(2) k] have "it_value iops i = snd (ies ! k)" by (metis snd_conv)
  then show ?thesis by (simp add: w_value_def i(1))
qed

lemma data_valid:
  assumes "tl_good t" and "data_at t k j" and "k < length ies"
  shows "w_valid (data_iter t) \<longleftrightarrow> j < length (block k)" and "j \<le> length (block k)"
  using assms entry_iterator.at_valid [OF data_k [OF assms(3)]] entry_iterator.at_bound [OF data_k [OF assms(3)]]
  by (auto simp: tl_good_def data_at_def wrapped_def)

lemma data_status: "tl_good t \<Longrightarrow> status_ok (w_status dops (data_iter t))"
  using data entry_iterator.good_status by (fastforce simp: tl_good_def w_status_def split: option.split)

lemma Set_None:
  "tl_good t \<Longrightarrow> tl_good (SetDataIterator dops None t) \<and> w_iter (data_iter (SetDataIterator dops None t)) = None \<and>
    index_iter (SetDataIterator dops None t) = index_iter t"
  using data_status [of t] by (simp add: SetDataIterator_def SaveError_def Let_def) (simp add: tl_good_def)

lemma Set_block:
  assumes "tl_good t" and "e \<in> set ies" and "dgood (snd e) d"
  shows "tl_good (SetDataIterator dops (Some d) (t\<lparr>data_block_handle := snd e\<rparr>)) \<and>
    w_iter (data_iter (SetDataIterator dops (Some d) (t\<lparr>data_block_handle := snd e\<rparr>))) = Some d \<and>
    data_block_handle (SetDataIterator dops (Some d) (t\<lparr>data_block_handle := snd e\<rparr>)) = snd e \<and>
    index_iter (SetDataIterator dops (Some d) (t\<lparr>data_block_handle := snd e\<rparr>)) = index_iter t"
  using assms data_status [OF assms(1)]
  by (auto simp: SetDataIterator_def SaveError_def Let_def tl_good_def)

text \<open>Opening the block at the index.\<close>

lemma Init_behind:
  assumes "tl_good t" and "index_at t (length ies)"
  shows "looping (with_data g (InitDataBlock iops dops t)) (length ies) 0"
  using Set_None [OF assms(1)] assms index_valid [OF assms]
  by (simp add: InitDataBlock_def with_data_def looping_def index_at_def)

lemma Init_block:
  assumes "tl_good t" and "index_at t k" and "k < length ies"
  obtains d where "tl_good (InitDataBlock iops dops t)" and "w_iter (data_iter (InitDataBlock iops dops t)) = Some d"
    and "data_block_handle (InitDataBlock iops dops t) = snd (ies ! k)" and "dgood (snd (ies ! k)) d"
    and "index_iter (InitDataBlock iops dops t) = index_iter t"
proof -
  note v = index_valid [OF assms(1,2)] index_value [OF assms]
  have k: "ies ! k \<in> set ies" using assms(3) by simp
  show ?thesis
  proof (cases "w_iter (data_iter t) \<noteq> None \<and> slice_compare (snd (ies ! k)) (data_block_handle t) = 0")
    case True
    then obtain d e where "w_iter (data_iter t) = Some d" "e \<in> set ies" "data_block_handle t = snd e" "dgood (snd e) d"
      and "snd (ies ! k) = data_block_handle t"
      using assms(1) by (auto simp: tl_good_def slice_compare_eq)
    moreover have "InitDataBlock iops dops t = t" using True v assms(3) by (simp add: InitDataBlock_def)
    ultimately show ?thesis using that [of d] assms(1) by simp
  next
    case False
    then have "InitDataBlock iops dops t =
        SetDataIterator dops (Some (f (snd (ies ! k)))) (t\<lparr>data_block_handle := snd (ies ! k)\<rparr>)"
      using v assms by (auto simp: InitDataBlock_def Let_def tl_good_def)
    then show ?thesis using that [of "f (snd (ies ! k))"] Set_block [OF assms(1) k opened [OF k]] opened [OF k] by simp
  qed
qed

lemma with_data_looping:
  assumes t: "tl_good t" "index_at t k" "k < length ies"
    and g: "\<And>d. dgood (snd (ies ! k)) d \<Longrightarrow> dat (snd (ies ! k)) (g d) j"
  shows "looping (with_data (w_call dops g) (InitDataBlock iops dops t)) k j"
proof -
  obtain d where d: "tl_good (InitDataBlock iops dops t)" "w_iter (data_iter (InitDataBlock iops dops t)) = Some d"
    "data_block_handle (InitDataBlock iops dops t) = snd (ies ! k)" "dgood (snd (ies ! k)) d"
    "index_iter (InitDataBlock iops dops t) = index_iter t"
    using Init_block [OF t] by blast
  have "dgood (snd (ies ! k)) (g d)" by (rule entry_iterator.at_good [OF data_k [OF t(3)] g [OF d(4)]])
  then show ?thesis
    using d g [OF d(4)] t by (auto simp: looping_def with_data_def tl_good_def index_at_def data_at_def)
qed

subsection \<open>The loops over empty blocks\<close>

lemma move_index:
  assumes "looping t k j" and "\<And>i. iat i k \<Longrightarrow> iat (g i) k'"
  shows "tl_good (t\<lparr>index_iter := w_call iops g (index_iter t)\<rparr>)"
    and "index_at (t\<lparr>index_iter := w_call iops g (index_iter t)\<rparr>) k'"
proof -
  obtain i where i: "w_iter (index_iter t) = Some i" "iat i k" using assms(1) by (auto simp: looping_def index_at_def)
  note k' = assms(2) [OF i(2)]
  then show "index_at (t\<lparr>index_iter := w_call iops g (index_iter t)\<rparr>) k'" by (simp add: index_at_def i(1))
  show "tl_good (t\<lparr>index_iter := w_call iops g (index_iter t)\<rparr>)"
    using assms(1) i(1) ix.at_good [OF k'] by (simp add: looping_def tl_good_def)
qed

text \<open>Opening the block at the new place of the index, or none behind the last one.\<close>

lemma open_at:
  assumes "tl_good t" and "index_at t k" and "k \<le> length ies"
    and g: "\<And>d. k < length ies \<Longrightarrow> dgood (snd (ies ! k)) d \<Longrightarrow> dat (snd (ies ! k)) (g d) j"
  shows "looping (with_data (w_call dops g) (InitDataBlock iops dops t)) k (if k < length ies then j else 0)"
proof (cases "k < length ies")
  case True
  then show ?thesis using with_data_looping [OF assms(1,2) True g [OF True]] by simp
next
  case False
  then show ?thesis using Init_behind [OF assms(1), of "w_call dops g"] assms(2,3) by simp
qed

lemma stop_behind:
  assumes "looping t (length ies) 0"
  shows "tl_at (SetDataIterator dops None t) (length all_entries)"
    and "\<not> w_valid (index_iter t)" and "w_iter (data_iter t) = None"
proof -
  have t: "tl_good t" "index_at t (length ies)" "w_iter (data_iter t) = None" using assms by (simp_all add: looping_def)
  show "\<not> w_valid (index_iter t)" "w_iter (data_iter t) = None" using index_valid [OF t(1,2)] t(3) by simp_all
  show "tl_at (SetDataIterator dops None t) (length all_entries)"
    using Set_None [OF t(1)] t(2) start_all unfolding tl_at_def
    by (intro exI [of _ "length ies"] exI [of _ 0]) (simp add: looping_def index_at_def)
qed

lemma skip_forward:
  "looping t k j \<Longrightarrow> length ies - k < m \<Longrightarrow> tl_at (SkipEmptyDataBlocksForward iops dops m t) (start k + j)"
proof (induction m arbitrary: t k j)
  case (Suc m)
  have t: "tl_good t" "index_at t k" "k \<le> length ies" using Suc.prems(1) by (simp_all add: looping_def)
  show ?case
  proof (cases "k < length ies")
    case False
    then have k: "k = length ies" using t(3) by simp
    then have "j = 0" using Suc.prems(1) by (simp add: looping_def)
    then show ?thesis using stop_behind [of t] Suc.prems(1) k by (simp add: start_all)
  next
    case True
    then have d: "data_at t k j" using Suc.prems(1) by (simp add: looping_def)
    note v = data_valid [OF t(1) d True]
    have some: "w_iter (data_iter t) \<noteq> None" using d by (auto simp: data_at_def)
    show ?thesis
    proof (cases "j < length (block k)")
      case inside: True
      then have "SkipEmptyDataBlocksForward iops dops (Suc m) t = t" using v some by auto
      then show ?thesis using Suc.prems(1) inside by (auto simp: tl_at_def)
    next
      case False
      then have j: "j = length (block k)" using v by simp
      let ?t = "t\<lparr>index_iter := w_call iops (it_Next iops) (index_iter t)\<rparr>"
      have n: "tl_good ?t" "index_at ?t (Suc k)"
        by (rule move_index [OF Suc.prems(1)]; rule ix.at_next; use True in simp)+
      let ?l = "with_data (w_call dops (it_SeekToFirst dops)) (InitDataBlock iops dops ?t)"
      have "looping ?l (Suc k) 0"
        using open_at [OF n, of "it_SeekToFirst dops" 0] True entry_iterator.at_first [OF data_k] by simp
      then have "tl_at (SkipEmptyDataBlocksForward iops dops m ?l) (start (Suc k) + 0)"
        by (rule Suc.IH) (use Suc.prems(2) True in simp)
      moreover have "SkipEmptyDataBlocksForward iops dops (Suc m) t = SkipEmptyDataBlocksForward iops dops m ?l"
        using False v(1) index_valid [OF t(1,2)] True by (simp add: w_ops Let_def)
      ultimately show ?thesis using start_Suc [OF True] j by simp
    qed
  qed
qed simp

text \<open>Going backwards an iterator behind its block stands for the last entry before it.\<close>

definition back_position :: "nat \<Rightarrow> nat \<Rightarrow> nat" where
  "back_position k j =
     (if k < length ies \<and> j < length (block k) then start k + j
      else if k = length ies \<or> start k = 0 then length all_entries else start k - 1)"

lemma skip_backward:
  "looping t k j \<Longrightarrow> (if k = length ies then 0 else Suc k) < m \<Longrightarrow>
    tl_at (SkipEmptyDataBlocksBackward iops dops m t) (back_position k j)"
proof (induction m arbitrary: t k j)
  case (Suc m)
  have t: "tl_good t" "index_at t k" "k \<le> length ies" using Suc.prems(1) by (simp_all add: looping_def)
  show ?case
  proof (cases "k < length ies")
    case False
    then have k: "k = length ies" using t(3) by simp
    then have "j = 0" using Suc.prems(1) by (simp add: looping_def)
    then show ?thesis using stop_behind [of t] Suc.prems(1) k by (simp add: back_position_def)
  next
    case True
    then have d: "data_at t k j" using Suc.prems(1) by (simp add: looping_def)
    note v = data_valid [OF t(1) d True]
    have some: "w_iter (data_iter t) \<noteq> None" using d by (auto simp: data_at_def)
    show ?thesis
    proof (cases "j < length (block k)")
      case inside: True
      then have "SkipEmptyDataBlocksBackward iops dops (Suc m) t = t" using v some by auto
      then show ?thesis using Suc.prems(1) inside True by (auto simp: tl_at_def back_position_def)
    next
      case False
      let ?k = "if k = 0 then length ies else k - 1"
      let ?t = "t\<lparr>index_iter := w_call iops (it_Prev iops) (index_iter t)\<rparr>"
      have n: "tl_good ?t" "index_at ?t ?k"
        by (rule move_index [OF Suc.prems(1)]; rule ix.at_prev; use True in simp)+
      let ?l = "with_data (w_call dops (it_SeekToLast dops)) (InitDataBlock iops dops ?t)"
      let ?j = "if ?k < length ies then length (block ?k) - 1 else 0"
      have l: "looping ?l ?k ?j"
        by (rule open_at [OF n]) (use True entry_iterator.at_last [OF data_k] in auto)
      have m: "(if ?k = length ies then 0 else Suc ?k) < m" using Suc.prems(2) True by (auto split: if_splits)
      have "back_position k j = back_position ?k ?j"
      proof (cases k)
        case 0
        then show ?thesis using False True by (simp add: back_position_def)
      next
        case (Suc i)
        then show ?thesis using False True start_Suc [of i]
          by (cases "block i") (simp_all add: back_position_def)
      qed
      moreover have "SkipEmptyDataBlocksBackward iops dops (Suc m) t = SkipEmptyDataBlocksBackward iops dops m ?l"
        using False v(1) index_valid [OF t(1,2)] True by (simp add: w_ops Let_def)
      ultimately show ?thesis using Suc.IH [OF l m] by simp
    qed
  qed
qed simp

subsection \<open>Seeking\<close>

lemma seek_index_split:
  assumes "\<forall>e \<in> set A. Compare cmp (fst e) t < 0" and "\<forall>e \<in> set C. \<not> Compare cmp (fst e) t < 0"
  shows "seek_index cmp (A @ B @ C) t = length A + seek_index cmp B t"
proof -
  have "takeWhile (\<lambda>e. Compare cmp (fst e) t < 0) C = []" using assms(2) by (cases C) simp_all
  then have "takeWhile (\<lambda>e. Compare cmp (fst e) t < 0) (B @ C) = takeWhile (\<lambda>e. Compare cmp (fst e) t < 0) B"
    by (induction B) simp_all
  moreover have "takeWhile (\<lambda>e. Compare cmp (fst e) t < 0) (A @ B @ C) =
      A @ takeWhile (\<lambda>e. Compare cmp (fst e) t < 0) (B @ C)"
    by (rule takeWhile_append2) (use assms(1) in blast)
  ultimately show ?thesis by (simp only: seek_index_def length_append)
qed

lemma seek_position:
  assumes "tok t"
  defines "k \<equiv> seek_index cmp ies t"
  shows "seek_index cmp all_entries t = start k + (if k < length ies then seek_index cmp (block k) t else 0)"
proof -
  have below: "\<forall>e \<in> set (concat (map (\<lambda>e. blk (snd e)) (take k ies))). Compare cmp (fst e) t < 0"
  proof
    fix e assume "e \<in> set (concat (map (\<lambda>e. blk (snd e)) (take k ies)))"
    then obtain x where "x \<in> set (take k ies)" and x: "e \<in> set (blk (snd x))" by auto
    then obtain i where "i < k" "i < length ies" "x = ies ! i" by (auto simp: in_set_conv_nth)
    with x have i: "i < k" "i < length ies" "e \<in> set (blk (snd (ies ! i)))" by simp_all
    then have "Compare cmp (fst (ies ! i)) t < 0"
      using nth_mem [of i "takeWhile (\<lambda>e. Compare cmp (fst e) t < 0) ies"]
      by (auto simp: k_def seek_index_def takeWhile_nth dest: set_takeWhileD)
    then show "Compare cmp (fst e) t < 0" using index_below [OF assms(1) i(2) _ i(3)] by blast
  qed
  show ?thesis
  proof (cases "k < length ies")
    case True
    have "\<not> Compare cmp (fst (ies ! k)) t < 0"
      using nth_length_takeWhile [of "\<lambda>e. Compare cmp (fst e) t < 0" ies] True by (simp add: k_def seek_index_def)
    note k = this
    have "\<forall>e \<in> set (concat (map (\<lambda>e. blk (snd e)) (drop (Suc k) ies))). \<not> Compare cmp (fst e) t < 0"
    proof
      fix e assume "e \<in> set (concat (map (\<lambda>e. blk (snd e)) (drop (Suc k) ies)))"
      then obtain x where "x \<in> set (drop (Suc k) ies)" and x: "e \<in> set (blk (snd x))" by auto
      then obtain i where "i < length ies - Suc k" "x = ies ! (Suc k + i)" by (auto simp: in_set_conv_nth)
      with x show "\<not> Compare cmp (fst e) t < 0"
        using index_above [OF assms(1), of k "Suc k + i" e] k by simp
    qed
    then show ?thesis using seek_index_split [OF below] all_split [OF True] True by (simp add: start_def)
  next
    case False
    then have "k = length ies" using seek_index_le [of cmp ies t] by (simp add: k_def)
    then show ?thesis using seek_index_split [OF below, of "[]" "[]"] by (simp add: all_entries_def start_def seek_index_def)
  qed
qed

subsection \<open>The contract\<close>

lemma tl_at_bound: "tl_at t p \<Longrightarrow> p \<le> length all_entries"
  unfolding tl_at_def
proof (elim exE conjE)
  fix k j assume l: "looping t k j" and p: "p = start k + j" and j: "k < length ies \<longrightarrow> j < length (block k)"
  show "p \<le> length all_entries"
  proof (cases "k < length ies")
    case True
    then show ?thesis using entry_in_range [OF True] j p by (simp add: less_imp_le)
  next
    case False
    then show ?thesis using l p start_all by (simp add: looping_def)
  qed
qed

lemma tl_at_entry:
  assumes "tl_at t p" and "p < length all_entries"
  obtains k j where "looping t k j" "k < length ies" "j < length (block k)" "p = start k + j" "data_at t k j"
proof -
  obtain k j where l: "looping t k j" "p = start k + j" "k < length ies \<longrightarrow> j < length (block k)"
    using assms(1) by (auto simp: tl_at_def)
  have k: "k < length ies"
  proof (rule ccontr)
    assume "\<not> k < length ies"
    then show False using l assms(2) start_all by (auto simp: looping_def)
  qed
  moreover have "data_at t k j" using l(1) k by (simp add: looping_def)
  ultimately show ?thesis using that [of k j] l by blast
qed

lemma tl_at_valid:
  assumes "tl_at t p"
  shows "w_valid (data_iter t) \<longleftrightarrow> p < length all_entries"
proof (cases "p < length all_entries")
  case True
  then show ?thesis using assms
    by (elim tl_at_entry) (auto simp: looping_def data_valid(1))
next
  case False
  obtain k j where l: "looping t k j" "p = start k + j" "k < length ies \<longrightarrow> j < length (block k)"
    using assms by (auto simp: tl_at_def)
  then have "\<not> k < length ies" using False entry_in_range by auto
  then have "w_iter (data_iter t) = None" "tl_good t" using l(1) by (simp_all add: looping_def)
  then show ?thesis using False by (simp add: tl_good_def wrapped_def)
qed

lemma move_data:
  assumes l: "looping t k j" "k < length ies" and g: "\<And>d. dat (snd (ies ! k)) d j \<Longrightarrow> dat (snd (ies ! k)) (g d) j'"
  shows "looping (t\<lparr>data_iter := w_call dops g (data_iter t)\<rparr>) k j'"
proof -
  obtain d where d: "w_iter (data_iter t) = Some d" "dat (snd (ies ! k)) d j" "data_block_handle t = snd (ies ! k)"
    using l by (auto simp: looping_def data_at_def)
  have "dgood (snd (ies ! k)) (g d)" by (rule entry_iterator.at_good [OF data_k [OF l(2)] g [OF d(2)]])
  then show ?thesis using l d g [OF d(2)] by (auto simp: looping_def tl_good_def data_at_def index_at_def)
qed

lemma tl_good_index: "tl_good t \<Longrightarrow> \<exists>i. w_iter (index_iter t) = Some i \<and> igood i"
  by (simp add: tl_good_def)

lemma place_index:
  assumes "tl_good t" and "\<And>i. igood i \<Longrightarrow> iat (g i) k"
  shows "tl_good (t\<lparr>index_iter := w_call iops g (index_iter t)\<rparr>)"
    and "index_at (t\<lparr>index_iter := w_call iops g (index_iter t)\<rparr>) k"
proof -
  obtain i where i: "w_iter (index_iter t) = Some i" "igood i" using tl_good_index [OF assms(1)] by blast
  note k = assms(2) [OF i(2)]
  then show "index_at (t\<lparr>index_iter := w_call iops g (index_iter t)\<rparr>) k" by (simp add: index_at_def i(1))
  show "tl_good (t\<lparr>index_iter := w_call iops g (index_iter t)\<rparr>)"
    using assms(1) i(1) ix.at_good [OF k] by (simp add: tl_good_def)
qed

lemma turns_kept: "tl_good t \<Longrightarrow> length ies + 1 < turns t"
  by (simp add: tl_good_def)

lemma turns_ops [simp]: "turns (with_data g (InitDataBlock iops dops t)) = turns t"
  by (simp add: with_data_def InitDataBlock_def SetDataIterator_def SaveError_def Let_def)

lemma turns_index: "turns (t\<lparr>index_iter := w\<rparr>) = turns t"
  by simp

lemma tl_keeps_contract:
  "entry_iterator (two_level_Iterator iops dops) cmp all_entries tl_at tl_good tok"
proof
  fix t p assume a: "tl_at t p"
  show "tl_good t" using a by (auto simp: tl_at_def looping_def)
  show "p \<le> length all_entries" by (rule tl_at_bound [OF a])
  show "it_Valid (two_level_Iterator iops dops) t \<longleftrightarrow> p < length all_entries"
    using tl_at_valid [OF a] by (simp add: two_level_Iterator_def)
  assume p: "p < length all_entries"
  obtain k j where l: "looping t k j" and k: "k < length ies" and j: "j < length (block k)" "p = start k + j"
    and d: "data_at t k j" using tl_at_entry [OF a p] by blast
  have g: "tl_good t" using l by (simp add: looping_def)
  note dk = data_k [OF k]
  obtain i where i: "w_iter (data_iter t) = Some i" "dat (snd (ies ! k)) i j" using d by (auto simp: data_at_def)
  have "w_key (data_iter t) = it_key dops i"
    using g data_valid(1) [OF g d k] j(1) i(1) by (simp add: tl_good_def wrapped_def)
  then show "(it_key (two_level_Iterator iops dops) t, it_value (two_level_Iterator iops dops) t) = all_entries ! p"
    using entry_iterator.at_entry [OF dk i(2) j(1)] i(1) entry_at [OF k j(1)] j(2)
    by (simp add: two_level_Iterator_def w_value_def)
  let ?n = "t\<lparr>data_iter := w_call dops (it_Next dops) (data_iter t)\<rparr>"
  have "looping ?n k (Suc j)" by (rule move_data [OF l k]) (rule entry_iterator.at_next [OF dk _ j(1)])
  then have "tl_at (SkipEmptyDataBlocksForward iops dops (turns t) ?n) (start k + Suc j)"
    by (rule skip_forward) (use turns_kept [OF g] in simp)
  then show "tl_at (it_Next (two_level_Iterator iops dops) t) (Suc p)"
    using j(2) by (simp add: two_level_Iterator_def tl_Next_def w_ops)
  let ?b = "t\<lparr>data_iter := w_call dops (it_Prev dops) (data_iter t)\<rparr>"
  have "looping ?b k (if j = 0 then length (block k) else j - 1)"
    by (rule move_data [OF l k]) (rule entry_iterator.at_prev [OF dk _ j(1)])
  then have "tl_at (SkipEmptyDataBlocksBackward iops dops (turns t) ?b)
      (back_position k (if j = 0 then length (block k) else j - 1))"
    by (rule skip_backward) (use turns_kept [OF g] k in simp)
  moreover have "back_position k (if j = 0 then length (block k) else j - 1) = (if p = 0 then length all_entries else p - 1)"
    using k j by (auto simp: back_position_def)
  ultimately show "tl_at (it_Prev (two_level_Iterator iops dops) t) (if p = 0 then length all_entries else p - 1)"
    by (simp add: two_level_Iterator_def tl_Prev_def w_ops)
next
  fix t assume g: "tl_good t"
  obtain i where i: "w_iter (index_iter t) = Some i" "igood i" using tl_good_index [OF g] by blast
  show "status_ok (it_status (two_level_Iterator iops dops) t)"
    using ix.good_status [OF i(2)] i(1) data_status [OF g] g
    by (simp add: two_level_Iterator_def tl_get_status_def w_status_def tl_good_def)
  note fuel = turns_kept [OF g]
  let ?f = "t\<lparr>index_iter := w_call iops (it_SeekToFirst iops) (index_iter t)\<rparr>"
  have n: "tl_good ?f" "index_at ?f 0" by (rule place_index [OF g ix.at_first], assumption)+
  have "looping (with_data (w_call dops (it_SeekToFirst dops)) (InitDataBlock iops dops ?f)) 0
      (if 0 < length ies then 0 else 0)"
    by (rule open_at [OF n]) (use entry_iterator.at_first [OF data_k] in auto)
  from skip_forward [OF this, of "turns t"] show "tl_at (it_SeekToFirst (two_level_Iterator iops dops) t) 0"
    using fuel by (simp add: two_level_Iterator_def tl_SeekToFirst_def w_ops Let_def)
  let ?l = "t\<lparr>index_iter := w_call iops (it_SeekToLast iops) (index_iter t)\<rparr>" and ?k = "length ies - 1"
  let ?j = "if ?k < length ies then length (block ?k) - 1 else 0"
  have n: "tl_good ?l" "index_at ?l ?k" by (rule place_index [OF g ix.at_last], assumption)+
  have "looping (with_data (w_call dops (it_SeekToLast dops)) (InitDataBlock iops dops ?l)) ?k ?j"
    by (rule open_at [OF n]) (use entry_iterator.at_last [OF data_k] in auto)
  moreover have "(if ?k = length ies then 0 else Suc ?k) < turns t" using fuel by (simp, linarith)
  ultimately have "tl_at (SkipEmptyDataBlocksBackward iops dops (turns t)
      (with_data (w_call dops (it_SeekToLast dops)) (InitDataBlock iops dops ?l))) (back_position ?k ?j)"
    by (rule skip_backward)
  then have "tl_at (it_SeekToLast (two_level_Iterator iops dops) t) (back_position ?k ?j)"
    by (simp only: two_level_Iterator_def tl_SeekToLast_def w_ops Let_def Iterator.select_convs turns_ops)
      (simp only: turns_index)
  moreover have "back_position ?k ?j = length all_entries - 1"
  proof (cases ies)
    case Nil
    have "all_entries = []" "length ies = 0" unfolding all_entries_def using Nil by simp_all
    then show ?thesis unfolding back_position_def by simp
  next
    case (Cons e es)
    then have k: "?k < length ies" by simp
    have "length all_entries = start ?k + length (block ?k)" using start_Suc [OF k] start_all Cons by simp
    then show ?thesis using k by (cases "block ?k") (simp_all add: back_position_def)
  qed
  ultimately show "tl_at (it_SeekToLast (two_level_Iterator iops dops) t) (length all_entries - 1)" by simp
  fix target assume ok: "tok target"
  let ?s = "t\<lparr>index_iter := w_call iops (\<lambda>i. it_Seek iops i target) (index_iter t)\<rparr>" and ?k = "seek_index cmp ies target"
  have n: "tl_good ?s" "index_at ?s ?k" by (rule place_index [OF g], rule ix.at_seek, assumption, rule ok)+
  have "looping (with_data (w_call dops (\<lambda>d. it_Seek dops d target)) (InitDataBlock iops dops ?s)) ?k
      (if ?k < length ies then seek_index cmp (block ?k) target else 0)"
    by (rule open_at [OF n seek_index_le]) (use entry_iterator.at_seek [OF data_k _ ok] in auto)
  from skip_forward [OF this, of "turns t"]
  show "tl_at (it_Seek (two_level_Iterator iops dops) t target) (seek_index cmp all_entries target)"
    using fuel seek_position [OF ok] by (simp add: two_level_Iterator_def tl_Seek_def w_ops Let_def)
qed

end

sublocale two_level \<subseteq> both: entry_iterator "two_level_Iterator iops dops" cmp all_entries tl_at tl_good tok
  by (rule tl_keeps_contract)

end
