(* ===== verification/Ldb_Table.thy ===== *)
theory Ldb_Table
  imports Ldb_Block Ldb_TwoLevel Ldb_Env Ldb_Crc32c
begin

text \<open>
  Tables, the immutable sorted files: block handles, the footer and reading one block
  (\<^verbatim>\<open>table/format.cc\<close>), the builder (\<^verbatim>\<open>table/table_builder.cc\<close>) and the reader (\<^verbatim>\<open>table/table.cc\<close>).
  A table is opened without a block cache here.  Checksums are taken at address 0; by
  \<open>Extend_is_crc32c\<close> the address does not matter.
\<close>

section \<open>Files read at an offset\<close>

text \<open>
  \<^verbatim>\<open>RandomAccessFile::Read(offset, n, &result, scratch)\<close>: the status, the bytes of \<^verbatim>\<open>result\<close>, and whether
  they are in \<^verbatim>\<open>scratch\<close>.
\<close>

type_synonym random_file = "64 word \<Rightarrow> 64 word \<Rightarrow> Status \<times> slice \<times> bool"

text \<open>A file that has been mapped, over the bytes of its mapping.\<close>

definition mmap_file :: "kernel \<Rightarrow> PosixMmapReadableFile \<Rightarrow> byte list \<Rightarrow> random_file" where
  "mmap_file k f mapping offset n =
     (case Mmap_Read k f offset n of (s, p, len) \<Rightarrow>
        (s, take (unat len) (drop (unat (p - mmap_base f)) mapping), False))"

text \<open>
  A file read with \<^verbatim>\<open>pread\<close>: \<open>has_permanent_fd\<close> says whether a descriptor is kept; without one the file
  is opened and closed again around the read.
\<close>

record PosixRandomAccessFile =
  has_permanent_fd :: bool
  ra_filename :: "byte list"
  ra_disk :: "byte list"

definition pread :: "kernel \<Rightarrow> byte list \<Rightarrow> 64 word \<Rightarrow> 64 word \<Rightarrow> (int + slice) \<times> kernel" where
  "pread k disk_bytes offset n =
     (case answers k of
        [] \<Rightarrow> (Inr (take (unat n) (drop (unat offset) disk_bytes)), k)
      | Done m # as \<Rightarrow> (Inr (take (min m (unat n)) (drop (unat offset) disk_bytes)), k\<lparr>answers := as\<rparr>)
      | Failed e # as \<Rightarrow> (Inl e, k\<lparr>answers := as\<rparr>))"

definition RandomAccess_Read ::
  "PosixRandomAccessFile \<Rightarrow> kernel \<Rightarrow> 64 word \<Rightarrow> 64 word \<Rightarrow> (Status \<times> slice \<times> bool) \<times> kernel" where
  "RandomAccess_Read f k offset n =
     (let (opened, k) = (if \<not> has_permanent_fd f then syscall k else (None, k)) in
      case opened of
        Some e \<Rightarrow> ((PosixError k (ra_filename f) e, [], False), k)
      | None \<Rightarrow>
          let (r, k) = pread k (ra_disk f) offset n;
              res = (case r of Inl e \<Rightarrow> (PosixError k (ra_filename f) e, [], True) | Inr bytes \<Rightarrow> (Status_OK, bytes, True));
              k = (if \<not> has_permanent_fd f then snd (syscall k) else k)
          in (res, k))"

section \<open>Handles and the footer\<close>

record BlockHandle =
  bh_offset :: "64 word"
  bh_size :: "64 word"

definition new_BlockHandle :: BlockHandle where
  "new_BlockHandle = \<lparr>bh_offset = NOT 0, bh_size = NOT 0\<rparr>"

definition kMaxEncodedLength :: nat where "kMaxEncodedLength = 10 + 10"

definition BlockHandle_EncodeTo :: "BlockHandle \<Rightarrow> byte list \<Rightarrow> byte list" where
  "BlockHandle_EncodeTo h dst = PutVarint64 (PutVarint64 dst (bh_offset h)) (bh_size h)"

definition BlockHandle_DecodeFrom :: "BlockHandle \<Rightarrow> slice \<Rightarrow> Status \<times> BlockHandle \<times> slice" where
  "BlockHandle_DecodeFrom h input =
     (case GetVarint64 input of
        None \<Rightarrow> (Status_Corruption (bytes_of ''bad block handle'') [], h, input)
      | Some (off, input) \<Rightarrow>
          let h = h\<lparr>bh_offset := off\<rparr> in
          case GetVarint64 input of
            None \<Rightarrow> (Status_Corruption (bytes_of ''bad block handle'') [], h, input)
          | Some (sz, input) \<Rightarrow> (Status_OK, h\<lparr>bh_size := sz\<rparr>, input))"

record Footer =
  metaindex_handle :: BlockHandle
  index_handle :: BlockHandle

definition kEncodedLength :: nat where "kEncodedLength = 2 * kMaxEncodedLength + 8"

definition kTableMagicNumber :: "64 word" where "kTableMagicNumber = 0xdb4775248b80fb57"

definition string_resize :: "nat \<Rightarrow> byte list \<Rightarrow> byte list" where
  "string_resize n s = take n s @ replicate (n - length s) 0"

definition Footer_EncodeTo :: "Footer \<Rightarrow> byte list \<Rightarrow> byte list" where
  "Footer_EncodeTo f dst =
     (let dst = BlockHandle_EncodeTo (metaindex_handle f) dst;
          dst = BlockHandle_EncodeTo (index_handle f) dst;
          dst = string_resize (2 * kMaxEncodedLength) dst;
          dst = PutFixed32 dst (ucast (kTableMagicNumber AND 0xffffffff));
          dst = PutFixed32 dst (ucast (drop_bit 32 kTableMagicNumber))
      in dst)"

definition Footer_DecodeFrom :: "Footer \<Rightarrow> slice \<Rightarrow> Status \<times> Footer \<times> slice" where
  "Footer_DecodeFrom f input =
     (let magic_ptr = drop (kEncodedLength - 8) input;
          magic_lo = DecodeFixed32 magic_ptr;
          magic_hi = DecodeFixed32 (drop 4 magic_ptr);
          magic = push_bit 32 (ucast magic_hi) OR ucast magic_lo in
      if magic \<noteq> kTableMagicNumber
      then (Status_Corruption (bytes_of ''not an sstable (bad magic number)'') [], f, input)
      else
        let (result, h, rest) = BlockHandle_DecodeFrom (metaindex_handle f) input;
            f = f\<lparr>metaindex_handle := h\<rparr> in
        if \<not> status_ok result then (result, f, rest)
        else
          let (result, h, rest) = BlockHandle_DecodeFrom (index_handle f) rest;
              f = f\<lparr>index_handle := h\<rparr> in
          if \<not> status_ok result then (result, f, rest) else (result, f, drop 8 magic_ptr))"

section \<open>Reading one block\<close>

definition kBlockTrailerSize :: nat where "kBlockTrailerSize = 5"

text \<open>\<^verbatim>\<open>port/port_stdcxx.h\<close> without \<^verbatim>\<open>HAVE_SNAPPY\<close>: the compressor does nothing and answers false.\<close>

definition Snappy_Compress :: "slice \<Rightarrow> slice option" where
  "Snappy_Compress input = None"

definition Snappy_GetUncompressedLength :: "slice \<Rightarrow> nat option" where
  "Snappy_GetUncompressedLength input = None"

definition Snappy_Uncompress :: "slice \<Rightarrow> slice option" where
  "Snappy_Uncompress input = None"

definition no_contents :: BlockContents where
  "no_contents = \<lparr>contents_data = [], cachable = False, heap_allocated = False\<rparr>"

text \<open>\<^verbatim>\<open>n + kBlockTrailerSize\<close> is a sum of 64 bits.\<close>

definition ReadBlock :: "random_file \<Rightarrow> ReadOptions \<Rightarrow> BlockHandle \<Rightarrow> Status \<times> BlockContents" where
  "ReadBlock file options handle =
     (let n = bh_size handle;
          (s, bytes, in_buf) = file (bh_offset handle) (n + of_nat kBlockTrailerSize) in
      if \<not> status_ok s then (s, no_contents)
      else if of_nat (length bytes) \<noteq> n + of_nat kBlockTrailerSize
      then (Status_Corruption (bytes_of ''truncated block read'') [], no_contents)
      else if verify_checksums options \<and>
        crc32c_Value 0 (take (unat n + 1) bytes) \<noteq> Unmask (DecodeFixed32 (drop (unat n + 1) bytes))
      then (Status_Corruption (bytes_of ''block checksum mismatch'') [], no_contents)
      else if bytes ! unat n = compression_code kNoCompression then
        (Status_OK, \<lparr>contents_data = take (unat n) bytes, cachable = in_buf, heap_allocated = in_buf\<rparr>)
      else if bytes ! unat n = compression_code kSnappyCompression then
        (case Snappy_GetUncompressedLength (take (unat n) bytes) of
           None \<Rightarrow> (Status_Corruption (bytes_of ''corrupted compressed block contents'') [], no_contents)
         | Some ulength \<Rightarrow>
             (case Snappy_Uncompress (take (unat n) bytes) of
                None \<Rightarrow> (Status_Corruption (bytes_of ''corrupted compressed block contents'') [], no_contents)
              | Some ubuf \<Rightarrow> (Status_OK, \<lparr>contents_data = ubuf, cachable = True, heap_allocated = True\<rparr>)))
      else (Status_Corruption (bytes_of ''bad block type'') [], no_contents))"

section \<open>The builder\<close>

text \<open>\<open>'s\<close> is the state of the writable file; a null filter block is \<^const>\<open>None\<close>.\<close>

record 's TableBuilder =
  tb_options :: Options
  index_block_options :: Options
  tb_file :: 's
  tb_offset :: "64 word"
  tb_status :: Status
  data_block :: BlockBuilder
  index_block :: BlockBuilder
  tb_last_key :: "byte list"
  num_entries :: "64 word"
  tb_closed :: bool
  filter_block :: "FilterBlockBuilder option"
  pending_index_entry :: bool
  pending_handle :: BlockHandle
  compressed_output :: "byte list"

definition new_Rep :: "Options \<Rightarrow> 's \<Rightarrow> 's TableBuilder" where
  "new_Rep opt f =
     (let iopt = opt\<lparr>block_restart_interval := 1\<rparr> in
      \<lparr>tb_options = opt, index_block_options = iopt, tb_file = f, tb_offset = 0, tb_status = Status_OK,
       data_block = new_BlockBuilder opt, index_block = new_BlockBuilder iopt, tb_last_key = [], num_entries = 0,
       tb_closed = False, filter_block = map_option new_FilterBlockBuilder (filter_policy_of opt),
       pending_index_entry = False, pending_handle = new_BlockHandle, compressed_output = []\<rparr>)"

definition new_TableBuilder :: "Options \<Rightarrow> 's \<Rightarrow> 's TableBuilder" where
  "new_TableBuilder options f =
     (let r = new_Rep options f in r\<lparr>filter_block := map_option (StartBlock 0) (filter_block r)\<rparr>)"

text \<open>
  The comparators are compared as pointers: \<open>same_comparator\<close> is the outcome.  The block builders point
  to the options, so they follow them.
\<close>

definition ChangeOptions :: "bool \<Rightarrow> Options \<Rightarrow> 's TableBuilder \<Rightarrow> Status \<times> 's TableBuilder" where
  "ChangeOptions same_comparator options r =
     (if \<not> same_comparator
      then (Status_InvalidArgument (bytes_of ''changing comparator while building table'') [], r)
      else
        let iopt = options\<lparr>block_restart_interval := 1\<rparr> in
        (Status_OK, r\<lparr>tb_options := options, index_block_options := iopt,
           data_block := (data_block r)\<lparr>bb_options := options\<rparr>,
           index_block := (index_block r)\<lparr>bb_options := iopt\<rparr>\<rparr>))"

definition tb_ok :: "'s TableBuilder \<Rightarrow> bool" where
  "tb_ok r \<longleftrightarrow> status_ok (tb_status r)"

definition WriteRawBlock ::
  "'s WritableFile \<Rightarrow> slice \<Rightarrow> CompressionType \<Rightarrow> 's TableBuilder \<Rightarrow> BlockHandle \<times> 's TableBuilder" where
  "WriteRawBlock ops block_contents type r =
     (let handle = \<lparr>bh_offset = tb_offset r, bh_size = of_nat (length block_contents)\<rparr>;
          (s, f) = Append_op ops (tb_file r) block_contents;
          r = r\<lparr>tb_status := s, tb_file := f\<rparr> in
      if status_ok s then
        let crc = crc32c_Value 0 block_contents;
            crc = Extend crc 0 [compression_code type];
            trailer = compression_code type # EncodeFixed32 (Mask crc);
            (s, f) = Append_op ops (tb_file r) trailer;
            r = r\<lparr>tb_status := s, tb_file := f\<rparr> in
        if status_ok s
        then (handle, r\<lparr>tb_offset := tb_offset r + of_nat (length block_contents + kBlockTrailerSize)\<rparr>)
        else (handle, r)
      else (handle, r))"

text \<open>The block is returned as \<^verbatim>\<open>Reset\<close> leaves it.\<close>

definition WriteBlock ::
  "'s WritableFile \<Rightarrow> BlockBuilder \<Rightarrow> 's TableBuilder \<Rightarrow> BlockHandle \<times> BlockBuilder \<times> 's TableBuilder" where
  "WriteBlock ops block r =
     (let block = BlockBuilder_Finish block;
          raw = bb_buffer block;
          (block_contents, type) =
            (case compression (tb_options r) of
               kNoCompression \<Rightarrow> (raw, kNoCompression)
             | kSnappyCompression \<Rightarrow>
                 (case Snappy_Compress raw of
                    Some compressed \<Rightarrow>
                      if length compressed < length raw - length raw div 8 then (compressed, kSnappyCompression)
                      else (raw, kNoCompression)
                  | None \<Rightarrow> (raw, kNoCompression)));
          (handle, r) = WriteRawBlock ops block_contents type r
      in (handle, BlockBuilder_Reset block, r\<lparr>compressed_output := []\<rparr>))"

definition TableBuilder_Flush :: "'s WritableFile \<Rightarrow> 's TableBuilder \<Rightarrow> 's TableBuilder" where
  "TableBuilder_Flush ops r =
     (if \<not> tb_ok r then r
      else if BlockBuilder_empty (data_block r) then r
      else
        let (handle, block, r) = WriteBlock ops (data_block r) r;
            r = r\<lparr>pending_handle := handle, data_block := block\<rparr>;
            r = (if tb_ok r then
                   let (s, f) = Flush_op ops (tb_file r)
                   in r\<lparr>pending_index_entry := True, tb_status := s, tb_file := f\<rparr>
                 else r)
        in r\<lparr>filter_block := map_option (StartBlock (tb_offset r)) (filter_block r)\<rparr>)"

definition TableBuilder_Add :: "'s WritableFile \<Rightarrow> slice \<Rightarrow> slice \<Rightarrow> 's TableBuilder \<Rightarrow> 's TableBuilder" where
  "TableBuilder_Add ops key val r =
     (if \<not> tb_ok r then r
      else
        let r = (if pending_index_entry r then
                   let last_key = FindShortestSeparator (comparator_of (tb_options r)) (tb_last_key r) key;
                       handle_encoding = BlockHandle_EncodeTo (pending_handle r) []
                   in r\<lparr>tb_last_key := last_key, index_block := BlockBuilder_Add last_key handle_encoding (index_block r),
                        pending_index_entry := False\<rparr>
                 else r);
            r = r\<lparr>filter_block := map_option (AddKey key) (filter_block r)\<rparr>;
            r = r\<lparr>tb_last_key := key, num_entries := num_entries r + 1,
                  data_block := BlockBuilder_Add key val (data_block r)\<rparr>
        in if CurrentSizeEstimate (data_block r) \<ge> block_size (tb_options r) then TableBuilder_Flush ops r else r)"

text \<open>The four parts of \<^verbatim>\<open>Finish\<close>, each run only while there is no error.\<close>

definition write_filter_block :: "'s WritableFile \<Rightarrow> 's TableBuilder \<Rightarrow> BlockHandle \<times> 's TableBuilder" where
  "write_filter_block ops r =
     (if tb_ok r then
        case filter_block r of
          None \<Rightarrow> (new_BlockHandle, r)
        | Some fb \<Rightarrow>
            let fb = FilterBlock_Finish fb
            in WriteRawBlock ops (fb_result fb) kNoCompression (r\<lparr>filter_block := Some fb\<rparr>)
      else (new_BlockHandle, r))"

text \<open>A filter block without a policy in the options does not occur unless they were changed.\<close>

definition write_metaindex_block ::
  "'s WritableFile \<Rightarrow> BlockHandle \<Rightarrow> 's TableBuilder \<Rightarrow> BlockHandle \<times> 's TableBuilder" where
  "write_metaindex_block ops filter_handle r =
     (if tb_ok r then
        let meta = new_BlockBuilder (tb_options r);
            meta = (case (filter_block r, filter_policy_of (tb_options r)) of
                      (Some fb, Some pol) \<Rightarrow>
                        BlockBuilder_Add (bytes_of ''filter.'' @ policy_Name pol) (BlockHandle_EncodeTo filter_handle []) meta
                    | _ \<Rightarrow> meta);
            (h, meta, r) = WriteBlock ops meta r
        in (h, r)
      else (new_BlockHandle, r))"

definition write_index_block :: "'s WritableFile \<Rightarrow> 's TableBuilder \<Rightarrow> BlockHandle \<times> 's TableBuilder" where
  "write_index_block ops r =
     (if tb_ok r then
        let r = (if pending_index_entry r then
                   let last_key = FindShortSuccessor (comparator_of (tb_options r)) (tb_last_key r);
                       handle_encoding = BlockHandle_EncodeTo (pending_handle r) []
                   in r\<lparr>tb_last_key := last_key,
                        index_block := BlockBuilder_Add last_key handle_encoding (index_block r),
                        pending_index_entry := False\<rparr>
                 else r);
            (h, block, r) = WriteBlock ops (index_block r) r
        in (h, r\<lparr>index_block := block\<rparr>)
      else (new_BlockHandle, r))"

definition write_footer :: "'s WritableFile \<Rightarrow> Footer \<Rightarrow> 's TableBuilder \<Rightarrow> 's TableBuilder" where
  "write_footer ops footer r =
     (if tb_ok r then
        let footer_encoding = Footer_EncodeTo footer [];
            (s, f) = Append_op ops (tb_file r) footer_encoding;
            r = r\<lparr>tb_status := s, tb_file := f\<rparr>
        in if status_ok s then r\<lparr>tb_offset := tb_offset r + of_nat (length footer_encoding)\<rparr> else r
      else r)"

definition TableBuilder_Finish :: "'s WritableFile \<Rightarrow> 's TableBuilder \<Rightarrow> Status \<times> 's TableBuilder" where
  "TableBuilder_Finish ops r =
     (let r = TableBuilder_Flush ops r;
          r = r\<lparr>tb_closed := True\<rparr>;
          (filter_block_handle, r) = write_filter_block ops r;
          (metaindex_block_handle, r) = write_metaindex_block ops filter_block_handle r;
          (index_block_handle, r) = write_index_block ops r;
          r = write_footer ops \<lparr>metaindex_handle = metaindex_block_handle, index_handle = index_block_handle\<rparr> r
      in (tb_status r, r))"

definition TableBuilder_Abandon :: "'s TableBuilder \<Rightarrow> 's TableBuilder" where
  "TableBuilder_Abandon r = r\<lparr>tb_closed := True\<rparr>"

definition NumEntries :: "'s TableBuilder \<Rightarrow> 64 word" where
  "NumEntries r = num_entries r"

definition FileSize :: "'s TableBuilder \<Rightarrow> 64 word" where
  "FileSize r = tb_offset r"

section \<open>The reader\<close>

text \<open>A null filter is \<^const>\<open>None\<close>; \<open>filter_data\<close> is what the destructor frees.\<close>

record Table =
  t_options :: Options
  t_file :: random_file
  t_filter :: "FilterBlockReader option"
  filter_data :: "byte list option"
  t_metaindex_handle :: BlockHandle
  t_index_block :: Block

definition meta_ReadOptions :: "Options \<Rightarrow> ReadOptions" where
  "meta_ReadOptions options = \<lparr>verify_checksums = paranoid_checks options, fill_cache = True\<rparr>"

definition ReadFilter :: "FilterPolicy \<Rightarrow> slice \<Rightarrow> Table \<Rightarrow> Table" where
  "ReadFilter pol filter_handle_value t =
     (case BlockHandle_DecodeFrom new_BlockHandle filter_handle_value of (s, filter_handle, v) \<Rightarrow>
        if \<not> status_ok s then t
        else
          case ReadBlock (t_file t) (meta_ReadOptions (t_options t)) filter_handle of (s, block) \<Rightarrow>
            if \<not> status_ok s then t
            else
              let t = (if heap_allocated block then t\<lparr>filter_data := Some (contents_data block)\<rparr> else t)
              in t\<lparr>t_filter := Some (new_FilterBlockReader pol (contents_data block))\<rparr>)"

definition ReadMeta :: "Footer \<Rightarrow> Table \<Rightarrow> Table" where
  "ReadMeta footer t =
     (case filter_policy_of (t_options t) of
        None \<Rightarrow> t
      | Some pol \<Rightarrow>
          (case ReadBlock (t_file t) (meta_ReadOptions (t_options t)) (metaindex_handle footer) of (s, bytes) \<Rightarrow>
             if \<not> status_ok s then t
             else
               let it = Block_NewIterator BytewiseComparator (new_Block bytes);
                   key = bytes_of ''filter.'' @ policy_Name pol;
                   it = it_Seek block_Iterator it key in
               if it_Valid block_Iterator it \<and> slice_eq (it_key block_Iterator it) key
               then ReadFilter pol (it_value block_Iterator it) t else t))"

text \<open>The footer is taken from what the read returned, whose length the code does not look at.\<close>

definition Table_Open :: "Options \<Rightarrow> random_file \<Rightarrow> 64 word \<Rightarrow> Status \<times> Table option" where
  "Table_Open options file sz =
     (if sz < of_nat kEncodedLength
      then (Status_Corruption (bytes_of ''file is too short to be an sstable'') [], None)
      else
        case file (sz - of_nat kEncodedLength) (of_nat kEncodedLength) of (s, footer_input, _) \<Rightarrow>
          if \<not> status_ok s then (s, None)
          else
            case Footer_DecodeFrom \<lparr>metaindex_handle = new_BlockHandle, index_handle = new_BlockHandle\<rparr> footer_input of
              (s, footer, _) \<Rightarrow>
                if \<not> status_ok s then (s, None)
                else
                  case ReadBlock file (meta_ReadOptions options) (index_handle footer) of (s, index_block_contents) \<Rightarrow>
                    if status_ok s then
                      (s, Some (ReadMeta footer
                        \<lparr>t_options = options, t_file = file, t_filter = None, filter_data = None,
                         t_metaindex_handle = metaindex_handle footer, t_index_block = new_Block index_block_contents\<rparr>))
                    else (s, None))"

definition BlockReader :: "Table \<Rightarrow> ReadOptions \<Rightarrow> slice \<Rightarrow> block_iterator" where
  "BlockReader t options index_value =
     (case BlockHandle_DecodeFrom new_BlockHandle index_value of (s, handle, input) \<Rightarrow>
        if status_ok s then
          (case ReadBlock (t_file t) options handle of (s, bytes) \<Rightarrow>
             if status_ok s then Block_NewIterator (comparator_of (t_options t)) (new_Block bytes)
             else No_Entries (NewErrorIterator s))
        else No_Entries (NewErrorIterator s))"

text \<open>Each index entry takes three bytes or more, so the loops have enough turns.\<close>

definition Table_NewIterator :: "Table \<Rightarrow> ReadOptions \<Rightarrow> (block_iterator, block_iterator) TwoLevelIterator" where
  "Table_NewIterator t options =
     NewTwoLevelIterator block_Iterator (bl_size (t_index_block t) + 2)
       (Block_NewIterator (comparator_of (t_options t)) (t_index_block t)) (BlockReader t options)"

abbreviation table_Iterator :: "(block_iterator, block_iterator) TwoLevelIterator Iterator" where
  "table_Iterator \<equiv> two_level_Iterator block_Iterator block_Iterator"

text \<open>The entry that \<^verbatim>\<open>handle_result\<close> is called with is returned.\<close>

definition InternalGet :: "Table \<Rightarrow> ReadOptions \<Rightarrow> slice \<Rightarrow> Status \<times> (slice \<times> slice) option" where
  "InternalGet t options k =
     (let iiter = it_Seek block_Iterator (Block_NewIterator (comparator_of (t_options t)) (t_index_block t)) k;
          (s, result) =
            (if it_Valid block_Iterator iiter then
               let handle_value = it_value block_Iterator iiter;
                   denied = (case t_filter t of
                     None \<Rightarrow> False
                   | Some flt \<Rightarrow>
                       (case BlockHandle_DecodeFrom new_BlockHandle handle_value of (s, handle, _) \<Rightarrow>
                          status_ok s \<and> \<not> FilterBlock_KeyMayMatch flt (bh_offset handle) k)) in
               if denied then (Status_OK, None)
               else
                 let block_iter = it_Seek block_Iterator (BlockReader t options (it_value block_Iterator iiter)) k
                 in (it_status block_Iterator block_iter,
                     if it_Valid block_Iterator block_iter
                     then Some (it_key block_Iterator block_iter, it_value block_Iterator block_iter) else None)
             else (Status_OK, None))
      in (if status_ok s then it_status block_Iterator iiter else s, result))"

definition ApproximateOffsetOf :: "Table \<Rightarrow> slice \<Rightarrow> 64 word" where
  "ApproximateOffsetOf t key =
     (let index_iter = it_Seek block_Iterator (Block_NewIterator (comparator_of (t_options t)) (t_index_block t)) key in
      if it_Valid block_Iterator index_iter then
        (case BlockHandle_DecodeFrom new_BlockHandle (it_value block_Iterator index_iter) of (s, handle, _) \<Rightarrow>
           if status_ok s then bh_offset handle else bh_offset (t_metaindex_handle t))
      else bh_offset (t_metaindex_handle t))"

end
