(* ===== verification/Ldb_Block_Facts.thy ===== *)
theory Ldb_Block_Facts
  imports Ldb_Block
begin

text \<open>
  Blocks are read as they were built: what the builder writes, what the iterator reads at each entry,
  and the contract of an iterator for it.
\<close>

section \<open>One entry\<close>

definition entry_bytes :: "nat \<Rightarrow> slice \<Rightarrow> slice \<Rightarrow> byte list" where
  "entry_bytes sh k v =
     EncodeVarint32 (of_nat sh) @ EncodeVarint32 (of_nat (length k - sh)) @ EncodeVarint32 (of_nat (length v)) @
     drop sh k @ v"

lemma EncodeVarint32_cases:
  obtains (small) "v < 128" and "EncodeVarint32 v = [ucast v]"
  | (large) b bs where "EncodeVarint32 v = b # bs" and "\<not> (ucast b :: 32 word) < 128"
proof (cases "v < 128")
  case True
  then show ?thesis using small by (simp add: EncodeVarint32_def)
next
  case False
  then have "EncodeVarint32 v = ucast (v OR 128) # tl (EncodeVarint32 v)" by (simp add: EncodeVarint32_def)
  moreover have "\<not> (ucast (ucast (v OR 128) :: byte) :: 32 word) < 128"
    using cont_byte32 [of v] seven_bits(2) [of "ucast (ucast (v OR 128) :: byte) :: 32 word"]
      small_drop [of "ucast (ucast (v OR 128) :: byte) :: 32 word" 7] by auto
  ultimately show ?thesis using large by blast
qed

lemma EncodeVarint32_length_pos: "1 \<le> length (EncodeVarint32 v)"
  by (simp add: EncodeVarint32_def)

lemma ucast_small: "v < 128 \<Longrightarrow> ucast (ucast (v :: 32 word) :: byte) = v"
  using seven_bits(1) [of v] small_drop [of v 7] by simp

lemma or3_less:
  assumes "(a OR b OR c) < (128 :: 32 word)"
  shows "a < 128 \<and> b < 128 \<and> c < 128"
proof -
  have "a \<le> a OR b OR c" "b OR c \<le> a OR b OR c" "b \<le> b OR c" "c \<le> b OR c"
    using le_word_or2 [of a "b OR c"] le_word_or2 [of "b OR c" a] le_word_or2 [of b c] le_word_or2 [of c b]
    by (simp_all add: or.commute or.left_commute)
  with assms show ?thesis by (meson le_less_trans order_trans)
qed

lemma slow_path:
  "(case GetVarint32Ptr (EncodeVarint32 a @ EncodeVarint32 b @ EncodeVarint32 c @ q) of None \<Rightarrow> None
    | Some (s, p) \<Rightarrow>
        (case GetVarint32Ptr p of None \<Rightarrow> None
         | Some (n, p) \<Rightarrow> (case GetVarint32Ptr p of None \<Rightarrow> None | Some (v, p) \<Rightarrow> Some (s, n, v, p))))
   = Some (a, b, c, q)"
  using varint32_codec by (simp add: GetVarint32_def)

lemma DecodeEntry_bytes:
  assumes "b + c \<le> of_nat (length q)"
  shows "DecodeEntry (EncodeVarint32 a @ EncodeVarint32 b @ EncodeVarint32 c @ q) = Some (a, b, c, q)"
proof -
  let ?p = "EncodeVarint32 a @ EncodeVarint32 b @ EncodeVarint32 c @ q"
  have long: "\<not> length ?p < 3"
    using EncodeVarint32_length_pos [of a] EncodeVarint32_length_pos [of b] EncodeVarint32_length_pos [of c] by simp
  have heads: "(if (ucast (?p ! 0) OR ucast (?p ! 1) OR ucast (?p ! 2)) < (128 :: 32 word)
      then Some (ucast (?p ! 0) :: 32 word, ucast (?p ! 1), ucast (?p ! 2), drop 3 ?p)
      else
        case GetVarint32Ptr ?p of None \<Rightarrow> None
        | Some (s, p) \<Rightarrow>
            (case GetVarint32Ptr p of None \<Rightarrow> None
             | Some (n, p) \<Rightarrow> (case GetVarint32Ptr p of None \<Rightarrow> None | Some (v, p) \<Rightarrow> Some (s, n, v, p))))
      = Some (a, b, c, q)"
  proof (cases "(ucast (?p ! 0) OR ucast (?p ! 1) OR ucast (?p ! 2)) < (128 :: 32 word)")
    case True
    note small = or3_less [OF True]
    have a: "a < 128" "EncodeVarint32 a = [ucast a]"
      using small by (cases rule: EncodeVarint32_cases [of a]; simp)+
    have b: "b < 128" "EncodeVarint32 b = [ucast b]"
      using small a by (cases rule: EncodeVarint32_cases [of b]; simp)+
    have c: "c < 128" "EncodeVarint32 c = [ucast c]"
      using small a b by (cases rule: EncodeVarint32_cases [of c]; simp add: numeral_2_eq_2)+
    show ?thesis using True by (simp add: a b c ucast_small numeral_2_eq_2 numeral_3_eq_3)
  next
    case False
    then show ?thesis by (simp only: if_False slow_path)
  qed
  show ?thesis
    unfolding DecodeEntry_def Let_def heads using long assms by (simp add: not_less)
qed

lemma DecodeEntry_entry:
  assumes "length (entry_bytes sh k v @ rest) < 2 ^ 32" and "sh \<le> length k"
  shows "DecodeEntry (entry_bytes sh k v @ rest) =
    Some (of_nat sh, of_nat (length k - sh), of_nat (length v), drop sh k @ v @ rest)"
proof -
  have "length (drop sh k @ v @ rest) < 2 ^ 32" using assms by (simp add: entry_bytes_def)
  then have "(of_nat (length k - sh) :: 32 word) + of_nat (length v) \<le> of_nat (length (drop sh k @ v @ rest))"
    using unat_of_nat_32 [of "length k - sh + length v"] unat_of_nat_32 [of "length (drop sh k @ v @ rest)"]
    by (simp add: word_le_nat_alt)
  from DecodeEntry_bytes [OF this] show ?thesis by (simp add: entry_bytes_def)
qed

lemma entry_bytes_length: "3 + (length k - sh) + length v \<le> length (entry_bytes sh k v)"
  using EncodeVarint32_length_pos [of "of_nat sh"] EncodeVarint32_length_pos [of "of_nat (length k - sh)"]
    EncodeVarint32_length_pos [of "of_nat (length v)"]
  by (simp add: entry_bytes_def)

section \<open>What the builder writes\<close>

text \<open>\<open>shs\<close> are the shared lengths and \<open>R\<close> the numbers of the entries at the restart points.\<close>

definition chunks :: "nat list \<Rightarrow> entries \<Rightarrow> byte list list" where
  "chunks shs es = map2 (\<lambda>sh e. entry_bytes sh (fst e) (snd e)) shs es"

definition off :: "nat list \<Rightarrow> entries \<Rightarrow> nat \<Rightarrow> nat" where
  "off shs es i = length (concat (take i (chunks shs es)))"

definition prev_key :: "entries \<Rightarrow> nat \<Rightarrow> slice" where
  "prev_key es i = (if i = 0 then [] else fst (es ! (i - 1)))"

definition sharing :: "entries \<Rightarrow> nat list \<Rightarrow> bool" where
  "sharing es shs \<longleftrightarrow> length shs = length es \<and>
     (\<forall>i < length es. shs ! i \<le> length (prev_key es i) \<and> shs ! i \<le> length (fst (es ! i)) \<and>
       take (shs ! i) (prev_key es i) = take (shs ! i) (fst (es ! i)))"

definition restart_points :: "entries \<Rightarrow> nat list \<Rightarrow> nat list \<Rightarrow> bool" where
  "restart_points es shs R \<longleftrightarrow> R \<noteq> [] \<and> R ! 0 = 0 \<and> sorted_wrt (<) R \<and>
     (\<forall>r \<in> set R. (r < length es \<or> r = 0) \<and> (r < length es \<longrightarrow> shs ! r = 0))"

definition built :: "entries \<Rightarrow> nat list \<Rightarrow> nat list \<Rightarrow> BlockBuilder \<Rightarrow> bool" where
  "built es shs R b \<longleftrightarrow> sharing es shs \<and> restart_points es shs R \<and>
     bb_buffer b = concat (chunks shs es) \<and> bb_restarts b = map (\<lambda>r. of_nat (off shs es r)) R \<and>
     bb_last_key b = prev_key es (length es) \<and> (es = [] \<longrightarrow> bb_counter b = 0)"

lemma common_prefix_props:
  "common_prefix a b \<le> length a \<and> common_prefix a b \<le> length b \<and>
    take (common_prefix a b) a = take (common_prefix a b) b"
  by (induction a b rule: common_prefix.induct) auto

lemma chunks_append: "length shs = length es \<Longrightarrow> chunks (shs @ [s]) (es @ [e]) = chunks shs es @ [entry_bytes s (fst e) (snd e)]"
  by (simp add: chunks_def)

lemma length_chunks: "length shs = length es \<Longrightarrow> length (chunks shs es) = length es"
  by (simp add: chunks_def)

lemma off_append: "length shs = length es \<Longrightarrow> i \<le> length es \<Longrightarrow> off (shs @ [s]) (es @ [e]) i = off shs es i"
  by (simp add: off_def chunks_append length_chunks)

lemma prev_key_append: "i \<le> length es \<Longrightarrow> prev_key (es @ [e]) i = prev_key es i"
  by (auto simp: prev_key_def nth_append)

lemma built_new: "built [] [] [0] (new_BlockBuilder options)"
  by (simp add: built_def sharing_def restart_points_def new_BlockBuilder_def chunks_def off_def prev_key_def)

lemma built_Reset: "built [] [] [0] (BlockBuilder_Reset b)"
  by (simp add: built_def sharing_def restart_points_def BlockBuilder_Reset_def chunks_def off_def prev_key_def)

lemma sharing_append:
  assumes "sharing es shs" and "s \<le> length (prev_key es (length es))" and "s \<le> length k"
    and "take s (prev_key es (length es)) = take s k"
  shows "sharing (es @ [(k, v)]) (shs @ [s])"
  unfolding sharing_def
proof (intro conjI allI impI)
  show "length (shs @ [s]) = length (es @ [(k, v)])" using assms(1) by (simp add: sharing_def)
  fix i assume "i < length (es @ [(k, v)])"
  then consider "i < length es" | "i = length es" by fastforce
  note cases = this
  have l: "length shs = length es" using assms(1) by (simp add: sharing_def)
  show "(shs @ [s]) ! i \<le> length (prev_key (es @ [(k, v)]) i)"
    using cases assms l by cases (auto simp: sharing_def nth_append prev_key_append)
  show "(shs @ [s]) ! i \<le> length (fst ((es @ [(k, v)]) ! i))"
    using cases assms l by cases (auto simp: sharing_def nth_append)
  show "take ((shs @ [s]) ! i) (prev_key (es @ [(k, v)]) i) = take ((shs @ [s]) ! i) (fst ((es @ [(k, v)]) ! i))"
    using cases assms l by cases (auto simp: sharing_def nth_append prev_key_append)
qed

lemma restart_points_keep:
  assumes "restart_points es shs R" and "length shs = length es" and "es = [] \<Longrightarrow> s = 0"
  shows "restart_points (es @ [e]) (shs @ [s]) R"
proof -
  have "(r < length (es @ [e]) \<or> r = 0) \<and> (r < length (es @ [e]) \<longrightarrow> (shs @ [s]) ! r = 0)" if "r \<in> set R" for r
  proof (cases "r < length es")
    case True
    then show ?thesis using assms that by (simp add: restart_points_def nth_append)
  next
    case False
    then have "r = 0" using assms(1) that by (auto simp: restart_points_def)
    then show ?thesis using False assms(2,3) by simp
  qed
  then show ?thesis using assms(1) by (simp add: restart_points_def)
qed

lemma restart_points_add:
  assumes "restart_points es shs R" and "length shs = length es" and "es \<noteq> []"
  shows "restart_points (es @ [e]) (shs @ [0]) (R @ [length es])"
proof -
  have bound: "\<forall>r \<in> set R. r < length es" using assms(1,3) by (auto simp: restart_points_def)
  moreover have "restart_points (es @ [e]) (shs @ [0]) R" using restart_points_keep [OF assms(1,2)] by simp
  ultimately show ?thesis using assms(2) by (simp add: restart_points_def sorted_wrt_append nth_append)
qed

lemma Add_shared:
  assumes "bb_counter b < block_restart_interval (bb_options b)" and "s = common_prefix (bb_last_key b) k"
  shows "bb_buffer (BlockBuilder_Add k v b) = bb_buffer b @ entry_bytes s k v"
    and "bb_restarts (BlockBuilder_Add k v b) = bb_restarts b" and "bb_last_key (BlockBuilder_Add k v b) = k"
  using assms common_prefix_props [of "bb_last_key b" k]
  by (simp_all add: BlockBuilder_Add_def Let_def PutVarint32_def entry_bytes_def)

lemma Add_restart:
  assumes "\<not> bb_counter b < block_restart_interval (bb_options b)"
  shows "bb_buffer (BlockBuilder_Add k v b) = bb_buffer b @ entry_bytes 0 k v"
    and "bb_restarts (BlockBuilder_Add k v b) = bb_restarts b @ [of_nat (length (bb_buffer b))]"
    and "bb_last_key (BlockBuilder_Add k v b) = k"
  using assms by (simp_all add: BlockBuilder_Add_def Let_def PutVarint32_def entry_bytes_def)

lemma built_parts:
  assumes "built es shs R b"
  shows "length shs = length es" and "sharing es shs" and "restart_points es shs R"
    and "bb_buffer b = concat (chunks shs es)" and "bb_restarts b = map (\<lambda>r. of_nat (off shs es r)) R"
    and "bb_last_key b = prev_key es (length es)" and "es = [] \<Longrightarrow> bb_counter b = 0"
  using assms unfolding built_def sharing_def by blast+

lemma built_more:
  assumes b: "built es shs R b" and "sharing (es @ [(k, v)]) (shs @ [s])"
    and "restart_points (es @ [(k, v)]) (shs @ [s]) R'" and "bb_buffer b' = bb_buffer b @ entry_bytes s k v"
    and "bb_restarts b' = map (\<lambda>r. of_nat (off shs es r)) R'" and "\<forall>r \<in> set R'. r \<le> length es"
    and "bb_last_key b' = k"
  shows "built (es @ [(k, v)]) (shs @ [s]) R' b'"
proof -
  have "map (\<lambda>r. of_nat (off shs es r)) R' = (map (\<lambda>r. of_nat (off (shs @ [s]) (es @ [(k, v)]) r)) R' :: 32 word list)"
    using assms(6) off_append [OF built_parts(1) [OF b]] by (intro map_cong refl) simp
  moreover have "prev_key (es @ [(k, v)]) (length (es @ [(k, v)])) = k" by (simp add: prev_key_def)
  moreover have "concat (chunks (shs @ [s]) (es @ [(k, v)])) = bb_buffer b @ entry_bytes s k v"
    using chunks_append [OF built_parts(1) [OF b]] built_parts(4) [OF b] by simp
  ultimately show ?thesis unfolding built_def using assms(2-5,7) by simp
qed

lemma built_Add:
  assumes b: "built es shs R b" and "1 \<le> block_restart_interval (bb_options b)"
  shows "\<exists>shs' R'. built (es @ [(k, v)]) shs' R' (BlockBuilder_Add k v b)"
proof -
  note parts = built_parts [OF b]
  have bound: "\<forall>r \<in> set R. r \<le> length es" using parts(3) unfolding restart_points_def by fastforce
  show ?thesis
  proof (cases "bb_counter b < block_restart_interval (bb_options b)")
    case True
    let ?s = "common_prefix (bb_last_key b) k"
    note add = Add_shared [OF True refl, of k v]
    have "sharing (es @ [(k, v)]) (shs @ [?s])"
      using sharing_append [OF parts(2)] common_prefix_props [of "bb_last_key b" k] parts(6) by simp
    moreover have "restart_points (es @ [(k, v)]) (shs @ [?s]) R"
      by (rule restart_points_keep [OF parts(3,1)]) (simp add: parts(6) prev_key_def)
    moreover have "bb_restarts (BlockBuilder_Add k v b) = map (\<lambda>r. of_nat (off shs es r)) R"
      using add(2) parts(5) by (rule trans)
    ultimately show ?thesis using built_more [OF b _ _ add(1) _ bound add(3)] by blast
  next
    case False
    note add = Add_restart [OF False, of k v]
    have "es \<noteq> []" using parts(7) assms(2) False by auto
    then have "restart_points (es @ [(k, v)]) (shs @ [0]) (R @ [length es])"
      by (rule restart_points_add [OF parts(3,1)])
    moreover have "sharing (es @ [(k, v)]) (shs @ [0])" using sharing_append [OF parts(2), of 0 k v] by simp
    moreover have "off shs es (length es) = length (bb_buffer b)"
      using parts(4) length_chunks [OF parts(1)] by (simp add: off_def)
    then have "bb_restarts (BlockBuilder_Add k v b) = map (\<lambda>r. of_nat (off shs es r)) (R @ [length es])"
      using add(2) parts(5) by simp
    moreover have "\<forall>r \<in> set (R @ [length es]). r \<le> length es" using bound by simp
    ultimately show ?thesis using built_more [OF b _ _ add(1)] add(3) by blast
  qed
qed

lemma Add_options [simp]: "bb_options (BlockBuilder_Add k v b) = bb_options b"
  by (simp add: BlockBuilder_Add_def Let_def split: prod.splits)

text \<open>Adding entries one after the other.\<close>

definition add_entries :: "entries \<Rightarrow> BlockBuilder \<Rightarrow> BlockBuilder" where
  "add_entries es b = fold (\<lambda>e b. BlockBuilder_Add (fst e) (snd e) b) es b"

lemma built_entries:
  "built es shs R b \<Longrightarrow> 1 \<le> block_restart_interval (bb_options b) \<Longrightarrow>
    \<exists>shs' R'. built (es @ fs) shs' R' (add_entries fs b)"
proof (induction fs arbitrary: es shs R b)
  case Nil
  then show ?case by (auto simp: add_entries_def)
next
  case (Cons f fs)
  obtain shs' R' where "built (es @ [f]) shs' R' (BlockBuilder_Add (fst f) (snd f) b)"
    using built_Add [OF Cons.prems, of "fst f" "snd f"] by auto
  from Cons.IH [OF this] Cons.prems(2) show ?case by (simp add: add_entries_def)
qed

definition block_bytes :: "nat list \<Rightarrow> entries \<Rightarrow> nat list \<Rightarrow> byte list" where
  "block_bytes shs es R =
     concat (chunks shs es) @ concat (map EncodeFixed32 (map (\<lambda>r. of_nat (off shs es r)) R)) @
     EncodeFixed32 (of_nat (length R))"

lemma Finish_built: "built es shs R b \<Longrightarrow> bb_buffer (BlockBuilder_Finish b) = block_bytes shs es R"
proof -
  assume b: "built es shs R b"
  have "fold (\<lambda>r buffer. PutFixed32 buffer r) (bb_restarts b) (bb_buffer b) =
      concat (chunks shs es) @ concat (map EncodeFixed32 (map (\<lambda>r. of_nat (off shs es r)) R))"
    using b by (simp only: fold_PutFixed32 built_def)
  moreover have "length (bb_restarts b) = length R" using b by (simp add: built_def)
  ultimately show ?thesis by (simp add: BlockBuilder_Finish_def Let_def PutFixed32_def block_bytes_def)
qed

section \<open>Reading it\<close>

subsection \<open>Where the entries are\<close>

lemma off_0 [simp]: "off shs es 0 = 0"
  by (simp add: off_def)

lemma off_le: "i \<le> j \<Longrightarrow> off shs es i \<le> off shs es j"
proof -
  assume "i \<le> j"
  then have "take j (chunks shs es) = take i (chunks shs es) @ take (j - i) (drop i (chunks shs es))"
    using take_add [of i "j - i" "chunks shs es"] by simp
  then show ?thesis by (simp add: off_def)
qed

lemma chunk_nth: "length shs = length es \<Longrightarrow> i < length es \<Longrightarrow>
    chunks shs es ! i = entry_bytes (shs ! i) (fst (es ! i)) (snd (es ! i))"
  by (simp add: chunks_def)

lemma off_Suc:
  assumes "length shs = length es" and "i < length es"
  shows "off shs es (Suc i) = off shs es i + length (entry_bytes (shs ! i) (fst (es ! i)) (snd (es ! i)))"
  using assms by (simp add: off_def take_Suc_conv_app_nth length_chunks chunk_nth)

lemma off_less:
  assumes "length shs = length es" and "i < j" and "j \<le> length es"
  shows "off shs es i < off shs es j"
proof -
  have "off shs es i < off shs es (Suc i)"
    using off_Suc [OF assms(1), of i] assms(2,3)
      entry_bytes_length [of "fst (es ! i)" "shs ! i" "snd (es ! i)"] by linarith
  also have "\<dots> \<le> off shs es j" using assms(2) by (intro off_le) simp
  finally show ?thesis .
qed

lemma off_all: "length shs = length es \<Longrightarrow> off shs es (length es) = length (concat (chunks shs es))"
  by (simp add: off_def length_chunks)

lemma drop_off:
  assumes "length shs = length es" and "i \<le> length es"
  shows "drop (off shs es i) (concat (chunks shs es)) = concat (drop i (chunks shs es))"
proof -
  have "concat (chunks shs es) = concat (take i (chunks shs es)) @ concat (drop i (chunks shs es))"
    by (simp flip: concat_append)
  then show ?thesis by (simp add: off_def)
qed

subsection \<open>The iterator over a built block\<close>

definition block_iter :: "Comparator \<Rightarrow> entries \<Rightarrow> nat list \<Rightarrow> nat list \<Rightarrow> BlockIter \<Rightarrow> bool" where
  "block_iter cmp es shs R it \<longleftrightarrow> sharing es shs \<and> restart_points es shs R \<and>
     bi_comparator it = cmp \<and> bi_data it = block_bytes shs es R \<and> length (block_bytes shs es R) < 2 ^ 32 \<and>
     restarts it = of_nat (off shs es (length es)) \<and> num_restarts it = of_nat (length R) \<and> bi_status it = Status_OK"

lemma block_iter_parts:
  assumes "block_iter cmp es shs R it"
  shows "length shs = length es" and "sharing es shs" and "restart_points es shs R" and "bi_comparator it = cmp"
    and "bi_data it = block_bytes shs es R" and "length (block_bytes shs es R) < 2 ^ 32"
    and "restarts it = of_nat (off shs es (length es))" and "num_restarts it = of_nat (length R)"
    and "bi_status it = Status_OK"
  using assms unfolding block_iter_def sharing_def by blast+

lemma block_bytes_length:
  "length shs = length es \<Longrightarrow> length (block_bytes shs es R) = off shs es (length es) + 4 * length R + 4"
  unfolding block_bytes_def length_append length_Fixed32s by (simp add: off_all)

lemma block_numbers:
  assumes "block_iter cmp es shs R it"
  shows "unat (restarts it) = off shs es (length es)" and "unat (num_restarts it) = length R"
    and "i \<le> length es \<Longrightarrow> unat (of_nat (off shs es i) :: 32 word) = off shs es i"
    and "i \<le> length R \<Longrightarrow> unat (of_nat i :: 32 word) = i"
    and "4 * length R < 2 ^ 32"
proof -
  note p = block_iter_parts [OF assms]
  have len: "off shs es (length es) + 4 * length R + 4 < 2 ^ 32" using p(6) block_bytes_length [OF p(1)] by simp
  then show "4 * length R < 2 ^ 32" by simp
  show "unat (restarts it) = off shs es (length es)" using len by (simp add: p(7) unat_of_nat_32)
  show "unat (num_restarts it) = length R" using len by (simp add: p(8) unat_of_nat_32)
  show "i \<le> length es \<Longrightarrow> unat (of_nat (off shs es i) :: 32 word) = off shs es i"
    using len off_le [of i "length es" shs es] by (intro unat_of_nat_32) simp
  show "i \<le> length R \<Longrightarrow> unat (of_nat i :: 32 word) = i" using len by (intro unat_of_nat_32) simp
qed

lemma GetRestartPoint_built:
  assumes "block_iter cmp es shs R it" and "j < length R"
  shows "GetRestartPoint it (of_nat j) = of_nat (off shs es (R ! j))"
proof -
  note p = block_iter_parts [OF assms(1)] and n = block_numbers [OF assms(1)]
  have "drop (unat (restarts it)) (bi_data it) =
      concat (map EncodeFixed32 (map (\<lambda>r. of_nat (off shs es r)) R)) @ EncodeFixed32 (of_nat (length R))"
    by (simp only: p(5) n(1) block_bytes_def off_all [OF p(1)]) simp
  then have "drop (unat (restarts it) + j * 4) (bi_data it) =
      drop (j * 4) (concat (map EncodeFixed32 (map (\<lambda>r. of_nat (off shs es r)) R)) @ EncodeFixed32 (of_nat (length R)))"
    by (metis drop_drop add.commute)
  then show ?thesis
    using assms(2) nth_Fixed32 [of j "map (\<lambda>r. of_nat (off shs es r)) R"]
    by (simp add: GetRestartPoint_def n(4) del: drop_append)
qed

lemma entry_region_built:
  assumes "block_iter cmp es shs R it" and "i \<le> length es"
  shows "entry_region it (off shs es i) = concat (drop i (chunks shs es))"
proof -
  note p = block_iter_parts [OF assms(1)] and n = block_numbers [OF assms(1)]
  have "off shs es i \<le> length (concat (chunks shs es))" using off_le [OF assms(2)] off_all [OF p(1)] by metis
  then show ?thesis
    by (simp add: entry_region_def p(5) n(1) block_bytes_def off_all [OF p(1)] drop_off [OF p(1) assms(2), symmetric])
qed

subsection \<open>Positions\<close>

text \<open>
  \<open>before it j\<close>: the next entry to parse is \<open>j\<close>.  \<open>block_at it i\<close>: the iterator is at entry \<open>i\<close>, or
  behind the last one.
\<close>

definition before :: "entries \<Rightarrow> nat list \<Rightarrow> nat list \<Rightarrow> BlockIter \<Rightarrow> nat \<Rightarrow> bool" where
  "before es shs R it j \<longleftrightarrow> j \<le> length es \<and> value_at it + value_size it = off shs es j \<and>
     (j < length es \<longrightarrow> shs ! j \<le> length (bi_key it) \<and> take (shs ! j) (bi_key it) = take (shs ! j) (fst (es ! j)))"

definition block_at :: "Comparator \<Rightarrow> entries \<Rightarrow> nat list \<Rightarrow> nat list \<Rightarrow> BlockIter \<Rightarrow> nat \<Rightarrow> bool" where
  "block_at cmp es shs R it i \<longleftrightarrow> block_iter cmp es shs R it \<and> i \<le> length es \<and> current it = of_nat (off shs es i) \<and>
     (i < length es \<longrightarrow> bi_key it = fst (es ! i) \<and> bi_value it = snd (es ! i) \<and>
       value_at it + value_size it = off shs es (Suc i) \<and> unat (restart_index it) < length R)"

lemma block_iter_update [simp]:
  "block_iter cmp es shs R (it\<lparr>bi_key := k\<rparr>) = block_iter cmp es shs R it"
  "block_iter cmp es shs R (it\<lparr>current := c\<rparr>) = block_iter cmp es shs R it"
  "block_iter cmp es shs R (it\<lparr>restart_index := r\<rparr>) = block_iter cmp es shs R it"
  "block_iter cmp es shs R (it\<lparr>value_at := a\<rparr>) = block_iter cmp es shs R it"
  "block_iter cmp es shs R (it\<lparr>value_size := z\<rparr>) = block_iter cmp es shs R it"
  by (simp_all add: block_iter_def)

lemma NextEntryOffset_update [simp]:
  "NextEntryOffset (it\<lparr>current := c\<rparr>) = NextEntryOffset it"
  by (simp add: NextEntryOffset_def)

lemma entry_region_update [simp]: "entry_region (it\<lparr>current := c\<rparr>) = entry_region it"
  by (simp add: entry_region_def fun_eq_iff)

lemma advance_restart_bound:
  "unat index < unat (num_restarts it) \<Longrightarrow> unat (advance_restart it index) < unat (num_restarts it)"
proof (induction it index rule: advance_restart.induct)
  case (1 it index)
  then show ?case
    by (subst advance_restart.simps) (auto simp: word_less_nat_alt)
qed

text \<open>Keys are built from what the block holds, so they are not longer.\<close>

lemma key_length:
  assumes "sharing es shs"
  shows "i < length es \<Longrightarrow> length (fst (es ! i)) \<le> off shs es (Suc i)"
proof (induction i)
  case 0
  have "shs ! 0 = 0" using assms 0 by (auto simp: sharing_def prev_key_def)
  then show ?case
    using off_Suc [of shs es 0] assms 0 entry_bytes_length [of "fst (es ! 0)" 0 "snd (es ! 0)"] by (simp add: sharing_def)
next
  case (Suc i)
  have "shs ! Suc i \<le> length (fst (es ! i))" using assms Suc.prems by (auto simp: sharing_def prev_key_def)
  also have "\<dots> \<le> off shs es (Suc i)" using Suc by simp
  finally show ?case
    using off_Suc [of shs es "Suc i"] assms Suc.prems
      entry_bytes_length [of "fst (es ! Suc i)" "shs ! Suc i" "snd (es ! Suc i)"] by (simp add: sharing_def)
qed

lemma sharing_next: "sharing es shs \<Longrightarrow> Suc j < length es \<Longrightarrow>
    shs ! Suc j \<le> length (fst (es ! j)) \<and> take (shs ! Suc j) (fst (es ! j)) = take (shs ! Suc j) (fst (es ! Suc j))"
  unfolding sharing_def by (drule conjunct2, drule spec [of _ "Suc j"]) (simp add: prev_key_def)

lemma drop_prefix: "xs = pre @ t \<Longrightarrow> drop (length pre) xs = t"
  by simp

text \<open>An entry that is there is parsed.\<close>

lemma parse_entry:
  assumes it: "block_iter cmp es shs R it" and b: "before es shs R it j" and j: "j < length es"
    and idx: "unat (restart_index it) < length R"
  obtains it' where "ParseNextKey it = (True, it')" and "block_at cmp es shs R it' j" and "before es shs R it' (Suc j)"
proof -
  note p = block_iter_parts [OF it] and n = block_numbers [OF it]
  let ?k = "fst (es ! j)" and ?v = "snd (es ! j)" and ?s = "shs ! j" and ?rest = "concat (drop (Suc j) (chunks shs es))"
  have next_off: "NextEntryOffset it = of_nat (off shs es j)" using b by (simp add: NextEntryOffset_def before_def flip: of_nat_add)
  have un: "unat (of_nat (off shs es j) :: 32 word) = off shs es j" using n(3) j by simp
  have less: "\<not> restarts it \<le> of_nat (off shs es j)"
    using off_less [OF p(1) j] by (simp add: not_le word_less_nat_alt n(1) un)
  have "drop j (chunks shs es) = entry_bytes ?s ?k ?v # drop (Suc j) (chunks shs es)"
    using j p(1) by (metis Cons_nth_drop_Suc chunk_nth length_chunks)
  then have region: "entry_region it (off shs es j) = entry_bytes ?s ?k ?v @ ?rest"
    using entry_region_built [OF it, of j] j by simp
  have s: "?s \<le> length ?k" using p(2) j by (simp add: sharing_def)
  have total: "off shs es j + length (entry_bytes ?s ?k ?v @ ?rest) = off shs es (length es)"
  proof -
    have "length (drop (off shs es j) (concat (chunks shs es))) = length (entry_bytes ?s ?k ?v @ ?rest)"
      using drop_off [OF p(1), of j] j \<open>drop j (chunks shs es) = _\<close> by simp
    then show ?thesis using off_le [of j "length es" shs es] j off_all [OF p(1)] by simp
  qed
  then have small: "length (entry_bytes ?s ?k ?v @ ?rest) < 2 ^ 32"
    using p(6) block_bytes_length [OF p(1), of R] by linarith
  have dec: "DecodeEntry (entry_region it (off shs es j)) =
      Some (of_nat ?s, of_nat (length ?k - ?s), of_nat (length ?v), drop ?s ?k @ ?v @ ?rest)"
    unfolding region by (rule DecodeEntry_entry [OF small s])
  have lens: "length ?k - ?s + length ?v < 2 ^ 32"
    using small entry_bytes_length [of ?k ?s ?v] by simp
  have skey: "?s \<le> length (bi_key it)" "take ?s (bi_key it) = take ?s ?k" using b j by (simp_all add: before_def)
  have us: "unat (of_nat ?s :: 32 word) = ?s"
    using key_length [OF p(2) j] s off_le [of "Suc j" "length es" shs es] j p(6) block_bytes_length [OF p(1), of R]
    by (intro unat_of_nat_32) linarith
  have u: "unat (of_nat (length ?k - ?s) :: 32 word) = length ?k - ?s" "unat (of_nat (length ?v) :: 32 word) = length ?v"
    using lens by (simp_all add: unat_of_nat_32)
  let ?at = "off shs es (length es) - length (drop ?s ?k @ ?v @ ?rest) + (length ?k - ?s)"
  define it1 where "it1 = it\<lparr>current := of_nat (off shs es j), bi_key := ?k, value_at := ?at, value_size := length ?v\<rparr>"
  define it' where "it' = it1\<lparr>restart_index := advance_restart it1 (restart_index it)\<rparr>"
  have "?k = take ?s (bi_key it) @ drop ?s ?k" by (simp add: skey)
  then have parse: "ParseNextKey it = (True, it')"
    using skey less by (simp add: ParseNextKey_def Let_def next_off un dec us u n(1) it'_def it1_def)
  have suc: "?at + length ?v = off shs es (Suc j)" and "?at + length ?v + length ?rest = off shs es (length es)"
    using total off_Suc [OF p(1) j] by (simp_all add: entry_bytes_def)
  have val: "bi_value it' = ?v"
  proof -
    define pre where "pre = concat (take j (chunks shs es)) @ EncodeVarint32 (of_nat ?s) @
      EncodeVarint32 (of_nat (length ?k - ?s)) @ EncodeVarint32 (of_nat (length ?v)) @ drop ?s ?k"
    have "concat (chunks shs es) = concat (take j (chunks shs es)) @ concat (drop j (chunks shs es))"
      by (simp flip: concat_append)
    also have "\<dots> = pre @ ?v @ ?rest"
      using \<open>drop j (chunks shs es) = _\<close> by (simp add: entry_bytes_def pre_def)
    finally have split: "concat (chunks shs es) = pre @ ?v @ ?rest" .
    have "off shs es (length es) = length (pre @ ?v @ ?rest)" unfolding off_all [OF p(1)] split ..
    then have at: "?at = length pre" by (simp add: pre_def)
    have "bi_data it = pre @ ?v @ ?rest @ concat (map EncodeFixed32 (map (\<lambda>r. of_nat (off shs es r)) R)) @
        EncodeFixed32 (of_nat (length R))"
      unfolding p(5) block_bytes_def split by simp
    from drop_prefix [OF this] have "drop ?at (bi_data it) = ?v @ ?rest @
        concat (map EncodeFixed32 (map (\<lambda>r. of_nat (off shs es r)) R)) @ EncodeFixed32 (of_nat (length R))"
      unfolding at .
    then show ?thesis by (simp add: bi_value_def it'_def it1_def)
  qed
  have "unat (restart_index it') < length R"
    using advance_restart_bound [of "restart_index it" it1] idx n(2) by (simp add: it'_def it1_def)
  then have "block_at cmp es shs R it' j"
    using it j val suc by (simp add: block_at_def it'_def it1_def)
  moreover have "before es shs R it' (Suc j)"
    using suc sharing_next [OF p(2), of j] j by (simp add: before_def it'_def it1_def)
  ultimately show ?thesis using that parse by blast
qed

lemma parse_end:
  assumes it: "block_iter cmp es shs R it" and b: "before es shs R it (length es)"
  obtains it' where "ParseNextKey it = (False, it')" and "block_at cmp es shs R it' (length es)"
proof -
  have "NextEntryOffset it = of_nat (off shs es (length es))"
    using b by (simp add: NextEntryOffset_def before_def flip: of_nat_add)
  moreover have "restarts it = of_nat (off shs es (length es))" using block_iter_parts(7) [OF it] .
  ultimately show ?thesis using that it by (simp add: ParseNextKey_def block_at_def)
qed

lemma at_before: "block_at cmp es shs R it i \<Longrightarrow> i < length es \<Longrightarrow> before es shs R it (Suc i)"
  by (auto simp: block_at_def before_def block_iter_def sharing_def prev_key_def)

lemma SeekToRestartPoint_before:
  assumes "block_iter cmp es shs R it" and "j < length R"
  shows "before es shs R (SeekToRestartPoint (of_nat j) it) (R ! j)"
    and "block_iter cmp es shs R (SeekToRestartPoint (of_nat j) it)"
    and "unat (restart_index (SeekToRestartPoint (of_nat j) it)) < length R"
proof -
  note n = block_numbers [OF assms(1)]
  have r: "R ! j \<in> set R" using assms(2) by simp
  have points: "restart_points es shs R" using block_iter_parts(3) [OF assms(1)] .
  have le: "R ! j \<le> length es" and zero: "R ! j < length es \<longrightarrow> shs ! (R ! j) = 0"
    using points r unfolding restart_points_def by fastforce+
  show "before es shs R (SeekToRestartPoint (of_nat j) it) (R ! j)"
    using le zero n(3) [OF le] by (simp add: before_def SeekToRestartPoint_def GetRestartPoint_built [OF assms])
  show "block_iter cmp es shs R (SeekToRestartPoint (of_nat j) it)"
    using assms(1) by (simp add: SeekToRestartPoint_def)
  show "unat (restart_index (SeekToRestartPoint (of_nat j) it)) < length R"
    using assms(2) n(4) by (simp add: SeekToRestartPoint_def)
qed

subsection \<open>The operations\<close>

lemma block_Valid: "block_at cmp es shs R it i \<Longrightarrow> bi_Valid it \<longleftrightarrow> i < length es"
proof -
  assume a: "block_at cmp es shs R it i"
  then have it: "block_iter cmp es shs R it" and i: "i \<le> length es" and c: "current it = of_nat (off shs es i)"
    by (simp_all add: block_at_def)
  note n = block_numbers [OF it]
  have "bi_Valid it \<longleftrightarrow> off shs es i < off shs es (length es)"
    by (simp add: bi_Valid_def c word_less_nat_alt n(1) n(3) [OF i])
  then show ?thesis using off_less [of shs es i "length es"] block_iter_parts(1) [OF it] i by (cases "i = length es") auto
qed

lemma block_Next:
  assumes "block_at cmp es shs R it i" and "i < length es"
  shows "block_at cmp es shs R (bi_Next it) (Suc i)"
proof -
  have it: "block_iter cmp es shs R it" and idx: "unat (restart_index it) < length R"
    using assms by (simp_all add: block_at_def)
  note b = at_before [OF assms]
  show ?thesis
  proof (cases "Suc i < length es")
    case True
    then show ?thesis using parse_entry [OF it b True idx] by (metis bi_Next_def snd_conv)
  next
    case False
    then have "Suc i = length es" using assms(2) by simp
    then show ?thesis using parse_end [OF it] b by (metis bi_Next_def snd_conv)
  qed
qed

lemma block_SeekToFirst:
  assumes it: "block_iter cmp es shs R it"
  shows "block_at cmp es shs R (bi_SeekToFirst it) 0"
proof -
  have R: "0 < length R" "R ! 0 = 0" using block_iter_parts(3) [OF it] by (auto simp: restart_points_def)
  note s = SeekToRestartPoint_before [OF it R(1), unfolded R(2), simplified]
  show ?thesis
  proof (cases "es = []")
    case True
    then show ?thesis using parse_end [OF s(2)] s(1) by (metis bi_SeekToFirst_def snd_conv list.size(3))
  next
    case False
    then show ?thesis using parse_entry [OF s(2,1) _ s(3)] by (metis bi_SeekToFirst_def snd_conv length_greater_0_conv)
  qed
qed

text \<open>Parsing up to entry \<open>m\<close> ends at the one before it.\<close>

lemma parse_until_at:
  "block_iter cmp es shs R it \<Longrightarrow> before es shs R it j \<Longrightarrow> unat (restart_index it) < length R \<Longrightarrow>
    j < m \<Longrightarrow> m \<le> length es \<Longrightarrow>
    block_at cmp es shs R (parse_until (of_nat (off shs es m)) it) (m - 1)"
proof (induction "m - j" arbitrary: it j)
  case (Suc d)
  have j: "j < length es" using Suc.prems by simp
  obtain it' where p: "ParseNextKey it = (True, it')" and a: "block_at cmp es shs R it' j" and b: "before es shs R it' (Suc j)"
    using parse_entry [OF Suc.prems(1,2) j Suc.prems(3)] by blast
  have it': "block_iter cmp es shs R it'" "unat (restart_index it') < length R" using a j by (simp_all add: block_at_def)
  note n = block_numbers [OF it'(1)] and l = block_iter_parts(1) [OF it'(1)]
  have "NextEntryOffset it' = of_nat (off shs es (Suc j))"
    using b by (simp add: NextEntryOffset_def before_def flip: of_nat_add)
  then have go: "NextEntryOffset it' < of_nat (off shs es m) \<longleftrightarrow> off shs es (Suc j) < off shs es m"
    using n(3) [of "Suc j"] n(3) [OF Suc.prems(5)] j by (simp add: word_less_nat_alt)
  show ?case
  proof (cases "Suc j = m")
    case True
    then have "m - 1 = j" by simp
    then show ?thesis using True a go p by (subst parse_until.simps) simp
  next
    case False
    then have "Suc j < m" using Suc.prems(4) by simp
    then show ?thesis using Suc.hyps(1) [OF _ it'(1) b it'(2)] Suc.hyps(2) Suc.prems(5) go off_less [OF l] p
      by (subst parse_until.simps) simp
  qed
qed simp

lemma block_SeekToLast:
  assumes it: "block_iter cmp es shs R it"
  shows "block_at cmp es shs R (bi_SeekToLast it) (length es - 1)"
proof -
  note n = block_numbers [OF it] and points = block_iter_parts(3) [OF it]
  let ?j = "length R - 1"
  have R: "?j < length R" using points by (cases R) (simp_all add: restart_points_def)
  then have idx: "num_restarts it - 1 = of_nat ?j" by (simp add: block_iter_parts(8) [OF it] of_nat_diff)
  note s = SeekToRestartPoint_before [OF it R]
  have lim: "restarts it = of_nat (off shs es (length es))" using block_iter_parts(7) [OF it] .
  show ?thesis
  proof (cases "es = []")
    case True
    have "R ! ?j = 0" using points R True unfolding restart_points_def by force
    then obtain it' where "ParseNextKey (SeekToRestartPoint (of_nat ?j) it) = (False, it')"
      and "block_at cmp es shs R it' (length es)"
      using parse_end [OF s(2)] s(1) True by force
    then show ?thesis using True by (simp add: bi_SeekToLast_def idx parse_until.simps)
  next
    case False
    then have "R ! ?j < length es" using points R unfolding restart_points_def by force
    then show ?thesis
      using parse_until_at [OF s(2,1,3), of "length es"] by (simp add: bi_SeekToLast_def idx lim)
  qed
qed

lemma restart_before_at:
  "block_iter cmp es shs R it \<Longrightarrow> i < length es \<Longrightarrow> unat index < length R \<Longrightarrow>
    (case restart_before it (of_nat (off shs es i)) index of
       None \<Rightarrow> i = 0
     | Some j \<Rightarrow> unat j < length R \<and> R ! unat j < i)"
proof (induction "unat index" arbitrary: index)
  case (0)
  then have idx: "index = of_nat 0" by (simp add: unat_eq_0)
  note n = block_numbers [OF 0(2)] and l = block_iter_parts(1) [OF 0(2)]
  have "R ! 0 = 0" using block_iter_parts(3) [OF 0(2)] by (simp add: restart_points_def)
  then have "GetRestartPoint it 0 = 0" using GetRestartPoint_built [OF 0(2), of 0] 0(1,4) by simp
  then show ?case using idx n(3) [of i] 0(3) off_less [OF l, of 0 i] \<open>R ! 0 = 0\<close> 0(1,4)
    by (subst restart_before.simps) (cases "i = 0"; simp add: word_less_nat_alt word_le_nat_alt)
next
  case (Suc k)
  note n = block_numbers [OF Suc(3)] and l = block_iter_parts(1) [OF Suc(3)]
  have nz: "index \<noteq> 0" using Suc(2) by auto
  then have pred: "unat (index - 1) = k" using Suc(2) by (simp add: unat_minus_one)
  have idx: "index = of_nat (Suc k)" by (simp only: Suc(2)) simp
  have kR: "Suc k < length R" using Suc(2,5) by simp
  have rk: "R ! Suc k \<le> length es"
    using block_iter_parts(3) [OF Suc(3)] kR nth_mem [OF kR] unfolding restart_points_def by fastforce
  have g: "GetRestartPoint it index = of_nat (off shs es (R ! Suc k))"
    unfolding idx by (rule GetRestartPoint_built [OF Suc(3) kR])
  have cmp: "of_nat (off shs es i) \<le> GetRestartPoint it index \<longleftrightarrow> off shs es i \<le> off shs es (R ! Suc k)"
    unfolding g by (simp add: word_le_nat_alt n(3) rk Suc(4) less_imp_le)
  show ?case
  proof (cases "R ! Suc k < i")
    case True
    then have "off shs es (R ! Suc k) < off shs es i" using off_less [OF l] Suc(4) by simp
    then show ?thesis using True cmp Suc(2) kR by (subst restart_before.simps) simp
  next
    case False
    then have "off shs es i \<le> off shs es (R ! Suc k)" by (intro off_le) simp
    then show ?thesis using Suc(1) [of "index - 1"] pred Suc(3,4) kR cmp nz
      by (subst restart_before.simps) simp
  qed
qed

lemma block_Prev:
  assumes a: "block_at cmp es shs R it i" and i: "i < length es"
  shows "block_at cmp es shs R (bi_Prev it) (if i = 0 then length es else i - 1)"
proof -
  have it: "block_iter cmp es shs R it" and idx: "unat (restart_index it) < length R"
    and c: "current it = of_nat (off shs es i)" using a i by (simp_all add: block_at_def)
  note rb = restart_before_at [OF it i idx]
  show ?thesis
  proof (cases "restart_before it (of_nat (off shs es i)) (restart_index it)")
    case None
    then have "i = 0" using rb by simp
    then show ?thesis using None c it block_iter_parts(7) [OF it]
      by (simp add: bi_Prev_def Let_def block_at_def)
  next
    case (Some j)
    then have j: "unat j < length R" "R ! unat j < i" using rb by simp_all
    have "j = of_nat (unat j)" by simp
    with SeekToRestartPoint_before [OF it j(1)] j(2) i
    have "block_at cmp es shs R (parse_until (of_nat (off shs es i)) (SeekToRestartPoint j it)) (i - 1)"
      using parse_until_at [of cmp es shs R "SeekToRestartPoint j it" "R ! unat j" i] by simp
    then show ?thesis using Some c j(2) by (simp add: bi_Prev_def Let_def)
  qed
qed

subsection \<open>Seeking\<close>

lemma seek_linear_at:
  "block_iter cmp es shs R it \<Longrightarrow> before es shs R it j \<Longrightarrow> unat (restart_index it) < length R \<Longrightarrow>
    block_at cmp es shs R (seek_linear target it)
      (j + length (takeWhile (\<lambda>e. Compare cmp (fst e) target < 0) (drop j es)))"
proof (induction "length es - j" arbitrary: it j)
  case 0
  then have j: "j = length es" by (simp add: before_def)
  obtain it' where "ParseNextKey it = (False, it')" and "block_at cmp es shs R it' (length es)"
    using parse_end [OF 0(2)] 0(3) j by blast
  then show ?case using j by (subst seek_linear.simps) simp
next
  case (Suc d)
  then have j: "j < length es" by simp
  obtain it' where p: "ParseNextKey it = (True, it')" and a: "block_at cmp es shs R it' j" and b: "before es shs R it' (Suc j)"
    using parse_entry [OF Suc.prems(1,2) j Suc.prems(3)] by blast
  have it': "block_iter cmp es shs R it'" "unat (restart_index it') < length R" "bi_key it' = fst (es ! j)"
    using a j by (simp_all add: block_at_def)
  have d: "drop j es = es ! j # drop (Suc j) es" using j by (simp add: Cons_nth_drop_Suc)
  have c: "bi_comparator it' = cmp" using block_iter_parts(4) [OF it'(1)] .
  show ?case
  proof (cases "Compare cmp (fst (es ! j)) target < 0")
    case True
    have "block_at cmp es shs R (seek_linear target it')
        (Suc j + length (takeWhile (\<lambda>e. Compare cmp (fst e) target < 0) (drop (Suc j) es)))"
      by (rule Suc.hyps(1) [OF _ it'(1) b it'(2)]) (use Suc.hyps(2) in simp)
    then show ?thesis using True p it'(3) c d by (subst seek_linear.simps) (simp add: not_le)
  next
    case False
    then show ?thesis using a p it'(3) c d by (subst seek_linear.simps) simp
  qed
qed

text \<open>The entry at a restart point but the first is there, with its whole key.\<close>

lemma restart_entry:
  assumes it: "block_iter cmp es shs R it" and m: "0 < m" "m < length R"
  obtains v p where "R ! m < length es"
    and "DecodeEntry (entry_region it (unat (GetRestartPoint it (of_nat m)))) =
      Some (0, of_nat (length (fst (es ! (R ! m)))), v, fst (es ! (R ! m)) @ p)"
    and "unat (of_nat (length (fst (es ! (R ! m)))) :: 32 word) = length (fst (es ! (R ! m)))"
proof -
  note p = block_iter_parts [OF it] and n = block_numbers [OF it]
  have "R ! 0 < R ! m" using p(3) m sorted_wrt_nth_less [of "(<)" R 0 m] unfolding restart_points_def by blast
  moreover have "R ! m \<in> set R" using m(2) by simp
  ultimately have r: "R ! m < length es" "shs ! (R ! m) = 0" using p(3) unfolding restart_points_def by fastforce+
  let ?r = "R ! m"
  have "drop ?r (chunks shs es) = entry_bytes 0 (fst (es ! ?r)) (snd (es ! ?r)) # drop (Suc ?r) (chunks shs es)"
    using r p(1) by (metis Cons_nth_drop_Suc chunk_nth length_chunks)
  then have region: "entry_region it (unat (GetRestartPoint it (of_nat m))) =
      entry_bytes 0 (fst (es ! ?r)) (snd (es ! ?r)) @ concat (drop (Suc ?r) (chunks shs es))" (is "_ = ?e")
    using entry_region_built [OF it, of ?r] r(1) n(3) [of ?r] by (simp add: GetRestartPoint_built [OF it m(2)])
  have "length ?e \<le> off shs es (length es)"
    using drop_off [OF p(1), of ?r] r(1) off_all [OF p(1)] \<open>drop ?r (chunks shs es) = _\<close>
    by (metis concat.simps(2) diff_le_self length_drop less_imp_le)
  then have small: "length ?e < 2 ^ 32" using p(6) block_bytes_length [OF p(1), of R] by linarith
  have "length (fst (es ! ?r)) < 2 ^ 32"
    using small entry_bytes_length [of "fst (es ! ?r)" 0 "snd (es ! ?r)"] by simp
  then show ?thesis
    using that r(1) DecodeEntry_entry [OF small] unfolding region by (simp add: unat_of_nat_32)
qed

lemma search_restarts_at:
  "block_iter cmp es shs R it \<Longrightarrow> right < length R \<Longrightarrow> left \<le> right \<Longrightarrow>
    \<exists>l. search_restarts it target left right = Some l \<and> l < length R \<and>
      (l = left \<or> R ! l < length es \<and> Compare cmp (fst (es ! (R ! l))) target < 0)"
proof (induction it target left right rule: search_restarts.induct)
  case (1 it target left right)
  define mid where "mid = (left + right + 1) div 2"
  show ?case
  proof (cases "left < right")
    case True
    have step: "search_restarts it target left right =
        (case DecodeEntry (entry_region it (unat (GetRestartPoint it (of_nat mid)))) of None \<Rightarrow> None
         | Some (shared, non_shared, value_length, key_ptr) \<Rightarrow>
             if shared \<noteq> 0 then None
             else if Compare (bi_comparator it) (take (unat non_shared) key_ptr) target < 0
             then search_restarts it target mid right else search_restarts it target left (mid - 1))"
      unfolding mid_def by (subst search_restarts.simps) (simp only: True if_True Let_def)
    from True have m: "0 < mid" "mid < length R" "mid \<le> right" "left \<le> mid - 1" "mid - 1 < length R"
      using 1(4) unfolding mid_def by linarith+
    obtain v p where r: "R ! mid < length es"
      and dec: "DecodeEntry (entry_region it (unat (GetRestartPoint it (of_nat mid)))) =
        Some (0, of_nat (length (fst (es ! (R ! mid)))), v, fst (es ! (R ! mid)) @ p)"
      and len: "unat (of_nat (length (fst (es ! (R ! mid)))) :: 32 word) = length (fst (es ! (R ! mid)))"
      using restart_entry [OF 1(3) m(1,2)] by blast
    have c: "bi_comparator it = cmp" using block_iter_parts(4) [OF 1(3)] .
    show ?thesis
    proof (cases "Compare cmp (fst (es ! (R ! mid))) target < 0")
      case less: True
      have "search_restarts it target left right = search_restarts it target mid right"
        unfolding step dec using less by (simp add: len c)
      moreover have "\<exists>l. search_restarts it target mid right = Some l \<and> l < length R \<and>
          (l = mid \<or> R ! l < length es \<and> Compare cmp (fst (es ! (R ! l))) target < 0)"
        by (rule 1(1) [OF True mid_def refl dec refl refl refl]) (use less 1(3,4) m len c in simp_all)
      ultimately show ?thesis using less r by metis
    next
      case False
      have "search_restarts it target left right = search_restarts it target left (mid - 1)"
        unfolding step dec using False by (simp add: len c)
      moreover have "\<exists>l. search_restarts it target left (mid - 1) = Some l \<and> l < length R \<and>
          (l = left \<or> R ! l < length es \<and> Compare cmp (fst (es ! (R ! l))) target < 0)"
        by (rule 1(2) [OF True mid_def refl dec refl refl refl]) (use False 1(3,4) m len c in simp_all)
      ultimately show ?thesis by metis
    qed
  next
    case False
    then show ?thesis using 1(4,5) by (subst search_restarts.simps) simp
  qed
qed

definition sorted_entries :: "Comparator \<Rightarrow> entries \<Rightarrow> bool" where
  "sorted_entries cmp es \<longleftrightarrow> sorted_wrt (\<lambda>a b. Compare cmp (fst a) (fst b) < 0) es"

context comparator
begin

lemma before_smaller:
  assumes "sorted_entries cmp es" and "\<forall>e \<in> set es. valid (fst e)" and "valid target"
    and "r < length es" and "Compare cmp (fst (es ! r)) target < 0"
  shows "seek_index cmp es target = r + length (takeWhile (\<lambda>e. Compare cmp (fst e) target < 0) (drop r es))"
proof -
  have "Compare cmp (fst e) target < 0" if e: "e \<in> set (take r es)" for e
  proof -
    obtain i where i: "i < r" "e = es ! i" using e assms(4) by (auto simp: in_set_conv_nth)
    have "Compare cmp (fst (es ! i)) (fst (es ! r)) < 0"
      using assms(1) sorted_wrt_nth_less [OF _ i(1) assms(4)] unfolding sorted_entries_def by blast
    then show ?thesis using cmp_trans [of "fst e" "fst (es ! r)" target] i assms(2-5) by (simp add: nth_mem)
  qed
  then have "takeWhile (\<lambda>e. Compare cmp (fst e) target < 0) (take r es @ drop r es) =
      take r es @ takeWhile (\<lambda>e. Compare cmp (fst e) target < 0) (drop r es)"
    by (intro takeWhile_append2) simp
  then show ?thesis using assms(4) by (simp add: seek_index_def)
qed

lemma block_Seek:
  assumes it: "block_iter cmp es shs R it" and s: "sorted_entries cmp es" "\<forall>e \<in> set es. valid (fst e)" "valid target"
  shows "block_at cmp es shs R (bi_Seek it target) (seek_index cmp es target)"
proof -
  have points: "restart_points es shs R" using block_iter_parts(3) [OF it] .
  then have R: "length R - 1 < length R" "R ! 0 = 0" by (auto simp: restart_points_def)
  have "num_restarts it - 1 = of_nat (length R - 1)"
    using R(1) by (simp add: block_iter_parts(8) [OF it] of_nat_diff)
  then have right: "unat (num_restarts it - 1) = length R - 1" using block_numbers(4) [OF it, of "length R - 1"] by simp
  obtain l where l: "search_restarts it target 0 (length R - 1) = Some l" "l < length R"
    "l = 0 \<or> R ! l < length es \<and> Compare cmp (fst (es ! (R ! l))) target < 0"
    using search_restarts_at [OF it R(1), of 0 target] by auto
  note sk = SeekToRestartPoint_before [OF it l(2)]
  have "block_at cmp es shs R (seek_linear target (SeekToRestartPoint (of_nat l) it))
      (R ! l + length (takeWhile (\<lambda>e. Compare cmp (fst e) target < 0) (drop (R ! l) es)))"
    by (rule seek_linear_at [OF sk(2,1,3)])
  moreover have "R ! l + length (takeWhile (\<lambda>e. Compare cmp (fst e) target < 0) (drop (R ! l) es)) = seek_index cmp es target"
    using l(3) before_smaller [OF s, of "R ! l"] R(2) by (auto simp: seek_index_def)
  ultimately show ?thesis by (simp only: bi_Seek_def right l(1) option.case)
qed

text \<open>The contract of an iterator, for the block of a sorted list of entries.\<close>

definition block_good :: "entries \<Rightarrow> nat list \<Rightarrow> nat list \<Rightarrow> block_iterator \<Rightarrow> bool" where
  "block_good es shs R it \<longleftrightarrow> sorted_entries cmp es \<and> (\<forall>e \<in> set es. valid (fst e)) \<and>
     (\<exists>i. it = Block_Entries i \<and> block_iter cmp es shs R i)"

definition block_position :: "entries \<Rightarrow> nat list \<Rightarrow> nat list \<Rightarrow> block_iterator \<Rightarrow> nat \<Rightarrow> bool" where
  "block_position es shs R it n \<longleftrightarrow> sorted_entries cmp es \<and> (\<forall>e \<in> set es. valid (fst e)) \<and>
     (\<exists>i. it = Block_Entries i \<and> block_at cmp es shs R i n)"

lemma block_entry_iterator:
  "entry_iterator block_Iterator cmp es (block_position es shs R) (block_good es shs R) valid"
proof
  fix s i assume "block_position es shs R s i"
  then obtain b where b: "s = Block_Entries b" "block_at cmp es shs R b i"
    and s: "sorted_entries cmp es" "\<forall>e \<in> set es. valid (fst e)"
    unfolding block_position_def by blast
  show "block_good es shs R s" using b s by (simp add: block_good_def block_at_def)
  show "i \<le> length es" using b by (simp add: block_at_def)
  show "it_Valid block_Iterator s = (i < length es)" using block_Valid [OF b(2)] b(1) by (simp add: block_Iterator_def)
  show "i < length es \<Longrightarrow> (it_key block_Iterator s, it_value block_Iterator s) = es ! i"
    using b by (simp add: block_Iterator_def block_at_def)
  show "i < length es \<Longrightarrow> block_position es shs R (it_Next block_Iterator s) (Suc i)"
    using block_Next [OF b(2)] b(1) s by (simp add: block_Iterator_def block_position_def dispatch_def)
  show "i < length es \<Longrightarrow> block_position es shs R (it_Prev block_Iterator s) (if i = 0 then length es else i - 1)"
    using block_Prev [OF b(2)] b(1) s by (simp add: block_Iterator_def block_position_def dispatch_def)
next
  fix s assume "block_good es shs R s"
  then obtain b where b: "s = Block_Entries b" "block_iter cmp es shs R b"
    and s: "sorted_entries cmp es" "\<forall>e \<in> set es. valid (fst e)"
    unfolding block_good_def by blast
  show "status_ok (it_status block_Iterator s)" using b by (simp add: block_Iterator_def block_iter_def)
  show "block_position es shs R (it_SeekToFirst block_Iterator s) 0"
    using block_SeekToFirst [OF b(2)] b(1) s by (simp add: block_Iterator_def block_position_def dispatch_def)
  show "block_position es shs R (it_SeekToLast block_Iterator s) (length es - 1)"
    using block_SeekToLast [OF b(2)] b(1) s by (simp add: block_Iterator_def block_position_def dispatch_def)
  fix t assume "valid t"
  then show "block_position es shs R (it_Seek block_Iterator s t) (seek_index cmp es t)"
    using block_Seek [OF b(2) s] b(1) s by (simp add: block_Iterator_def block_position_def dispatch_def)
qed

lemma new_Block_good:
  assumes "sorted_entries cmp es" and "\<forall>e \<in> set es. valid (fst e)" and "built es shs R b"
    and "length (bb_buffer (BlockBuilder_Finish b)) < 2 ^ 32" and "contents_data c = bb_buffer (BlockBuilder_Finish b)"
  shows "block_good es shs R (Block_NewIterator cmp (new_Block c))"
proof -
  note parts = built_parts [OF assms(3)]
  let ?d = "block_bytes shs es R"
  have d: "contents_data c = ?d" "length ?d < 2 ^ 32" using assms(4,5) Finish_built [OF assms(3)] by simp_all
  note len = block_bytes_length [OF parts(1), of R]
  have R: "length R < 2 ^ 32" "1 + length R < 2 ^ 32" "R \<noteq> []" using d(2) len parts(3) by (auto simp: restart_points_def)
  have "drop (length ?d - 4) ?d = EncodeFixed32 (of_nat (length R))"
    by (rule trans [OF arg_cong2 [where f = drop, OF _ refl] drop_prefix [where pre = "concat (chunks shs es) @
        concat (map EncodeFixed32 (map (\<lambda>r. of_nat (off shs es r)) R))"]]) (simp_all add: block_bytes_def)
  then have num: "NumRestarts ?d (length ?d) = of_nat (length R)"
    using DecodeFixed32_Encode [of "of_nat (length R)" "[]"] by (simp add: NumRestarts_def)
  have "unat (1 + of_nat (length R) :: 32 word) = 1 + length R"
    using unat_of_nat_32 [OF R(2)] by simp
  then have off: "length ?d - unat (1 + of_nat (length R) :: 32 word) * 4 = off shs es (length es)" using len by simp
  have "\<not> unat (of_nat (length R) :: 32 word) > (length ?d - 4) div 4" "\<not> length ?d < 4"
    using len R(1) by (simp_all add: unat_of_nat_32)
  then have blk: "new_Block c = \<lparr>bl_data = ?d, bl_size = length ?d, restart_offset = of_nat (off shs es (length es)),
      bl_owned = heap_allocated c\<rparr>"
    by (simp add: new_Block_def Let_def d(1) num off)
  have "(of_nat (length R) :: 32 word) \<noteq> 0"
    using R unat_of_nat_32 [OF R(1)] by (metis length_0_conv unat_0)
  then have "Block_NewIterator cmp (new_Block c) =
      Block_Entries (new_BlockIter cmp ?d (of_nat (off shs es (length es))) (of_nat (length R)))"
    using \<open>\<not> length ?d < 4\<close> by (simp add: blk Block_NewIterator_def Let_def num)
  then show ?thesis
    using assms(1,2) parts d(2) by (simp add: block_good_def block_iter_def new_BlockIter_def)
qed

lemma block_roundtrip:
  assumes "sorted_entries cmp es" and "\<forall>e \<in> set es. valid (fst e)" and "1 \<le> block_restart_interval options"
    and "contents_data c = bb_buffer (BlockBuilder_Finish (add_entries es (new_BlockBuilder options)))"
    and "length (contents_data c) < 2 ^ 32" and "length es \<le> n"
  shows "read_forward block_Iterator n (it_SeekToFirst block_Iterator (Block_NewIterator cmp (new_Block c))) = es \<and>
    read_backward block_Iterator n (it_SeekToLast block_Iterator (Block_NewIterator cmp (new_Block c))) = rev es \<and>
    (valid target \<longrightarrow>
      read_forward block_Iterator n (it_Seek block_Iterator (Block_NewIterator cmp (new_Block c)) target) =
        dropWhile (\<lambda>e. Compare cmp (fst e) target < 0) es)"
proof -
  obtain shs R where b: "built es shs R (add_entries es (new_BlockBuilder options))"
    using built_entries [OF built_new, of options es] assms(3) by (auto simp: new_BlockBuilder_def)
  have "entry_iterator block_Iterator cmp es (block_position es shs R) (block_good es shs R) valid"
    by (rule block_entry_iterator)
  note it = this
  have g: "block_good es shs R (Block_NewIterator cmp (new_Block c))"
    using new_Block_good [OF assms(1,2) b _ assms(4)] assms(4,5) by simp
  show ?thesis
    using entry_iterator.reads_all [OF it g assms(6)] entry_iterator.reads_back [OF it g assms(6)]
      entry_iterator.reads_from_target [OF it g _ assms(6)] by blast
qed

end

interpretation bytewise_block: entry_iterator block_Iterator BytewiseComparator es
    "bytewise.block_position es shs R" "bytewise.block_good es shs R" "\<lambda>_. True" for es shs R
  by (rule bytewise.block_entry_iterator)

interpretation internal_block: entry_iterator block_Iterator "InternalKeyComparator BytewiseComparator" es
    "bytewise.ikc.block_position es shs R" "bytewise.ikc.block_good es shs R" bytewise.ikey for es shs R
  by (rule bytewise.ikc.block_entry_iterator)

section \<open>Blocks are read back\<close>

text \<open>C12:
  A block that was built from entries in the order of the comparator, with a restart interval of at
  least one and within 4 GB, is read back: forwards from its first entry all entries in order,
  backwards from the last one all of them in reverse, and from the place a seek finds exactly those
  at or behind the target; for the bytewise comparator and for the internal one over it.
\<close>

theorem block_reads_back:
  assumes "sorted_entries cmp es" and "1 \<le> block_restart_interval options"
    and "cmp = BytewiseComparator \<or>
      cmp = InternalKeyComparator BytewiseComparator \<and> (\<forall>e \<in> set es. 8 \<le> length (fst e)) \<and> 8 \<le> length target"
    and "contents_data c = bb_buffer (BlockBuilder_Finish (add_entries es (new_BlockBuilder options)))"
    and "length (contents_data c) < 2 ^ 32" and "length es \<le> n"
  shows "read_forward block_Iterator n (it_SeekToFirst block_Iterator (Block_NewIterator cmp (new_Block c))) = es \<and>
    read_backward block_Iterator n (it_SeekToLast block_Iterator (Block_NewIterator cmp (new_Block c))) = rev es \<and>
    read_forward block_Iterator n (it_Seek block_Iterator (Block_NewIterator cmp (new_Block c)) target) =
      dropWhile (\<lambda>e. Compare cmp (fst e) target < 0) es"
  using assms(3)
proof (elim disjE conjE)
  assume "cmp = BytewiseComparator"
  then show ?thesis using bytewise.block_roundtrip [OF _ _ assms(2,4-6)] assms(1) by simp
next
  assume "cmp = InternalKeyComparator BytewiseComparator" "\<forall>e \<in> set es. 8 \<le> length (fst e)" "8 \<le> length target"
  then show ?thesis using bytewise.ikc.block_roundtrip [OF _ _ assms(2,4-6)] assms(1) by (simp add: bytewise.ikey_def)
qed

lemma block_reads_back_witness:
  "read_forward block_Iterator 5 (it_Seek block_Iterator (Block_NewIterator BytewiseComparator (new_Block
     \<lparr>contents_data = bb_buffer (BlockBuilder_Finish (add_entries [([97], [1]), ([97, 98], [2]), ([98], [3])]
        (new_BlockBuilder (default_Options\<lparr>block_restart_interval := 2\<rparr>)))),
      cachable = True, heap_allocated = True\<rparr>)) [97, 98]) = [([97, 98], [2]), ([98], [3])]"
proof -
  let ?es = "[([97], [1]), ([97, 98], [2]), ([98], [3])] :: entries"
  let ?o = "default_Options\<lparr>block_restart_interval := 2\<rparr>"
  have s: "sorted_entries BytewiseComparator ?es" by (simp add: sorted_entries_def BytewiseComparator_def)
  have l: "length (bb_buffer (BlockBuilder_Finish (add_entries ?es (new_BlockBuilder ?o)))) = 27" by code_simp
  have d: "dropWhile (\<lambda>e. Compare BytewiseComparator (fst e) [97, 98] < 0) ?es = [([97, 98], [2]), ([98], [3])]"
    by (simp add: BytewiseComparator_def)
  have o: "1 \<le> block_restart_interval ?o" by simp
  let ?c = "\<lparr>contents_data = bb_buffer (BlockBuilder_Finish (add_entries ?es (new_BlockBuilder ?o))),
      cachable = True, heap_allocated = True\<rparr>"
  have c: "length (contents_data ?c) < 2 ^ 32" unfolding BlockContents.select_convs l by simp
  have n: "length ?es \<le> 5" by simp
  have "read_forward block_Iterator 5 (it_Seek block_Iterator (Block_NewIterator BytewiseComparator (new_Block ?c)) [97, 98]) =
      dropWhile (\<lambda>e. Compare BytewiseComparator (fst e) [97, 98] < 0) ?es"
    by (rule block_reads_back [OF s o disjI1 [OF refl] BlockContents.select_convs(1) c n, THEN conjunct2, THEN conjunct2])
  then show ?thesis unfolding d .
qed

text \<open>
  The bound of \<^const>\<open>DecodeEntry\<close> is a sum of 32 bits: an entry of a corrupt block whose two lengths add
  up to \<open>2 ^ 32\<close> passes it, and the key bytes are then taken from behind the end of the block.
\<close>

lemma entry_lengths_wrap:
  "DecodeEntry (EncodeVarint32 0 @ EncodeVarint32 0xffffffff @ EncodeVarint32 1) = Some (0, 0xffffffff, 1, [])"
  using DecodeEntry_bytes [of "0xffffffff" 1 "[]" 0] by simp

end
