(* ===== verification/Ldb_Table_Facts.thy ===== *)
theory Ldb_Table_Facts
  imports Ldb_Table Ldb_Block_Facts
begin

text \<open>
  Tables are read as they were written: what one block, the footer and the index of a finished table
  hold, and the reader over it.
\<close>

section \<open>The contract of a file read at an offset\<close>

text \<open>A read within the file answers OK and all bytes asked for.\<close>

locale random_access_file =
  fixes rd :: "'r \<Rightarrow> random_file" and good_file :: "'r \<Rightarrow> bool" and content :: "'r \<Rightarrow> byte list"
  assumes read_within: "good_file r \<Longrightarrow> unat offset + unat n \<le> length (content r) \<Longrightarrow>
    \<exists>b. rd r offset n = (Status_OK, take (unat n) (drop (unat offset) (content r)), b)"

definition mmap_good :: "kernel \<times> PosixMmapReadableFile \<times> byte list \<Rightarrow> bool" where
  "mmap_good r = (case r of (k, f, mapping) \<Rightarrow> length mapping < 2 ^ 64 \<and> mmap_length f = of_nat (length mapping))"

interpretation mapped: random_access_file "\<lambda>(k, f, mapping). mmap_file k f mapping" mmap_good "\<lambda>(k, f, mapping). mapping"
proof
  fix r :: "kernel \<times> PosixMmapReadableFile \<times> byte list" and offset n :: "64 word"
  obtain k f mapping where r: "r = (k, f, mapping)" by (cases r)
  assume "mmap_good r" and "unat offset + unat n \<le> length (case r of (k, f, mapping) \<Rightarrow> mapping)"
  then have len: "length mapping < 2 ^ 64" "mmap_length f = of_nat (length mapping)" "unat offset + unat n \<le> length mapping"
    by (simp_all add: mmap_good_def r)
  then have "unat (offset + n) = unat offset + unat n" using unat_add_lem [of offset n] by simp
  then have "\<not> mmap_length f < offset + n"
    using len by (simp add: word_less_nat_alt unat_of_nat not_less)
  then show "\<exists>b. (case r of (k, f, mapping) \<Rightarrow> mmap_file k f mapping) offset n =
      (Status_OK, take (unat n) (drop (unat offset) (case r of (k, f, mapping) \<Rightarrow> mapping)), b)"
    by (intro exI [of _ False]) (simp add: r mmap_file_def Mmap_Read_def)
qed

interpretation positioned: random_access_file "\<lambda>(f, k) offset n. fst (RandomAccess_Read f k offset n)"
    "\<lambda>(f, k). answers k = []" "\<lambda>(f, k). ra_disk f"
  by unfold_locales (auto simp: RandomAccess_Read_def syscall_def pread_def Let_def)

section \<open>One stored block\<close>

definition block_trailer :: "byte list \<Rightarrow> byte list" where
  "block_trailer raw = 0 # EncodeFixed32 (Mask (crc32c_Value 0 (raw @ [0])))"

lemma length_trailer [simp]: "length (block_trailer raw) = 5"
  by (simp add: block_trailer_def)

definition stored :: "byte list \<Rightarrow> nat \<Rightarrow> byte list \<Rightarrow> bool" where
  "stored D pos raw \<longleftrightarrow> (\<exists>A B. D = A @ raw @ block_trailer raw @ B \<and> length A = pos)"

lemma stored_append: "stored D pos raw \<Longrightarrow> stored (D @ X) pos raw"
  unfolding stored_def by (metis append.assoc)

lemma stored_last: "stored (D @ raw @ block_trailer raw) (length D) raw"
  unfolding stored_def by (metis append_Nil2)

lemma stored_range: "stored D pos raw \<Longrightarrow> pos + length raw + 5 \<le> length D"
  by (auto simp: stored_def)

context random_access_file
begin

lemma ReadBlock_stored:
  assumes "good_file r" and "stored (content r) (unat (bh_offset h)) raw" and "unat (bh_size h) = length raw"
    and "length (content r) < 2 ^ 64"
  shows "\<exists>b. ReadBlock (rd r) options h = (Status_OK, \<lparr>contents_data = raw, cachable = b, heap_allocated = b\<rparr>)"
proof -
  obtain A B where D: "content r = A @ raw @ block_trailer raw @ B" and A: "length A = unat (bh_offset h)"
    using assms(2) by (auto simp: stored_def)
  have "unat (bh_size h) + 5 < 2 ^ 64" using assms(3,4) D by simp
  then have n: "unat (bh_size h + 5) = length raw + 5"
    using unat_add_lem [of "bh_size h" 5] assms(3) by simp
  have "unat (bh_offset h) + unat (bh_size h + 5) \<le> length (content r)" using n A D by simp
  from read_within [OF assms(1) this] obtain b
    where b: "rd r (bh_offset h) (bh_size h + 5) = (Status_OK, raw @ block_trailer raw, b)"
    using A D n by auto
  have w: "of_nat (length raw + 5) = bh_size h + 5" using assms(3) by (metis n unat_eq_nat_uint uint_nat word_of_int_uint of_int_of_nat_eq)
  have t: "(raw @ block_trailer raw) ! length raw = 0" "take (length raw + 1) (raw @ block_trailer raw) = raw @ [0]"
    "DecodeFixed32 (drop (length raw + 1) (raw @ block_trailer raw)) = Mask (crc32c_Value 0 (raw @ [0]))"
    using DecodeFixed32_Encode [of _ "[]"] by (simp_all add: block_trailer_def nth_append)
  show ?thesis
    using b w t by (simp add: ReadBlock_def Let_def kBlockTrailerSize_def assms(3) Unmask_Mask del: append_assoc)
qed

end

section \<open>Handles and the footer\<close>

lemma handle_bytes: "BlockHandle_EncodeTo h dst = dst @ EncodeVarint64 (bh_offset h) @ EncodeVarint64 (bh_size h)"
  by (simp add: BlockHandle_EncodeTo_def PutVarint64_def)

lemma handle_decode:
  "BlockHandle_DecodeFrom h0 (BlockHandle_EncodeTo h [] @ rest) = (Status_OK, (h :: BlockHandle), rest)"
  by (simp add: BlockHandle_DecodeFrom_def handle_bytes varint64_codec)

lemma handle_length: "length (BlockHandle_EncodeTo h []) \<le> kMaxEncodedLength"
  using varint_buffers [of 0 "bh_offset h"] varint_buffers [of 0 "bh_size h"]
  by (simp add: handle_bytes kMaxEncodedLength_def)

lemma magic_halves:
  "push_bit 32 (ucast (ucast (drop_bit 32 m) :: 32 word)) OR ucast (ucast (m AND 0xffffffff) :: 32 word) = (m :: 64 word)"
proof -
  have m: "(0xffffffff :: 64 word) = mask 32" by (simp add: mask_eq_exp_minus_1)
  show ?thesis unfolding m by (intro bit_word_eqI) (auto simp: bit_simps)
qed

lemma footer_length: "length (Footer_EncodeTo f []) = kEncodedLength"
  by (simp add: Footer_EncodeTo_def Let_def string_resize_def PutFixed32_def kEncodedLength_def)

lemma footer_decode:
  "Footer_DecodeFrom f0 (Footer_EncodeTo f [] @ rest) = (Status_OK, (f :: Footer), rest)"
proof -
  let ?h = "BlockHandle_EncodeTo (metaindex_handle f) [] @ BlockHandle_EncodeTo (index_handle f) []"
  let ?lo = "ucast (kTableMagicNumber AND 0xffffffff) :: 32 word" and ?hi = "ucast (drop_bit 32 kTableMagicNumber) :: 32 word"
  let ?pad = "replicate (2 * kMaxEncodedLength - length ?h) 0"
  have len: "length ?h \<le> 2 * kMaxEncodedLength"
    using handle_length [of "metaindex_handle f"] handle_length [of "index_handle f"] by simp
  have "BlockHandle_EncodeTo (index_handle f) (BlockHandle_EncodeTo (metaindex_handle f) []) = ?h"
    by (simp add: handle_bytes)
  then have e: "Footer_EncodeTo f [] = ?h @ ?pad @ EncodeFixed32 ?lo @ EncodeFixed32 ?hi"
    using len by (simp add: Footer_EncodeTo_def Let_def string_resize_def PutFixed32_def)
  have d: "drop (kEncodedLength - 8) (Footer_EncodeTo f [] @ rest) = EncodeFixed32 ?lo @ EncodeFixed32 ?hi @ rest"
    unfolding e using len by (simp add: kEncodedLength_def)
  have h1: "BlockHandle_DecodeFrom h0 (Footer_EncodeTo f [] @ rest) =
      (Status_OK, metaindex_handle f, BlockHandle_EncodeTo (index_handle f) [] @ ?pad @ EncodeFixed32 ?lo @ EncodeFixed32 ?hi @ rest)" for h0
    unfolding e using handle_decode [of h0 "metaindex_handle f"] by simp
  show ?thesis
    unfolding Footer_DecodeFrom_def Let_def d h1
    by (simp add: DecodeFixed32_Encode magic_halves handle_decode)
qed

section \<open>What the builder keeps\<close>

text \<open>The bytes of a block of entries, as some builder made them.\<close>

definition block_of :: "entries \<Rightarrow> byte list \<Rightarrow> bool" where
  "block_of es raw \<longleftrightarrow> (\<exists>shs R b. built es shs R b \<and> raw = bb_buffer (BlockBuilder_Finish b))"

text \<open>A written block: its entries and the handle of its bytes.\<close>

definition written :: "byte list \<Rightarrow> entries \<Rightarrow> BlockHandle \<Rightarrow> bool" where
  "written D es h \<longleftrightarrow> (\<exists>pos raw. stored D pos raw \<and> block_of es raw \<and>
     h = \<lparr>bh_offset = of_nat pos, bh_size = of_nat (length raw)\<rparr>)"

lemma written_append: "written D es h \<Longrightarrow> written (D @ X) es h"
  unfolding written_def using stored_append by blast

definition index_entries :: "slice list \<Rightarrow> (entries \<times> BlockHandle) list \<Rightarrow> entries" where
  "index_entries ks bs = map2 (\<lambda>k b. (k, BlockHandle_EncodeTo (snd b) [])) ks bs"

lemma index_entries_snoc: "length ks = length bs \<Longrightarrow>
    index_entries (ks @ [k]) (bs @ [b]) = index_entries ks bs @ [(k, BlockHandle_EncodeTo (snd b) [])]"
  by (simp add: index_entries_def)

lemma index_entries_longer: "length ks = length bs \<Longrightarrow> index_entries ks (bs @ [b]) = index_entries ks bs"
  by (simp add: index_entries_def zip_append2)

definition filter_blocks :: "(entries \<times> BlockHandle) list \<Rightarrow> (64 word \<times> slice list) list" where
  "filter_blocks bs = map (\<lambda>b. (bh_offset (snd b), map fst (fst b))) bs"

lemma bb_options_kept [simp]:
  "bb_options (new_BlockBuilder opt) = opt" "bb_options (BlockBuilder_Finish b) = bb_options b"
  "bb_options (BlockBuilder_Reset b) = bb_options b"
  by (simp_all add: new_BlockBuilder_def BlockBuilder_Finish_def BlockBuilder_Reset_def Let_def)

lemma built_empty: "built es shs R b \<Longrightarrow> BlockBuilder_empty b \<longleftrightarrow> es = []"
proof -
  assume b: "built es shs R b"
  note parts = built_parts [OF b]
  have "length (bb_buffer b) = off shs es (length es)" using off_all [OF parts(1)] parts(4) by simp
  then show ?thesis using off_less [OF parts(1), of 0 "length es"] by (cases es) (auto simp: BlockBuilder_empty_def)
qed

text \<open>
  \<open>far a b\<close>: a key above the end of a block was shortened so far that it stays below every key which
  has to be looked for together with \<open>b\<close>; for internal keys, its user key is below that of \<open>b\<close>.
\<close>

locale table_store = w: writable_file ops good all durable + c: comparator cmp valid +
    f: random_access_file rd good_file content
  for ops :: "'s WritableFile" and good all durable cmp valid and rd :: "'r \<Rightarrow> random_file" and good_file content +
  fixes far :: "slice \<Rightarrow> slice \<Rightarrow> bool"
  assumes far_separator: "valid a \<Longrightarrow> valid l \<Longrightarrow> Compare cmp a l < 0 \<Longrightarrow>
      FindShortestSeparator cmp a l = a \<or> far (FindShortestSeparator cmp a l) l"
    and far_less: "valid a \<Longrightarrow> valid b \<Longrightarrow> far a b \<Longrightarrow> Compare cmp a b < 0"
    and far_trans: "valid a \<Longrightarrow> valid b \<Longrightarrow> valid c \<Longrightarrow> far a b \<Longrightarrow> Compare cmp b c < 0 \<Longrightarrow> far a c"
begin

lemma WriteRaw:
  assumes "good (tb_file r)" and "tb_offset r = of_nat (length (all (tb_file r)))"
    and "WriteRawBlock ops raw kNoCompression r = (h, r')" and "tb_ok r'"
  shows "h = \<lparr>bh_offset = of_nat (length (all (tb_file r))), bh_size = of_nat (length raw)\<rparr>"
    and "all (tb_file r') = all (tb_file r) @ raw @ block_trailer raw" and "good (tb_file r')"
    and "r' = r\<lparr>tb_status := tb_status r', tb_file := tb_file r', tb_offset := of_nat (length (all (tb_file r')))\<rparr>"
proof -
  let ?t = "0 # EncodeFixed32 (Mask (Extend (crc32c_Value 0 raw) 0 [0]))"
  have t: "?t = block_trailer raw"
    using Extend_pieces [of 0 0 raw 0 "[0]" 0] by (simp add: block_trailer_def crc32c_Value_def)
  obtain s1 f1 where a1: "Append_op ops (tb_file r) raw = (s1, f1)" by fastforce
  show "h = \<lparr>bh_offset = of_nat (length (all (tb_file r))), bh_size = of_nat (length raw)\<rparr>"
    using assms(2,3) by (auto simp: WriteRawBlock_def Let_def a1 split: prod.splits if_splits)
  have ok1: "status_ok s1" using assms(3,4) by (auto simp: WriteRawBlock_def Let_def a1 tb_ok_def split: if_splits)
  note g1 = w.append_good [OF assms(1) a1] and d1 = w.append_all [OF assms(1) a1 ok1]
  obtain s2 f2 where a2: "Append_op ops f1 ?t = (s2, f2)" by fastforce
  have ok2: "status_ok s2" using assms(3,4) ok1 by (auto simp: WriteRawBlock_def Let_def a1 a2 tb_ok_def split: if_splits)
  note g2 = w.append_good [OF g1 a2] and d2 = w.append_all [OF g1 a2 ok2]
  have r': "r' = r\<lparr>tb_status := s2, tb_file := f2, tb_offset := tb_offset r + of_nat (length raw + 5)\<rparr>"
    using assms(3) ok1 ok2 by (simp add: WriteRawBlock_def Let_def a1 a2 kBlockTrailerSize_def)
  show "all (tb_file r') = all (tb_file r) @ raw @ block_trailer raw" "good (tb_file r')"
    using d1 d2 g2 t by (simp_all add: r')
  then have "tb_offset r + of_nat (length raw + 5) = of_nat (length (all (tb_file r')))"
    using assms(2) by simp
  then show "r' = r\<lparr>tb_status := tb_status r', tb_file := tb_file r', tb_offset := of_nat (length (all (tb_file r')))\<rparr>"
    by (simp add: r')
qed

lemma Write_block:
  assumes "good (tb_file r)" and "tb_offset r = of_nat (length (all (tb_file r)))"
    and "WriteBlock ops block r = (h, block', r')" and "tb_ok r'" and "built es shs R block"
  shows "written (all (tb_file r')) es h" and "bh_offset h = of_nat (length (all (tb_file r)))"
    and "good (tb_file r')" and "block' = BlockBuilder_Reset (BlockBuilder_Finish block)"
    and "\<exists>X. all (tb_file r') = all (tb_file r) @ X"
    and "r' = r\<lparr>tb_status := tb_status r', tb_file := tb_file r', compressed_output := [],
      tb_offset := of_nat (length (all (tb_file r')))\<rparr>"
proof -
  let ?raw = "bb_buffer (BlockBuilder_Finish block)"
  obtain h1 r1 where wr: "WriteRawBlock ops ?raw kNoCompression r = (h1, r1)" by fastforce
  have e: "h = h1" "block' = BlockBuilder_Reset (BlockBuilder_Finish block)" "r' = r1\<lparr>compressed_output := []\<rparr>"
    using assms(3) wr by (auto simp: WriteBlock_def Let_def Snappy_Compress_def split: CompressionType.splits)
  have ok1: "tb_ok r1" using assms(4) e(3) by (simp add: tb_ok_def)
  note wr' = WriteRaw [OF assms(1,2) wr ok1]
  show "block' = BlockBuilder_Reset (BlockBuilder_Finish block)" by (rule e(2))
  show "good (tb_file r')" "\<exists>X. all (tb_file r') = all (tb_file r) @ X" using wr'(2,3) e(3) by auto
  show "bh_offset h = of_nat (length (all (tb_file r)))" using wr'(1) e(1) by simp
  have "block_of es ?raw" using assms(5) by (auto simp: block_of_def)
  then show "written (all (tb_file r')) es h"
    using wr'(1,2) e stored_last [of "all (tb_file r)" ?raw] by (auto simp: written_def)
  show "r' = r\<lparr>tb_status := tb_status r', tb_file := tb_file r', compressed_output := [],
      tb_offset := of_nat (length (all (tb_file r')))\<rparr>"
    using wr'(4) unfolding e(3) by (cases r, cases r1) simp
qed

subsection \<open>The invariant\<close>

text \<open>
  \<open>bs\<close> are the written blocks, \<open>ks\<close> the index keys chosen so far, \<open>cur\<close> the entries not yet written.
  An index key is at or above the keys of its block and below all later ones.
\<close>

definition later :: "(entries \<times> BlockHandle) list \<Rightarrow> entries \<Rightarrow> nat \<Rightarrow> entries" where
  "later bs cur i = concat (map fst (drop (Suc i) bs)) @ cur"

definition separated :: "slice list \<Rightarrow> (entries \<times> BlockHandle) list \<Rightarrow> entries \<Rightarrow> bool" where
  "separated ks bs cur \<longleftrightarrow> (\<forall>i < length ks. valid (ks ! i) \<and>
     (\<forall>e \<in> set (fst (bs ! i)). fst e = ks ! i \<or> c.less (fst e) (ks ! i)) \<and>
     (\<forall>e \<in> set (later bs cur i). c.less (ks ! i) (fst e) \<and>
        (ks ! i = fst (last (fst (bs ! i))) \<or> far (ks ! i) (fst e))))"

definition followed :: "slice list \<Rightarrow> (entries \<times> BlockHandle) list \<Rightarrow> entries \<Rightarrow> bool" where
  "followed ks bs cur \<longleftrightarrow> (\<forall>i < length ks. later bs cur i \<noteq> [])"

definition table_entries :: "(entries \<times> BlockHandle) list \<Rightarrow> entries \<Rightarrow> entries" where
  "table_entries bs cur = concat (map fst bs) @ cur"

definition builder_filter :: "Options \<Rightarrow> (entries \<times> BlockHandle) list \<Rightarrow> 64 word \<Rightarrow> entries \<Rightarrow> FilterBlockBuilder option" where
  "builder_filter opt bs pos cur =
     map_option (\<lambda>pol. fold add_block (filter_blocks bs @ [(pos, map fst cur)]) (new_FilterBlockBuilder pol)) (filter_policy_of opt)"

text \<open>The blocks are in the file one behind the other.\<close>

definition in_order :: "(entries \<times> BlockHandle) list \<Rightarrow> nat \<Rightarrow> bool" where
  "in_order bs len \<longleftrightarrow> (\<exists>ps. map (\<lambda>b. bh_offset (snd b)) bs = map of_nat ps \<and> sorted (ps @ [len]))"

definition building :: "Options \<Rightarrow> 's TableBuilder \<Rightarrow> (entries \<times> BlockHandle) list \<Rightarrow> slice list \<Rightarrow> entries \<Rightarrow> bool" where
  "building opt r bs ks cur \<longleftrightarrow>
     tb_ok r \<and> good (tb_file r) \<and> tb_offset r = of_nat (length (all (tb_file r))) \<and> tb_options r = opt \<and>
     comparator_of opt = cmp \<and> 1 \<le> block_restart_interval opt \<and>
     bb_options (data_block r) = opt \<and> 1 \<le> block_restart_interval (bb_options (index_block r)) \<and>
     (\<exists>shs R. built cur shs R (data_block r)) \<and> (\<exists>shs R. built (index_entries ks bs) shs R (index_block r)) \<and>
     (\<forall>b \<in> set bs. fst b \<noteq> [] \<and> written (all (tb_file r)) (fst b) (snd b)) \<and>
     filter_block r = builder_filter opt bs (tb_offset r) cur \<and>
     sorted_entries cmp (table_entries bs cur) \<and> (\<forall>e \<in> set (table_entries bs cur). valid (fst e)) \<and>
     separated ks bs cur \<and> followed ks bs cur \<and> in_order bs (length (all (tb_file r))) \<and>
     (if pending_index_entry r
      then length bs = Suc (length ks) \<and> cur = [] \<and> pending_handle r = snd (last bs) \<and>
        tb_last_key r = fst (last (fst (last bs)))
      else length bs = length ks \<and> (cur \<noteq> [] \<longrightarrow> tb_last_key r = fst (last cur)))"

lemma building_new:
  assumes "good f" and "all f = []" and "comparator_of opt = cmp" and "1 \<le> block_restart_interval opt"
  shows "building opt (new_TableBuilder opt f) [] [] []"
  using assms built_new
  by (auto simp: building_def new_TableBuilder_def new_Rep_def Let_def tb_ok_def builder_filter_def filter_blocks_def
    add_block_def option.map_comp comp_def sorted_entries_def table_entries_def separated_def followed_def
    index_entries_def in_order_def intro: exI)

subsection \<open>Errors stay\<close>

lemma Flush_stuck: "\<not> tb_ok r \<Longrightarrow> TableBuilder_Flush ops r = r"
  by (simp add: TableBuilder_Flush_def)

lemma Add_stuck: "\<not> tb_ok r \<Longrightarrow> TableBuilder_Add ops k v r = r"
  by (simp add: TableBuilder_Add_def)

subsection \<open>Flushing\<close>

lemma building_parts:
  assumes "building opt r bs ks cur"
  shows "tb_ok r" and "good (tb_file r)" and "tb_offset r = of_nat (length (all (tb_file r)))" and "tb_options r = opt"
    and "comparator_of opt = cmp" and "1 \<le> block_restart_interval opt" and "bb_options (data_block r) = opt"
    and "1 \<le> block_restart_interval (bb_options (index_block r))"
    and "\<exists>shs R. built cur shs R (data_block r)" and "\<exists>shs R. built (index_entries ks bs) shs R (index_block r)"
    and "\<forall>b \<in> set bs. fst b \<noteq> [] \<and> written (all (tb_file r)) (fst b) (snd b)"
    and "filter_block r = builder_filter opt bs (tb_offset r) cur"
    and "sorted_entries cmp (table_entries bs cur)" and "\<forall>e \<in> set (table_entries bs cur). valid (fst e)"
    and "separated ks bs cur" and "followed ks bs cur"
    and "pending_index_entry r \<Longrightarrow> length bs = Suc (length ks) \<and> cur = [] \<and> pending_handle r = snd (last bs) \<and>
        tb_last_key r = fst (last (fst (last bs)))"
    and "\<not> pending_index_entry r \<Longrightarrow> length bs = length ks \<and> (cur \<noteq> [] \<longrightarrow> tb_last_key r = fst (last cur))"
    and "in_order bs (length (all (tb_file r)))"
  using assms unfolding building_def by (simp_all split: if_splits)

lemma later_flush: "i < length bs \<Longrightarrow> later (bs @ [(cur, h)]) [] i = later bs cur i"
  by (simp add: later_def)

lemma Flush_building:
  assumes b: "building opt r bs ks cur" and cur: "cur \<noteq> []" and ok: "tb_ok (TableBuilder_Flush ops r)"
  shows "\<exists>h. building opt (TableBuilder_Flush ops r) (bs @ [(cur, h)]) ks []"
proof -
  note p = building_parts [OF b]
  obtain shs R where db: "built cur shs R (data_block r)" using p(9) by blast
  have np: "\<not> pending_index_entry r" using p(17) cur by blast
  have ne: "\<not> BlockBuilder_empty (data_block r)" using built_empty [OF db] cur by simp
  obtain h blk r1 where wb: "WriteBlock ops (data_block r) r = (h, blk, r1)" by (metis prod_cases3)
  let ?r2 = "r1\<lparr>pending_handle := h, data_block := blk\<rparr>"
  obtain s f where fl: "Flush_op ops (tb_file r1) = (s, f)" by fastforce
  have ok1: "tb_ok r1"
    using ok p(1) ne wb by (auto simp: TableBuilder_Flush_def Let_def tb_ok_def split: if_splits)
  note wr = Write_block [OF p(2,3) wb ok1 db]
  have r': "TableBuilder_Flush ops r = ?r2\<lparr>pending_index_entry := True, tb_status := s, tb_file := f,
      filter_block := map_option (StartBlock (tb_offset r1)) (filter_block r1)\<rparr>"
    using p(1) ne wb ok1 fl by (simp add: TableBuilder_Flush_def Let_def tb_ok_def)
  have oks: "status_ok s" using ok r' by (simp add: tb_ok_def)
  have gf: "good f" by (rule w.flush_good [OF wr(3) fl])
  have af: "all f = all (tb_file r1)" using w.flush_all [OF wr(3) fl oks] by simp
  obtain X where X: "all (tb_file r1) = all (tb_file r) @ X" using wr(5) by blast
  have r1: "tb_options r1 = opt" "index_block r1 = index_block r" "filter_block r1 = filter_block r"
    "tb_offset r1 = of_nat (length (all (tb_file r1)))" "tb_last_key r1 = tb_last_key r"
    by (subst wr(6), simp add: p(4))+
  let ?bs = "bs @ [(cur, h)]"
  have "fold add_block (filter_blocks ?bs @ [(tb_offset r1, [])]) = StartBlock (tb_offset r1) \<circ>
      fold add_block (filter_blocks bs @ [(tb_offset r, map fst cur)])"
    using wr(2) p(3) by (simp add: filter_blocks_def add_block_def comp_def)
  then have fb: "map_option (StartBlock (tb_offset r1)) (filter_block r) = builder_filter opt ?bs (tb_offset r1) []"
    by (simp add: p(12) builder_filter_def option.map_comp comp_def)
  have wrt: "\<forall>b \<in> set ?bs. fst b \<noteq> [] \<and> written (all f) (fst b) (snd b)"
    using p(11) cur wr(1) written_append by (auto simp: af X)
  have te: "table_entries ?bs [] = table_entries bs cur" by (simp add: table_entries_def)
  have len: "length bs = length ks" using p(18) [OF np] by simp
  have sep: "separated ks ?bs []" "followed ks ?bs []"
    using p(15,16) len by (auto simp: separated_def followed_def later_flush nth_append)
  have "in_order ?bs (length (all (tb_file r1)))"
    using p(19) wr(2) X by (fastforce simp: in_order_def sorted_append intro: exI [of _ "ps @ [length (all (tb_file r))]" for ps])
  then have ord: "in_order ?bs (length (all f))" by (simp add: af)
  have ie: "index_entries ks ?bs = index_entries ks bs" using len by (simp add: index_entries_longer)
  have blk: "blk = BlockBuilder_Reset (BlockBuilder_Finish (data_block r))" by (rule wr(4))
  have "\<exists>shs R. built [] shs R blk" using built_Reset unfolding blk by blast
  then show ?thesis
    unfolding r' building_def
    using oks gf af p(5-8,10,13,14) r1 fb wrt sep len p(18) [OF np] cur ord
    by (intro exI [of _ h]) (simp add: tb_ok_def te ie blk)
qed

subsection \<open>Adding\<close>

definition tb_index :: "slice \<Rightarrow> 's TableBuilder \<Rightarrow> 's TableBuilder" where
  "tb_index key r =
     (if pending_index_entry r then
        let last_key = FindShortestSeparator (comparator_of (tb_options r)) (tb_last_key r) key;
            handle_encoding = BlockHandle_EncodeTo (pending_handle r) []
        in r\<lparr>tb_last_key := last_key, index_block := BlockBuilder_Add last_key handle_encoding (index_block r),
             pending_index_entry := False\<rparr>
      else r)"

definition tb_put :: "slice \<Rightarrow> slice \<Rightarrow> 's TableBuilder \<Rightarrow> 's TableBuilder" where
  "tb_put key val r =
     r\<lparr>filter_block := map_option (AddKey key) (filter_block r), tb_last_key := key, num_entries := num_entries r + 1,
       data_block := BlockBuilder_Add key val (data_block r)\<rparr>"

lemma Add_steps:
  "TableBuilder_Add ops key val r =
     (if \<not> tb_ok r then r
      else let r = tb_put key val (tb_index key r) in
        if CurrentSizeEstimate (data_block r) \<ge> block_size (tb_options r) then TableBuilder_Flush ops r else r)"
  by (simp add: TableBuilder_Add_def tb_put_def tb_index_def Let_def)

lemma table_entries_snoc: "table_entries bs (cur @ [e]) = table_entries bs cur @ [e]"
  by (simp add: table_entries_def)

lemma later_snoc: "later bs (cur @ [e]) i = later bs cur i @ [e]"
  by (simp add: later_def)

lemma sorted_last_less:
  assumes "sorted_entries cmp (es @ [e])" and "x \<in> set es"
  shows "c.less (fst x) (fst e)"
  using assms by (simp add: sorted_entries_def sorted_wrt_append c.less_def)

lemma later_in_table: "i < length bs \<Longrightarrow> set (later bs cur i) \<subseteq> set (table_entries bs cur)"
  by (auto simp: later_def table_entries_def dest: in_set_dropD)

lemma block_in_table: "i < length bs \<Longrightarrow> set (fst (bs ! i)) \<subseteq> set (table_entries bs cur)"
  by (force simp: table_entries_def)

lemma separated_snoc:
  assumes s: "separated ks bs cur" "followed ks bs cur" and l: "length ks \<le> length bs"
    and t: "sorted_entries cmp (table_entries bs cur @ [e])" "\<forall>x \<in> set (table_entries bs cur @ [e]). valid (fst x)"
  shows "separated ks bs (cur @ [e])" and "followed ks bs (cur @ [e])"
proof -
  show "followed ks bs (cur @ [e])" by (simp add: followed_def later_snoc)
  have "c.less (ks ! i) (fst e) \<and> (ks ! i = fst (last (fst (bs ! i))) \<or> far (ks ! i) (fst e))" if i: "i < length ks" for i
  proof -
    have "later bs cur i \<noteq> []" using s(2) i by (simp add: followed_def)
    then have x: "hd (later bs cur i) \<in> set (later bs cur i)" by simp
    let ?x = "hd (later bs cur i)"
    have x': "?x \<in> set (table_entries bs cur)" using later_in_table [of i bs cur] i l x by auto
    have k: "c.less (ks ! i) (fst ?x)" "valid (ks ! i)" "ks ! i = fst (last (fst (bs ! i))) \<or> far (ks ! i) (fst ?x)"
      using s(1) i x unfolding separated_def by blast+
    have xe: "c.less (fst ?x) (fst e)" "valid (fst ?x)" "valid (fst e)" using sorted_last_less [OF t(1) x'] t(2) x' by simp_all
    show ?thesis
      using c.less_trans [OF k(2) xe(2,3) k(1) xe(1)] far_trans [OF k(2) xe(2,3)] k(3) xe(1) by (auto simp: c.less_def)
  qed
  then show "separated ks bs (cur @ [e])" using s(1) by (simp add: separated_def later_snoc)
qed

lemma block_last:
  assumes "sorted_entries cmp (A @ xs)" and "xs \<noteq> []" and "e \<in> set xs"
  shows "e = last xs \<or> c.less (fst e) (fst (last xs))"
proof (cases "e = last xs")
  case False
  have xs: "xs = butlast xs @ [last xs]" using assms(2) by simp
  have "e \<in> set (butlast xs @ [last xs])" using assms(3) xs by simp
  then have e: "e \<in> set (butlast xs)" using False by simp
  have "sorted_entries cmp xs" using assms(1) by (simp add: sorted_entries_def sorted_wrt_append)
  then have "sorted_entries cmp (butlast xs @ [last xs])" using xs by simp
  then show ?thesis using sorted_last_less e by blast
qed simp

lemma table_entries_last: "bs \<noteq> [] \<Longrightarrow> table_entries bs [] = concat (map fst (butlast bs)) @ fst (last bs)"
proof -
  assume "bs \<noteq> []"
  then have "map fst bs = map fst (butlast bs @ [last bs])" by simp
  then show ?thesis unfolding table_entries_def by simp
qed

lemma Put_building:
  assumes b: "building opt r bs ks cur"
    and t: "sorted_entries cmp (table_entries bs cur @ [(k, v)])" "valid k"
  shows "\<exists>ks'. building opt (tb_put k v (tb_index k r)) bs ks' (cur @ [(k, v)])"
proof -
  note p = building_parts [OF b]
  have val: "\<forall>x \<in> set (table_entries bs cur @ [(k, v)]). valid (fst x)" using p(14) t(2) by simp
  obtain shs R where db: "built cur shs R (data_block r)" using p(9) by blast
  have db': "\<exists>shs R. built (cur @ [(k, v)]) shs R (BlockBuilder_Add k v (data_block r))"
    by (rule built_Add [OF db]) (use p(6,7) in simp)
  have fb: "map_option (AddKey k) (filter_block r) = builder_filter opt bs (tb_offset r) (cur @ [(k, v)])"
    by (simp add: p(12) builder_filter_def option.map_comp comp_def add_block_def)
  have te: "table_entries bs (cur @ [(k, v)]) = table_entries bs cur @ [(k, v)]" by (rule table_entries_snoc)
  show ?thesis
  proof (cases "pending_index_entry r")
    case False
    have l: "length bs = length ks" using p(18) [OF False] by simp
    note s = separated_snoc [OF p(15,16) _ t(1) val]
    have "building opt (tb_put k v (tb_index k r)) bs ks (cur @ [(k, v)])"
      unfolding building_def te
      using p(1-8,10,11,19) t(1) val db' fb s l False
      by (simp add: tb_put_def tb_index_def tb_ok_def)
    then show ?thesis by blast
  next
    case True
    have l: "length bs = Suc (length ks)" and cur: "cur = []" and ph: "pending_handle r = snd (last bs)"
      and lk: "tb_last_key r = fst (last (fst (last bs)))" using p(17) [OF True] by auto
    have ne: "bs \<noteq> []" using l by auto
    have bs: "bs \<noteq> []" "bs = butlast bs @ [last bs]" using ne append_butlast_last_id [OF ne] by simp_all
    have lb: "fst (last bs) \<noteq> []" using p(11) bs(1) by simp
    let ?last = "last (fst (last bs))"
    have sub: "set (fst (last bs)) \<subseteq> set (table_entries bs cur)"
      using last_in_set [OF ne] by (auto simp: table_entries_def intro: bexI [of _ "last bs"])
    then have lin: "?last \<in> set (table_entries bs cur)" using lb by auto
    have less: "c.less (fst ?last) k" using sorted_last_less [OF t(1) lin] by simp
    have vl: "valid (fst ?last)" using val lin by simp
    let ?sep = "FindShortestSeparator cmp (tb_last_key r) k"
    have vsep: "valid ?sep" and ge: "fst ?last = ?sep \<or> c.less (fst ?last) ?sep" and lt: "c.less ?sep k"
      using c.separator [OF vl t(2)] less c.le_iff [OF vl, of ?sep] by (auto simp: lk c.less_def)
    have far: "?sep = fst ?last \<or> far ?sep k" using far_separator [OF vl t(2)] less by (simp add: lk c.less_def)
    have below: "\<forall>e \<in> set (fst (last bs)). fst e = ?sep \<or> c.less (fst e) ?sep"
    proof
      fix e assume e: "e \<in> set (fst (last bs))"
      have ve: "valid (fst e)" using val e sub by auto
      have "sorted_entries cmp (concat (map fst (butlast bs)) @ fst (last bs))"
        using p(13) unfolding cur table_entries_last [OF ne] .
      from block_last [OF this lb e] have "fst e = fst ?last \<or> c.less (fst e) (fst ?last)" by auto
      then show "fst e = ?sep \<or> c.less (fst e) ?sep" using ge c.less_trans [OF ve vl vsep] by metis
    qed
    have old: "separated ks bs (cur @ [(k, v)])" "followed ks bs (cur @ [(k, v)])"
      by (rule separated_snoc [OF p(15,16) _ t(1) val]; simp add: l)+
    have lastn: "bs ! length ks = last bs" "later bs (cur @ [(k, v)]) (length ks) = [(k, v)]"
      using l cur bs(1) by (simp_all add: last_conv_nth later_def)
    have sep: "separated (ks @ [?sep]) bs (cur @ [(k, v)])" "followed (ks @ [?sep]) bs (cur @ [(k, v)])"
      using old below vsep lt lastn far by (auto simp: separated_def followed_def nth_append less_Suc_eq)
    obtain shs R where ib: "built (index_entries ks bs) shs R (index_block r)" using p(10) by blast
    have "index_entries (ks @ [?sep]) bs = index_entries ks bs @ [(?sep, BlockHandle_EncodeTo (pending_handle r) [])]"
      using index_entries_snoc [of ks "butlast bs" ?sep "last bs"] index_entries_longer [of ks "butlast bs" "last bs"] l bs ph
      by simp
    then have ib': "\<exists>shs R. built (index_entries (ks @ [?sep]) bs) shs R
        (BlockBuilder_Add ?sep (BlockHandle_EncodeTo (pending_handle r) []) (index_block r))"
      using built_Add [OF ib p(8)] by simp
    have "building opt (tb_put k v (tb_index k r)) bs (ks @ [?sep]) (cur @ [(k, v)])"
      unfolding building_def te
      using p(1-8,11,19) t(1) val db' fb sep l True ib' cur
      by (simp add: tb_put_def tb_index_def tb_ok_def Let_def)
    then show ?thesis by blast
  qed
qed

lemma Add_building:
  assumes b: "building opt r bs ks cur" and t: "sorted_entries cmp (table_entries bs cur @ [(k, v)])" "valid k"
    and ok: "tb_ok (TableBuilder_Add ops k v r)"
  shows "\<exists>bs' ks' cur'. building opt (TableBuilder_Add ops k v r) bs' ks' cur' \<and>
    table_entries bs' cur' = table_entries bs cur @ [(k, v)]"
proof -
  let ?r = "tb_put k v (tb_index k r)"
  obtain ks' where b': "building opt ?r bs ks' (cur @ [(k, v)])" using Put_building [OF b t] by blast
  have okr: "tb_ok r" using building_parts(1) [OF b] .
  show ?thesis
  proof (cases "CurrentSizeEstimate (data_block ?r) \<ge> block_size (tb_options ?r)")
    case True
    then have e: "TableBuilder_Add ops k v r = TableBuilder_Flush ops ?r" using okr by (simp add: Add_steps Let_def)
    obtain h where "building opt (TableBuilder_Flush ops ?r) (bs @ [(cur @ [(k, v)], h)]) ks' []"
      using Flush_building [OF b'] ok unfolding e by blast
    then show ?thesis unfolding e by (intro exI conjI) (assumption, simp add: table_entries_def)
  next
    case False
    then have e: "TableBuilder_Add ops k v r = ?r" using okr by (simp add: Add_steps Let_def)
    show ?thesis unfolding e using b' table_entries_snoc by blast
  qed
qed

definition table_add :: "entries \<Rightarrow> 's TableBuilder \<Rightarrow> 's TableBuilder" where
  "table_add es r = fold (\<lambda>e. TableBuilder_Add ops (fst e) (snd e)) es r"

lemma table_add_stuck: "\<not> tb_ok r \<Longrightarrow> table_add es r = r"
  by (induction es) (simp_all add: table_add_def Add_stuck)

lemma table_add_building:
  "building opt r bs ks cur \<Longrightarrow> sorted_entries cmp (table_entries bs cur @ es) \<Longrightarrow> \<forall>e \<in> set es. valid (fst e) \<Longrightarrow>
    tb_ok (table_add es r) \<Longrightarrow>
    \<exists>bs' ks' cur'. building opt (table_add es r) bs' ks' cur' \<and> table_entries bs' cur' = table_entries bs cur @ es"
proof (induction es arbitrary: r bs ks cur)
  case Nil
  then show ?case by (auto simp: table_add_def)
next
  case (Cons e es)
  let ?r = "TableBuilder_Add ops (fst e) (snd e) r"
  have step: "table_add (e # es) r = table_add es ?r" by (simp add: table_add_def)
  have ok: "tb_ok ?r" using Cons.prems(4) table_add_stuck [of ?r es] unfolding step by metis
  have s: "sorted_entries cmp (table_entries bs cur @ [(fst e, snd e)])"
    using Cons.prems(2) by (simp add: sorted_entries_def sorted_wrt_append)
  obtain bs1 ks1 cur1 where b: "building opt ?r bs1 ks1 cur1" "table_entries bs1 cur1 = table_entries bs cur @ [e]"
    using Add_building [OF Cons.prems(1) s _ ok] Cons.prems(3) by auto
  show ?case using Cons.IH [OF b(1)] Cons.prems(2-4) b(2) unfolding step by simp
qed

subsection \<open>Finishing\<close>

definition meta_entries :: "Options \<Rightarrow> BlockHandle \<Rightarrow> entries" where
  "meta_entries opt fh =
     (case filter_policy_of opt of None \<Rightarrow> []
      | Some pol \<Rightarrow> [(bytes_of ''filter.'' @ policy_Name pol, BlockHandle_EncodeTo fh [])])"

definition stored_filter :: "Options \<Rightarrow> byte list \<Rightarrow> (entries \<times> BlockHandle) list \<Rightarrow> BlockHandle \<Rightarrow> bool" where
  "stored_filter opt D bs fh \<longleftrightarrow> (\<forall>pol. filter_policy_of opt = Some pol \<longrightarrow>
     (\<exists>len pos raw. in_order bs len \<and> len \<le> length D \<and> stored D pos raw \<and>
       fh = \<lparr>bh_offset = of_nat pos, bh_size = of_nat (length raw)\<rparr> \<and>
       raw = fb_result (FilterBlock_Finish (fold add_block (filter_blocks bs @ [(of_nat len, [])]) (new_FilterBlockBuilder pol)))))"

definition complete :: "Options \<Rightarrow> byte list \<Rightarrow> (entries \<times> BlockHandle) list \<Rightarrow> slice list \<Rightarrow> bool" where
  "complete opt D bs ks \<longleftrightarrow> length ks = length bs \<and> separated ks bs [] \<and>
     (\<forall>b \<in> set bs. fst b \<noteq> [] \<and> written D (fst b) (snd b)) \<and>
     (\<exists>fh mh ih X. D = X @ Footer_EncodeTo \<lparr>metaindex_handle = mh, index_handle = ih\<rparr> [] \<and>
       written D (index_entries ks bs) ih \<and> written D (meta_entries opt fh) mh \<and> stored_filter opt D bs fh)"

lemma Flush_any:
  assumes b: "building opt r bs ks cur" and ok: "tb_ok (TableBuilder_Flush ops r)"
  shows "\<exists>bs'. building opt (TableBuilder_Flush ops r) bs' ks [] \<and> table_entries bs' [] = table_entries bs cur"
proof (cases "cur = []")
  case True
  obtain shs R where "built cur shs R (data_block r)" using building_parts(9) [OF b] by blast
  then have "TableBuilder_Flush ops r = r" using built_empty True by (simp add: TableBuilder_Flush_def)
  then show ?thesis using b True by auto
next
  case False
  obtain h where "building opt (TableBuilder_Flush ops r) (bs @ [(cur, h)]) ks []"
    using Flush_building [OF b False ok] by blast
  then show ?thesis by (intro exI conjI) (assumption, simp add: table_entries_def)
qed

lemma finish_ok:
  assumes "TableBuilder_Finish ops r = (s, r')" and "status_ok s"
  obtains r1 fh r2 mh r3 ih r4 where "r1 = (TableBuilder_Flush ops r)\<lparr>tb_closed := True\<rparr>"
    and "write_filter_block ops r1 = (fh, r2)" and "write_metaindex_block ops fh r2 = (mh, r3)"
    and "write_index_block ops r3 = (ih, r4)"
    and "r' = write_footer ops \<lparr>metaindex_handle = mh, index_handle = ih\<rparr> r4"
    and "tb_ok r1" and "tb_ok r2" and "tb_ok r3" and "tb_ok r4" and "tb_ok r'"
proof -
  let ?r1 = "(TableBuilder_Flush ops r)\<lparr>tb_closed := True\<rparr>"
  obtain fh r2 where f: "write_filter_block ops ?r1 = (fh, r2)" by fastforce
  obtain mh r3 where m: "write_metaindex_block ops fh r2 = (mh, r3)" by fastforce
  obtain ih r4 where i: "write_index_block ops r3 = (ih, r4)" by fastforce
  have r': "r' = write_footer ops \<lparr>metaindex_handle = mh, index_handle = ih\<rparr> r4" "s = tb_status r'"
    using assms(1) f m i by (auto simp: TableBuilder_Finish_def Let_def)
  have ok: "tb_ok r'" using assms(2) r' by (simp add: tb_ok_def)
  then have ok4: "tb_ok r4" using r'(1) by (cases "tb_ok r4") (simp_all add: write_footer_def)
  then have ok3: "tb_ok r3" using i by (cases "tb_ok r3") (auto simp: write_index_block_def)
  then have ok2: "tb_ok r2" using m by (cases "tb_ok r2") (auto simp: write_metaindex_block_def)
  then have ok1: "tb_ok ?r1" using f by (cases "tb_ok ?r1") (auto simp: write_filter_block_def)
  show ?thesis using that [OF refl f m i r'(1) ok1 ok2 ok3 ok4 ok] .
qed

lemma filter_written:
  assumes b: "building opt r bs ks []" and f: "write_filter_block ops r = (fh, r2)" and ok: "tb_ok r2"
  shows "good (tb_file r2)" and "tb_offset r2 = of_nat (length (all (tb_file r2)))"
    and "\<exists>X. all (tb_file r2) = all (tb_file r) @ X" and "stored_filter opt (all (tb_file r2)) bs fh"
    and "(filter_block r2 = None) = (filter_policy_of opt = None)"
    and "r2 = r\<lparr>tb_status := tb_status r2, tb_file := tb_file r2, tb_offset := tb_offset r2, filter_block := filter_block r2\<rparr>"
proof -
  note p = building_parts [OF b]
  have res: "good (tb_file r2) \<and> tb_offset r2 = of_nat (length (all (tb_file r2))) \<and>
      (\<exists>X. all (tb_file r2) = all (tb_file r) @ X) \<and> stored_filter opt (all (tb_file r2)) bs fh \<and>
      (filter_block r2 = None) = (filter_policy_of opt = None) \<and>
      r2 = r\<lparr>tb_status := tb_status r2, tb_file := tb_file r2, tb_offset := tb_offset r2, filter_block := filter_block r2\<rparr>"
    (is ?res)
  proof (cases "filter_policy_of opt")
    case None
    then have "filter_block r = None" using p(12) by (simp add: builder_filter_def)
    then have "r2 = r" using f p(1) by (simp add: write_filter_block_def)
    then show ?res
      using p(2,3) None \<open>filter_block r = None\<close> by (simp add: stored_filter_def)
  next
    case (Some pol)
    let ?fb = "FilterBlock_Finish (fold add_block (filter_blocks bs @ [(tb_offset r, [])]) (new_FilterBlockBuilder pol))"
    have fb: "filter_block r = Some (fold add_block (filter_blocks bs @ [(tb_offset r, [])]) (new_FilterBlockBuilder pol))"
      using p(12) Some by (simp add: builder_filter_def)
    let ?r = "r\<lparr>filter_block := Some ?fb\<rparr>"
    have wr: "WriteRawBlock ops (fb_result ?fb) kNoCompression ?r = (fh, r2)"
      using f p(1) fb by (simp add: write_filter_block_def Let_def)
    have pr: "good (tb_file ?r)" "tb_offset ?r = of_nat (length (all (tb_file ?r)))" using p(2,3) by simp_all
    note w' = WriteRaw [OF pr wr ok]
    have st: "stored (all (tb_file r2)) (length (all (tb_file r))) (fb_result ?fb)"
      using w'(2) stored_last [of "all (tb_file r)" "fb_result ?fb"] by simp
    have "stored_filter opt (all (tb_file r2)) bs fh"
      using p(19) st w'(1,2) p(3) Some unfolding stored_filter_def
      by (intro allI impI exI [of _ "length (all (tb_file r))"]) auto
    moreover have "filter_block r2 = Some ?fb" by (subst w'(4)) simp
    moreover have "tb_offset r2 = of_nat (length (all (tb_file r2)))" by (subst w'(4)) simp
    moreover have "r2 = r\<lparr>tb_status := tb_status r2, tb_file := tb_file r2, tb_offset := tb_offset r2, filter_block := filter_block r2\<rparr>"
      using w'(4) by (cases r, cases r2) simp
    ultimately show ?res
      using w'(2,3) Some by auto
  qed
  then show "good (tb_file r2)" "tb_offset r2 = of_nat (length (all (tb_file r2)))"
    "\<exists>X. all (tb_file r2) = all (tb_file r) @ X" "stored_filter opt (all (tb_file r2)) bs fh"
    "(filter_block r2 = None) = (filter_policy_of opt = None)"
    "r2 = r\<lparr>tb_status := tb_status r2, tb_file := tb_file r2, tb_offset := tb_offset r2, filter_block := filter_block r2\<rparr>"
    by blast+
qed

lemma stored_filter_append: "stored_filter opt D bs fh \<Longrightarrow> stored_filter opt (D @ X) bs fh"
  unfolding stored_filter_def
proof (intro allI impI, elim allE impE, assumption, elim exE conjE)
  fix pol len pos raw
  assume "in_order bs len" "len \<le> length D" "stored D pos raw" "fh = \<lparr>bh_offset = of_nat pos, bh_size = of_nat (length raw)\<rparr>"
    "raw = fb_result (FilterBlock_Finish (fold add_block (filter_blocks bs @ [(of_nat len, [])]) (new_FilterBlockBuilder pol)))"
  then show "\<exists>len pos raw. in_order bs len \<and> len \<le> length (D @ X) \<and> stored (D @ X) pos raw \<and>
      fh = \<lparr>bh_offset = of_nat pos, bh_size = of_nat (length raw)\<rparr> \<and>
      raw = fb_result (FilterBlock_Finish (fold add_block (filter_blocks bs @ [(of_nat len, [])]) (new_FilterBlockBuilder pol)))"
    using stored_append [of D pos raw X]
    by (intro exI [of _ len] exI [of _ pos] exI [of _ raw] conjI) (assumption | simp)+
qed

lemma meta_written:
  assumes "good (tb_file r2)" and "tb_offset r2 = of_nat (length (all (tb_file r2)))" and "tb_options r2 = opt"
    and "1 \<le> block_restart_interval opt" and "(filter_block r2 = None) = (filter_policy_of opt = None)"
    and m: "write_metaindex_block ops fh r2 = (mh, r3)" and "tb_ok r2" and ok: "tb_ok r3"
  shows "good (tb_file r3)" and "written (all (tb_file r3)) (meta_entries opt fh) mh"
    and "\<exists>X. all (tb_file r3) = all (tb_file r2) @ X"
    and "r3 = r2\<lparr>tb_status := tb_status r3, tb_file := tb_file r3, compressed_output := [],
      tb_offset := of_nat (length (all (tb_file r3)))\<rparr>"
proof -
  let ?fresh = "new_BlockBuilder opt"
  let ?b = "case (filter_block r2, filter_policy_of opt) of
      (Some fb, Some pol) \<Rightarrow> BlockBuilder_Add (bytes_of ''filter.'' @ policy_Name pol) (BlockHandle_EncodeTo fh []) ?fresh
    | _ \<Rightarrow> ?fresh"
  have "\<exists>shs R. built (meta_entries opt fh) shs R ?b"
  proof (cases "filter_policy_of opt")
    case None
    then show ?thesis using built_new by (auto simp: meta_entries_def split: option.split)
  next
    case (Some pol)
    then obtain fb where "filter_block r2 = Some fb" using assms(5) by auto
    then have "?b = BlockBuilder_Add (bytes_of ''filter.'' @ policy_Name pol) (BlockHandle_EncodeTo fh []) ?fresh"
      using Some by simp
    moreover have "\<exists>shs R. built ([] @ [(bytes_of ''filter.'' @ policy_Name pol, BlockHandle_EncodeTo fh [])]) shs R
        (BlockBuilder_Add (bytes_of ''filter.'' @ policy_Name pol) (BlockHandle_EncodeTo fh []) ?fresh)"
      by (rule built_Add [OF built_new]) (use assms(4) in simp)
    ultimately show ?thesis using Some by (simp only: meta_entries_def option.case append_Nil)
  qed
  then obtain shs R where bu: "built (meta_entries opt fh) shs R ?b" by blast
  obtain b' where wb: "WriteBlock ops ?b r2 = (mh, b', r3)"
  proof -
    obtain h b' r where wb: "WriteBlock ops ?b r2 = (h, b', r)" by (metis prod_cases3)
    then have "write_metaindex_block ops fh r2 = (h, r)"
      unfolding write_metaindex_block_def Let_def assms(3) using assms(7) by (simp only: if_True wb prod.case)
    then show ?thesis using that wb m by simp
  qed
  note w' = Write_block [OF assms(1,2) wb ok bu]
  show "good (tb_file r3)" "written (all (tb_file r3)) (meta_entries opt fh) mh" "\<exists>X. all (tb_file r3) = all (tb_file r2) @ X"
    "r3 = r2\<lparr>tb_status := tb_status r3, tb_file := tb_file r3, compressed_output := [],
      tb_offset := of_nat (length (all (tb_file r3)))\<rparr>"
    using w' by blast+
qed

definition finish_index :: "'s TableBuilder \<Rightarrow> 's TableBuilder" where
  "finish_index r =
     (if pending_index_entry r then
        let last_key = FindShortSuccessor (comparator_of (tb_options r)) (tb_last_key r);
            handle_encoding = BlockHandle_EncodeTo (pending_handle r) []
        in r\<lparr>tb_last_key := last_key,
             index_block := BlockBuilder_Add last_key handle_encoding (index_block r),
             pending_index_entry := False\<rparr>
      else r)"

lemma write_index_steps:
  "write_index_block ops r =
     (if tb_ok r then case WriteBlock ops (index_block (finish_index r)) (finish_index r) of
        (h, block, r) \<Rightarrow> (h, r\<lparr>index_block := block\<rparr>)
      else (new_BlockHandle, r))"
  by (simp only: write_index_block_def finish_index_def Let_def)

text \<open>The index of the finished table; the last key is followed by nothing.\<close>

lemma finish_index_built:
  assumes b: "building opt r bs ks []"
  shows "\<exists>ks' shs R. built (index_entries ks' bs) shs R (index_block (finish_index r)) \<and> length ks' = length bs \<and>
    separated ks' bs []"
proof -
  note p = building_parts [OF b]
  obtain shs R where ib: "built (index_entries ks bs) shs R (index_block r)" using p(10) by blast
  show ?thesis
  proof (cases "pending_index_entry r")
    case False
    then show ?thesis using ib p(15) p(18) [OF False] by (intro exI [of _ ks]) (auto simp: finish_index_def)
  next
    case True
    have l: "length bs = Suc (length ks)" and ph: "pending_handle r = snd (last bs)"
      and lk: "tb_last_key r = fst (last (fst (last bs)))" using p(17) [OF True] by auto
    have ne: "bs \<noteq> []" using l by auto
    have bs: "bs = butlast bs @ [last bs]" using append_butlast_last_id [OF ne] by simp
    have lb: "fst (last bs) \<noteq> []" using p(11) ne by simp
    let ?last = "last (fst (last bs))" and ?succ = "FindShortSuccessor cmp (tb_last_key r)"
    have sub: "set (fst (last bs)) \<subseteq> set (table_entries bs [])"
      using last_in_set [OF ne] by (auto simp: table_entries_def intro: bexI [of _ "last bs"])
    then have vl: "valid (fst ?last)" using p(14) lb by (meson last_in_set subsetD)
    have vs: "valid ?succ" and ge: "fst ?last = ?succ \<or> c.less (fst ?last) ?succ"
      using c.successor [OF vl] c.le_iff [OF vl, of ?succ] by (auto simp: lk)
    have below: "\<forall>e \<in> set (fst (last bs)). fst e = ?succ \<or> c.less (fst e) ?succ"
    proof
      fix e assume e: "e \<in> set (fst (last bs))"
      then have ve: "valid (fst e)" using p(14) sub by auto
      have "sorted_entries cmp (concat (map fst (butlast bs)) @ fst (last bs))"
        using p(13) unfolding table_entries_last [OF ne] .
      from block_last [OF this lb e] have "fst e = fst ?last \<or> c.less (fst e) (fst ?last)" by auto
      then show "fst e = ?succ \<or> c.less (fst e) ?succ" using ge c.less_trans [OF ve vl vs] by metis
    qed
    have lastn: "bs ! length ks = last bs" "later bs [] (length ks) = []"
      using l ne by (simp_all add: last_conv_nth later_def)
    have "separated (ks @ [?succ]) bs []"
      using p(15) below vs lastn by (auto simp: separated_def nth_append less_Suc_eq)
    moreover have "index_entries (ks @ [?succ]) bs = index_entries ks bs @ [(?succ, BlockHandle_EncodeTo (pending_handle r) [])]"
      using index_entries_snoc [of ks "butlast bs" ?succ "last bs"] index_entries_longer [of ks "butlast bs" "last bs"] l bs ph
      by simp
    then have "\<exists>shs R. built (index_entries (ks @ [?succ]) bs) shs R (index_block (finish_index r))"
      using built_Add [OF ib p(8)] True p(4,5) by (simp add: finish_index_def Let_def)
    ultimately show ?thesis using l by (intro exI [of _ "ks @ [?succ]"]) auto
  qed
qed

theorem Finish_complete:
  assumes b: "building opt r bs ks cur" and fin: "TableBuilder_Finish ops r = (s, r')" and ok: "status_ok s"
  shows "\<exists>bs' ks'. complete opt (all (tb_file r')) bs' ks' \<and> table_entries bs' [] = table_entries bs cur \<and>
    sorted_entries cmp (table_entries bs' []) \<and> (\<forall>e \<in> set (table_entries bs' []). valid (fst e))"
proof -
  obtain r1 fh r2 mh r3 ih r4 where r1: "r1 = (TableBuilder_Flush ops r)\<lparr>tb_closed := True\<rparr>"
    and f: "write_filter_block ops r1 = (fh, r2)" and m: "write_metaindex_block ops fh r2 = (mh, r3)"
    and i: "write_index_block ops r3 = (ih, r4)"
    and r': "r' = write_footer ops \<lparr>metaindex_handle = mh, index_handle = ih\<rparr> r4"
    and oks: "tb_ok r1" "tb_ok r2" "tb_ok r3" "tb_ok r4" "tb_ok r'"
    by (rule finish_ok [OF fin ok])
  have "tb_ok (TableBuilder_Flush ops r)" using oks(1) r1 by (simp add: tb_ok_def)
  then obtain bs' where b': "building opt (TableBuilder_Flush ops r) bs' ks []" "table_entries bs' [] = table_entries bs cur"
    using Flush_any [OF b] by blast
  have b1: "building opt r1 bs' ks []" using b'(1) unfolding r1 by (simp add: building_def tb_ok_def)
  note p = building_parts [OF b1]
  note fw = filter_written [OF b1 f oks(2)]
  have o2: "tb_options r2 = opt" by (subst fw(6), simp add: p(4))
  note mw = meta_written [OF fw(1,2) o2 p(6) fw(5) m oks(2,3)]
  have same: "tb_options r3 = opt" "pending_index_entry r3 = pending_index_entry r1" "tb_last_key r3 = tb_last_key r1"
    "index_block r3 = index_block r1" "pending_handle r3 = pending_handle r1"
    by (subst mw(4), subst fw(6), simp add: p(4))+
  have fi: "index_block (finish_index r3) = index_block (finish_index r1)"
    using same p(4) by (simp add: finish_index_def Let_def)
  obtain ks' shs R where ks': "built (index_entries ks' bs') shs R (index_block (finish_index r3))"
    "length ks' = length bs'" "separated ks' bs' []" using finish_index_built [OF b1] fi by auto
  obtain blk r4' where wb: "WriteBlock ops (index_block (finish_index r3)) (finish_index r3) = (ih, blk, r4')"
    and r4: "r4 = r4'\<lparr>index_block := blk\<rparr>"
  proof -
    obtain h blk q where wb: "WriteBlock ops (index_block (finish_index r3)) (finish_index r3) = (h, blk, q)" by (metis prod_cases3)
    then have "write_index_block ops r3 = (h, q\<lparr>index_block := blk\<rparr>)"
      using oks(3) by (simp only: write_index_steps if_True prod.case)
    then show ?thesis using that wb i by simp
  qed
  have fr: "tb_file (finish_index r3) = tb_file r3" "tb_offset (finish_index r3) = tb_offset r3"
    by (simp_all add: finish_index_def Let_def)
  have off3: "tb_offset r3 = of_nat (length (all (tb_file r3)))" by (subst mw(4), simp)
  have ok4: "tb_ok r4'" using oks(4) r4 by (simp add: tb_ok_def)
  note iw = Write_block [OF _ _ wb ok4 ks'(1), unfolded fr, OF mw(1) off3]
  let ?ft = "Footer_EncodeTo \<lparr>metaindex_handle = mh, index_handle = ih\<rparr> []"
  obtain t g where ap: "Append_op ops (tb_file r4') ?ft = (t, g)" by fastforce
  have okt: "status_ok t" using oks(4,5) ap r4 unfolding r' by (auto simp: write_footer_def Let_def tb_ok_def split: if_splits)
  have file': "tb_file r' = g" using oks(4) ap r4 okt unfolding r' by (simp add: write_footer_def Let_def)
  have D: "all g = all (tb_file r4') @ ?ft" using w.append_all [OF iw(3) ap okt] .
  obtain X1 X2 X3 where X: "all (tb_file r2) = all (tb_file r1) @ X1" "all (tb_file r3) = all (tb_file r2) @ X2"
    "all (tb_file r4') = all (tb_file r3) @ X3" using fw(3) mw(3) iw(5) by blast
  have "complete opt (all g) bs' ks'"
    unfolding complete_def
  proof (intro conjI exI)
    show "length ks' = length bs'" "separated ks' bs' []" using ks' by blast+
    show "\<forall>b \<in> set bs'. fst b \<noteq> [] \<and> written (all g) (fst b) (snd b)"
      using p(11) written_append unfolding D X by metis
    show "all g = all (tb_file r4') @ ?ft" by (rule D)
    show "written (all g) (index_entries ks' bs') ih" unfolding D by (rule written_append [OF iw(1)])
    show "written (all g) (meta_entries opt fh) mh" unfolding D X(3) by (intro written_append mw(2))
    show "stored_filter opt (all g) bs' fh" unfolding D X(3,2) by (intro stored_filter_append fw(4))
  qed
  then show ?thesis using file' b'(2) p(13,14) by (intro exI [of _ bs'] exI [of _ ks']) simp
qed

section \<open>Opening and reading\<close>

text \<open>The bytes of a block of entries are read by its iterator.\<close>

lemma block_of_good:
  assumes "block_of es raw" and "sorted_entries cmp es" and "\<forall>e \<in> set es. valid (fst e)" and "length raw < 2 ^ 32"
    and "contents_data x = raw"
  shows "\<exists>shs R. c.block_good es shs R (Block_NewIterator cmp (new_Block x))"
  using assms c.new_Block_good unfolding block_of_def by metis

lemma written_read:
  assumes "good_file r" and "written (content r) es h" and "length (content r) < 2 ^ 32"
  shows "\<exists>raw b. ReadBlock (rd r) options h = (Status_OK, \<lparr>contents_data = raw, cachable = b, heap_allocated = b\<rparr>) \<and>
    block_of es raw \<and> length raw < 2 ^ 32"
proof -
  obtain pos raw where s: "stored (content r) pos raw" "block_of es raw" "h = \<lparr>bh_offset = of_nat pos, bh_size = of_nat (length raw)\<rparr>"
    using assms(2) by (auto simp: written_def)
  have range: "pos + length raw + 5 \<le> length (content r)" using stored_range [OF s(1)] .
  have "unat (bh_offset h) = pos" "unat (bh_size h) = length raw"
    using s(3) range assms(3) by (simp_all add: unat_of_nat)
  then show ?thesis
    using f.ReadBlock_stored [OF assms(1), of h raw options] s(1,2) range assms(3) by auto
qed

lemma block_of_sorted_meta:
  assumes "block_of (meta_entries opt fh) raw" and "length raw < 2 ^ 32" and "contents_data x = raw"
  shows "\<exists>shs R. bytewise.block_good (meta_entries opt fh) shs R (Block_NewIterator BytewiseComparator (new_Block x))"
proof -
  have "sorted_entries BytewiseComparator (meta_entries opt fh)"
    by (simp add: meta_entries_def sorted_entries_def split: option.split)
  then show ?thesis using assms bytewise.new_Block_good unfolding block_of_def by metis
qed

text \<open>What the reader knows of its filter.\<close>

definition filter_read :: "Options \<Rightarrow> (entries \<times> BlockHandle) list \<Rightarrow> FilterBlockReader option \<Rightarrow> bool" where
  "filter_read opt bs flt \<longleftrightarrow> (case flt of None \<Rightarrow> True
     | Some fr \<Rightarrow> \<exists>pol len raw. filter_policy_of opt = Some pol \<and> in_order bs len \<and> len < 2 ^ 32 \<and> length raw < 2 ^ 32 \<and>
         fr = new_FilterBlockReader pol raw \<and>
         raw = fb_result (FilterBlock_Finish (fold add_block (filter_blocks bs @ [(of_nat len, [])]) (new_FilterBlockBuilder pol))))"

lemma ReadMeta_filter:
  assumes r: "good_file r" "length (content r) < 2 ^ 32" and mh: "written (content r) (meta_entries opt fh) mh"
    and sf: "stored_filter opt (content r) bs fh"
    and t: "t_file t = rd r" "t_options t = opt" "t_filter t = None" and footer: "metaindex_handle footer = mh"
  shows "\<exists>flt d. ReadMeta footer t = t\<lparr>t_filter := flt, filter_data := d\<rparr> \<and> filter_read opt bs flt \<and>
    (filter_policy_of opt \<noteq> None \<longrightarrow> flt \<noteq> None)"
proof (cases "filter_policy_of opt")
  case None
  then have "ReadMeta footer t = t\<lparr>t_filter := None, filter_data := filter_data t\<rparr>"
    using t by (simp add: ReadMeta_def)
  then show ?thesis using None by (intro exI conjI) (assumption, simp_all add: filter_read_def)
next
  case (Some pol)
  let ?key = "bytes_of ''filter.'' @ policy_Name pol" and ?v = "BlockHandle_EncodeTo fh []"
  have me: "meta_entries opt fh = [(?key, ?v)]" using Some by (simp add: meta_entries_def)
  obtain raw b where rb: "ReadBlock (rd r) (meta_ReadOptions opt) mh =
      (Status_OK, \<lparr>contents_data = raw, cachable = b, heap_allocated = b\<rparr>)"
    and bo: "block_of (meta_entries opt fh) raw" "length raw < 2 ^ 32"
    using written_read [OF r(1) mh r(2), of "meta_ReadOptions opt"] by blast
  let ?it = "Block_NewIterator BytewiseComparator (new_Block \<lparr>contents_data = raw, cachable = b, heap_allocated = b\<rparr>)"
  obtain shs R where g: "bytewise.block_good (meta_entries opt fh) shs R ?it"
    using block_of_sorted_meta [OF bo, of "\<lparr>contents_data = raw, cachable = b, heap_allocated = b\<rparr>"] by auto
  let ?s = "it_Seek block_Iterator ?it ?key"
  have "seek_index BytewiseComparator (meta_entries opt fh) ?key = 0"
    using bytewise.cmp_eq [of ?key ?key] by (simp add: me seek_index_def)
  then have at: "bytewise.block_position (meta_entries opt fh) shs R ?s 0"
    using bytewise_block.at_seek [OF g, of ?key] by simp
  have valid: "it_Valid block_Iterator ?s" and kv: "it_key block_Iterator ?s = ?key" "it_value block_Iterator ?s = ?v"
    using bytewise_block.at_valid [OF at] bytewise_block.at_entry [OF at] by (simp_all add: me)
  obtain len pos fraw where sf': "in_order bs len" "len \<le> length (content r)" "stored (content r) pos fraw"
    "fh = \<lparr>bh_offset = of_nat pos, bh_size = of_nat (length fraw)\<rparr>"
    "fraw = fb_result (FilterBlock_Finish (fold add_block (filter_blocks bs @ [(of_nat len, [])]) (new_FilterBlockBuilder pol)))"
    using sf Some unfolding stored_filter_def by blast
  have range: "pos + length fraw + 5 \<le> length (content r)" using stored_range [OF sf'(3)] .
  have un: "unat (bh_offset fh) = pos" "unat (bh_size fh) = length fraw"
    using sf'(4) range r(2) by (simp_all add: unat_of_nat)
  then obtain b' where rf: "ReadBlock (rd r) (meta_ReadOptions opt) fh =
      (Status_OK, \<lparr>contents_data = fraw, cachable = b', heap_allocated = b'\<rparr>)"
    using f.ReadBlock_stored [OF r(1), of fh fraw "meta_ReadOptions opt"] sf'(3) r(2) by auto
  have dec: "BlockHandle_DecodeFrom new_BlockHandle ?v = (Status_OK, fh, [])" using handle_decode [of _ fh "[]"] by simp
  have "ReadFilter pol ?v t = t\<lparr>t_filter := Some (new_FilterBlockReader pol fraw),
      filter_data := (if b' then Some fraw else filter_data t)\<rparr>"
    by (simp add: ReadFilter_def dec t rf Let_def)
  then have "ReadMeta footer t = t\<lparr>t_filter := Some (new_FilterBlockReader pol fraw),
      filter_data := (if b' then Some fraw else filter_data t)\<rparr>"
    using Some t valid kv by (simp add: ReadMeta_def footer rb Let_def slice_eq_iff)
  moreover have "filter_read opt bs (Some (new_FilterBlockReader pol fraw))"
    using Some sf'(1,2,5) r(2) range unfolding filter_read_def by (auto intro!: exI [of _ len])
  ultimately show ?thesis by blast
qed

subsection \<open>The open table\<close>

definition bpos :: "entries \<Rightarrow> block_iterator \<Rightarrow> nat \<Rightarrow> bool" where
  "bpos es it j \<longleftrightarrow> (\<exists>x. c.block_position es (fst x) (snd x) it j)"

definition bgood :: "entries \<Rightarrow> block_iterator \<Rightarrow> bool" where
  "bgood es it \<longleftrightarrow> (\<exists>x. c.block_good es (fst x) (snd x) it)"

lemma block_contract: "entry_iterator block_Iterator cmp es (bpos es) (bgood es) valid"
  unfolding bpos_def [abs_def] bgood_def [abs_def]
  by (rule entry_iterator_hide) (rule c.block_entry_iterator)

definition opened :: "Options \<Rightarrow> 'r \<Rightarrow> (entries \<times> BlockHandle) list \<Rightarrow> slice list \<Rightarrow> Table \<Rightarrow> bool" where
  "opened opt r bs ks t \<longleftrightarrow> good_file r \<and> length (content r) < 2 ^ 32 \<and> t_file t = rd r \<and> t_options t = opt \<and>
     comparator_of opt = cmp \<and> filter_read opt bs (t_filter t) \<and>
     bgood (index_entries ks bs) (Block_NewIterator cmp (t_index_block t)) \<and>
     length bs \<le> bl_size (t_index_block t) \<and> length ks = length bs \<and> separated ks bs [] \<and>
     (\<forall>b \<in> set bs. fst b \<noteq> [] \<and> written (content r) (fst b) (snd b)) \<and>
     sorted_entries cmp (table_entries bs []) \<and> (\<forall>e \<in> set (table_entries bs []). valid (fst e))"

lemma bl_size_entries: "Block_NewIterator cmp' (new_Block x) = Block_Entries i \<Longrightarrow> bl_size (new_Block x) = length (contents_data x)"
  by (auto simp: Block_NewIterator_def new_Block_def Let_def split: if_splits)

lemma block_of_length: "block_of es raw \<Longrightarrow> length es \<le> length raw"
proof -
  assume "block_of es raw"
  then obtain shs R b where b: "built es shs R b" "raw = bb_buffer (BlockBuilder_Finish b)" unfolding block_of_def by blast
  note parts = built_parts [OF b(1)]
  have "i \<le> length es \<Longrightarrow> i \<le> off shs es i" for i
  proof (induction i)
    case (Suc i)
    then show ?case using off_less [OF parts(1), of i "Suc i"] by simp
  qed simp
  then show ?thesis using block_bytes_length [OF parts(1), of R] Finish_built [OF b(1)] b(2) by force
qed

lemma index_nth: "length ks = length bs \<Longrightarrow> i < length bs \<Longrightarrow>
    index_entries ks bs ! i = (ks ! i, BlockHandle_EncodeTo (snd (bs ! i)) [])"
  by (simp add: index_entries_def)

lemma length_index: "length ks = length bs \<Longrightarrow> length (index_entries ks bs) = length bs"
  by (simp add: index_entries_def)

lemma block_in_later: "i < j \<Longrightarrow> j < length bs \<Longrightarrow> set (fst (bs ! j)) \<subseteq> set (later bs [] i)"
proof
  fix e assume j: "i < j" "j < length bs" and e: "e \<in> set (fst (bs ! j))"
  have "drop (Suc i) bs ! (j - Suc i) = bs ! j" and "j - Suc i < length (drop (Suc i) bs)" using j by auto
  then have "bs ! j \<in> set (drop (Suc i) bs)" by (metis nth_mem)
  then show "e \<in> set (later bs [] i)" using e by (auto simp: later_def)
qed

lemma index_sorted:
  assumes "length ks = length bs" and "separated ks bs []" and "\<forall>b \<in> set bs. fst b \<noteq> []"
    and val: "\<forall>e \<in> set (table_entries bs []). valid (fst e)"
  shows "sorted_entries cmp (index_entries ks bs)" and "\<forall>e \<in> set (index_entries ks bs). valid (fst e)"
proof -
  have v: "\<forall>i < length bs. valid (ks ! i)" using assms(1,2) by (simp add: separated_def)
  have "c.less (ks ! i) (ks ! j)" if ij: "i < j" "j < length bs" for i j
  proof -
    obtain e where e: "e \<in> set (fst (bs ! j))" using assms(3) ij(2) by (metis list.set_sel(1) nth_mem)
    have "c.less (ks ! i) (fst e)" using assms(1,2) ij block_in_later [OF ij] e unfolding separated_def by auto
    moreover have "fst e = ks ! j \<or> c.less (fst e) (ks ! j)" using assms(1,2) ij e unfolding separated_def by auto
    moreover have "valid (fst e)" using val block_in_table [OF ij(2), of "[]"] e by auto
    ultimately show ?thesis using c.less_trans v ij by (metis less_trans)
  qed
  then show "sorted_entries cmp (index_entries ks bs)"
    using assms(1) by (auto simp: sorted_entries_def sorted_wrt_iff_nth_less length_index index_nth c.less_def)
  show "\<forall>e \<in> set (index_entries ks bs). valid (fst e)"
    using v assms(1) by (auto simp: in_set_conv_nth length_index index_nth)
qed

lemma Open_table:
  assumes r: "good_file r" "length (content r) < 2 ^ 32" and comp: "complete opt (content r) bs ks"
    and opt: "comparator_of opt = cmp" and s: "sorted_entries cmp (table_entries bs [])"
    and v: "\<forall>e \<in> set (table_entries bs []). valid (fst e)"
  shows "\<exists>t. Table_Open opt (rd r) (of_nat (length (content r))) = (Status_OK, Some t) \<and> opened opt r bs ks t \<and>
    (filter_policy_of opt \<noteq> None \<longrightarrow> t_filter t \<noteq> None)"
proof -
  obtain fh mh ih X where l: "length ks = length bs" and sep: "separated ks bs []"
    and blocks: "\<forall>b \<in> set bs. fst b \<noteq> [] \<and> written (content r) (fst b) (snd b)"
    and D: "content r = X @ Footer_EncodeTo \<lparr>metaindex_handle = mh, index_handle = ih\<rparr> []"
    and iw: "written (content r) (index_entries ks bs) ih" and mw: "written (content r) (meta_entries opt fh) mh"
    and sf: "stored_filter opt (content r) bs fh"
    using comp unfolding complete_def by blast
  let ?footer = "\<lparr>metaindex_handle = mh, index_handle = ih\<rparr>" and ?size = "of_nat (length (content r)) :: 64 word"
  have size: "unat ?size = length (content r)" using r(2) by (simp add: unat_of_nat)
  have len: "length (content r) = length X + kEncodedLength" by (simp add: D footer_length)
  have u48: "unat (of_nat kEncodedLength :: 64 word) = kEncodedLength" by (simp add: kEncodedLength_def kMaxEncodedLength_def)
  have notless: "\<not> ?size < of_nat kEncodedLength" unfolding word_less_nat_alt size u48 using len by simp
  then have le: "of_nat kEncodedLength \<le> ?size" by (rule leI)
  have sub: "unat (?size - of_nat kEncodedLength) = length X" unfolding unat_sub [OF le] size u48 using len by simp
  obtain b where rf: "rd r (?size - of_nat kEncodedLength) (of_nat kEncodedLength) = (Status_OK, Footer_EncodeTo ?footer [], b)"
    using f.read_within [OF r(1), of "?size - of_nat kEncodedLength" "of_nat kEncodedLength"] sub u48 len D footer_length [of ?footer]
    by auto
  obtain raw b where ri: "ReadBlock (rd r) (meta_ReadOptions opt) ih = (Status_OK, \<lparr>contents_data = raw, cachable = b, heap_allocated = b\<rparr>)"
    and bo: "block_of (index_entries ks bs) raw" "length raw < 2 ^ 32"
    using written_read [OF r(1) iw r(2), of "meta_ReadOptions opt"] by blast
  let ?ix = "new_Block \<lparr>contents_data = raw, cachable = b, heap_allocated = b\<rparr>"
  let ?t = "\<lparr>t_options = opt, t_file = rd r, t_filter = None, filter_data = None, t_metaindex_handle = mh, t_index_block = ?ix\<rparr>"
  obtain flt d where rm: "ReadMeta ?footer ?t = ?t\<lparr>t_filter := flt, filter_data := d\<rparr>" and fr: "filter_read opt bs flt"
    and some: "filter_policy_of opt \<noteq> None \<longrightarrow> flt \<noteq> None"
    using ReadMeta_filter [OF r mw sf, of ?t ?footer] by auto
  have dec: "Footer_DecodeFrom f0 (Footer_EncodeTo ?footer []) = (Status_OK, ?footer, [])" for f0
    using footer_decode [of f0 ?footer "[]"] by simp
  have open_t: "Table_Open opt (rd r) ?size = (Status_OK, Some (?t\<lparr>t_filter := flt, filter_data := d\<rparr>))"
    using notless by (simp add: Table_Open_def rf dec ri rm)
  note isort = index_sorted [OF l sep _ v]
  have "\<exists>shs R. c.block_good (index_entries ks bs) shs R (Block_NewIterator cmp ?ix)"
    using block_of_good [OF bo(1) isort bo(2)] blocks by simp
  then obtain shs R where g: "c.block_good (index_entries ks bs) shs R (Block_NewIterator cmp ?ix)" by blast
  then have bg: "bgood (index_entries ks bs) (Block_NewIterator cmp ?ix)" unfolding bgood_def by (intro exI [of _ "(shs, R)"]) simp
  obtain i where "Block_NewIterator cmp ?ix = Block_Entries i" using g unfolding c.block_good_def by blast
  then have "bl_size ?ix = length raw" using bl_size_entries by fastforce
  then have "length bs \<le> bl_size ?ix" using block_of_length [OF bo(1)] by (simp add: length_index [OF l])
  then have "opened opt r bs ks (?t\<lparr>t_filter := flt, filter_data := d\<rparr>)"
    unfolding opened_def using r opt fr bg l sep blocks s v by simp
  then show ?thesis using open_t some by auto
qed

subsection \<open>Reading an open table\<close>

lemma handle_inj: "BlockHandle_EncodeTo h [] = BlockHandle_EncodeTo h' [] \<Longrightarrow> h = h'"
  using handle_decode [of undefined h "[]"] handle_decode [of undefined h' "[]"] by simp

definition block_named :: "(entries \<times> BlockHandle) list \<Rightarrow> slice \<Rightarrow> entries" where
  "block_named bs v = (case find (\<lambda>b. BlockHandle_EncodeTo (snd b) [] = v) bs of Some b \<Rightarrow> fst b | None \<Rightarrow> [])"

lemma block_of_table:
  assumes "b \<in> set bs" and "sorted_entries cmp (table_entries bs [])" and "\<forall>e \<in> set (table_entries bs []). valid (fst e)"
  shows "sorted_entries cmp (fst b)" and "\<forall>e \<in> set (fst b). valid (fst e)"
proof -
  obtain A B where "bs = A @ b # B" using split_list [OF assms(1)] by blast
  then show "sorted_entries cmp (fst b)" "\<forall>e \<in> set (fst b). valid (fst e)"
    using assms(2,3) by (simp_all add: table_entries_def sorted_entries_def sorted_wrt_append)
qed

lemma BlockReader_reads:
  assumes o: "opened opt r bs ks t" and b: "b \<in> set bs"
  shows "\<exists>x raw. BlockReader t ro (BlockHandle_EncodeTo (snd b) []) = Block_NewIterator cmp (new_Block x) \<and>
    contents_data x = raw \<and> block_of (fst b) raw \<and> length raw < 2 ^ 32"
proof -
  have w: "written (content r) (fst b) (snd b)" and r: "good_file r" "length (content r) < 2 ^ 32" "t_file t = rd r"
    "comparator_of (t_options t) = cmp" using o b unfolding opened_def by auto
  obtain raw c where "ReadBlock (rd r) ro (snd b) = (Status_OK, \<lparr>contents_data = raw, cachable = c, heap_allocated = c\<rparr>)"
    "block_of (fst b) raw" "length raw < 2 ^ 32" using written_read [OF r(1) w r(2), of ro] by blast
  moreover have "BlockHandle_DecodeFrom new_BlockHandle (BlockHandle_EncodeTo (snd b) []) = (Status_OK, snd b, [])"
    using handle_decode [of _ "snd b" "[]"] by simp
  ultimately show ?thesis
    using r by (intro exI [of _ "\<lparr>contents_data = raw, cachable = c, heap_allocated = c\<rparr>"] exI [of _ raw])
      (simp add: BlockReader_def)
qed

lemma BlockReader_good:
  assumes o: "opened opt r bs ks t" and b: "b \<in> set bs"
  shows "bgood (fst b) (BlockReader t ro (BlockHandle_EncodeTo (snd b) []))"
proof -
  have s: "sorted_entries cmp (table_entries bs [])" "\<forall>e \<in> set (table_entries bs []). valid (fst e)"
    using o unfolding opened_def by blast+
  obtain x raw where x: "BlockReader t ro (BlockHandle_EncodeTo (snd b) []) = Block_NewIterator cmp (new_Block x)"
    "contents_data x = raw" "block_of (fst b) raw" "length raw < 2 ^ 32" using BlockReader_reads [OF o b] by blast
  obtain shs R where "c.block_good (fst b) shs R (Block_NewIterator cmp (new_Block x))"
    using block_of_good [OF x(3) block_of_table [OF b s] x(4,2)] by blast
  then show ?thesis unfolding x(1) bgood_def by (intro exI [of _ "(shs, R)"]) simp
qed

text \<open>Two blocks of one handle are the same bytes, so they hold the same entries.\<close>

lemma bgood_unique: "bgood es it \<Longrightarrow> bgood es' it \<Longrightarrow> es = es'"
proof -
  assume g: "bgood es it" "bgood es' it"
  let ?n = "max (length es) (length es')"
  have "read_forward block_Iterator ?n (it_SeekToFirst block_Iterator it) = es"
    by (rule entry_iterator.reads_all [OF block_contract g(1)]) simp
  moreover have "read_forward block_Iterator ?n (it_SeekToFirst block_Iterator it) = es'"
    by (rule entry_iterator.reads_all [OF block_contract g(2)]) simp
  ultimately show ?thesis by simp
qed

lemma block_named_eq:
  assumes o: "opened opt r bs ks t" and b: "b \<in> set bs"
  shows "block_named bs (BlockHandle_EncodeTo (snd b) []) = fst b"
proof -
  let ?P = "\<lambda>c. BlockHandle_EncodeTo (snd c) [] = BlockHandle_EncodeTo (snd b) []"
  have "find ?P bs \<noteq> None" using b unfolding find_None_iff by blast
  then obtain c where c: "find ?P bs = Some c" by auto
  then have cs: "c \<in> set bs" "?P c" by (auto simp: find_Some_iff)
  have "fst c = fst b"
    using bgood_unique [OF BlockReader_good [OF o cs(1)] BlockReader_good [OF o b, folded cs(2)]] .
  then show ?thesis using c by (simp add: block_named_def)
qed

lemma table_two_level:
  assumes o: "opened opt r bs ks t"
  shows "two_level block_Iterator cmp (index_entries ks bs) (bpos (index_entries ks bs)) (bgood (index_entries ks bs)) valid
    block_Iterator (BlockReader t ro) (block_named bs) (\<lambda>v. bpos (block_named bs v)) (\<lambda>v. bgood (block_named bs v))"
proof -
  have l: "length ks = length bs" and sep: "separated ks bs []" and v: "\<forall>e \<in> set (table_entries bs []). valid (fst e)"
    using o unfolding opened_def by blast+
  have at: "index_entries ks bs ! i = (ks ! i, BlockHandle_EncodeTo (snd (bs ! i)) [])"
    "block_named bs (BlockHandle_EncodeTo (snd (bs ! i)) []) = fst (bs ! i)" "valid (ks ! i)" if "i < length bs" for i
    using that index_nth [OF l that] block_named_eq [OF o nth_mem [OF that]] sep l by (simp_all add: separated_def)
  show ?thesis
  proof (intro two_level.intro block_contract two_level_axioms.intro)
    fix e assume "e \<in> set (index_entries ks bs)"
    then obtain i where i: "i < length bs" "e = index_entries ks bs ! i" by (auto simp: in_set_conv_nth length_index [OF l])
    show "bgood (block_named bs (snd e)) (BlockReader t ro (snd e))"
      using BlockReader_good [OF o nth_mem [OF i(1)]] at [OF i(1)] i(2) by simp
  next
    fix x e i
    assume x: "valid x" and i: "i < length (index_entries ks bs)" and lt: "Compare cmp (fst (index_entries ks bs ! i)) x < 0"
      and e: "e \<in> set (block_named bs (snd (index_entries ks bs ! i)))"
    have i': "i < length bs" using i length_index [OF l] by simp
    have e': "e \<in> set (fst (bs ! i))" "c.less (ks ! i) x" using e lt at [OF i'] by (simp_all add: c.less_def)
    have "fst e = ks ! i \<or> c.less (fst e) (ks ! i)" using sep e' i' l unfolding separated_def by auto
    moreover have "valid (fst e)" using v block_in_table [OF i', of "[]"] e'(1) by auto
    ultimately show "Compare cmp (fst e) x < 0" using c.less_trans [OF _ at(3) [OF i'] x] e'(2) by (auto simp: c.less_def)
  next
    fix x e i j
    assume x: "valid x" and ij: "i < j" and j: "j < length (index_entries ks bs)"
      and lt: "\<not> Compare cmp (fst (index_entries ks bs ! i)) x < 0" and e: "e \<in> set (block_named bs (snd (index_entries ks bs ! j)))"
    have j': "j < length bs" "i < length bs" using ij j length_index [OF l] by simp_all
    have e': "e \<in> set (fst (bs ! j))" "\<not> c.less (ks ! i) x" using e lt at [OF j'(1)] at [OF j'(2)] by (simp_all add: c.less_def)
    have "c.less (ks ! i) (fst e)" using sep block_in_later [OF ij j'(1)] e' j' l unfolding separated_def by auto
    moreover have "valid (fst e)" using v block_in_table [OF j'(1), of "[]"] e'(1) by auto
    ultimately show "\<not> Compare cmp (fst e) x < 0" using c.less_trans [OF at(3) [OF j'(2)] _ x] e'(2) by (auto simp: c.less_def)
  qed
qed

lemma table_blocks:
  assumes o: "opened opt r bs ks t"
  shows "two_level.all_entries (index_entries ks bs) (block_named bs) = table_entries bs []"
proof -
  have l: "length ks = length bs" using o unfolding opened_def by blast
  have "map (\<lambda>e. block_named bs (snd e)) (index_entries ks bs) = map fst bs"
    using index_nth [OF l] length_index [OF l] block_named_eq [OF o nth_mem]
    by (intro nth_equalityI) simp_all
  then show ?thesis by (simp add: two_level.all_entries_def [OF table_two_level [OF o]] table_entries_def)
qed

lemma table_reads:
  assumes o: "opened opt r bs ks t" and n: "length (table_entries bs []) \<le> n"
  shows "read_forward table_Iterator n (it_SeekToFirst table_Iterator (Table_NewIterator t ro)) = table_entries bs []"
    and "read_backward table_Iterator n (it_SeekToLast table_Iterator (Table_NewIterator t ro)) = rev (table_entries bs [])"
    and "valid target \<Longrightarrow> read_forward table_Iterator n (it_Seek table_Iterator (Table_NewIterator t ro) target) =
      dropWhile (\<lambda>e. Compare cmp (fst e) target < 0) (table_entries bs [])"
    and "status_ok (it_status table_Iterator (Table_NewIterator t ro))"
proof -
  note tl = table_two_level [OF o, of ro]
  note contract = two_level.tl_keeps_contract [OF tl, unfolded table_blocks [OF o]]
  have b: "bgood (index_entries ks bs) (Block_NewIterator cmp (t_index_block t))" "length bs \<le> bl_size (t_index_block t)"
    "length ks = length bs" "comparator_of (t_options t) = cmp" using o unfolding opened_def by auto
  have w: "wrapped block_Iterator (w_Set block_Iterator (Some i) w)" for i w by simp
  have g: "two_level.tl_good block_Iterator (index_entries ks bs) (bgood (index_entries ks bs)) block_Iterator (BlockReader t ro)
      (\<lambda>v. bgood (block_named bs v)) (Table_NewIterator t ro)"
    using b w by (simp add: two_level.tl_good_def [OF tl] Table_NewIterator_def NewTwoLevelIterator_def length_index)
      (simp add: new_Wrapper_def)
  show "read_forward table_Iterator n (it_SeekToFirst table_Iterator (Table_NewIterator t ro)) = table_entries bs []"
    by (rule entry_iterator.reads_all [OF contract g n])
  show "read_backward table_Iterator n (it_SeekToLast table_Iterator (Table_NewIterator t ro)) = rev (table_entries bs [])"
    by (rule entry_iterator.reads_back [OF contract g n])
  show "valid target \<Longrightarrow> read_forward table_Iterator n (it_Seek table_Iterator (Table_NewIterator t ro) target) =
      dropWhile (\<lambda>e. Compare cmp (fst e) target < 0) (table_entries bs [])"
    by (rule entry_iterator.reads_from_target [OF contract g _ n])
  show "status_ok (it_status table_Iterator (Table_NewIterator t ro))" by (rule entry_iterator.good_status [OF contract g])
qed

subsection \<open>Point lookups\<close>

lemma seek_found:
  assumes "sorted_entries cmp es" and "\<forall>e \<in> set es. valid (fst e)" and "j < length es"
  shows "seek_index cmp es (fst (es ! j)) = j"
proof -
  have "takeWhile (\<lambda>e. Compare cmp (fst e) (fst (es ! j)) < 0) es = take j es"
  proof (rule takeWhile_eq_take_P_nth)
    fix i assume "i < j" "i < length es"
    then show "Compare cmp (fst (es ! i)) (fst (es ! j)) < 0"
      using sorted_wrt_nth_less [OF assms(1) [unfolded sorted_entries_def] _ assms(3)] by simp
  next
    show "\<not> Compare cmp (fst (es ! j)) (fst (es ! j)) < 0"
      using c.less_irrefl [of "fst (es ! j)"] assms(2,3) by (simp add: c.less_def)
  qed
  then show ?thesis using assms(3) by (simp add: seek_index_def)
qed

text \<open>
  A lookup \<open>x\<close> is near to an entry when no shortened key below the entry is above \<open>x\<close>, and when the
  filters do not tell them apart.
\<close>

definition near :: "Options \<Rightarrow> slice \<Rightarrow> slice \<Rightarrow> bool" where
  "near opt x k \<longleftrightarrow> valid x \<and> (\<forall>s. valid s \<longrightarrow> far s k \<longrightarrow> c.less s x) \<and>
     (\<forall>pol. filter_policy_of opt = Some pol \<longrightarrow> filter_policy pol \<and> KeyMayMatch pol x = KeyMayMatch pol k)"

lemma near_self: "valid k \<Longrightarrow> (\<And>pol. filter_policy_of opt = Some pol \<Longrightarrow> filter_policy pol) \<Longrightarrow> near opt k k"
  using far_less by (simp add: near_def c.less_def)

text \<open>The first entry at or behind a target, and the ones before it.\<close>

lemma first_entry:
  assumes "sorted_entries cmp es" and "\<forall>e \<in> set es. valid (fst e)" and "seek_index cmp es x < length es"
  defines "e \<equiv> es ! seek_index cmp es x"
  shows "\<not> c.less (fst e) x" and "y \<in> set es \<Longrightarrow> c.less (fst y) (fst e) \<Longrightarrow> c.less (fst y) x"
proof -
  let ?P = "\<lambda>e. Compare cmp (fst e) x < 0" and ?p = "seek_index cmp es x"
  show "\<not> c.less (fst e) x"
    using nth_length_takeWhile [of ?P es] assms(3) by (simp add: seek_index_def e_def c.less_def)
  assume y: "y \<in> set es" "c.less (fst y) (fst e)"
  obtain q where q: "q < length es" "es ! q = y" using y(1) by (metis in_set_conv_nth)
  have "q < ?p"
  proof (rule ccontr)
    assume "\<not> q < ?p"
    then consider "q = ?p" | "?p < q" by linarith
    then have "\<not> c.less (fst y) (fst e)"
    proof cases
      case 1
      then show ?thesis using q c.less_irrefl [of "fst y"] assms(2) y(1) by (simp add: e_def)
    next
      case 2
      then have "c.less (fst e) (fst y)"
        using sorted_wrt_nth_less [OF assms(1) [unfolded sorted_entries_def] _ q(1)] q(2) by (simp add: e_def c.less_def)
      then show ?thesis using c.less_asym assms(2,3) y(1) by (simp add: e_def)
    qed
    then show False using y(2) by simp
  qed
  then have "y = takeWhile ?P es ! q" using q by (simp add: seek_index_def takeWhile_nth)
  then have "y \<in> set (takeWhile ?P es)" using \<open>q < ?p\<close> by (simp add: seek_index_def)
  then show "c.less (fst y) x" by (auto simp: c.less_def dest: set_takeWhileD)
qed

text \<open>The index leads to the block of the first entry at or behind a near target.\<close>

lemma key_block:
  assumes o: "opened opt r bs ks t" and x: "near opt x (fst e)"
    and p: "seek_index cmp (table_entries bs []) x < length (table_entries bs [])"
    and e: "e = table_entries bs [] ! seek_index cmp (table_entries bs []) x"
  shows "seek_index cmp (index_entries ks bs) x < length bs"
    and "e \<in> set (fst (bs ! seek_index cmp (index_entries ks bs) x))"
proof -
  have l: "length ks = length bs" and sep: "separated ks bs []" and v: "\<forall>e \<in> set (table_entries bs []). valid (fst e)"
    and s: "sorted_entries cmp (table_entries bs [])" and ne: "\<forall>b \<in> set bs. fst b \<noteq> []"
    using o unfolding opened_def by blast+
  note first = first_entry [OF s v p, folded e]
  have e_in: "e \<in> set (table_entries bs [])" using p e by simp
  then obtain i where i: "i < length bs" "e \<in> set (fst (bs ! i))"
    unfolding table_entries_def by (auto simp: in_set_conv_nth [of _ bs])
  have ve: "valid (fst e)" and vx: "valid x" using v e_in x by (simp_all add: near_def)
  have "takeWhile (\<lambda>y. Compare cmp (fst y) x < 0) (index_entries ks bs) = take i (index_entries ks bs)"
  proof (rule takeWhile_eq_take_P_nth)
    fix j assume j: "j < i" "j < length (index_entries ks bs)"
    let ?last = "last (fst (bs ! j))"
    have last: "?last \<in> set (table_entries bs [])" using ne block_in_table [of j bs "[]"] j(1) i(1) by (auto intro!: last_in_set)
    have k: "c.less (ks ! j) (fst e)" "ks ! j = fst ?last \<or> far (ks ! j) (fst e)" "valid (ks ! j)"
      using sep subsetD [OF block_in_later [OF j(1) i(1)] i(2)] i j(1) l unfolding separated_def by auto
    have "c.less (ks ! j) x"
      using k(2)
    proof
      assume "ks ! j = fst ?last"
      then show ?thesis using first(2) [OF last] k(1) by simp
    next
      assume "far (ks ! j) (fst e)"
      then show ?thesis using x k(3) by (simp add: near_def)
    qed
    then show "Compare cmp (fst (index_entries ks bs ! j)) x < 0" using j(1) i(1) l by (simp add: index_nth c.less_def)
  next
    have k: "fst e = ks ! i \<or> c.less (fst e) (ks ! i)" "valid (ks ! i)" using sep i l unfolding separated_def by auto
    then have "\<not> c.less (ks ! i) x" using first(1) c.less_trans [OF ve k(2) vx] by auto
    then show "\<not> Compare cmp (fst (index_entries ks bs ! i)) x < 0" using i(1) l by (simp add: index_nth c.less_def)
  qed
  then have "seek_index cmp (index_entries ks bs) x = i" using i(1) length_index [OF l] by (simp add: seek_index_def)
  then show "seek_index cmp (index_entries ks bs) x < length bs"
    "e \<in> set (fst (bs ! seek_index cmp (index_entries ks bs) x))" using i by simp_all
qed

lemma filter_admits:
  assumes "filter_read opt bs (Some flt)" and near: "near opt x (fst e)"
    and "b \<in> set bs" and "e \<in> set (fst b)"
  shows "FilterBlock_KeyMayMatch flt (bh_offset (snd b)) x"
proof -
  obtain pol len raw where p: "filter_policy_of opt = Some pol" and ord: "in_order bs len" "len < 2 ^ 32"
    and raw: "length raw < 2 ^ 32" "flt = new_FilterBlockReader pol raw"
    "raw = fb_result (FilterBlock_Finish (fold add_block (filter_blocks bs @ [(of_nat len, [])]) (new_FilterBlockBuilder pol)))"
    using assms(1) unfolding filter_read_def by auto
  let ?blocks = "filter_blocks bs @ [(of_nat len, [])]"
  obtain ps where ps: "map (\<lambda>b. bh_offset (snd b)) bs = map of_nat ps" "sorted (ps @ [len])"
    using ord(1) unfolding in_order_def by blast
  have "map fst ?blocks = map of_nat (ps @ [len])" using ps(1) by (simp add: filter_blocks_def comp_def)
  then have "map (\<lambda>x. offset_index (fst x)) ?blocks = map (\<lambda>p. offset_index (of_nat p)) (ps @ [len])"
    by (metis (no_types, lifting) map_map comp_def map_eq_conv)
  also have "\<dots> = map (\<lambda>p. p div 2048) (ps @ [len])"
  proof (rule map_cong [OF refl])
    fix p assume "p \<in> set (ps @ [len])"
    then have "p \<le> len" using ps(2) by (auto simp: sorted_append)
    then show "offset_index (of_nat p) = p div 2048" using ord(2) by (simp add: offset_index_def unat_of_nat)
  qed
  also have "sorted \<dots>" using ps(2) by (auto simp: sorted_append sorted_map div_le_mono elim!: sorted_wrt_mono_rel [rotated])
  finally have s: "sorted (map (\<lambda>x. offset_index (fst x)) ?blocks)" .
  have pol: "filter_policy pol" "KeyMayMatch pol x = KeyMayMatch pol (fst e)" using near p by (simp_all add: near_def)
  have "rpolicy flt = pol" by (simp add: raw(2) new_FilterBlockReader_def Let_def)
  then have "FilterBlock_KeyMayMatch flt (bh_offset (snd b)) x = FilterBlock_KeyMayMatch flt (bh_offset (snd b)) (fst e)"
    using pol(2) by (simp add: FilterBlock_KeyMayMatch_def)
  also have "FilterBlock_KeyMayMatch flt (bh_offset (snd b)) (fst e)"
    unfolding raw(2,3)
  proof (rule filter_policy.filter_block_complete [OF pol(1) s])
    show "length (fb_result (FilterBlock_Finish (fold add_block ?blocks (new_FilterBlockBuilder pol)))) < 2 ^ 32"
      using raw(1,3) by simp
    show "(bh_offset (snd b), map fst (fst b)) \<in> set ?blocks" using assms(3) by (auto simp: filter_blocks_def)
    show "fst e \<in> set (map fst (fst b))" using assms(4) by simp
  qed
  finally show ?thesis .
qed

text \<open>A lookup answers OK with nothing, or with the first entry at or behind the key.\<close>

lemma InternalGet_result:
  assumes o: "opened opt r bs ks t" and k: "valid k"
  defines "es \<equiv> table_entries bs []"
  shows "\<exists>res. InternalGet t ro k = (Status_OK, res) \<and>
    (\<forall>e. res = Some e \<longrightarrow> seek_index cmp es k < length es \<and> e = es ! seek_index cmp es k) \<and>
    (seek_index cmp es k < length es \<longrightarrow> near opt k (fst (es ! seek_index cmp es k)) \<longrightarrow> res \<noteq> None)"
proof -
  let ?ies = "index_entries ks bs" and ?i = "seek_index cmp (index_entries ks bs) k"
  have l: "length ks = length bs" and cmp: "comparator_of (t_options t) = cmp" and fr: "filter_read opt bs (t_filter t)"
    and bg: "bgood ?ies (Block_NewIterator cmp (t_index_block t))" using o unfolding opened_def by auto
  note tl = table_two_level [OF o, of ro]
  let ?ix = "it_Seek block_Iterator (Block_NewIterator cmp (t_index_block t)) k"
  have at: "bpos ?ies ?ix ?i" by (rule entry_iterator.at_seek [OF block_contract bg k])
  have st: "it_status block_Iterator ?ix = Status_OK"
    using entry_iterator.good_status [OF block_contract entry_iterator.at_good [OF block_contract at]]
    by (simp add: status_ok_def Status_OK_def)
  have valid: "it_Valid block_Iterator ?ix \<longleftrightarrow> ?i < length bs"
    using entry_iterator.at_valid [OF block_contract at] length_index [OF l] by simp
  show ?thesis
  proof (cases "?i < length bs")
    case False
    then have "InternalGet t ro k = (Status_OK, None)" using valid st cmp by (simp add: InternalGet_def status_ok_def Status_OK_def)
    then show ?thesis using key_block(1) [OF o _ _ refl] False unfolding es_def by auto
  next
    case True
    let ?b = "bs ! ?i"
    have b: "?b \<in> set bs" using True by simp
    have val: "it_value block_Iterator ?ix = BlockHandle_EncodeTo (snd ?b) []"
      using entry_iterator.at_entry [OF block_contract at] True length_index [OF l] index_nth [OF l True] by simp
    have dec: "BlockHandle_DecodeFrom new_BlockHandle (BlockHandle_EncodeTo (snd ?b) []) = (Status_OK, snd ?b, [])"
      using handle_decode [of _ "snd ?b" "[]"] by simp
    let ?it = "it_Seek block_Iterator (BlockReader t ro (BlockHandle_EncodeTo (snd ?b) [])) k"
    let ?j = "seek_index cmp (fst ?b) k"
    have bat: "bpos (fst ?b) ?it ?j" by (rule entry_iterator.at_seek [OF block_contract BlockReader_good [OF o b] k])
    have bst: "it_status block_Iterator ?it = Status_OK"
      using entry_iterator.good_status [OF block_contract entry_iterator.at_good [OF block_contract bat]]
      by (simp add: status_ok_def Status_OK_def)
    have bvalid: "it_Valid block_Iterator ?it \<longleftrightarrow> ?j < length (fst ?b)" by (rule entry_iterator.at_valid [OF block_contract bat])
    let ?denied = "case t_filter t of None \<Rightarrow> False | Some flt \<Rightarrow> \<not> FilterBlock_KeyMayMatch flt (bh_offset (snd ?b)) k"
    have get: "InternalGet t ro k = (Status_OK,
        if ?denied \<or> ?j \<ge> length (fst ?b) then None else Some (fst ?b ! ?j))"
      using True valid st cmp val dec bst bvalid entry_iterator.at_entry [OF block_contract bat]
      by (auto simp: InternalGet_def Let_def status_ok_def Status_OK_def split: option.splits)
    have named: "two_level.block ?ies (block_named bs) ?i = fst ?b"
      using block_named_eq [OF o b] index_nth [OF l True] by (simp add: two_level.block_def [OF tl])
    have pos: "seek_index cmp es k = two_level.start ?ies (block_named bs) ?i + ?j"
      using two_level.seek_position [OF tl k] True length_index [OF l] named
      by (simp add: table_blocks [OF o] es_def)
    have inb: "two_level.start ?ies (block_named bs) ?i + ?j < length es \<and>
        es ! (two_level.start ?ies (block_named bs) ?i + ?j) = fst ?b ! ?j" if "?j < length (fst ?b)"
      using two_level.entry_in_range [OF tl, of ?i ?j] two_level.entry_at [OF tl, of ?i ?j] that True length_index [OF l] named
      by (simp add: table_blocks [OF o] es_def)
    have found: "?j < length (fst ?b) \<and> \<not> ?denied"
      if p: "seek_index cmp es k < length es" and near: "near opt k (fst (es ! seek_index cmp es k))"
    proof -
      let ?e = "es ! seek_index cmp es k"
      have eb: "?e \<in> set (fst ?b)" using key_block(2) [OF o near [unfolded es_def] p [unfolded es_def] refl] by (simp add: es_def)
      have "sorted_entries cmp es" "\<forall>e \<in> set es. valid (fst e)" using o unfolding opened_def es_def by blast+
      then have "\<not> Compare cmp (fst ?e) k < 0" using first_entry(1) [OF _ _ p] by (simp add: c.less_def)
      then have "?j \<noteq> length (fst ?b)" using eb unfolding seek_index_def by (metis set_takeWhileD takeWhile_eq_take take_all_iff le_refl)
      then have "?j < length (fst ?b)" using seek_index_le [of cmp "fst ?b" k] by simp
      moreover have "\<not> ?denied"
        using fr filter_admits [OF _ near b eb] by (auto split: option.splits)
      ultimately show ?thesis ..
    qed
    show ?thesis
      unfolding get
    proof (intro exI conjI)
      show "\<forall>e. (if ?denied \<or> ?j \<ge> length (fst ?b) then None else Some (fst ?b ! ?j)) = Some e \<longrightarrow>
          seek_index cmp es k < length es \<and> e = es ! seek_index cmp es k"
        using inb pos by (auto split: if_splits)
      show "seek_index cmp es k < length es \<longrightarrow> near opt k (fst (es ! seek_index cmp es k)) \<longrightarrow>
          (if ?denied \<or> ?j \<ge> length (fst ?b) then None else Some (fst ?b ! ?j)) \<noteq> None"
      proof (intro impI)
        assume a: "seek_index cmp es k < length es" "near opt k (fst (es ! seek_index cmp es k))"
        have "\<not> (?denied \<or> ?j \<ge> length (fst ?b))" using found [OF a] by simp
        then show "(if ?denied \<or> ?j \<ge> length (fst ?b) then None else Some (fst ?b ! ?j)) \<noteq> None" by simp
      qed
    qed simp
  qed
qed

subsection \<open>From the writer to the reader\<close>

lemma store_opens:
  assumes "good d" and "all d = []" and "comparator_of opt = cmp" and "1 \<le> block_restart_interval opt"
    and s: "sorted_entries cmp es" and v: "\<forall>e \<in> set es. valid (fst e)"
    and fin: "TableBuilder_Finish ops (table_add es (new_TableBuilder opt d)) = (s, tb)" "status_ok s"
    and g: "good_file g" "content g = all (tb_file tb)" "length (content g) < 2 ^ 32"
  shows "\<exists>bs ks t. Table_Open opt (rd g) (of_nat (length (content g))) = (Status_OK, Some t) \<and> opened opt g bs ks t \<and>
    table_entries bs [] = es"
proof -
  let ?r = "table_add es (new_TableBuilder opt d)"
  have ok: "tb_ok ?r"
  proof (rule ccontr)
    assume "\<not> tb_ok ?r"
    moreover have "tb_ok (TableBuilder_Flush ops ?r)"
      by (rule finish_ok [OF fin]) (simp add: tb_ok_def)
    ultimately show False using Flush_stuck by metis
  qed
  obtain bs ks cur where b: "building opt ?r bs ks cur" "table_entries bs cur = es"
    using table_add_building [OF building_new [OF assms(1-4)] _ v ok] s by (auto simp: table_entries_def)
  obtain bs' ks' where c: "complete opt (content g) bs' ks'" "table_entries bs' [] = es"
    "sorted_entries cmp (table_entries bs' [])" "\<forall>e \<in> set (table_entries bs' []). valid (fst e)"
    using Finish_complete [OF b(1) fin] b(2) g(2) by auto
  show ?thesis using Open_table [OF g(1,3) c(1) assms(3) c(3,4)] c(2) by blast
qed

text \<open>What the reader of a table of \<open>es\<close> answers.\<close>

lemma find_first: "List.find (\<lambda>e. \<not> Compare cmp (fst e) x < 0) es =
    (if seek_index cmp es x < length es then Some (es ! seek_index cmp es x) else None)"
  by (induction es) (auto simp: seek_index_def)

lemma store_serves:
  assumes o: "opened opt g bs ks t" and es: "table_entries bs [] = es" and n: "length es \<le> n" and x: "valid x"
  shows "read_forward table_Iterator n (it_SeekToFirst table_Iterator (Table_NewIterator t ro)) = es \<and>
    read_backward table_Iterator n (it_SeekToLast table_Iterator (Table_NewIterator t ro)) = rev es \<and>
    read_forward table_Iterator n (it_Seek table_Iterator (Table_NewIterator t ro) x) =
      dropWhile (\<lambda>e. Compare cmp (fst e) x < 0) es \<and>
    (InternalGet t ro x = (Status_OK, None) \<or>
     InternalGet t ro x = (Status_OK, List.find (\<lambda>e. \<not> Compare cmp (fst e) x < 0) es))"
proof (intro conjI)
  note n' = n [folded es]
  show "read_forward table_Iterator n (it_SeekToFirst table_Iterator (Table_NewIterator t ro)) = es"
    "read_backward table_Iterator n (it_SeekToLast table_Iterator (Table_NewIterator t ro)) = rev es"
    using table_reads(1,2) [OF o n'] es by simp_all
  show "read_forward table_Iterator n (it_Seek table_Iterator (Table_NewIterator t ro) x) =
      dropWhile (\<lambda>e. Compare cmp (fst e) x < 0) es"
    using table_reads(3) [OF o n' x] es by simp
  obtain res where res: "InternalGet t ro x = (Status_OK, res)"
    "\<forall>e. res = Some e \<longrightarrow> seek_index cmp es x < length es \<and> e = es ! seek_index cmp es x"
    using InternalGet_result [OF o x, of ro] es by blast
  then show "InternalGet t ro x = (Status_OK, None) \<or>
      InternalGet t ro x = (Status_OK, List.find (\<lambda>e. \<not> Compare cmp (fst e) x < 0) es)"
    by (cases res) (simp_all add: find_first)
qed

lemma store_finds:
  assumes o: "opened opt g bs ks t" and es: "table_entries bs [] = es"
    and e: "List.find (\<lambda>e. \<not> Compare cmp (fst e) x < 0) es = Some e" and near: "near opt x (fst e)"
  shows "InternalGet t ro x = (Status_OK, Some e)"
proof -
  have p: "seek_index cmp es x < length es" "e = es ! seek_index cmp es x"
    using e unfolding find_first by (auto split: if_splits)
  obtain res where res: "InternalGet t ro x = (Status_OK, res)" "\<forall>e. res = Some e \<longrightarrow> e = es ! seek_index cmp es x"
    "seek_index cmp es x < length es \<longrightarrow> near opt x (fst (es ! seek_index cmp es x)) \<longrightarrow> res \<noteq> None"
    using InternalGet_result [OF o, of x ro] near es by (auto simp: near_def)
  then show ?thesis using p near by auto
qed

lemma store_finds_key:
  assumes o: "opened opt g bs ks t" and es: "table_entries bs [] = es" and e: "e \<in> set es"
    and pol: "\<And>pol. filter_policy_of opt = Some pol \<Longrightarrow> filter_policy pol"
  shows "InternalGet t ro (fst e) = (Status_OK, Some e)"
proof (rule store_finds [OF o es])
  have s: "sorted_entries cmp es" "\<forall>e \<in> set es. valid (fst e)" using o es unfolding opened_def by blast+
  then show "near opt (fst e) (fst e)" using near_self pol e by blast
  obtain j where j: "j < length es" "es ! j = e" using e by (metis in_set_conv_nth)
  show "List.find (\<lambda>y. \<not> Compare cmp (fst y) (fst e) < 0) es = Some e"
    using seek_found [OF s j(1)] j unfolding find_first by simp
qed

end

end
