(* ===== verification/Ldb_Table_Props.thy ===== *)
theory Ldb_Table_Props
  imports Ldb_Table_Facts
begin

text \<open>
  Tables written to and read from POSIX files, with the bytewise and with the internal comparator: writing
  succeeds on a kernel that does not fail, a table is read as it was written, and a lookup at a snapshot
  finds the newest version.
\<close>

section \<open>Tables in POSIX files\<close>

text \<open>A file that answers reads within \<open>D\<close>; a mapped file and one read with \<^verbatim>\<open>pread\<close> do.\<close>

definition readable :: "random_file \<times> byte list \<Rightarrow> bool" where
  "readable r \<longleftrightarrow> (\<forall>offset n. unat offset + unat n \<le> length (snd r) \<longrightarrow>
     (\<exists>b. fst r offset n = (Status_OK, take (unat n) (drop (unat offset) (snd r)), b)))"

interpretation any_file: random_access_file fst readable snd
  by unfold_locales (simp add: readable_def)

lemma readable_mapped:
  "length D < 2 ^ 64 \<Longrightarrow> mmap_length m = of_nat (length D) \<Longrightarrow> readable (mmap_file k m D, D)"
  using mapped.read_within [of "(k, m, D)"] by (simp add: readable_def mmap_good_def)

lemma readable_positioned:
  "answers k = [] \<Longrightarrow> readable (\<lambda>offset n. fst (RandomAccess_Read p k offset n), ra_disk p)"
  using positioned.read_within [of "(p, k)"] by (simp add: readable_def)

interpretation user_table: table_store posix_writable buffer_ok contents disk BytewiseComparator "\<lambda>_. True"
    fst readable snd "\<lambda>a b. Compare BytewiseComparator a b < 0"
proof unfold_locales
  fix a l
  assume "Compare BytewiseComparator a l < 0"
  then show "FindShortestSeparator BytewiseComparator a l = a \<or>
      Compare BytewiseComparator (FindShortestSeparator BytewiseComparator a l) l < 0"
    using bytewise.separator by blast
next
  fix a b c
  show "Compare BytewiseComparator a b < 0 \<Longrightarrow> Compare BytewiseComparator b c < 0 \<Longrightarrow> Compare BytewiseComparator a c < 0"
    using bytewise.cmp_trans by blast
qed

abbreviation user_less :: "slice \<Rightarrow> slice \<Rightarrow> bool" where
  "user_less a b \<equiv> slice_compare (ExtractUserKey a) (ExtractUserKey b) < 0"

lemma internal_less: "Compare (InternalKeyComparator BytewiseComparator) a b < 0 \<longleftrightarrow>
    user_less a b \<or> ExtractUserKey a = ExtractUserKey b \<and> key_number b < key_number a"
proof -
  have self: "slice_compare k k = 0" for k by (simp add: slice_compare_eq)
  have "Compare (InternalKeyComparator BytewiseComparator) a b =
      (if slice_compare (ExtractUserKey a) (ExtractUserKey b) = 0
       then (if key_number a > key_number b then -1 else if key_number a < key_number b then 1 else 0)
       else slice_compare (ExtractUserKey a) (ExtractUserKey b))"
    by (simp add: InternalKeyComparator_def Internal_Compare_number Let_def BytewiseComparator_def)
  then show ?thesis
    by (cases "ExtractUserKey a = ExtractUserKey b") (simp_all add: slice_compare_eq self)
qed

interpretation internal_table: table_store posix_writable buffer_ok contents disk
    "InternalKeyComparator BytewiseComparator" bytewise.ikey fst readable snd user_less
proof unfold_locales
  fix a l
  assume less: "Compare (InternalKeyComparator BytewiseComparator) a l < 0"
  let ?u = "ExtractUserKey a" and ?v = "ExtractUserKey l"
  show "FindShortestSeparator (InternalKeyComparator BytewiseComparator) a l = a \<or>
      user_less (FindShortestSeparator (InternalKeyComparator BytewiseComparator) a l) l"
  proof (cases "?u = ?v")
    case True
    then show ?thesis
      by (simp add: InternalKeyComparator_def Internal_Separator_def Let_def BytewiseComparator_def bytewise_separator_same)
  next
    case False
    then have "slice_compare ?u ?v < 0" using less by (simp add: internal_less)
    then have "slice_compare (Bytewise_Separator ?u ?v) ?v < 0" using bytewise_separator by blast
    then show ?thesis
      by (simp add: InternalKeyComparator_def Internal_Separator_def Let_def BytewiseComparator_def ExtractUserKey_Put)
  qed
next
  fix a b c
  show "user_less a b \<Longrightarrow> Compare (InternalKeyComparator BytewiseComparator) a b < 0" by (simp add: internal_less)
  show "user_less a b \<Longrightarrow> Compare (InternalKeyComparator BytewiseComparator) b c < 0 \<Longrightarrow> user_less a c"
    using slice_compare_trans by (auto simp: internal_less)
qed

section \<open>Writing a table succeeds\<close>

definition writing :: "PosixWritableFile TableBuilder \<Rightarrow> bool" where
  "writing r \<longleftrightarrow> tb_ok r \<and> healthy (tb_file r) \<and> buffer_ok (tb_file r)"

lemma append_writing:
  assumes "healthy f" and "buffer_ok f" and "Append_op posix_writable f x = (s, f')"
  shows "status_ok s \<and> healthy f' \<and> buffer_ok f' \<and> contents f' = contents f @ x"
  using assms Posix_Append_healthy [of f x s f'] posix_w.append_good [OF assms(2,3)] posix_w.append_all [OF assms(2,3)]
  by (simp add: posix_writable_def)

lemma raw_writing:
  assumes "writing r" and "WriteRawBlock posix_writable raw ty r = (h, r')"
  shows "writing r'" and "length (contents (tb_file r')) = length (contents (tb_file r)) + length raw + 5"
    and "r' = r\<lparr>tb_status := tb_status r', tb_file := tb_file r', tb_offset := tb_offset r'\<rparr>"
proof -
  let ?t = "compression_code ty # EncodeFixed32 (Mask (Extend (crc32c_Value 0 raw) 0 [compression_code ty]))"
  obtain s1 f1 where a1: "Append_op posix_writable (tb_file r) raw = (s1, f1)" by fastforce
  note g1 = append_writing [OF _ _ a1]
  obtain s2 f2 where a2: "Append_op posix_writable f1 ?t = (s2, f2)" by fastforce
  note g2 = append_writing [OF _ _ a2]
  have r: "tb_ok r" "healthy (tb_file r)" "buffer_ok (tb_file r)" using assms(1) by (simp_all add: writing_def)
  have r': "r' = r\<lparr>tb_status := s2, tb_file := f2, tb_offset := tb_offset r + of_nat (length raw + 5)\<rparr>"
    using assms(2) g1 g2 r by (simp add: WriteRawBlock_def Let_def a1 a2 kBlockTrailerSize_def)
  show "writing r'" "length (contents (tb_file r')) = length (contents (tb_file r)) + length raw + 5"
    "r' = r\<lparr>tb_status := tb_status r', tb_file := tb_file r', tb_offset := tb_offset r'\<rparr>"
    using g1 g2 r by (simp_all add: r' writing_def tb_ok_def)
qed

lemma block_writing:
  assumes "writing r" and "WriteBlock posix_writable b r = (h, b', r')"
  shows "writing r'" and "length (contents (tb_file r')) = length (contents (tb_file r)) + length (bb_buffer (BlockBuilder_Finish b)) + 5"
    and "b' = BlockBuilder_Reset (BlockBuilder_Finish b)"
    and "r' = r\<lparr>tb_status := tb_status r', tb_file := tb_file r', tb_offset := tb_offset r', compressed_output := []\<rparr>"
proof -
  obtain h1 r1 where wr: "WriteRawBlock posix_writable (bb_buffer (BlockBuilder_Finish b)) kNoCompression r = (h1, r1)" by fastforce
  have e: "b' = BlockBuilder_Reset (BlockBuilder_Finish b)" "r' = r1\<lparr>compressed_output := []\<rparr>"
    using assms(2) wr by (auto simp: WriteBlock_def Let_def Snappy_Compress_def split: CompressionType.splits)
  note w = raw_writing [OF assms(1) wr]
  show "b' = BlockBuilder_Reset (BlockBuilder_Finish b)" by (rule e(1))
  show "writing r'" "length (contents (tb_file r')) = length (contents (tb_file r)) + length (bb_buffer (BlockBuilder_Finish b)) + 5"
    using w(1,2) by (simp_all add: e(2) writing_def tb_ok_def)
  show "r' = r\<lparr>tb_status := tb_status r', tb_file := tb_file r', tb_offset := tb_offset r', compressed_output := []\<rparr>"
    using w(3) unfolding e(2) by (cases r, cases r1) simp
qed

lemma flush_writing: "writing r \<Longrightarrow> writing (TableBuilder_Flush posix_writable r)"
proof -
  assume r: "writing r"
  obtain h b r1 where wb: "WriteBlock posix_writable (data_block r) r = (h, b, r1)" by (metis prod_cases3)
  note w = block_writing [OF r wb]
  obtain s f where fl: "Flush_op posix_writable (tb_file r1) = (s, f)" by fastforce
  have "status_ok s \<and> healthy f \<and> buffer_ok f"
    using w(1) fl FlushBuffer_healthy [of "tb_file r1" s f] posix_w.flush_good [OF _ fl]
    by (simp add: writing_def posix_writable_def Posix_Flush_def)
  then show ?thesis
    using r w(1) fl by (simp add: TableBuilder_Flush_def Let_def wb writing_def tb_ok_def)
qed

lemma add_writing: "writing r \<Longrightarrow> writing (TableBuilder_Add posix_writable k v r)"
proof -
  assume r: "writing r"
  let ?r = "user_table.tb_put k v (user_table.tb_index k r)"
  have "writing ?r" using r by (simp add: writing_def tb_ok_def user_table.tb_put_def user_table.tb_index_def Let_def)
  then show ?thesis using r flush_writing by (simp add: user_table.Add_steps Let_def)
qed

lemma adds_writing: "writing r \<Longrightarrow> writing (fold (\<lambda>e. TableBuilder_Add posix_writable (fst e) (snd e)) es r)"
  by (induction es arbitrary: r) (simp_all add: add_writing)

lemma filter_writing:
  assumes r: "writing r" and w: "write_filter_block posix_writable r = (h, r')"
  shows "writing r'"
proof (cases "filter_block r")
  case None
  then have "write_filter_block posix_writable r = (new_BlockHandle, r)" using r by (simp add: write_filter_block_def writing_def)
  then show ?thesis using r w by simp
next
  case (Some fb)
  have "writing (r\<lparr>filter_block := Some (FilterBlock_Finish fb)\<rparr>)" using r by (simp add: writing_def tb_ok_def)
  moreover have "WriteRawBlock posix_writable (fb_result (FilterBlock_Finish fb)) kNoCompression
      (r\<lparr>filter_block := Some (FilterBlock_Finish fb)\<rparr>) = (h, r')"
    using r w Some unfolding writing_def by (simp only: write_filter_block_def Let_def if_True option.case)
  ultimately show ?thesis by (rule raw_writing(1))
qed

lemma meta_writing: "writing r \<Longrightarrow> write_metaindex_block posix_writable fh r = (h, r') \<Longrightarrow> writing r'"
proof -
  assume r: "writing r" and m: "write_metaindex_block posix_writable fh r = (h, r')"
  let ?b = "case (filter_block r, filter_policy_of (tb_options r)) of
      (Some fb, Some pol) \<Rightarrow> BlockBuilder_Add (bytes_of ''filter.'' @ policy_Name pol) (BlockHandle_EncodeTo fh [])
        (new_BlockBuilder (tb_options r))
    | _ \<Rightarrow> new_BlockBuilder (tb_options r)"
  obtain h1 b' q where wb: "WriteBlock posix_writable ?b r = (h1, b', q)" by (metis prod_cases3)
  have "tb_ok r" using r by (simp add: writing_def)
  then have "write_metaindex_block posix_writable fh r = (h1, q)"
    unfolding write_metaindex_block_def Let_def by (simp only: if_True wb [unfolded prod.case] prod.case)
  then show "writing r'" using block_writing(1) [OF r wb] m by simp
qed

lemma index_writing: "writing r \<Longrightarrow> write_index_block posix_writable r = (h, r') \<Longrightarrow> writing r'"
proof -
  assume r: "writing r" and w: "write_index_block posix_writable r = (h, r')"
  have "writing (user_table.finish_index r)" using r by (simp add: writing_def tb_ok_def user_table.finish_index_def Let_def)
  moreover obtain h1 b q where wb: "WriteBlock posix_writable (index_block (user_table.finish_index r))
      (user_table.finish_index r) = (h1, b, q)" by (metis prod_cases3)
  ultimately have "writing q" using block_writing(1) by blast
  moreover have "r' = q\<lparr>index_block := b\<rparr>"
    using r w by (simp add: user_table.write_index_steps writing_def wb)
  ultimately show ?thesis by (simp add: writing_def tb_ok_def)
qed

lemma footer_writing: "writing r \<Longrightarrow> writing (write_footer posix_writable ft r)"
proof -
  assume r: "writing r"
  obtain s f where a: "Append_op posix_writable (tb_file r) (Footer_EncodeTo ft []) = (s, f)" by fastforce
  show ?thesis using append_writing [OF _ _ a] r by (simp add: write_footer_def Let_def a writing_def tb_ok_def)
qed

lemma finish_writing: "writing r \<Longrightarrow> TableBuilder_Finish posix_writable r = (s, r') \<Longrightarrow> status_ok s"
proof -
  assume r: "writing r" and fin: "TableBuilder_Finish posix_writable r = (s, r')"
  let ?r1 = "(TableBuilder_Flush posix_writable r)\<lparr>tb_closed := True\<rparr>"
  have w1: "writing ?r1" using flush_writing [OF r] by (simp add: writing_def tb_ok_def)
  obtain fh r2 where f: "write_filter_block posix_writable ?r1 = (fh, r2)" by fastforce
  obtain mh r3 where m: "write_metaindex_block posix_writable fh r2 = (mh, r3)" by fastforce
  obtain ih r4 where i: "write_index_block posix_writable r3 = (ih, r4)" by fastforce
  let ?q = "write_footer posix_writable \<lparr>metaindex_handle = mh, index_handle = ih\<rparr> r4"
  have "writing ?q"
    by (rule footer_writing [OF index_writing [OF meta_writing [OF filter_writing [OF w1 f] m] i]])
  moreover have "TableBuilder_Finish posix_writable r = (tb_status ?q, ?q)"
    by (simp add: TableBuilder_Finish_def Let_def f m i)
  ultimately show ?thesis using fin by (simp add: writing_def tb_ok_def)
qed

lemma user_table_written:
  assumes "healthy d" and "buffer_ok d"
  shows "status_ok (fst (TableBuilder_Finish posix_writable
    (fold (\<lambda>e. TableBuilder_Add posix_writable (fst e) (snd e)) es (new_TableBuilder opt d))))"
proof -
  have "writing (new_TableBuilder opt d)"
    using assms by (simp add: writing_def tb_ok_def new_TableBuilder_def new_Rep_def Let_def)
  from finish_writing [OF adds_writing [OF this] surjective_pairing] show ?thesis .
qed

text \<open>Building a table succeeds when the kernel does no worse than interrupt or shorten writes: whatever is
  added, in whatever order, \<^verbatim>\<open>Finish\<close> answers OK.
\<close>

theorem table_written:
  assumes "healthy d" and "buffer_ok d"
  shows "status_ok (fst (TableBuilder_Finish posix_writable
    (fold (\<lambda>e. TableBuilder_Add posix_writable (fst e) (snd e)) es (new_TableBuilder opt d))))"
  by (rule user_table_written [OF assms])

section \<open>Reading a table\<close>

text \<open>C7:
  A table is read as it was written.  Entries are added in the order of the comparator, bytewise or
  internal, with any options and with no filter, the Bloom filter or its form for internal keys; when
  \<^verbatim>\<open>Finish\<close> answers OK and the file is below 4 GB, a reader of its bytes, mapped or read with \<^verbatim>\<open>pread\<close>,
  opens it.  Its iterator reads all entries forwards and backwards and from any place, a lookup of a
  key of the table finds its entry, filter or not, and any other lookup finds nothing or the first
  entry at or behind its target.
\<close>

theorem table_roundtrip:
  assumes "TableBuilder_Finish posix_writable
      (fold (\<lambda>e. TableBuilder_Add posix_writable (fst e) (snd e)) es (new_TableBuilder opt d)) = (s, tb)"
    and "status_ok s" and "disk d = []" and "buf d = []" and "1 \<le> block_restart_interval opt"
    and "sorted_entries (comparator_of opt) es"
    and cmp: "comparator_of opt = BytewiseComparator \<or>
      comparator_of opt = InternalKeyComparator BytewiseComparator \<and> (\<forall>k \<in> insert x (fst ` set es). 8 \<le> length k)"
    and pol: "filter_policy_of opt \<in> {None, Some (NewBloomFilterPolicy b), Some (InternalFilterPolicy (NewBloomFilterPolicy b))}"
    and "D = contents (tb_file tb)" and "length D < 2 ^ 32" and "readable (file, D)" and "length es \<le> n"
  shows "\<exists>t. Table_Open opt file (of_nat (length D)) = (Status_OK, Some t) \<and>
    read_forward table_Iterator n (it_SeekToFirst table_Iterator (Table_NewIterator t ro)) = es \<and>
    read_backward table_Iterator n (it_SeekToLast table_Iterator (Table_NewIterator t ro)) = rev es \<and>
    read_forward table_Iterator n (it_Seek table_Iterator (Table_NewIterator t ro) x) =
      dropWhile (\<lambda>e. Compare (comparator_of opt) (fst e) x < 0) es \<and>
    (InternalGet t ro x = (Status_OK, None) \<or>
     InternalGet t ro x = (Status_OK, List.find (\<lambda>e. \<not> Compare (comparator_of opt) (fst e) x < 0) es)) \<and>
    (\<forall>e \<in> set es. InternalGet t ro (fst e) = (Status_OK, Some e))"
proof -
  have d: "buffer_ok d" "contents d = []" using assms(3,4) by (simp_all add: buffer_ok_def contents_def)
  have sound: "filter_policy p" if "filter_policy_of opt = Some p" for p
    using pol that bloom.filter_policy_axioms internal_bloom.filter_policy_axioms by auto
  have g: "readable (file, D)" "snd (file, D) = contents (tb_file tb)" "length (snd (file, D)) < 2 ^ 32"
    using assms(9-11) by simp_all
  show ?thesis
    using cmp
  proof (elim disjE conjE)
    assume c: "comparator_of opt = BytewiseComparator"
    have w: "sorted_entries BytewiseComparator es"
      "TableBuilder_Finish posix_writable (user_table.table_add es (new_TableBuilder opt d)) = (s, tb)"
      using assms(1,6) by (simp_all add: user_table.table_add_def c)
    obtain bs ks t where t: "Table_Open opt file (of_nat (length D)) = (Status_OK, Some t)"
      "user_table.opened opt (file, D) bs ks t" "user_table.table_entries bs [] = es"
      using user_table.store_opens [OF d c assms(5) w(1) _ w(2) assms(2) g] by auto
    show ?thesis
      using user_table.store_serves [OF t(2,3) assms(12), where ro = ro and x = x] user_table.store_finds_key [OF t(2,3) _ sound, where ro = ro] t(1)
      unfolding c by blast
  next
    assume c: "comparator_of opt = InternalKeyComparator BytewiseComparator" and k: "\<forall>k \<in> insert x (fst ` set es). 8 \<le> length k"
    have w: "sorted_entries (InternalKeyComparator BytewiseComparator) es"
      "TableBuilder_Finish posix_writable (internal_table.table_add es (new_TableBuilder opt d)) = (s, tb)"
      using assms(1,6) by (simp_all add: internal_table.table_add_def c)
    have v: "\<forall>e \<in> set es. bytewise.ikey (fst e)" "bytewise.ikey x" using k by (simp_all add: bytewise.ikey_def)
    obtain bs ks t where t: "Table_Open opt file (of_nat (length D)) = (Status_OK, Some t)"
      "internal_table.opened opt (file, D) bs ks t" "internal_table.table_entries bs [] = es"
      using internal_table.store_opens [OF d c assms(5) w(1) v(1) w(2) assms(2) g] by auto
    show ?thesis
      using internal_table.store_serves [OF t(2,3) assms(12) v(2), where ro = ro] internal_table.store_finds_key [OF t(2,3) _ sound, where ro = ro] t(1)
      unfolding c by blast
  qed
qed

lemma key_parts:
  "ExtractUserKey (AppendInternalKey [] k) = user_key (k :: ParsedInternalKey)"
  "key_number (AppendInternalKey [] k) = PackSequenceAndType (sequence k) (value_type k)"
  "bytewise.ikey (AppendInternalKey [] k)"
  by (simp_all add: AppendInternalKey_def ExtractUserKey_Put key_number_Put bytewise.ikey_Put)

lemma key_less: "Compare (InternalKeyComparator BytewiseComparator) (AppendInternalKey [] a) (AppendInternalKey [] b) < 0 \<longleftrightarrow>
    slice_compare (user_key a) (user_key b) < 0 \<or> user_key a = user_key (b :: ParsedInternalKey) \<and>
    PackSequenceAndType (sequence b) (value_type b) < PackSequenceAndType (sequence a) (value_type a)"
  by (simp add: internal_less key_parts)

text \<open>The newest version at a snapshot is the first entry at or behind the lookup key.\<close>

lemma newest_first:
  fixes p :: ParsedInternalKey
  assumes s: "sorted_entries (InternalKeyComparator BytewiseComparator) (map (\<lambda>q. (AppendInternalKey [] (fst q), snd q)) vs)"
    and seq: "\<forall>q \<in> set vs. sequence (fst q) \<le> kMaxSequenceNumber" and snap: "snapshot \<le> kMaxSequenceNumber"
    and e: "(p, v) \<in> set vs" "sequence p \<le> snapshot"
    and newest: "\<forall>q \<in> set vs. user_key (fst q) = user_key p \<and> sequence (fst q) \<le> snapshot \<and> fst q \<noteq> p \<longrightarrow>
      sequence (fst q) < sequence p"
  shows "List.find (\<lambda>e. \<not> Compare (InternalKeyComparator BytewiseComparator) (fst e)
      (LookupKey_internal_key (new_LookupKey (user_key p) snapshot)) < 0)
    (map (\<lambda>q. (AppendInternalKey [] (fst q), snd q)) vs) = Some (AppendInternalKey [] p, v)"
proof -
  let ?x = "\<lparr>user_key = user_key p, sequence = snapshot, value_type = kTypeValue\<rparr>"
  obtain i where i: "i < length vs" "vs ! i = (p, v)" using e(1) by (metis in_set_conv_nth)
  have "sequence p \<le> kMaxSequenceNumber" using seq e(1) by fastforce
  then have here: "\<not> Compare (InternalKeyComparator BytewiseComparator) (AppendInternalKey [] p) (AppendInternalKey [] ?x) < 0"
    using Pack_le [OF _ snap, of "sequence p" "value_type p"] e(2) slice_compare_eq [of "user_key p" "user_key p"]
    by (simp add: key_less not_less)
  have before: "Compare (InternalKeyComparator BytewiseComparator) (AppendInternalKey [] (fst (vs ! j))) (AppendInternalKey [] ?x) < 0"
    if j: "j < i" for j
  proof -
    let ?q = "fst (vs ! j)"
    have q: "vs ! j \<in> set vs" "sequence ?q \<le> kMaxSequenceNumber" using j i(1) seq by simp_all
    have "Compare (InternalKeyComparator BytewiseComparator) (AppendInternalKey [] ?q) (AppendInternalKey [] p) < 0"
      using sorted_wrt_nth_less [OF s [unfolded sorted_entries_def], of j i] j i by simp
    then consider "slice_compare (user_key ?q) (user_key p) < 0"
      | "user_key ?q = user_key p" "PackSequenceAndType (sequence p) (value_type p) < PackSequenceAndType (sequence ?q) (value_type ?q)"
      unfolding key_less by blast
    then show ?thesis
    proof cases
      case 1
      then show ?thesis by (simp add: key_less)
    next
      case 2
      then have "?q \<noteq> p" by auto
      have "\<not> sequence ?q < sequence p"
        using 2(2) Pack_order [of "sequence ?q" "sequence p" "value_type ?q" "value_type p"] q(2) \<open>sequence p \<le> kMaxSequenceNumber\<close> by force
      then have "\<not> sequence ?q \<le> snapshot" using newest q(1) 2(1) \<open>?q \<noteq> p\<close> by blast
      then have "PackSequenceAndType snapshot kTypeValue < PackSequenceAndType (sequence ?q) (value_type ?q)"
        using Pack_le [OF q(2) snap, of "value_type ?q"] by (meson not_le)
      then show ?thesis using 2(1) by (simp add: key_less)
    qed
  qed
  show ?thesis
    unfolding lookup_key find_Some_iff
    by (rule exI [of _ i]) (use i here before in auto)
qed

text \<open>C13:
  A lookup at a snapshot finds the newest version of its key.  In a table of internal keys, with the
  Bloom filter for internal keys or without one, the lookup with the key that \<^verbatim>\<open>LookupKey\<close> makes of a
  user key and a sequence number answers OK and the version of that user key with the greatest
  sequence number not above it, although the index keys are shortened and the target itself need not be
  in the table.
\<close>

theorem newest_version_found:
  fixes p :: ParsedInternalKey
  assumes es_def: "es = map (\<lambda>q. (AppendInternalKey [] (fst q), snd q)) vs"
    and "TableBuilder_Finish posix_writable
      (fold (\<lambda>e. TableBuilder_Add posix_writable (fst e) (snd e)) es (new_TableBuilder opt d)) = (s, tb)"
    and "status_ok s" and "disk d = []" and "buf d = []" and "1 \<le> block_restart_interval opt"
    and c: "comparator_of opt = InternalKeyComparator BytewiseComparator" and sorted: "sorted_entries (comparator_of opt) es"
    and pol: "filter_policy_of opt \<in> {None, Some (InternalFilterPolicy (NewBloomFilterPolicy b))}"
    and "D = contents (tb_file tb)" and "length D < 2 ^ 32" and "readable (file, D)"
    and seq: "\<forall>q \<in> set vs. sequence (fst q) \<le> kMaxSequenceNumber" and snap: "snapshot \<le> kMaxSequenceNumber"
    and e: "(p, v) \<in> set vs" "sequence p \<le> snapshot"
    and newest: "\<forall>q \<in> set vs. user_key (fst q) = user_key p \<and> sequence (fst q) \<le> snapshot \<and> fst q \<noteq> p \<longrightarrow>
      sequence (fst q) < sequence p"
  shows "\<exists>t. Table_Open opt file (of_nat (length D)) = (Status_OK, Some t) \<and>
    InternalGet t ro (LookupKey_internal_key (new_LookupKey (user_key p) snapshot)) =
      (Status_OK, Some (AppendInternalKey [] p, v))"
proof -
  let ?x = "LookupKey_internal_key (new_LookupKey (user_key p) snapshot)"
  have d: "buffer_ok d" "contents d = []" using assms(4,5) by (simp_all add: buffer_ok_def contents_def)
  have g: "readable (file, D)" "snd (file, D) = contents (tb_file tb)" "length (snd (file, D)) < 2 ^ 32"
    using assms(10-12) by simp_all
  have w: "sorted_entries (InternalKeyComparator BytewiseComparator) es" "\<forall>e \<in> set es. bytewise.ikey (fst e)"
    "TableBuilder_Finish posix_writable (internal_table.table_add es (new_TableBuilder opt d)) = (s, tb)"
    using assms(2) sorted by (auto simp: internal_table.table_add_def c es_def key_parts)
  obtain bs ks t where t: "Table_Open opt file (of_nat (length D)) = (Status_OK, Some t)"
    "internal_table.opened opt (file, D) bs ks t" "internal_table.table_entries bs [] = es"
    using internal_table.store_opens [OF d c assms(6) w assms(3) g] by auto
  have near: "internal_table.near opt ?x (AppendInternalKey [] p)"
    unfolding internal_table.near_def
  proof (intro conjI allI impI)
    show "bytewise.ikey ?x" by (simp add: lookup_key key_parts)
    fix k assume "user_less k (AppendInternalKey [] p)"
    then show "bytewise.ikc.less k ?x" by (simp add: bytewise.ikc.less_def internal_less lookup_key key_parts)
  next
    fix f assume f: "filter_policy_of opt = Some f"
    then show "filter_policy f" using pol internal_bloom.filter_policy_axioms by auto
    show "KeyMayMatch f ?x = KeyMayMatch f (AppendInternalKey [] p)"
      using pol f by (auto simp: InternalFilterPolicy_def lookup_key key_parts)
  qed
  have "InternalGet t ro ?x = (Status_OK, Some (AppendInternalKey [] p, v))"
    by (rule internal_table.store_finds [OF t(2,3)])
      (use newest_first [OF w(1) [unfolded es_def] seq snap e newest] near in \<open>simp_all add: es_def\<close>)
  then show ?thesis using t(1) by blast
qed

section \<open>Witnesses\<close>

text \<open>How large the file of a table with one block can get.\<close>

lemma varint_length: "length (EncodeVarint32 v) \<le> 5"
  by (simp add: EncodeVarint32_def)

lemma Finish_length: "length (bb_buffer (BlockBuilder_Finish b)) = length (bb_buffer b) + 4 * length (bb_restarts b) + 4"
proof -
  have "length (fold (\<lambda>r x. PutFixed32 x r) rs xs) = length xs + 4 * length rs" for rs xs
    by (induction rs arbitrary: xs) (simp_all add: PutFixed32_def)
  then show ?thesis by (simp add: BlockBuilder_Finish_def Let_def PutFixed32_def)
qed

lemma Add_length: "length (bb_buffer (BlockBuilder_Finish (BlockBuilder_Add k v b))) \<le>
    length (bb_buffer (BlockBuilder_Finish b)) + length k + length v + 19"
proof (cases "bb_counter b < block_restart_interval (bb_options b)")
  case True
  let ?s = "common_prefix (bb_last_key b) k"
  have "length (bb_buffer (BlockBuilder_Finish (BlockBuilder_Add k v b))) = length (bb_buffer (BlockBuilder_Finish b)) +
      (length (EncodeVarint32 (of_nat ?s)) + length (EncodeVarint32 (of_nat (length k - ?s))) +
       length (EncodeVarint32 (of_nat (length v))) + (length k - ?s) + length v)"
    using True by (simp add: BlockBuilder_Add_def Let_def PutVarint32_def Finish_length)
  then show ?thesis
    using varint_length [of "of_nat ?s"] varint_length [of "of_nat (length k - ?s)"] varint_length [of "of_nat (length v)"] by linarith
next
  case False
  have "length (bb_buffer (BlockBuilder_Finish (BlockBuilder_Add k v b))) = length (bb_buffer (BlockBuilder_Finish b)) + 4 +
      (length (EncodeVarint32 0) + length (EncodeVarint32 (of_nat (length k))) +
       length (EncodeVarint32 (of_nat (length v))) + length k + length v)"
    using False by (simp add: BlockBuilder_Add_def Let_def PutVarint32_def Finish_length)
  then show ?thesis
    using varint_length [of 0] varint_length [of "of_nat (length k)"] varint_length [of "of_nat (length v)"] by linarith
qed

lemma finish_size:
  assumes r: "writing r" and fin: "TableBuilder_Finish posix_writable r = (s, r')" and none: "filter_block r = None"
  shows "length (contents (tb_file r')) \<le> length (contents (tb_file r)) +
    length (bb_buffer (BlockBuilder_Finish (data_block r))) + length (bb_buffer (BlockBuilder_Finish (index_block r))) +
    length (FindShortSuccessor (comparator_of (tb_options r)) (tb_last_key r)) + 110"
proof -
  let ?r0 = "TableBuilder_Flush posix_writable r"
  let ?r1 = "?r0\<lparr>tb_closed := True\<rparr>"
  have w1: "writing ?r1" using flush_writing [OF r] by (simp add: writing_def tb_ok_def)
  obtain h b q where wb: "WriteBlock posix_writable (data_block r) r = (h, b, q)" by (metis prod_cases3)
  note wr = block_writing [OF r wb]
  obtain s' f where fl: "Flush_op posix_writable (tb_file q) = (s', f)" by fastforce
  have okf: "status_ok s'" "contents f = contents (tb_file q)"
    using wr(1) fl FlushBuffer_healthy [of "tb_file q" s' f] posix_w.flush_all [OF _ fl]
    by (simp_all add: writing_def posix_writable_def Posix_Flush_def)
  have qf: "index_block q = index_block r" "filter_block q = None" "tb_options q = tb_options r" "tb_last_key q = tb_last_key r"
    by (subst wr(4), simp add: none)+
  have r0: "length (contents (tb_file ?r0)) \<le> length (contents (tb_file r)) + length (bb_buffer (BlockBuilder_Finish (data_block r))) + 5"
    "index_block ?r0 = index_block r" "filter_block ?r0 = None" "tb_options ?r0 = tb_options r" "tb_last_key ?r0 = tb_last_key r"
    using r wr(1,2) okf qf none by (simp_all add: TableBuilder_Flush_def Let_def wb fl writing_def tb_ok_def)
  obtain mh r3 where m: "write_metaindex_block posix_writable new_BlockHandle ?r1 = (mh, r3)" by fastforce
  obtain mh' mb r3' where mb: "WriteBlock posix_writable (new_BlockBuilder (tb_options ?r1)) ?r1 = (mh', mb, r3')" by (metis prod_cases3)
  have "r3 = r3'" using m mb w1 r0(3) by (simp add: write_metaindex_block_def writing_def)
  note mw = block_writing [OF w1 mb, folded this]
  have ml: "length (bb_buffer (BlockBuilder_Finish (new_BlockBuilder opt))) = 8" for opt
    by (simp add: Finish_length) (simp add: new_BlockBuilder_def)
  obtain ih r4 where i: "write_index_block posix_writable r3 = (ih, r4)" by fastforce
  let ?f3 = "user_table.finish_index r3"
  have w3: "writing ?f3" using mw(1) by (simp add: writing_def tb_ok_def user_table.finish_index_def Let_def)
  obtain ih' ib q4 where ib: "WriteBlock posix_writable (index_block ?f3) ?f3 = (ih', ib, q4)" by (metis prod_cases3)
  have r4: "r4 = q4\<lparr>index_block := ib\<rparr>" using i ib mw(1) by (simp add: user_table.write_index_steps writing_def)
  note iw = block_writing [OF w3 ib]
  have r3: "index_block r3 = index_block r" "tb_options r3 = tb_options r" "tb_last_key r3 = tb_last_key r"
    by (subst mw(4), simp add: r0)+
  have il: "length (bb_buffer (BlockBuilder_Finish (index_block ?f3))) \<le> length (bb_buffer (BlockBuilder_Finish (index_block r))) +
      length (FindShortSuccessor (comparator_of (tb_options r)) (tb_last_key r)) + 39"
    using Add_length [of "FindShortSuccessor (comparator_of (tb_options r)) (tb_last_key r)"
        "BlockHandle_EncodeTo (pending_handle r3) []" "index_block r"] handle_length [of "pending_handle r3"] r3
    by (simp add: user_table.finish_index_def Let_def kMaxEncodedLength_def)
  have f3: "tb_file ?f3 = tb_file r3" by (simp add: user_table.finish_index_def Let_def)
  obtain t g where ap: "Append_op posix_writable (tb_file r4) (Footer_EncodeTo \<lparr>metaindex_handle = mh, index_handle = ih\<rparr> []) = (t, g)"
    by fastforce
  have w4: "writing r4" using iw(1) r4 by (simp add: writing_def tb_ok_def)
  note aw = append_writing [OF _ _ ap]
  have "r' = write_footer posix_writable \<lparr>metaindex_handle = mh, index_handle = ih\<rparr> r4"
    using fin w1 r0(3) m i by (simp add: TableBuilder_Finish_def Let_def write_filter_block_def writing_def)
  then have "tb_file r' = g" using w4 aw by (simp add: write_footer_def Let_def ap writing_def)
  then have "length (contents (tb_file r')) = length (contents (tb_file r4)) + 48"
    using w4 aw by (simp add: writing_def footer_length kEncodedLength_def kMaxEncodedLength_def)
  then show ?thesis using iw(2) il mw(2) ml r0(1) f3 r4 by simp
qed

text \<open>A small table, without filters.\<close>

definition small_file :: PosixWritableFile where
  "small_file = new_PosixWritableFile (bytes_of ''000005.ldb'') 3 [] \<lparr>answers = [Done 3, Failed EINTR], strerror = \<lambda>_. []\<rparr>"

definition small_options :: "Comparator \<Rightarrow> Options" where
  "small_options cmp = default_Options\<lparr>comparator_of := cmp\<rparr>"

definition small_build :: "Comparator \<Rightarrow> entries \<Rightarrow> Status \<times> PosixWritableFile TableBuilder" where
  "small_build cmp es = TableBuilder_Finish posix_writable
     (fold (\<lambda>e. TableBuilder_Add posix_writable (fst e) (snd e)) es (new_TableBuilder (small_options cmp) small_file))"

lemma small_healthy: "healthy small_file" "buffer_ok small_file" "disk small_file = []" "buf small_file = []"
  by (simp_all add: small_file_def new_PosixWritableFile_def healthy_def buffer_ok_def)

lemma small_ok: "status_ok (fst (small_build cmp es))"
  unfolding small_build_def by (rule user_table_written [OF small_healthy(1,2)])

lemma Internal_Successor_length: "length (Internal_Successor BytewiseComparator k) \<le> length k + 8"
  by (auto simp: Internal_Successor_def Let_def PutFixed64_def ExtractUserKey_def)

lemma Bytewise_Successor_length: "length (Bytewise_Successor k) \<le> length k"
proof (induction k)
  case Nil
  show ?case by (simp add: Bytewise_Successor_def successor_from.simps)
qed (simp add: Successor_Cons)

lemma small_size:
  assumes "es = [(k1, v1), (k2, v2)]" and "length k1 + length v1 + length k2 + length v2 < 1000"
    and "length (FindShortSuccessor cmp k2) \<le> 1000"
  shows "length (contents (tb_file (snd (small_build cmp es)))) < 2 ^ 32"
proof -
  let ?o = "small_options cmp" and ?r0 = "new_TableBuilder (small_options cmp) small_file"
  let ?b = "new_BlockBuilder (small_options cmp)"
  have o: "block_size ?o = 4096" "filter_policy_of ?o = None" "comparator_of ?o = cmp"
    by (simp_all add: small_options_def default_Options_def)
  have r0: "writing ?r0" using small_healthy by (simp add: writing_def tb_ok_def new_TableBuilder_def new_Rep_def Let_def)
  have ml: "length (bb_buffer (BlockBuilder_Finish (new_BlockBuilder opt))) = 8" for opt
    by (simp add: Finish_length) (simp add: new_BlockBuilder_def)
  let ?d1 = "BlockBuilder_Add k1 v1 ?b" and ?d2 = "BlockBuilder_Add k2 v2 (BlockBuilder_Add k1 v1 ?b)"
  have d: "length (bb_buffer (BlockBuilder_Finish ?d1)) < 1100" "length (bb_buffer (BlockBuilder_Finish ?d2)) < 1100"
    using Add_length [of k1 v1 ?b] Add_length [of k2 v2 ?d1] assms(2) ml [of ?o] by linarith+
  have est: "\<not> CurrentSizeEstimate x \<ge> 4096" if "length (bb_buffer (BlockBuilder_Finish x)) < 1100" for x
    using that by (simp add: CurrentSizeEstimate_def Finish_length)
  let ?r2 = "?r0\<lparr>tb_last_key := k2, num_entries := 2, data_block := ?d2\<rparr>"
  have "fold (\<lambda>e. TableBuilder_Add posix_writable (fst e) (snd e)) es ?r0 = ?r2"
    using r0 est [OF d(1)] est [OF d(2)] o
    by (simp add: assms(1) TableBuilder_Add_def Let_def writing_def tb_ok_def new_TableBuilder_def new_Rep_def)
  moreover have "writing ?r2" using r0 by (simp add: writing_def tb_ok_def)
  moreover obtain s r' where "small_build cmp es = (s, r')" by fastforce
  ultimately have "length (contents (tb_file r')) \<le> length (contents (tb_file ?r2)) + length (bb_buffer (BlockBuilder_Finish (data_block ?r2))) +
      length (bb_buffer (BlockBuilder_Finish (index_block ?r2))) +
      length (FindShortSuccessor (comparator_of (tb_options ?r2)) (tb_last_key ?r2)) + 110" "small_build cmp es = (s, r')"
    using finish_size [of ?r2 s r'] o by (simp_all add: small_build_def new_TableBuilder_def new_Rep_def Let_def)
  moreover have "index_block ?r2 = new_BlockBuilder (?o\<lparr>block_restart_interval := 1\<rparr>)" "tb_options ?r2 = ?o" "tb_file ?r2 = small_file"
    by (simp_all add: new_TableBuilder_def new_Rep_def Let_def)
  ultimately show ?thesis using d(2) ml assms(3) o(3) small_healthy(3,4) by (simp add: contents_def)
qed

lemma table_written_witness:
  "status_ok (fst (TableBuilder_Finish posix_writable
     (fold (\<lambda>e. TableBuilder_Add posix_writable (fst e) (snd e)) [([98], [1]), ([97], [2])]
       (new_TableBuilder default_Options small_file))))"
  by (rule table_written [OF small_healthy(1,2)])

lemma table_roundtrip_witness:
  "\<exists>D t. D = contents (tb_file (snd (small_build BytewiseComparator [([97], [1]), ([98], [2])]))) \<and>
     Table_Open (small_options BytewiseComparator)
       (mmap_file \<lparr>answers = [], strerror = \<lambda>_. []\<rparr> \<lparr>mmap_base = 4096, mmap_length = of_nat (length D), mmap_name = []\<rparr> D)
       (of_nat (length D)) = (Status_OK, Some t) \<and>
     read_backward table_Iterator 2 (it_SeekToLast table_Iterator
       (Table_NewIterator t \<lparr>verify_checksums = True, fill_cache = True\<rparr>)) = [([98], [2]), ([97], [1])] \<and>
     InternalGet t \<lparr>verify_checksums = True, fill_cache = True\<rparr> [98] = (Status_OK, Some ([98], [2]))"
proof -
  let ?es = "[([97], [1]), ([98], [2])] :: entries" and ?o = "small_options BytewiseComparator"
  obtain s tb where b: "small_build BytewiseComparator ?es = (s, tb)" by fastforce
  then have fin: "TableBuilder_Finish posix_writable
      (fold (\<lambda>e. TableBuilder_Add posix_writable (fst e) (snd e)) ?es (new_TableBuilder ?o small_file)) = (s, tb)"
    by (simp only: small_build_def)
  have ok: "status_ok s" using small_ok [of BytewiseComparator ?es] b by simp
  have "length (FindShortSuccessor BytewiseComparator [98]) \<le> 1000" by (simp add: BytewiseComparator_def Successor_Cons)
  from small_size [OF refl _ this, of "[97]" "[1]" "[2]"] b have len: "length (contents (tb_file tb)) < 2 ^ 32" by simp
  let ?D = "contents (tb_file tb)"
  let ?m = "\<lparr>mmap_base = 4096, mmap_length = of_nat (length ?D), mmap_name = []\<rparr>"
  let ?ro = "\<lparr>verify_checksums = True, fill_cache = True\<rparr>"
  have rdb: "readable (mmap_file \<lparr>answers = [], strerror = \<lambda>_. []\<rparr> ?m ?D, ?D)"
    by (rule readable_mapped) (use len in simp_all)
  have o: "comparator_of ?o = BytewiseComparator" "filter_policy_of ?o = None" "1 \<le> block_restart_interval ?o"
    by (simp_all add: small_options_def default_Options_def)
  have srt: "sorted_entries (comparator_of ?o) ?es" unfolding o by (simp add: sorted_entries_def BytewiseComparator_def)
  obtain t where t: "Table_Open ?o (mmap_file \<lparr>answers = [], strerror = \<lambda>_. []\<rparr> ?m ?D) (of_nat (length ?D)) = (Status_OK, Some t)"
    "read_backward table_Iterator 2 (it_SeekToLast table_Iterator (Table_NewIterator t ?ro)) = rev ?es"
    "\<forall>e \<in> set ?es. InternalGet t ?ro (fst e) = (Status_OK, Some e)"
    using table_roundtrip [OF fin ok small_healthy(3,4) o(3) srt _ _ refl len rdb, of "[]" 0 2 ?ro] o by auto
  show ?thesis unfolding b snd_conv by (rule exI [of _ ?D], rule exI [of _ t]) (use t in simp)
qed

lemma newest_version_found_witness:
  "\<exists>D t. D = contents (tb_file (snd (small_build (InternalKeyComparator BytewiseComparator)
       [(AppendInternalKey [] \<lparr>user_key = [97], sequence = 7, value_type = kTypeValue\<rparr>, [1]),
        (AppendInternalKey [] \<lparr>user_key = [97], sequence = 5, value_type = kTypeDeletion\<rparr>, [])]))) \<and>
     Table_Open (small_options (InternalKeyComparator BytewiseComparator))
       (mmap_file \<lparr>answers = [], strerror = \<lambda>_. []\<rparr> \<lparr>mmap_base = 4096, mmap_length = of_nat (length D), mmap_name = []\<rparr> D)
       (of_nat (length D)) = (Status_OK, Some t) \<and>
     InternalGet t \<lparr>verify_checksums = True, fill_cache = True\<rparr> (LookupKey_internal_key (new_LookupKey [97] 6)) =
       (Status_OK, Some (AppendInternalKey [] \<lparr>user_key = [97], sequence = 5, value_type = kTypeDeletion\<rparr>, []))"
proof -
  let ?p = "\<lparr>user_key = [97], sequence = 7, value_type = kTypeValue\<rparr>" and ?q = "\<lparr>user_key = [97], sequence = 5, value_type = kTypeDeletion\<rparr>"
  let ?es = "[(AppendInternalKey [] ?p, [1]), (AppendInternalKey [] ?q, [])] :: entries"
  let ?c = "InternalKeyComparator BytewiseComparator"
  let ?o = "small_options ?c" and ?vs = "[(?p, [1]), (?q, [])] :: (ParsedInternalKey \<times> slice) list"
  obtain s tb where b: "small_build ?c ?es = (s, tb)" by fastforce
  then have fin: "TableBuilder_Finish posix_writable
      (fold (\<lambda>e. TableBuilder_Add posix_writable (fst e) (snd e)) ?es (new_TableBuilder ?o small_file)) = (s, tb)"
    by (simp only: small_build_def)
  have ok: "status_ok s" using small_ok [of ?c ?es] b by simp
  have kl: "length (AppendInternalKey [] k) = length (user_key k) + 8" for k :: ParsedInternalKey
    by (simp add: AppendInternalKey_def PutFixed64_def)
  have "length (FindShortSuccessor ?c (AppendInternalKey [] ?q)) \<le> 1000"
    using Internal_Successor_length [of "AppendInternalKey [] ?q"] by (simp add: InternalKeyComparator_def kl)
  from small_size [OF refl _ this, of "AppendInternalKey [] ?p" "[1]" "[]"] b
  have len: "length (contents (tb_file tb)) < 2 ^ 32" by (simp add: kl)
  let ?D = "contents (tb_file tb)"
  let ?m = "\<lparr>mmap_base = 4096, mmap_length = of_nat (length ?D), mmap_name = []\<rparr>"
  have rdb: "readable (mmap_file \<lparr>answers = [], strerror = \<lambda>_. []\<rparr> ?m ?D, ?D)"
    by (rule readable_mapped) (use len in simp_all)
  have o: "comparator_of ?o = ?c" "filter_policy_of ?o = None" "1 \<le> block_restart_interval ?o"
    by (simp_all add: small_options_def default_Options_def)
  have srt: "sorted_entries (comparator_of ?o) ?es"
    using Pack_order [of 5 7 kTypeDeletion kTypeValue] by (simp add: o sorted_entries_def key_less kMaxSequenceNumber_def)
  have vs: "?es = map (\<lambda>q. (AppendInternalKey [] (fst q), snd q)) ?vs" by simp
  have seq: "\<forall>q \<in> set ?vs. sequence (fst q) \<le> kMaxSequenceNumber" "(6 :: 64 word) \<le> kMaxSequenceNumber"
    by (simp_all add: kMaxSequenceNumber_def)
  have q: "(?q, []) \<in> set ?vs" "sequence ?q \<le> 6"
    "\<forall>r \<in> set ?vs. user_key (fst r) = user_key ?q \<and> sequence (fst r) \<le> 6 \<and> fst r \<noteq> ?q \<longrightarrow> sequence (fst r) < sequence ?q"
    by simp_all
  obtain t where t: "Table_Open ?o (mmap_file \<lparr>answers = [], strerror = \<lambda>_. []\<rparr> ?m ?D) (of_nat (length ?D)) = (Status_OK, Some t)"
    "InternalGet t \<lparr>verify_checksums = True, fill_cache = True\<rparr> (LookupKey_internal_key (new_LookupKey (user_key ?q) 6)) =
      (Status_OK, Some (AppendInternalKey [] ?q, []))"
    using newest_version_found [OF vs fin ok small_healthy(3,4) o(3,1) srt _ refl len rdb seq q] o(2) by auto
  show ?thesis unfolding b snd_conv by (rule exI [of _ ?D], rule exI [of _ t]) (use t in simp)
qed

end
