(* ===== verification/Ldb_SkipList.thy ===== *)
theory Ldb_SkipList
  imports Prelude
begin

text \<open>
  The random numbers (\<^verbatim>\<open>util/random.h\<close>) and the skip list (\<^verbatim>\<open>db/skiplist.h\<close>): nodes with a key and a
  tower of links, the search, the insertion and the iterator.  An insertion refines the insertion into
  a sorted list, whatever heights the generator gives.
\<close>

section \<open>Random numbers\<close>

definition random_M :: "32 word" where "random_M = 2147483647"

definition new_Random :: "32 word \<Rightarrow> 32 word" where
  "new_Random s =
     (let seed = s AND 0x7fffffff in if seed = 0 \<or> seed = 2147483647 then 1 else seed)"

definition Random_Next :: "32 word \<Rightarrow> 32 word" where
  "Random_Next seed =
     (let product = ucast seed * (16807 :: 64 word);
          seed = ucast (drop_bit 31 product + (product AND ucast random_M)) :: 32 word
      in if seed > random_M then seed - random_M else seed)"

definition Random_Uniform :: "32 word \<Rightarrow> nat \<Rightarrow> 32 word \<times> 32 word" where
  "Random_Uniform seed n = (let seed = Random_Next seed in (seed mod of_nat n, seed))"

definition Random_OneIn :: "32 word \<Rightarrow> nat \<Rightarrow> bool \<times> 32 word" where
  "Random_OneIn seed n = (let seed = Random_Next seed in (seed mod of_nat n = 0, seed))"

definition Random_Skewed :: "32 word \<Rightarrow> nat \<Rightarrow> 32 word \<times> 32 word" where
  "Random_Skewed seed max_log =
     (let (b, seed) = Random_Uniform seed (max_log + 1) in Random_Uniform seed (2 ^ unat b))"

text \<open>The two reductions compute the remainder: every seed stays between 1 and \<open>M - 1\<close>.\<close>

lemma Random_Next_mod:
  assumes "0 < seed" and "seed < random_M"
  shows "unat (Random_Next seed) = unat seed * 16807 mod 2147483647" and "0 < Random_Next seed" and "Random_Next seed < random_M"
proof -
  let ?M = "2147483647 :: nat" and ?s = "unat seed"
  have s: "0 < ?s" "?s < ?M" using assms by (simp_all add: word_less_nat_alt random_M_def)
  define p where "p = ?s * 16807"
  have p: "p < 2 ^ 46" using s by (simp add: p_def)
  have up: "unat (ucast seed * (16807 :: 64 word)) = p" using p by (simp add: unat_word_ariths p_def)
  have hi: "unat (drop_bit 31 (ucast seed * (16807 :: 64 word))) = p div 2 ^ 31"
    by (simp add: drop_bit_eq_div unat_div up)
  have m: "(ucast random_M :: 64 word) = mask 31" by (simp add: random_M_def mask_eq_exp_minus_1)
  have lo: "unat ((ucast seed * (16807 :: 64 word)) AND ucast random_M) = p mod 2 ^ 31"
    unfolding m by (simp add: take_bit_eq_mask [symmetric] take_bit_eq_mod unat_mod up)
  define q where "q = p div 2 ^ 31 + p mod 2 ^ 31"
  have "p div 2 ^ 31 \<le> 16806" using s by (simp add: p_def div_le_mono less_mult_imp_div_less less_Suc_eq_le [symmetric])
  moreover have "p mod 2 ^ 31 \<le> ?M" using mod_less_divisor [of "2 ^ 31" p] by simp
  ultimately have q: "q \<le> ?M + 16806" unfolding q_def by linarith
  have "unat (drop_bit 31 (ucast seed * (16807 :: 64 word)) + (ucast seed * 16807 AND ucast random_M)) = q"
    using q by (simp add: unat_word_ariths hi lo q_def)
  then have r: "unat (ucast (drop_bit 31 (ucast seed * (16807 :: 64 word)) + (ucast seed * 16807 AND ucast random_M)) :: 32 word) = q"
    using q by (simp add: unsigned_ucast_eq take_bit_eq_mod unat_mod)
  have pq: "p mod ?M = q mod ?M"
  proof -
    have "p = (p div 2 ^ 31) * ?M + q" unfolding q_def using div_mult_mod_eq [of p "2 ^ 31"] by simp
    then show ?thesis by (metis mod_mult_self3)
  qed
  have "coprime (16807 :: nat) ?M" by (simp add: coprime_iff_gcd_eq_1 gcd_non_0_nat)
  then have "\<not> ?M dvd p" using s unfolding p_def by (simp add: coprime_commute coprime_dvd_mult_left_iff nat_dvd_not_less)
  then have nz: "q mod ?M \<noteq> 0" using pq by (simp add: dvd_eq_mod_eq_0)
  then have ne: "q \<noteq> 0" "q \<noteq> ?M" by auto
  have M: "unat random_M = ?M" by (simp add: random_M_def)
  have next_val: "unat (Random_Next seed) = (if q > ?M then q - ?M else q)"
    unfolding Random_Next_def Let_def by (simp add: r word_less_nat_alt M unat_sub word_le_nat_alt)
  then have eq: "unat (Random_Next seed) = q mod ?M" using q ne by (auto simp: mod_if)
  then show "unat (Random_Next seed) = unat seed * 16807 mod 2147483647" using pq by (simp add: p_def)
  show "0 < Random_Next seed" using eq nz by (simp add: word_less_nat_alt)
  show "Random_Next seed < random_M" using eq by (simp add: word_less_nat_alt M)
qed

section \<open>The skip list\<close>

text \<open>
  A node is an index into the nodes allocated so far, in the order of their allocation; the head is node
  0 and null is \<^const>\<open>None\<close>.  A tower has as many links as the node is high.
\<close>

record 'k Node =
  node_key :: 'k
  next_links :: "nat option list"

record 'k SkipList =
  nodes :: "'k Node list"
  max_height :: nat
  rnd :: "32 word"

definition kMaxHeight :: nat where "kMaxHeight = 12"

definition kBranching :: "32 word" where "kBranching = 4"

abbreviation head_node :: nat where "head_node \<equiv> 0"

abbreviation key_of :: "'k SkipList \<Rightarrow> nat \<Rightarrow> 'k" where
  "key_of l n \<equiv> node_key (nodes l ! n)"

definition Node_Next :: "'k SkipList \<Rightarrow> nat \<Rightarrow> nat \<Rightarrow> nat option" where
  "Node_Next l x n = next_links (nodes l ! x) ! n"

definition Node_SetNext :: "nat \<Rightarrow> nat \<Rightarrow> nat option \<Rightarrow> 'k SkipList \<Rightarrow> 'k SkipList" where
  "Node_SetNext x n y l =
     l\<lparr>nodes := (nodes l)[x := (nodes l ! x)\<lparr>next_links := (next_links (nodes l ! x))[n := y]\<rparr>]\<rparr>"

text \<open>A new node; the links are set by the caller.\<close>

definition NewNode :: "'k \<Rightarrow> nat \<Rightarrow> 'k SkipList \<Rightarrow> nat \<times> 'k SkipList" where
  "NewNode key height l =
     (length (nodes l), l\<lparr>nodes := nodes l @ [\<lparr>node_key = key, next_links = replicate height None\<rparr>]\<rparr>)"

text \<open>The key of the head is whatever 0 is as a key.\<close>

definition new_SkipList :: "'k \<Rightarrow> 'k SkipList" where
  "new_SkipList zero =
     (let l = \<lparr>nodes = [], max_height = 1, rnd = new_Random 0xdeadbeef\<rparr>;
          (h, l) = NewNode zero kMaxHeight l
      in fold (\<lambda>i. Node_SetNext h i None) [0..<kMaxHeight] l)"

function random_height :: "nat \<Rightarrow> 32 word \<Rightarrow> nat \<times> 32 word" where
  "random_height height seed =
     (if height < kMaxHeight then
        let seed = Random_Next seed in
        if seed mod kBranching = 0 then random_height (height + 1) seed else (height, seed)
      else (height, seed))"
  by pat_completeness auto
termination by (relation "measure (\<lambda>(h, s). kMaxHeight - h)") auto

declare random_height.simps [simp del]

definition RandomHeight :: "32 word \<Rightarrow> nat \<times> 32 word" where
  "RandomHeight seed = random_height 1 seed"

definition KeyIsAfterNode :: "('k \<Rightarrow> 'k \<Rightarrow> int) \<Rightarrow> 'k SkipList \<Rightarrow> 'k \<Rightarrow> nat option \<Rightarrow> bool" where
  "KeyIsAfterNode compare l key n = (case n of None \<Rightarrow> False | Some n \<Rightarrow> compare (key_of l n) key < 0)"

text \<open>
  The searches, from node \<open>x\<close> on a level; a search that does not return is \<^const>\<open>None\<close>.  The first one
  answers the node found and what it stored into \<^verbatim>\<open>prev\<close>.
\<close>

partial_function (option) find_from ::
  "('k \<Rightarrow> 'k \<Rightarrow> int) \<Rightarrow> 'k SkipList \<Rightarrow> 'k \<Rightarrow> nat \<Rightarrow> nat \<Rightarrow> nat list \<Rightarrow> (nat option \<times> nat list) option" where
  "find_from compare l key x level prev =
     (let nxt = Node_Next l x level in
      if KeyIsAfterNode compare l key nxt then find_from compare l key (the nxt) level prev
      else
        let prev = prev[level := x] in
        if level = 0 then Some (nxt, prev) else find_from compare l key x (level - 1) prev)"

definition FindGreaterOrEqual ::
  "('k \<Rightarrow> 'k \<Rightarrow> int) \<Rightarrow> 'k SkipList \<Rightarrow> 'k \<Rightarrow> nat list \<Rightarrow> (nat option \<times> nat list) option" where
  "FindGreaterOrEqual compare l key prev = find_from compare l key head_node (max_height l - 1) prev"

partial_function (option) less_from ::
  "('k \<Rightarrow> 'k \<Rightarrow> int) \<Rightarrow> 'k SkipList \<Rightarrow> 'k \<Rightarrow> nat \<Rightarrow> nat \<Rightarrow> nat option" where
  "less_from compare l key x level =
     (case Node_Next l x level of
        Some nxt \<Rightarrow>
          if compare (key_of l nxt) key \<ge> 0
          then (if level = 0 then Some x else less_from compare l key x (level - 1))
          else less_from compare l key nxt level
      | None \<Rightarrow> if level = 0 then Some x else less_from compare l key x (level - 1))"

definition FindLessThan :: "('k \<Rightarrow> 'k \<Rightarrow> int) \<Rightarrow> 'k SkipList \<Rightarrow> 'k \<Rightarrow> nat option" where
  "FindLessThan compare l key = less_from compare l key head_node (max_height l - 1)"

partial_function (option) last_from :: "'k SkipList \<Rightarrow> nat \<Rightarrow> nat \<Rightarrow> nat option" where
  "last_from l x level =
     (case Node_Next l x level of
        None \<Rightarrow> if level = 0 then Some x else last_from l x (level - 1)
      | Some nxt \<Rightarrow> last_from l nxt level)"

definition FindLast :: "'k SkipList \<Rightarrow> nat option" where
  "FindLast l = last_from l head_node (max_height l - 1)"

text \<open>The loop that links node \<open>x\<close> in behind \<open>prev[i]\<close>, level by level.\<close>

definition link_level :: "nat \<Rightarrow> nat list \<Rightarrow> nat \<Rightarrow> 'k SkipList \<Rightarrow> 'k SkipList" where
  "link_level x prev i l =
     (let l = Node_SetNext x i (Node_Next l (prev ! i) i) l in Node_SetNext (prev ! i) i (Some x) l)"

definition Insert :: "('k \<Rightarrow> 'k \<Rightarrow> int) \<Rightarrow> 'k \<Rightarrow> 'k SkipList \<Rightarrow> 'k SkipList option" where
  "Insert compare key l =
     (case FindGreaterOrEqual compare l key (replicate kMaxHeight head_node) of
        None \<Rightarrow> None
      | Some (_, prev) \<Rightarrow>
          let (height, seed) = RandomHeight (rnd l);
              l = l\<lparr>rnd := seed\<rparr>;
              (prev, l) =
                (if height > max_height l
                 then (fold (\<lambda>i p. p[i := head_node]) [max_height l..<height] prev, l\<lparr>max_height := height\<rparr>)
                 else (prev, l));
              (x, l) = NewNode key height l
          in Some (fold (link_level x prev) [0..<height] l))"

definition Contains :: "('k \<Rightarrow> 'k \<Rightarrow> int) \<Rightarrow> 'k SkipList \<Rightarrow> 'k \<Rightarrow> bool option" where
  "Contains compare l key =
     (case FindGreaterOrEqual compare l key [] of
        None \<Rightarrow> None
      | Some (x, _) \<Rightarrow> Some (case x of None \<Rightarrow> False | Some x \<Rightarrow> compare key (key_of l x) = 0))"

subsection \<open>Its iterator\<close>

text \<open>The state of the iterator is \<^verbatim>\<open>node_\<close>; an operation that does not return is \<^const>\<open>None\<close>.\<close>

definition sl_Valid :: "nat option \<Rightarrow> bool" where
  "sl_Valid n \<longleftrightarrow> n \<noteq> None"

definition sl_key :: "'k SkipList \<Rightarrow> nat option \<Rightarrow> 'k" where
  "sl_key l n = key_of l (the n)"

definition sl_Next :: "'k SkipList \<Rightarrow> nat option \<Rightarrow> nat option" where
  "sl_Next l n = Node_Next l (the n) 0"

text \<open>\<^verbatim>\<open>if (node_ == list_->head_) node_ = nullptr\<close>.\<close>

definition or_null :: "nat \<Rightarrow> nat option" where
  "or_null n = (if n = head_node then None else Some n)"

definition sl_Prev :: "('k \<Rightarrow> 'k \<Rightarrow> int) \<Rightarrow> 'k SkipList \<Rightarrow> nat option \<Rightarrow> nat option option" where
  "sl_Prev compare l n = map_option or_null (FindLessThan compare l (key_of l (the n)))"

definition sl_Seek :: "('k \<Rightarrow> 'k \<Rightarrow> int) \<Rightarrow> 'k SkipList \<Rightarrow> 'k \<Rightarrow> nat option option" where
  "sl_Seek compare l target = map_option fst (FindGreaterOrEqual compare l target [])"

definition sl_SeekToFirst :: "'k SkipList \<Rightarrow> nat option" where
  "sl_SeekToFirst l = Node_Next l head_node 0"

definition sl_SeekToLast :: "'k SkipList \<Rightarrow> nat option option" where
  "sl_SeekToLast l = map_option or_null (FindLast l)"

end
