(* ===== verification/Ldb_SkipList_Facts.thy ===== *)
theory Ldb_SkipList_Facts
  imports Ldb_SkipList "HOL-Library.Multiset"
begin

text \<open>
  The invariant of the skip list, what the searches find, and that an insertion is one into the sorted
  list of the keys.
\<close>

section \<open>Chains of links\<close>

primrec chain :: "'k SkipList \<Rightarrow> nat \<Rightarrow> nat \<Rightarrow> nat list \<Rightarrow> bool" where
  "chain l i x [] \<longleftrightarrow> Node_Next l x i = None"
| "chain l i x (y # ys) \<longleftrightarrow> Node_Next l x i = Some y \<and> chain l i y ys"

lemma chain_append: "chain l i x (A @ B) \<Longrightarrow> chain l i (last (x # A)) B"
  by (induction A arbitrary: x) auto

lemma chain_cong:
  "(\<And>a. a \<in> set (x # ys) \<Longrightarrow> Node_Next l' a i = Node_Next l a i) \<Longrightarrow> chain l' i x ys = chain l i x ys"
  by (induction ys arbitrary: x) simp_all

lemma chain_insert:
  "chain l i x (A @ B) \<Longrightarrow> distinct (x # A @ B) \<Longrightarrow> n \<notin> set (x # A @ B) \<Longrightarrow>
    (\<And>a. a \<in> set (x # A @ B) \<Longrightarrow> a \<noteq> last (x # A) \<Longrightarrow> Node_Next l' a i = Node_Next l a i) \<Longrightarrow>
    Node_Next l' n i = Node_Next l (last (x # A)) i \<Longrightarrow> Node_Next l' (last (x # A)) i = Some n \<Longrightarrow>
    chain l' i x (A @ n # B)"
proof (induction A arbitrary: x)
  case Nil
  show ?case
  proof (cases B)
    case Nil
    then show ?thesis using Nil.prems by simp
  next
    case (Cons b bs)
    have "chain l' i b bs = chain l i b bs"
    proof (rule chain_cong)
      fix a assume "a \<in> set (b # bs)"
      then have "a \<in> set (x # [] @ B)" "a \<noteq> x" using Nil.prems(2) Cons by auto
      then show "Node_Next l' a i = Node_Next l a i" using Nil.prems(4) by simp
    qed
    then show ?thesis using Nil.prems Cons by simp
  qed
next
  case (Cons a A)
  have "last (a # A) \<in> set (a # A)" by (rule last_in_set) simp
  then have "x \<noteq> last (a # A)" using Cons.prems(2) by auto
  then have "Node_Next l' x i = Node_Next l x i" using Cons.prems(3,4) by simp
  moreover have "chain l' i a (A @ n # B)"
    by (rule Cons.IH) (use Cons.prems in auto)
  ultimately show ?case using Cons.prems(1) by simp
qed

section \<open>Reading and writing links\<close>

abbreviation height_of :: "'k SkipList \<Rightarrow> nat \<Rightarrow> nat" where
  "height_of l n \<equiv> length (next_links (nodes l ! n))"

lemma SetNext_kept [simp]:
  "length (nodes (Node_SetNext x n y l)) = length (nodes l)"
  "key_of (Node_SetNext x n y l) a = key_of l a" "height_of (Node_SetNext x n y l) a = height_of l a"
  "max_height (Node_SetNext x n y l) = max_height l" "rnd (Node_SetNext x n y l) = rnd l"
proof -
  have u: "nodes (Node_SetNext x n y l) ! a = (if a = x \<and> x < length (nodes l)
      then (nodes l ! x)\<lparr>next_links := (next_links (nodes l ! x))[n := y]\<rparr> else nodes l ! a)"
    by (cases "x < length (nodes l)") (simp_all add: Node_SetNext_def nth_list_update list_update_beyond)
  show "key_of (Node_SetNext x n y l) a = key_of l a" "height_of (Node_SetNext x n y l) a = height_of l a"
    unfolding u by auto
qed (simp_all add: Node_SetNext_def)

lemma Next_SetNext: "x < length (nodes l) \<Longrightarrow> n < height_of l x \<Longrightarrow>
    Node_Next (Node_SetNext x n y l) a m = (if a = x \<and> m = n then y else Node_Next l a m)"
  by (auto simp: Node_Next_def Node_SetNext_def nth_list_update)

lemma link_level_kept [simp]:
  "length (nodes (link_level x prev i l)) = length (nodes l)" "key_of (link_level x prev i l) a = key_of l a"
  "height_of (link_level x prev i l) a = height_of l a" "max_height (link_level x prev i l) = max_height l"
  "rnd (link_level x prev i l) = rnd l"
  by (simp_all add: link_level_def Let_def)

lemma Next_link_level:
  assumes "x < length (nodes l)" and "i < height_of l x" and "prev ! i < length (nodes l)" and "i < height_of l (prev ! i)"
    and "x \<noteq> prev ! i"
  shows "Node_Next (link_level x prev i l) a m =
    (if m \<noteq> i then Node_Next l a m else if a = x then Node_Next l (prev ! i) i
     else if a = prev ! i then Some x else Node_Next l a m)"
  using assms by (simp add: link_level_def Let_def Next_SetNext)

section \<open>The invariant\<close>

definition level_nodes :: "'k SkipList \<Rightarrow> nat \<Rightarrow> nat list \<Rightarrow> nat list" where
  "level_nodes l i ns = filter (\<lambda>n. i < height_of l n) ns"

lemma level_nodes_simps [simp]:
  "level_nodes l i [] = []" "level_nodes l i (A @ B) = level_nodes l i A @ level_nodes l i B"
  "level_nodes l i (n # ns) = (if i < height_of l n then n # level_nodes l i ns else level_nodes l i ns)"
  by (simp_all add: level_nodes_def)

lemma set_level_nodes: "set (level_nodes l i ns) = {n \<in> set ns. i < height_of l n}"
  by (auto simp: level_nodes_def)

lemma level_0: "(\<And>n. n \<in> set ns \<Longrightarrow> 1 \<le> height_of l n) \<Longrightarrow> level_nodes l 0 ns = ns"
  by (simp add: level_nodes_def filter_id_conv Suc_le_eq)

lemma mset_insert_split: "mset (takeWhile P xs @ k # dropWhile P xs) = add_mset k (mset xs)"
  by (induction xs) simp_all

definition head_option :: "'a list \<Rightarrow> 'a option" where
  "head_option xs = (case xs of [] \<Rightarrow> None | x # _ \<Rightarrow> Some x)"

lemma head_option_simps [simp]: "head_option [] = None" "head_option (x # xs) = Some x"
  by (simp_all add: head_option_def)

text \<open>The iterator is at place \<open>i\<close> of the list.\<close>

definition place :: "nat list \<Rightarrow> nat \<Rightarrow> nat option" where
  "place order i = head_option (drop i order)"

lemma place_simps: "i < length order \<Longrightarrow> place order i = Some (order ! i)" "length order \<le> i \<Longrightarrow> place order i = None"
  by (simp_all add: place_def flip: Cons_nth_drop_Suc)

text \<open>Inserting one key after the other, and reading at most \<open>n\<close> keys forwards and backwards.\<close>

primrec insert_all :: "('k \<Rightarrow> 'k \<Rightarrow> int) \<Rightarrow> 'k list \<Rightarrow> 'k SkipList \<Rightarrow> 'k SkipList option" where
  "insert_all compare [] l = Some l"
| "insert_all compare (k # ks) l = Option.bind (Insert compare k l) (insert_all compare ks)"

primrec read_keys :: "'k SkipList \<Rightarrow> nat \<Rightarrow> nat option \<Rightarrow> 'k list" where
  "read_keys l 0 node = []"
| "read_keys l (Suc n) node = (if sl_Valid node then sl_key l node # read_keys l n (sl_Next l node) else [])"

primrec read_keys_back :: "('k \<Rightarrow> 'k \<Rightarrow> int) \<Rightarrow> 'k SkipList \<Rightarrow> nat \<Rightarrow> nat option \<Rightarrow> 'k list" where
  "read_keys_back compare l 0 node = []"
| "read_keys_back compare l (Suc n) node =
     (if sl_Valid node
      then sl_key l node # (case sl_Prev compare l node of Some node' \<Rightarrow> read_keys_back compare l n node' | None \<Rightarrow> [])
      else [])"

locale key_order =
  fixes compare :: "'k \<Rightarrow> 'k \<Rightarrow> int" and ok :: "'k \<Rightarrow> bool"
  assumes compare_sym: "ok a \<Longrightarrow> ok b \<Longrightarrow> compare a b < 0 \<longleftrightarrow> 0 < compare b a"
    and compare_trans: "ok a \<Longrightarrow> ok b \<Longrightarrow> ok c \<Longrightarrow> compare a b < 0 \<Longrightarrow> compare b c < 0 \<Longrightarrow> compare a c < 0"
    and compare_equal: "ok a \<Longrightarrow> ok b \<Longrightarrow> ok c \<Longrightarrow> compare a b < 0 \<Longrightarrow> compare b c = 0 \<Longrightarrow> compare a c < 0"
begin

definition list_inv :: "'k SkipList \<Rightarrow> nat list \<Rightarrow> bool" where
  "list_inv l order \<longleftrightarrow>
     nodes l \<noteq> [] \<and> set order = {1..<length (nodes l)} \<and> distinct order \<and>
     sorted_wrt (\<lambda>a b. compare (key_of l a) (key_of l b) < 0) order \<and> (\<forall>n \<in> set order. ok (key_of l n)) \<and>
     1 \<le> max_height l \<and> max_height l \<le> kMaxHeight \<and> height_of l 0 = kMaxHeight \<and>
     (\<forall>n \<in> set order. 1 \<le> height_of l n \<and> height_of l n \<le> max_height l) \<and>
     (\<forall>i < kMaxHeight. chain l i 0 (level_nodes l i order))"

lemma list_invD:
  assumes "list_inv l order"
  shows "nodes l \<noteq> []" and "set order = {1..<length (nodes l)}" and "distinct order"
    and "sorted_wrt (\<lambda>a b. compare (key_of l a) (key_of l b) < 0) order" and "n \<in> set order \<Longrightarrow> ok (key_of l n)"
    and "1 \<le> max_height l" and "max_height l \<le> kMaxHeight" and "height_of l 0 = kMaxHeight"
    and "n \<in> set order \<Longrightarrow> 1 \<le> height_of l n" and "n \<in> set order \<Longrightarrow> height_of l n \<le> max_height l"
    and "i < kMaxHeight \<Longrightarrow> chain l i 0 (level_nodes l i order)"
  using assms unfolding list_inv_def by blast+

text \<open>The nodes below a key, and those from it on.\<close>

abbreviation below :: "'k SkipList \<Rightarrow> 'k \<Rightarrow> nat list \<Rightarrow> nat list" where
  "below l key \<equiv> takeWhile (\<lambda>n. compare (key_of l n) key < 0)"

abbreviation from_on :: "'k SkipList \<Rightarrow> 'k \<Rightarrow> nat list \<Rightarrow> nat list" where
  "from_on l key \<equiv> dropWhile (\<lambda>n. compare (key_of l n) key < 0)"

lemma from_on_above:
  assumes inv: "list_inv l order" and key: "ok key" and n: "n \<in> set (from_on l key order)"
  shows "\<not> compare (key_of l n) key < 0"
proof -
  let ?rest = "from_on l key order"
  have s: "sorted_wrt (\<lambda>a b. compare (key_of l a) (key_of l b) < 0) ?rest"
    using list_invD(4) [OF inv] takeWhile_dropWhile_id [of _ order] sorted_wrt_append by metis
  have okn: "m \<in> set ?rest \<Longrightarrow> ok (key_of l m)" for m using list_invD(5) [OF inv] set_dropWhileD by metis
  obtain h t where ht: "?rest = h # t" using n by (cases ?rest) auto
  have h: "\<not> compare (key_of l h) key < 0" using hd_dropWhile [of _ order] ht by (metis list.distinct(1) list.sel(1))
  show ?thesis
  proof (cases "n = h")
    case False
    then have "compare (key_of l h) (key_of l n) < 0" using s n ht by auto
    then show ?thesis using h compare_trans [of "key_of l h" "key_of l n" key] okn n key ht by auto
  qed (use h in simp)
qed

lemma below_less: "n \<in> set (below l key order) \<Longrightarrow> compare (key_of l n) key < 0"
  by (rule set_takeWhileD [THEN conjunct2])

subsection \<open>Searching\<close>

text \<open>The last node on a level below a key.\<close>

definition prev_at :: "'k SkipList \<Rightarrow> 'k \<Rightarrow> nat list \<Rightarrow> nat \<Rightarrow> nat" where
  "prev_at l key order i = last (0 # level_nodes l i (below l key order))"

lemma chain_head: "chain l i x ys \<Longrightarrow> Node_Next l x i = head_option ys"
  by (cases ys) simp_all

lemma find_level:
  assumes inv: "list_inv l order" and key: "ok key" and i: "i < kMaxHeight"
    and split: "level_nodes l i (below l key order) = A @ B"
  shows "find_from compare l key (last (0 # A)) i prev = find_from compare l key (prev_at l key order i) i prev"
  using split
proof (induction B arbitrary: A)
  case Nil
  then show ?case by (simp add: prev_at_def)
next
  case (Cons b B)
  have "chain l i 0 (A @ (b # B) @ level_nodes l i (from_on l key order))"
    using list_invD(11) [OF inv i] Cons.prems takeWhile_dropWhile_id level_nodes_simps(2) by (metis append.assoc)
  then have next_b: "Node_Next l (last (0 # A)) i = Some b" using chain_append by fastforce
  have "b \<in> set (below l key order)" using Cons.prems set_level_nodes [of l i "below l key order"] by force
  then have "find_from compare l key (last (0 # A)) i prev = find_from compare l key b i prev"
    using next_b below_less by (subst find_from.simps) (auto simp: KeyIsAfterNode_def Let_def)
  also have "\<dots> = find_from compare l key (prev_at l key order i) i prev"
    using Cons.IH [of "A @ [b]"] Cons.prems by simp
  finally show ?case .
qed

lemma level_position:
  assumes "x = 0 \<or> x \<in> set (level_nodes l i ns)"
  obtains A B where "level_nodes l i ns = A @ B" and "x = last (0 # A)"
proof (cases "x = 0")
  case True
  then show ?thesis using that [of "[]" "level_nodes l i ns"] by simp
next
  case False
  then obtain A B where "level_nodes l i ns = A @ x # B" using assms by (meson split_list)
  then show ?thesis using that [of "A @ [x]" B] by simp
qed

lemma prev_at_lower: "j \<le> i \<Longrightarrow> prev_at l key order i = 0 \<or> prev_at l key order i \<in> set (level_nodes l j (below l key order))"
proof -
  assume j: "j \<le> i"
  have "prev_at l key order i \<in> set (0 # level_nodes l i (below l key order))"
    unfolding prev_at_def by (rule last_in_set) simp
  then show ?thesis using j by (auto simp: set_level_nodes)
qed

lemma prev_at_next:
  assumes inv: "list_inv l order" and i: "i < kMaxHeight"
  shows "Node_Next l (prev_at l key order i) i = head_option (level_nodes l i (from_on l key order))"
proof -
  have "chain l i 0 (level_nodes l i (below l key order) @ level_nodes l i (from_on l key order))"
    using list_invD(11) [OF inv i] by (simp flip: level_nodes_simps(2))
  then show ?thesis unfolding prev_at_def by (rule chain_head [OF chain_append])
qed

lemma not_after: "(\<And>n. n \<in> set ns \<Longrightarrow> \<not> compare (key_of l n) key < 0) \<Longrightarrow> \<not> KeyIsAfterNode compare l key (head_option ns)"
  by (cases ns) (simp_all add: KeyIsAfterNode_def)

lemma find_prev:
  assumes inv: "list_inv l order" and key: "ok key"
  shows "i < kMaxHeight \<Longrightarrow> \<exists>prev'. find_from compare l key (prev_at l key order i) i prev =
      Some (head_option (from_on l key order), prev') \<and> length prev' = length prev \<and>
      (\<forall>j < length prev. prev' ! j = (if j \<le> i then prev_at l key order j else prev ! j))"
proof (induction i arbitrary: prev)
  case (0 prev)
  have "level_nodes l 0 (from_on l key order) = from_on l key order"
    by (rule level_0) (use list_invD(9) [OF inv] set_dropWhileD in fast)
  then have nxt: "Node_Next l (prev_at l key order 0) 0 = head_option (from_on l key order)"
    using prev_at_next [OF inv 0] by simp
  have "\<not> KeyIsAfterNode compare l key (head_option (from_on l key order))"
    by (rule not_after) (rule from_on_above [OF inv key])
  then have "find_from compare l key (prev_at l key order 0) 0 prev =
      Some (head_option (from_on l key order), prev[0 := prev_at l key order 0])"
    using nxt by (subst find_from.simps) (simp add: Let_def)
  then show ?case
    by (intro exI [of _ "prev[0 := prev_at l key order 0]"] conjI) (assumption, simp_all add: nth_list_update)
next
  case (Suc i prev)
  have "\<not> KeyIsAfterNode compare l key (head_option (level_nodes l (Suc i) (from_on l key order)))"
    by (rule not_after, rule from_on_above [OF inv key]) (simp add: set_level_nodes)
  then have step: "find_from compare l key (prev_at l key order (Suc i)) (Suc i) prev =
      find_from compare l key (prev_at l key order (Suc i)) i (prev[Suc i := prev_at l key order (Suc i)])"
    using prev_at_next [OF inv Suc.prems] by (subst find_from.simps) (simp add: Let_def)
  obtain A B where AB: "level_nodes l i (below l key order) = A @ B" "prev_at l key order (Suc i) = last (0 # A)"
    using level_position [OF prev_at_lower [of i "Suc i" l key order]] by auto
  have "find_from compare l key (prev_at l key order (Suc i)) i (prev[Suc i := prev_at l key order (Suc i)]) =
      find_from compare l key (prev_at l key order i) i (prev[Suc i := prev_at l key order (Suc i)])"
    unfolding AB(2) by (rule find_level [OF inv key _ AB(1)]) (use Suc.prems in simp)
  moreover obtain prev' where p: "find_from compare l key (prev_at l key order i) i (prev[Suc i := prev_at l key order (Suc i)]) =
      Some (head_option (from_on l key order), prev')" "length prev' = length prev"
      "\<forall>j < length prev. prev' ! j = (if j \<le> i then prev_at l key order j else prev[Suc i := prev_at l key order (Suc i)] ! j)"
    using Suc.IH [of "prev[Suc i := prev_at l key order (Suc i)]"] Suc.prems by auto
  moreover have "prev' ! j = (if j \<le> Suc i then prev_at l key order j else prev ! j)" if "j < length prev" for j
    using p(3) that by (auto simp: nth_list_update le_Suc_eq)
  ultimately show ?case using step by auto
qed

lemma FindGreaterOrEqual_spec:
  assumes inv: "list_inv l order" and key: "ok key"
  shows "\<exists>prev'. FindGreaterOrEqual compare l key prev = Some (head_option (from_on l key order), prev') \<and>
    length prev' = length prev \<and> (\<forall>j < length prev. prev' ! j = (if j < max_height l then prev_at l key order j else prev ! j))"
proof -
  have i: "max_height l - 1 < kMaxHeight" using list_invD(6,7) [OF inv] by simp
  have "find_from compare l key 0 (max_height l - 1) prev =
      find_from compare l key (prev_at l key order (max_height l - 1)) (max_height l - 1) prev"
    using find_level [OF inv key i, of "[]"] by simp
  moreover have "j \<le> max_height l - 1 \<longleftrightarrow> j < max_height l" for j using list_invD(6) [OF inv] by auto
  ultimately show ?thesis
    unfolding FindGreaterOrEqual_def using find_prev [OF inv key i, of prev] by simp
qed

text \<open>The search for the last smaller node.\<close>

lemma less_level:
  assumes inv: "list_inv l order" and i: "i < kMaxHeight" and split: "level_nodes l i (below l key order) = A @ B"
  shows "less_from compare l key (last (0 # A)) i = less_from compare l key (prev_at l key order i) i"
  using split
proof (induction B arbitrary: A)
  case Nil
  then show ?case by (simp add: prev_at_def)
next
  case (Cons b B)
  have "chain l i 0 (A @ (b # B) @ level_nodes l i (from_on l key order))"
    using list_invD(11) [OF inv i] Cons.prems takeWhile_dropWhile_id level_nodes_simps(2) by (metis append.assoc)
  then have next_b: "Node_Next l (last (0 # A)) i = Some b" using chain_append by fastforce
  have "b \<in> set (below l key order)" using Cons.prems set_level_nodes [of l i "below l key order"] by force
  then have "less_from compare l key (last (0 # A)) i = less_from compare l key b i"
    using next_b below_less [of b l key order] by (subst less_from.simps) simp
  also have "\<dots> = less_from compare l key (prev_at l key order i) i"
    using Cons.IH [of "A @ [b]"] Cons.prems by simp
  finally show ?case .
qed

lemma less_stop:
  assumes inv: "list_inv l order" and key: "ok key" and i: "i < kMaxHeight"
  shows "less_from compare l key (prev_at l key order i) i =
    (if i = 0 then Some (prev_at l key order 0) else less_from compare l key (prev_at l key order i) (i - 1))"
proof (cases "level_nodes l i (from_on l key order)")
  case Nil
  then show ?thesis using prev_at_next [OF inv i, of key] by (subst less_from.simps) simp
next
  case (Cons b B)
  then have "b \<in> set (from_on l key order)" using set_level_nodes [of l i "from_on l key order"] by force
  then have "\<not> compare (key_of l b) key < 0" by (rule from_on_above [OF inv key])
  then show ?thesis using prev_at_next [OF inv i, of key] Cons by (subst less_from.simps) simp
qed

lemma less_prev:
  assumes inv: "list_inv l order" and key: "ok key"
  shows "i < kMaxHeight \<Longrightarrow> less_from compare l key (prev_at l key order i) i = Some (prev_at l key order 0)"
proof (induction i)
  case 0
  then show ?case using less_stop [OF inv key 0] by simp
next
  case (Suc i)
  obtain A B where AB: "level_nodes l i (below l key order) = A @ B" "prev_at l key order (Suc i) = last (0 # A)"
    using level_position [OF prev_at_lower [of i "Suc i" l key order]] by auto
  have "less_from compare l key (prev_at l key order (Suc i)) i = less_from compare l key (prev_at l key order i) i"
    unfolding AB(2) by (rule less_level [OF inv _ AB(1)]) (use Suc.prems in simp)
  then show ?case using less_stop [OF inv key Suc.prems] Suc by simp
qed

lemma FindLessThan_spec:
  assumes inv: "list_inv l order" and key: "ok key"
  shows "FindLessThan compare l key = Some (last (0 # below l key order))"
proof -
  have i: "max_height l - 1 < kMaxHeight" using list_invD(6,7) [OF inv] by simp
  have "level_nodes l 0 (below l key order) = below l key order"
    by (rule level_0) (use list_invD(9) [OF inv] set_takeWhileD in fast)
  then show ?thesis
    using less_level [OF inv i, of key "[]"] less_prev [OF inv key i] by (simp add: FindLessThan_def prev_at_def)
qed

text \<open>The search for the last node.\<close>

lemma last_level:
  assumes inv: "list_inv l order" and i: "i < kMaxHeight" and split: "level_nodes l i order = A @ B"
  shows "last_from l (last (0 # A)) i = last_from l (last (0 # level_nodes l i order)) i"
  using split
proof (induction B arbitrary: A)
  case (Cons b B)
  have "Node_Next l (last (0 # A)) i = Some b"
    using chain_append [of l i 0 A "b # B"] list_invD(11) [OF inv i] Cons.prems by simp
  then have "last_from l (last (0 # A)) i = last_from l b i" by (subst last_from.simps) simp
  also have "\<dots> = last_from l (last (0 # level_nodes l i order)) i" using Cons.IH [of "A @ [b]"] Cons.prems by simp
  finally show ?case .
qed simp

lemma last_prev:
  assumes inv: "list_inv l order"
  shows "i < kMaxHeight \<Longrightarrow> last_from l (last (0 # level_nodes l i order)) i = Some (last (0 # order))"
proof (induction i)
  case 0
  have "level_nodes l 0 order = order" by (rule level_0) (rule list_invD(9) [OF inv])
  moreover have "Node_Next l (last (0 # level_nodes l 0 order)) 0 = None"
    using chain_append [of l 0 0 "level_nodes l 0 order" "[]"] list_invD(11) [OF inv 0] by simp
  ultimately show ?case by (subst last_from.simps) simp
next
  case (Suc i)
  let ?x = "last (0 # level_nodes l (Suc i) order)"
  have "?x \<in> set (0 # level_nodes l (Suc i) order)" by (rule last_in_set) simp
  then have "?x = 0 \<or> ?x \<in> set (level_nodes l i order)" by (auto simp: set_level_nodes)
  then obtain A B where AB: "level_nodes l i order = A @ B" "?x = last (0 # A)" by (rule level_position)
  have "Node_Next l ?x (Suc i) = None"
    using chain_append [of l "Suc i" 0 "level_nodes l (Suc i) order" "[]"] list_invD(11) [OF inv Suc.prems] by simp
  then have "last_from l ?x (Suc i) = last_from l ?x i" by (subst last_from.simps) simp
  also have "\<dots> = last_from l (last (0 # level_nodes l i order)) i"
    unfolding AB(2) by (rule last_level [OF inv _ AB(1)]) (use Suc.prems in simp)
  finally show ?case using Suc by simp
qed

lemma FindLast_spec:
  assumes inv: "list_inv l order"
  shows "FindLast l = Some (last (0 # order))"
proof -
  have i: "max_height l - 1 < kMaxHeight" using list_invD(6,7) [OF inv] by simp
  show ?thesis using last_level [OF inv i, of "[]"] last_prev [OF inv i] by (simp add: FindLast_def)
qed

subsection \<open>Inserting\<close>

lemma random_height_range: "1 \<le> h \<Longrightarrow> h \<le> kMaxHeight \<Longrightarrow> random_height h s = (h', s') \<Longrightarrow> 1 \<le> h' \<and> h' \<le> kMaxHeight"
proof (induction h s rule: random_height.induct)
  case (1 h s)
  then show ?case by (subst (asm) (2) random_height.simps) (auto simp: Let_def split: if_splits)
qed

text \<open>Linking in one level after the other.\<close>

lemma link_levels:
  assumes x: "x < length (nodes l)" "height_of l x = h" "h \<le> kMaxHeight"
    and prev: "\<And>i. i < h \<Longrightarrow> prev ! i < length (nodes l) \<and> i < height_of l (prev ! i) \<and> prev ! i \<noteq> x"
  shows "k \<le> h \<Longrightarrow> length (nodes (fold (link_level x prev) [0..<k] l)) = length (nodes l) \<and>
    (\<forall>a. key_of (fold (link_level x prev) [0..<k] l) a = key_of l a \<and> height_of (fold (link_level x prev) [0..<k] l) a = height_of l a) \<and>
    max_height (fold (link_level x prev) [0..<k] l) = max_height l \<and>
    (\<forall>a m. Node_Next (fold (link_level x prev) [0..<k] l) a m =
      (if k \<le> m then Node_Next l a m else if a = x then Node_Next l (prev ! m) m
       else if a = prev ! m then Some x else Node_Next l a m))"
proof (induction k)
  case (Suc k)
  let ?l = "fold (link_level x prev) [0..<k] l"
  have IH: "length (nodes ?l) = length (nodes l)" "\<forall>a. key_of ?l a = key_of l a \<and> height_of ?l a = height_of l a"
    "max_height ?l = max_height l"
    "\<forall>a m. Node_Next ?l a m = (if k \<le> m then Node_Next l a m else if a = x then Node_Next l (prev ! m) m
       else if a = prev ! m then Some x else Node_Next l a m)"
    using Suc by auto
  have k: "k < h" using Suc.prems by simp
  have step: "fold (link_level x prev) [0..<Suc k] l = link_level x prev k ?l" by simp
  have "Node_Next (link_level x prev k ?l) a m = (if m \<noteq> k then Node_Next ?l a m else if a = x then Node_Next ?l (prev ! k) k
     else if a = prev ! k then Some x else Node_Next ?l a m)" for a m
    by (rule Next_link_level) (use IH k x prev [OF k] in auto)
  then show ?case unfolding step using IH by auto
qed simp

lemma max_fold: "j < length p \<Longrightarrow> fold (\<lambda>i p. p[i := v]) is p ! j = (if j \<in> set is then v else p ! j)"
proof (induction "is" arbitrary: p)
  case (Cons i "is")
  then show ?case using Cons.IH [of "p[i := v]"] by (auto simp: nth_list_update)
qed simp

text \<open>The list with room for the new node, not linked in.\<close>

definition grown :: "'k SkipList \<Rightarrow> 'k \<Rightarrow> nat \<Rightarrow> 32 word \<Rightarrow> 'k SkipList" where
  "grown l key h seed = l\<lparr>rnd := seed, max_height := max h (max_height l),
     nodes := nodes l @ [\<lparr>node_key = key, next_links = replicate h None\<rparr>]\<rparr>"

lemma grown_eq:
  "grown l key h seed = (if max_height l < h
     then l\<lparr>rnd := seed, max_height := h, nodes := nodes l @ [\<lparr>node_key = key, next_links = replicate h None\<rparr>]\<rparr>
     else l\<lparr>rnd := seed, nodes := nodes l @ [\<lparr>node_key = key, next_links = replicate h None\<rparr>]\<rparr>)"
  by (cases l) (simp add: grown_def max_def)

lemma sorted_wrt_insert:
  "sorted_wrt R (A @ B) \<Longrightarrow> (\<And>a. a \<in> set A \<Longrightarrow> R a x) \<Longrightarrow> (\<And>b. b \<in> set B \<Longrightarrow> R x b) \<Longrightarrow> sorted_wrt R (A @ x # B)"
  by (auto simp: sorted_wrt_append)

lemma distinct_insert: "distinct (z # A @ B) \<Longrightarrow> x \<notin> set A \<Longrightarrow> x \<notin> set B \<Longrightarrow> distinct (A @ x # B)"
  by auto

lemma Insert_steps:
  assumes inv: "list_inv l order" and key: "ok key" and h: "RandomHeight (rnd l) = (h, seed)"
  shows "\<exists>prev. Insert compare key l = Some (fold (link_level (length (nodes l)) prev) [0..<h] (grown l key h seed)) \<and>
    (\<forall>i < h. prev ! i = prev_at l key order i)"
proof -
  obtain prev where p: "FindGreaterOrEqual compare l key (replicate kMaxHeight 0) = Some (head_option (from_on l key order), prev)"
    "length prev = kMaxHeight" "\<forall>j < kMaxHeight. prev ! j = (if j < max_height l then prev_at l key order j else 0)"
    using FindGreaterOrEqual_spec [OF inv key, of "replicate kMaxHeight 0"] by auto
  have h12: "h \<le> kMaxHeight" using random_height_range [of 1 "rnd l" h seed] h by (simp add: RandomHeight_def kMaxHeight_def)
  have high: "prev_at l key order j = 0" if "max_height l \<le> j" for j
  proof -
    have "level_nodes l j (below l key order) = []"
      using list_invD(10) [OF inv] set_takeWhileD that by (fastforce simp: level_nodes_def filter_empty_conv)
    then show ?thesis by (simp add: prev_at_def)
  qed
  let ?prev = "if h > max_height l then fold (\<lambda>i p. p[i := 0]) [max_height l..<h] prev else prev"
  have "\<forall>i < h. ?prev ! i = prev_at l key order i"
    using p h12 high by (auto simp: max_fold)
  moreover have "Insert compare key l = Some (fold (link_level (length (nodes l)) ?prev) [0..<h] (grown l key h seed))"
    by (simp add: Insert_def p(1) h Let_def NewNode_def grown_eq)
  ultimately show ?thesis by blast
qed

text \<open>A node more, on as many levels as it is high.\<close>

lemma list_inv_insert:
  assumes inv: "list_inv l order" and split: "order = A @ B" and x: "x = length (nodes l)" and l': "length (nodes l') = Suc x"
    and max: "max_height l' = max h (max_height l)" and h: "1 \<le> h" "h \<le> kMaxHeight"
    and key: "ok (key_of l' x)" "\<And>n. n \<in> set order \<Longrightarrow> key_of l' n = key_of l n"
    and height: "height_of l' x = h" "\<And>n. n \<in> set order \<Longrightarrow> height_of l' n = height_of l n" "height_of l' 0 = kMaxHeight"
    and sorted: "sorted_wrt (\<lambda>a b. compare (key_of l' a) (key_of l' b) < 0) (A @ x # B)"
    and chains: "\<And>i. i < kMaxHeight \<Longrightarrow> chain l' i 0 (level_nodes l' i (A @ x # B))"
  shows "list_inv l' (A @ x # B)"
  unfolding list_inv_def
proof (intro conjI)
  note D = list_invD [OF inv]
  have set: "set (A @ x # B) = insert x (set order)" using split by auto
  have x0: "x \<notin> set order" "0 < x" using D(1,2) x by auto
  show "nodes l' \<noteq> []" using l' by auto
  show "set (A @ x # B) = {1..<length (nodes l')}" unfolding set D(2) l' using x0(2) x by (auto simp: Suc_le_eq)
  show "distinct (A @ x # B)" using D(3) x0 split by auto
  show "\<forall>n \<in> set (A @ x # B). ok (key_of l' n)" unfolding set using key D(5) by simp
  show "1 \<le> max_height l'" "max_height l' \<le> kMaxHeight" using max h D(6,7) by simp_all
  show "\<forall>n \<in> set (A @ x # B). 1 \<le> height_of l' n \<and> height_of l' n \<le> max_height l'"
    unfolding set using height(1,2) h max D(9,10) by (auto simp: le_max_iff_disj)
qed (use sorted chains height(3) in blast)+

lemma Insert_inv:
  assumes inv: "list_inv l order" and key: "ok key" and fresh: "\<forall>n \<in> set order. compare (key_of l n) key \<noteq> 0"
  shows "\<exists>l' order'. Insert compare key l = Some l' \<and> list_inv l' order' \<and>
    map (key_of l') order' = takeWhile (\<lambda>k. compare k key < 0) (map (key_of l) order) @ key #
      dropWhile (\<lambda>k. compare k key < 0) (map (key_of l) order)"
proof -
  obtain h seed where h: "RandomHeight (rnd l) = (h, seed)" by fastforce
  have hr: "1 \<le> h" "h \<le> kMaxHeight" using random_height_range [of 1 "rnd l" h seed] h by (simp_all add: RandomHeight_def kMaxHeight_def)
  obtain prev where ins: "Insert compare key l = Some (fold (link_level (length (nodes l)) prev) [0..<h] (grown l key h seed))"
    and prev: "\<forall>i < h. prev ! i = prev_at l key order i" using Insert_steps [OF inv key h] by blast
  define x where "x = length (nodes l)"
  define g where "g = grown l key h seed"
  define l' where "l' = fold (link_level x prev) [0..<h] g"
  let ?A = "below l key order" and ?B = "from_on l key order"
  let ?order = "?A @ x # ?B"
  note D = list_invD [OF inv]
  have x0: "0 < x" using D(1) by (simp add: x_def)
  have old: "a < x" if "a \<in> set order" for a using D(2) that by (auto simp: x_def)
  have g: "length (nodes g) = Suc x" "key_of g x = key" "height_of g x = h" "max_height g = max h (max_height l)"
    "\<And>a. a < x \<Longrightarrow> key_of g a = key_of l a" "\<And>a. a < x \<Longrightarrow> height_of g a = height_of l a"
    "\<And>a m. a < x \<Longrightarrow> Node_Next g a m = Node_Next l a m"
    by (simp_all add: g_def grown_def x_def nth_append Node_Next_def)
  have inA: "a \<in> set order" if "a \<in> set ?A" for a using that by (auto dest: set_takeWhileD)
  have inB: "a \<in> set order" if "a \<in> set ?B" for a using that by (auto dest: set_dropWhileD)
  have pr: "prev ! i < Suc x \<and> i < height_of g (prev ! i) \<and> prev ! i \<noteq> x" if i: "i < h" for i
  proof -
    have "prev ! i = 0 \<or> prev ! i \<in> set (level_nodes l i ?A)" using prev_at_lower [of i i l key order] prev i by simp
    then have "prev ! i < x \<and> i < height_of l (prev ! i)"
      using x0 old inA D(8) hr(2) i by (auto simp: set_level_nodes)
    then show ?thesis using g(6) by simp
  qed
  have L: "length (nodes l') = Suc x" "\<forall>a. key_of l' a = key_of g a \<and> height_of l' a = height_of g a"
    "max_height l' = max_height g"
    "\<forall>a m. Node_Next l' a m = (if h \<le> m then Node_Next g a m else if a = x then Node_Next g (prev ! m) m
      else if a = prev ! m then Some x else Node_Next g a m)"
    using link_levels [of x g h prev h] g pr hr(2) unfolding l'_def by auto
  have keys: "key_of l' x = key" "\<And>a. a \<in> set order \<Longrightarrow> key_of l' a = key_of l a"
    and heights: "height_of l' x = h" "\<And>a. a \<in> set order \<Longrightarrow> height_of l' a = height_of l a" "height_of l' 0 = kMaxHeight"
    using L(2) g old x0 D(8) by auto
  have lev: "level_nodes l' i ?A = level_nodes l i ?A" "level_nodes l' i ?B = level_nodes l i ?B" for i
    unfolding level_nodes_def by (rule filter_cong [OF refl], use heights(2) inA inB in simp)+
  have kept: "Node_Next l' a i = Node_Next l a i" if "a < x" "h \<le> i \<or> a \<noteq> prev ! i" for a i
    using L(4) g(7) that by auto
  have dist: "distinct (0 # ?A @ ?B)" using D(2,3) by auto
  have dist_level: "distinct (0 # level_nodes l i ?A @ level_nodes l i ?B)" for i
  proof -
    obtain A B where AB: "A = ?A" "B = ?B" by simp
    then have "distinct (0 # A @ B)" using dist by simp
    then show ?thesis unfolding AB [symmetric] by (auto simp: level_nodes_def)
  qed
  have chains: "chain l' i 0 (level_nodes l' i ?order)" if i: "i < kMaxHeight" for i
  proof -
    have c: "chain l i 0 (level_nodes l i ?A @ level_nodes l i ?B)"
      using D(11) [OF i] by (simp flip: level_nodes_simps(2))
    have in_old: "a < x" if "a \<in> set (0 # level_nodes l i ?A @ level_nodes l i ?B)" for a
      using that x0 old inA inB by (auto simp: set_level_nodes)
    show ?thesis
    proof (cases "i < h")
      case True
      have p: "prev ! i = last (0 # level_nodes l i ?A)" using prev True by (simp add: prev_at_def)
      have "chain l' i 0 (level_nodes l i ?A @ x # level_nodes l i ?B)"
      proof (rule chain_insert [OF c])
        show "distinct (0 # level_nodes l i ?A @ level_nodes l i ?B)"
          by (rule dist_level)
        show "x \<notin> set (0 # level_nodes l i ?A @ level_nodes l i ?B)" using in_old by blast
        show "Node_Next l' a i = Node_Next l a i"
          if "a \<in> set (0 # level_nodes l i ?A @ level_nodes l i ?B)" "a \<noteq> last (0 # level_nodes l i ?A)" for a
          by (rule kept) (use that in_old p in auto)
        show "Node_Next l' x i = Node_Next l (last (0 # level_nodes l i ?A)) i"
          using L(4) True p pr [OF True] g(7) [of "prev ! i" i] by auto
        show "Node_Next l' (last (0 # level_nodes l i ?A)) i = Some x"
          using L(4) True p pr [OF True] by auto
      qed
      then show ?thesis using True heights(1) lev by simp
    next
      case False
      have "chain l' i 0 (level_nodes l i ?A @ level_nodes l i ?B) = chain l i 0 (level_nodes l i ?A @ level_nodes l i ?B)"
        by (rule chain_cong) (use kept in_old False in auto)
      then show ?thesis using False heights(1) lev c by simp
    qed
  qed
  have above: "compare key (key_of l a) < 0" if a: "a \<in> set ?B" for a
    using from_on_above [OF inv key a] compare_sym [OF key D(5) [OF inB [OF a]]] fresh inB [OF a] by force
  have srt: "sorted_wrt (\<lambda>a b. compare (key_of l' a) (key_of l' b) < 0) ?order"
  proof -
    have "sorted_wrt (\<lambda>a b. compare (key_of l a) (key_of l b) < 0) (?A @ ?B)" using D(4) by simp
    then have "sorted_wrt (\<lambda>a b. compare (key_of l' a) (key_of l' b) < 0) (?A @ ?B)"
      by (rule sorted_wrt_mono_rel [rotated]) (use keys(2) in auto)
    then show ?thesis
      by (rule sorted_wrt_insert) (use above below_less keys inA inB in auto)
  qed
  have "list_inv l' ?order"
  proof (rule list_inv_insert [OF inv _ x_def L(1) _ hr _ keys(2) heights srt])
    show "order = ?A @ ?B" by (simp only: takeWhile_dropWhile_id)
    show "max_height l' = max h (max_height l)" using L(3) g(4) by simp
    show "ok (key_of l' x)" using keys(1) key by simp
  qed (assumption | erule chains)+
  moreover have "map (key_of l') ?order = map (key_of l) ?A @ key # map (key_of l) ?B"
    using keys(1) keys(2) [OF inA] keys(2) [OF inB] by (simp only: map_append list.map) (metis (no_types, lifting) map_cong)
  ultimately show ?thesis
    using ins by (intro exI [of _ l'] exI [of _ ?order]) (simp add: l'_def g_def x_def takeWhile_map dropWhile_map comp_def)
qed

subsection \<open>A new list\<close>

lemma replicate_update: "(replicate n x)[i := x] = replicate n x"
  by (cases "i < n") (simp_all add: list_update_same_conv list_update_beyond)

lemma new_list: "nodes (new_SkipList zero) = [\<lparr>node_key = zero, next_links = replicate kMaxHeight None\<rparr>]"
    "max_height (new_SkipList zero) = 1"
proof -
  have "fold (\<lambda>i. Node_SetNext 0 i None) is \<lparr>nodes = [\<lparr>node_key = zero, next_links = replicate n None\<rparr>], max_height = 1, rnd = r\<rparr> =
      \<lparr>nodes = [\<lparr>node_key = zero, next_links = replicate n None\<rparr>], max_height = 1, rnd = r\<rparr>" for "is" n and r
    by (induction "is") (simp_all add: Node_SetNext_def replicate_update)
  then have "new_SkipList zero = \<lparr>nodes = [\<lparr>node_key = zero, next_links = replicate kMaxHeight None\<rparr>], max_height = 1,
      rnd = new_Random 0xdeadbeef\<rparr>"
    by (simp add: new_SkipList_def NewNode_def)
  then show "nodes (new_SkipList zero) = [\<lparr>node_key = zero, next_links = replicate kMaxHeight None\<rparr>]"
    "max_height (new_SkipList zero) = 1" by simp_all
qed

lemma new_inv: "list_inv (new_SkipList zero) []"
  by (simp add: list_inv_def new_list kMaxHeight_def Node_Next_def)

subsection \<open>Its iterator\<close>

lemma bottom: "list_inv l order \<Longrightarrow> chain l 0 0 order"
  using list_invD(11) [of l order 0] level_0 [of order l] list_invD(9) [of l order] by (simp add: kMaxHeight_def)

lemma node_positive: "list_inv l order \<Longrightarrow> n \<in> set order \<Longrightarrow> 0 < n"
  using list_invD(2) [of l order] by auto

theorem iterator_first: "list_inv l order \<Longrightarrow> sl_SeekToFirst l = place order 0"
  using chain_head [OF bottom] by (simp add: sl_SeekToFirst_def place_def)

theorem iterator_next:
  assumes inv: "list_inv l order" and i: "i < length order"
  shows "sl_Next l (place order i) = place order (Suc i)"
proof -
  have "chain l 0 0 (take (Suc i) order @ drop (Suc i) order)" using bottom [OF inv] by simp
  from chain_head [OF chain_append [OF this]] show ?thesis
    using i by (simp add: sl_Next_def place_simps(1) take_Suc_conv_app_nth) (simp add: place_def)
qed

lemma below_place:
  assumes inv: "list_inv l order" and i: "i < length order"
  shows "below l (key_of l (order ! i)) order = take i order"
proof -
  have s: "sorted_wrt (\<lambda>a b. compare (key_of l a) (key_of l b) < 0) order" by (rule list_invD(4) [OF inv])
  have okn: "j < length order \<Longrightarrow> ok (key_of l (order ! j))" for j using list_invD(5) [OF inv] by simp
  show ?thesis
  proof (rule takeWhile_eq_take_P_nth)
    fix j assume "j < i" "j < length order"
    then show "compare (key_of l (order ! j)) (key_of l (order ! i)) < 0" using s i by (simp add: sorted_wrt_iff_nth_less)
  next
    show "\<not> compare (key_of l (order ! i)) (key_of l (order ! i)) < 0"
      using compare_sym [OF okn [OF i] okn [OF i]] by auto
  qed
qed

theorem iterator_prev:
  assumes inv: "list_inv l order" and i: "i < length order"
  shows "sl_Prev compare l (place order i) = Some (if i = 0 then None else place order (i - 1))"
proof (cases i)
  case 0
  then show ?thesis using FindLessThan_spec [OF inv, of "key_of l (order ! i)"] below_place [OF inv i] i list_invD(5) [OF inv]
    by (simp add: sl_Prev_def place_simps(1) or_null_def)
next
  case (Suc j)
  then have "last (take i order) = order ! j" "order ! j \<in> set order" using i by (simp_all add: take_Suc_conv_app_nth)
  then show ?thesis using FindLessThan_spec [OF inv, of "key_of l (order ! i)"] below_place [OF inv i] i Suc
      list_invD(5) [OF inv] node_positive [OF inv, of "order ! j"]
    by (cases order) (simp_all add: sl_Prev_def place_simps(1) or_null_def)
qed

theorem iterator_last:
  assumes inv: "list_inv l order"
  shows "sl_SeekToLast l = Some (place order (length order - 1))"
proof (cases "order = []")
  case True
  then show ?thesis using FindLast_spec [OF inv] by (simp add: sl_SeekToLast_def or_null_def place_simps)
next
  case False
  then show ?thesis using FindLast_spec [OF inv] node_positive [OF inv, of "last order"]
    by (simp add: sl_SeekToLast_def or_null_def place_simps last_conv_nth)
qed

theorem iterator_seek:
  assumes inv: "list_inv l order" and key: "ok key"
  shows "sl_Seek compare l key = Some (place order (length (below l key order)))"
  using FindGreaterOrEqual_spec [OF inv key, of "[]"]
  by (auto simp: sl_Seek_def place_def dropWhile_eq_drop)

theorem Contains_spec:
  assumes inv: "list_inv l order" and key: "ok key"
  shows "Contains compare l key = Some (\<exists>n \<in> set order. compare key (key_of l n) = 0)"
proof -
  let ?rest = "from_on l key order"
  have okn: "n \<in> set order \<Longrightarrow> ok (key_of l n)" for n by (rule list_invD(5) [OF inv])
  have zero: "compare a b = 0 \<longleftrightarrow> compare b a = 0" if "ok a" "ok b" for a b
    using compare_sym [OF that] compare_sym [OF that(2,1)] by linarith
  have c: "Contains compare l key = Some (case head_option ?rest of None \<Rightarrow> False | Some x \<Rightarrow> compare key (key_of l x) = 0)"
    using FindGreaterOrEqual_spec [OF inv key, of "[]"] by (auto simp: Contains_def)
  have in_rest: "n \<in> set ?rest" if "n \<in> set order" "compare key (key_of l n) = 0" for n
    using that below_less [of n l key order] zero [OF key okn [OF that(1)]] takeWhile_dropWhile_id [of _ order] set_append
    by (metis Un_iff less_irrefl)
  obtain R where R: "R = ?rest" by simp
  show ?thesis
  proof (cases R)
    case Nil
    then have "\<not> (\<exists>n \<in> set order. compare key (key_of l n) = 0)" using in_rest unfolding R [symmetric] by auto
    moreover have "Contains compare l key = Some False" using c Nil unfolding R [symmetric] by simp
    ultimately show ?thesis by simp
  next
    case (Cons h t)
    have h: "h \<in> set order" "\<not> compare (key_of l h) key < 0"
      using from_on_above [OF inv key, of h] Cons R set_dropWhileD [of h] by (metis list.set_intros(1))+
    have "compare key (key_of l h) = 0" if n: "n \<in> set order" "compare key (key_of l n) = 0" for n
    proof (rule ccontr)
      assume not: "compare key (key_of l h) \<noteq> 0"
      then have "n \<in> set t" using in_rest [OF n] n(2) Cons R by auto
      moreover have "sorted_wrt (\<lambda>a b. compare (key_of l a) (key_of l b) < 0) ?rest"
        using list_invD(4) [OF inv] takeWhile_dropWhile_id [of _ order] sorted_wrt_append by metis
      ultimately have "compare (key_of l h) (key_of l n) < 0" using Cons R by simp
      then show False
        using compare_equal [OF okn [OF h(1)] okn [OF n(1)] key] zero [OF key okn [OF n(1)]] n(2) h(2) by simp
    qed
    then show ?thesis using c h(1) unfolding R [symmetric] Cons by auto
  qed
qed

subsection \<open>Reading it\<close>

lemma read_keys_place: "list_inv l order \<Longrightarrow> read_keys l n (place order i) = map (key_of l) (take n (drop i order))"
proof (induction n arbitrary: i)
  case (Suc n)
  show ?case
  proof (cases "i < length order")
    case True
    then show ?thesis using Suc iterator_next [OF Suc.prems True]
      by (simp add: sl_Valid_def sl_key_def place_simps(1) flip: Cons_nth_drop_Suc)
  qed (simp add: place_simps(2) sl_Valid_def)
qed simp

lemma read_keys_back_place: "list_inv l order \<Longrightarrow> i < length order \<Longrightarrow>
    read_keys_back compare l n (place order i) = map (key_of l) (take n (rev (take (Suc i) order)))"
proof (induction n arbitrary: i)
  case (Suc n)
  have rev: "rev (take (Suc i) order) = order ! i # rev (take i order)" using Suc.prems(2) by (simp add: take_Suc_conv_app_nth)
  have stop: "read_keys_back compare l n None = []" by (cases n) (simp_all add: sl_Valid_def)
  show ?case
    using Suc.IH [of "i - 1"] Suc.prems iterator_prev [OF Suc.prems] stop unfolding rev
    by (cases i) (simp_all add: sl_Valid_def sl_key_def place_simps(1))
qed simp

lemma inserted:
  assumes inv: "list_inv l order" and keys: "\<forall>k \<in> set keys. ok k"
    and fresh: "sorted_wrt (\<lambda>a b. compare a b \<noteq> 0) (map (key_of l) order @ keys)"
  shows "\<exists>l' order'. insert_all compare keys l = Some l' \<and> list_inv l' order' \<and>
    mset (map (key_of l') order') = mset (map (key_of l) order @ keys)"
  using inv keys fresh
proof (induction keys arbitrary: l order)
  case (Cons k keys)
  have new: "\<forall>n \<in> set order. compare (key_of l n) k \<noteq> 0" using Cons.prems(3) by (auto simp: sorted_wrt_append)
  obtain l1 order1 where one: "Insert compare k l = Some l1" "list_inv l1 order1"
    and keys1: "map (key_of l1) order1 = takeWhile (\<lambda>x. compare x k < 0) (map (key_of l) order) @ k #
      dropWhile (\<lambda>x. compare x k < 0) (map (key_of l) order)"
    using Insert_inv [OF Cons.prems(1) _ new] Cons.prems(2) by auto
  have m: "mset (map (key_of l1) order1) = add_mset k (mset (map (key_of l) order))"
    unfolding keys1 by (rule mset_insert_split)
  then have set1: "set (map (key_of l1) order1) = insert k (set (map (key_of l) order))"
    by (metis set_mset_add_mset_insert set_mset_mset)
  have "sorted_wrt (\<lambda>a b. compare a b \<noteq> 0) (map (key_of l1) order1)"
    using list_invD(4) [OF one(2)] by (auto simp: sorted_wrt_map elim!: sorted_wrt_mono_rel [rotated])
  then have "sorted_wrt (\<lambda>a b. compare a b \<noteq> 0) (map (key_of l1) order1 @ keys)"
    using Cons.prems(3) unfolding sorted_wrt_append set1 by auto
  from Cons.IH [OF one(2) _ this] Cons.prems(2) obtain l' order' where "insert_all compare keys l1 = Some l'"
    "list_inv l' order'" "mset (map (key_of l') order') = mset (map (key_of l1) order1 @ keys)" by auto
  then show ?case using one(1) m by auto
qed auto

end

section \<open>The contract\<close>

text \<open>C9: Whatever heights the random numbers give, inserting distinct keys in any order into a new skip list
  returns, and leaves the sorted list of the keys: read forwards from \<^verbatim>\<open>SeekToFirst\<close> it gives the keys in
  order, read backwards from \<^verbatim>\<open>SeekToLast\<close> it gives them in reverse, \<^verbatim>\<open>Seek\<close> goes to the first key not
  below its target, and \<^verbatim>\<open>Contains\<close> answers whether a key was inserted.
\<close>

theorem skiplist_refines_sorted_list:
  assumes order: "key_order compare ok" and keys: "\<forall>k \<in> set keys. ok k"
    and distinct: "sorted_wrt (\<lambda>a b. compare a b \<noteq> 0) keys"
  shows "\<exists>l ks. insert_all compare keys (new_SkipList zero) = Some l \<and>
    mset ks = mset keys \<and> sorted_wrt (\<lambda>a b. compare a b < 0) ks \<and>
    read_keys l (length keys) (sl_SeekToFirst l) = ks \<and>
    (\<exists>n. sl_SeekToLast l = Some n \<and> read_keys_back compare l (length keys) n = rev ks) \<and>
    (\<forall>k. ok k \<longrightarrow> Contains compare l k = Some (\<exists>k' \<in> set keys. compare k k' = 0) \<and>
      (\<exists>n. sl_Seek compare l k = Some n \<and> read_keys l (length keys) n = dropWhile (\<lambda>k'. compare k' k < 0) ks))"
proof -
  obtain l order where l: "insert_all compare keys (new_SkipList zero) = Some l" "key_order.list_inv compare ok l order"
    "mset (map (key_of l) order) = mset keys"
    using key_order.inserted [OF order key_order.new_inv [OF order, of zero] keys] distinct by auto
  let ?ks = "map (key_of l) order"
  have len: "length order = length keys" using l(3) by (metis length_map size_mset)
  have set: "set keys = set ?ks" using l(3) by (metis set_mset_mset)
  note inv = l(2)
  have backwards: "read_keys_back compare l (length keys) (place order (length order - 1)) = rev ?ks"
  proof (cases "order = []")
    case False
    then have "length order - 1 < length order" by (cases order) simp_all
    then show ?thesis using key_order.read_keys_back_place [OF order inv, of "length order - 1" "length keys"] len False
      by (simp add: rev_map)
  qed (use len in simp)
  have seek: "read_keys l (length keys) (place order (length (takeWhile (\<lambda>n. compare (key_of l n) k < 0) order))) =
      dropWhile (\<lambda>k'. compare k' k < 0) ?ks" for k
    using key_order.read_keys_place [OF order inv, of "length keys"] len
    by (simp add: dropWhile_eq_drop [symmetric] dropWhile_map comp_def)
  show ?thesis
  proof (intro exI conjI allI impI)
    show "insert_all compare keys (new_SkipList zero) = Some l" by (rule l(1))
    show "mset ?ks = mset keys" by (rule l(3))
    show "sorted_wrt (\<lambda>a b. compare a b < 0) ?ks" using key_order.list_invD(4) [OF order inv] by (simp add: sorted_wrt_map)
    show "read_keys l (length keys) (sl_SeekToFirst l) = ?ks"
      using key_order.iterator_first [OF order inv] key_order.read_keys_place [OF order inv, of "length keys" 0] len by simp
    show "sl_SeekToLast l = Some (place order (length order - 1))" by (rule key_order.iterator_last [OF order inv])
    show "read_keys_back compare l (length keys) (place order (length order - 1)) = rev ?ks" by (rule backwards)
    fix k assume k: "ok k"
    show "Contains compare l k = Some (\<exists>k' \<in> set keys. compare k k' = 0)"
      using key_order.Contains_spec [OF order inv k] set by simp
    show "sl_Seek compare l k = Some (place order (length (takeWhile (\<lambda>n. compare (key_of l n) k < 0) order)))"
      by (rule key_order.iterator_seek [OF order inv k])
    show "read_keys l (length keys) (place order (length (takeWhile (\<lambda>n. compare (key_of l n) k < 0) order))) =
      dropWhile (\<lambda>k'. compare k' k < 0) ?ks" by (rule seek)
  qed
qed

theorem skiplist_refines_sorted_list_witness:
  "\<exists>l ks. insert_all (\<lambda>a b. a - b) [5, 3, 9 :: int] (new_SkipList 0) = Some l \<and>
    mset ks = mset [5, 3, 9] \<and> sorted_wrt (\<lambda>a b. a - b < 0) ks \<and>
    read_keys l (length [5, 3, 9 :: int]) (sl_SeekToFirst l) = ks \<and>
    (\<exists>n. sl_SeekToLast l = Some n \<and> read_keys_back (\<lambda>a b. a - b) l (length [5, 3, 9 :: int]) n = rev ks) \<and>
    (\<forall>k. True \<longrightarrow> Contains (\<lambda>a b. a - b) l k = Some (\<exists>k' \<in> set [5, 3, 9]. k - k' = 0) \<and>
      (\<exists>n. sl_Seek (\<lambda>a b. a - b) l k = Some n \<and>
        read_keys l (length [5, 3, 9 :: int]) n = dropWhile (\<lambda>k'. k' - k < 0) ks))"
  by (rule skiplist_refines_sorted_list) (unfold_locales, simp_all)

end
