(* ===== verification/Ldb_MemTable.thy ===== *)
theory Ldb_MemTable
  imports Ldb_SkipList_Facts Ldb_Iterator
begin

text \<open>
  The memtable (\<^verbatim>\<open>db/memtable.h\<close>, \<^verbatim>\<open>db/memtable.cc\<close>): a skip list of entries in memory, each a length
  prefixed internal key and a length prefixed value, with \<^verbatim>\<open>Add\<close>, \<^verbatim>\<open>Get\<close> and the iterator.  It refines
  the history of the versions added to it.
\<close>

section \<open>Entries\<close>

text \<open>
  A pointer into an entry is the bytes from it on.  \<^verbatim>\<open>GetVarint32Ptr(p, p + 5, &len)\<close>: the number and
  where the pointer goes; the code assumes that the entry is not corrupted.
\<close>

definition mem_varint :: "byte list \<Rightarrow> 32 word \<times> byte list" where
  "mem_varint p =
     (case GetVarint32Ptr (take 5 p) of
        None \<Rightarrow> (0, [])
      | Some (len, q) \<Rightarrow> (len, drop (length (take 5 p) - length q) p))"

text \<open>\<^verbatim>\<open>GetLengthPrefixedSlice\<close> of \<^verbatim>\<open>memtable.cc\<close>: the slice, and the memory behind it.\<close>

definition mem_slice :: "byte list \<Rightarrow> slice \<times> byte list" where
  "mem_slice data = (let (len, p) = mem_varint data in (take (unat len) p, drop (unat len) p))"

definition KeyComparator :: "Comparator \<Rightarrow> byte list \<Rightarrow> byte list \<Rightarrow> int" where
  "KeyComparator c aptr bptr =
     (let a = fst (mem_slice aptr); b = fst (mem_slice bptr) in Compare (InternalKeyComparator c) a b)"

definition EncodeKey :: "slice \<Rightarrow> byte list" where
  "EncodeKey target = PutVarint32 [] (of_nat (length target)) @ target"

section \<open>The memtable\<close>

text \<open>The user comparator stands for the internal comparator made of it.\<close>

record MemTable =
  mt_comparator :: Comparator
  mt_refs :: int
  mt_table :: "byte list SkipList"

definition new_MemTable :: "Comparator \<Rightarrow> MemTable" where
  "new_MemTable c = \<lparr>mt_comparator = c, mt_refs = 0, mt_table = new_SkipList []\<rparr>"

definition MemTable_Ref :: "MemTable \<Rightarrow> MemTable" where
  "MemTable_Ref mt = mt\<lparr>mt_refs := mt_refs mt + 1\<rparr>"

text \<open>\<^const>\<open>None\<close> is a deleted table.\<close>

definition MemTable_Unref :: "MemTable \<Rightarrow> MemTable option" where
  "MemTable_Unref mt = (let mt = mt\<lparr>mt_refs := mt_refs mt - 1\<rparr> in if mt_refs mt \<le> 0 then None else Some mt)"

text \<open>What an entry takes in the arena, and the bytes written there.\<close>

definition encoded_len :: "slice \<Rightarrow> slice \<Rightarrow> int" where
  "encoded_len key value =
     (let key_size = length key; val_size = length value; internal_key_size = key_size + 8 in
      VarintLength (of_nat internal_key_size) + int internal_key_size + VarintLength (of_nat val_size) + int val_size)"

definition mem_buffer :: "SequenceNumber \<Rightarrow> ValueType \<Rightarrow> slice \<Rightarrow> slice \<Rightarrow> byte list" where
  "mem_buffer s type key value =
     EncodeVarint32 (of_nat (length key + 8)) @ key @ EncodeFixed64 (push_bit 8 s OR value_type_code type) @
     EncodeVarint32 (of_nat (length value)) @ value"

definition MemTable_Add :: "SequenceNumber \<Rightarrow> ValueType \<Rightarrow> slice \<Rightarrow> slice \<Rightarrow> MemTable \<Rightarrow> MemTable option" where
  "MemTable_Add s type key value mt =
     map_option (\<lambda>l. mt\<lparr>mt_table := l\<rparr>)
       (Insert (KeyComparator (mt_comparator mt)) (mem_buffer s type key value) (mt_table mt))"

text \<open>Whether the key was found, and what is then in \<^verbatim>\<open>*value\<close> and \<^verbatim>\<open>*s\<close>.\<close>

definition MemTable_Get :: "MemTable \<Rightarrow> LookupKey \<Rightarrow> byte list \<Rightarrow> Status \<Rightarrow> (bool \<times> byte list \<times> Status) option" where
  "MemTable_Get mt key value s =
     (let memkey = LookupKey_memtable_key key in
      case sl_Seek (KeyComparator (mt_comparator mt)) (mt_table mt) memkey of
        None \<Rightarrow> None
      | Some iter \<Rightarrow> Some
          (if sl_Valid iter then
             let entry = sl_key (mt_table mt) iter;
                 (key_length, key_ptr) = mem_varint entry in
             if Compare (mt_comparator mt) (take (unat (key_length - 8)) key_ptr) (LookupKey_user_key key) = 0 then
               let tag = DecodeFixed64 (drop (unat key_length - 8) key_ptr) in
               if tag AND 0xff = value_type_code kTypeValue then
                 (True, fst (mem_slice (drop (unat key_length) key_ptr)), s)
               else if tag AND 0xff = value_type_code kTypeDeletion then
                 (True, value, Status_NotFound [] [])
               else (False, value, s)
             else (False, value, s)
           else (False, value, s)))"

text \<open>The iterator is its \<^verbatim>\<open>iter_\<close>; \<^const>\<open>None\<close> stands for an operation that did not return.\<close>

definition MemTableIterator :: "Comparator \<Rightarrow> byte list SkipList \<Rightarrow> (nat option option) Iterator" where
  "MemTableIterator c l =
     \<lparr>it_Valid = (\<lambda>i. case i of None \<Rightarrow> False | Some node \<Rightarrow> sl_Valid node),
      it_SeekToFirst = (\<lambda>i. map_option (\<lambda>_. sl_SeekToFirst l) i),
      it_SeekToLast = (\<lambda>i. Option.bind i (\<lambda>_. sl_SeekToLast l)),
      it_Seek = (\<lambda>i k. Option.bind i (\<lambda>_. sl_Seek (KeyComparator c) l (EncodeKey k))),
      it_Next = (\<lambda>i. map_option (sl_Next l) i),
      it_Prev = (\<lambda>i. Option.bind i (sl_Prev (KeyComparator c) l)),
      it_key = (\<lambda>i. fst (mem_slice (sl_key l (the i)))),
      it_value = (\<lambda>i. fst (mem_slice (snd (mem_slice (sl_key l (the i)))))),
      it_status = (\<lambda>i. Status_OK)\<rparr>"

definition MemTable_NewIterator :: "MemTable \<Rightarrow> (nat option option) Iterator \<times> nat option option" where
  "MemTable_NewIterator mt = (MemTableIterator (mt_comparator mt) (mt_table mt), Some None)"

section \<open>Reading entries\<close>

lemma mem_varint_Encode: "mem_varint (EncodeVarint32 v @ rest) = (v, rest)"
proof -
  have len: "length (EncodeVarint32 v) \<le> 5" using varint_buffers by blast
  then have t: "take 5 (EncodeVarint32 v @ rest) = EncodeVarint32 v @ take (5 - length (EncodeVarint32 v)) rest" by simp
  have "GetVarint32Ptr (take 5 (EncodeVarint32 v @ rest)) = Some (v, take (5 - length (EncodeVarint32 v)) rest)"
    unfolding t by (simp add: fast_path varint32_loop_codec)
  then show ?thesis using len by (simp add: mem_varint_def)
qed

lemma small_length: "n < 2 ^ 32 \<Longrightarrow> unat (of_nat n :: 32 word) = n"
  by (simp add: unat_of_nat)

lemma mem_slice_Put: "length k < 2 ^ 32 \<Longrightarrow> mem_slice (PutLengthPrefixedSlice [] k @ rest) = (k, rest)"
  using small_length [of "length k"] by (simp add: mem_slice_def PutLengthPrefixedSlice_def PutVarint32_def mem_varint_Encode)

definition mem_bytes :: "slice \<times> slice \<Rightarrow> byte list" where
  "mem_bytes e = PutLengthPrefixedSlice [] (fst e) @ PutLengthPrefixedSlice [] (snd e)"

lemma mem_buffer_bytes: "mem_buffer s t key value =
    mem_bytes (AppendInternalKey [] \<lparr>user_key = key, sequence = s, value_type = t\<rparr>, value)"
  by (simp add: mem_buffer_def mem_bytes_def PutLengthPrefixedSlice_def PutVarint32_def AppendInternalKey_def PutFixed64_def
    PackSequenceAndType_def)

lemma EncodeKey_Put: "EncodeKey k = PutLengthPrefixedSlice [] k"
  by (simp add: EncodeKey_def PutLengthPrefixedSlice_def PutVarint32_def)

lemma memtable_key_Put: "LookupKey_memtable_key (new_LookupKey u s) =
    PutLengthPrefixedSlice [] (AppendInternalKey [] \<lparr>user_key = u, sequence = s, value_type = kTypeValue\<rparr>)"
  by (simp add: LookupKey_memtable_key_def new_LookupKey_def PutLengthPrefixedSlice_def PutVarint32_def AppendInternalKey_def
    PutFixed64_def Let_def kValueTypeForSeek_def)

subsection \<open>The buffer of an entry\<close>

text \<open>\<^verbatim>\<open>VarintLength\<close> counts the bytes \<^verbatim>\<open>EncodeVarint32\<close> writes.\<close>

lemma VarintLength_step: "n < 64 \<Longrightarrow> VarintLength (drop_bit n w) =
    (if unat w < 128 * 2 ^ n then 1 else 1 + VarintLength (drop_bit (n + 7) w))"
proof -
  assume n: "n < 64"
  have "unat (drop_bit n w) = unat w div 2 ^ n"
    using n unsigned_less [of w, where 'a = nat] by (simp add: unsigned_drop_bit_eq take_bit_nat_eq_self) (simp add: drop_bit_eq_div)
  then have "128 \<le> drop_bit n w \<longleftrightarrow> 128 * 2 ^ n \<le> unat w"
    by (simp add: word_le_nat_alt less_eq_div_iff_mult_less_eq)
  then show ?thesis by (subst VarintLength.simps) (simp add: drop_bit_drop_bit add.commute)
qed
lemma EncodeVarint32_VarintLength: "int (length (EncodeVarint32 v)) = VarintLength (ucast v)"
proof -
  let ?w = "ucast v :: 64 word"
  have w: "unat ?w = unat v" "unat v < 2 ^ 32" using unsigned_less [of v, where 'a = nat] by (simp_all add: unsigned_ucast_eq take_bit_nat_eq_self)
  show ?thesis
    using w VarintLength_step [of 0 ?w] VarintLength_step [of 7 ?w] VarintLength_step [of 14 ?w] VarintLength_step [of 21 ?w]
      VarintLength_step [of 28 ?w]
    by (simp add: EncodeVarint32_def word_less_nat_alt)
qed
text \<open>The assertion at the end of \<^verbatim>\<open>Add\<close>: the entry fills its buffer exactly.\<close>

lemma mem_buffer_length:
  assumes "length key + 8 < 2 ^ 32" and "length val < 2 ^ 32"
  shows "int (length (mem_buffer s t key val)) = encoded_len key val"
proof -
  have "ucast (of_nat n :: 32 word) = (of_nat n :: 64 word)" if "n < 2 ^ 32" for n
    using that by (intro word_unat_eq_iff [THEN iffD2]) (simp add: unsigned_ucast_eq unat_of_nat take_bit_eq_mod)
  from this [OF assms(1)] this [OF assms(2)] show ?thesis
    using EncodeVarint32_VarintLength [of "of_nat (length key + 8)"] EncodeVarint32_VarintLength [of "of_nat (length val)"]
    by (simp add: mem_buffer_def encoded_len_def Let_def)
qed

end
