(* ===== verification/Ldb_MemTable_Facts.thy ===== *)
theory Ldb_MemTable_Facts
  imports Ldb_MemTable Ldb_Block_Facts
begin

text \<open>
  The memtable keeps its entries in the order of the internal keys, serves the contract of an iterator,
  and answers a lookup with the newest version not above the sequence number of the lookup.
\<close>

section \<open>The history of versions\<close>

primrec add_versions :: "(ParsedInternalKey \<times> slice) list \<Rightarrow> MemTable \<Rightarrow> MemTable option" where
  "add_versions [] mt = Some mt"
| "add_versions (q # vs) mt =
     Option.bind (MemTable_Add (sequence (fst q)) (value_type (fst q)) (user_key (fst q)) (snd q) mt) (add_versions vs)"

text \<open>The version of a key with the greatest number not above a snapshot.\<close>

definition newer :: "slice \<Rightarrow> SequenceNumber \<Rightarrow> ParsedInternalKey \<times> slice \<Rightarrow>
    (ParsedInternalKey \<times> slice) option \<Rightarrow> (ParsedInternalKey \<times> slice) option" where
  "newer u snapshot q best =
     (if user_key (fst q) = u \<and> sequence (fst q) \<le> snapshot \<and>
        (case best of None \<Rightarrow> True | Some b \<Rightarrow> sequence (fst b) < sequence (fst q))
      then Some q else best)"

definition newest :: "(ParsedInternalKey \<times> slice) list \<Rightarrow> slice \<Rightarrow> SequenceNumber \<Rightarrow> (ParsedInternalKey \<times> slice) option" where
  "newest vs u snapshot = fold (newer u snapshot) vs None"

lemma newest_snoc: "newest (vs @ [q]) u snapshot = newer u snapshot q (newest vs u snapshot)"
  by (simp add: newest_def)

lemma newest_NoneD: "newest vs u snapshot = None \<Longrightarrow> r \<in> set vs \<Longrightarrow> \<not> (user_key (fst r) = u \<and> sequence (fst r) \<le> snapshot)"
  by (induction vs rule: rev_induct) (auto simp: newest_snoc newer_def split: if_splits)

lemma newest_SomeD:
  assumes "newest vs u snapshot = Some q"
  shows "q \<in> set vs" and "user_key (fst q) = u" and "sequence (fst q) \<le> snapshot"
    and "\<And>r. r \<in> set vs \<Longrightarrow> user_key (fst r) = u \<Longrightarrow> sequence (fst r) \<le> snapshot \<Longrightarrow> sequence (fst r) \<le> sequence (fst q)"
proof -
  have "q \<in> set vs \<and> user_key (fst q) = u \<and> sequence (fst q) \<le> snapshot \<and>
    (\<forall>r \<in> set vs. user_key (fst r) = u \<and> sequence (fst r) \<le> snapshot \<longrightarrow> sequence (fst r) \<le> sequence (fst q))"
    using assms
  proof (induction vs arbitrary: q rule: rev_induct)
    case (snoc v vs)
    then show ?case
      using newest_NoneD [of vs u snapshot]
      by (cases "newest vs u snapshot") (force simp: newest_snoc newer_def split: if_splits)+
  qed (simp add: newest_def)
  then show "q \<in> set vs" "user_key (fst q) = u" "sequence (fst q) \<le> snapshot"
    "\<And>r. r \<in> set vs \<Longrightarrow> user_key (fst r) = u \<Longrightarrow> sequence (fst r) \<le> snapshot \<Longrightarrow> sequence (fst r) \<le> sequence (fst q)"
    by blast+
qed

lemma mem_buffer_version: "mem_buffer (sequence p) (value_type p) (user_key p) v = mem_bytes (AppendInternalKey [] p, v)"
  for p :: ParsedInternalKey
  by (cases p) (simp add: mem_buffer_bytes)

lemma Pack_low64: "PackSequenceAndType s t AND 0xff = value_type_code t"
proof -
  have "PackSequenceAndType s t AND 0xff = take_bit 8 (PackSequenceAndType s t)" by (simp add: take_bit_eq_mask mask_eq_exp_minus_1)
  also have "\<dots> = value_type_code t"
    by (rule bit_word_eqI) (auto simp: PackSequenceAndType_def bit_simps dest: type_bits)
  finally show ?thesis .
qed

section \<open>The skip list of entries\<close>

context user_comparator
begin

definition mem_key :: "slice \<Rightarrow> bool" where
  "mem_key k \<longleftrightarrow> ikey k \<and> length k < 2 ^ 32"

definition mem_ok :: "byte list \<Rightarrow> bool" where
  "mem_ok b \<longleftrightarrow> (\<exists>k rest. b = PutLengthPrefixedSlice [] k @ rest \<and> mem_key k)"

lemma mem_okD: "mem_ok b \<Longrightarrow> ikey (fst (mem_slice b))"
  by (auto simp: mem_ok_def mem_key_def mem_slice_Put)

lemma mem_okI: "mem_key k \<Longrightarrow> mem_ok (PutLengthPrefixedSlice [] k @ rest)" "mem_key k \<Longrightarrow> mem_ok (PutLengthPrefixedSlice [] k)"
  using append_Nil2 by (auto simp: mem_ok_def)

lemma mem_slice_key: "mem_key k \<Longrightarrow> fst (mem_slice (PutLengthPrefixedSlice [] k @ rest)) = k"
  "mem_key k \<Longrightarrow> fst (mem_slice (PutLengthPrefixedSlice [] k)) = k"
  using mem_slice_Put [of k rest] mem_slice_Put [of k "[]"] by (simp_all add: mem_key_def)

end

sublocale user_comparator \<subseteq> memk: key_order "KeyComparator cmp" mem_ok
proof unfold_locales
  fix a b c
  assume a: "mem_ok a" and b: "mem_ok b"
  show "KeyComparator cmp a b < 0 \<longleftrightarrow> 0 < KeyComparator cmp b a"
    using ikc.cmp_sym [OF mem_okD [OF a] mem_okD [OF b]] by (simp add: KeyComparator_def Let_def)
  assume c: "mem_ok c" and ab: "KeyComparator cmp a b < 0"
  show "KeyComparator cmp b c < 0 \<Longrightarrow> KeyComparator cmp a c < 0"
    using ikc.cmp_trans [OF mem_okD [OF a] mem_okD [OF b] mem_okD [OF c]] ab by (simp add: KeyComparator_def Let_def)
  show "KeyComparator cmp b c = 0 \<Longrightarrow> KeyComparator cmp a c < 0"
    using ikc.cmp_eq [OF mem_okD [OF b] mem_okD [OF c]] ab by (simp add: KeyComparator_def Let_def)
qed

context user_comparator
begin

text \<open>The table holds the entries \<open>es\<close>, with its nodes in the order \<open>order\<close>.\<close>

definition mem_entry :: "slice \<times> slice \<Rightarrow> bool" where
  "mem_entry e \<longleftrightarrow> mem_key (fst e) \<and> length (snd e) < 2 ^ 32"

definition holds :: "byte list SkipList \<Rightarrow> nat list \<Rightarrow> entries \<Rightarrow> bool" where
  "holds l order es \<longleftrightarrow> memk.list_inv l order \<and> map (key_of l) order = map mem_bytes es \<and> (\<forall>e \<in> set es. mem_entry e)"

lemma mem_bytes_ok: "mem_entry e \<Longrightarrow> mem_ok (mem_bytes e)"
  unfolding mem_bytes_def by (rule mem_okI) (simp add: mem_entry_def)

lemma mem_bytes_key: "mem_entry e \<Longrightarrow> fst (mem_slice (mem_bytes e)) = fst e"
  unfolding mem_bytes_def by (rule mem_slice_key) (simp add: mem_entry_def)

lemma mem_bytes_value: "mem_entry e \<Longrightarrow> fst (mem_slice (snd (mem_slice (mem_bytes e)))) = snd e"
  using mem_slice_Put [of "fst e" "PutLengthPrefixedSlice [] (snd e)"] mem_slice_Put [of "snd e" "[]"]
  by (simp add: mem_bytes_def mem_entry_def mem_key_def)

lemma compare_entry: "mem_entry e \<Longrightarrow> mem_key k \<Longrightarrow>
    KeyComparator cmp (mem_bytes e) (PutLengthPrefixedSlice [] k) = Compare (InternalKeyComparator cmp) (fst e) k"
  by (simp add: KeyComparator_def Let_def mem_bytes_key mem_slice_key)

lemma compare_entries: "mem_entry e \<Longrightarrow> mem_entry e' \<Longrightarrow>
    KeyComparator cmp (mem_bytes e) (mem_bytes e') = Compare (InternalKeyComparator cmp) (fst e) (fst e')"
  by (simp add: KeyComparator_def Let_def mem_bytes_key)

lemma holds_length: "holds l order es \<Longrightarrow> length order = length es"
  by (metis holds_def length_map)

lemma holds_nth: "holds l order es \<Longrightarrow> i < length es \<Longrightarrow> key_of l (order ! i) = mem_bytes (es ! i) \<and> mem_entry (es ! i)"
proof -
  assume h: "holds l order es" and i: "i < length es"
  have "map (key_of l) order ! i = map mem_bytes es ! i" "es ! i \<in> set es" using h i by (simp_all add: holds_def)
  then show ?thesis using h i holds_length [OF h] by (simp add: holds_def)
qed

lemma holds_new: "holds (new_SkipList []) [] []"
  by (simp add: holds_def memk.new_inv)

lemma holds_sorted:
  assumes "holds l order es"
  shows "sorted_wrt (\<lambda>a b. Compare (InternalKeyComparator cmp) (fst a) (fst b) < 0) es"
proof -
  have inv: "memk.list_inv l order" and keys: "map (key_of l) order = map mem_bytes es" using assms by (simp_all add: holds_def)
  have "sorted_wrt (\<lambda>a b. KeyComparator cmp a b < 0) (map (key_of l) order)"
    unfolding sorted_wrt_map by (rule memk.list_invD(4) [OF inv])
  then have "sorted_wrt (\<lambda>a b. KeyComparator cmp a b < 0) (map mem_bytes es)" unfolding keys .
  then show ?thesis
    unfolding sorted_wrt_map by (rule sorted_wrt_mono_rel [rotated]) (use assms compare_entries in \<open>simp add: holds_def\<close>)
qed

text \<open>An added entry goes where its key belongs.\<close>

definition add_entry :: "slice \<times> slice \<Rightarrow> entries \<Rightarrow> entries" where
  "add_entry e es = takeWhile (\<lambda>x. Compare (InternalKeyComparator cmp) (fst x) (fst e) < 0) es @ e #
     dropWhile (\<lambda>x. Compare (InternalKeyComparator cmp) (fst x) (fst e) < 0) es"

lemma takeWhile_mem: "\<forall>e \<in> set es. mem_entry e \<Longrightarrow> mem_entry e \<Longrightarrow>
    takeWhile (\<lambda>k. KeyComparator cmp k (mem_bytes e) < 0) (map mem_bytes es) =
      map mem_bytes (takeWhile (\<lambda>x. Compare (InternalKeyComparator cmp) (fst x) (fst e) < 0) es) \<and>
    dropWhile (\<lambda>k. KeyComparator cmp k (mem_bytes e) < 0) (map mem_bytes es) =
      map mem_bytes (dropWhile (\<lambda>x. Compare (InternalKeyComparator cmp) (fst x) (fst e) < 0) es)"
  by (induction es) (simp_all add: compare_entries)

lemma set_add_entry: "set (add_entry e es) = insert e (set es)"
proof -
  obtain A B where AB: "A = takeWhile (\<lambda>x. Compare (InternalKeyComparator cmp) (fst x) (fst e) < 0) es"
    "B = dropWhile (\<lambda>x. Compare (InternalKeyComparator cmp) (fst x) (fst e) < 0) es" by simp
  then have "es = A @ B" by simp
  then show ?thesis unfolding add_entry_def AB [symmetric] by auto
qed

lemma Insert_holds:
  assumes h: "holds l order es" and e: "mem_entry e" and fresh: "fst e \<notin> fst ` set es"
  shows "\<exists>l' order'. Insert (KeyComparator cmp) (mem_bytes e) l = Some l' \<and> holds l' order' (add_entry e es)"
proof -
  have inv: "memk.list_inv l order" and keys: "map (key_of l) order = map mem_bytes es" and all: "\<forall>e \<in> set es. mem_entry e"
    using h by (simp_all add: holds_def)
  have new: "\<forall>n \<in> set order. KeyComparator cmp (key_of l n) (mem_bytes e) \<noteq> 0"
  proof
    fix n assume "n \<in> set order"
    then have "key_of l n \<in> set (map (key_of l) order)" by simp
    then have "key_of l n \<in> mem_bytes ` set es" unfolding keys by simp
    then obtain x where x: "x \<in> set es" "key_of l n = mem_bytes x" by blast
    then have "mem_entry x" using all by blast
    moreover have "fst x \<noteq> fst e" using x(1) fresh by (metis imageI)
    ultimately show "KeyComparator cmp (key_of l n) (mem_bytes e) \<noteq> 0"
      using x ikc.cmp_eq [of "fst x" "fst e"] e by (auto simp: compare_entries mem_entry_def mem_key_def)
  qed
  obtain l' order' where i: "Insert (KeyComparator cmp) (mem_bytes e) l = Some l'" "memk.list_inv l' order'"
    "map (key_of l') order' = takeWhile (\<lambda>k. KeyComparator cmp k (mem_bytes e) < 0) (map (key_of l) order) @ mem_bytes e #
      dropWhile (\<lambda>k. KeyComparator cmp k (mem_bytes e) < 0) (map (key_of l) order)"
    using memk.Insert_inv [OF inv mem_bytes_ok [OF e] new] by blast
  have "map (key_of l') order' = map mem_bytes (add_entry e es)"
    using takeWhile_mem [OF all e] unfolding i(3) keys add_entry_def by simp
  then have "holds l' order' (add_entry e es)" using i(2) all e by (simp add: holds_def set_add_entry)
  then show ?thesis using i(1) by blast
qed

subsection \<open>Its iterator\<close>

definition mem_at :: "nat list \<Rightarrow> entries \<Rightarrow> nat option option \<Rightarrow> nat \<Rightarrow> bool" where
  "mem_at order es s i \<longleftrightarrow> i \<le> length es \<and> s = Some (place order i)"

lemma below_entries:
  assumes h: "holds l order es" and k: "mem_key k"
  shows "length (takeWhile (\<lambda>n. KeyComparator cmp (key_of l n) (PutLengthPrefixedSlice [] k) < 0) order) =
    seek_index (InternalKeyComparator cmp) es k"
proof -
  have "length (takeWhile P (map f xs)) = length (takeWhile (\<lambda>x. P (f x)) xs)" for P and f :: "'x \<Rightarrow> 'y" and xs
    by (induction xs) simp_all
  note len = this
  have "length (takeWhile (\<lambda>n. KeyComparator cmp (key_of l n) (PutLengthPrefixedSlice [] k) < 0) order) =
      length (takeWhile (\<lambda>b. KeyComparator cmp b (PutLengthPrefixedSlice [] k) < 0) (map mem_bytes es))"
    using len [of "\<lambda>b. KeyComparator cmp b (PutLengthPrefixedSlice [] k) < 0" "key_of l" order] h by (simp add: holds_def)
  also have "\<dots> = seek_index (InternalKeyComparator cmp) es k"
    unfolding len seek_index_def
    by (rule arg_cong [where f = length], rule takeWhile_cong) (use h k compare_entry in \<open>auto simp: holds_def\<close>)
  finally show ?thesis .
qed

lemma Seek_entries:
  assumes h: "holds l order es" and k: "mem_key k"
  shows "sl_Seek (KeyComparator cmp) l (PutLengthPrefixedSlice [] k) = Some (place order (seek_index (InternalKeyComparator cmp) es k))"
  using memk.iterator_seek [of l order "PutLengthPrefixedSlice [] k"] mem_okI(2) [OF k] below_entries [OF h k] h
  by (simp add: holds_def)

lemma mem_iterator:
  assumes h: "holds l order es"
  shows "entry_iterator (MemTableIterator cmp l) (InternalKeyComparator cmp) es (mem_at order es) (\<lambda>s. s \<noteq> None) mem_key"
proof
  have inv: "memk.list_inv l order" and len: "length order = length es" using h holds_length by (auto simp: holds_def)
  note D = MemTableIterator_def
  fix s i assume at: "mem_at order es s i"
  then have s: "s = Some (place order i)" "i \<le> length es" by (simp_all add: mem_at_def)
  show "s \<noteq> None" "i \<le> length es" using s by simp_all
  show "it_Valid (MemTableIterator cmp l) s = (i < length es)"
    using s place_simps [where i = i and order = order] len by (cases "i < length es") (simp_all add: D sl_Valid_def)
  assume i: "i < length es"
  show "(it_key (MemTableIterator cmp l) s, it_value (MemTableIterator cmp l) s) = es ! i"
    using s i holds_nth [OF h i] len by (simp add: D sl_key_def place_simps(1) mem_bytes_key mem_bytes_value)
  show "mem_at order es (it_Next (MemTableIterator cmp l) s) (Suc i)"
    using s i memk.iterator_next [OF inv] len by (simp add: D mem_at_def)
  show "mem_at order es (it_Prev (MemTableIterator cmp l) s) (if i = 0 then length es else i - 1)"
    using s i memk.iterator_prev [OF inv] len by (auto simp: D mem_at_def place_simps(2))
next
  have inv: "memk.list_inv l order" and len: "length order = length es" using h holds_length by (auto simp: holds_def)
  note D = MemTableIterator_def
  fix s :: "nat option option" assume s: "s \<noteq> None"
  show "status_ok (it_status (MemTableIterator cmp l) s)" by (simp add: D)
  show "mem_at order es (it_SeekToFirst (MemTableIterator cmp l) s) 0"
    using s memk.iterator_first [OF inv] by (auto simp: D mem_at_def)
  show "mem_at order es (it_SeekToLast (MemTableIterator cmp l) s) (length es - 1)"
    using s memk.iterator_last [OF inv] len by (auto simp: D mem_at_def)
  fix t assume "mem_key t"
  then show "mem_at order es (it_Seek (MemTableIterator cmp l) s t) (seek_index (InternalKeyComparator cmp) es t)"
    using s Seek_entries [OF h] seek_index_le by (auto simp: D mem_at_def EncodeKey_Put)
qed

subsection \<open>Looking a key up\<close>

abbreviation ikey_of :: "ParsedInternalKey \<Rightarrow> slice" where
  "ikey_of p \<equiv> AppendInternalKey [] p"

lemma ikey_of_parts:
  "ExtractUserKey (ikey_of p) = user_key p" "key_number (ikey_of p) = PackSequenceAndType (sequence p) (value_type p)"
  "ikey (ikey_of p) \<longleftrightarrow> valid (user_key p)" "length (ikey_of p) = length (user_key p) + 8"
  by (simp_all add: AppendInternalKey_def ExtractUserKey_Put key_number_Put ikey_Put) (simp add: PutFixed64_def)

lemma ikey_of_bytes: "ikey_of p = user_key p @ EncodeFixed64 (PackSequenceAndType (sequence p) (value_type p))"
  by (simp add: AppendInternalKey_def PutFixed64_def)

lemma ikey_of_less: "valid (user_key a) \<Longrightarrow> valid (user_key b) \<Longrightarrow>
    Compare (InternalKeyComparator cmp) (ikey_of a) (ikey_of b) < 0 \<longleftrightarrow>
      less (user_key a) (user_key b) \<or> user_key a = user_key b \<and>
      PackSequenceAndType (sequence b) (value_type b) < PackSequenceAndType (sequence a) (value_type a)"
  using Internal_less [of "ikey_of a" "ikey_of b"] by (simp add: ikey_of_parts InternalKeyComparator_def)

definition version :: "ParsedInternalKey \<times> slice \<Rightarrow> bool" where
  "version q \<longleftrightarrow> valid (user_key (fst q)) \<and> length (user_key (fst q)) + 8 < 2 ^ 32 \<and> length (snd q) < 2 ^ 32 \<and>
     sequence (fst q) \<le> kMaxSequenceNumber"

definition entry_of :: "ParsedInternalKey \<times> slice \<Rightarrow> slice \<times> slice" where
  "entry_of q = (ikey_of (fst q), snd q)"

lemma version_entry: "version q \<Longrightarrow> mem_entry (entry_of q)"
  by (simp add: version_def mem_entry_def mem_key_def entry_of_def ikey_of_parts)

text \<open>What \<^verbatim>\<open>Get\<close> makes of the entry it is at.\<close>

lemma Get_entry:
  assumes h: "holds (mt_table mt) order es" and c: "mt_comparator mt = cmp" and u: "valid u" "length u + 8 < 2 ^ 32"
    and i: "i = seek_index (InternalKeyComparator cmp) es (ikey_of \<lparr>user_key = u, sequence = snapshot, value_type = kTypeValue\<rparr>)"
    and e: "i < length es \<Longrightarrow> es ! i = entry_of q" "i < length es \<Longrightarrow> version q"
  shows "MemTable_Get mt (new_LookupKey u snapshot) value s =
    Some (if i < length es \<and> user_key (fst q) = u
      then (case value_type (fst q) of kTypeValue \<Rightarrow> (True, snd q, s) | kTypeDeletion \<Rightarrow> (True, value, Status_NotFound [] []))
      else (False, value, s))"
proof -
  let ?k = "ikey_of \<lparr>user_key = u, sequence = snapshot, value_type = kTypeValue\<rparr>"
  have "mem_key ?k" using u by (simp add: mem_key_def ikey_of_parts)
  then have seek: "sl_Seek (KeyComparator cmp) (mt_table mt) (LookupKey_memtable_key (new_LookupKey u snapshot)) = Some (place order i)"
    unfolding memtable_key_Put i by (rule Seek_entries [OF h])
  have len: "length order = length es" by (rule holds_length [OF h])
  show ?thesis
  proof (cases "i < length es")
    case False
    then show ?thesis using seek len by (simp add: MemTable_Get_def c Let_def place_simps(2) sl_Valid_def)
  next
    case True
    let ?n = "length (user_key (fst q))" and ?p = "PackSequenceAndType (sequence (fst q)) (value_type (fst q))"
    have ver: "version q" by (rule e(2) [OF True])
    then have n: "?n + 8 < 2 ^ 32" "length (snd q) < 2 ^ 32" by (simp_all add: version_def)
    have key: "sl_key (mt_table mt) (place order i) = mem_bytes (entry_of q)"
      using holds_nth [OF h True] e(1) [OF True] True len by (simp add: sl_key_def place_simps(1))
    have varint: "mem_varint (mem_bytes (entry_of q)) =
        (of_nat (?n + 8), user_key (fst q) @ EncodeFixed64 ?p @ PutLengthPrefixedSlice [] (snd q))"
      by (simp add: mem_bytes_def entry_of_def PutLengthPrefixedSlice_def PutVarint32_def mem_varint_Encode ikey_of_parts(4))
        (simp add: ikey_of_bytes)
    have un: "unat (of_nat (?n + 8) :: 32 word) = ?n + 8" using n(1) by (rule small_length)
    have un8: "unat (of_nat (?n + 8) - 8 :: 32 word) = ?n" using n(1) small_length [of ?n] by simp
    have tag: "DecodeFixed64 (EncodeFixed64 ?p @ PutLengthPrefixedSlice [] (snd q)) = ?p" by (rule DecodeFixed64_Encode)
    have val: "fst (mem_slice (PutLengthPrefixedSlice [] (snd q))) = snd q" using mem_slice_Put [OF n(2), of "[]"] by simp
    have same: "Compare cmp (user_key (fst q)) (LookupKey_user_key (new_LookupKey u snapshot)) = 0 \<longleftrightarrow> user_key (fst q) = u"
      using cmp_eq [of "user_key (fst q)" u] u ver by (simp add: version_def LookupKey_user_key_def new_LookupKey_def Let_def)
    have low: "?p AND 0xff = value_type_code (value_type (fst q))" by (rule Pack_low64)
    have valid: "sl_Valid (place order i)" using True len by (simp add: sl_Valid_def place_simps(1))
    show ?thesis
      unfolding MemTable_Get_def Let_def c seek option.case key varint split_conv
      using un un8 tag val same low True valid by (cases "value_type (fst q)") auto
  qed
qed

text \<open>The newest version of a key at a snapshot.\<close>

lemma seek_newest:
  assumes es: "set es = entry_of ` set vs" and vs: "\<forall>q \<in> set vs. version q"
    and distinct: "\<forall>q \<in> set vs. \<forall>r \<in> set vs. user_key (fst q) = user_key (fst r) \<and> sequence (fst q) = sequence (fst r) \<longrightarrow> q = r"
    and sorted: "sorted_wrt (\<lambda>a b. Compare (InternalKeyComparator cmp) (fst a) (fst b) < 0) es"
    and u: "valid u" and snap: "snapshot \<le> kMaxSequenceNumber"
    and i: "i = seek_index (InternalKeyComparator cmp) es (ikey_of \<lparr>user_key = u, sequence = snapshot, value_type = kTypeValue\<rparr>)"
    and r: "i < length es \<Longrightarrow> es ! i = entry_of r" "i < length es \<Longrightarrow> r \<in> set vs"
  shows "newest vs u snapshot = (if i < length es \<and> user_key (fst r) = u then Some r else None)"
proof -
  let ?x = "\<lparr>user_key = u, sequence = snapshot, value_type = kTypeValue\<rparr>"
  let ?P = "\<lambda>e. Compare (InternalKeyComparator cmp) (fst e) (ikey_of ?x) < 0"
  have i': "i = length (takeWhile ?P es)" using i by (simp add: seek_index_def)
  have below: "?P (es ! j)" if "j < i" for j using that unfolding i' by (metis nth_mem set_takeWhileD takeWhile_nth)
  have at: "\<not> ?P (es ! i)" if "i < length es" using that nth_length_takeWhile [of ?P es] unfolding i' by blast
  have P: "?P (entry_of q) \<longleftrightarrow> less (user_key (fst q)) u \<or> user_key (fst q) = u \<and> \<not> sequence (fst q) \<le> snapshot"
    if "q \<in> set vs" for q
    using that vs u snap ikey_of_less [of "fst q" ?x] Pack_le [of "sequence (fst q)" snapshot "value_type (fst q)"]
    by (auto simp: version_def entry_of_def not_le)
  have found: "i < length es \<and> user_key (fst r) = u \<and> r = q" if q: "newest vs u snapshot = Some q" for q
  proof -
    note N = newest_SomeD [OF q]
    obtain j where j: "j < length es" "es ! j = entry_of q" using N(1) es by (metis imageI in_set_conv_nth)
    have "\<not> ?P (es ! j)" using P [OF N(1)] N(2,3) less_irrefl u j by auto
    then have ij: "i \<le> j" using below by (meson not_le)
    then have il: "i < length es" using j by simp
    note r' = r(1) [OF il] r(2) [OF il]
    have not: "\<not> less (user_key (fst r)) u" "user_key (fst r) = u \<Longrightarrow> sequence (fst r) \<le> snapshot"
      using at [OF il] P [OF r'(2)] r'(1) by auto
    have "r = q"
    proof (cases "i = j")
      case True
      then have "ikey_of (fst r) = ikey_of (fst q)" "snd r = snd q" using r'(1) j(2) by (simp_all add: entry_of_def)
      then have "fst r = fst q" using parse_append [of "fst r"] parse_append [of "fst q"] vs r'(2) N(1)
        by (metis option.inject version_def)
      then show ?thesis using \<open>snd r = snd q\<close> by (simp add: prod_eq_iff)
    next
      case False
      then have "Compare (InternalKeyComparator cmp) (ikey_of (fst r)) (ikey_of (fst q)) < 0"
        using sorted_wrt_nth_less [OF sorted, of i j] ij j r'(1) by (simp add: entry_of_def)
      then have same: "user_key (fst r) = u" "PackSequenceAndType (sequence (fst q)) (value_type (fst q)) <
          PackSequenceAndType (sequence (fst r)) (value_type (fst r))"
        using ikey_of_less [of "fst r" "fst q"] vs r'(2) N not(1) by (auto simp: version_def)
      then have "\<not> sequence (fst r) < sequence (fst q)"
        using Pack_order [of "sequence (fst r)" "sequence (fst q)"] vs r'(2) N(1) unfolding version_def by (meson order_less_asym)
      then have "sequence (fst r) = sequence (fst q)" using N(4) [OF r'(2) same(1) not(2) [OF same(1)]] by simp
      then show ?thesis using distinct r'(2) N(1,2) same(1) by metis
    qed
    then show ?thesis using il N(2) by simp
  qed
  show ?thesis
  proof (cases "newest vs u snapshot")
    case None
    have "user_key (fst r) \<noteq> u" if il: "i < length es"
      using newest_NoneD [OF None r(2) [OF il]] at [OF il] P [OF r(2) [OF il]] r(1) [OF il] by auto
    then show ?thesis using None by auto
  next
    case (Some q)
    then show ?thesis using found [OF Some] by auto
  qed
qed

subsection \<open>Adding versions\<close>

lemma Add_holds:
  assumes h: "holds (mt_table mt) order es" and c: "mt_comparator mt = cmp" and q: "version q" and fresh: "fst (entry_of q) \<notin> fst ` set es"
  shows "\<exists>mt' order'. MemTable_Add (sequence (fst q)) (value_type (fst q)) (user_key (fst q)) (snd q) mt = Some mt' \<and>
    holds (mt_table mt') order' (add_entry (entry_of q) es) \<and> mt_comparator mt' = cmp"
proof -
  obtain l' order' where "Insert (KeyComparator cmp) (mem_bytes (entry_of q)) (mt_table mt) = Some l'"
    "holds l' order' (add_entry (entry_of q) es)" using Insert_holds [OF h version_entry [OF q] fresh] by blast
  then show ?thesis by (intro exI [of _ "mt\<lparr>mt_table := l'\<rparr>"] exI [of _ order'])
    (simp add: MemTable_Add_def c mem_buffer_version entry_of_def)
qed

lemma add_versions_holds:
  "holds (mt_table mt) order es \<Longrightarrow> mt_comparator mt = cmp \<Longrightarrow> \<forall>q \<in> set vs. version q \<Longrightarrow>
    distinct (map (\<lambda>q. ikey_of (fst q)) vs) \<Longrightarrow> \<forall>q \<in> set vs. ikey_of (fst q) \<notin> fst ` set es \<Longrightarrow>
    \<exists>mt' order' es'. add_versions vs mt = Some mt' \<and> holds (mt_table mt') order' es' \<and> mt_comparator mt' = cmp \<and>
      mset es' = mset es + mset (map entry_of vs)"
proof (induction vs arbitrary: mt order es)
  case (Cons q vs)
  obtain mt1 order1 where one: "MemTable_Add (sequence (fst q)) (value_type (fst q)) (user_key (fst q)) (snd q) mt = Some mt1"
    "holds (mt_table mt1) order1 (add_entry (entry_of q) es)" "mt_comparator mt1 = cmp"
    using Add_holds [OF Cons.prems(1,2), of q] Cons.prems(3,5) by (auto simp: entry_of_def)
  have "\<forall>r \<in> set vs. ikey_of (fst r) \<notin> fst ` set (add_entry (entry_of q) es)"
    using Cons.prems(4,5) by (simp add: set_add_entry entry_of_def) (metis (no_types, lifting) image_eqI)
  from Cons.IH [OF one(2,3) _ _ this] Cons.prems(3,4) obtain mt' order' es' where "add_versions vs mt1 = Some mt'"
    "holds (mt_table mt') order' es'" "mt_comparator mt' = cmp"
    "mset es' = mset (add_entry (entry_of q) es) + mset (map entry_of vs)" by auto
  then show ?case using one(1) mset_insert_split [of _ es "entry_of q"] by (auto simp: add_entry_def)
qed auto

end

section \<open>Properties\<close>

lemma bytewise_version: "bytewise.version q \<longleftrightarrow> length (user_key (fst q)) + 8 < 2 ^ 32 \<and> length (snd q) < 2 ^ 32 \<and>
    sequence (fst q) \<le> kMaxSequenceNumber"
  by (simp add: bytewise.version_def)

lemma ikey_inj: "sequence p \<le> kMaxSequenceNumber \<Longrightarrow> sequence p' \<le> kMaxSequenceNumber \<Longrightarrow>
    AppendInternalKey [] p = AppendInternalKey [] p' \<Longrightarrow> p = (p' :: ParsedInternalKey)"
  by (metis option.inject parse_append)

lemma distinct_ikeys:
  assumes "distinct (map (\<lambda>q. (user_key (fst q), sequence (fst q))) vs)" and "\<forall>q \<in> set vs. sequence (fst q) \<le> kMaxSequenceNumber"
  shows "distinct (map (\<lambda>q. AppendInternalKey [] (fst q)) vs)"
proof -
  have inj: "distinct vs" "inj_on (\<lambda>q. (user_key (fst q), sequence (fst q))) (set vs)" using assms(1) by (simp_all add: distinct_map)
  have "inj_on (\<lambda>q. AppendInternalKey [] (fst q)) (set vs)"
  proof (rule inj_onI)
    fix q r assume q: "q \<in> set vs" and r: "r \<in> set vs" and "AppendInternalKey [] (fst q) = AppendInternalKey [] (fst r)"
    moreover have "sequence (fst q) \<le> kMaxSequenceNumber" "sequence (fst r) \<le> kMaxSequenceNumber"
      using assms(2) q r by blast+
    ultimately have "fst q = fst r" by (metis ikey_inj)
    then have "(user_key (fst q), sequence (fst q)) = (user_key (fst r), sequence (fst r))" by (rule arg_cong)
    then show "q = r" by (rule inj_onD [OF inj(2) _ q r])
  qed
  then show ?thesis using inj(1) by (simp add: distinct_map)
qed

text \<open>What a lookup answers for the newest version.\<close>

definition newest_answer :: "(ParsedInternalKey \<times> slice) list \<Rightarrow> slice \<Rightarrow> SequenceNumber \<Rightarrow> byte list \<Rightarrow> Status \<Rightarrow>
    bool \<times> byte list \<times> Status" where
  "newest_answer vs u snapshot val s = (case newest vs u snapshot of
      None \<Rightarrow> (False, val, s)
    | Some q \<Rightarrow> (case value_type (fst q) of kTypeValue \<Rightarrow> (True, snd q, s)
        | kTypeDeletion \<Rightarrow> (True, val, Status_NotFound [] [])))"

lemma versions_served:
  assumes vs: "\<forall>q \<in> set vs. length (user_key (fst q)) + 8 < 2 ^ 32 \<and> length (snd q) < 2 ^ 32 \<and> sequence (fst q) \<le> kMaxSequenceNumber"
    and distinct: "distinct (map (\<lambda>q. (user_key (fst q), sequence (fst q))) vs)"
    and mt0: "mt_table mt0 = new_SkipList []" "mt_comparator mt0 = BytewiseComparator"
  shows "\<exists>mt order es. add_versions vs mt0 = Some mt \<and> bytewise.holds (mt_table mt) order es \<and>
    mt_comparator mt = BytewiseComparator \<and> mset es = mset (map bytewise.entry_of vs) \<and>
    (\<forall>u snapshot val s. length u + 8 < 2 ^ 32 \<longrightarrow> snapshot \<le> kMaxSequenceNumber \<longrightarrow>
      MemTable_Get mt (new_LookupKey u snapshot) val s = Some (newest_answer vs u snapshot val s))"
proof -
  have ver: "\<forall>q \<in> set vs. bytewise.version q" using vs by (simp add: bytewise_version)
  have dist: "distinct (map (\<lambda>q. AppendInternalKey [] (fst q)) vs)" using distinct_ikeys [OF distinct] vs by blast
  have same: "\<forall>q \<in> set vs. \<forall>r \<in> set vs. user_key (fst q) = user_key (fst r) \<and> sequence (fst q) = sequence (fst r) \<longrightarrow> q = r"
    using distinct by (auto simp: distinct_map dest: inj_onD)
  have new: "bytewise.holds (mt_table mt0) [] []" using mt0 by (simp add: bytewise.holds_new)
  obtain mt order es where mt: "add_versions vs mt0 = Some mt" "bytewise.holds (mt_table mt) order es"
    "mt_comparator mt = BytewiseComparator" "mset es = mset (map bytewise.entry_of vs)"
    using bytewise.add_versions_holds [OF new mt0(2) ver dist] by auto
  have set: "set es = bytewise.entry_of ` set vs" using mt(4) by (metis list.set_map set_mset_mset)
  note sorted = bytewise.holds_sorted [OF mt(2)]
  have get: "MemTable_Get mt (new_LookupKey u snapshot) val s = Some (newest_answer vs u snapshot val s)"
    if u: "length u + 8 < 2 ^ 32" "snapshot \<le> kMaxSequenceNumber" for u snapshot val s
  proof -
    define i where "i = seek_index (InternalKeyComparator BytewiseComparator) es
      (AppendInternalKey [] \<lparr>user_key = u, sequence = snapshot, value_type = kTypeValue\<rparr>)"
    obtain r where r: "i < length es \<Longrightarrow> es ! i = bytewise.entry_of r" "i < length es \<Longrightarrow> r \<in> set vs"
      using set by (metis imageE nth_mem)
    have "i < length es \<Longrightarrow> bytewise.version r" using r(2) ver by blast
    from bytewise.Get_entry [OF mt(2,3) TrueI u(1) i_def r(1) this]
      bytewise.seek_newest [OF set ver same sorted TrueI u(2) i_def r]
    show ?thesis by (simp add: newest_answer_def split: ValueType.splits)
  qed
  then show ?thesis using mt by blast
qed

text \<open>C8: A memtable refines the history of its versions.  Adding versions, with numbers that differ for one
  user key, always returns; afterwards \<^verbatim>\<open>Get\<close> at any snapshot answers for every user key what the newest
  version not above the snapshot says: its value, not found for a deletion, and false where there is no
  such version.  The iterator reads, forwards from the first entry, backwards from the last one and from
  any target, the internal keys and the values of the versions in the order of the internal keys.\<close>

theorem memtable_refines_history:
  assumes vs: "\<forall>q \<in> set vs. length (user_key (fst q)) + 8 < 2 ^ 32 \<and> length (snd q) < 2 ^ 32 \<and> sequence (fst q) \<le> kMaxSequenceNumber"
    and distinct: "distinct (map (\<lambda>q. (user_key (fst q), sequence (fst q))) vs)"
  shows "\<exists>mt es ops it. add_versions vs (new_MemTable BytewiseComparator) = Some mt \<and>
    (\<forall>u snapshot val s. length u + 8 < 2 ^ 32 \<and> snapshot \<le> kMaxSequenceNumber \<longrightarrow>
      MemTable_Get mt (new_LookupKey u snapshot) val s = Some (newest_answer vs u snapshot val s)) \<and>
    MemTable_NewIterator mt = (ops, it) \<and>
    mset es = mset (map (\<lambda>q. (AppendInternalKey [] (fst q), snd q)) vs) \<and>
    sorted_entries (InternalKeyComparator BytewiseComparator) es \<and>
    read_forward ops (length vs) (it_SeekToFirst ops it) = es \<and> read_backward ops (length vs) (it_SeekToLast ops it) = rev es \<and>
    (\<forall>t. 8 \<le> length t \<and> length t < 2 ^ 32 \<longrightarrow> read_forward ops (length vs) (it_Seek ops it t) =
      dropWhile (\<lambda>e. Compare (InternalKeyComparator BytewiseComparator) (fst e) t < 0) es)"
proof -
  obtain mt order es where mt: "add_versions vs (new_MemTable BytewiseComparator) = Some mt" "bytewise.holds (mt_table mt) order es"
    "mt_comparator mt = BytewiseComparator" "mset es = mset (map bytewise.entry_of vs)"
    and get: "\<And>u snapshot val s. length u + 8 < 2 ^ 32 \<Longrightarrow> snapshot \<le> kMaxSequenceNumber \<Longrightarrow>
      MemTable_Get mt (new_LookupKey u snapshot) val s = Some (newest_answer vs u snapshot val s)"
    using versions_served [OF vs distinct, of "new_MemTable BytewiseComparator"] by (auto simp: new_MemTable_def)
  have len: "length es = length vs" using mt(4) by (metis length_map size_mset)
  note sorted = bytewise.holds_sorted [OF mt(2)]
  note I = bytewise.mem_iterator [OF mt(2)]
  have n: "length es \<le> length vs" using len by simp
  let ?ops = "MemTableIterator BytewiseComparator (mt_table mt)"
  show ?thesis
  proof (intro exI [of _ mt] exI [of _ es] exI [of _ ?ops] exI [of _ "Some None"] conjI allI impI)
    show "add_versions vs (new_MemTable BytewiseComparator) = Some mt" by (rule mt(1))
    show "MemTable_NewIterator mt = (?ops, Some None)" by (simp add: MemTable_NewIterator_def mt(3))
    show "mset es = mset (map (\<lambda>q. (AppendInternalKey [] (fst q), snd q)) vs)"
      using mt(4) by (simp add: bytewise.entry_of_def [abs_def])
    show "sorted_entries (InternalKeyComparator BytewiseComparator) es" using sorted by (simp add: sorted_entries_def)
    show "read_forward ?ops (length vs) (it_SeekToFirst ?ops (Some None)) = es"
      by (rule entry_iterator.reads_all [OF I _ n]) simp
    show "read_backward ?ops (length vs) (it_SeekToLast ?ops (Some None)) = rev es"
      by (rule entry_iterator.reads_back [OF I _ n]) simp
    show "read_forward ?ops (length vs) (it_Seek ?ops (Some None) t) =
        dropWhile (\<lambda>e. Compare (InternalKeyComparator BytewiseComparator) (fst e) t < 0) es"
      if "8 \<le> length t \<and> length t < 2 ^ 32" for t
      by (rule entry_iterator.reads_from_target [OF I _ _ n]) (use that in \<open>simp_all add: bytewise.mem_key_def bytewise.ikey_def\<close>)
    fix u :: slice and snapshot :: SequenceNumber and val :: "byte list" and s :: Status
    assume "length u + 8 < 2 ^ 32 \<and> snapshot \<le> kMaxSequenceNumber"
    then show "MemTable_Get mt (new_LookupKey u snapshot) val s = Some (newest_answer vs u snapshot val s)"
      by (intro get) simp_all
  qed
qed

lemma memtable_refines_history_witness:
  "\<exists>mt. add_versions [(\<lparr>user_key = [97], sequence = 5, value_type = kTypeValue\<rparr>, [1]),
        (\<lparr>user_key = [98], sequence = 6, value_type = kTypeValue\<rparr>, [2]),
        (\<lparr>user_key = [97], sequence = 7, value_type = kTypeDeletion\<rparr>, [])] (new_MemTable BytewiseComparator) = Some mt \<and>
    MemTable_Get mt (new_LookupKey [97] 6) [] Status_OK = Some (True, [1], Status_OK) \<and>
    MemTable_Get mt (new_LookupKey [97] 7) [] Status_OK = Some (True, [], Status_NotFound [] []) \<and>
    MemTable_Get mt (new_LookupKey [97] 4) [] Status_OK = Some (False, [], Status_OK)"
proof -
  let ?vs = "[(\<lparr>user_key = [97], sequence = 5, value_type = kTypeValue\<rparr>, [1]),
        (\<lparr>user_key = [98], sequence = 6, value_type = kTypeValue\<rparr>, [2]),
        (\<lparr>user_key = [97], sequence = 7, value_type = kTypeDeletion\<rparr>, [])] :: (ParsedInternalKey \<times> slice) list"
  have "\<forall>q \<in> set ?vs. length (user_key (fst q)) + 8 < 2 ^ 32 \<and> length (snd q) < 2 ^ 32 \<and> sequence (fst q) \<le> kMaxSequenceNumber"
    "distinct (map (\<lambda>q. (user_key (fst q), sequence (fst q))) ?vs)" by (simp_all add: kMaxSequenceNumber_def)
  from memtable_refines_history [OF this] obtain mt where mt: "add_versions ?vs (new_MemTable BytewiseComparator) = Some mt"
    and get: "\<And>u snapshot val s. length u + 8 < 2 ^ 32 \<Longrightarrow> snapshot \<le> kMaxSequenceNumber \<Longrightarrow>
      MemTable_Get mt (new_LookupKey u snapshot) val s = Some (newest_answer ?vs u snapshot val s)" by blast
  have "newest ?vs [97] 6 = Some (\<lparr>user_key = [97], sequence = 5, value_type = kTypeValue\<rparr>, [1])"
    "newest ?vs [97] 7 = Some (\<lparr>user_key = [97], sequence = 7, value_type = kTypeDeletion\<rparr>, [])"
    "newest ?vs [97] 4 = None" by (simp_all add: newest_def newer_def)
  then show ?thesis using mt get [of "[97]"] by (simp add: kMaxSequenceNumber_def newest_answer_def)
qed

end
