(* ===== verification/Ldb_WriteBatch.thy ===== *)
theory Ldb_WriteBatch
  imports Ldb_MemTable_Facts
begin

text \<open>
  Write batches (\<^verbatim>\<open>include/leveldb/write_batch.h\<close>, \<^verbatim>\<open>db/write_batch_internal.h\<close>,
  \<^verbatim>\<open>db/write_batch.cc\<close>): a header with a sequence number and a count, and one record for every update;
  iterating over them, and inserting them into a memtable.
\<close>

section \<open>The model\<close>

text \<open>A batch is its \<^verbatim>\<open>rep_\<close>.\<close>

type_synonym WriteBatch = "byte list"

definition kHeader :: nat where "kHeader = 12"

definition WriteBatch_Clear :: WriteBatch where
  "WriteBatch_Clear = replicate kHeader 0"

definition ApproximateSize :: "WriteBatch \<Rightarrow> nat" where
  "ApproximateSize b = length b"

text \<open>\<^verbatim>\<open>int\<close> from \<^verbatim>\<open>uint32_t\<close>, and back.\<close>

definition batch_Count :: "WriteBatch \<Rightarrow> int" where
  "batch_Count b = sint (DecodeFixed32 (drop 8 b))"

definition batch_SetCount :: "int \<Rightarrow> WriteBatch \<Rightarrow> WriteBatch" where
  "batch_SetCount n b = take 8 b @ EncodeFixed32 (of_int n) @ drop 12 b"

definition batch_Sequence :: "WriteBatch \<Rightarrow> SequenceNumber" where
  "batch_Sequence b = DecodeFixed64 b"

definition batch_SetSequence :: "SequenceNumber \<Rightarrow> WriteBatch \<Rightarrow> WriteBatch" where
  "batch_SetSequence seq b = EncodeFixed64 seq @ drop 8 b"

definition WriteBatch_Put :: "slice \<Rightarrow> slice \<Rightarrow> WriteBatch \<Rightarrow> WriteBatch" where
  "WriteBatch_Put key val b =
     (let b = batch_SetCount (batch_Count b + 1) b;
          b = b @ [ucast (value_type_code kTypeValue)];
          b = PutLengthPrefixedSlice b key
      in PutLengthPrefixedSlice b val)"

definition WriteBatch_Delete :: "slice \<Rightarrow> WriteBatch \<Rightarrow> WriteBatch" where
  "WriteBatch_Delete key b =
     (let b = batch_SetCount (batch_Count b + 1) b;
          b = b @ [ucast (value_type_code kTypeDeletion)]
      in PutLengthPrefixedSlice b key)"

definition batch_Append :: "WriteBatch \<Rightarrow> WriteBatch \<Rightarrow> WriteBatch" where
  "batch_Append src dst = (let dst = batch_SetCount (batch_Count dst + batch_Count src) dst in dst @ drop kHeader src)"

definition batch_Contents :: "WriteBatch \<Rightarrow> slice" where
  "batch_Contents b = b"

definition batch_ByteSize :: "WriteBatch \<Rightarrow> nat" where
  "batch_ByteSize b = length b"

definition batch_SetContents :: "slice \<Rightarrow> WriteBatch" where
  "batch_SetContents contents = contents"

subsection \<open>Iterating\<close>

record 'h Handler =
  handler_Put :: "slice \<Rightarrow> slice \<Rightarrow> 'h \<Rightarrow> 'h"
  handler_Delete :: "slice \<Rightarrow> 'h \<Rightarrow> 'h"

lemma prefixed_shorter: "GetLengthPrefixedSlice p = Some (x, q) \<Longrightarrow> length q < length p"
  using varint32_shorter by (fastforce simp: GetLengthPrefixedSlice_def GetVarint32_def fast_path slice_remove_prefix_def
    split: option.splits if_splits)

text \<open>
  The loop: the status of a return from within it, or \<^const>\<open>None\<close>; how many records it found; and the
  handler.
\<close>

function batch_loop :: "'h Handler \<Rightarrow> slice \<Rightarrow> int \<Rightarrow> 'h \<Rightarrow> Status option \<times> int \<times> 'h" where
  "batch_loop handler input found h =
     (if input = [] then (None, found, h)
      else
        let found = found + 1; tag = hd input; input = slice_remove_prefix input 1 in
        if tag = ucast (value_type_code kTypeValue) then
          (case GetLengthPrefixedSlice input of
             None \<Rightarrow> (Some (Status_Corruption (bytes_of ''bad WriteBatch Put'') []), found, h)
           | Some (key, input) \<Rightarrow>
               (case GetLengthPrefixedSlice input of
                  None \<Rightarrow> (Some (Status_Corruption (bytes_of ''bad WriteBatch Put'') []), found, h)
                | Some (val, input) \<Rightarrow> batch_loop handler input found (handler_Put handler key val h)))
        else if tag = ucast (value_type_code kTypeDeletion) then
          (case GetLengthPrefixedSlice input of
             None \<Rightarrow> (Some (Status_Corruption (bytes_of ''bad WriteBatch Delete'') []), found, h)
           | Some (key, input) \<Rightarrow> batch_loop handler input found (handler_Delete handler key h))
        else (Some (Status_Corruption (bytes_of ''unknown WriteBatch tag'') []), found, h))"
  by pat_completeness auto
termination
  by (relation "measure (\<lambda>(handler, input, found, h). length input)")
    (auto simp: slice_remove_prefix_def dest!: prefixed_shorter)

declare batch_loop.simps [simp del]

definition Iterate :: "'h Handler \<Rightarrow> WriteBatch \<Rightarrow> 'h \<Rightarrow> Status \<times> 'h" where
  "Iterate handler b h =
     (if length b < kHeader then (Status_Corruption (bytes_of ''malformed WriteBatch (too small)'') [], h)
      else
        (case batch_loop handler (slice_remove_prefix b kHeader) 0 h of
           (Some s, _, h) \<Rightarrow> (s, h)
         | (None, found, h) \<Rightarrow>
             if found \<noteq> batch_Count b then (Status_Corruption (bytes_of ''WriteBatch has wrong count'') [], h)
             else (Status_OK, h)))"

subsection \<open>Inserting into a memtable\<close>

text \<open>The state of the handler: \<^verbatim>\<open>sequence_\<close> and the memtable, \<^const>\<open>None\<close> once an insertion did not return.\<close>

definition MemTableInserter :: "(SequenceNumber \<times> MemTable option) Handler" where
  "MemTableInserter =
     \<lparr>handler_Put = (\<lambda>key val (sequence, mem).
        (sequence + 1, Option.bind mem (MemTable_Add sequence kTypeValue key val))),
      handler_Delete = (\<lambda>key (sequence, mem).
        (sequence + 1, Option.bind mem (MemTable_Add sequence kTypeDeletion key [])))\<rparr>"

definition batch_InsertInto :: "WriteBatch \<Rightarrow> MemTable \<Rightarrow> Status \<times> MemTable option" where
  "batch_InsertInto b memtable =
     (let (s, _, mem) = Iterate MemTableInserter b (batch_Sequence b, Some memtable) in (s, mem))"

section \<open>A batch is the list of its updates\<close>

datatype update = Put slice slice | Delete slice

primrec update_batch :: "update \<Rightarrow> WriteBatch \<Rightarrow> WriteBatch" where
  "update_batch (Put key val) b = WriteBatch_Put key val b"
| "update_batch (Delete key) b = WriteBatch_Delete key b"

primrec handle_update :: "'h Handler \<Rightarrow> update \<Rightarrow> 'h \<Rightarrow> 'h" where
  "handle_update handler (Put key val) h = handler_Put handler key val h"
| "handle_update handler (Delete key) h = handler_Delete handler key h"

primrec update_key :: "update \<Rightarrow> slice" where
  "update_key (Put key val) = key"
| "update_key (Delete key) = key"

primrec small_update :: "update \<Rightarrow> bool" where
  "small_update (Put key val) \<longleftrightarrow> length key < 2 ^ 32 \<and> length val < 2 ^ 32"
| "small_update (Delete key) \<longleftrightarrow> length key < 2 ^ 32"

primrec update_record :: "update \<Rightarrow> byte list" where
  "update_record (Put key val) = 1 # PutLengthPrefixedSlice [] key @ PutLengthPrefixedSlice [] val"
| "update_record (Delete key) = 0 # PutLengthPrefixedSlice [] key"

text \<open>A batch with a header, a count and its updates.\<close>

definition batch_of :: "SequenceNumber \<Rightarrow> nat \<Rightarrow> update list \<Rightarrow> WriteBatch" where
  "batch_of seq n us = EncodeFixed64 seq @ EncodeFixed32 (of_nat n) @ concat (map update_record us)"

lemma batch_new: "WriteBatch_Clear = batch_of 0 0 []"
  by (simp add: WriteBatch_Clear_def kHeader_def batch_of_def EncodeFixed64_def EncodeFixed32_def kLittleEndian_def numeral_eq_Suc)

lemma DecodeFixed32_drop: "DecodeFixed32 (drop 8 (batch_of seq n us)) = of_nat n"
  by (simp add: batch_of_def DecodeFixed32_Encode)

lemma batch_of_Count: "n < 2 ^ 31 \<Longrightarrow> batch_Count (batch_of seq n us) = int n"
  by (simp add: batch_Count_def DecodeFixed32_drop signed_of_nat signed_take_bit_int_eq_self)

lemma batch_of_Sequence: "batch_Sequence (batch_of seq n us) = seq"
  by (simp add: batch_Sequence_def batch_of_def DecodeFixed64_Encode)

lemma batch_of_SetSequence: "batch_SetSequence seq' (batch_of seq n us) = batch_of seq' n us"
  by (simp add: batch_SetSequence_def batch_of_def)

lemma batch_of_SetCount: "batch_SetCount m (batch_of seq n us) = EncodeFixed64 seq @ EncodeFixed32 (of_int m) @ concat (map update_record us)"
  by (simp add: batch_SetCount_def batch_of_def)

lemma count_step: "of_int (batch_Count (batch_of seq n us) + 1) = (of_nat (Suc n) :: 32 word)"
  by (simp add: batch_Count_def DecodeFixed32_drop)

lemma batch_of_update: "update_batch u (batch_of seq n us) = batch_of seq (Suc n) (us @ [u])"
proof -
  have "batch_SetCount (batch_Count (batch_of seq n us) + 1) (batch_of seq n us) = batch_of seq (Suc n) us"
    unfolding batch_of_SetCount count_step by (simp add: batch_of_def)
  then show ?thesis
    by (cases u) (simp_all add: WriteBatch_Put_def WriteBatch_Delete_def Let_def PutLengthPrefixedSlice_def PutVarint32_def,
      simp_all add: batch_of_def PutLengthPrefixedSlice_def PutVarint32_def)
qed

lemma batch_of_updates: "fold update_batch vs (batch_of seq n us) = batch_of seq (n + length vs) (us @ vs)"
  by (induction vs arbitrary: n us) (simp_all add: batch_of_update)

lemma batch_built: "fold update_batch us WriteBatch_Clear = batch_of 0 (length us) us"
  by (simp add: batch_new batch_of_updates)

lemma batch_of_Append: "batch_Append (batch_of s2 n2 us2) (batch_of s1 n1 us1) = batch_of s1 (n1 + n2) (us1 @ us2)"
proof -
  have "of_int (batch_Count (batch_of s1 n1 us1) + batch_Count (batch_of s2 n2 us2)) = (of_nat (n1 + n2) :: 32 word)"
    by (simp add: batch_Count_def DecodeFixed32_drop)
  then show ?thesis
    unfolding batch_Append_def batch_of_SetCount Let_def by (simp add: batch_of_def kHeader_def)
qed

lemma batch_loop_step: "small_update u \<Longrightarrow>
    batch_loop handler (update_record u @ input) found h = batch_loop handler input (found + 1) (handle_update handler u h)"
  by (cases u; subst batch_loop.simps) (simp_all add: Let_def slice_remove_prefix_def c_slice.dec_enc)

lemma batch_loop_all: "\<forall>u \<in> set us. small_update u \<Longrightarrow>
    batch_loop handler (concat (map update_record us)) found h = (None, found + int (length us), fold (handle_update handler) us h)"
  by (induction us arbitrary: found h) (simp_all add: batch_loop_step batch_loop.simps [of handler "[]"])

lemma Iterate_batch:
  assumes "\<forall>u \<in> set us. small_update u" and "length us < 2 ^ 31"
  shows "Iterate handler (batch_of seq (length us) us) h = (Status_OK, fold (handle_update handler) us h)"
proof -
  have "drop kHeader (batch_of seq (length us) us) = concat (map update_record us)" "\<not> length (batch_of seq (length us) us) < kHeader"
    by (simp_all add: batch_of_def kHeader_def)
  then show ?thesis
    using batch_loop_all [OF assms(1), of handler 0 h] batch_of_Count [OF assms(2)] by (simp add: Iterate_def slice_remove_prefix_def)
qed

text \<open>C15: A write batch is read as it was written: iterating over the batch built by any sequence of puts and
  deletions, of keys and values below 4 GB, calls the handler with exactly these updates in their order and
  answers OK; the count is their number, a sequence number that is set is read back, and appending one
  batch to another gives the batch of the updates of both.\<close>

theorem batch_roundtrip:
  assumes "\<forall>u \<in> set us. small_update u" and "length us < 2 ^ 31"
  shows "Iterate handler (batch_SetSequence seq (fold update_batch us WriteBatch_Clear)) h =
      (Status_OK, fold (handle_update handler) us h) \<and>
    batch_Sequence (batch_SetSequence seq (fold update_batch us WriteBatch_Clear)) = seq \<and>
    batch_Count (fold update_batch us WriteBatch_Clear) = int (length us) \<and>
    batch_Append (fold update_batch vs WriteBatch_Clear) (fold update_batch us WriteBatch_Clear) =
      fold update_batch (us @ vs) WriteBatch_Clear"
  unfolding batch_built batch_of_SetSequence batch_of_Append batch_of_Sequence
  using Iterate_batch [OF assms] batch_of_Count [OF assms(2)] by simp

lemma batch_roundtrip_witness:
  "Iterate \<lparr>handler_Put = (\<lambda>k v log. log @ [Put k v]), handler_Delete = (\<lambda>k log. log @ [Delete k])\<rparr>
     (batch_SetSequence 9 (fold update_batch [Put [97] [1, 2], Delete [98]] WriteBatch_Clear)) [] =
   (Status_OK, [Put [97] [1, 2], Delete [98]])"
  using batch_roundtrip [of "[Put [97] [1, 2], Delete [98]]",
      where h = "[]" and handler = "\<lparr>handler_Put = (\<lambda>k v log. log @ [Put k v]), handler_Delete = (\<lambda>k log. log @ [Delete k])\<rparr>"]
  by simp

section \<open>Into the memtable\<close>

text \<open>The versions the updates become, numbered from \<open>seq\<close> on.\<close>

primrec update_version :: "SequenceNumber \<Rightarrow> update \<Rightarrow> ParsedInternalKey \<times> slice" where
  "update_version seq (Put key val) = (\<lparr>user_key = key, sequence = seq, value_type = kTypeValue\<rparr>, val)"
| "update_version seq (Delete key) = (\<lparr>user_key = key, sequence = seq, value_type = kTypeDeletion\<rparr>, [])"

primrec numbered :: "SequenceNumber \<Rightarrow> update list \<Rightarrow> (ParsedInternalKey \<times> slice) list" where
  "numbered seq [] = []"
| "numbered seq (u # us) = update_version seq u # numbered (seq + 1) us"

lemma inserter_fold: "fold (handle_update MemTableInserter) us (seq, mem) =
    (seq + of_nat (length us), Option.bind mem (add_versions (numbered seq us)))"
proof (induction us arbitrary: seq mem)
  case Nil
  show ?case by (cases mem) simp_all
next
  case (Cons u us)
  then show ?case by (cases u; cases mem) (simp_all add: MemTableInserter_def Let_def)
qed

lemma InsertInto_batch:
  assumes "\<forall>u \<in> set us. small_update u" and "length us < 2 ^ 31"
  shows "batch_InsertInto (batch_of seq (length us) us) mem = (Status_OK, add_versions (numbered seq us) mem)"
  using Iterate_batch [OF assms, of MemTableInserter seq "(seq, Some mem)"] by (simp add: batch_InsertInto_def batch_of_Sequence inserter_fold)

end
