(* ===== verification/Ldb_Write.thy ===== *)
theory Ldb_Write
  imports Ldb_WriteBatch Ldb_Log
begin

text \<open>
  The write path of the database and the recovery of its log (\<^verbatim>\<open>db/db_impl.cc\<close>): the queue of the
  waiting writers, the group the first of them writes for the others, making room in the memtable, the
  append to the log and the insertion into the memtable, and the loop that replays a log file.
\<close>

section \<open>Writers\<close>

record db_writer =
  w_status :: Status
  w_batch :: "WriteBatch option"
  w_sync :: bool
  w_done :: bool

text \<open>A null batch asks for a compaction of the memtable.\<close>

definition new_db_writer :: "WriteBatch option \<Rightarrow> bool \<Rightarrow> db_writer" where
  "new_db_writer updates sync = \<lparr>w_status = Status_OK, w_batch = updates, w_sync = sync, w_done = False\<rparr>"

text \<open>
  The state the writers share; \<open>'d\<close> is the file of the log.  A memtable that does not return from an
  insertion is not in it, so the operations answer \<^const>\<open>None\<close> then.
\<close>

record 'd WriteDb =
  db_log :: log_writer
  db_logfile :: 'd
  db_mem :: MemTable
  db_imm :: "MemTable option"
  db_last_sequence :: SequenceNumber
  db_bg_error :: Status
  db_writers :: "db_writer list"
  db_tmp_batch :: WriteBatch

subsection \<open>The group of the first writer\<close>

text \<open>
  The loop of \<^verbatim>\<open>BuildBatchGroup\<close> over the writers behind the first one: \<^verbatim>\<open>tmp_batch_\<close>, whether
  \<^verbatim>\<open>result\<close> is that, \<^verbatim>\<open>size\<close>, and how many writers there are before \<^verbatim>\<open>*last_writer\<close>.
\<close>

fun group_loop :: "db_writer \<Rightarrow> nat \<Rightarrow> db_writer list \<Rightarrow> WriteBatch \<Rightarrow> bool \<Rightarrow> nat \<Rightarrow> nat \<Rightarrow> WriteBatch \<times> bool \<times> nat" where
  "group_loop first max_size [] tmp in_tmp bytes pos = (tmp, in_tmp, pos)"
| "group_loop first max_size (w # iter) tmp in_tmp bytes pos =
     (if w_sync w \<and> \<not> w_sync first then (tmp, in_tmp, pos)
      else
        (case w_batch w of
           None \<Rightarrow> group_loop first max_size iter tmp in_tmp bytes (pos + 1)
         | Some b \<Rightarrow>
             let bytes = bytes + batch_ByteSize b in
             if bytes > max_size then (tmp, in_tmp, pos)
             else
               let tmp = (if \<not> in_tmp then batch_Append (the (w_batch first)) tmp else tmp);
                   tmp = batch_Append b tmp
               in group_loop first max_size iter tmp True bytes (pos + 1)))"

text \<open>The batch, whether it is \<^verbatim>\<open>tmp_batch_\<close>, and where the pos writer is.\<close>

definition BuildBatchGroup :: "db_writer list \<Rightarrow> WriteBatch \<Rightarrow> WriteBatch \<times> bool \<times> nat" where
  "BuildBatchGroup writers tmp =
     (let first = hd writers;
          result = the (w_batch first);
          bytes = batch_ByteSize result;
          max_size = (if bytes \<le> 128 * 2 ^ 10 then bytes + 128 * 2 ^ 10 else 2 ^ 20);
          (tmp, in_tmp, pos) = group_loop first max_size (tl writers) tmp False bytes 0
      in (if in_tmp then tmp else result, in_tmp, pos))"

subsection \<open>Making room\<close>

definition kL0_SlowdownWritesTrigger :: nat where "kL0_SlowdownWritesTrigger = 8"

definition kL0_StopWritesTrigger :: nat where "kL0_StopWritesTrigger = 12"

text \<open>
  What a turn of the loop finds: whether the immutable memtable was compacted and which error the
  background thread recorded while the mutex was free, the memory the memtable uses, the number of files
  at level 0, and what opening a new log file would answer.
\<close>

record 'd room =
  imm_done :: bool
  bg_recorded :: Status
  mem_usage :: nat
  level0_files :: nat
  new_logfile :: "Status \<times> 'd"

definition RecordBackgroundError :: "Status \<Rightarrow> 'd WriteDb \<Rightarrow> 'd WriteDb" where
  "RecordBackgroundError s db = (if status_ok (db_bg_error db) then db\<lparr>db_bg_error := s\<rparr> else db)"

text \<open>\<^const>\<open>None\<close>: still waiting when the turns that are given are used up.\<close>

fun MakeRoomForWrite :: "nat \<Rightarrow> 'd room list \<Rightarrow> bool \<Rightarrow> bool \<Rightarrow> 'd WriteDb \<Rightarrow> (Status \<times> 'd WriteDb) option" where
  "MakeRoomForWrite write_buffer_size [] force allow_delay db = None"
| "MakeRoomForWrite write_buffer_size (turn # turns) force allow_delay db =
     (let db = (if imm_done turn then db\<lparr>db_imm := None\<rparr> else db);
          db = RecordBackgroundError (bg_recorded turn) db in
      if \<not> status_ok (db_bg_error db) then Some (db_bg_error db, db)
      else if allow_delay \<and> level0_files turn \<ge> kL0_SlowdownWritesTrigger then
        MakeRoomForWrite write_buffer_size turns force False db
      else if \<not> force \<and> mem_usage turn \<le> write_buffer_size then Some (Status_OK, db)
      else if db_imm db \<noteq> None then MakeRoomForWrite write_buffer_size turns force allow_delay db
      else if level0_files turn \<ge> kL0_StopWritesTrigger then
        MakeRoomForWrite write_buffer_size turns force allow_delay db
      else
        (case new_logfile turn of
           (s, lfile) \<Rightarrow>
             if \<not> status_ok s then Some (s, db)
             else
               MakeRoomForWrite write_buffer_size turns False allow_delay
                 (db\<lparr>db_logfile := lfile, db_log := new_Writer, db_imm := Some (db_mem db),
                    db_mem := MemTable_Ref (new_MemTable (mt_comparator (db_mem db)))\<rparr>)))"

subsection \<open>Writing\<close>

text \<open>The append to the log, the sync and the insertion into the memtable, of a batch with its number.\<close>

definition log_and_insert :: "'d WritableFile \<Rightarrow> bool \<Rightarrow> WriteBatch \<Rightarrow> 'd WriteDb \<Rightarrow> (Status \<times> 'd WriteDb) option" where
  "log_and_insert ops sync updates db =
     (let (status, log, file) = AddRecord ops (batch_Contents updates) (db_log db) (db_logfile db);
          (status, sync_error, file) =
            (if status_ok status \<and> sync
             then (let (status, file) = Sync_op ops file in (status, \<not> status_ok status, file))
             else (status, False, file));
          db = db\<lparr>db_log := log, db_logfile := file\<rparr>
      in map_option (\<lambda>(status, db). (status, if sync_error then RecordBackgroundError status db else db))
        (if status_ok status then
           (case batch_InsertInto updates (db_mem db) of
              (status, None) \<Rightarrow> None
            | (status, Some mem) \<Rightarrow> Some (status, db\<lparr>db_mem := mem\<rparr>))
         else Some (status, db)))"

text \<open>
  What \<^verbatim>\<open>Write\<close> does once the writer is at the front of the queue: the writers it answers for, in their
  order, and the state.  The first of them is the writer itself: its status is what \<^verbatim>\<open>Write\<close> returns.
\<close>

definition finish_writers :: "Status \<Rightarrow> nat \<Rightarrow> 'd WriteDb \<Rightarrow> db_writer list \<times> 'd WriteDb" where
  "finish_writers status pos db =
     (map (\<lambda>w. w\<lparr>w_status := status, w_done := True\<rparr>) (take (pos + 1) (db_writers db)),
      db\<lparr>db_writers := drop (pos + 1) (db_writers db)\<rparr>)"

definition write_turn :: "'d WritableFile \<Rightarrow> nat \<Rightarrow> 'd room list \<Rightarrow> 'd WriteDb \<Rightarrow> (db_writer list \<times> 'd WriteDb) option" where
  "write_turn ops write_buffer_size turns db =
     (let w = hd (db_writers db); force = (w_batch w = None) in
      case MakeRoomForWrite write_buffer_size turns force (\<not> force) db of
        None \<Rightarrow> None
      | Some (status, db) \<Rightarrow>
          if status_ok status \<and> w_batch w \<noteq> None then
            (let (updates, in_tmp, pos) = BuildBatchGroup (db_writers db) (db_tmp_batch db);
                 last_sequence = db_last_sequence db;
                 updates = batch_SetSequence (last_sequence + 1) updates;
                 last_sequence = last_sequence + of_int (batch_Count updates) in
             case log_and_insert ops (w_sync w) updates db of
               None \<Rightarrow> None
             | Some (status, db) \<Rightarrow>
                 let db = (if in_tmp then db\<lparr>db_tmp_batch := WriteBatch_Clear\<rparr>
                           else db\<lparr>db_writers := (db_writers db)[0 := w\<lparr>w_batch := Some updates\<rparr>]\<rparr>);
                     db = db\<lparr>db_last_sequence := last_sequence\<rparr>
                 in Some (finish_writers status pos db))
          else Some (finish_writers status 0 db))"

subsection \<open>Events\<close>

text \<open>A thread calls \<^verbatim>\<open>Write\<close> and waits in the queue, or the thread at the front takes its turn.\<close>

datatype 'd event = Arrive "update list" bool | Turn "'d room list"

fun run_event :: "'d WritableFile \<Rightarrow> nat \<Rightarrow> 'd event \<Rightarrow> 'd WriteDb \<Rightarrow> (db_writer list \<times> 'd WriteDb) option" where
  "run_event ops wbs (Arrive us sync) db =
     Some ([], db\<lparr>db_writers := db_writers db @ [new_db_writer (Some (fold update_batch us WriteBatch_Clear)) sync]\<rparr>)"
| "run_event ops wbs (Turn turns) db = (if db_writers db = [] then Some ([], db) else write_turn ops wbs turns db)"

primrec run_events :: "'d WritableFile \<Rightarrow> nat \<Rightarrow> 'd event list \<Rightarrow> 'd WriteDb \<Rightarrow> (db_writer list \<times> 'd WriteDb) option" where
  "run_events ops wbs [] db = Some ([], db)"
| "run_events ops wbs (e # es) db =
     (case run_event ops wbs e db of
        None \<Rightarrow> None
      | Some (fin, db) \<Rightarrow> map_option (\<lambda>(fin', db). (fin @ fin', db)) (run_events ops wbs es db))"

section \<open>Recovery\<close>

text \<open>
  \<open>rc_tables\<close> are the memtables given to \<^verbatim>\<open>WriteLevel0Table\<close>, whose answer is a parameter, as is the
  memory a table uses.
\<close>

record recovery =
  rc_status :: Status
  rc_mem :: "MemTable option"
  rc_max_sequence :: SequenceNumber
  rc_compactions :: nat
  rc_tables :: "MemTable list"

record recovery_options =
  ro_comparator :: Comparator
  ro_paranoid_checks :: bool
  ro_write_buffer_size :: nat
  ro_memory_usage :: "MemTable \<Rightarrow> nat"
  ro_level0 :: "MemTable \<Rightarrow> Status"

definition MaybeIgnoreError :: "recovery_options \<Rightarrow> Status \<Rightarrow> Status" where
  "MaybeIgnoreError opt s = (if status_ok s \<or> ro_paranoid_checks opt then s else Status_OK)"

text \<open>The reporter keeps the first error when the checks are paranoid, and only logs it otherwise.\<close>

definition note_corruption :: "recovery_options \<Rightarrow> Status \<Rightarrow> recovery \<Rightarrow> recovery" where
  "note_corruption opt s st = (if ro_paranoid_checks opt \<and> status_ok (rc_status st) then st\<lparr>rc_status := s\<rparr> else st)"

text \<open>A record of at least 12 bytes; whether the loop is left.\<close>

definition recover_record :: "recovery_options \<Rightarrow> slice \<Rightarrow> recovery \<Rightarrow> (bool \<times> recovery) option" where
  "recover_record opt rec st =
     (let batch = batch_SetContents rec;
          mem = (case rc_mem st of None \<Rightarrow> MemTable_Ref (new_MemTable (ro_comparator opt)) | Some mem \<Rightarrow> mem) in
      case batch_InsertInto batch mem of
        (s, None) \<Rightarrow> None
      | (s, Some mem) \<Rightarrow>
          let st = st\<lparr>rc_mem := Some mem, rc_status := MaybeIgnoreError opt s\<rparr> in
          if \<not> status_ok (rc_status st) then Some (True, st)
          else
            let last_seq = batch_Sequence batch + of_int (batch_Count batch) - 1;
                st = (if last_seq > rc_max_sequence st then st\<lparr>rc_max_sequence := last_seq\<rparr> else st) in
            if ro_memory_usage opt mem > ro_write_buffer_size opt then
              (let status = ro_level0 opt mem;
                   st = st\<lparr>rc_compactions := rc_compactions st + 1, rc_tables := rc_tables st @ [mem],
                     rc_mem := None, rc_status := status\<rparr>
               in Some (\<not> status_ok status, st))
            else Some (False, st))"

text \<open>The loop; \<^const>\<open>None\<close> when it does not return.\<close>

partial_function (option) recover_loop ::
  "recovery_options \<Rightarrow> 'f SequentialFile \<Rightarrow> log_reader \<Rightarrow> 'f \<Rightarrow> recovery \<Rightarrow> recovery option" where
  "recover_loop opt ops r f st =
     (case ReadRecord ops r f of
        None \<Rightarrow> None
      | Some (x, r', f') \<Rightarrow>
          let st = fold (\<lambda>report. note_corruption opt (snd report)) (drop (length (reports r)) (reports r')) st in
          (case x of
             None \<Rightarrow> Some st
           | Some rec \<Rightarrow>
               if \<not> status_ok (rc_status st) then Some st
               else if length rec < 12 then
                 recover_loop opt ops r' f' (note_corruption opt (Status_Corruption (bytes_of ''log record too small'') []) st)
               else
                 (case recover_record opt rec st of
                    None \<Rightarrow> None
                  | Some (stop, st) \<Rightarrow> if stop then Some st else recover_loop opt ops r' f' st)))"

definition RecoverLogFile :: "recovery_options \<Rightarrow> 'f SequentialFile \<Rightarrow> 'f \<Rightarrow> SequenceNumber \<Rightarrow> recovery option" where
  "RecoverLogFile opt ops file max_sequence =
     recover_loop opt ops (new_Reader True True 0) file
       \<lparr>rc_status = Status_OK, rc_mem = None, rc_max_sequence = max_sequence, rc_compactions = 0, rc_tables = []\<rparr>"

end
