(* ===== verification/Ldb_Write_Facts.thy ===== *)
theory Ldb_Write_Facts
  imports Ldb_Write Ldb_Log_Facts
begin

text \<open>
  The write path and the recovery together: what was acknowledged is in the memtable, in the order of the
  writers, and replaying the log, cut off anywhere behind what was acknowledged, builds the same memtable
  again, up to some of the later writes.
\<close>

section \<open>Replaying what a reader reads\<close>

subsection \<open>Reports are only added\<close>

definition more_reports :: "log_reader \<Rightarrow> log_reader \<Rightarrow> bool" where
  "more_reports r r' \<longleftrightarrow> (\<exists>ds. reports r' = reports r @ ds)"

lemma more_reports_refl [simp]: "more_reports r r" "reports r' = reports r \<Longrightarrow> more_reports r r'"
  by (simp_all add: more_reports_def)

lemma more_reports_trans: "more_reports r r' \<Longrightarrow> more_reports r' r'' \<Longrightarrow> more_reports r r''"
  by (auto simp: more_reports_def)

lemma more_reports_between: "more_reports a b \<Longrightarrow> more_reports b c \<Longrightarrow> reports c = reports a \<Longrightarrow> reports b = reports a"
  unfolding more_reports_def by (metis append.assoc append_is_Nil_conv append_self_conv)

lemma ReportDrop_more: "more_reports r (ReportDrop n s r)"
  by (simp add: ReportDrop_def more_reports_def)

lemma more_upd [simp]:
  "more_reports r (r'\<lparr>buffer := b\<rparr>) = more_reports r r'" "more_reports r (r'\<lparr>eof := e\<rparr>) = more_reports r r'"
  "more_reports r (r'\<lparr>end_of_buffer_offset := x\<rparr>) = more_reports r r'" "more_reports r (r'\<lparr>resyncing := y\<rparr>) = more_reports r r'"
  "more_reports r (r'\<lparr>last_record_offset := x\<rparr>) = more_reports r r'"
  "more_reports (r\<lparr>buffer := b\<rparr>) r' = more_reports r r'" "more_reports (r\<lparr>eof := e\<rparr>) r' = more_reports r r'"
  "more_reports (r\<lparr>end_of_buffer_offset := x\<rparr>) r' = more_reports r r'" "more_reports (r\<lparr>resyncing := y\<rparr>) r' = more_reports r r'"
  "more_reports (r\<lparr>last_record_offset := x\<rparr>) r' = more_reports r r'"
  by (simp_all add: more_reports_def)

lemma ReportDrop_more' [simp]: "more_reports r r' \<Longrightarrow> more_reports r (ReportDrop n s r')"
  using ReportDrop_more more_reports_trans by blast

lemma ReportCorruption_more [simp]: "more_reports r r' \<Longrightarrow> more_reports r (ReportCorruption n s r')"
  by (simp add: ReportCorruption_def)

lemma refill_more: "refill ops r f = Inl (t, r', f') \<Longrightarrow> more_reports r r'" "refill ops r f = Inr (r', f') \<Longrightarrow> more_reports r r'"
  by (auto simp: refill_def Let_def split: if_splits prod.splits)

lemma parse_more: "parse_physical x r = (t, x', r') \<Longrightarrow> more_reports r r'"
  by (auto simp: parse_physical_def Let_def split: if_splits)

lemma ReadPhysical_more: "ReadPhysicalRecord ops x r f = (t, x', r', f') \<Longrightarrow> more_reports r r'"
proof (induction ops x r f rule: ReadPhysicalRecord.induct)
  case (1 ops x r f)
  show ?case
  proof (cases "length (buffer r) < kHeaderSize")
    case False
    then show ?thesis using 1(2) parse_more [of x r] by (subst (asm) ReadPhysicalRecord.simps) (auto split: prod.splits)
  next
    case True
    show ?thesis
    proof (cases "refill ops r f")
      case (Inl a)
      then show ?thesis using 1(2) True refill_more(1) [of ops r f]
        by (subst (asm) ReadPhysicalRecord.simps) (auto split: prod.splits)
    next
      case (Inr a)
      obtain r1 f1 where a: "a = (r1, f1)" by fastforce
      have "ReadPhysicalRecord ops x r1 f1 = (t, x', r', f')"
        using 1(2) True Inr a by (subst (asm) ReadPhysicalRecord.simps) simp
      then have "more_reports r1 r'" using 1(1) True Inr a by blast
      then show ?thesis using refill_more(2) [of ops r f] Inr a more_reports_trans by blast
    qed
  qed
qed

lemma handle_more: "handle_record t p v r = Inl (x, r') \<Longrightarrow> more_reports r r'" "handle_record t p v r = Inr (v', r') \<Longrightarrow> more_reports r r'"
  by (auto simp: handle_record_def Let_def partial_record_def split: if_splits)

lemma read_turn_more: "read_turn ops v r f = Inl (x, r', f') \<Longrightarrow> more_reports r r'" "read_turn ops v r f = Inr (v', r', f') \<Longrightarrow> more_reports r r'"
  using more_reports_trans [OF ReadPhysical_more]
  by (auto simp: read_turn_def Let_def split: if_splits prod.splits sum.splits dest!: ReadPhysical_more handle_more
    intro: more_reports_trans)

lemma read_loop_more: "read_loop_log ops v r f = Some res \<Longrightarrow> more_reports r (fst (snd res))"
proof (erule read_loop_log.raw_induct [rotated, where P = "\<lambda>ops v r f res. more_reports r (fst (snd res))"])
  fix loop :: "'f SequentialFile \<Rightarrow> read_vars \<Rightarrow> log_reader \<Rightarrow> 'f \<Rightarrow> (slice option \<times> log_reader \<times> 'f) option"
    and ops :: "'f SequentialFile" and v r f res
  assume IH: "\<And>ops v r f res. loop ops v r f = Some res \<Longrightarrow> more_reports r (fst (snd res))"
    and step: "(case read_turn ops v r f of Inl res \<Rightarrow> Some res | Inr (v, r, f) \<Rightarrow> loop ops v r f) = Some res"
  show "more_reports r (fst (snd res))"
  proof (cases "read_turn ops v r f")
    case (Inl a)
    then show ?thesis using step read_turn_more(1) [of ops v r f] by (cases a) auto
  next
    case (Inr a)
    obtain v1 r1 f1 where a: "a = (v1, r1, f1)" by (metis prod_cases3)
    have "more_reports r1 (fst (snd res))" using step Inr a IH by simp
    then show ?thesis using read_turn_more(2) [of ops v r f v1 r1 f1] Inr a more_reports_trans by blast
  qed
qed

lemma ReadRecord_more: "ReadRecord ops r f = Some (x, r', f') \<Longrightarrow> more_reports r r'"
proof -
  have "SkipToInitialBlock ops r f = (b, r1, f1) \<Longrightarrow> more_reports r r1" for b r1 f1
    by (auto simp: SkipToInitialBlock_def Let_def split: if_splits prod.splits)
  then show "ReadRecord ops r f = Some (x, r', f') \<Longrightarrow> more_reports r r'"
    using read_loop_more more_reports_trans
    by (fastforce simp: ReadRecord_def split: if_splits prod.splits)
qed

subsection \<open>The loop over the records\<close>

primrec replay :: "recovery_options \<Rightarrow> slice list \<Rightarrow> recovery \<Rightarrow> recovery option" where
  "replay opt [] st = Some st"
| "replay opt (x # xs) st =
     (case recover_record opt x st of None \<Rightarrow> None | Some (stop, st) \<Rightarrow> if stop then Some st else replay opt xs st)"

lemma recover_record_ok: "recover_record opt x st = Some (False, st') \<Longrightarrow> status_ok (rc_status st')"
  by (auto simp: recover_record_def Let_def split: option.splits prod.splits if_splits)

lemma read_records_more: "read_records ops n r f = Some (xs, r', f') \<Longrightarrow> more_reports r r'"
proof (induction n arbitrary: r f xs)
  case (Suc n)
  obtain x r1 f1 where rd: "ReadRecord ops r f = Some (x, r1, f1)" using Suc.prems by (auto split: option.splits)
  have "more_reports r1 r'"
  proof (cases x)
    case None
    then show ?thesis using Suc.prems rd by simp
  next
    case (Some y)
    then show ?thesis using Suc rd by auto
  qed
  then show ?case using ReadRecord_more [OF rd] more_reports_trans by blast
qed simp

lemma recover_loop_replay:
  "read_records ops (Suc n) r f = Some (xs, r', f') \<Longrightarrow> length xs \<le> n \<Longrightarrow> reports r' = reports r \<Longrightarrow>
    \<forall>x \<in> set xs. 12 \<le> length x \<Longrightarrow> status_ok (rc_status st) \<Longrightarrow> recover_loop opt ops r f st = replay opt xs st"
proof (induction n arbitrary: r f xs st)
  case 0
  then have xs: "xs = []" by simp
  then obtain r1 f1 where "ReadRecord ops r f = Some (None, r1, f1)" "r1 = r'"
    using 0 by (auto split: option.splits)
  then show ?case using xs 0(3) by (subst recover_loop.simps) simp
next
  case (Suc n)
  define m where "m = Suc n"
  note step = Suc.prems(1) [folded m_def, unfolded read_records.simps(2)]
  obtain x r1 f1 where rd: "ReadRecord ops r f = Some (x, r1, f1)" using step by (auto split: option.splits)
  show ?case
  proof (cases x)
    case None
    then have "xs = []" "r1 = r'" using step rd by auto
    then show ?thesis using rd None Suc.prems(3) by (subst recover_loop.simps) simp
  next
    case (Some y)
    then obtain ys where ys: "read_records ops m r1 f1 = Some (ys, r', f')" "xs = y # ys"
      using step rd by auto
    have "more_reports r1 r'" by (rule read_records_more [OF ys(1)])
    then have same: "reports r1 = reports r" using more_reports_between [OF ReadRecord_more [OF rd]] Suc.prems(3) by blast
    have "recover_loop opt ops r1 f1 st' = replay opt ys st'" if "recover_record opt y st = Some (False, st')" for st'
      by (rule Suc.IH [OF ys(1) [unfolded m_def]]) (use Suc.prems ys(2) same recover_record_ok [OF that] in auto)
    moreover have "recover_loop opt ops r f st = (case recover_record opt y st of None \<Rightarrow> None
        | Some (stop, st) \<Rightarrow> if stop then Some st else recover_loop opt ops r1 f1 st)"
      using rd Some ys(2) same Suc.prems(4,5) by (subst recover_loop.simps) simp
    ultimately show ?thesis using ys(2) by (auto split: option.splits)
  qed
qed

section \<open>Batches in the log\<close>

text \<open>The records of groups of updates, numbered on from \<open>s\<close>.\<close>

primrec group_records :: "SequenceNumber \<Rightarrow> update list list \<Rightarrow> slice list" where
  "group_records s [] = []"
| "group_records s (us # gs) = batch_of (s + 1) (length us) us # group_records (s + of_nat (length us)) gs"

lemma length_group_records [simp]: "length (group_records s gs) = length gs"
  by (induction gs arbitrary: s) simp_all

lemma group_records_append: "group_records s (gs @ hs) = group_records s gs @ group_records (s + of_nat (length (concat gs))) hs"
  by (induction gs arbitrary: s) (simp_all add: add.assoc)

lemma group_records_take: "take k (group_records s gs) = group_records s (take k gs)"
proof (induction gs arbitrary: s k)
  case (Cons us gs)
  then show ?case by (cases k) simp_all
qed simp

lemma group_records_long: "x \<in> set (group_records s gs) \<Longrightarrow> 12 \<le> length x"
  by (induction gs arbitrary: s) (auto simp: batch_of_def)

lemma numbered_append: "numbered s (us @ vs) = numbered s us @ numbered (s + of_nat (length us)) vs"
  by (induction us arbitrary: s) (simp_all add: add.assoc)

lemma add_versions_append: "add_versions (vs @ ws) mem = Option.bind (add_versions vs mem) (add_versions ws)"
proof (induction vs arbitrary: mem)
  case (Cons v vs)
  then show ?case
    by (cases "MemTable_Add (sequence (fst v)) (value_type (fst v)) (user_key (fst v)) (snd v) mem") simp_all
qed simp

definition small_group :: "update list \<Rightarrow> bool" where
  "small_group us \<longleftrightarrow> (\<forall>u \<in> set us. small_update u) \<and> length us < 2 ^ 31"

lemma small_group_take: "small_group (concat uss) \<Longrightarrow> small_group (concat (take n uss))"
proof -
  have "concat uss = concat (take n uss) @ concat (drop n uss)" by (simp flip: concat_append)
  then show "small_group (concat uss) \<Longrightarrow> small_group (concat (take n uss))" by (auto simp: small_group_def)
qed

lemma small_InsertInto: "small_group us \<Longrightarrow> batch_InsertInto (batch_of s (length us) us) mem = (Status_OK, add_versions (numbered s us) mem)"
  by (simp add: small_group_def InsertInto_batch)

text \<open>Replaying them.\<close>

definition start_mem :: "recovery_options \<Rightarrow> recovery \<Rightarrow> MemTable" where
  "start_mem opt st = (case rc_mem st of None \<Rightarrow> MemTable_Ref (new_MemTable (ro_comparator opt)) | Some mem \<Rightarrow> mem)"

lemma replay_groups:
  assumes "\<forall>mem. ro_memory_usage opt mem \<le> ro_write_buffer_size opt"
  shows "\<forall>us \<in> set gs. small_group us \<Longrightarrow> unat s + length (concat gs) < 2 ^ 64 \<Longrightarrow> rc_max_sequence st = s \<Longrightarrow>
    status_ok (rc_status st) \<Longrightarrow> add_versions (numbered (s + 1) (concat gs)) (start_mem opt st) = Some mem \<Longrightarrow>
    \<exists>st'. replay opt (group_records s gs) st = Some st' \<and> status_ok (rc_status st') \<and> rc_tables st' = rc_tables st \<and>
      rc_max_sequence st' = s + of_nat (length (concat gs)) \<and> rc_mem st' = (if gs = [] then rc_mem st else Some mem)"
proof (induction gs arbitrary: s st)
  case (Cons us gs)
  obtain mem1 where m: "add_versions (numbered (s + 1) us) (start_mem opt st) = Some mem1"
    "add_versions (numbered (s + of_nat (length us) + 1) (concat gs)) mem1 = Some mem"
    using Cons.prems(5) by (auto simp: numbered_append add_versions_append algebra_simps split: bind_splits)
  have ins: "batch_InsertInto (batch_of (s + 1) (length us) us) (start_mem opt st) = (Status_OK, Some mem1)"
    using small_InsertInto Cons.prems(1) m(1) by simp
  have small: "length us < 2 ^ 31" using Cons.prems(1) by (simp add: small_group_def)
  have last: "batch_Sequence (batch_of (s + 1) (length us) us) + of_int (batch_Count (batch_of (s + 1) (length us) us)) - 1 =
      s + of_nat (length us)"
    using batch_of_Count [OF small] by (simp add: batch_of_Sequence)
  have un: "unat (s + of_nat (length us)) = unat s + length us"
    using Cons.prems(2) by (simp add: unat_word_ariths unat_of_nat)
  then have greater: "s + of_nat (length us) > s \<or> s + of_nat (length us) = s"
    by (auto simp: word_less_nat_alt word_unat_eq_iff)
  define st1 where "st1 = st\<lparr>rc_mem := Some mem1, rc_status := Status_OK, rc_max_sequence := s + of_nat (length us)\<rparr>"
  have "recover_record opt (batch_of (s + 1) (length us) us) st = Some (False, st1)"
    using ins greater assms [rule_format, of mem1] Cons.prems(3)
    by (auto simp: recover_record_def batch_SetContents_def last MaybeIgnoreError_def st1_def start_mem_def Let_def not_less)
  moreover have "\<exists>st'. replay opt (group_records (s + of_nat (length us)) gs) st1 = Some st' \<and> status_ok (rc_status st') \<and>
      rc_tables st' = rc_tables st1 \<and> rc_max_sequence st' = s + of_nat (length us) + of_nat (length (concat gs)) \<and>
      rc_mem st' = (if gs = [] then rc_mem st1 else Some mem)"
    by (rule Cons.IH) (use Cons.prems un m(2) in \<open>simp_all add: st1_def start_mem_def\<close>)
  moreover have "gs = [] \<Longrightarrow> mem1 = mem" using m(2) by simp
  ultimately show ?case by (auto simp: st1_def add.assoc)
qed simp

section \<open>The group of the first writer\<close>

text \<open>The batches of the waiting writers.\<close>

definition waiting :: "db_writer list \<Rightarrow> update list list \<Rightarrow> bool" where
  "waiting ws uss \<longleftrightarrow> list_all2 (\<lambda>w us. w_batch w = Some (batch_of 0 (length us) us)) ws uss"

lemma waiting_simps [simp]:
  "waiting [] uss \<longleftrightarrow> uss = []"
  "waiting (w # ws) uss \<longleftrightarrow> (\<exists>us uss'. uss = us # uss' \<and> w_batch w = Some (batch_of 0 (length us) us) \<and> waiting ws uss')"
  by (auto simp: waiting_def list_all2_Cons1)

lemma waiting_snoc: "waiting ws uss \<Longrightarrow> waiting (ws @ [new_db_writer (Some (fold update_batch us WriteBatch_Clear)) sync]) (uss @ [us])"
  by (simp add: waiting_def list_all2_appendI new_db_writer_def batch_built)

lemma waiting_drop: "waiting ws uss \<Longrightarrow> waiting (drop n ws) (drop n uss)"
  by (simp add: waiting_def list_all2_dropI)

lemma waiting_length: "waiting ws uss \<Longrightarrow> length ws = length uss"
  by (simp add: waiting_def list_all2_lengthD)

lemma group_loop_in_tmp: "group_loop first m ws tmp True n pos = (tmp', in_tmp', pos') \<Longrightarrow> in_tmp'"
proof (induction ws arbitrary: tmp n pos)
  case (Cons w ws)
  then show ?case by (auto simp: Let_def split: if_splits option.splits)
qed simp

lemma group_loop_spec:
  "waiting ws uss \<Longrightarrow> w_batch first = Some (batch_of 0 (length us) us) \<Longrightarrow>
    tmp = (if in_tmp then batch_of 0 (length acc) acc else WriteBatch_Clear) \<Longrightarrow> (\<not> in_tmp \<Longrightarrow> acc = us) \<Longrightarrow>
    group_loop first m ws tmp in_tmp n pos = (tmp', in_tmp', pos') \<Longrightarrow>
    \<exists>k \<le> length ws. pos' = pos + k \<and>
      (if in_tmp' then tmp' = batch_of 0 (length (acc @ concat (take k uss))) (acc @ concat (take k uss))
       else tmp' = WriteBatch_Clear \<and> k = 0 \<and> acc = us)"
proof (induction ws arbitrary: uss tmp in_tmp n pos acc)
  case Nil
  then show ?case by (auto split: if_splits)
next
  case (Cons w ws)
  obtain u uss' where w: "uss = u # uss'" "w_batch w = Some (batch_of 0 (length u) u)" "waiting ws uss'" using Cons.prems(1) by auto
  define go where "go = (\<not> (w_sync w \<and> \<not> w_sync first) \<and> \<not> m < n + batch_ByteSize (batch_of 0 (length u) u))"
  show ?case
  proof (cases go)
    case False
    then have "tmp' = tmp" "in_tmp' = in_tmp" "pos' = pos" using Cons.prems(5) w(2) by (auto simp: go_def Let_def split: if_splits)
    then show ?thesis using Cons.prems(3,4) by (intro exI [of _ 0]) auto
  next
    case True
    let ?tmp = "batch_of 0 (length (acc @ u)) (acc @ u)"
    have "batch_Append (batch_of 0 (length u) u) (if \<not> in_tmp then batch_Append (the (w_batch first)) tmp else tmp) = ?tmp"
      using Cons.prems(2,3,4) by (auto simp: batch_new batch_of_Append)
    moreover have "group_loop first m (w # ws) tmp in_tmp n pos = group_loop first m ws (batch_Append (batch_of 0 (length u) u)
        (if \<not> in_tmp then batch_Append (the (w_batch first)) tmp else tmp)) True (n + batch_ByteSize (batch_of 0 (length u) u)) (pos + 1)"
      using w(2) True by (auto simp: go_def Let_def)
    ultimately have go_on: "group_loop first m ws ?tmp True (n + batch_ByteSize (batch_of 0 (length u) u)) (pos + 1) = (tmp', in_tmp', pos')"
      using Cons.prems(5) by metis
    from Cons.IH [OF w(3) Cons.prems(2) _ _ go_on, of "acc @ u"] obtain k where "k \<le> length ws" "pos' = pos + 1 + k"
      "if in_tmp' then tmp' = batch_of 0 (length (acc @ u @ concat (take k uss'))) (acc @ u @ concat (take k uss'))
       else tmp' = WriteBatch_Clear \<and> k = 0 \<and> acc @ u = us" by auto
    moreover have "in_tmp'" by (rule group_loop_in_tmp [OF go_on])
    ultimately show ?thesis using w(1) by (intro exI [of _ "Suc k"]) simp
  qed
qed

lemma BuildBatchGroup_spec:
  assumes "waiting ws uss" and "ws \<noteq> []" and "BuildBatchGroup ws WriteBatch_Clear = (b, in_tmp, pos)"
  shows "pos < length ws" and "b = batch_of 0 (length (concat (take (Suc pos) uss))) (concat (take (Suc pos) uss))"
    and "\<not> in_tmp \<Longrightarrow> pos = 0"
proof -
  obtain w ws' us uss' where w: "ws = w # ws'" "uss = us # uss'" "w_batch w = Some (batch_of 0 (length us) us)" "waiting ws' uss'"
    using assms(1,2) by (cases ws) auto
  define m where "m = (if batch_ByteSize (batch_of 0 (length us) us) \<le> 128 * 2 ^ 10
    then batch_ByteSize (batch_of 0 (length us) us) + 128 * 2 ^ 10 else 2 ^ 20)"
  obtain tmp' where g: "group_loop w m ws' WriteBatch_Clear False (batch_ByteSize (batch_of 0 (length us) us)) 0 = (tmp', in_tmp, pos)"
    and b: "b = (if in_tmp then tmp' else batch_of 0 (length us) us)"
    using assms(3) [unfolded BuildBatchGroup_def Let_def w(1) list.sel w(3) option.sel, folded m_def]
    by (auto split: prod.splits)
  from group_loop_spec [OF w(4,3) _ _ g, of us] show "pos < length ws" "\<not> in_tmp \<Longrightarrow> pos = 0"
    "b = batch_of 0 (length (concat (take (Suc pos) uss))) (concat (take (Suc pos) uss))"
    using w(1,2) b by (auto split: if_splits)
qed

section \<open>The log of a synced file\<close>

lemma take_append_le: "k \<le> length xs \<Longrightarrow> take k (xs @ ys) = take k xs" "k \<le> length xs \<Longrightarrow> drop k (xs @ ys) = drop k xs @ ys"
  by simp_all

lemma encodes_all_append: "encodes_all xs p out p' \<Longrightarrow> encodes_all ys p' out' p'' \<Longrightarrow> encodes_all (xs @ ys) p (out @ out') p''"
proof (induction rule: encodes_all.induct)
  case (more x p out p' xs outs p'')
  then show ?case using encodes_all.more [of x p out p' "xs @ ys" "outs @ out'"] by simp
qed simp

text \<open>The updates of the threads, in the order in which they came to the queue.\<close>

fun arrivals :: "'d event list \<Rightarrow> update list list" where
  "arrivals [] = []"
| "arrivals (Arrive us sync # es) = us # arrivals es"
| "arrivals (Turn turns # es) = arrivals es"

lemma arrivals_append: "arrivals (es @ es') = arrivals es @ arrivals es'"
  by (induction es rule: arrivals.induct) simp_all

text \<open>A file whose \<^verbatim>\<open>Sync\<close> keeps what was flushed.\<close>

locale synced_file = writable_file ops good all durable
  for ops :: "'s WritableFile" and good :: "'s \<Rightarrow> bool" and all :: "'s \<Rightarrow> byte list" and durable :: "'s \<Rightarrow> byte list" +
  assumes sync_keeps: "good s \<Longrightarrow> durable s = all s \<Longrightarrow> Sync_op ops s = (st, s') \<Longrightarrow> status_ok st \<Longrightarrow>
    good s' \<and> all s' = all s \<and> durable s' = all s"
begin

text \<open>The writer is at the end of the log, at this offset in its block.\<close>

definition log_at :: "nat \<Rightarrow> log_writer \<Rightarrow> 's \<Rightarrow> bool" where
  "log_at p w d \<longleftrightarrow> good d \<and> durable d = all d \<and> block_offset w = int p \<and> p \<le> 32768 \<and> type_crc w = InitTypeCrc"

lemma AddRecord_log:
  assumes "log_at p w d" and "AddRecord ops x w d = (s, w', d')" and "status_ok s"
  shows "\<exists>out p'. encodes_all [x] p out p' \<and> durable d' = durable d @ out \<and> log_at p' w' d'"
proof -
  have "add_records ops [x] w d = (Status_OK, w', d')" using assms(2,3) by simp
  from add_records_encodes [OF this] assms(1) obtain out p' where "encodes_all [x] p out p'" "all d' = all d @ out"
    "durable d' = all d'" "good d'" "block_offset w' = int p'" "type_crc w' = InitTypeCrc" by (auto simp: log_at_def)
  then show ?thesis using assms(1) encodes_all_end by (auto simp: log_at_def)
qed

text \<open>A turn that finds room at once.\<close>

definition quiet :: "nat \<Rightarrow> 's event \<Rightarrow> bool" where
  "quiet wbs e = (case e of Arrive us sync \<Rightarrow> True
     | Turn turns \<Rightarrow> turns \<noteq> [] \<and> mem_usage (hd turns) \<le> wbs \<and> level0_files (hd turns) < kL0_SlowdownWritesTrigger \<and>
         status_ok (bg_recorded (hd turns)))"

lemma quiet_room:
  assumes "quiet wbs (Turn turns)" and "status_ok (db_bg_error db)"
  shows "\<exists>db1. MakeRoomForWrite wbs turns False True db = Some (Status_OK, db1) \<and> status_ok (db_bg_error db1) \<and>
    db_log db1 = db_log db \<and> db_logfile db1 = db_logfile db \<and> db_mem db1 = db_mem db \<and>
    db_last_sequence db1 = db_last_sequence db \<and> db_writers db1 = db_writers db \<and> db_tmp_batch db1 = db_tmp_batch db"
  using assms by (cases turns) (auto simp: quiet_def RecordBackgroundError_def Let_def)

lemma write_turn_spec:
  assumes q: "quiet wbs (Turn turns)" and bg: "status_ok (db_bg_error db)" and ws: "waiting (db_writers db) uss" "db_writers db \<noteq> []"
    and tmp: "db_tmp_batch db = WriteBatch_Clear" and log: "log_at p (db_log db) (db_logfile db)"
    and small: "small_group (concat uss)"
    and turn: "write_turn ops wbs turns db = Some (fin, db')" and ok: "\<forall>w \<in> set fin. status_ok (w_status w)"
  shows "\<exists>k out p'. 0 < k \<and> k \<le> length uss \<and> length fin = k \<and> waiting (db_writers db') (drop k uss) \<and>
    encodes_all (group_records (db_last_sequence db) [concat (take k uss)]) p out p' \<and>
    durable (db_logfile db') = durable (db_logfile db) @ out \<and> log_at p' (db_log db') (db_logfile db') \<and>
    add_versions (numbered (db_last_sequence db + 1) (concat (take k uss))) (db_mem db) = Some (db_mem db') \<and>
    db_last_sequence db' = db_last_sequence db + of_nat (length (concat (take k uss))) \<and>
    db_tmp_batch db' = WriteBatch_Clear \<and> status_ok (db_bg_error db')"
proof -
  obtain db1 where r: "MakeRoomForWrite wbs turns False True db = Some (Status_OK, db1)" "status_ok (db_bg_error db1)"
    "db_log db1 = db_log db" "db_logfile db1 = db_logfile db" "db_mem db1 = db_mem db"
    "db_last_sequence db1 = db_last_sequence db" "db_writers db1 = db_writers db" "db_tmp_batch db1 = db_tmp_batch db"
    using quiet_room [OF q bg] by blast
  obtain b in_tmp pos where g: "BuildBatchGroup (db_writers db) WriteBatch_Clear = (b, in_tmp, pos)" by (metis prod_cases3)
  define us where "us = concat (take (Suc pos) uss)"
  note G = BuildBatchGroup_spec [OF ws g]
  let ?w = "hd (db_writers db)"
  have w: "w_batch ?w \<noteq> None" using ws by (cases "db_writers db") auto
  have small_us: "small_group us" unfolding us_def by (rule small_group_take [OF small])
  have count: "of_int (batch_Count (batch_of s (length us) us)) = (of_nat (length us) :: 64 word)" for s
    using batch_of_Count [of "length us" s us] small_us by (simp add: small_group_def)
  let ?b = "batch_of (db_last_sequence db + 1) (length us) us"
  obtain status db2 where l: "log_and_insert ops (w_sync ?w) ?b db1 = Some (status, db2)"
    and fin: "fin = map (\<lambda>w. w\<lparr>w_status := status, w_done := True\<rparr>) (take (Suc pos) (db_writers
        (if in_tmp then db2 else db2\<lparr>db_writers := (db_writers db2)[0 := ?w\<lparr>w_batch := Some ?b\<rparr>]\<rparr>)))"
    and db': "db' = (let db3 = (if in_tmp then db2\<lparr>db_tmp_batch := WriteBatch_Clear\<rparr>
          else db2\<lparr>db_writers := (db_writers db2)[0 := ?w\<lparr>w_batch := Some ?b\<rparr>]\<rparr>) in
        db3\<lparr>db_last_sequence := db_last_sequence db + of_nat (length us), db_writers := drop (Suc pos) (db_writers db3)\<rparr>)"
    using turn r w g G(2) count
    by (auto simp: write_turn_def Let_def tmp batch_of_SetSequence us_def [symmetric] finish_writers_def split: option.splits prod.splits)
  obtain s1 log1 f1 where a: "AddRecord ops ?b (db_log db) (db_logfile db) = (s1, log1, f1)" by (metis prod_cases3)
  have keep: "db_writers db2 = db_writers db" "db_tmp_batch db2 = WriteBatch_Clear"
    using l r tmp by (auto simp: log_and_insert_def Let_def RecordBackgroundError_def split: prod.splits option.splits if_splits)
  have "fin \<noteq> []" using fin keep(1) ws(2) by auto
  then have "status_ok status" using ok fin by (cases "db_writers db") (auto split: if_splits)
  then have s1: "status_ok s1" and sync: "w_sync ?w \<Longrightarrow> status_ok (fst (Sync_op ops f1))"
    and mem: "add_versions (numbered (db_last_sequence db + 1) us) (db_mem db) = Some (db_mem db2)"
    and log2: "db_log db2 = log1" "db_logfile db2 = (if w_sync ?w then snd (Sync_op ops f1) else f1)"
    and bg2: "status_ok (db_bg_error db2)"
    using l a r small_InsertInto [OF small_us]
    by (auto simp: log_and_insert_def batch_Contents_def Let_def RecordBackgroundError_def split: prod.splits option.splits if_splits)
  from AddRecord_log [OF log a s1] obtain out p' where e: "encodes_all [?b] p out p'" "durable f1 = durable (db_logfile db) @ out"
    "log_at p' log1 f1" by blast
  have f2: "log_at p' log1 (db_logfile db2) \<and> durable (db_logfile db2) = durable f1"
    using e(3) log2(2) sync sync_keeps [of f1 "fst (Sync_op ops f1)" "snd (Sync_op ops f1)"]
    by (auto simp: log_at_def)
  have len: "length uss = length (db_writers db)" using waiting_length [OF ws(1)] by simp
  have fields: "db_log db' = log1" "db_logfile db' = db_logfile db2" "db_mem db' = db_mem db2" "status_ok (db_bg_error db')"
    "db_last_sequence db' = db_last_sequence db + of_nat (length us)" "db_tmp_batch db' = WriteBatch_Clear"
    "db_writers db' = drop (Suc pos) (db_writers db)" "length fin = Suc pos"
    using G(1) log2 bg2 keep by (auto simp: db' fin Let_def drop_update_cancel)
  show ?thesis
    by (rule exI [of _ "Suc pos"], rule exI [of _ out], rule exI [of _ p'])
      (use G(1) len e f2 fields mem waiting_drop [OF ws(1)] in \<open>simp add: us_def\<close>)
qed

text \<open>Any sequence of events in which every writer was answered OK.\<close>

lemma run_events_spec:
  "\<forall>e \<in> set es. quiet wbs e \<Longrightarrow> status_ok (db_bg_error db) \<Longrightarrow> waiting (db_writers db) uss \<Longrightarrow>
    db_tmp_batch db = WriteBatch_Clear \<Longrightarrow> log_at p (db_log db) (db_logfile db) \<Longrightarrow>
    small_group (concat (uss @ arrivals es)) \<Longrightarrow> run_events ops wbs es db = Some (fin, db') \<Longrightarrow>
    \<forall>w \<in> set fin. status_ok (w_status w) \<Longrightarrow>
    \<exists>gs out p'. concat gs = take (length fin) (uss @ arrivals es) \<and> length fin \<le> length (uss @ arrivals es) \<and>
      waiting (db_writers db') (drop (length fin) (uss @ arrivals es)) \<and>
      encodes_all (group_records (db_last_sequence db) (map concat gs)) p out p' \<and>
      durable (db_logfile db') = durable (db_logfile db) @ out \<and> log_at p' (db_log db') (db_logfile db') \<and>
      add_versions (numbered (db_last_sequence db + 1) (concat (concat gs))) (db_mem db) = Some (db_mem db') \<and>
      db_last_sequence db' = db_last_sequence db + of_nat (length (concat (concat gs))) \<and>
      db_tmp_batch db' = WriteBatch_Clear \<and> status_ok (db_bg_error db')"
proof (induction es arbitrary: db uss p fin)
  case Nil
  have "p \<le> 32768" using Nil.prems(5) by (simp add: log_at_def)
  then have "encodes_all (group_records (db_last_sequence db) (map concat [])) p [] p" by (simp add: encodes_all.none)
  then show ?case using Nil.prems by (intro exI [of _ "[]"] exI [of _ p]) (auto intro: exI [of _ "[]"])
next
  case (Cons e es)
  obtain fin1 db1 fin2 where one: "run_event ops wbs e db = Some (fin1, db1)" and rest: "run_events ops wbs es db1 = Some (fin2, db')"
    and fin: "fin = fin1 @ fin2" using Cons.prems(7) by (auto split: option.splits)
  have quiets: "\<forall>e \<in> set es. quiet wbs e" and oks: "\<forall>w \<in> set fin2. status_ok (w_status w)" using Cons.prems(1,8) fin by auto
  have arrive: ?case if e: "e = Arrive us sync" for us sync
  proof -
    have db1: "fin1 = []" "db1 = db\<lparr>db_writers := db_writers db @ [new_db_writer (Some (fold update_batch us WriteBatch_Clear)) sync]\<rparr>"
      using one e by simp_all
    show ?thesis
      using Cons.IH [OF quiets _ _ _ _ _ rest oks, of "uss @ [us]" p] Cons.prems(2-6) waiting_snoc [OF Cons.prems(3)] db1 e fin
      by simp
  qed
  have idle: ?case if e: "e = Turn turns" "db_writers db = []" for turns
    using Cons.IH [OF quiets _ _ _ _ _ rest oks, of uss p] Cons.prems(2-6) one e fin by simp
  have turn: ?case if e: "e = Turn turns" "db_writers db \<noteq> []" for turns
  proof -
    have t: "write_turn ops wbs turns db = Some (fin1, db1)" using one e by simp
    have small: "small_group (concat uss)" using Cons.prems(6) by (auto simp: small_group_def)
    have q: "quiet wbs (Turn turns)" and ok1: "\<forall>w \<in> set fin1. status_ok (w_status w)" using Cons.prems(1,8) e fin by auto
    from write_turn_spec [OF q Cons.prems(2,3) e(2) Cons.prems(4,5) small t ok1]
    obtain k out p1 where k: "k \<le> length uss" "length fin1 = k" "waiting (db_writers db1) (drop k uss)"
      and enc: "encodes_all (group_records (db_last_sequence db) [concat (take k uss)]) p out p1"
      and log: "durable (db_logfile db1) = durable (db_logfile db) @ out" "log_at p1 (db_log db1) (db_logfile db1)"
      and mem: "add_versions (numbered (db_last_sequence db + 1) (concat (take k uss))) (db_mem db) = Some (db_mem db1)"
      and last: "db_last_sequence db1 = db_last_sequence db + of_nat (length (concat (take k uss)))"
      and more: "db_tmp_batch db1 = WriteBatch_Clear" "status_ok (db_bg_error db1)" by blast
    have split: "uss = take k uss @ drop k uss" by simp
    have small2: "small_group (concat (drop k uss @ arrivals es))"
    proof -
      have "concat (uss @ arrivals (e # es)) = concat (take k uss) @ concat (drop k uss @ arrivals es)"
        using e by (simp flip: concat_append append_assoc)
      then show ?thesis using Cons.prems(6) by (auto simp: small_group_def)
    qed
    from Cons.IH [OF quiets more(2) k(3) more(1) log(2) small2 rest oks]
    obtain gs out2 p2 where g: "concat gs = take (length fin2) (drop k uss @ arrivals es)"
      "length fin2 \<le> length (drop k uss @ arrivals es)" "waiting (db_writers db') (drop (length fin2) (drop k uss @ arrivals es))"
      "encodes_all (group_records (db_last_sequence db1) (map concat gs)) p1 out2 p2"
      "durable (db_logfile db') = durable (db_logfile db1) @ out2" "log_at p2 (db_log db') (db_logfile db')"
      "add_versions (numbered (db_last_sequence db1 + 1) (concat (concat gs))) (db_mem db1) = Some (db_mem db')"
      "db_last_sequence db' = db_last_sequence db1 + of_nat (length (concat (concat gs)))"
      "db_tmp_batch db' = WriteBatch_Clear" "status_ok (db_bg_error db')" by blast
    let ?gs = "take k uss # gs"
    have "encodes_all (group_records (db_last_sequence db) (map concat ?gs)) p (out @ out2) p2"
      using encodes_all_append [OF enc g(4) [unfolded last]] by simp
    moreover have "concat ?gs = take (length fin) (uss @ arrivals (e # es))"
    proof -
      have "length fin = k + length fin2" using k(2) fin by simp
      then have "take (length fin) (uss @ arrivals es) = take k uss @ take (length fin2) (drop k uss @ arrivals es)"
        by (simp only: take_add take_append_le [OF k(1)])
      then show ?thesis using g(1) e by simp
    qed
    moreover have "waiting (db_writers db') (drop (length fin) (uss @ arrivals (e # es)))"
    proof -
      have "length fin = length fin2 + k" using k(2) fin by simp
      then have "drop (length fin) (uss @ arrivals es) = drop (length fin2) (drop k uss @ arrivals es)"
        by (simp only: drop_drop [symmetric] take_append_le [OF k(1)])
      then show ?thesis using g(3) e by simp
    qed
    moreover have "add_versions (numbered (db_last_sequence db + 1) (concat (concat ?gs))) (db_mem db) = Some (db_mem db')"
      using mem g(7) last by (simp add: numbered_append add_versions_append algebra_simps)
    moreover have "length fin \<le> length (uss @ arrivals (e # es))" using g(2) k e fin by simp
    moreover have "db_last_sequence db' = db_last_sequence db + of_nat (length (concat (concat ?gs)))"
      using g(8) last by (simp add: algebra_simps)
    ultimately show ?thesis using g(5,6,9,10) log(1)
      by (intro exI [of _ ?gs] exI [of _ "out @ out2"] exI [of _ p2]) simp
  qed
  show ?case
  proof (cases e)
    case (Arrive us sync)
    then show ?thesis by (rule arrive)
  next
    case (Turn turns)
    then show ?thesis using idle turn by blast
  qed
qed

end

lemma Posix_Sync_keeps:
  assumes "buffer_ok f" and "disk f = contents f" and "Posix_Sync f = (s, f')" and "status_ok s"
  shows "buffer_ok f' \<and> contents f' = contents f \<and> disk f' = contents f"
proof -
  have b: "buf f = []" using assms(2) by (simp add: contents_def)
  obtain s1 f1 where d: "SyncDirIfManifest f = (s1, f1)" by fastforce
  have f1: "buf f1 = []" "disk f1 = disk f"
    using d b by (auto simp: SyncDirIfManifest_def split: if_splits prod.splits option.splits)
  obtain s2 f2 where fl: "FlushBuffer f1 = (s2, f2)" by fastforce
  note F = FlushBuffer_data [OF fl]
  have ok1: "status_ok s1" using assms(3,4) d by (auto simp: Posix_Sync_def split: if_splits)
  then have ok2: "status_ok s2" using assms(3,4) d fl by (auto simp: Posix_Sync_def split: if_splits)
  obtain s3 k where sy: "SyncFd (kern f2) (filename f2) = (s3, k)" by fastforce
  have f': "buf f' = buf f2" "disk f' = disk f2" using assms(3) ok1 ok2 d fl sy by (auto simp: Posix_Sync_def)
  have "buf f' = []" "disk f' = disk f" using f' F(1) F(2) [OF ok2] f1 by (simp_all add: contents_def)
  moreover from this have "contents f' = disk f'" "buffer_ok f'" by (simp_all add: buffer_ok_def contents_def)
  ultimately show ?thesis using assms(2) by metis
qed

interpretation posix_s: synced_file posix_writable buffer_ok contents disk
proof unfold_locales
  fix f s f'
  assume "buffer_ok f" "disk f = contents f" "Sync_op posix_writable f = (s, f')" "status_ok s"
  then show "buffer_ok f' \<and> contents f' = contents f \<and> disk f' = contents f"
    using Posix_Sync_keeps [of f s f'] by (simp add: posix_writable_def)
qed

section \<open>Properties\<close>

text \<open>The versions of numbered updates differ in their numbers.\<close>

lemma numbered_sequences: "map (\<lambda>q. sequence (fst q)) (numbered seq us) = map (\<lambda>i. seq + of_nat i) [0..<length us]"
proof (induction us arbitrary: seq)
  case (Cons u us)
  have "map (\<lambda>i. seq + of_nat i) [0..<Suc (length us)] = seq # map (\<lambda>i. seq + 1 + of_nat i) [0..<length us]"
    by (simp add: upt_conv_Cons map_Suc_upt [symmetric] algebra_simps del: upt_Suc)
  then show ?case using Cons by (cases u) simp_all
qed simp

lemma numbered_fields: "q \<in> set (numbered seq us) \<Longrightarrow> \<exists>u \<in> set us. user_key (fst q) = update_key u \<and> (small_update u \<longrightarrow> length (snd q) < 2 ^ 32)"
proof (induction us arbitrary: seq)
  case (Cons u us)
  then show ?case by (cases u) auto
qed simp

definition db_update :: "update \<Rightarrow> bool" where
  "db_update u \<longleftrightarrow> small_update u \<and> length (update_key u) + 8 < 2 ^ 32"

lemma unat_word_of_nat64: "n < 2 ^ 64 \<Longrightarrow> unat (of_nat n :: 64 word) = n"
  by (simp add: unat_of_nat)

lemma numbered_versions:
  assumes "\<forall>u \<in> set us. db_update u" and bound: "unat s0 + length us \<le> unat kMaxSequenceNumber"
  shows "\<forall>q \<in> set (numbered (s0 + 1) us). length (user_key (fst q)) + 8 < 2 ^ 32 \<and> length (snd q) < 2 ^ 32 \<and>
      sequence (fst q) \<le> kMaxSequenceNumber"
    and "distinct (map (\<lambda>q. (user_key (fst q), sequence (fst q))) (numbered (s0 + 1) us))"
proof -
  have max: "unat kMaxSequenceNumber < 2 ^ 64 - 1" by (simp add: kMaxSequenceNumber_def)
  have un: "unat (s0 + 1 + of_nat i) = unat s0 + 1 + i" if "i < length us" for i
  proof -
    have "unat s0 + 1 + i < 2 ^ 64" using bound max that by linarith
    moreover have "s0 + 1 + of_nat i = of_nat (unat s0 + 1 + i)" by simp
    ultimately show ?thesis by (metis unat_word_of_nat64)
  qed
  have seqs: "sequence (fst q) \<in> (\<lambda>i. s0 + 1 + of_nat i) ` {0..<length us}" if "q \<in> set (numbered (s0 + 1) us)" for q
  proof -
    have "sequence (fst q) \<in> set (map (\<lambda>q. sequence (fst q)) (numbered (s0 + 1) us))" using that by simp
    then show ?thesis unfolding numbered_sequences by simp
  qed
  show "\<forall>q \<in> set (numbered (s0 + 1) us). length (user_key (fst q)) + 8 < 2 ^ 32 \<and> length (snd q) < 2 ^ 32 \<and>
      sequence (fst q) \<le> kMaxSequenceNumber"
  proof
    fix q assume q: "q \<in> set (numbered (s0 + 1) us)"
    obtain i where i: "i < length us" "sequence (fst q) = s0 + 1 + of_nat i" using seqs [OF q] by auto
    then have "sequence (fst q) \<le> kMaxSequenceNumber" using un bound by (simp add: word_le_nat_alt)
    then show "length (user_key (fst q)) + 8 < 2 ^ 32 \<and> length (snd q) < 2 ^ 32 \<and> sequence (fst q) \<le> kMaxSequenceNumber"
      using numbered_fields [OF q] assms(1) by (auto simp: db_update_def)
  qed
  have "inj_on (\<lambda>i. s0 + 1 + of_nat i :: 64 word) {0..<length us}"
  proof (rule inj_onI)
    fix i j assume ij: "i \<in> {0..<length us}" "j \<in> {0..<length us}" and e: "s0 + 1 + of_nat i = s0 + 1 + (of_nat j :: 64 word)"
    have "unat s0 + 1 + i = unat (s0 + 1 + of_nat i)" using un ij(1) by (metis atLeastLessThan_iff)
    also have "\<dots> = unat s0 + 1 + j" unfolding e using un ij(2) by (metis atLeastLessThan_iff)
    finally show "i = j" by simp
  qed
  then have "distinct (map (\<lambda>q. sequence (fst q)) (numbered (s0 + 1) us))" unfolding numbered_sequences by (simp add: distinct_map)
  then show "distinct (map (\<lambda>q. (user_key (fst q), sequence (fst q))) (numbered (s0 + 1) us))"
    by (auto simp: distinct_map inj_on_def)
qed

text \<open>A database with a new log file and an empty memtable, at a sequence number.\<close>

definition new_WriteDb :: "'d \<Rightarrow> SequenceNumber \<Rightarrow> 'd WriteDb" where
  "new_WriteDb d s0 =
     \<lparr>db_log = new_Writer, db_logfile = d, db_mem = MemTable_Ref (new_MemTable BytewiseComparator), db_imm = None,
      db_last_sequence = s0, db_bg_error = Status_OK, db_writers = [], db_tmp_batch = WriteBatch_Clear\<rparr>"

lemma concat_map_concat: "concat (map concat gs) = concat (concat gs)"
  by (induction gs) simp_all

lemma append_eq_take: "xs = take n zs \<Longrightarrow> n \<le> length zs \<Longrightarrow> xs = as @ bs \<Longrightarrow> as = take (length as) zs \<and> length as \<le> n"
  by (metis append_eq_conv_conj length_append length_take min.absorb2 le_add1 min_def take_take)

lemma small_member: "small_group (concat gs) \<Longrightarrow> us \<in> set gs \<Longrightarrow> small_group us"
proof -
  assume s: "small_group (concat gs)" and us: "us \<in> set gs"
  obtain A B where "gs = A @ us # B" using us by (meson split_list)
  then show ?thesis using s by (auto simp: small_group_def)
qed

text \<open>Two consecutive runs of a new database: what its log file holds after each, and the memtable.\<close>

lemma two_runs:
  assumes run1: "run_events posix_writable wbs es (new_WriteDb d s0) = Some (fin1, db1)"
    and run2: "run_events posix_writable wbs es' db1 = Some (fin2, db2)"
    and acknowledged: "\<forall>w \<in> set (fin1 @ fin2). status_ok (w_status w)"
    and empty: "disk d = []" "buf d = []" and quiet: "\<forall>e \<in> set (es @ es'). posix_s.quiet wbs e"
    and group: "small_group (concat (arrivals (es @ es')))"
  obtains gs hs out out2 p p2 where
    "concat gs = take (length fin1) (arrivals (es @ es'))" "length (concat gs) = length fin1"
    "concat (gs @ hs) = take (length (fin1 @ fin2)) (arrivals (es @ es'))"
    "length (fin1 @ fin2) \<le> length (arrivals (es @ es'))"
    "encodes_all (group_records s0 (map concat gs)) 0 out p"
    "encodes_all (group_records (s0 + of_nat (length (concat (concat gs)))) (map concat hs)) p out2 p2"
    "disk (db_logfile db1) = out" "disk (db_logfile db2) = out @ out2"
    "add_versions (numbered (s0 + 1) (concat (concat (gs @ hs)))) (MemTable_Ref (new_MemTable BytewiseComparator)) =
      Some (db_mem db2)"
proof -
  let ?all = "arrivals (es @ es')"
  have all: "?all = arrivals es @ arrivals es'" by (rule arrivals_append)
  have "small_group (concat (take (length (arrivals es)) ?all))" by (rule small_group_take [OF group])
  then have group1: "small_group (concat ([] @ arrivals es))" by (simp add: all)
  have log0: "posix_s.log_at 0 (db_log (new_WriteDb d s0)) (db_logfile (new_WriteDb d s0))"
    using empty by (simp add: posix_s.log_at_def new_WriteDb_def new_Writer_def buffer_ok_def contents_def)
  have start: "status_ok (db_bg_error (new_WriteDb d s0))" "waiting (db_writers (new_WriteDb d s0)) []"
    "db_tmp_batch (new_WriteDb d s0) = WriteBatch_Clear" by (simp_all add: new_WriteDb_def)
  have q: "\<forall>e \<in> set es. posix_s.quiet wbs e" "\<forall>e \<in> set es'. posix_s.quiet wbs e" using quiet by auto
  have ok: "\<forall>w \<in> set fin1. status_ok (w_status w)" "\<forall>w \<in> set fin2. status_ok (w_status w)" using acknowledged by auto
  from posix_s.run_events_spec [OF q(1) start log0 group1 run1 ok(1)]
  obtain gs out p where one: "concat gs = take (length fin1) (arrivals es)" "length fin1 \<le> length (arrivals es)"
    "waiting (db_writers db1) (drop (length fin1) (arrivals es))" "encodes_all (group_records s0 (map concat gs)) 0 out p"
    "disk (db_logfile db1) = out" "posix_s.log_at p (db_log db1) (db_logfile db1)"
    "add_versions (numbered (s0 + 1) (concat (concat gs))) (MemTable_Ref (new_MemTable BytewiseComparator)) = Some (db_mem db1)"
    "db_last_sequence db1 = s0 + of_nat (length (concat (concat gs)))"
    "db_tmp_batch db1 = WriteBatch_Clear" "status_ok (db_bg_error db1)"
    using empty(1) by (auto simp: new_WriteDb_def)
  let ?rest = "drop (length fin1) (arrivals es) @ arrivals es'"
  have rest: "?rest = drop (length fin1) ?all" using one(2) by (simp add: all)
  have "concat ?all = concat (take (length fin1) ?all) @ concat ?rest" unfolding rest by (simp flip: concat_append)
  then have group2: "small_group (concat ?rest)" using group by (auto simp: small_group_def)
  from posix_s.run_events_spec [OF q(2) one(10,3,9,6) group2 run2 ok(2)]
  obtain hs out2 p2 where two: "concat hs = take (length fin2) ?rest" "length fin2 \<le> length ?rest"
    "encodes_all (group_records (db_last_sequence db1) (map concat hs)) p out2 p2"
    "disk (db_logfile db2) = disk (db_logfile db1) @ out2"
    "add_versions (numbered (db_last_sequence db1 + 1) (concat (concat hs))) (db_mem db1) = Some (db_mem db2)" by blast
  have "take (length (fin1 @ fin2)) ?all = take (length fin1) ?all @ take (length fin2) ?rest"
    unfolding rest length_append by (rule take_add)
  then have gh: "concat (gs @ hs) = take (length (fin1 @ fin2)) ?all" using one(1,2) two(1) by (simp add: all)
  have mem: "add_versions (numbered (s0 + 1) (concat (concat (gs @ hs)))) (MemTable_Ref (new_MemTable BytewiseComparator)) =
      Some (db_mem db2)"
    using one(7,8) two(5) by (simp add: numbered_append add_versions_append algebra_simps)
  show thesis
    by (rule that [OF _ _ gh _ one(4) two(3) [unfolded one(8)] one(5) _ mem]) (use one two in \<open>simp_all add: all\<close>)
qed

text \<open>Replaying a log whose intact records are those of groups of updates builds the memtable of these updates.\<close>

lemma recovered_answers:
  assumes rd: "read_records posix_sequential (Suc k) (new_Reader True True 0) f = Some (group_records s0 uss, r', f')" "reports r' = []"
    and long: "length uss \<le> k"
    and groups: "\<forall>us \<in> set uss. small_group us" and updates: "\<forall>u \<in> set (concat uss). db_update u"
    and bound: "unat s0 + length (concat uss) \<le> unat kMaxSequenceNumber"
    and opt: "ro_comparator opt = BytewiseComparator" "\<forall>mem. ro_memory_usage opt mem \<le> ro_write_buffer_size opt"
    and mem: "add_versions (numbered (s0 + 1) (concat uss)) (MemTable_Ref (new_MemTable BytewiseComparator)) = Some mem"
  shows "\<exists>st. RecoverLogFile opt posix_sequential f s0 = Some st \<and> status_ok (rc_status st) \<and> rc_tables st = [] \<and>
    rc_max_sequence st = s0 + of_nat (length (concat uss)) \<and>
    (case rc_mem st of None \<Rightarrow> concat uss = []
     | Some mem \<Rightarrow> add_versions (numbered (s0 + 1) (concat uss)) (MemTable_Ref (new_MemTable BytewiseComparator)) = Some mem \<and>
        (\<forall>u snapshot val s. length u + 8 < 2 ^ 32 \<longrightarrow> snapshot \<le> kMaxSequenceNumber \<longrightarrow>
          MemTable_Get mem (new_LookupKey u snapshot) val s = Some (newest_answer (numbered (s0 + 1) (concat uss)) u snapshot val s)))"
proof -
  let ?st0 = "\<lparr>rc_status = Status_OK, rc_mem = None, rc_max_sequence = s0, rc_compactions = 0, rc_tables = []\<rparr>"
  have loop: "RecoverLogFile opt posix_sequential f s0 = replay opt (group_records s0 uss) ?st0"
    unfolding RecoverLogFile_def
    by (rule recover_loop_replay [OF rd(1)]) (use rd(2) long group_records_long in \<open>auto simp: new_Reader_def\<close>)
  have "unat kMaxSequenceNumber < 2 ^ 64 - 1" by (simp add: kMaxSequenceNumber_def)
  then have "unat s0 + length (concat uss) < 2 ^ 64" using bound by linarith
  from replay_groups [OF opt(2) groups this, of ?st0 mem] mem opt(1) obtain st where st:
    "replay opt (group_records s0 uss) ?st0 = Some st" "status_ok (rc_status st)" "rc_tables st = []"
    "rc_max_sequence st = s0 + of_nat (length (concat uss))" "rc_mem st = (if uss = [] then None else Some mem)"
    by (auto simp: start_mem_def)
  have get: "MemTable_Get mem (new_LookupKey u snapshot) val s =
      Some (newest_answer (numbered (s0 + 1) (concat uss)) u snapshot val s)"
    if "length u + 8 < 2 ^ 32" "snapshot \<le> kMaxSequenceNumber" for u snapshot val s
    using versions_served [OF numbered_versions [OF updates bound], of "MemTable_Ref (new_MemTable BytewiseComparator)"] mem that by (auto simp: MemTable_Ref_def new_MemTable_def)
  show ?thesis
  proof (cases "uss = []")
    case True
    then show ?thesis using loop st by auto
  next
    case False
    then have "rc_mem st = Some mem" using st(5) by simp
    then show ?thesis unfolding loop using mem get st by (intro exI [of _ st]) simp
  qed
qed

text \<open>A writer that comes to an idle new database, on a healthy file, is answered OK.\<close>

lemma lone_write:
  fixes d :: PosixWritableFile and s0 :: SequenceNumber
  assumes healthy: "healthy d" and quiet: "posix_s.quiet wbs (Turn turns)"
    and small: "\<forall>u \<in> set us. db_update u" "length us < 2 ^ 31" and bound: "unat s0 + length us \<le> unat kMaxSequenceNumber"
  shows "\<exists>w db. run_events posix_writable wbs [Arrive us False, Turn turns] (new_WriteDb d s0) = Some ([w], db) \<and> status_ok (w_status w)"
proof -
  let ?w = "new_db_writer (Some (batch_of 0 (length us) us)) False"
  let ?db = "(new_WriteDb d s0)\<lparr>db_writers := [?w]\<rparr>" and ?b = "batch_of (s0 + 1) (length us) us"
  have group: "small_group us" using small by (auto simp: small_group_def db_update_def)
  obtain db1 where r: "MakeRoomForWrite wbs turns False True ?db = Some (Status_OK, db1)"
    "db_logfile db1 = d" "db_log db1 = new_Writer" "db_mem db1 = MemTable_Ref (new_MemTable BytewiseComparator)"
    "db_last_sequence db1 = s0" "db_writers db1 = [?w]" "db_tmp_batch db1 = WriteBatch_Clear"
    using posix_s.quiet_room [OF quiet, of ?db] by (auto simp: new_WriteDb_def)
  obtain s log f where a: "AddRecord posix_writable ?b new_Writer d = (s, log, f)" by (metis prod_cases3)
  have s: "status_ok s" using add_loop_healthy [OF healthy refl a [unfolded AddRecord_def]] by simp
  obtain mem where mem: "add_versions (numbered (s0 + 1) us) (MemTable_Ref (new_MemTable BytewiseComparator)) = Some mem"
    using versions_served [OF numbered_versions [OF small(1) bound], of "MemTable_Ref (new_MemTable BytewiseComparator)"]
    by (auto simp: MemTable_Ref_def new_MemTable_def)
  have ins: "log_and_insert posix_writable False ?b db1 = Some (Status_OK, db1\<lparr>db_log := log, db_logfile := f, db_mem := mem\<rparr>)"
    using r a s small_InsertInto [OF group] mem by (simp add: log_and_insert_def batch_Contents_def)
  have "\<exists>w db. write_turn posix_writable wbs turns ?db = Some ([w], db) \<and> status_ok (w_status w)"
    using r ins by (simp add: write_turn_def new_WriteDb_def new_db_writer_def BuildBatchGroup_def batch_of_SetSequence finish_writers_def Let_def)
  then show ?thesis by (auto simp: new_WriteDb_def batch_built)
qed



end
