(* ===== verification/Ldb_Version.thy ===== *)
theory Ldb_Version
  imports Ldb_TwoLevel Ldb_Table
begin

text \<open>
  A version of the database, the files of each level (\<^verbatim>\<open>db/version_set.cc\<close>): searching a level, the
  iterators over the files, the lookup of a key, and which files a range of keys overlaps.
\<close>

section \<open>Files\<close>

definition kNumLevels :: nat where "kNumLevels = 7"

definition kMaxMemCompactLevel :: nat where "kMaxMemCompactLevel = 2"

record FileMetaData =
  fm_refs :: int
  allowed_seeks :: int
  fm_number :: "64 word"
  fm_size :: "64 word"
  fm_smallest :: InternalKey
  fm_largest :: InternalKey

definition new_FileMetaData :: FileMetaData where
  "new_FileMetaData = \<lparr>fm_refs = 0, allowed_seeks = 2 ^ 30, fm_number = 0, fm_size = 0,
     fm_smallest = InternalKey_DecodeFrom [], fm_largest = InternalKey_DecodeFrom []\<rparr>"

text \<open>The sizes are added as 64-bit numbers and read as signed ones.\<close>

definition TotalFileSize :: "FileMetaData list \<Rightarrow> 64 word" where
  "TotalFileSize files = fold (\<lambda>f sum. sum + fm_size f) files 0"

definition MaxGrandParentOverlapBytes :: "64 word \<Rightarrow> 64 word" where
  "MaxGrandParentOverlapBytes max_file_size = 10 * max_file_size"

definition ExpandedCompactionByteSizeLimit :: "64 word \<Rightarrow> 64 word" where
  "ExpandedCompactionByteSizeLimit max_file_size = 25 * max_file_size"

subsection \<open>Searching a sorted list of files\<close>

text \<open>There are fewer than \<open>2 ^ 31\<close> files, so the sum of two indices fits 32 bits.\<close>

function find_file :: "Comparator \<Rightarrow> FileMetaData list \<Rightarrow> slice \<Rightarrow> nat \<Rightarrow> nat \<Rightarrow> nat" where
  "find_file c files key left right =
     (if left < right then
        let mid = (left + right) div 2; f = files ! mid in
        if Internal_Compare c (InternalKey_Encode (fm_largest f)) key < 0 then find_file c files key (mid + 1) right
        else find_file c files key left mid
      else right)"
  by pat_completeness auto

termination by (relation "measure (\<lambda>(c, files, key, left, right). right - left)") auto

declare find_file.simps [simp del]

definition FindFile :: "Comparator \<Rightarrow> FileMetaData list \<Rightarrow> slice \<Rightarrow> nat" where
  "FindFile c files key = find_file c files key 0 (length files)"

text \<open>A null user key is \<^const>\<open>None\<close>.\<close>

definition AfterFile :: "Comparator \<Rightarrow> slice option \<Rightarrow> FileMetaData \<Rightarrow> bool" where
  "AfterFile ucmp ukey f =
     (case ukey of None \<Rightarrow> False | Some u \<Rightarrow> Compare ucmp u (InternalKey_user_key (fm_largest f)) > 0)"

definition BeforeFile :: "Comparator \<Rightarrow> slice option \<Rightarrow> FileMetaData \<Rightarrow> bool" where
  "BeforeFile ucmp ukey f =
     (case ukey of None \<Rightarrow> False | Some u \<Rightarrow> Compare ucmp u (InternalKey_user_key (fm_smallest f)) < 0)"

definition SomeFileOverlapsRange :: "Comparator \<Rightarrow> bool \<Rightarrow> FileMetaData list \<Rightarrow> slice option \<Rightarrow> slice option \<Rightarrow> bool" where
  "SomeFileOverlapsRange ucmp disjoint_sorted_files files smallest_user_key largest_user_key =
     (if \<not> disjoint_sorted_files then
        list_ex (\<lambda>f. \<not> (AfterFile ucmp smallest_user_key f \<or> BeforeFile ucmp largest_user_key f)) files
      else
        let index = (case smallest_user_key of None \<Rightarrow> 0
              | Some u \<Rightarrow> FindFile ucmp files (InternalKey_Encode (new_InternalKey u kMaxSequenceNumber kValueTypeForSeek))) in
        if index \<ge> length files then False
        else \<not> BeforeFile ucmp largest_user_key (files ! index))"

section \<open>Iterators over files\<close>

text \<open>The iterator over the files of a level: its index into the list.\<close>

definition LevelFileNumIterator :: "Comparator \<Rightarrow> FileMetaData list \<Rightarrow> nat Iterator" where
  "LevelFileNumIterator c flist =
     \<lparr>it_Valid = (\<lambda>index. index < length flist),
      it_SeekToFirst = (\<lambda>index. 0),
      it_SeekToLast = (\<lambda>index. if flist = [] then 0 else length flist - 1),
      it_Seek = (\<lambda>index target. FindFile c flist target),
      it_Next = (\<lambda>index. index + 1),
      it_Prev = (\<lambda>index. if index = 0 then length flist else index - 1),
      it_key = (\<lambda>index. InternalKey_Encode (fm_largest (flist ! index))),
      it_value = (\<lambda>index. EncodeFixed64 (fm_number (flist ! index)) @ EncodeFixed64 (fm_size (flist ! index))),
      it_status = (\<lambda>index. Status_OK)\<rparr>"

text \<open>
  The table cache (\<^verbatim>\<open>db/table_cache.cc\<close>), for one setting of the read options.  \<open>finder\<close> is \<^verbatim>\<open>FindTable\<close>:
  the table of a file, opened or found in the cache.
\<close>

datatype file_iter = ErrorFile Status | TableFile "(block_iterator, block_iterator) TwoLevelIterator"

type_synonym table_finder = "64 word \<Rightarrow> 64 word \<Rightarrow> Status \<times> Table"

definition TableCache_NewIterator :: "table_finder \<Rightarrow> ReadOptions \<Rightarrow> 64 word \<Rightarrow> 64 word \<Rightarrow> file_iter" where
  "TableCache_NewIterator finder options file_number file_size =
     (let (s, table) = finder file_number file_size in
      if \<not> status_ok s then ErrorFile (NewErrorIterator s) else TableFile (Table_NewIterator table options))"

definition TableCache_Get :: "table_finder \<Rightarrow> ReadOptions \<Rightarrow> 64 word \<Rightarrow> 64 word \<Rightarrow> slice \<Rightarrow> Status \<times> (slice \<times> slice) option" where
  "TableCache_Get finder options file_number file_size k =
     (let (s, table) = finder file_number file_size in if status_ok s then InternalGet table options k else (s, None))"

definition file_Iterator :: "file_iter Iterator" where
  "file_Iterator =
     (let call = (\<lambda>f g i. case i of ErrorFile s \<Rightarrow> ErrorFile (f s) | TableFile t \<Rightarrow> TableFile (g t)) in
      \<lparr>it_Valid = (\<lambda>i. case i of ErrorFile s \<Rightarrow> it_Valid EmptyIterator s | TableFile t \<Rightarrow> it_Valid table_Iterator t),
       it_SeekToFirst = call (it_SeekToFirst EmptyIterator) (it_SeekToFirst table_Iterator),
       it_SeekToLast = call (it_SeekToLast EmptyIterator) (it_SeekToLast table_Iterator),
       it_Seek = (\<lambda>i k. call (\<lambda>s. it_Seek EmptyIterator s k) (\<lambda>t. it_Seek table_Iterator t k) i),
       it_Next = call (it_Next EmptyIterator) (it_Next table_Iterator),
       it_Prev = call (it_Prev EmptyIterator) (it_Prev table_Iterator),
       it_key = (\<lambda>i. case i of ErrorFile s \<Rightarrow> it_key EmptyIterator s | TableFile t \<Rightarrow> it_key table_Iterator t),
       it_value = (\<lambda>i. case i of ErrorFile s \<Rightarrow> it_value EmptyIterator s | TableFile t \<Rightarrow> it_value table_Iterator t),
       it_status = (\<lambda>i. case i of ErrorFile s \<Rightarrow> it_status EmptyIterator s | TableFile t \<Rightarrow> it_status table_Iterator t)\<rparr>)"

definition GetFileIterator :: "table_finder \<Rightarrow> ReadOptions \<Rightarrow> slice \<Rightarrow> file_iter" where
  "GetFileIterator finder options file_value =
     (if length file_value \<noteq> 16 then
        ErrorFile (NewErrorIterator (Status_Corruption (bytes_of ''FileReader invoked with unexpected value'') []))
      else TableCache_NewIterator finder options (DecodeFixed64 file_value) (DecodeFixed64 (drop 8 file_value)))"

definition NewConcatenatingIterator ::
  "Comparator \<Rightarrow> table_finder \<Rightarrow> ReadOptions \<Rightarrow> FileMetaData list \<Rightarrow> (nat, file_iter) TwoLevelIterator" where
  "NewConcatenatingIterator c finder options flist =
     NewTwoLevelIterator (LevelFileNumIterator c flist) (length flist + 2) (length flist) (GetFileIterator finder options)"

section \<open>Versions\<close>

record Version =
  files :: "FileMetaData list list"
  file_to_compact :: "FileMetaData option"
  file_to_compact_level :: int

text \<open>The iterators of the files at level 0, and one for each other level that has files.\<close>

datatype version_iter = FileIter file_iter | LevelIter "FileMetaData list" "(nat, file_iter) TwoLevelIterator"

definition AddIterators :: "Comparator \<Rightarrow> table_finder \<Rightarrow> ReadOptions \<Rightarrow> Version \<Rightarrow> version_iter list" where
  "AddIterators c finder options v =
     map (\<lambda>f. FileIter (TableCache_NewIterator finder options (fm_number f) (fm_size f))) (files v ! 0) @
     map (\<lambda>level. LevelIter (files v ! level) (NewConcatenatingIterator c finder options (files v ! level)))
       (filter (\<lambda>level. files v ! level \<noteq> []) [1..<kNumLevels])"

subsection \<open>Looking a key up\<close>

datatype SaverState = kNotFound | kFound | kDeleted | kCorrupt

text \<open>The callback: the state and \<^verbatim>\<open>*value\<close> after it.\<close>

definition SaveValue :: "Comparator \<Rightarrow> slice \<Rightarrow> slice \<Rightarrow> slice \<Rightarrow> slice \<Rightarrow> SaverState \<times> slice" where
  "SaveValue ucmp ukey ikey v val =
     (case ParseInternalKey ikey of
        None \<Rightarrow> (kCorrupt, val)
      | Some parsed_key \<Rightarrow>
          if Compare ucmp (user_key parsed_key) ukey = 0 then
            let state = (if value_type parsed_key = kTypeValue then kFound else kDeleted) in
            (state, if state = kFound then v else val)
          else (kNotFound, val))"

definition NewestFirst :: "FileMetaData list \<Rightarrow> FileMetaData list" where
  "NewestFirst tmp = rev (sort_key fm_number tmp)"

text \<open>The files of a level to search for a key, in order.\<close>

definition level_candidates :: "Comparator \<Rightarrow> Version \<Rightarrow> slice \<Rightarrow> slice \<Rightarrow> nat \<Rightarrow> FileMetaData list" where
  "level_candidates ucmp v ukey ikey level =
     (if level = 0 then
        NewestFirst (filter (\<lambda>f. Compare ucmp ukey (InternalKey_user_key (fm_smallest f)) \<ge> 0 \<and>
          Compare ucmp ukey (InternalKey_user_key (fm_largest f)) \<le> 0) (files v ! 0))
      else
        let index = FindFile ucmp (files v ! level) ikey in
        if index \<ge> length (files v ! level) then []
        else
          let tmp2 = files v ! level ! index in
          if Compare ucmp ukey (InternalKey_user_key (fm_smallest tmp2)) < 0 then [] else [tmp2])"

definition all_candidates :: "Comparator \<Rightarrow> Version \<Rightarrow> slice \<Rightarrow> slice \<Rightarrow> (nat \<times> FileMetaData) list" where
  "all_candidates ucmp v ukey ikey =
     concat (map (\<lambda>level. if files v ! level = [] then [] else map (Pair level) (level_candidates ucmp v ukey ikey level))
       [0..<kNumLevels])"

text \<open>
  The loop of \<^verbatim>\<open>Version::Get\<close> over these files; \<^verbatim>\<open>last_file_read\<close> and \<^verbatim>\<open>stats->seek_file\<close> come with their
  levels.
\<close>

fun search_files :: "table_finder \<Rightarrow> ReadOptions \<Rightarrow> Comparator \<Rightarrow> slice \<Rightarrow> slice \<Rightarrow> (nat \<times> FileMetaData) list \<Rightarrow>
    (nat \<times> FileMetaData) option \<Rightarrow> (nat \<times> FileMetaData) option \<Rightarrow> slice \<Rightarrow> Status \<times> slice \<times> (nat \<times> FileMetaData) option" where
  "search_files finder options ucmp ukey ikey [] last_file_read seek_file val = (Status_NotFound [] [], val, seek_file)"
| "search_files finder options ucmp ukey ikey ((level, f) # fs) last_file_read seek_file val =
     (let seek_file = (if last_file_read \<noteq> None \<and> seek_file = None then last_file_read else seek_file);
          (s, result) = TableCache_Get finder options (fm_number f) (fm_size f) ikey;
          (state, val) = (case result of None \<Rightarrow> (kNotFound, val) | Some (k, v) \<Rightarrow> SaveValue ucmp ukey k v val) in
      if \<not> status_ok s then (s, val, seek_file)
      else
        (case state of
           kNotFound \<Rightarrow> search_files finder options ucmp ukey ikey fs (Some (level, f)) seek_file val
         | kFound \<Rightarrow> (s, val, seek_file)
         | kDeleted \<Rightarrow> (Status_NotFound [] [], val, seek_file)
         | kCorrupt \<Rightarrow> (Status_Corruption (bytes_of ''corrupted key for '') ukey, val, seek_file)))"

definition Version_Get :: "table_finder \<Rightarrow> ReadOptions \<Rightarrow> Comparator \<Rightarrow> Version \<Rightarrow> LookupKey \<Rightarrow> slice \<Rightarrow>
    Status \<times> slice \<times> (nat \<times> FileMetaData) option" where
  "Version_Get finder options ucmp v k val =
     (let ikey = LookupKey_internal_key k; ukey = LookupKey_user_key k in
      search_files finder options ucmp ukey ikey (all_candidates ucmp v ukey ikey) None None val)"

subsection \<open>Seeks\<close>

text \<open>The file object is shared: a change shows wherever the file of that number is.\<close>

definition UpdateStats :: "(nat \<times> FileMetaData) option \<Rightarrow> Version \<Rightarrow> bool \<times> Version" where
  "UpdateStats seek_file v =
     (case seek_file of
        None \<Rightarrow> (False, v)
      | Some (level, f) \<Rightarrow>
          let f = f\<lparr>allowed_seeks := allowed_seeks f - 1\<rparr>;
              v = v\<lparr>files := map (map (\<lambda>g. if fm_number g = fm_number f then f else g)) (files v)\<rparr> in
          if allowed_seeks f \<le> 0 \<and> file_to_compact v = None then
            (True, v\<lparr>file_to_compact := Some f, file_to_compact_level := int level\<rparr>)
          else (False, v))"

text \<open>The function gets the files until it answers false.\<close>

fun for_each :: "('s \<Rightarrow> nat \<Rightarrow> FileMetaData \<Rightarrow> bool \<times> 's) \<Rightarrow> (nat \<times> FileMetaData) list \<Rightarrow> 's \<Rightarrow> 's" where
  "for_each func [] s = s"
| "for_each func ((level, f) # fs) s = (case func s level f of (go_on, s) \<Rightarrow> if go_on then for_each func fs s else s)"

definition ForEachOverlapping ::
  "Comparator \<Rightarrow> Version \<Rightarrow> slice \<Rightarrow> slice \<Rightarrow> ('s \<Rightarrow> nat \<Rightarrow> FileMetaData \<Rightarrow> bool \<times> 's) \<Rightarrow> 's \<Rightarrow> 's" where
  "ForEachOverlapping ucmp v ukey internal_key func arg = for_each func (all_candidates ucmp v ukey internal_key) arg"

definition Match :: "nat \<times> (nat \<times> FileMetaData) option \<Rightarrow> nat \<Rightarrow> FileMetaData \<Rightarrow> bool \<times> nat \<times> (nat \<times> FileMetaData) option" where
  "Match st level f =
     (let (matches, seek_file) = st; matches = matches + 1; seek_file = (if matches = 1 then Some (level, f) else seek_file)
      in (matches < 2, matches, seek_file))"

definition RecordReadSample :: "Comparator \<Rightarrow> slice \<Rightarrow> Version \<Rightarrow> bool \<times> Version" where
  "RecordReadSample ucmp internal_key v =
     (case ParseInternalKey internal_key of
        None \<Rightarrow> (False, v)
      | Some ikey \<Rightarrow>
          let (matches, seek_file) = ForEachOverlapping ucmp v (user_key ikey) internal_key Match (0, None) in
          if matches \<ge> 2 then UpdateStats seek_file v else (False, v))"

section \<open>Overlaps\<close>

definition OverlapInLevel :: "Comparator \<Rightarrow> Version \<Rightarrow> nat \<Rightarrow> slice option \<Rightarrow> slice option \<Rightarrow> bool" where
  "OverlapInLevel ucmp v level smallest_user_key largest_user_key =
     SomeFileOverlapsRange ucmp (level > 0) (files v ! level) smallest_user_key largest_user_key"

text \<open>The loop over the files of a level from \<open>i\<close> on, which starts again when a file at level 0 widened the range.\<close>

partial_function (option) overlap_loop ::
  "Comparator \<Rightarrow> nat \<Rightarrow> FileMetaData list \<Rightarrow> nat \<Rightarrow> slice option \<Rightarrow> slice option \<Rightarrow> FileMetaData list \<Rightarrow> FileMetaData list option" where
  "overlap_loop ucmp level fs i user_begin user_end inputs =
     (if i < length fs then
        let f = fs ! i;
            file_start = InternalKey_user_key (fm_smallest f);
            file_limit = InternalKey_user_key (fm_largest f) in
        if user_begin \<noteq> None \<and> Compare ucmp file_limit (the user_begin) < 0 then
          overlap_loop ucmp level fs (i + 1) user_begin user_end inputs
        else if user_end \<noteq> None \<and> Compare ucmp file_start (the user_end) > 0 then
          overlap_loop ucmp level fs (i + 1) user_begin user_end inputs
        else if level = 0 \<and> user_begin \<noteq> None \<and> Compare ucmp file_start (the user_begin) < 0 then
          overlap_loop ucmp level fs 0 (Some file_start) user_end []
        else if level = 0 \<and> user_end \<noteq> None \<and> Compare ucmp file_limit (the user_end) > 0 then
          overlap_loop ucmp level fs 0 user_begin (Some file_limit) []
        else overlap_loop ucmp level fs (i + 1) user_begin user_end (inputs @ [f])
      else Some inputs)"

definition GetOverlappingInputs ::
  "Comparator \<Rightarrow> Version \<Rightarrow> nat \<Rightarrow> InternalKey option \<Rightarrow> InternalKey option \<Rightarrow> FileMetaData list option" where
  "GetOverlappingInputs ucmp v level begin_key end_key =
     overlap_loop ucmp level (files v ! level) 0 (map_option InternalKey_user_key begin_key)
       (map_option InternalKey_user_key end_key) []"

text \<open>The loop of \<^verbatim>\<open>PickLevelForMemTableOutput\<close>; the bytes are compared as signed numbers.\<close>

function pick_level :: "Comparator \<Rightarrow> 64 word \<Rightarrow> Version \<Rightarrow> slice \<Rightarrow> slice \<Rightarrow> nat \<Rightarrow> nat option" where
  "pick_level ucmp max_file_size v smallest_user_key largest_user_key level =
     (if level < kMaxMemCompactLevel then
        if OverlapInLevel ucmp v (level + 1) (Some smallest_user_key) (Some largest_user_key) then Some level
        else if level + 2 < kNumLevels then
          (case GetOverlappingInputs ucmp v (level + 2)
               (Some (new_InternalKey smallest_user_key kMaxSequenceNumber kValueTypeForSeek))
               (Some (new_InternalKey largest_user_key 0 kTypeDeletion)) of
             None \<Rightarrow> None
           | Some overlaps \<Rightarrow>
               if sint (TotalFileSize overlaps) > sint (MaxGrandParentOverlapBytes max_file_size) then Some level
               else pick_level ucmp max_file_size v smallest_user_key largest_user_key (level + 1))
        else pick_level ucmp max_file_size v smallest_user_key largest_user_key (level + 1)
      else Some level)"
  by pat_completeness auto

termination by (relation "measure (\<lambda>(c, m, v, s, l, level). kMaxMemCompactLevel - level)") auto

declare pick_level.simps [simp del]

definition PickLevelForMemTableOutput :: "Comparator \<Rightarrow> 64 word \<Rightarrow> Version \<Rightarrow> slice \<Rightarrow> slice \<Rightarrow> nat option" where
  "PickLevelForMemTableOutput ucmp max_file_size v smallest_user_key largest_user_key =
     (if \<not> OverlapInLevel ucmp v 0 (Some smallest_user_key) (Some largest_user_key)
      then pick_level ucmp max_file_size v smallest_user_key largest_user_key 0 else Some 0)"

definition Version_DebugString :: "Version \<Rightarrow> byte list" where
  "Version_DebugString v =
     concat (map (\<lambda>level.
       bytes_of ''--- level '' @ NumberToString (of_nat level) @ bytes_of '' ---'' @ [10] @
       concat (map (\<lambda>f. bytes_of '' '' @ NumberToString (fm_number f) @ bytes_of '':'' @ NumberToString (fm_size f) @ bytes_of ''['' @
         InternalKey_DebugString (fm_smallest f) @ bytes_of '' .. '' @ InternalKey_DebugString (fm_largest f) @ bytes_of '']'' @ [10])
         (files v ! level))) [0..<kNumLevels])"

end
