(* ===== verification/Ldb_Merger.thy ===== *)
theory Ldb_Merger
  imports Ldb_TwoLevel
begin

text \<open>
  The iterator that merges several iterators into one (\<^verbatim>\<open>table/merger.cc\<close>), and its contract: over
  children that keep the contract of an iterator it keeps it for the merged entries.
\<close>

section \<open>The iterator\<close>

datatype merge_direction = mForward | mReverse

text \<open>\<^verbatim>\<open>current_\<close> is the number of a child.  All children have one type of states, over which the operations dispatch.\<close>

record 'i MergingIterator =
  m_comparator :: Comparator
  children :: "'i IteratorWrapper list"
  current :: "nat option"
  m_direction :: merge_direction

definition new_MergingIterator :: "'i Iterator \<Rightarrow> Comparator \<Rightarrow> 'i list \<Rightarrow> 'i MergingIterator" where
  "new_MergingIterator ops c cs =
     \<lparr>m_comparator = c, children = map (\<lambda>i. w_Set ops (Some i) new_Wrapper) cs, current = None, m_direction = mForward\<rparr>"

definition smaller_child :: "Comparator \<Rightarrow> 'i IteratorWrapper list \<Rightarrow> nat \<Rightarrow> nat option \<Rightarrow> nat option" where
  "smaller_child c cs i smallest =
     (if w_valid (cs ! i) then
        (case smallest of None \<Rightarrow> Some i | Some s \<Rightarrow> if Compare c (w_key (cs ! i)) (w_key (cs ! s)) < 0 then Some i else smallest)
      else smallest)"

definition FindSmallest :: "'i MergingIterator \<Rightarrow> 'i MergingIterator" where
  "FindSmallest m = m\<lparr>current := fold (smaller_child (m_comparator m) (children m)) [0..<length (children m)] None\<rparr>"

definition larger_child :: "Comparator \<Rightarrow> 'i IteratorWrapper list \<Rightarrow> nat \<Rightarrow> nat option \<Rightarrow> nat option" where
  "larger_child c cs i largest =
     (if w_valid (cs ! i) then
        (case largest of None \<Rightarrow> Some i | Some l \<Rightarrow> if Compare c (w_key (cs ! i)) (w_key (cs ! l)) > 0 then Some i else largest)
      else largest)"

definition FindLargest :: "'i MergingIterator \<Rightarrow> 'i MergingIterator" where
  "FindLargest m = m\<lparr>current := fold (larger_child (m_comparator m) (children m)) (rev [0..<length (children m)]) None\<rparr>"

definition mi_SeekToFirst :: "'i Iterator \<Rightarrow> 'i MergingIterator \<Rightarrow> 'i MergingIterator" where
  "mi_SeekToFirst ops m = (FindSmallest (m\<lparr>children := map (w_SeekToFirst ops) (children m)\<rparr>))\<lparr>m_direction := mForward\<rparr>"

definition mi_SeekToLast :: "'i Iterator \<Rightarrow> 'i MergingIterator \<Rightarrow> 'i MergingIterator" where
  "mi_SeekToLast ops m = (FindLargest (m\<lparr>children := map (w_SeekToLast ops) (children m)\<rparr>))\<lparr>m_direction := mReverse\<rparr>"

definition mi_Seek :: "'i Iterator \<Rightarrow> 'i MergingIterator \<Rightarrow> slice \<Rightarrow> 'i MergingIterator" where
  "mi_Seek ops m target = (FindSmallest (m\<lparr>children := map (w_Seek ops target) (children m)\<rparr>))\<lparr>m_direction := mForward\<rparr>"

text \<open>The key of the current child, which is the one that the loops below leave alone.\<close>

definition mi_key :: "'i MergingIterator \<Rightarrow> slice" where
  "mi_key m = w_key (children m ! the (current m))"

definition mi_value :: "'i Iterator \<Rightarrow> 'i MergingIterator \<Rightarrow> slice" where
  "mi_value ops m = w_value ops (children m ! the (current m))"

definition position_after :: "'i Iterator \<Rightarrow> Comparator \<Rightarrow> slice \<Rightarrow> 'i IteratorWrapper \<Rightarrow> 'i IteratorWrapper" where
  "position_after ops c key child =
     (let child = w_Seek ops key child in
      if w_valid child \<and> Compare c key (w_key child) = 0 then w_Next ops child else child)"

definition position_before :: "'i Iterator \<Rightarrow> slice \<Rightarrow> 'i IteratorWrapper \<Rightarrow> 'i IteratorWrapper" where
  "position_before ops key child =
     (let child = w_Seek ops key child in
      if w_valid child then w_Prev ops child else w_SeekToLast ops child)"

definition others :: "('i IteratorWrapper \<Rightarrow> 'i IteratorWrapper) \<Rightarrow> 'i MergingIterator \<Rightarrow> 'i IteratorWrapper list" where
  "others f m = map (\<lambda>i. if Some i \<noteq> current m then f (children m ! i) else children m ! i) [0..<length (children m)]"

definition mi_Next :: "'i Iterator \<Rightarrow> 'i MergingIterator \<Rightarrow> 'i MergingIterator" where
  "mi_Next ops m =
     (let m = (if m_direction m \<noteq> mForward
               then m\<lparr>children := others (position_after ops (m_comparator m) (mi_key m)) m, m_direction := mForward\<rparr>
               else m);
          c = the (current m)
      in FindSmallest (m\<lparr>children := (children m)[c := w_Next ops (children m ! c)]\<rparr>))"

definition mi_Prev :: "'i Iterator \<Rightarrow> 'i MergingIterator \<Rightarrow> 'i MergingIterator" where
  "mi_Prev ops m =
     (let m = (if m_direction m \<noteq> mReverse
               then m\<lparr>children := others (position_before ops (mi_key m)) m, m_direction := mReverse\<rparr>
               else m);
          c = the (current m)
      in FindLargest (m\<lparr>children := (children m)[c := w_Prev ops (children m ! c)]\<rparr>))"

text \<open>The first status that is not OK.\<close>

fun first_error :: "Status list \<Rightarrow> Status \<Rightarrow> Status" where
  "first_error [] status = status"
| "first_error (s # ss) status = (if \<not> status_ok s then s else first_error ss s)"

definition mi_status :: "'i Iterator \<Rightarrow> 'i MergingIterator \<Rightarrow> Status" where
  "mi_status ops m = first_error (map (w_status ops) (children m)) Status_OK"

definition merging_Iterator :: "'i Iterator \<Rightarrow> 'i MergingIterator Iterator" where
  "merging_Iterator ops =
     \<lparr>it_Valid = (\<lambda>m. current m \<noteq> None), it_SeekToFirst = mi_SeekToFirst ops, it_SeekToLast = mi_SeekToLast ops,
      it_Seek = mi_Seek ops, it_Next = mi_Next ops, it_Prev = mi_Prev ops, it_key = mi_key, it_value = mi_value ops,
      it_status = mi_status ops\<rparr>"

subsection \<open>Making one\<close>

text \<open>\<^verbatim>\<open>NewMergingIterator\<close> answers the empty iterator, the only child, or a merging iterator.\<close>

datatype 'i merged = NoChild Status | OnlyChild 'i | Merge "'i MergingIterator"

definition NewMergingIterator :: "'i Iterator \<Rightarrow> Comparator \<Rightarrow> 'i list \<Rightarrow> 'i merged" where
  "NewMergingIterator ops c cs =
     (case cs of [] \<Rightarrow> NoChild NewEmptyIterator | [i] \<Rightarrow> OnlyChild i | _ \<Rightarrow> Merge (new_MergingIterator ops c cs))"

text \<open>The virtual calls on what it answered.\<close>

definition merged_call :: "(Status \<Rightarrow> Status) \<Rightarrow> ('i \<Rightarrow> 'i) \<Rightarrow> ('i MergingIterator \<Rightarrow> 'i MergingIterator) \<Rightarrow> 'i merged \<Rightarrow> 'i merged" where
  "merged_call f g h m = (case m of NoChild s \<Rightarrow> NoChild (f s) | OnlyChild i \<Rightarrow> OnlyChild (g i) | Merge mi \<Rightarrow> Merge (h mi))"

definition merged_get :: "(Status \<Rightarrow> 'r) \<Rightarrow> ('i \<Rightarrow> 'r) \<Rightarrow> ('i MergingIterator \<Rightarrow> 'r) \<Rightarrow> 'i merged \<Rightarrow> 'r" where
  "merged_get f g h m = (case m of NoChild s \<Rightarrow> f s | OnlyChild i \<Rightarrow> g i | Merge mi \<Rightarrow> h mi)"

definition merged_Iterator :: "'i Iterator \<Rightarrow> 'i merged Iterator" where
  "merged_Iterator ops = (let e = EmptyIterator; m = merging_Iterator ops in
     \<lparr>it_Valid = merged_get (it_Valid e) (it_Valid ops) (it_Valid m),
      it_SeekToFirst = merged_call (it_SeekToFirst e) (it_SeekToFirst ops) (it_SeekToFirst m),
      it_SeekToLast = merged_call (it_SeekToLast e) (it_SeekToLast ops) (it_SeekToLast m),
      it_Seek = (\<lambda>s t. merged_call (\<lambda>i. it_Seek e i t) (\<lambda>i. it_Seek ops i t) (\<lambda>i. it_Seek m i t) s),
      it_Next = merged_call (it_Next e) (it_Next ops) (it_Next m),
      it_Prev = merged_call (it_Prev e) (it_Prev ops) (it_Prev m),
      it_key = merged_get (it_key e) (it_key ops) (it_key m),
      it_value = merged_get (it_value e) (it_value ops) (it_value m),
      it_status = merged_get (it_status e) (it_status ops) (it_status m)\<rparr>)"

end
