(* ===== verification/Ldb_DbIter.thy ===== *)
theory Ldb_DbIter
  imports Ldb_MemTable
begin

text \<open>
  The iterator of the database (\<^verbatim>\<open>db/db_iter.cc\<close>): it runs over the entries of an internal iterator and
  shows for every user key the newest version not above a sequence number, unless that is a deletion.
\<close>

section \<open>The iterator\<close>

datatype Direction = kForward | kReverse

definition kReadBytesPeriod :: nat where "kReadBytesPeriod = 1048576"

text \<open>
  \<open>'i\<close> is the internal iterator.  The keys handed to \<^verbatim>\<open>db_->RecordReadSample\<close> are in \<open>di_samples\<close>; the
  capacity of \<^verbatim>\<open>saved_value_\<close> is not modelled.
\<close>

record 'i DBIter =
  di_iter :: 'i
  di_sequence :: SequenceNumber
  di_status :: Status
  saved_key :: slice
  saved_value :: slice
  direction :: Direction
  di_valid :: bool
  di_rnd :: "32 word"
  bytes_until_read_sampling :: nat
  di_samples :: "slice list"

definition RandomCompactionPeriod :: "32 word \<Rightarrow> nat \<times> 32 word" where
  "RandomCompactionPeriod seed = (let (n, seed) = Random_Uniform seed (2 * kReadBytesPeriod) in (unat n, seed))"

definition NewDBIterator :: "'i \<Rightarrow> SequenceNumber \<Rightarrow> 32 word \<Rightarrow> 'i DBIter" where
  "NewDBIterator iter s seed =
     (let (n, rnd) = RandomCompactionPeriod (new_Random seed) in
      \<lparr>di_iter = iter, di_sequence = s, di_status = Status_OK, saved_key = [], saved_value = [], direction = kForward,
       di_valid = False, di_rnd = rnd, bytes_until_read_sampling = n, di_samples = []\<rparr>)"

definition di_key :: "'i Iterator \<Rightarrow> 'i DBIter \<Rightarrow> slice" where
  "di_key ops di = (if direction di = kForward then ExtractUserKey (it_key ops (di_iter di)) else saved_key di)"

definition di_value :: "'i Iterator \<Rightarrow> 'i DBIter \<Rightarrow> slice" where
  "di_value ops di = (if direction di = kForward then it_value ops (di_iter di) else saved_value di)"

definition di_get_status :: "'i Iterator \<Rightarrow> 'i DBIter \<Rightarrow> Status" where
  "di_get_status ops di = (if status_ok (di_status di) then it_status ops (di_iter di) else di_status di)"

definition ClearSavedValue :: "'i DBIter \<Rightarrow> 'i DBIter" where
  "ClearSavedValue di = di\<lparr>saved_value := []\<rparr>"

subsection \<open>Parsing the key\<close>

text \<open>The loops of the iterator answer \<^const>\<open>None\<close> when they do not return.\<close>

partial_function (option) sample_reads :: "slice \<Rightarrow> nat \<Rightarrow> 'i DBIter \<Rightarrow> 'i DBIter option" where
  "sample_reads k bytes_read di =
     (if bytes_until_read_sampling di < bytes_read then
        (let (n, seed) = RandomCompactionPeriod (di_rnd di) in
         sample_reads k bytes_read
           (di\<lparr>di_rnd := seed, bytes_until_read_sampling := bytes_until_read_sampling di + n, di_samples := di_samples di @ [k]\<rparr>))
      else Some di)"

definition ParseKey :: "'i Iterator \<Rightarrow> 'i DBIter \<Rightarrow> (ParsedInternalKey option \<times> 'i DBIter) option" where
  "ParseKey ops di =
     (let k = it_key ops (di_iter di);
          bytes_read = length k + length (it_value ops (di_iter di)) in
      map_option (\<lambda>di.
        let di = di\<lparr>bytes_until_read_sampling := bytes_until_read_sampling di - bytes_read\<rparr> in
        case ParseInternalKey k of
          None \<Rightarrow> (None, di\<lparr>di_status := Status_Corruption (bytes_of ''corrupted internal key in DBIter'') []\<rparr>)
        | Some ikey \<Rightarrow> (Some ikey, di))
        (sample_reads k bytes_read di))"

subsection \<open>Forwards\<close>

text \<open>
  What a turn of the loop does with the entry: whether it is the one to yield, and \<^verbatim>\<open>skipping\<close>.  The
  argument \<^verbatim>\<open>skip\<close> is \<^verbatim>\<open>&saved_key_\<close> in every call.
\<close>

definition next_entry :: "Comparator \<Rightarrow> bool \<Rightarrow> ParsedInternalKey option \<Rightarrow> 'i DBIter \<Rightarrow> bool \<times> bool \<times> 'i DBIter" where
  "next_entry c skipping parsed di =
     (case parsed of
        None \<Rightarrow> (False, skipping, di)
      | Some ikey \<Rightarrow>
          if sequence ikey \<le> di_sequence di then
            (case value_type ikey of
               kTypeDeletion \<Rightarrow> (False, True, di\<lparr>saved_key := user_key ikey\<rparr>)
             | kTypeValue \<Rightarrow>
                 if skipping \<and> Compare c (user_key ikey) (saved_key di) \<le> 0 then (False, skipping, di)
                 else (True, skipping, di))
          else (False, skipping, di))"

partial_function (option) FindNextUserEntry :: "'i Iterator \<Rightarrow> Comparator \<Rightarrow> bool \<Rightarrow> 'i DBIter \<Rightarrow> 'i DBIter option" where
  "FindNextUserEntry ops c skipping di =
     (case ParseKey ops di of
        None \<Rightarrow> None
      | Some (ikey, di) \<Rightarrow>
          (case next_entry c skipping ikey di of
             (yields, skipping, di) \<Rightarrow>
               if yields then Some (di\<lparr>di_valid := True, saved_key := []\<rparr>)
               else
                 (let di = di\<lparr>di_iter := it_Next ops (di_iter di)\<rparr> in
                  if it_Valid ops (di_iter di) then FindNextUserEntry ops c skipping di
                  else Some (di\<lparr>saved_key := [], di_valid := False\<rparr>))))"

definition di_Next :: "'i Iterator \<Rightarrow> Comparator \<Rightarrow> 'i DBIter \<Rightarrow> 'i DBIter option" where
  "di_Next ops c di =
     (if direction di = kReverse then
        let di = di\<lparr>direction := kForward\<rparr>;
            di = di\<lparr>di_iter := (if \<not> it_Valid ops (di_iter di) then it_SeekToFirst ops (di_iter di)
                     else it_Next ops (di_iter di))\<rparr> in
        if \<not> it_Valid ops (di_iter di) then Some (di\<lparr>di_valid := False, saved_key := []\<rparr>)
        else FindNextUserEntry ops c True di
      else FindNextUserEntry ops c True (di\<lparr>saved_key := ExtractUserKey (it_key ops (di_iter di))\<rparr>))"

subsection \<open>Backwards\<close>

text \<open>What a turn of the loop does with the entry; \<^const>\<open>None\<close>: the loop is left.\<close>

definition prev_entry ::
  "'i Iterator \<Rightarrow> Comparator \<Rightarrow> ValueType \<Rightarrow> ParsedInternalKey option \<Rightarrow> 'i DBIter \<Rightarrow> (ValueType \<times> 'i DBIter) option" where
  "prev_entry ops c type parsed di =
     (case parsed of
        None \<Rightarrow> Some (type, di)
      | Some ikey \<Rightarrow>
          if sequence ikey \<le> di_sequence di then
            if type \<noteq> kTypeDeletion \<and> Compare c (user_key ikey) (saved_key di) < 0 then None
            else
              let type = value_type ikey in
              Some (type,
                if type = kTypeDeletion then ClearSavedValue (di\<lparr>saved_key := []\<rparr>)
                else di\<lparr>saved_key := ExtractUserKey (it_key ops (di_iter di)), saved_value := it_value ops (di_iter di)\<rparr>)
          else Some (type, di))"

partial_function (option) prev_loop ::
  "'i Iterator \<Rightarrow> Comparator \<Rightarrow> ValueType \<Rightarrow> 'i DBIter \<Rightarrow> (ValueType \<times> 'i DBIter) option" where
  "prev_loop ops c type di =
     (case ParseKey ops di of
        None \<Rightarrow> None
      | Some (ikey, di) \<Rightarrow>
          (case prev_entry ops c type ikey di of
             None \<Rightarrow> Some (type, di)
           | Some (type, di) \<Rightarrow>
               let di = di\<lparr>di_iter := it_Prev ops (di_iter di)\<rparr> in
               if it_Valid ops (di_iter di) then prev_loop ops c type di else Some (type, di)))"

definition FindPrevUserEntry :: "'i Iterator \<Rightarrow> Comparator \<Rightarrow> 'i DBIter \<Rightarrow> 'i DBIter option" where
  "FindPrevUserEntry ops c di =
     map_option (\<lambda>(type, di).
       if type = kTypeDeletion then
         (ClearSavedValue (di\<lparr>di_valid := False, saved_key := []\<rparr>))\<lparr>direction := kForward\<rparr>
       else di\<lparr>di_valid := True\<rparr>)
       (if it_Valid ops (di_iter di) then prev_loop ops c kTypeDeletion di else Some (kTypeDeletion, di))"

text \<open>The loop that leaves the entries of the current key; whether an entry was found before them.\<close>

partial_function (option) leave_key :: "'i Iterator \<Rightarrow> Comparator \<Rightarrow> 'i DBIter \<Rightarrow> (bool \<times> 'i DBIter) option" where
  "leave_key ops c di =
     (let di = di\<lparr>di_iter := it_Prev ops (di_iter di)\<rparr> in
      if \<not> it_Valid ops (di_iter di) then Some (False, ClearSavedValue (di\<lparr>di_valid := False, saved_key := []\<rparr>))
      else if Compare c (ExtractUserKey (it_key ops (di_iter di))) (saved_key di) < 0 then Some (True, di)
      else leave_key ops c di)"

definition di_Prev :: "'i Iterator \<Rightarrow> Comparator \<Rightarrow> 'i DBIter \<Rightarrow> 'i DBIter option" where
  "di_Prev ops c di =
     (if direction di = kForward then
        (case leave_key ops c (di\<lparr>saved_key := ExtractUserKey (it_key ops (di_iter di))\<rparr>) of
           None \<Rightarrow> None
         | Some (found, di) \<Rightarrow> if found then FindPrevUserEntry ops c (di\<lparr>direction := kReverse\<rparr>) else Some di)
      else FindPrevUserEntry ops c di)"

subsection \<open>Seeking\<close>

definition di_Seek :: "'i Iterator \<Rightarrow> Comparator \<Rightarrow> 'i DBIter \<Rightarrow> slice \<Rightarrow> 'i DBIter option" where
  "di_Seek ops c di target =
     (let di = (ClearSavedValue (di\<lparr>direction := kForward\<rparr>))
            \<lparr>saved_key := AppendInternalKey [] \<lparr>user_key = target, sequence = di_sequence di, value_type = kValueTypeForSeek\<rparr>\<rparr>;
          di = di\<lparr>di_iter := it_Seek ops (di_iter di) (saved_key di)\<rparr> in
      if it_Valid ops (di_iter di) then FindNextUserEntry ops c False di else Some (di\<lparr>di_valid := False\<rparr>))"

definition di_SeekToFirst :: "'i Iterator \<Rightarrow> Comparator \<Rightarrow> 'i DBIter \<Rightarrow> 'i DBIter option" where
  "di_SeekToFirst ops c di =
     (let di = ClearSavedValue (di\<lparr>direction := kForward\<rparr>);
          di = di\<lparr>di_iter := it_SeekToFirst ops (di_iter di)\<rparr> in
      if it_Valid ops (di_iter di) then FindNextUserEntry ops c False di else Some (di\<lparr>di_valid := False\<rparr>))"

definition di_SeekToLast :: "'i Iterator \<Rightarrow> Comparator \<Rightarrow> 'i DBIter \<Rightarrow> 'i DBIter option" where
  "di_SeekToLast ops c di =
     (let di = ClearSavedValue (di\<lparr>direction := kReverse\<rparr>) in
      FindPrevUserEntry ops c (di\<lparr>di_iter := it_SeekToLast ops (di_iter di)\<rparr>))"

text \<open>As an iterator; \<^const>\<open>None\<close> stands for an operation that did not return.\<close>

definition DBIterator :: "'i Iterator \<Rightarrow> Comparator \<Rightarrow> ('i DBIter option) Iterator" where
  "DBIterator ops c =
     \<lparr>it_Valid = (\<lambda>s. case s of None \<Rightarrow> False | Some di \<Rightarrow> di_valid di),
      it_SeekToFirst = (\<lambda>s. Option.bind s (di_SeekToFirst ops c)),
      it_SeekToLast = (\<lambda>s. Option.bind s (di_SeekToLast ops c)),
      it_Seek = (\<lambda>s target. Option.bind s (\<lambda>di. di_Seek ops c di target)),
      it_Next = (\<lambda>s. Option.bind s (di_Next ops c)),
      it_Prev = (\<lambda>s. Option.bind s (di_Prev ops c)),
      it_key = (\<lambda>s. di_key ops (the s)),
      it_value = (\<lambda>s. di_value ops (the s)),
      it_status = (\<lambda>s. di_get_status ops (the s))\<rparr>"

section \<open>Read sampling returns\<close>

text \<open>The seeds the generator runs through.\<close>

definition good_seed :: "32 word \<Rightarrow> bool" where
  "good_seed s \<longleftrightarrow> 0 < s \<and> s < random_M"

lemma good_seed_Next: "good_seed s \<Longrightarrow> good_seed (Random_Next s)"
  using Random_Next_mod(2,3) by (simp add: good_seed_def)

lemma new_Random_good: "good_seed (new_Random s)"
proof -
  have "s AND 0x7fffffff \<le> 0x7fffffff" by (rule word_and_le1)
  then have "s AND 0x7fffffff < random_M" if "s AND 0x7fffffff \<noteq> 2147483647"
    using that by (simp add: random_M_def order_less_le)
  then show ?thesis by (auto simp: good_seed_def new_Random_def Let_def random_M_def word_gt_0)
qed

lemma period_mod: "fst (RandomCompactionPeriod s) = unat (Random_Next s) mod 2 ^ 21" "snd (RandomCompactionPeriod s) = Random_Next s"
  by (simp_all add: RandomCompactionPeriod_def Random_Uniform_def Let_def kReadBytesPeriod_def unat_mod)

text \<open>A period may be zero bytes, but never two in a row.\<close>

lemma period_not_zero_twice:
  assumes "good_seed s" and "fst (RandomCompactionPeriod s) = 0"
  shows "fst (RandomCompactionPeriod (Random_Next s)) \<noteq> 0"
proof
  let ?M = "2147483647 :: nat"
  define s1 where "s1 = unat (Random_Next s)"
  define s2 where "s2 = unat (Random_Next (Random_Next s))"
  assume "fst (RandomCompactionPeriod (Random_Next s)) = 0"
  then have d2: "2 ^ 21 dvd s2" by (simp add: period_mod s2_def mod_eq_0_iff_dvd)
  have d1: "2 ^ 21 dvd s1" using assms(2) by (simp add: period_mod s1_def mod_eq_0_iff_dvd)
  have g: "good_seed (Random_Next s)" using good_seed_Next assms(1) .
  then have s1: "0 < s1" "s1 < ?M" by (simp_all add: good_seed_def s1_def word_less_nat_alt random_M_def)
  have s2: "s2 = s1 * 16807 mod ?M" using Random_Next_mod(1) g by (simp add: good_seed_def s1_def s2_def)
  define q where "q = s1 * 16807 div ?M"
  have eq: "s1 * 16807 = q * ?M + s2" unfolding q_def s2 by (rule div_mult_mod_eq [symmetric])
  have "q < 16807" using s1(2) by (simp add: q_def less_mult_imp_div_less)
  have "2 ^ 21 dvd q * ?M + s2" using d1 unfolding eq [symmetric] by simp
  then have "2 ^ 21 dvd q * ?M" using d2 dvd_add_left_iff by blast
  moreover have "coprime (2 ^ 21) ?M" by (simp add: coprime_iff_gcd_eq_1 gcd_non_0_nat)
  ultimately have "2 ^ 21 dvd q" by (simp only: coprime_dvd_mult_left_iff)
  then have "q = 0 \<or> 2 ^ 21 \<le> q" using dvd_imp_le by blast
  then have "q = 0" using \<open>q < 16807\<close> by auto
  then have "s1 * 16807 < ?M" using eq s2 mod_less_divisor [of ?M "s1 * 16807"] by simp
  moreover have "2 ^ 21 \<le> s1" using d1 s1(1) by (rule dvd_imp_le)
  ultimately show False by simp
qed

text \<open>What sampling may change.\<close>

definition sampled :: "'i DBIter \<Rightarrow> 'i DBIter \<Rightarrow> bool" where
  "sampled di di' \<longleftrightarrow> good_seed (di_rnd di') \<and> di_iter di' = di_iter di \<and> di_sequence di' = di_sequence di \<and>
     di_status di' = di_status di \<and> saved_key di' = saved_key di \<and> saved_value di' = saved_value di \<and>
     direction di' = direction di \<and> di_valid di' = di_valid di"

lemma sample_reads_returns:
  "good_seed (di_rnd di) \<Longrightarrow> \<exists>di'. sample_reads k n di = Some di' \<and> sampled di di' \<and> n \<le> bytes_until_read_sampling di'"
proof (induction "2 * (n - bytes_until_read_sampling di) + (if fst (RandomCompactionPeriod (di_rnd di)) = 0 then 1 else 0)"
    arbitrary: di rule: less_induct)
  case less
  show ?case
  proof (cases "bytes_until_read_sampling di < n")
    case False
    then show ?thesis using less.prems by (subst sample_reads.simps) (simp add: sampled_def)
  next
    case True
    obtain p seed where p: "RandomCompactionPeriod (di_rnd di) = (p, seed)" by force
    let ?di = "di\<lparr>di_rnd := seed, bytes_until_read_sampling := bytes_until_read_sampling di + p, di_samples := di_samples di @ [k]\<rparr>"
    have seed: "seed = Random_Next (di_rnd di)" "good_seed seed" using p period_mod(2) [of "di_rnd di"] good_seed_Next less.prems by auto
    have dec: "2 * (n - bytes_until_read_sampling ?di) + (if fst (RandomCompactionPeriod (di_rnd ?di)) = 0 then 1 else 0) <
        2 * (n - bytes_until_read_sampling di) + (if fst (RandomCompactionPeriod (di_rnd di)) = 0 then 1 else 0)"
    proof (cases "p = 0")
      case zero: True
      then have "fst (RandomCompactionPeriod seed) \<noteq> 0" using period_not_zero_twice [OF less.prems] p seed(1) by simp
      then show ?thesis using zero p by simp
    next
      case False
      then have "n - (bytes_until_read_sampling di + p) < n - bytes_until_read_sampling di" using True by linarith
      then show ?thesis using p False by auto
    qed
    have "good_seed (di_rnd ?di)" using seed(2) by simp
    from less.hyps [OF dec this] obtain di' where "sample_reads k n ?di = Some di'" "sampled ?di di'"
      "n \<le> bytes_until_read_sampling di'" by blast
    then show ?thesis using True p by (subst sample_reads.simps) (auto simp: sampled_def)
  qed
qed

lemma ParseKey_returns:
  assumes "good_seed (di_rnd di)" and "ParseInternalKey (it_key ops (di_iter di)) = Some ikey"
  shows "\<exists>di'. ParseKey ops di = Some (Some ikey, di') \<and> sampled di di'"
proof -
  let ?k = "it_key ops (di_iter di)"
  obtain di' where s: "sample_reads ?k (length ?k + length (it_value ops (di_iter di))) di = Some di'" "sampled di di'"
    using sample_reads_returns [OF assms(1)] by blast
  then have "sampled di (di'\<lparr>bytes_until_read_sampling := bytes_until_read_sampling di' - (length ?k + length (it_value ops (di_iter di)))\<rparr>)"
    by (simp add: sampled_def)
  then show ?thesis using s assms(2) by (simp add: ParseKey_def Let_def)
qed

end
