(* ===== verification/Ldb_DbRead.thy ===== *)
theory Ldb_DbRead
  imports Ldb_Version Ldb_Merger Ldb_DbIter Ldb_Write
begin

text \<open>
  The read path of the database (\<^verbatim>\<open>db/db_impl.cc\<close>, \<^verbatim>\<open>db/snapshot.h\<close>): snapshots, the lookup of a key in the
  memtables and the files, and the iterator over all of them.
\<close>

section \<open>Snapshots\<close>

text \<open>The snapshots from the oldest to the newest; a snapshot object is a number of its own.\<close>

type_synonym snapshot_list = "(nat \<times> SequenceNumber) list"

definition snapshots_New :: "nat \<Rightarrow> SequenceNumber \<Rightarrow> snapshot_list \<Rightarrow> snapshot_list" where
  "snapshots_New object s l = l @ [(object, s)]"

definition snapshots_Delete :: "nat \<Rightarrow> snapshot_list \<Rightarrow> snapshot_list" where
  "snapshots_Delete object l = filter (\<lambda>x. fst x \<noteq> object) l"

definition snapshots_oldest :: "snapshot_list \<Rightarrow> SequenceNumber" where
  "snapshots_oldest l = snd (hd l)"

section \<open>The state\<close>

record 'd Db = "'d WriteDb" +
  db_version :: Version
  db_seed :: "32 word"
  db_snapshots :: snapshot_list

definition GetSnapshot :: "nat \<Rightarrow> 'd Db \<Rightarrow> 'd Db" where
  "GetSnapshot object db = db\<lparr>db_snapshots := snapshots_New object (db_last_sequence db) (db_snapshots db)\<rparr>"

definition ReleaseSnapshot :: "nat \<Rightarrow> 'd Db \<Rightarrow> 'd Db" where
  "ReleaseSnapshot object db = db\<lparr>db_snapshots := snapshots_Delete object (db_snapshots db)\<rparr>"

section \<open>Get\<close>

text \<open>
  The sequence number of the snapshot in the options, or of the last write.  The answer is the status,
  \<^verbatim>\<open>*value\<close>, whether a compaction is to be scheduled, and the state; the references that are taken
  are given back.  \<^const>\<open>None\<close>: a memtable did not return.
\<close>

definition DBImpl_Get :: "table_finder \<Rightarrow> ReadOptions \<Rightarrow> SequenceNumber option \<Rightarrow> slice \<Rightarrow> slice \<Rightarrow> 'd Db \<Rightarrow>
    (Status \<times> slice \<times> bool \<times> 'd Db) option" where
  "DBImpl_Get finder options snapshot key val db =
     (let s = (case snapshot of Some n \<Rightarrow> n | None \<Rightarrow> db_last_sequence db);
          ucmp = mt_comparator (db_mem db);
          lkey = new_LookupKey key s in
      case MemTable_Get (db_mem db) lkey val Status_OK of
        None \<Rightarrow> None
      | Some (True, val, s) \<Rightarrow> Some (s, val, False, db)
      | Some (False, val, s) \<Rightarrow>
          (case (case db_imm db of None \<Rightarrow> Some (False, val, s) | Some imm \<Rightarrow> MemTable_Get imm lkey val s) of
             None \<Rightarrow> None
           | Some (True, val, s) \<Rightarrow> Some (s, val, False, db)
           | Some (False, val, s) \<Rightarrow>
               let (s, val, stats) = Version_Get finder options ucmp (db_version db) lkey val;
                   (schedule, v) = UpdateStats stats (db_version db)
               in Some (s, val, schedule, db\<lparr>db_version := v\<rparr>)))"

section \<open>The iterator\<close>

text \<open>The iterators that are merged; the operations dispatch over them.\<close>

datatype db_child = MemChild MemTable "nat option option" | VersionChild version_iter

definition version_Iterator :: "Comparator \<Rightarrow> version_iter Iterator" where
  "version_Iterator c =
     (let two = (\<lambda>flist. two_level_Iterator (LevelFileNumIterator c flist) file_Iterator);
          call = (\<lambda>f g i. case i of FileIter x \<Rightarrow> FileIter (f x) | LevelIter flist x \<Rightarrow> LevelIter flist (g (two flist) x));
          get = (\<lambda>f g i. case i of FileIter x \<Rightarrow> f x | LevelIter flist x \<Rightarrow> g (two flist) x) in
      \<lparr>it_Valid = (\<lambda>i. case i of FileIter x \<Rightarrow> it_Valid file_Iterator x | LevelIter flist x \<Rightarrow> it_Valid (two flist) x),
       it_SeekToFirst = call (it_SeekToFirst file_Iterator) it_SeekToFirst,
       it_SeekToLast = call (it_SeekToLast file_Iterator) it_SeekToLast,
       it_Seek = (\<lambda>i k. call (\<lambda>x. it_Seek file_Iterator x k) (\<lambda>ops x. it_Seek ops x k) i),
       it_Next = call (it_Next file_Iterator) it_Next,
       it_Prev = call (it_Prev file_Iterator) it_Prev,
       it_key = get (it_key file_Iterator) it_key,
       it_value = get (it_value file_Iterator) it_value,
       it_status = (\<lambda>i. case i of FileIter x \<Rightarrow> it_status file_Iterator x | LevelIter flist x \<Rightarrow> it_status (two flist) x)\<rparr>)"

definition child_Iterator :: "Comparator \<Rightarrow> db_child Iterator" where
  "child_Iterator c =
     (let mem = (\<lambda>mt. fst (MemTable_NewIterator mt));
          call = (\<lambda>f g i. case i of MemChild mt x \<Rightarrow> MemChild mt (f (mem mt) x) | VersionChild x \<Rightarrow> VersionChild (g x)) in
      \<lparr>it_Valid = (\<lambda>i. case i of MemChild mt x \<Rightarrow> it_Valid (mem mt) x | VersionChild x \<Rightarrow> it_Valid (version_Iterator c) x),
       it_SeekToFirst = call it_SeekToFirst (it_SeekToFirst (version_Iterator c)),
       it_SeekToLast = call it_SeekToLast (it_SeekToLast (version_Iterator c)),
       it_Seek = (\<lambda>i k. call (\<lambda>ops x. it_Seek ops x k) (\<lambda>x. it_Seek (version_Iterator c) x k) i),
       it_Next = call it_Next (it_Next (version_Iterator c)),
       it_Prev = call it_Prev (it_Prev (version_Iterator c)),
       it_key = (\<lambda>i. case i of MemChild mt x \<Rightarrow> it_key (mem mt) x | VersionChild x \<Rightarrow> it_key (version_Iterator c) x),
       it_value = (\<lambda>i. case i of MemChild mt x \<Rightarrow> it_value (mem mt) x | VersionChild x \<Rightarrow> it_value (version_Iterator c) x),
       it_status = (\<lambda>i. case i of MemChild mt x \<Rightarrow> it_status (mem mt) x | VersionChild x \<Rightarrow> it_status (version_Iterator c) x)\<rparr>)"

definition mem_child :: "MemTable \<Rightarrow> db_child" where
  "mem_child mt = MemChild mt (snd (MemTable_NewIterator mt))"

definition db_children :: "table_finder \<Rightarrow> ReadOptions \<Rightarrow> 'd Db \<Rightarrow> db_child list" where
  "db_children finder options db =
     mem_child (db_mem db) # (case db_imm db of None \<Rightarrow> [] | Some imm \<Rightarrow> [mem_child imm]) @
     map VersionChild (AddIterators (mt_comparator (db_mem db)) finder options (db_version db))"

text \<open>The iterator, the last sequence number, the seed, and the state with the references it keeps.\<close>

definition NewInternalIterator ::
  "table_finder \<Rightarrow> ReadOptions \<Rightarrow> 'd Db \<Rightarrow> db_child merged \<times> SequenceNumber \<times> 32 word \<times> 'd Db" where
  "NewInternalIterator finder options db =
     (let c = mt_comparator (db_mem db);
          internal_iter = NewMergingIterator (child_Iterator c) (InternalKeyComparator c) (db_children finder options db);
          seed = db_seed db + 1 in
      (internal_iter, db_last_sequence db, seed,
       db\<lparr>db_mem := MemTable_Ref (db_mem db), db_imm := map_option MemTable_Ref (db_imm db), db_seed := seed\<rparr>))"

definition NewIterator ::
  "table_finder \<Rightarrow> ReadOptions \<Rightarrow> SequenceNumber option \<Rightarrow> 'd Db \<Rightarrow> db_child merged DBIter \<times> 'd Db" where
  "NewIterator finder options snapshot db =
     (let (iter, latest_snapshot, seed, db) = NewInternalIterator finder options db in
      (NewDBIterator iter (case snapshot of Some n \<Rightarrow> n | None \<Rightarrow> latest_snapshot) seed, db))"

text \<open>The operations of that iterator.\<close>

definition db_Iterator :: "Comparator \<Rightarrow> (db_child merged DBIter option) Iterator" where
  "db_Iterator c = DBIterator (merged_Iterator (child_Iterator c)) c"

end
