(* ===== verification/Ldb_Version_Facts.thy ===== *)
theory Ldb_Version_Facts
  imports Ldb_Version Ldb_MemTable_Facts Ldb_Table_Props
begin

text \<open>
  A version serves the history its files hold: a lookup searches the files it has to, and answers
  what the newest version of the key says.  The search for the files that overlap a range returns the right ones.
\<close>

section \<open>Searching a sorted list of files\<close>

lemma find_file_result:
  assumes P: "\<And>i. P i \<longleftrightarrow> Internal_Compare c (InternalKey_Encode (fm_largest (fs ! i))) key < 0"
    and sorted: "\<And>i j. i \<le> j \<Longrightarrow> j < length fs \<Longrightarrow> P j \<Longrightarrow> P i"
  shows "left \<le> right \<Longrightarrow> right \<le> length fs \<Longrightarrow> \<forall>i < left. P i \<Longrightarrow> right < length fs \<longrightarrow> \<not> P right \<Longrightarrow>
    r = find_file c fs key left right \<Longrightarrow> r \<le> length fs \<and> (\<forall>i < r. P i) \<and> (r < length fs \<longrightarrow> \<not> P r)"
proof (induction "right - left" arbitrary: left right rule: less_induct)
  case less
  note u = less.prems(5) [unfolded find_file.simps [of c fs key left right] Let_def, folded P]
  show ?case
  proof (cases "left < right")
    case False
    then show ?thesis using u less.prems(1-4) by simp
  next
    case True
    define mid where "mid = (left + right) div 2"
    have mid: "left \<le> mid" "mid < right" using True by (auto simp: mid_def)
    have r: "r = (if P mid then find_file c fs key (mid + 1) right else find_file c fs key left mid)"
      using u True by (simp add: mid_def)
    show ?thesis
    proof (cases "P mid")
      case below: True
      have "mid < length fs" using mid less.prems(2) by simp
      then have "\<forall>i < mid + 1. P i" using below sorted by (metis Suc_eq_plus1 less_Suc_eq_le)
      moreover have "right - (mid + 1) < right - left" "mid + 1 \<le> right" "r = find_file c fs key (mid + 1) right" using mid r below by simp_all
      ultimately show ?thesis using less.hyps less.prems(2,4) by blast
    next
      case above: False
      have "mid - left < right - left" "mid \<le> length fs" "r = find_file c fs key left mid" using mid r above less.prems(2) by simp_all
      then show ?thesis using less.hyps less.prems(3) mid(1) above by blast
    qed
  qed
qed

section \<open>The files of a version\<close>

text \<open>A table serves versions: its iterator keeps the contract, and a lookup finds what is newest.\<close>

definition serves :: "ReadOptions \<Rightarrow> Table \<Rightarrow> (ParsedInternalKey \<times> slice) list \<Rightarrow> bool" where
  "serves ro t vs \<longleftrightarrow>
     (\<exists>at good. entry_iterator table_Iterator (InternalKeyComparator BytewiseComparator) (map bytewise.entry_of vs) at good bytewise.ikey \<and>
        good (Table_NewIterator t ro)) \<and>
     (\<forall>u snapshot. snapshot \<le> kMaxSequenceNumber \<longrightarrow>
        (let ikey = LookupKey_internal_key (new_LookupKey u snapshot);
             i = seek_index (InternalKeyComparator BytewiseComparator) (map bytewise.entry_of vs) ikey in
         \<exists>res. InternalGet t ro ikey = (Status_OK, res) \<and> (\<forall>e. res = Some e \<longrightarrow> i < length vs \<and> e = bytewise.entry_of (vs ! i)) \<and>
           (i < length vs \<and> user_key (fst (vs ! i)) = u \<longrightarrow> res \<noteq> None)))"

text \<open>A table that a table builder wrote does.\<close>

context table_store
begin

lemma table_contract:
  assumes o: "opened opt r bs ks t"
  shows "\<exists>at good. entry_iterator table_Iterator cmp (table_entries bs []) at good valid \<and> good (Table_NewIterator t ro)"
proof -
  note tl = table_two_level [OF o, of ro]
  have b: "bgood (index_entries ks bs) (Block_NewIterator cmp (t_index_block t))" "length bs \<le> bl_size (t_index_block t)"
    "length ks = length bs" "comparator_of (t_options t) = cmp" using o unfolding opened_def by auto
  have w: "wrapped block_Iterator (w_Set block_Iterator (Some i) w)" for i w by simp
  have "two_level.tl_good block_Iterator (index_entries ks bs) (bgood (index_entries ks bs)) block_Iterator (BlockReader t ro)
      (\<lambda>v. bgood (block_named bs v)) (Table_NewIterator t ro)"
    using b w by (simp add: two_level.tl_good_def [OF tl] Table_NewIterator_def NewTwoLevelIterator_def length_index)
      (simp add: new_Wrapper_def)
  then show ?thesis using two_level.tl_keeps_contract [OF tl, unfolded table_blocks [OF o]] by blast
qed

end

lemma opened_serves:
  assumes o: "internal_table.opened opt g bs ks t" and es: "internal_table.table_entries bs [] = map bytewise.entry_of vs"
    and pol: "filter_policy_of opt \<in> {None, Some (InternalFilterPolicy (NewBloomFilterPolicy b))}"
  shows "serves ro t vs"
  unfolding serves_def Let_def
proof (intro conjI allI impI)
  show "\<exists>at good. entry_iterator table_Iterator (InternalKeyComparator BytewiseComparator) (map bytewise.entry_of vs) at good bytewise.ikey \<and>
      good (Table_NewIterator t ro)"
    using internal_table.table_contract [OF o, of ro] unfolding es .
  fix u snapshot assume snap: "snapshot \<le> kMaxSequenceNumber"
  let ?x = "LookupKey_internal_key (new_LookupKey u snapshot)"
  let ?i = "seek_index (InternalKeyComparator BytewiseComparator) (map bytewise.entry_of vs) ?x"
  have near: "internal_table.near opt ?x (AppendInternalKey [] p)" if "user_key p = u" for p :: ParsedInternalKey
    unfolding internal_table.near_def
  proof (intro conjI allI impI)
    show "bytewise.ikey ?x" by (simp add: lookup_key key_parts)
    fix k assume "user_less k (AppendInternalKey [] p)"
    then show "bytewise.ikc.less k ?x" using that by (simp add: bytewise.ikc.less_def internal_less lookup_key key_parts)
  next
    fix f assume f: "filter_policy_of opt = Some f"
    then show "filter_policy f" using pol internal_bloom.filter_policy_axioms by auto
    show "KeyMayMatch f ?x = KeyMayMatch f (AppendInternalKey [] p)"
      using pol f that by (auto simp: InternalFilterPolicy_def lookup_key key_parts)
  qed
  have x: "bytewise.ikey ?x" by (simp add: lookup_key key_parts)
  obtain res where r: "InternalGet t ro ?x = (Status_OK, res)"
    "\<forall>e. res = Some e \<longrightarrow> ?i < length vs \<and> e = map bytewise.entry_of vs ! ?i"
    "?i < length vs \<longrightarrow> internal_table.near opt ?x (fst (map bytewise.entry_of vs ! ?i)) \<longrightarrow> res \<noteq> None"
    using internal_table.InternalGet_result [OF o x, of ro, unfolded es length_map] by blast
  have res: "\<forall>e. res = Some e \<longrightarrow> ?i < length vs \<and> e = bytewise.entry_of (vs ! ?i)"
    "?i < length vs \<longrightarrow> internal_table.near opt ?x (fst (bytewise.entry_of (vs ! ?i))) \<longrightarrow> res \<noteq> None"
    using r(2,3) by (cases "?i < length vs"; simp)+
  show "\<exists>res. InternalGet t ro ?x = (Status_OK, res) \<and> (\<forall>e. res = Some e \<longrightarrow> ?i < length vs \<and> e = bytewise.entry_of (vs ! ?i)) \<and>
      (?i < length vs \<and> user_key (fst (vs ! ?i)) = u \<longrightarrow> res \<noteq> None)"
    using r(1) res near by (intro exI [of _ res]) (simp add: bytewise.entry_of_def)
qed

text \<open>The versions in the order of their internal keys.\<close>

type_synonym versions = "(ParsedInternalKey \<times> slice) list"

definition ahead :: "ParsedInternalKey \<times> slice \<Rightarrow> ParsedInternalKey \<times> slice \<Rightarrow> bool" where
  "ahead q r \<longleftrightarrow> slice_compare (user_key (fst q)) (user_key (fst r)) < 0 \<or>
     user_key (fst q) = user_key (fst r) \<and> sequence (fst r) < sequence (fst q)"

definition in_order :: "versions \<Rightarrow> bool" where
  "in_order vs \<longleftrightarrow> (\<forall>q \<in> set vs. bytewise.version q) \<and> sorted_wrt ahead vs"

text \<open>The versions ahead of the target of a lookup.\<close>

definition before_target :: "slice \<Rightarrow> SequenceNumber \<Rightarrow> ParsedInternalKey \<times> slice \<Rightarrow> bool" where
  "before_target u s q \<longleftrightarrow> slice_compare (user_key (fst q)) u < 0 \<or> user_key (fst q) = u \<and> s < sequence (fst q)"

lemma slice_self: "slice_compare k k = 0"
  by (simp add: slice_compare_eq)

lemma slice_flip: "0 < slice_compare a b \<longleftrightarrow> slice_compare b a < 0"
  using slice_compare_sym by metis

lemma slice_total: "slice_compare a b < 0 \<or> a = b \<or> slice_compare b a < 0"
  using slice_compare_eq [of a b] slice_flip [of a b] by linarith

lemma slice_asym: "slice_compare a b < 0 \<Longrightarrow> \<not> slice_compare b a < 0"
  using slice_compare_trans [of a b a] slice_self [of a] by auto

lemma ahead_trans: "ahead p q \<Longrightarrow> ahead q r \<Longrightarrow> ahead p r"
  unfolding ahead_def by (elim disjE conjE) (auto dest: slice_compare_trans)

lemma ahead_irrefl: "\<not> ahead q q"
  by (simp add: ahead_def slice_self)

lemma ahead_asym: "ahead q r \<Longrightarrow> \<not> ahead r q"
  using ahead_trans ahead_irrefl by blast

lemma before_target_ahead: "ahead q r \<Longrightarrow> before_target u s r \<Longrightarrow> before_target u s q"
  unfolding ahead_def before_target_def by (elim disjE conjE) (auto dest: slice_compare_trans)

lemma target_ahead: "\<not> before_target u s q \<Longrightarrow> ahead q r \<Longrightarrow> user_key (fst r) = u \<Longrightarrow> user_key (fst q) = u \<and> sequence (fst q) \<le> s"
  using slice_asym by (fastforce simp: ahead_def before_target_def)

lemma compare_target:
  assumes "bytewise.version q" and "s \<le> kMaxSequenceNumber"
  shows "Compare (InternalKeyComparator BytewiseComparator) (AppendInternalKey [] (fst q)) (LookupKey_internal_key (new_LookupKey u s)) < 0 \<longleftrightarrow>
    before_target u s q"
  using Pack_le [of "sequence (fst q)" s "value_type (fst q)"] assms
  by (auto simp: lookup_key key_less before_target_def bytewise.version_def not_le)

lemma in_order_nth: "in_order vs \<Longrightarrow> i < j \<Longrightarrow> j < length vs \<Longrightarrow> ahead (vs ! i) (vs ! j)"
  using sorted_wrt_nth_less by (auto simp: in_order_def)

lemma in_order_append:
  "in_order (vs @ ws) \<longleftrightarrow> in_order vs \<and> in_order ws \<and> (\<forall>q \<in> set vs. \<forall>r \<in> set ws. ahead q r)"
  by (auto simp: in_order_def sorted_wrt_append)

lemma in_order_sorted:
  assumes "in_order vs"
  shows "sorted_wrt (\<lambda>a b. Compare (InternalKeyComparator BytewiseComparator) (fst a) (fst b) < 0) (map bytewise.entry_of vs)"
  unfolding sorted_wrt_map
proof (rule sorted_wrt_mono_rel [OF _ conjunct2 [OF assms [unfolded in_order_def]]])
  fix a b assume "a \<in> set vs" "b \<in> set vs"
  then have s: "sequence (fst a) \<le> kMaxSequenceNumber" "sequence (fst b) \<le> kMaxSequenceNumber"
    using assms by (auto simp: in_order_def bytewise.version_def)
  assume "ahead a b"
  then show "Compare (InternalKeyComparator BytewiseComparator) (fst (bytewise.entry_of a)) (fst (bytewise.entry_of b)) < 0"
    using Pack_order [OF s(2,1)] by (auto simp: bytewise.entry_of_def key_less ahead_def)
qed

lemma in_order_distinct:
  assumes "in_order vs" and "q \<in> set vs" and "r \<in> set vs" and "user_key (fst q) = user_key (fst r)" and "sequence (fst q) = sequence (fst r)"
  shows "q = r"
proof -
  obtain i j where i: "i < length vs" "vs ! i = q" and j: "j < length vs" "vs ! j = r" using assms(2,3) by (metis in_set_conv_nth)
  show ?thesis
    using in_order_nth [OF assms(1), of i j] in_order_nth [OF assms(1), of j i] i j assms(4,5)
    by (cases i j rule: linorder_cases) (auto simp: ahead_def slice_self)
qed

lemma in_order_ends: "in_order vs \<Longrightarrow> q \<in> set vs \<Longrightarrow> (q = hd vs \<or> ahead (hd vs) q) \<and> (q = last vs \<or> ahead q (last vs))"
proof -
  assume o: "in_order vs" and "q \<in> set vs"
  then obtain i where i: "i < length vs" "vs ! i = q" by (metis in_set_conv_nth)
  then have "vs \<noteq> []" by auto
  then have e: "hd vs = vs ! 0" "last vs = vs ! (length vs - 1)" by (simp_all add: hd_conv_nth last_conv_nth)
  have "q = hd vs \<or> ahead (hd vs) q" using in_order_nth [OF o, of 0 i] i unfolding e by (cases i) simp_all
  moreover have "q = last vs \<or> ahead q (last vs)"
    using in_order_nth [OF o, of i "length vs - 1"] i unfolding e by (cases "i = length vs - 1") auto
  ultimately show ?thesis by blast
qed

definition file_holds :: "table_finder \<Rightarrow> ReadOptions \<Rightarrow> FileMetaData \<Rightarrow> versions \<Rightarrow> bool" where
  "file_holds finder ro f vs \<longleftrightarrow>
     (\<exists>t. finder (fm_number f) (fm_size f) = (Status_OK, t) \<and> serves ro t vs) \<and> vs \<noteq> [] \<and> in_order vs \<and>
     fm_smallest f = InternalKey_SetFrom (fst (hd vs)) \<and> fm_largest f = InternalKey_SetFrom (fst (last vs))"

text \<open>What a lookup makes of the newest version.\<close>

definition saved_answer :: "slice \<Rightarrow> (ParsedInternalKey \<times> slice) option \<Rightarrow> SaverState \<times> slice" where
  "saved_answer val r = (case r of None \<Rightarrow> (kNotFound, val)
     | Some q \<Rightarrow> (case value_type (fst q) of kTypeValue \<Rightarrow> (kFound, snd q) | kTypeDeletion \<Rightarrow> (kDeleted, val)))"

lemma file_lookup:
  assumes f: "file_holds finder ro f vs" and snap: "snapshot \<le> kMaxSequenceNumber"
  shows "\<exists>result. TableCache_Get finder ro (fm_number f) (fm_size f) (LookupKey_internal_key (new_LookupKey u snapshot)) = (Status_OK, result) \<and>
    (case result of None \<Rightarrow> (kNotFound, val) | Some (k, v) \<Rightarrow> SaveValue BytewiseComparator u k v val) =
      saved_answer val (newest vs u snapshot)"
proof -
  let ?x = "LookupKey_internal_key (new_LookupKey u snapshot)"
  let ?i = "seek_index (InternalKeyComparator BytewiseComparator) (map bytewise.entry_of vs) ?x"
  obtain t where t: "finder (fm_number f) (fm_size f) = (Status_OK, t)" "serves ro t vs" and o: "in_order vs"
    using f by (auto simp: file_holds_def)
  obtain res where res: "InternalGet t ro ?x = (Status_OK, res)"
    "\<forall>e. res = Some e \<longrightarrow> ?i < length vs \<and> e = bytewise.entry_of (vs ! ?i)"
    "?i < length vs \<and> user_key (fst (vs ! ?i)) = u \<longrightarrow> res \<noteq> None"
    using t(2) snap unfolding serves_def Let_def by blast
  have ver: "\<forall>q \<in> set vs. bytewise.version q" using o by (simp add: in_order_def)
  have n: "newest vs u snapshot = (if ?i < length vs \<and> user_key (fst (vs ! ?i)) = u then Some (vs ! ?i) else None)"
    using bytewise.seek_newest [OF _ ver _ in_order_sorted [OF o] TrueI snap refl, of u "vs ! ?i"] in_order_distinct [OF o]
    by (simp add: lookup_key)
  have get: "TableCache_Get finder ro (fm_number f) (fm_size f) ?x = (Status_OK, res)"
    by (simp add: TableCache_Get_def t(1) res(1))
  show ?thesis
  proof (cases res)
    case None
    then show ?thesis using get n res(3) by (auto simp: saved_answer_def)
  next
    case (Some e)
    then have e: "?i < length vs" "e = bytewise.entry_of (vs ! ?i)" using res(2) by auto
    then have "sequence (fst (vs ! ?i)) \<le> kMaxSequenceNumber" using ver by (simp add: bytewise.version_def)
    then have "ParseInternalKey (fst e) = Some (fst (vs ! ?i))" using e by (simp add: bytewise.entry_of_def parse_append)
    then have "SaveValue BytewiseComparator u (fst e) (snd e) val = saved_answer val (newest vs u snapshot)"
      using e n by (cases "value_type (fst (vs ! ?i))")
        (auto simp: SaveValue_def BytewiseComparator_def slice_compare_eq saved_answer_def bytewise.entry_of_def)
    then show ?thesis using get Some by (cases e) simp
  qed
qed

section \<open>The newest version\<close>

definition newer_than :: "versions \<Rightarrow> versions \<Rightarrow> bool" where
  "newer_than vs ws \<longleftrightarrow> (\<forall>q \<in> set vs. \<forall>r \<in> set ws. user_key (fst q) = user_key (fst r) \<longrightarrow> sequence (fst r) < sequence (fst q))"

definition numbered_once :: "versions \<Rightarrow> bool" where
  "numbered_once vs \<longleftrightarrow> (\<forall>q \<in> set vs. \<forall>r \<in> set vs. user_key (fst q) = user_key (fst r) \<and> sequence (fst q) = sequence (fst r) \<longrightarrow> q = r)"

fun first_newest :: "slice \<Rightarrow> SequenceNumber \<Rightarrow> versions list \<Rightarrow> (ParsedInternalKey \<times> slice) option" where
  "first_newest u s [] = None"
| "first_newest u s (vs # vss) = (case newest vs u s of None \<Rightarrow> first_newest u s vss | Some q \<Rightarrow> Some q)"

lemma newest_unique:
  assumes "q \<in> set vs" and "user_key (fst q) = u" and "sequence (fst q) \<le> s"
    and "\<And>r. r \<in> set vs \<Longrightarrow> user_key (fst r) = u \<Longrightarrow> sequence (fst r) \<le> s \<Longrightarrow> r = q \<or> sequence (fst r) < sequence (fst q)"
  shows "newest vs u s = Some q"
proof (cases "newest vs u s")
  case None
  then show ?thesis using newest_NoneD [OF None assms(1)] assms(2,3) by blast
next
  case (Some p)
  note p = newest_SomeD [OF Some]
  then show ?thesis using assms(4) [OF p(1-3)] p(4) [OF assms(1-3)] Some by auto
qed

lemma newest_None: "(\<And>r. r \<in> set vs \<Longrightarrow> \<not> (user_key (fst r) = u \<and> sequence (fst r) \<le> s)) \<Longrightarrow> newest vs u s = None"
  using newest_SomeD(1-3) [of vs u s] by (cases "newest vs u s") blast+

lemma newest_cong:
  assumes "numbered_once vs"
    and "\<And>r. user_key (fst r) = u \<Longrightarrow> sequence (fst r) \<le> s \<Longrightarrow> r \<in> set vs \<longleftrightarrow> r \<in> set ws"
  shows "newest vs u s = newest ws u s"
proof (cases "newest vs u s")
  case None
  have "newest ws u s = None" by (rule newest_None) (use newest_NoneD [OF None] assms(2) in blast)
  then show ?thesis using None by simp
next
  case (Some q)
  note q = newest_SomeD [OF Some]
  have "newest ws u s = Some q"
  proof (rule newest_unique [OF _ q(2,3)])
    show "q \<in> set ws" using q assms(2) by blast
    fix r assume "r \<in> set ws" "user_key (fst r) = u" "sequence (fst r) \<le> s"
    then show "r = q \<or> sequence (fst r) < sequence (fst q)"
      using assms q unfolding numbered_once_def by (metis order_le_less)
  qed
  then show ?thesis using Some by simp
qed

lemma newest_append:
  assumes "newer_than vs ws"
  shows "newest (vs @ ws) u s = (case newest vs u s of None \<Rightarrow> newest ws u s | Some q \<Rightarrow> Some q)"
proof (cases "newest vs u s")
  case None
  have "newest (vs @ ws) u s = fold (newer u s) ws (newest vs u s)" by (simp add: newest_def)
  then show ?thesis using None by (simp add: newest_def)
next
  case (Some q)
  note q = newest_SomeD [OF Some]
  have "fold (newer u s) ws (Some q) = Some q" if "\<forall>r \<in> set ws. user_key (fst r) = u \<longrightarrow> sequence (fst r) < sequence (fst q)"
    using that by (induction ws) (auto simp: newer_def)
  moreover have "\<forall>r \<in> set ws. user_key (fst r) = u \<longrightarrow> sequence (fst r) < sequence (fst q)"
    using assms q(1,2) by (simp add: newer_than_def)
  ultimately have "fold (newer u s) ws (newest vs u s) = Some q" using Some by simp
  then show ?thesis using Some by (simp add: newest_def)
qed

lemma newest_concat: "sorted_wrt newer_than vss \<Longrightarrow> newest (concat vss) u s = first_newest u s vss"
proof (induction vss)
  case (Cons vs vss)
  then have "newer_than vs (concat vss)" by (auto simp: newer_than_def)
  from newest_append [OF this] Cons show ?case by (simp split: option.split)
qed (simp add: newest_def)

lemma first_newest_append: "first_newest u s (vss @ wss) = (case first_newest u s vss of None \<Rightarrow> first_newest u s wss | Some q \<Rightarrow> Some q)"
  by (induction vss) (simp_all split: option.splits)

lemma newest_in_order:
  assumes o: "in_order vs" and snap: "s \<le> kMaxSequenceNumber"
  shows "newest vs u s = (case dropWhile (before_target u s) vs of [] \<Rightarrow> None | r # _ \<Rightarrow> if user_key (fst r) = u then Some r else None)"
proof -
  let ?x = "AppendInternalKey [] \<lparr>user_key = u, sequence = s, value_type = kTypeValue\<rparr>"
  let ?i = "length (takeWhile (before_target u s) vs)"
  have ver: "\<forall>q \<in> set vs. bytewise.version q" using o by (simp add: in_order_def)
  have len: "length (takeWhile P (map f xs)) = length (takeWhile (\<lambda>x. P (f x)) xs)" for P and f :: "'x \<Rightarrow> 'y" and xs
    by (induction xs) simp_all
  have "takeWhile (\<lambda>q. Compare (InternalKeyComparator BytewiseComparator) (fst (bytewise.entry_of q)) ?x < 0) vs = takeWhile (before_target u s) vs"
    by (rule takeWhile_cong [OF refl]) (use ver compare_target [OF _ snap] in \<open>simp add: bytewise.entry_of_def lookup_key\<close>)
  then have i: "?i = seek_index (InternalKeyComparator BytewiseComparator) (map bytewise.entry_of vs) ?x"
    unfolding seek_index_def len by simp
  have "newest vs u s = (if ?i < length vs \<and> user_key (fst (vs ! ?i)) = u then Some (vs ! ?i) else None)"
    using bytewise.seek_newest [OF _ ver _ in_order_sorted [OF o] TrueI snap i, of "vs ! ?i"] in_order_distinct [OF o] by simp
  moreover have "(case drop k vs of [] \<Rightarrow> None | r # _ \<Rightarrow> if user_key (fst r) = u then Some r else None) =
      (if k < length vs \<and> user_key (fst (vs ! k)) = u then Some (vs ! k) else None)" for k
    by (cases "k < length vs") (simp_all flip: Cons_nth_drop_Suc)
  ultimately show ?thesis by (simp only: dropWhile_eq_drop)
qed

section \<open>Levels\<close>

definition level_versions :: "(64 word \<Rightarrow> versions) \<Rightarrow> FileMetaData list \<Rightarrow> versions" where
  "level_versions content fs = concat (map (\<lambda>f. content (fm_number f)) fs)"

lemma level_versions_append: "level_versions content (fs @ gs) = level_versions content fs @ level_versions content gs"
  by (simp add: level_versions_def)

lemma level_versions_Cons: "level_versions content (f # fs) = content (fm_number f) @ level_versions content fs"
  by (simp add: level_versions_def)

lemma set_level_versions: "set (level_versions content fs) = (\<Union>f \<in> set fs. set (content (fm_number f)))"
  by (simp add: level_versions_def)

lemma file_ends:
  assumes "file_holds finder ro f vs"
  shows "InternalKey_user_key (fm_smallest f) = user_key (fst (hd vs))" "InternalKey_user_key (fm_largest f) = user_key (fst (last vs))"
    "InternalKey_Encode (fm_largest f) = AppendInternalKey [] (fst (last vs))" "vs \<noteq> []" "in_order vs"
    "InternalKey_Encode (fm_smallest f) = AppendInternalKey [] (fst (hd vs))"
  using assms by (simp_all add: file_holds_def InternalKey_user_key_def InternalKey_SetFrom_def InternalKey_Encode_def key_parts)

text \<open>Level 0: the files that overlap the key, from the newest on.\<close>

lemma newest_first_sorted:
  assumes "distinct (map fm_number fs)"
  shows "sorted_wrt (\<lambda>f g. fm_number g < fm_number f) (NewestFirst fs)"
proof -
  have "sorted (map fm_number (sort_key fm_number fs))" by simp
  moreover have "distinct (map fm_number (sort_key fm_number fs))"
    using assms by (simp add: distinct_map)
  ultimately have "sorted_wrt (\<lambda>f g. fm_number f < fm_number g) (sort_key fm_number fs)"
    by (simp add: strict_sorted_iff flip: sorted_wrt_map [where f = fm_number and R = "(<)"])
  then show ?thesis by (simp add: NewestFirst_def sorted_wrt_rev)
qed

lemma level_zero:
  assumes holds: "\<forall>f \<in> set fs. file_holds finder ro f (content (fm_number f))" and fs: "files v ! 0 = fs"
    and numbers: "distinct (map fm_number fs)"
    and newer: "\<And>f g. f \<in> set fs \<Longrightarrow> g \<in> set fs \<Longrightarrow> fm_number g < fm_number f \<Longrightarrow> newer_than (content (fm_number f)) (content (fm_number g))"
  shows "first_newest u s (map (\<lambda>f. content (fm_number f)) (level_candidates BytewiseComparator v u k 0)) = newest (level_versions content fs) u s"
proof -
  let ?P = "\<lambda>f. Compare BytewiseComparator u (InternalKey_user_key (fm_smallest f)) \<ge> 0 \<and>
          Compare BytewiseComparator u (InternalKey_user_key (fm_largest f)) \<le> 0"
  let ?cs = "level_candidates BytewiseComparator v u k 0"
  have cs: "?cs = NewestFirst (filter ?P fs)" by (simp add: level_candidates_def fs)
  have set: "set ?cs = {f \<in> set fs. ?P f}" unfolding cs by (simp add: NewestFirst_def)
  have "distinct (map fm_number (filter ?P fs))" using numbers by (simp add: distinct_map_filter)
  then have "sorted_wrt (\<lambda>f g. fm_number g < fm_number f) ?cs" unfolding cs by (rule newest_first_sorted)
  then have "sorted_wrt (\<lambda>f g. newer_than (content (fm_number f)) (content (fm_number g))) ?cs"
    by (rule sorted_wrt_mono_rel [rotated]) (use newer set in blast)
  then have "newest (level_versions content ?cs) u s = first_newest u s (map (\<lambda>f. content (fm_number f)) ?cs)"
    unfolding level_versions_def by (intro newest_concat) (simp add: sorted_wrt_map)
  moreover have "newest (level_versions content fs) u s = newest (level_versions content ?cs) u s"
  proof (rule newest_cong)
    show "numbered_once (level_versions content fs)"
      unfolding numbered_once_def set_level_versions
    proof (intro ballI impI)
      fix q r assume "q \<in> (\<Union>f \<in> set fs. set (content (fm_number f)))" "r \<in> (\<Union>f \<in> set fs. set (content (fm_number f)))"
      then obtain f g where f: "f \<in> set fs" "q \<in> set (content (fm_number f))" and g: "g \<in> set fs" "r \<in> set (content (fm_number g))" by blast
      assume e: "user_key (fst q) = user_key (fst r) \<and> sequence (fst q) = sequence (fst r)"
      then have "fm_number f = fm_number g"
        using newer [OF f(1) g(1)] newer [OF g(1) f(1)] f(2) g(2) unfolding newer_than_def
        by (metis linorder_less_linear order_less_irrefl)
      then show "q = r" using in_order_distinct [OF file_ends(5) [OF bspec [OF holds f(1)]]] f(2) g(2) e by simp
    qed
    fix r :: "ParsedInternalKey \<times> slice" assume u: "user_key (fst r) = u"
    have "?P f" if "f \<in> set fs" "r \<in> set (content (fm_number f))" for f
    proof -
      note e = file_ends [OF bspec [OF holds that(1)]]
      show ?thesis
        using in_order_ends [OF e(5) that(2)] slice_flip slice_self slice_asym u
        unfolding e(1,2) by (auto simp: BytewiseComparator_def ahead_def not_less [symmetric])
    qed
    then show "r \<in> set (level_versions content fs) \<longleftrightarrow> r \<in> set (level_versions content ?cs)"
      unfolding set_level_versions set by blast
  qed
  ultimately show ?thesis by simp
qed

text \<open>The other levels: one file.\<close>

lemma level_sorted:
  assumes holds: "\<forall>f \<in> set fs. file_holds finder ro f (content (fm_number f))"
    and o: "in_order (level_versions content fs)" and ij: "i < j" "j < length fs"
    and q: "q \<in> set (content (fm_number (fs ! i)))" and r: "r \<in> set (content (fm_number (fs ! j)))"
  shows "ahead q r"
proof -
  have "fs = take j fs @ fs ! j # drop (Suc j) fs" by (rule id_take_nth_drop [OF ij(2)])
  then have e: "level_versions content fs = level_versions content (take j fs) @ content (fm_number (fs ! j)) @ level_versions content (drop (Suc j) fs)"
    by (metis level_versions_append level_versions_Cons)
  have "fs ! i \<in> set (take j fs)" using ij by (auto simp: in_set_conv_nth)
  then have "q \<in> set (level_versions content (take j fs))" using q by (auto simp: set_level_versions)
  then show ?thesis using o r unfolding e in_order_append by auto
qed

lemma FindFile_target:
  assumes holds: "\<forall>f \<in> set fs. file_holds finder ro f (content (fm_number f))"
    and o: "in_order (level_versions content fs)" and snap: "s \<le> kMaxSequenceNumber"
    and r: "r = FindFile BytewiseComparator fs (LookupKey_internal_key (new_LookupKey u s))"
  shows "r \<le> length fs" and "i < r \<Longrightarrow> before_target u s (last (content (fm_number (fs ! i))))"
    and "r < length fs \<Longrightarrow> \<not> before_target u s (last (content (fm_number (fs ! r))))"
proof -
  let ?k = "LookupKey_internal_key (new_LookupKey u s)"
  let ?P = "\<lambda>i. Internal_Compare BytewiseComparator (InternalKey_Encode (fm_largest (fs ! i))) ?k < 0"
  have P: "?P i \<longleftrightarrow> before_target u s (last (content (fm_number (fs ! i))))" if "i < length fs" for i
  proof -
    note e = file_ends [OF bspec [OF holds nth_mem [OF that]]]
    have "bytewise.version (last (content (fm_number (fs ! i))))" using e(4,5) by (simp add: in_order_def)
    then show ?thesis using compare_target [OF _ snap] unfolding e(3) by (simp add: InternalKeyComparator_def)
  qed
  have mono: "?P i" if ij: "i \<le> j" "j < length fs" "?P j" for i j
  proof (cases "i = j")
    case False
    have m: "fs ! i \<in> set fs" "fs ! j \<in> set fs" using ij by simp_all
    have "ahead (last (content (fm_number (fs ! i)))) (last (content (fm_number (fs ! j))))"
      by (rule level_sorted [OF holds o _ ij(2), of i]) (use False ij m file_ends(4) [OF bspec [OF holds]] in simp_all)
    then show ?thesis using before_target_ahead P ij by simp
  qed (use ij in simp)
  have R: "r \<le> length fs \<and> (\<forall>i < r. ?P i) \<and> (r < length fs \<longrightarrow> \<not> ?P r)"
    by (rule find_file_result [OF refl mono _ _ _ _ r [unfolded FindFile_def]]) simp_all
  then show "r \<le> length fs" by blast
  show "i < r \<Longrightarrow> before_target u s (last (content (fm_number (fs ! i))))" using R P [of i] by auto
  show "r < length fs \<Longrightarrow> \<not> before_target u s (last (content (fm_number (fs ! r))))" using R P [of r] by auto
qed

lemma level_one:
  assumes holds: "\<forall>f \<in> set fs. file_holds finder ro f (content (fm_number f))" and fs: "files v ! level = fs" and level: "0 < level"
    and o: "in_order (level_versions content fs)" and snap: "s \<le> kMaxSequenceNumber"
  shows "first_newest u s (map (\<lambda>f. content (fm_number f))
      (level_candidates BytewiseComparator v u (LookupKey_internal_key (new_LookupKey u s)) level)) = newest (level_versions content fs) u s"
proof -
  define r where "r = FindFile BytewiseComparator fs (LookupKey_internal_key (new_LookupKey u s))"
  note F = FindFile_target [OF holds o snap r_def]
  have cs: "level_candidates BytewiseComparator v u (LookupKey_internal_key (new_LookupKey u s)) level =
      (if r \<ge> length fs then [] else if slice_compare u (InternalKey_user_key (fm_smallest (fs ! r))) < 0 then [] else [fs ! r])"
    using level by (simp add: level_candidates_def fs r_def Let_def BytewiseComparator_def)
  have front: "\<forall>q \<in> set (level_versions content (take r fs)). before_target u s q"
  proof
    fix q assume "q \<in> set (level_versions content (take r fs))"
    then obtain f where "f \<in> set (take r fs)" and q: "q \<in> set (content (fm_number f))" by (auto simp: set_level_versions)
    then obtain i where i: "i < r" "i < length fs" "fs ! i = f" by (auto simp: in_set_conv_nth)
    have "f \<in> set fs" using i by auto
    from in_order_ends [OF file_ends(5) [OF bspec [OF holds this]] q] F(2) [OF i(1)]
    show "before_target u s q" unfolding i(3) using before_target_ahead by metis
  qed
  show ?thesis
  proof (cases "r < length fs")
    case False
    then have "dropWhile (before_target u s) (level_versions content fs) = []" using front F(1) by simp
    then have "newest (level_versions content fs) u s = None" by (simp only: newest_in_order [OF o snap] list.case)
    then show ?thesis using False unfolding cs by simp
  next
    case True
    let ?c = "content (fm_number (fs ! r))"
    note e = file_ends [OF bspec [OF holds nth_mem [OF True]]]
    have "fs = take r fs @ fs ! r # drop (Suc r) fs" by (rule id_take_nth_drop [OF True])
    then have l: "level_versions content fs = level_versions content (take r fs) @ ?c @ level_versions content (drop (Suc r) fs)"
      by (metis level_versions_append level_versions_Cons)
    have x: "\<not> (\<forall>x \<in> set ?c. before_target u s x)" using F(3) [OF True] e(4) last_in_set by blast
    then have d: "dropWhile (before_target u s) ?c \<noteq> []" by auto
    have "dropWhile (before_target u s) (level_versions content fs) =
        dropWhile (before_target u s) ?c @ level_versions content (drop (Suc r) fs)"
      unfolding l using front x by (auto simp: dropWhile_append)
    then have n: "newest (level_versions content fs) u s = newest ?c u s"
      using newest_in_order [OF o snap, of u] newest_in_order [OF e(5) snap, of u] d by (simp split: list.splits)
    have "newest ?c u s = None" if less: "slice_compare u (user_key (fst (hd ?c))) < 0"
    proof (rule newest_None)
      fix q assume q: "q \<in> set ?c"
      have "\<not> ahead (hd ?c) q" if "user_key (fst q) = u" using that less slice_asym slice_self unfolding ahead_def by force
      then show "\<not> (user_key (fst q) = u \<and> sequence (fst q) \<le> s)" using in_order_ends [OF e(5) q] less slice_self by auto
    qed
    then show ?thesis using n True unfolding cs e(1) by (auto split: option.split)
  qed
qed

section \<open>Looking a key up in a version\<close>

text \<open>
  Every file holds what \<open>content\<close> says of its number, the files of each level above 0 hold disjoint ranges in
  order, those of level 0 hold newer versions the greater their numbers, and so does a lower level.
\<close>

definition readable_version :: "table_finder \<Rightarrow> ReadOptions \<Rightarrow> (64 word \<Rightarrow> versions) \<Rightarrow> Version \<Rightarrow> bool" where
  "readable_version finder ro content v \<longleftrightarrow>
     length (files v) = kNumLevels \<and>
     (\<forall>fs \<in> set (files v). \<forall>f \<in> set fs. file_holds finder ro f (content (fm_number f))) \<and>
     distinct (map fm_number (files v ! 0)) \<and>
     (\<forall>f \<in> set (files v ! 0). \<forall>g \<in> set (files v ! 0). fm_number g < fm_number f \<longrightarrow>
        newer_than (content (fm_number f)) (content (fm_number g))) \<and>
     (\<forall>level. 0 < level \<and> level < kNumLevels \<longrightarrow> in_order (level_versions content (files v ! level))) \<and>
     sorted_wrt newer_than (map (level_versions content) (files v))"

definition version_history :: "(64 word \<Rightarrow> versions) \<Rightarrow> Version \<Rightarrow> versions" where
  "version_history content v = concat (map (level_versions content) (files v))"

text \<open>What the lookup answers for the newest version.\<close>

definition get_answer :: "slice \<Rightarrow> (ParsedInternalKey \<times> slice) option \<Rightarrow> Status \<times> slice" where
  "get_answer val r = (case r of None \<Rightarrow> (Status_NotFound [] [], val)
     | Some q \<Rightarrow> (case value_type (fst q) of kTypeValue \<Rightarrow> (Status_OK, snd q) | kTypeDeletion \<Rightarrow> (Status_NotFound [] [], val)))"

lemma Status_OK_ok: "status_ok Status_OK"
  by (simp add: status_ok_def Status_OK_def)

lemma search_files_answer:
  assumes snap: "s \<le> kMaxSequenceNumber"
  shows "\<forall>c \<in> set cs. file_holds finder ro (snd c) (content (fm_number (snd c))) \<Longrightarrow>
    \<exists>seek. search_files finder ro BytewiseComparator u (LookupKey_internal_key (new_LookupKey u s)) cs last_file seek_file val =
      (fst (get_answer val (first_newest u s (map (\<lambda>c. content (fm_number (snd c))) cs))),
       snd (get_answer val (first_newest u s (map (\<lambda>c. content (fm_number (snd c))) cs))), seek)"
proof (induction cs arbitrary: last_file seek_file)
  case Nil
  then show ?case by (simp add: get_answer_def)
next
  case (Cons c cs)
  obtain level f where c: "c = (level, f)" by fastforce
  let ?k = "LookupKey_internal_key (new_LookupKey u s)" and ?n = "newest (content (fm_number f)) u s"
  define seek where "seek = (if last_file \<noteq> None \<and> seek_file = None then last_file else seek_file)"
  obtain result where get: "TableCache_Get finder ro (fm_number f) (fm_size f) ?k = (Status_OK, result)"
    "(case result of None \<Rightarrow> (SaverState.kNotFound, val) | Some (k, v) \<Rightarrow> SaveValue BytewiseComparator u k v val) = saved_answer val ?n"
    using file_lookup [OF _ snap, of finder ro f "content (fm_number f)" u val] Cons.prems c by auto
  have step: "search_files finder ro BytewiseComparator u ?k (c # cs) last_file seek_file val =
      (case saved_answer val ?n of (state, val) \<Rightarrow> case state of
           kNotFound \<Rightarrow> search_files finder ro BytewiseComparator u ?k cs (Some (level, f)) seek val
         | kFound \<Rightarrow> (Status_OK, val, seek)
         | kDeleted \<Rightarrow> (Status_NotFound [] [], val, seek)
         | kCorrupt \<Rightarrow> (Status_Corruption (bytes_of ''corrupted key for '') u, val, seek))"
    unfolding c search_files.simps Let_def seek_def [symmetric] get(1) prod.case get(2) by (simp add: Status_OK_ok split: prod.splits)
  show ?case
  proof (cases ?n)
    case None
    then show ?thesis using Cons.IH [of "Some (level, f)" seek] Cons.prems unfolding step by (simp add: saved_answer_def c)
  next
    case (Some q)
    then show ?thesis unfolding step by (cases "value_type (fst q)") (simp_all add: saved_answer_def get_answer_def c)
  qed
qed

lemma candidates_in_level: "f \<in> set (level_candidates c v u k level) \<Longrightarrow> f \<in> set (files v ! level)"
  by (auto simp: level_candidates_def Let_def NewestFirst_def split: if_splits)

lemma candidates_newest:
  assumes "readable_version finder ro content v" and snap: "s \<le> kMaxSequenceNumber"
  shows "first_newest u s (map (\<lambda>c. content (fm_number (snd c)))
      (all_candidates BytewiseComparator v u (LookupKey_internal_key (new_LookupKey u s)))) = newest (version_history content v) u s"
proof -
  let ?k = "LookupKey_internal_key (new_LookupKey u s)"
  let ?g = "\<lambda>level. if files v ! level = [] then [] else map (Pair level) (level_candidates BytewiseComparator v u ?k level)"
  let ?c = "\<lambda>c :: nat \<times> FileMetaData. content (fm_number (snd c))"
  have R: "length (files v) = kNumLevels" "\<forall>fs \<in> set (files v). \<forall>f \<in> set fs. file_holds finder ro f (content (fm_number f))"
    "distinct (map fm_number (files v ! 0))" "\<forall>f \<in> set (files v ! 0). \<forall>g \<in> set (files v ! 0). fm_number g < fm_number f \<longrightarrow>
        newer_than (content (fm_number f)) (content (fm_number g))"
    "\<forall>level. 0 < level \<and> level < kNumLevels \<longrightarrow> in_order (level_versions content (files v ! level))"
    "sorted_wrt newer_than (map (level_versions content) (files v))"
    using assms(1) by (simp_all add: readable_version_def)
  have level: "first_newest u s (map ?c (?g level)) = newest (level_versions content (files v ! level)) u s" if l: "level < kNumLevels" for level
  proof -
    have m: "files v ! level \<in> set (files v)" using l R(1) by simp
    then have holds: "\<forall>f \<in> set (files v ! level). file_holds finder ro f (content (fm_number f))" using R(2) by blast
    have "first_newest u s (map (\<lambda>f. content (fm_number f)) (level_candidates BytewiseComparator v u ?k level)) =
        newest (level_versions content (files v ! level)) u s"
    proof (cases "level = 0")
      case True
      then have h: "\<forall>f \<in> set (files v ! 0). file_holds finder ro f (content (fm_number f))" using holds by simp
      show ?thesis unfolding True by (rule level_zero [OF h refl R(3)]) (use R(4) in blast)
    next
      case False
      then show ?thesis using R(5) l by (intro level_one [OF holds refl _ _ snap]) simp_all
    qed
    then show ?thesis by (cases "files v ! level = []") (simp_all add: level_versions_def newest_def comp_def)
  qed
  have "first_newest u s (map ?c (concat (map ?g ls))) = first_newest u s (map (\<lambda>l. level_versions content (files v ! l)) ls)"
    if "\<forall>l \<in> set ls. l < kNumLevels" for ls
    using that
  proof (induction ls)
    case (Cons l ls)
    then show ?case using level [of l] unfolding list.map concat.simps map_append first_newest_append by (simp split: option.split)
  qed simp
  from this [of "[0..<kNumLevels]"]
  have "first_newest u s (map ?c (all_candidates BytewiseComparator v u ?k)) =
      first_newest u s (map (\<lambda>l. level_versions content (files v ! l)) [0..<length (files v)])"
    using R(1) by (simp only: all_candidates_def) simp
  also have "map (\<lambda>l. level_versions content (files v ! l)) [0..<length (files v)] = map (level_versions content) (files v)"
    by (rule nth_equalityI) simp_all
  also have "first_newest u s (map (level_versions content) (files v)) = newest (version_history content v) u s"
    unfolding version_history_def by (rule newest_concat [OF R(6), symmetric])
  finally show ?thesis .
qed

lemma Version_Get_newest:
  assumes R: "readable_version finder ro content v" and snap: "s \<le> kMaxSequenceNumber"
  shows "\<exists>seek. Version_Get finder ro BytewiseComparator v (new_LookupKey u s) val =
      (fst (get_answer val (newest (version_history content v) u s)), snd (get_answer val (newest (version_history content v) u s)), seek)"
proof -
  have u: "LookupKey_user_key (new_LookupKey u s) = u"
    by (simp add: LookupKey_user_key_def new_LookupKey_def Let_def)
  have "\<forall>c \<in> set (all_candidates BytewiseComparator v u (LookupKey_internal_key (new_LookupKey u s))).
      file_holds finder ro (snd c) (content (fm_number (snd c)))"
    using R candidates_in_level unfolding all_candidates_def readable_version_def by (auto split: if_splits) (metis nth_mem)
  from search_files_answer [OF snap this, of u None None val] show ?thesis
    unfolding candidates_newest [OF R snap] by (simp add: Version_Get_def u Let_def)
qed

section \<open>Overlapping files\<close>

abbreviation (input) file_start :: "FileMetaData \<Rightarrow> slice" where
  "file_start f \<equiv> InternalKey_user_key (fm_smallest f)"

abbreviation (input) file_limit :: "FileMetaData \<Rightarrow> slice" where
  "file_limit f \<equiv> InternalKey_user_key (fm_largest f)"

text \<open>A file overlaps a range, lies within it; a range contains another.  \<^const>\<open>None\<close> is no bound.\<close>

definition overlaps :: "slice option \<Rightarrow> slice option \<Rightarrow> FileMetaData \<Rightarrow> bool" where
  "overlaps b e f \<longleftrightarrow> (\<forall>u. b = Some u \<longrightarrow> \<not> slice_compare (file_limit f) u < 0) \<and> (\<forall>u. e = Some u \<longrightarrow> \<not> 0 < slice_compare (file_start f) u)"

definition lies_within :: "slice option \<Rightarrow> slice option \<Rightarrow> FileMetaData \<Rightarrow> bool" where
  "lies_within b e f \<longleftrightarrow> (\<forall>u. b = Some u \<longrightarrow> \<not> slice_compare (file_start f) u < 0) \<and> (\<forall>u. e = Some u \<longrightarrow> \<not> 0 < slice_compare (file_limit f) u)"

definition contains_range :: "slice option \<Rightarrow> slice option \<Rightarrow> slice option \<Rightarrow> slice option \<Rightarrow> bool" where
  "contains_range x y b e \<longleftrightarrow> (x = None \<longleftrightarrow> b = None) \<and> (y = None \<longleftrightarrow> e = None) \<and>
     (\<forall>u w. b = Some u \<and> x = Some w \<longrightarrow> \<not> slice_compare u w < 0) \<and> (\<forall>u w. e = Some u \<and> y = Some w \<longrightarrow> \<not> 0 < slice_compare u w)"

lemma slice_le_trans:
  assumes "\<not> slice_compare b a < 0" and "\<not> slice_compare c b < 0"
  shows "\<not> slice_compare c a < 0"
proof
  assume ca: "slice_compare c a < 0"
  show False
    using slice_total [of a b] assms
  proof (elim disjE)
    assume "slice_compare a b < 0"
    then show False using slice_compare_trans [OF ca] assms(2) by blast
  qed (use ca assms in simp_all)
qed

lemma contains_refl: "contains_range b e b e"
  by (auto simp: contains_range_def slice_self)

lemma contains_bounds:
  assumes "contains_range x y b e"
  shows "b = Some u \<Longrightarrow> \<exists>w. x = Some w \<and> \<not> slice_compare u w < 0" and "e = Some u \<Longrightarrow> \<exists>w. y = Some w \<and> \<not> slice_compare w u < 0"
    and "x = Some w \<Longrightarrow> \<exists>u. b = Some u \<and> \<not> slice_compare u w < 0" and "y = Some w \<Longrightarrow> \<exists>u. e = Some u \<and> \<not> slice_compare w u < 0"
  using assms unfolding contains_range_def slice_flip by auto

lemma contains_trans:
  assumes 1: "contains_range x y b e" and 2: "contains_range b e c d"
  shows "contains_range x y c d"
proof -
  have "\<not> slice_compare u w < 0" if "c = Some u" "x = Some w" for u w
    using contains_bounds(1) [OF 2 that(1)] contains_bounds(1) [OF 1] that(2) slice_le_trans by fastforce
  moreover have "\<not> slice_compare w u < 0" if "d = Some u" "y = Some w" for u w
    using contains_bounds(2) [OF 2 that(1)] contains_bounds(2) [OF 1] that(2) slice_le_trans by fastforce
  ultimately show ?thesis using 1 2 unfolding contains_range_def slice_flip by simp
qed

lemma overlaps_wider:
  assumes o: "overlaps b e f" and c: "contains_range x y b e"
  shows "overlaps x y f"
proof -
  have "\<not> slice_compare (file_limit f) w < 0" if w: "x = Some w" for w
    using contains_bounds(3) [OF c w] o slice_le_trans unfolding overlaps_def by blast
  moreover have "\<not> slice_compare w (file_start f) < 0" if w: "y = Some w" for w
    using contains_bounds(4) [OF c w] o slice_le_trans unfolding overlaps_def slice_flip by blast
  ultimately show ?thesis by (simp add: overlaps_def slice_flip)
qed

text \<open>How many bounds of files are still outside of a range.\<close>

definition outside :: "FileMetaData list \<Rightarrow> slice option \<Rightarrow> slice option \<Rightarrow> nat" where
  "outside fs b e = length (filter (\<lambda>f. \<exists>u. b = Some u \<and> slice_compare (file_start f) u < 0) fs) +
     length (filter (\<lambda>f. \<exists>u. e = Some u \<and> slice_compare u (file_limit f) < 0) fs)"

lemma filter_less:
  assumes "x \<in> set xs" and "Q x" and "\<not> P x" and "\<And>y. P y \<Longrightarrow> Q y"
  shows "length (filter P xs) < length (filter Q xs)"
proof -
  have le: "length (filter P ys) \<le> length (filter Q ys)" for ys using assms(4) by (induction ys) auto
  show ?thesis using assms(1)
  proof (induction xs)
    case (Cons y ys)
    then show ?case using le [of ys] assms(2,3,4) by auto
  qed simp
qed

lemma outside_start:
  assumes "f \<in> set fs" and "slice_compare (file_start f) u < 0"
  shows "outside fs (Some (file_start f)) e < outside fs (Some u) e"
proof -
  have "length (filter (\<lambda>g. slice_compare (file_start g) (file_start f) < 0) fs) < length (filter (\<lambda>g. slice_compare (file_start g) u < 0) fs)"
    by (rule filter_less [OF assms(1)]) (use assms(2) slice_self slice_compare_trans [OF _ assms(2)] in auto)
  then show ?thesis by (simp add: outside_def)
qed

lemma outside_limit:
  assumes "f \<in> set fs" and "slice_compare u (file_limit f) < 0"
  shows "outside fs b (Some (file_limit f)) < outside fs b (Some u)"
proof -
  have "length (filter (\<lambda>g. slice_compare (file_limit f) (file_limit g) < 0) fs) < length (filter (\<lambda>g. slice_compare u (file_limit g) < 0) fs)"
    by (rule filter_less [OF assms(1)]) (use assms(2) slice_self slice_compare_trans [OF assms(2)] in auto)
  then show ?thesis by (simp add: outside_def)
qed

text \<open>A range that every file it overlaps lies within.\<close>

definition closed_range :: "FileMetaData list \<Rightarrow> slice option \<Rightarrow> slice option \<Rightarrow> bool" where
  "closed_range fs x y \<longleftrightarrow> (\<forall>f \<in> set fs. overlaps x y f \<longrightarrow> lies_within x y f)"

text \<open>What the search is to answer: the files the least such range overlaps, at level 0.\<close>

definition overlap_result :: "nat \<Rightarrow> FileMetaData list \<Rightarrow> slice option \<Rightarrow> slice option \<Rightarrow> FileMetaData list \<Rightarrow> bool" where
  "overlap_result level fs b e inputs \<longleftrightarrow> (\<exists>x y. inputs = filter (overlaps x y) fs \<and> contains_range x y b e \<and>
     (if level = 0 then closed_range fs x y \<and> (\<forall>c d. contains_range c d b e \<and> closed_range fs c d \<longrightarrow> contains_range c d x y)
      else x = b \<and> y = e))"

lemma overlap_result_wider:
  assumes r: "overlap_result 0 fs x y inputs" and c: "contains_range x y b e"
    and least: "\<And>c d. contains_range c d b e \<Longrightarrow> closed_range fs c d \<Longrightarrow> contains_range c d x y"
  shows "overlap_result 0 fs b e inputs"
proof -
  obtain p q where pq: "inputs = filter (overlaps p q) fs" "contains_range p q x y" "closed_range fs p q"
    "\<And>c d. contains_range c d x y \<Longrightarrow> closed_range fs c d \<Longrightarrow> contains_range c d p q" using r by (auto simp: overlap_result_def)
  show ?thesis
    unfolding overlap_result_def using pq contains_trans [OF pq(2) c] least by (intro exI [of _ p] exI [of _ q]) simp
qed

lemma closed_within:
  "closed_range fs c d \<Longrightarrow> contains_range c d b e \<Longrightarrow> f \<in> set fs \<Longrightarrow> overlaps b e f \<Longrightarrow> lies_within c d f"
  using overlaps_wider by (auto simp: closed_range_def)

lemma overlap_loop_step:
  assumes "i < length fs" and f: "f = fs ! i"
  shows "overlap_loop BytewiseComparator level fs i b e inputs =
    (if \<not> overlaps b e f then overlap_loop BytewiseComparator level fs (Suc i) b e inputs
     else if level = 0 \<and> (\<exists>u. b = Some u \<and> slice_compare (file_start f) u < 0) then
       overlap_loop BytewiseComparator level fs 0 (Some (file_start f)) e []
     else if level = 0 \<and> (\<exists>u. e = Some u \<and> slice_compare u (file_limit f) < 0) then
       overlap_loop BytewiseComparator level fs 0 b (Some (file_limit f)) []
     else overlap_loop BytewiseComparator level fs (Suc i) b e (inputs @ [f]))"
proof -
  have cmp: "Compare BytewiseComparator = slice_compare" by (simp add: BytewiseComparator_def)
  show ?thesis
    using overlap_loop.simps [of BytewiseComparator level fs i b e inputs, unfolded cmp Let_def f [symmetric] slice_flip] assms(1)
    unfolding overlaps_def slice_flip by (cases b; cases e) auto
qed

text \<open>Starting again with a range that a file widened answers the search in the given range.\<close>

lemma restart_wider:
  assumes again: "\<exists>inputs. overlap_loop BytewiseComparator 0 fs 0 x y [] = Some inputs \<and> overlap_result 0 fs x y inputs"
    and f: "f \<in> set fs" "overlaps b e f" and c: "contains_range x y b e"
    and wider: "x = b \<or> x = Some (file_start f) \<and> b \<noteq> None" "y = e \<or> y = Some (file_limit f) \<and> e \<noteq> None"
  shows "\<exists>inputs. overlap_loop BytewiseComparator 0 fs 0 x y [] = Some inputs \<and> overlap_result 0 fs b e inputs"
proof -
  have "contains_range p q x y" if "contains_range p q b e" "closed_range fs p q" for p q
    using that(1) closed_within [OF that(2,1) f] wider by (auto simp: contains_range_def lies_within_def)
  then show ?thesis using again overlap_result_wider [OF _ c] by blast
qed

lemma fewer_outside:
  assumes "outside fs x y < outside fs b e"
  shows "outside fs x y * Suc n + (n - 0) < outside fs b e * Suc n + k"
proof -
  have "Suc (outside fs x y) * Suc n \<le> outside fs b e * Suc n" using assms by (intro mult_le_mono1) simp
  then show ?thesis by simp
qed

lemma overlap_loop_result:
  "i \<le> length fs \<Longrightarrow> \<forall>f \<in> set (take i fs). level = 0 \<and> overlaps b e f \<longrightarrow> lies_within b e f \<Longrightarrow>
    \<exists>inputs. overlap_loop BytewiseComparator level fs i b e (filter (overlaps b e) (take i fs)) = Some inputs \<and> overlap_result level fs b e inputs"
proof (induction "outside fs b e * Suc (length fs) + (length fs - i)" arbitrary: i b e rule: less_induct)
  case less
  show ?case
  proof (cases "i < length fs")
    case False
    then have i: "i = length fs" using less.prems(1) by simp
    have "overlap_result level fs b e (filter (overlaps b e) fs)"
      unfolding overlap_result_def using less.prems(2) i contains_refl by (intro exI [of _ b] exI [of _ e]) (simp add: closed_range_def)
    then show ?thesis using i by (subst overlap_loop.simps) simp
  next
    case True
    define f where "f = fs ! i"
    have f: "f \<in> set fs" using True by (simp add: f_def)
    note step = overlap_loop_step [OF True f_def, of level b e "filter (overlaps b e) (take i fs)"]
    have take: "take (Suc i) fs = take i fs @ [f]" using True by (simp add: f_def take_Suc_conv_app_nth)
    have "outside fs b e * Suc (length fs) + (length fs - Suc i) < outside fs b e * Suc (length fs) + (length fs - i)" using True by simp
    note go_on = less.hyps [OF this, unfolded take]
    have again: "\<exists>inputs. overlap_loop BytewiseComparator level fs 0 x y [] = Some inputs \<and> overlap_result level fs x y inputs"
      if o: "outside fs x y < outside fs b e" for x y
      using less.hyps [OF fewer_outside [OF o]] by simp
    consider u where "level = 0" "overlaps b e f" "b = Some u" "slice_compare (file_start f) u < 0"
      | u where "level = 0" "overlaps b e f" "\<not> (\<exists>u. b = Some u \<and> slice_compare (file_start f) u < 0)" "e = Some u" "slice_compare u (file_limit f) < 0"
      | "overlaps b e f \<longrightarrow> level = 0 \<longrightarrow> lies_within b e f" "overlaps b e f \<longrightarrow> level = 0 \<longrightarrow>
          \<not> (\<exists>u. b = Some u \<and> slice_compare (file_start f) u < 0) \<and> \<not> (\<exists>u. e = Some u \<and> slice_compare u (file_limit f) < 0)"
      by (auto simp: lies_within_def slice_flip)
    then show ?thesis
    proof cases
      case (1 u)
      have c: "contains_range (Some (file_start f)) e b e" using 1 slice_asym slice_self by (auto simp: contains_range_def)
      have "outside fs (Some (file_start f)) e < outside fs b e" using outside_start [OF f 1(4)] 1(3) by simp
      from restart_wider [OF again [OF this, unfolded 1(1)] f 1(2) c] show ?thesis
        using 1 unfolding 1(1) step [unfolded 1(1)] by simp
    next
      case (2 u)
      have c: "contains_range b (Some (file_limit f)) b e" using 2 slice_asym slice_self by (auto simp: contains_range_def slice_flip)
      have "outside fs b (Some (file_limit f)) < outside fs b e" using outside_limit [OF f 2(5)] 2(4) by simp
      from restart_wider [OF again [OF this, unfolded 2(1)] f 2(2) c] show ?thesis
        using 2 unfolding 2(1) step [unfolded 2(1)] by auto
    next
      case 3
      then have "overlap_loop BytewiseComparator level fs i b e (filter (overlaps b e) (take i fs)) =
          overlap_loop BytewiseComparator level fs (Suc i) b e (filter (overlaps b e) (take i fs @ [f]))"
        unfolding step by (cases "overlaps b e f") auto
      moreover have "\<forall>g \<in> set (take i fs @ [f]). level = 0 \<and> overlaps b e g \<longrightarrow> lies_within b e g" using less.prems(2) 3(1) by simp
      ultimately show ?thesis using go_on True by simp
    qed
  qed
qed

text \<open>C14: The search for overlapping files returns, and answers the right files.  Above level 0 these are the files that
  overlap the range, in their order.  At level 0, where files may overlap each other, they are the files that overlap the least
  range that contains the given one and all files it overlaps, whatever the order of the files; an absent bound stays absent.\<close>

theorem GetOverlappingInputs_least:
  "\<exists>inputs. GetOverlappingInputs BytewiseComparator v level begin_key end_key = Some inputs \<and>
    overlap_result level (files v ! level) (map_option InternalKey_user_key begin_key) (map_option InternalKey_user_key end_key) inputs"
  using overlap_loop_result [of 0 "files v ! level" level "map_option InternalKey_user_key begin_key" "map_option InternalKey_user_key end_key"]
  by (simp add: GetOverlappingInputs_def)

end
