(* ===== verification/Ldb_Merger_Facts.thy ===== *)
theory Ldb_Merger_Facts
  imports Ldb_Merger
begin

text \<open>
  The merging iterator keeps the contract of an iterator for the merged entries of its children, when
  each child keeps it for its own.
\<close>

section \<open>Choosing a child\<close>

text \<open>The loops over the children pick the one that is best by a rank.\<close>

lemma fold_best:
  assumes "\<And>c s. valid c \<Longrightarrow> valid s \<Longrightarrow> better c s \<longleftrightarrow> J c < (J s :: int)"
    and step: "\<And>i r. f i r = (if valid i then (case r of None \<Rightarrow> Some i | Some s \<Rightarrow> if better i s then Some i else r) else r)"
  shows "case fold f cs None of None \<Rightarrow> \<forall>c \<in> set cs. \<not> valid c
    | Some s \<Rightarrow> s \<in> set cs \<and> valid s \<and> (\<forall>c \<in> set cs. valid c \<longrightarrow> J s \<le> J c)"
proof (induction cs rule: rev_induct)
  case (snoc c cs)
  have u: "fold f (cs @ [c]) None = (if valid c
      then (case fold f cs None of None \<Rightarrow> Some c | Some s \<Rightarrow> if better c s then Some c else fold f cs None) else fold f cs None)"
    by (simp only: fold_append o_apply fold.simps id_apply step [of c "fold f cs None"])
  show ?case
  proof (cases "fold f cs None")
    case None
    then show ?thesis using snoc unfolding u by auto
  next
    case (Some s)
    then have s: "s \<in> set cs" "valid s" "\<forall>c \<in> set cs. valid c \<longrightarrow> J s \<le> J c" using snoc by simp_all
    show ?thesis
    proof (cases "valid c \<and> better c s")
      case True
      then have "J c < J s" using assms(1) s(2) by blast
      then show ?thesis using True Some s(3) unfolding u by auto
    next
      case False
      then have "valid c \<longrightarrow> J s \<le> J c" using assms(1) [OF _ s(2)] by force
      then show ?thesis using False Some s unfolding u by auto
    qed
  qed
qed simp

section \<open>The merged entries\<close>

text \<open>
  \<open>tes\<close> are the merged entries, each with the child that it comes from; child \<open>c\<close> runs over those with
  its number.
\<close>

locale merging =
  fixes ops :: "'i Iterator" and cmp :: Comparator and tes :: "(nat \<times> slice \<times> slice) list" and n :: nat
    and at :: "nat \<Rightarrow> 'i \<Rightarrow> nat \<Rightarrow> bool" and good :: "nat \<Rightarrow> 'i \<Rightarrow> bool" and tok :: "slice \<Rightarrow> bool"
  assumes child: "c < n \<Longrightarrow> entry_iterator ops cmp (map snd (filter (\<lambda>x. fst x = c) tes)) (at c) (good c) tok"
    and tags: "x \<in> set tes \<Longrightarrow> fst x < n"
    and before: "i < length tes \<Longrightarrow> j < length tes \<Longrightarrow> Compare cmp (fst (snd (tes ! i))) (fst (snd (tes ! j))) < 0 \<longleftrightarrow> i < j"
    and behind: "i < length tes \<Longrightarrow> j < length tes \<Longrightarrow> 0 < Compare cmp (fst (snd (tes ! i))) (fst (snd (tes ! j))) \<longleftrightarrow> j < i"
    and keys: "x \<in> set tes \<Longrightarrow> tok (fst (snd x))"
    and below: "tok t \<Longrightarrow> i < j \<Longrightarrow> j < length tes \<Longrightarrow> Compare cmp (fst (snd (tes ! j))) t < 0 \<Longrightarrow>
      Compare cmp (fst (snd (tes ! i))) t < 0"
begin

definition es :: entries where "es = map snd tes"

definition tag :: "nat \<Rightarrow> nat" where "tag k = fst (tes ! k)"

definition own :: "nat \<Rightarrow> entries" where "own c = map snd (filter (\<lambda>x. fst x = c) tes)"

text \<open>How many of the first \<open>k\<close> merged entries are those of child \<open>c\<close>.\<close>

definition pos :: "nat \<Rightarrow> nat \<Rightarrow> nat" where "pos c k = length (filter (\<lambda>x. fst x = c) (take k tes))"

lemma es_length [simp]: "length es = length tes"
  by (simp add: es_def)

lemma pos_0 [simp]: "pos c 0 = 0"
  by (simp add: pos_def)

lemma pos_Suc: "k < length tes \<Longrightarrow> pos c (Suc k) = pos c k + (if tag k = c then 1 else 0)"
  by (simp add: pos_def tag_def take_Suc_conv_app_nth)

lemma pos_all [simp]: "pos c (length tes) = length (own c)"
  by (simp add: pos_def own_def)

lemma pos_mono: "i \<le> j \<Longrightarrow> pos c i \<le> pos c j"
proof -
  assume "i \<le> j"
  then have "take j tes = take i tes @ take (j - i) (drop i tes)" by (metis le_add_diff_inverse take_add)
  then show ?thesis by (simp add: pos_def)
qed

lemma pos_le: "pos c k \<le> length (own c)"
proof -
  have "filter (\<lambda>x. fst x = c) tes = filter (\<lambda>x. fst x = c) (take k tes) @ filter (\<lambda>x. fst x = c) (drop k tes)"
    by (simp flip: filter_append)
  then show ?thesis by (simp add: pos_def own_def)
qed

lemma tag_less: "k < length tes \<Longrightarrow> tag k < n"
  using tags [of "tes ! k"] by (simp add: tag_def)

lemma own_entry:
  assumes "k < length tes"
  shows "pos (tag k) k < length (own (tag k))" "own (tag k) ! pos (tag k) k = es ! k"
proof -
  show "pos (tag k) k < length (own (tag k))"
    using pos_Suc [OF assms, of "tag k"] pos_le [of "tag k" "Suc k"] by simp
  let ?P = "\<lambda>x. fst x = tag k"
  have "tes = take k tes @ tes ! k # drop (Suc k) tes" by (rule id_take_nth_drop [OF assms])
  then have "filter ?P tes = filter ?P (take k tes) @ filter ?P (tes ! k # drop (Suc k) tes)" by (metis filter_append)
  then show "own (tag k) ! pos (tag k) k = es ! k"
    using assms by (simp add: own_def pos_def tag_def es_def nth_append)
qed

lemma own_index: "p < pos c m \<Longrightarrow> m \<le> length tes \<Longrightarrow> \<exists>k<m. tag k = c \<and> pos c k = p"
proof (induction m)
  case (Suc m)
  then have m: "m < length tes" by simp
  show ?case
  proof (cases "tag m = c \<and> p = pos c m")
    case False
    then have "p < pos c m" using Suc.prems(1) pos_Suc [OF m] by (auto split: if_splits)
    then show ?thesis using Suc.IH m by (metis less_SucI less_imp_le)
  qed blast
qed simp

lemma own_index_unique: "j < length tes \<Longrightarrow> k < length tes \<Longrightarrow> tag j = c \<Longrightarrow> tag k = c \<Longrightarrow> pos c j = pos c k \<Longrightarrow> j = k"
  using pos_Suc [of j c] pos_Suc [of k c] pos_mono [of "Suc j" k c] pos_mono [of "Suc k" j c]
  by (cases j k rule: linorder_cases) auto

section \<open>The children\<close>

definition wat :: "nat \<Rightarrow> 'i IteratorWrapper \<Rightarrow> nat \<Rightarrow> bool" where
  "wat c w p \<longleftrightarrow> wrapped ops w \<and> (\<exists>i. w_iter w = Some i \<and> at c i p)"

definition wgood :: "nat \<Rightarrow> 'i IteratorWrapper \<Rightarrow> bool" where
  "wgood c w \<longleftrightarrow> wrapped ops w \<and> (\<exists>i. w_iter w = Some i \<and> good c i)"

lemma contract: "c < n \<Longrightarrow> entry_iterator ops cmp (own c) (at c) (good c) tok"
  using child by (simp add: own_def)

lemma wat_good: "c < n \<Longrightarrow> wat c w p \<Longrightarrow> wgood c w"
  using entry_iterator.at_good [OF contract] by (auto simp: wat_def wgood_def)

lemma wat_bound: "c < n \<Longrightarrow> wat c w p \<Longrightarrow> p \<le> length (own c)"
  using entry_iterator.at_bound [OF contract] by (auto simp: wat_def)

lemma wat_valid: "c < n \<Longrightarrow> wat c w p \<Longrightarrow> w_valid w \<longleftrightarrow> p < length (own c)"
  using entry_iterator.at_valid [OF contract] by (auto simp: wat_def wrapped_def)

lemma wat_entry:
  assumes "c < n" and "wat c w p" and "p < length (own c)"
  shows "(w_key w, w_value ops w) = own c ! p"
proof -
  obtain i where i: "wrapped ops w" "w_iter w = Some i" "at c i p" using assms(2) by (auto simp: wat_def)
  then have "w_valid w" using wat_valid assms by blast
  then show ?thesis using entry_iterator.at_entry [OF contract [OF assms(1)] i(3) assms(3)] i(1,2) by (simp add: wrapped_def w_value_def)
qed

lemma wat_call: "wrapped ops w \<Longrightarrow> w_iter w = Some i \<Longrightarrow> at c (f i) p \<Longrightarrow> wat c (w_call ops f w) p"
  by (simp add: wat_def)

lemma wat_ops:
  assumes "c < n"
  shows "wgood c w \<Longrightarrow> wat c (w_SeekToFirst ops w) 0"
    and "wgood c w \<Longrightarrow> wat c (w_SeekToLast ops w) (length (own c) - 1)"
    and "wgood c w \<Longrightarrow> tok t \<Longrightarrow> wat c (w_Seek ops t w) (seek_index cmp (own c) t)"
    and "wat c w p \<Longrightarrow> p < length (own c) \<Longrightarrow> wat c (w_Next ops w) (Suc p)"
    and "wat c w p \<Longrightarrow> p < length (own c) \<Longrightarrow> wat c (w_Prev ops w) (if p = 0 then length (own c) else p - 1)"
proof -
  note first = entry_iterator.at_first [OF contract [OF assms]] and hind = entry_iterator.at_last [OF contract [OF assms]]
    and seek = entry_iterator.at_seek [OF contract [OF assms]] and forth = entry_iterator.at_next [OF contract [OF assms]]
    and prev = entry_iterator.at_prev [OF contract [OF assms]]
  show "wgood c w \<Longrightarrow> wat c (w_SeekToFirst ops w) 0" unfolding wgood_def w_ops by (blast intro: wat_call first)
  show "wgood c w \<Longrightarrow> wat c (w_SeekToLast ops w) (length (own c) - 1)" unfolding wgood_def w_ops by (blast intro: wat_call hind)
  show "wgood c w \<Longrightarrow> tok t \<Longrightarrow> wat c (w_Seek ops t w) (seek_index cmp (own c) t)"
    unfolding wgood_def w_ops by (blast intro: wat_call seek)
  show "wat c w p \<Longrightarrow> p < length (own c) \<Longrightarrow> wat c (w_Next ops w) (Suc p)"
    unfolding wat_def [of c w] w_ops by (blast intro: wat_call forth)
  show "wat c w p \<Longrightarrow> p < length (own c) \<Longrightarrow> wat c (w_Prev ops w) (if p = 0 then length (own c) else p - 1)"
    unfolding wat_def [of c w] w_ops by (blast intro: wat_call prev)
qed

lemma wgood_Set: "good c i \<Longrightarrow> wgood c (w_Set ops (Some i) new_Wrapper)"
  by (simp add: wgood_def)

lemma wgood_status: "c < n \<Longrightarrow> wgood c w \<Longrightarrow> status_ok (w_status ops w)"
  using entry_iterator.good_status [OF contract] by (auto simp: wgood_def w_status_def)

section \<open>The position of the merging iterator\<close>

definition ok :: "'i MergingIterator \<Rightarrow> bool" where
  "ok m \<longleftrightarrow> m_comparator m = cmp \<and> length (children m) = n \<and> (\<forall>c<n. wgood c (children m ! c))"

text \<open>All children are at or behind merged entry \<open>k\<close>, or right before it.\<close>

definition ahead :: "'i IteratorWrapper list \<Rightarrow> nat \<Rightarrow> bool" where
  "ahead cs k \<longleftrightarrow> (\<forall>c<n. wat c (cs ! c) (pos c k))"

definition behind_of :: "'i IteratorWrapper list \<Rightarrow> nat \<Rightarrow> bool" where
  "behind_of cs k \<longleftrightarrow> (\<forall>c<n. wat c (cs ! c) (if pos c k = 0 then length (own c) else pos c k - 1))"

lemma chosen:
  fixes sg :: int
  assumes "\<And>i r. f i r = (if w_valid (cs ! i) then (case r of None \<Rightarrow> Some i | Some s \<Rightarrow> if better i s then Some i else r) else r)"
    and better: "\<And>c s j k. c < n \<Longrightarrow> s < n \<Longrightarrow> j < length tes \<Longrightarrow> k < length tes \<Longrightarrow> w_key (cs ! c) = fst (es ! j) \<Longrightarrow>
      w_key (cs ! s) = fst (es ! k) \<Longrightarrow> better c s \<longleftrightarrow> sg * int j < sg * int k"
    and J: "\<And>c. c < n \<Longrightarrow> w_valid (cs ! c) \<Longrightarrow> J c < length tes \<and> w_key (cs ! c) = fst (es ! J c)"
    and xs: "set xs = {0..<n}"
  shows "case fold f xs None of None \<Rightarrow> \<forall>c<n. \<not> w_valid (cs ! c)
    | Some s \<Rightarrow> s < n \<and> w_valid (cs ! s) \<and> (\<forall>c<n. w_valid (cs ! c) \<longrightarrow> sg * int (J s) \<le> sg * int (J c))"
proof -
  let ?valid = "\<lambda>c. c < n \<and> w_valid (cs ! c)"
  let ?g = "\<lambda>i r. if ?valid i then (case r of None \<Rightarrow> Some i | Some s \<Rightarrow> if better i s then Some i else r) else r"
  have "fold f xs None = fold ?g xs None" by (rule fold_cong) (use xs in \<open>simp_all add: assms(1) fun_eq_iff\<close>)
  moreover have "case fold ?g xs None of None \<Rightarrow> \<forall>c \<in> set xs. \<not> ?valid c
    | Some s \<Rightarrow> s \<in> set xs \<and> ?valid s \<and> (\<forall>c \<in> set xs. ?valid c \<longrightarrow> sg * int (J s) \<le> sg * int (J c))"
    by (rule fold_best [where better = better]) (use J better in blast)+
  ultimately show ?thesis using xs by (auto split: option.splits)
qed

lemma index_of_ahead:
  assumes "ahead cs k" and "k \<le> length tes"
  shows "\<exists>J. \<forall>c<n. w_valid (cs ! c) \<longrightarrow> J c < length tes \<and> k \<le> J c \<and> tag (J c) = c \<and> pos c (J c) = pos c k \<and> w_key (cs ! c) = fst (es ! J c)"
proof -
  have "\<exists>j. w_valid (cs ! c) \<longrightarrow> j < length tes \<and> k \<le> j \<and> tag j = c \<and> pos c j = pos c k \<and> w_key (cs ! c) = fst (es ! j)" if c: "c < n" for c
  proof (cases "w_valid (cs ! c)")
    case True
    have w: "wat c (cs ! c) (pos c k)" using assms(1) c by (simp add: ahead_def)
    then have p: "pos c k < length (own c)" using wat_valid [OF c] True by blast
    then obtain j where j: "j < length tes" "tag j = c" "pos c j = pos c k" using own_index [of "pos c k" c "length tes"] by auto
    have "k \<le> j"
    proof (rule ccontr)
      assume "\<not> k \<le> j"
      then show False using pos_Suc [OF j(1), of c] pos_mono [of "Suc j" k c] j(2,3) by simp
    qed
    moreover have "w_key (cs ! c) = fst (es ! j)"
      using wat_entry [OF c w p] own_entry(2) [OF j(1)] j(2,3) by (metis fst_conv)
    ultimately show ?thesis using j by blast
  qed blast
  then show ?thesis by metis
qed

lemma FindSmallest_ahead:
  assumes "ahead (children m) k" and "k \<le> length tes" and "m_comparator m = cmp" and "length (children m) = n"
  shows "current (FindSmallest m) = (if k < length tes then Some (tag k) else None)"
proof -
  let ?cs = "children m"
  obtain J where J: "\<forall>c<n. w_valid (?cs ! c) \<longrightarrow> J c < length tes \<and> k \<le> J c \<and> tag (J c) = c \<and> pos c (J c) = pos c k \<and>
      w_key (?cs ! c) = fst (es ! J c)" using index_of_ahead [OF assms(1,2)] by blast
  have cur: "current (FindSmallest m) = fold (smaller_child (m_comparator m) ?cs) [0..<length ?cs] None" by (simp add: FindSmallest_def)
  have r: "case current (FindSmallest m) of None \<Rightarrow> \<forall>c<n. \<not> w_valid (?cs ! c)
    | Some s \<Rightarrow> s < n \<and> w_valid (?cs ! s) \<and> (\<forall>c<n. w_valid (?cs ! c) \<longrightarrow> 1 * int (J s) \<le> 1 * int (J c))"
    unfolding cur
  proof (rule chosen [where better = "\<lambda>i s. Compare cmp (w_key (?cs ! i)) (w_key (?cs ! s)) < 0"])
    show "smaller_child (m_comparator m) ?cs i r = (if w_valid (?cs ! i) then
        (case r of None \<Rightarrow> Some i | Some s \<Rightarrow> if Compare cmp (w_key (?cs ! i)) (w_key (?cs ! s)) < 0 then Some i else r) else r)" for i r
      using assms(3) by (simp add: smaller_child_def)
    show "Compare cmp (w_key (?cs ! c)) (w_key (?cs ! s)) < 0 \<longleftrightarrow> 1 * int j < 1 * int k"
      if "j < length tes" "k < length tes" "w_key (?cs ! c) = fst (es ! j)" "w_key (?cs ! s) = fst (es ! k)" for c s j k
      using before [OF that(1,2)] that by (simp add: es_def)
  qed (use J assms(4) in auto)
  have w: "wat c (?cs ! c) (pos c k)" if "c < n" for c using assms(1) that by (simp add: ahead_def)
  show ?thesis
  proof (cases "k < length tes")
    case True
    have t: "tag k < n" using tag_less True .
    then have v: "w_valid (?cs ! tag k)" using wat_valid [OF t w [OF t]] own_entry(1) [OF True] by simp
    then have Jk: "J (tag k) = k" using J t own_index_unique [of "J (tag k)" k] True by blast
    obtain s where s: "current (FindSmallest m) = Some s" "s < n" "w_valid (?cs ! s)" "J s \<le> J (tag k)"
      using r t v by (auto split: option.splits)
    then have "J s = k" "tag (J s) = s" using J Jk by force+
    then show ?thesis using s True by simp
  next
    case False
    then have "\<not> w_valid (?cs ! c)" if "c < n" for c using J that assms(2) by force
    then show ?thesis using r False by (auto split: option.splits)
  qed
qed

lemma FindLargest_behind:
  assumes "behind_of (children m) k" and "k \<le> length tes" and "m_comparator m = cmp" and "length (children m) = n"
  shows "current (FindLargest m) = (if 0 < k then Some (tag (k - 1)) else None)"
proof -
  let ?cs = "children m"
  have w: "wat c (?cs ! c) (if pos c k = 0 then length (own c) else pos c k - 1)" if "c < n" for c
    using assms(1) that by (simp add: behind_of_def)
  have v: "w_valid (?cs ! c) \<longleftrightarrow> 0 < pos c k" if "c < n" for c
    using wat_valid [OF that w [OF that]] pos_le [of c k] by (auto split: if_splits)
  have "\<exists>j. w_valid (?cs ! c) \<longrightarrow> j < k \<and> tag j = c \<and> pos c j = pos c k - 1 \<and> w_key (?cs ! c) = fst (es ! j)" if c: "c < n" for c
  proof (cases "w_valid (?cs ! c)")
    case True
    then have p: "0 < pos c k" using v c by blast
    then obtain j where j: "j < k" "tag j = c" "pos c j = pos c k - 1" using own_index [of "pos c k - 1" c k] assms(2) by auto
    have p1: "pos c k - 1 < length (own c)" using p pos_le [of c k] by linarith
    have "wat c (?cs ! c) (pos c k - 1)" using w [OF c] p by simp
    from wat_entry [OF c this p1] have "w_key (?cs ! c) = fst (own c ! (pos c k - 1))" by (metis fst_conv)
    moreover have "own c ! (pos c k - 1) = es ! j" using own_entry(2) [of j] j assms(2) by simp
    ultimately show ?thesis using j by metis
  qed blast
  then obtain J where J: "\<forall>c<n. w_valid (?cs ! c) \<longrightarrow> J c < k \<and> tag (J c) = c \<and> pos c (J c) = pos c k - 1 \<and>
      w_key (?cs ! c) = fst (es ! J c)" by metis
  have cur: "current (FindLargest m) = fold (larger_child (m_comparator m) ?cs) (rev [0..<length ?cs]) None" by (simp add: FindLargest_def)
  have r: "case current (FindLargest m) of None \<Rightarrow> \<forall>c<n. \<not> w_valid (?cs ! c)
    | Some s \<Rightarrow> s < n \<and> w_valid (?cs ! s) \<and> (\<forall>c<n. w_valid (?cs ! c) \<longrightarrow> -1 * int (J s) \<le> -1 * int (J c))"
    unfolding cur
  proof (rule chosen [where better = "\<lambda>i s. 0 < Compare cmp (w_key (?cs ! i)) (w_key (?cs ! s))"])
    show "larger_child (m_comparator m) ?cs i r = (if w_valid (?cs ! i) then
        (case r of None \<Rightarrow> Some i | Some s \<Rightarrow> if 0 < Compare cmp (w_key (?cs ! i)) (w_key (?cs ! s)) then Some i else r) else r)" for i r
      using assms(3) by (simp add: larger_child_def)
    show "0 < Compare cmp (w_key (?cs ! c)) (w_key (?cs ! s)) \<longleftrightarrow> -1 * int j < -1 * int k"
      if "j < length tes" "k < length tes" "w_key (?cs ! c) = fst (es ! j)" "w_key (?cs ! s) = fst (es ! k)" for c s j k
      using behind [OF that(1,2)] that by (simp add: es_def)
  qed (use J assms(2,4) in auto)
  show ?thesis
  proof (cases "0 < k")
    case True
    then have k: "k - 1 < length tes" "Suc (k - 1) = k" using assms(2) by simp_all
    let ?t = "tag (k - 1)"
    have t: "?t < n" using tag_less [OF k(1)] .
    have p: "pos ?t k = Suc (pos ?t (k - 1))" using pos_Suc [OF k(1), of ?t] k(2) by simp
    then have vt: "w_valid (?cs ! ?t)" using v [OF t] by simp
    have Jk: "J ?t = k - 1" using J t vt p own_index_unique [of "J ?t" "k - 1" ?t] k(1) assms(2) by force
    obtain s where s: "current (FindLargest m) = Some s" "s < n" "w_valid (?cs ! s)" "J ?t \<le> J s"
      using r t vt by (auto split: option.splits)
    then have "J s = k - 1" "tag (J s) = s" using J Jk by force+
    then show ?thesis using s True by simp
  next
    case False
    then have "\<not> w_valid (?cs ! c)" if "c < n" for c using J that by force
    then show ?thesis using r False by (auto split: option.splits)
  qed
qed

definition m_good :: "'i MergingIterator \<Rightarrow> bool" where
  "m_good = ok"

definition m_at :: "'i MergingIterator \<Rightarrow> nat \<Rightarrow> bool" where
  "m_at m k \<longleftrightarrow> ok m \<and>
     (if k < length tes
      then current m = Some (tag k) \<and>
        (case m_direction m of mForward \<Rightarrow> ahead (children m) k | mReverse \<Rightarrow> behind_of (children m) (Suc k))
      else k = length tes \<and> current m = None)"

lemma ahead_good: "ahead cs k \<Longrightarrow> c < n \<Longrightarrow> wgood c (cs ! c)"
  by (auto simp: ahead_def intro: wat_good)

lemma behind_good: "behind_of cs k \<Longrightarrow> c < n \<Longrightarrow> wgood c (cs ! c)"
  unfolding behind_of_def by (blast intro: wat_good)

lemma smallest_at:
  assumes "ahead (children m) k" and "k \<le> length tes" and "m_comparator m = cmp" and "length (children m) = n"
    and "m_direction m' = mForward" and "m' = (FindSmallest m)\<lparr>m_direction := mForward\<rparr>"
  shows "m_at m' k"
  using FindSmallest_ahead [OF assms(1-4)] assms ahead_good
  by (auto simp: m_at_def ok_def FindSmallest_def)

lemma largest_at:
  assumes "behind_of (children m) k" and "k \<le> length tes" and "m_comparator m = cmp" and "length (children m) = n"
    and "m' = (FindLargest m)\<lparr>m_direction := mReverse\<rparr>"
  shows "m_at m' (if k = 0 then length tes else k - 1)"
  using FindLargest_behind [OF assms(1-4)] assms behind_good
  by (auto simp: m_at_def ok_def FindLargest_def)

lemma seek_counts:
  assumes "tok t"
  shows "seek_index cmp (own c) t = pos c (seek_index cmp es t)"
proof -
  let ?P = "\<lambda>x. Compare cmp (fst (snd x)) t < 0" and ?Q = "\<lambda>x. fst x = c"
  define m where "m = length (takeWhile ?P tes)"
  have m: "seek_index cmp es t = m" by (simp add: seek_index_def es_def takeWhile_map o_def m_def)
  have tw: "takeWhile ?P tes = take m tes" unfolding m_def by (rule takeWhile_eq_take)
  have "\<forall>x \<in> set (drop m tes). \<not> ?P x"
  proof
    fix x assume "x \<in> set (drop m tes)"
    then obtain i where i: "i < length tes - m" "x = tes ! (m + i)" by (auto simp: in_set_conv_nth)
    define j where "j = m + i"
    have j: "m \<le> j" "j < length tes" "x = tes ! j" using i by (simp_all add: j_def)
    then have "m < length tes" by simp
    then have "\<not> ?P (tes ! m)" using nth_length_takeWhile [of ?P tes] by (simp add: m_def)
    then show "\<not> ?P x" using below [OF assms, of m j] j by (cases "m = j") auto
  qed
  then have "\<forall>x \<in> set (filter ?Q (drop m tes)). \<not> ?P x" by simp
  then have d: "takeWhile ?P (filter ?Q (drop m tes)) = []" by (cases "filter ?Q (drop m tes)") simp_all
  have "\<forall>x \<in> set (take m tes). ?P x" unfolding tw [symmetric] by (meson set_takeWhileD)
  then have "takeWhile ?P (filter ?Q (take m tes) @ filter ?Q (drop m tes)) =
      filter ?Q (take m tes) @ takeWhile ?P (filter ?Q (drop m tes))"
    by (intro takeWhile_append2) simp
  then have "takeWhile ?P (filter ?Q tes) = filter ?Q (take m tes)" unfolding d by (simp flip: filter_append)
  then show ?thesis unfolding m by (simp add: seek_index_def own_def takeWhile_map o_def pos_def)
qed

lemma seek_entry:
  assumes "k < length tes"
  shows "seek_index cmp es (fst (es ! k)) = k"
proof -
  have "takeWhile (\<lambda>e. Compare cmp (fst e) (fst (es ! k)) < 0) es = take k es"
  proof (rule takeWhile_eq_take_P_nth)
    show "Compare cmp (fst (es ! i)) (fst (es ! k)) < 0" if "i < k" "i < length es" for i
      using before [of i k] that assms by (simp add: es_def)
    show "\<not> Compare cmp (fst (es ! k)) (fst (es ! k)) < 0" using before [OF assms assms] assms by (simp add: es_def)
  qed
  then show ?thesis using assms by (simp add: seek_index_def)
qed

subsection \<open>The operations\<close>

lemma okD: "ok m \<Longrightarrow> m_comparator m = cmp" "ok m \<Longrightarrow> length (children m) = n" "ok m \<Longrightarrow> c < n \<Longrightarrow> wgood c (children m ! c)"
  by (simp_all add: ok_def)

lemma mi_first_at:
  assumes "ok m"
  shows "m_at (mi_SeekToFirst ops m) 0"
proof (rule smallest_at [where m = "m\<lparr>children := map (w_SeekToFirst ops) (children m)\<rparr>"])
  show "ahead (children (m\<lparr>children := map (w_SeekToFirst ops) (children m)\<rparr>)) 0"
    using okD [OF assms] wat_ops(1) by (simp add: ahead_def)
qed (use okD [OF assms] in \<open>simp_all add: mi_SeekToFirst_def\<close>)

lemma mi_seek_at:
  assumes "ok m" and "tok t"
  shows "m_at (mi_Seek ops m t) (seek_index cmp es t)"
proof (rule smallest_at [where m = "m\<lparr>children := map (w_Seek ops t) (children m)\<rparr>"])
  show "ahead (children (m\<lparr>children := map (w_Seek ops t) (children m)\<rparr>)) (seek_index cmp es t)"
    using okD [OF assms(1)] wat_ops(3) [OF _ _ assms(2)] by (simp add: ahead_def flip: seek_counts [OF assms(2)])
qed (use okD [OF assms(1)] seek_index_le [of cmp es t] in \<open>simp_all add: mi_Seek_def\<close>)

lemma mi_last_at:
  assumes "ok m"
  shows "m_at (mi_SeekToLast ops m) (length tes - 1)"
proof -
  have "m_at (mi_SeekToLast ops m) (if length tes = 0 then length tes else length tes - 1)"
  proof (rule largest_at [where m = "m\<lparr>children := map (w_SeekToLast ops) (children m)\<rparr>"])
    have "wat c (w_SeekToLast ops (children m ! c)) (if length (own c) = 0 then length (own c) else length (own c) - 1)" if "c < n" for c
      using wat_ops(2) [OF that okD(3) [OF assms that]] by (cases "length (own c) = 0") simp_all
    then show "behind_of (children (m\<lparr>children := map (w_SeekToLast ops) (children m)\<rparr>)) (length tes)"
      using okD(2) [OF assms] unfolding behind_of_def pos_all by simp
  qed (use okD [OF assms] in \<open>simp_all add: mi_SeekToLast_def\<close>)
  then show ?thesis by (simp split: if_splits)
qed

lemma at_current:
  assumes "m_at m k" and "k < length tes"
  shows "ok m" "current m = Some (tag k)" "tag k < n" "wat (tag k) (children m ! tag k) (pos (tag k) k)"
    "mi_key m = fst (es ! k)" "mi_value ops m = snd (es ! k)"
proof -
  have m: "ok m" "current m = Some (tag k)"
    "case m_direction m of mForward \<Rightarrow> ahead (children m) k | mReverse \<Rightarrow> behind_of (children m) (Suc k)"
    using assms by (simp_all add: m_at_def)
  note t = tag_less [OF assms(2)]
  have w: "wat (tag k) (children m ! tag k) (pos (tag k) k)"
  proof (cases "m_direction m")
    case mForward
    then show ?thesis using m(3) t by (simp add: ahead_def)
  next
    case mReverse
    then have "behind_of (children m) (Suc k)" using m(3) by simp
    then show ?thesis using t pos_Suc [OF assms(2), of "tag k"] unfolding behind_of_def by fastforce
  qed
  show "ok m" "current m = Some (tag k)" "tag k < n" "wat (tag k) (children m ! tag k) (pos (tag k) k)" using m t w by simp_all
  have "(w_key (children m ! tag k), w_value ops (children m ! tag k)) = es ! k"
    using wat_entry [OF t w] own_entry [OF assms(2)] by simp
  then show "mi_key m = fst (es ! k)" "mi_value ops m = snd (es ! k)"
    unfolding mi_key_def mi_value_def m(2) option.sel by (metis fst_conv, metis snd_conv)
qed

lemma others_nth: "c < length (children m) \<Longrightarrow> others f m ! c = (if current m = Some c then children m ! c else f (children m ! c))"
  by (auto simp: others_def)

lemma others_length [simp]: "length (others f m) = length (children m)"
  by (simp add: others_def)

lemma mi_Next_at:
  assumes "m_at m k" and "k < length tes"
  shows "m_at (mi_Next ops m) (Suc k)"
proof -
  note cur = at_current [OF assms]
  let ?t = "tag k"
  define cs where "cs = (if m_direction m \<noteq> mForward then others (position_after ops (m_comparator m) (mi_key m)) m else children m)"
  have len: "length cs = n" using okD(2) [OF cur(1)] by (simp add: cs_def)
  have tok: "tok (fst (es ! k))" using keys [of "tes ! k"] assms(2) by (simp add: es_def)
  have w: "wat c (cs ! c) (pos c k)" if c: "c < n" for c
  proof (cases "m_direction m = mForward")
    case True
    then have "ahead (children m) k" using assms by (simp add: m_at_def)
    then show ?thesis using True c by (simp add: cs_def ahead_def)
  next
    case False
    show ?thesis
    proof (cases "c = ?t")
      case True
      then show ?thesis using False cur(2,4) c okD(2) [OF cur(1)] by (simp add: cs_def others_nth)
    next
      case other: False
      let ?w = "w_Seek ops (fst (es ! k)) (children m ! c)"
      have sw: "wat c ?w (pos c k)"
        using wat_ops(3) [OF c okD(3) [OF cur(1) c] tok] seek_counts [OF tok, of c] seek_entry [OF assms(2)] by simp
      have "\<not> (w_valid ?w \<and> Compare cmp (fst (es ! k)) (w_key ?w) = 0)"
      proof
        assume v: "w_valid ?w \<and> Compare cmp (fst (es ! k)) (w_key ?w) = 0"
        then have p: "pos c k < length (own c)" using wat_valid [OF c sw] by blast
        then obtain j where j: "j < length tes" "tag j = c" "pos c j = pos c k" using own_index [of "pos c k" c "length tes"] by auto
        have "w_key ?w = fst (own c ! pos c k)" using wat_entry [OF c sw p] by (metis fst_conv)
        then have key: "w_key ?w = fst (es ! j)" using own_entry(2) [OF j(1)] j(2,3) by simp
        have "j \<noteq> k" using j(2) other by auto
        then show False using before [OF assms(2) j(1)] behind [OF assms(2) j(1)] v assms(2) j(1) unfolding key by (auto simp: es_def)
      qed
      then have "position_after ops cmp (fst (es ! k)) (children m ! c) = ?w" by (auto simp: position_after_def Let_def)
      then show ?thesis using False other cur(2,5) c okD(1,2) [OF cur(1)] sw by (simp add: cs_def others_nth)
    qed
  qed
  let ?cs = "cs[?t := w_Next ops (cs ! ?t)]"
  have "wat c (?cs ! c) (pos c (Suc k))" if c: "c < n" for c
  proof (cases "c = ?t")
    case True
    then show ?thesis using wat_ops(4) [OF c w [OF c]] own_entry(1) [OF assms(2)] pos_Suc [OF assms(2), of c] len c by simp
  next
    case False
    then show ?thesis using w [OF c] pos_Suc [OF assms(2), of c] by simp
  qed
  then have ah: "ahead ?cs (Suc k)" by (simp add: ahead_def)
  let ?m = "m\<lparr>children := cs, m_direction := mForward\<rparr>"
  have dir: "?m = (if m_direction m \<noteq> mForward
      then m\<lparr>children := others (position_after ops (m_comparator m) (mi_key m)) m, m_direction := mForward\<rparr> else m)"
    by (cases "m_direction m"; cases m) (simp_all add: cs_def)
  have N: "mi_Next ops m = FindSmallest (?m\<lparr>children := ?cs\<rparr>)"
    unfolding mi_Next_def dir [symmetric] Let_def using cur(2) by simp
  show ?thesis
    by (rule smallest_at [where m = "?m\<lparr>children := ?cs\<rparr>"])
      (use ah len assms(2) okD(1) [OF cur(1)] in \<open>simp_all add: N FindSmallest_def\<close>)
qed

lemma mi_Prev_at:
  assumes "m_at m k" and "k < length tes"
  shows "m_at (mi_Prev ops m) (if k = 0 then length tes else k - 1)"
proof -
  note cur = at_current [OF assms]
  let ?t = "tag k"
  define cs where "cs = (if m_direction m \<noteq> mReverse then others (position_before ops (mi_key m)) m else children m)"
  have len: "length cs = n" using okD(2) [OF cur(1)] by (simp add: cs_def)
  have tok: "tok (fst (es ! k))" using keys [of "tes ! k"] assms(2) by (simp add: es_def)
  have wt: "wat ?t (cs ! ?t) (pos ?t k)"
    using cur(2,3,4) okD(2) [OF cur(1)] by (auto simp: cs_def others_nth)
  have w: "wat c (cs ! c) (if pos c k = 0 then length (own c) else pos c k - 1)" if c: "c < n" and other: "c \<noteq> ?t" for c
  proof (cases "m_direction m = mReverse")
    case True
    then have "behind_of (children m) (Suc k)" using assms by (simp add: m_at_def)
    then show ?thesis using True c other pos_Suc [OF assms(2), of c] unfolding behind_of_def by (auto simp: cs_def)
  next
    case False
    let ?w = "w_Seek ops (fst (es ! k)) (children m ! c)"
    have sw: "wat c ?w (pos c k)"
      using wat_ops(3) [OF c okD(3) [OF cur(1) c] tok] seek_counts [OF tok, of c] seek_entry [OF assms(2)] by simp
    have pb: "wat c (position_before ops (fst (es ! k)) (children m ! c)) (if pos c k = 0 then length (own c) else pos c k - 1)"
    proof (cases "w_valid ?w")
      case True
      then have "pos c k < length (own c)" using wat_valid [OF c sw] by blast
      from wat_ops(5) [OF c sw this] True show ?thesis by (simp add: position_before_def)
    next
      case nv: False
      then have p: "pos c k = length (own c)" using wat_valid [OF c sw] wat_bound [OF c sw] by simp
      from wat_ops(2) [OF c wat_good [OF c sw]]
      have "wat c (position_before ops (fst (es ! k)) (children m ! c)) (length (own c) - 1)" using nv by (simp add: position_before_def)
      then show ?thesis unfolding p by (cases "length (own c) = 0") simp_all
    qed
    then show ?thesis using False other cur(2,5) c okD(2) [OF cur(1)] by (simp add: cs_def others_nth)
  qed
  let ?cs = "cs[?t := w_Prev ops (cs ! ?t)]"
  have "wat c (?cs ! c) (if pos c k = 0 then length (own c) else pos c k - 1)" if c: "c < n" for c
  proof (cases "c = ?t")
    case True
    have "?cs ! c = w_Prev ops (cs ! ?t)" using True len c by simp
    then show ?thesis using wat_ops(5) [OF cur(3) wt own_entry(1) [OF assms(2)]] unfolding True by presburger
  next
    case False
    then show ?thesis using w [OF c False] by simp
  qed
  then have be: "behind_of ?cs k" by (simp add: behind_of_def)
  let ?m = "m\<lparr>children := cs, m_direction := mReverse\<rparr>"
  have dir: "?m = (if m_direction m \<noteq> mReverse
      then m\<lparr>children := others (position_before ops (mi_key m)) m, m_direction := mReverse\<rparr> else m)"
    by (cases "m_direction m"; cases m) (simp_all add: cs_def)
  have P: "mi_Prev ops m = FindLargest (?m\<lparr>children := ?cs\<rparr>)"
    unfolding mi_Prev_def dir [symmetric] Let_def using cur(2) by simp
  show ?thesis
    by (rule largest_at [where m = "?m\<lparr>children := ?cs\<rparr>"])
      (use be len assms(2) okD(1) [OF cur(1)] in \<open>simp_all add: P FindLargest_def\<close>)
qed

lemma mi_status_ok:
  assumes "ok m"
  shows "status_ok (mi_status ops m)"
proof -
  have "\<forall>s \<in> set (map (w_status ops) (children m)). status_ok s"
    using okD(2,3) [OF assms] wgood_status by (auto simp: in_set_conv_nth)
  moreover have "\<forall>s \<in> set ss. status_ok s \<Longrightarrow> status_ok s0 \<Longrightarrow> status_ok (first_error ss s0)" for ss s0
    by (induction ss s0 rule: first_error.induct) simp_all
  ultimately show ?thesis by (simp add: mi_status_def)
qed

lemma new_good:
  assumes "length cs = n" and "\<forall>c<n. good c (cs ! c)"
  shows "m_good (new_MergingIterator ops cmp cs)"
  using assms wgood_Set by (simp add: m_good_def ok_def new_MergingIterator_def)

lemma mi_keeps_contract:
  "entry_iterator (merging_Iterator ops) cmp es m_at m_good tok"
proof unfold_locales
  fix m k t
  show "m_at m k \<Longrightarrow> m_good m" by (simp add: m_at_def m_good_def)
  show "m_at m k \<Longrightarrow> k \<le> length es" by (auto simp: m_at_def split: if_splits)
  show "m_at m k \<Longrightarrow> it_Valid (merging_Iterator ops) m \<longleftrightarrow> k < length es" by (auto simp: m_at_def merging_Iterator_def split: if_splits)
  show "m_at m k \<Longrightarrow> k < length es \<Longrightarrow> (it_key (merging_Iterator ops) m, it_value (merging_Iterator ops) m) = es ! k"
    using at_current(5,6) by (simp add: merging_Iterator_def)
  show "m_good m \<Longrightarrow> status_ok (it_status (merging_Iterator ops) m)" using mi_status_ok by (simp add: m_good_def merging_Iterator_def)
  show "m_good m \<Longrightarrow> m_at (it_SeekToFirst (merging_Iterator ops) m) 0" using mi_first_at by (simp add: m_good_def merging_Iterator_def)
  show "m_good m \<Longrightarrow> m_at (it_SeekToLast (merging_Iterator ops) m) (length es - 1)" using mi_last_at by (simp add: m_good_def merging_Iterator_def)
  show "m_good m \<Longrightarrow> tok t \<Longrightarrow> m_at (it_Seek (merging_Iterator ops) m t) (seek_index cmp es t)"
    using mi_seek_at by (simp add: m_good_def merging_Iterator_def)
  show "m_at m k \<Longrightarrow> k < length es \<Longrightarrow> m_at (it_Next (merging_Iterator ops) m) (Suc k)"
    using mi_Next_at by (simp add: merging_Iterator_def)
  show "m_at m k \<Longrightarrow> k < length es \<Longrightarrow> m_at (it_Prev (merging_Iterator ops) m) (if k = 0 then length es else k - 1)"
    using mi_Prev_at [of m k] by (cases "k = 0") (simp_all add: merging_Iterator_def)
qed

end

sublocale merging \<subseteq> merged: entry_iterator "merging_Iterator ops" cmp es m_at m_good tok
  by (rule mi_keeps_contract)

end
