(* ===== verification/Ldb_DbIter_Facts.thy ===== *)
theory Ldb_DbIter_Facts
  imports Ldb_DbIter
begin

text \<open>
  The iterator of the database over any internal iterator that keeps the contract of an iterator: it
  keeps the contract itself, for the entries a snapshot shows.
\<close>

section \<open>The entries a snapshot shows\<close>

text \<open>\<open>vs\<close> are the versions the internal iterator runs over, in the order of their internal keys.\<close>

locale db_view = user_comparator cmp valid + ii: entry_iterator ops "InternalKeyComparator cmp" es at good tok
  for cmp :: Comparator and valid :: "slice \<Rightarrow> bool" and ops :: "'i Iterator" and es :: entries
    and at :: "'i \<Rightarrow> nat \<Rightarrow> bool" and good :: "'i \<Rightarrow> bool" and tok :: "slice \<Rightarrow> bool" +
  fixes vs :: "(ParsedInternalKey \<times> slice) list" and snap :: SequenceNumber and utok :: "slice \<Rightarrow> bool"
  assumes entries: "es = map (\<lambda>q. (AppendInternalKey [] (fst q), snd q)) vs"
    and versions: "q \<in> set vs \<Longrightarrow> valid (user_key (fst q)) \<and> sequence (fst q) \<le> kMaxSequenceNumber"
    and ordered: "i < j \<Longrightarrow> j < length vs \<Longrightarrow> less (user_key (fst (vs ! i))) (user_key (fst (vs ! j))) \<or>
      user_key (fst (vs ! i)) = user_key (fst (vs ! j)) \<and> sequence (fst (vs ! j)) < sequence (fst (vs ! i))"
    and snapshot: "snap \<le> kMaxSequenceNumber"
    and targets: "utok t \<Longrightarrow> valid t \<and> tok (AppendInternalKey [] \<lparr>user_key = t, sequence = snap, value_type = kTypeValue\<rparr>)"
begin

definition uk :: "nat \<Rightarrow> slice" where
  "uk j = user_key (fst (vs ! j))"

definition vis :: "nat \<Rightarrow> bool" where
  "vis j \<longleftrightarrow> sequence (fst (vs ! j)) \<le> snap"

text \<open>The newest version of its user key that the snapshot sees, and not a deletion.\<close>

definition shown :: "nat \<Rightarrow> bool" where
  "shown j \<longleftrightarrow> j < length vs \<and> vis j \<and> value_type (fst (vs ! j)) = kTypeValue \<and> (\<forall>i<j. uk i = uk j \<longrightarrow> \<not> vis i)"

definition view :: entries where
  "view = map (\<lambda>j. (uk j, snd (vs ! j))) (filter shown [0..<length vs])"

definition rank :: "nat \<Rightarrow> nat" where
  "rank k = length (filter shown [0..<k])"

lemma rank_Suc: "rank (Suc k) = rank k + (if shown k then 1 else 0)"
  by (simp add: rank_def)

lemma rank_mono: "i \<le> j \<Longrightarrow> rank i \<le> rank j"
  by (induction rule: dec_induct) (simp_all add: rank_Suc)

lemma rank_flat: "i \<le> j \<Longrightarrow> \<forall>k. i \<le> k \<and> k < j \<longrightarrow> \<not> shown k \<Longrightarrow> rank j = rank i"
  by (induction rule: dec_induct) (auto simp: rank_Suc)

lemma length_view: "length view = rank (length vs)"
  by (simp add: view_def rank_def)

lemma view_empty: "length vs = 0 \<Longrightarrow> length view = 0"
proof -
  assume l: "length vs = 0"
  have "rank 0 = 0" by (simp add: rank_def)
  then show ?thesis unfolding length_view l .
qed

lemma rank_less: "shown k \<Longrightarrow> rank k < length view"
  using rank_mono [of "Suc k" "length vs"] by (simp add: length_view rank_Suc shown_def [of k])

lemma rank_next: "shown k \<Longrightarrow> k < j \<Longrightarrow> \<forall>i. k < i \<and> i < j \<longrightarrow> \<not> shown i \<Longrightarrow> rank j = Suc (rank k)"
  using rank_flat [of "Suc k" j] by (auto simp: rank_Suc)

lemma rank_inj: "shown i \<Longrightarrow> shown j \<Longrightarrow> rank i = rank j \<Longrightarrow> i = j"
  using rank_mono [of "Suc i" j] rank_mono [of "Suc j" i] by (cases i j rule: linorder_cases) (auto simp: rank_Suc)

lemma rank_surj: "m < rank n \<Longrightarrow> \<exists>k<n. shown k \<and> rank k = m"
proof (induction n)
  case (Suc n)
  then show ?case by (cases "m = rank n") (auto simp: rank_Suc less_Suc_eq split: if_splits)
qed (simp add: rank_def)

lemma view_rank:
  assumes "shown k"
  shows "view ! rank k = (uk k, snd (vs ! k))"
proof -
  have k: "k < length vs" using assms by (simp add: shown_def)
  then have "[0..<length vs] = [0..<k] @ k # [Suc k..<length vs]"
    by (metis le_add_diff_inverse less_imp_le upt_add_eq_append upt_conv_Cons zero_le)
  then have f: "filter shown [0..<length vs] = filter shown [0..<k] @ k # filter shown [Suc k..<length vs]" using assms by simp
  have "filter shown [0..<length vs] ! rank k = k" unfolding f rank_def by simp
  then show ?thesis using rank_less [OF assms] by (simp add: view_def)
qed

lemma es_length [simp]: "length es = length vs"
  by (simp add: entries)

lemma uk_valid: "j < length vs \<Longrightarrow> valid (uk j)"
  using versions [of "vs ! j"] by (simp add: uk_def)

lemma seq_max: "j < length vs \<Longrightarrow> sequence (fst (vs ! j)) \<le> kMaxSequenceNumber"
  using versions [of "vs ! j"] by simp

lemma uk_mono: "i \<le> j \<Longrightarrow> j < length vs \<Longrightarrow> less (uk i) (uk j) \<or> uk i = uk j"
  using ordered [of i j] by (cases "i = j") (auto simp: uk_def)

lemma uk_not_below: "i \<le> j \<Longrightarrow> j < length vs \<Longrightarrow> \<not> less (uk j) (uk i)"
proof -
  assume "i \<le> j" "j < length vs"
  then have "valid (uk i)" "valid (uk j)" "less (uk i) (uk j) \<or> uk i = uk j" using uk_valid uk_mono by simp_all
  then show ?thesis using less_asym less_irrefl by metis
qed

lemma uk_between:
  assumes "i \<le> j" and "j \<le> k" and "k < length vs" and "uk i = uk k"
  shows "uk j = uk k"
proof (rule ccontr)
  assume "uk j \<noteq> uk k"
  then have "less (uk j) (uk k)" using uk_mono [OF assms(2,3)] by blast
  then show False using uk_not_below [of i j] assms by auto
qed

lemma none_newer: "shown k \<Longrightarrow> j < k \<Longrightarrow> uk j = uk k \<Longrightarrow> \<not> vis j"
  by (auto simp: shown_def)

section \<open>Reading an entry\<close>

definition clean :: "'i DBIter \<Rightarrow> bool" where
  "clean di \<longleftrightarrow> good_seed (di_rnd di) \<and> di_sequence di = snap \<and> status_ok (di_status di)"

lemma at_key:
  assumes "at it j" and "j < length vs"
  shows "it_key ops it = AppendInternalKey [] (fst (vs ! j))" "it_value ops it = snd (vs ! j)"
  using ii.at_entry [OF assms(1)] assms(2) by (simp_all add: entries)

lemma user_key_at: "at it j \<Longrightarrow> j < length vs \<Longrightarrow> ExtractUserKey (it_key ops it) = uk j"
  by (simp add: at_key AppendInternalKey_def ExtractUserKey_Put uk_def)

lemma ParseKey_at:
  assumes "at (di_iter di) j" and "j < length vs" and "clean di"
  shows "\<exists>di'. ParseKey ops di = Some (Some (fst (vs ! j)), di') \<and> sampled di di' \<and> clean di'"
proof -
  have "ParseInternalKey (it_key ops (di_iter di)) = Some (fst (vs ! j))"
    using parse_append [OF seq_max [OF assms(2)]] at_key(1) [OF assms(1,2)] by simp
  from ParseKey_returns [OF _ this] assms(3) show ?thesis by (auto simp: clean_def sampled_def)
qed

section \<open>Forwards\<close>

text \<open>The state after a search forwards: at a shown entry, or behind the last one.\<close>

definition found :: "'i DBIter \<Rightarrow> nat \<Rightarrow> bool" where
  "found di k \<longleftrightarrow> shown k \<and> at (di_iter di) k \<and> di_valid di \<and> direction di = kForward"

definition ended :: "'i DBIter \<Rightarrow> bool" where
  "ended di \<longleftrightarrow> good (di_iter di) \<and> \<not> di_valid di"

lemma find_next:
  assumes "at (di_iter di) i" and "i < length vs" and "clean di" and "direction di = kForward" and "skipping \<Longrightarrow> valid (saved_key di)"
    and "\<forall>j. i \<le> j \<and> j < length vs \<and> vis j \<and> skipping \<longrightarrow> \<not> less (uk j) (saved_key di)"
    and "\<forall>j j'. i \<le> j \<and> j < length vs \<and> vis j \<and> j' < i \<and> vis j' \<and> uk j' = uk j \<longrightarrow> skipping \<and> uk j = saved_key di"
  shows "\<exists>di'. FindNextUserEntry ops cmp skipping di = Some di' \<and> clean di' \<and>
    ((\<exists>k\<ge>i. found di' k \<and> \<not> (skipping \<and> uk k = saved_key di) \<and>
        (\<forall>j. i \<le> j \<and> j < k \<and> shown j \<longrightarrow> skipping \<and> uk j = saved_key di)) \<or>
     (ended di' \<and> (\<forall>j\<ge>i. shown j \<longrightarrow> skipping \<and> uk j = saved_key di)))"
  using assms
proof (induction "length vs - i" arbitrary: i di skipping rule: less_induct)
  case less
  note at = less.prems(1) and i = less.prems(2) and cl = less.prems(3) and dir = less.prems(4)
  obtain di1 where p: "ParseKey ops di = Some (Some (fst (vs ! i)), di1)" "sampled di di1" "clean di1"
    using ParseKey_at [OF at i cl] by blast
  note same = p(2) [unfolded sampled_def]
  have seq: "sequence (fst (vs ! i)) \<le> di_sequence di1 \<longleftrightarrow> vis i" using p(3) by (simp add: vis_def clean_def)
  have hid: "Compare cmp (uk i) (saved_key di) \<le> 0 \<longleftrightarrow> uk i = saved_key di" if "skipping" "vis i"
  proof -
    have "\<not> less (uk i) (saved_key di)" using less.prems(6) i that by blast
    then show ?thesis using le_iff [OF uk_valid [OF i] less.prems(5) [OF that(1)]] by blast
  qed
  define n where "n = next_entry cmp skipping (Some (fst (vs ! i))) di1"
  have step: "n = (if vis i then
      (case value_type (fst (vs ! i)) of kTypeDeletion \<Rightarrow> (False, True, di1\<lparr>saved_key := uk i\<rparr>)
       | kTypeValue \<Rightarrow> if skipping \<and> uk i = saved_key di then (False, skipping, di1) else (True, skipping, di1))
      else (False, skipping, di1))"
    using hid seq same by (auto simp: n_def next_entry_def uk_def split: ValueType.splits)
  have go_on: "\<exists>di'. FindNextUserEntry ops cmp skipping di = Some di' \<and> clean di' \<and>
      ((\<exists>k\<ge>i. found di' k \<and> \<not> (skipping \<and> uk k = saved_key di) \<and>
          (\<forall>j. i \<le> j \<and> j < k \<and> shown j \<longrightarrow> skipping \<and> uk j = saved_key di)) \<or>
       (ended di' \<and> (\<forall>j\<ge>i. shown j \<longrightarrow> skipping \<and> uk j = saved_key di)))"
    if turn: "n = (False, skip2, di2)" and di2: "di_iter di2 = di_iter di" "clean di2" "direction di2 = kForward"
      and ok: "skip2 \<Longrightarrow> valid (saved_key di2)"
      and bel: "\<forall>j. Suc i \<le> j \<and> j < length vs \<and> vis j \<and> skip2 \<longrightarrow> \<not> less (uk j) (saved_key di2)"
      and cov: "\<forall>j j'. Suc i \<le> j \<and> j < length vs \<and> vis j \<and> j' < Suc i \<and> vis j' \<and> uk j' = uk j \<longrightarrow> skip2 \<and> uk j = saved_key di2"
      and here: "shown i \<Longrightarrow> skipping \<and> uk i = saved_key di"
      and eq: "\<forall>j. i < j \<and> shown j \<longrightarrow> (skip2 \<and> uk j = saved_key di2 \<longleftrightarrow> skipping \<and> uk j = saved_key di)"
    for skip2 di2
  proof -
    let ?di = "di2\<lparr>di_iter := it_Next ops (di_iter di2)\<rparr>"
    have at': "at (di_iter ?di) (Suc i)" using ii.at_next [OF at] i di2(1) by simp
    have unf: "FindNextUserEntry ops cmp skipping di =
        (if it_Valid ops (di_iter ?di) then FindNextUserEntry ops cmp skip2 ?di
         else Some (?di\<lparr>saved_key := [], di_valid := False\<rparr>))"
      using p(1) turn by (subst FindNextUserEntry.simps) (simp add: n_def Let_def)
    have here': "\<forall>j\<ge>i. shown j \<longrightarrow> skipping \<and> uk j = saved_key di" if "\<forall>j>i. shown j \<longrightarrow> skipping \<and> uk j = saved_key di"
      using that here by (metis le_eq_less_or_eq)
    show ?thesis
    proof (cases "Suc i < length vs")
      case True
      then have v: "it_Valid ops (di_iter ?di)" using ii.at_valid [OF at'] by simp
      have "\<exists>di'. FindNextUserEntry ops cmp skip2 ?di = Some di' \<and> clean di' \<and>
        ((\<exists>k\<ge>Suc i. found di' k \<and> \<not> (skip2 \<and> uk k = saved_key ?di) \<and>
            (\<forall>j. Suc i \<le> j \<and> j < k \<and> shown j \<longrightarrow> skip2 \<and> uk j = saved_key ?di)) \<or>
         (ended di' \<and> (\<forall>j\<ge>Suc i. shown j \<longrightarrow> skip2 \<and> uk j = saved_key ?di)))"
        by (rule less.hyps [OF _ at' True]) (use i di2 ok bel cov in \<open>auto simp: clean_def\<close>)
      then obtain di' where d: "FindNextUserEntry ops cmp skipping di = Some di'" "clean di'"
        and r: "(\<exists>k\<ge>Suc i. found di' k \<and> \<not> (skip2 \<and> uk k = saved_key di2) \<and>
            (\<forall>j. Suc i \<le> j \<and> j < k \<and> shown j \<longrightarrow> skip2 \<and> uk j = saved_key di2)) \<or>
         (ended di' \<and> (\<forall>j\<ge>Suc i. shown j \<longrightarrow> skip2 \<and> uk j = saved_key di2))"
        unfolding unf using v by auto
      from r show ?thesis
      proof
        assume "\<exists>k\<ge>Suc i. found di' k \<and> \<not> (skip2 \<and> uk k = saved_key di2) \<and>
            (\<forall>j. Suc i \<le> j \<and> j < k \<and> shown j \<longrightarrow> skip2 \<and> uk j = saved_key di2)"
        then obtain k where k: "Suc i \<le> k" "found di' k" "\<not> (skip2 \<and> uk k = saved_key di2)"
          "\<forall>j. Suc i \<le> j \<and> j < k \<and> shown j \<longrightarrow> skip2 \<and> uk j = saved_key di2" by blast
        have "shown k" using k(2) by (simp add: found_def)
        then have "\<not> (skipping \<and> uk k = saved_key di)" using eq k(1,3) by (metis Suc_le_lessD)
        moreover have "\<forall>j. i \<le> j \<and> j < k \<and> shown j \<longrightarrow> skipping \<and> uk j = saved_key di"
          using k(4) eq here by (metis Suc_leI le_eq_less_or_eq Suc_le_lessD)
        ultimately show ?thesis using d k(1,2) by (metis Suc_leD)
      next
        assume "ended di' \<and> (\<forall>j\<ge>Suc i. shown j \<longrightarrow> skip2 \<and> uk j = saved_key di2)"
        then show ?thesis using d here' eq by (metis Suc_le_lessD Suc_leI)
      qed
    next
      case False
      then have "\<not> it_Valid ops (di_iter ?di)" using ii.at_valid [OF at'] by simp
      moreover have "\<forall>j>i. \<not> shown j" using False by (auto simp: shown_def)
      ultimately show ?thesis
        using here' ii.at_good [OF at'] di2(2) unfolding unf by (auto simp: ended_def clean_def)
    qed
  qed
  have cov: "skipping \<and> uk j = saved_key di" if "Suc i \<le> j" "j < length vs" "vis j" "j' < i" "vis j'" "uk j' = uk j" for j j'
    using less.prems(7) that by (meson Suc_leD)
  show ?case
  proof (cases "vis i")
    case False
    show ?thesis
      by (rule go_on [of skipping di1])
        (use False step same p(3) dir less.prems(5,6) cov in \<open>auto simp: shown_def less_Suc_eq\<close>)
  next
    case vis: True
    show ?thesis
    proof (cases "value_type (fst (vs ! i))")
      case del: kTypeDeletion
      have later: "uk j = uk i" if "i < j" "j < length vs" "j' < Suc i" "uk j' = uk j" for j j'
        using uk_between [of j' i j] that by simp
      show ?thesis
      proof (rule go_on [of True "di1\<lparr>saved_key := uk i\<rparr>"])
        show "n = (False, True, di1\<lparr>saved_key := uk i\<rparr>)" using step vis del by simp
        show "\<forall>j. Suc i \<le> j \<and> j < length vs \<and> vis j \<and> True \<longrightarrow> \<not> less (uk j) (saved_key (di1\<lparr>saved_key := uk i\<rparr>))"
          using uk_not_below by simp
        show "\<forall>j. i < j \<and> shown j \<longrightarrow> (True \<and> uk j = saved_key (di1\<lparr>saved_key := uk i\<rparr>) \<longleftrightarrow> skipping \<and> uk j = saved_key di)"
        proof (intro allI impI)
          fix j assume j: "i < j \<and> shown j"
          then have "uk j \<noteq> uk i" using none_newer vis by metis
          have jl: "j < length vs" "vis j" using j by (simp_all add: shown_def)
          have "\<not> (skipping \<and> uk j = saved_key di)"
          proof
            assume s: "skipping \<and> uk j = saved_key di"
            then have "\<not> less (uk i) (uk j)" using less.prems(6) i vis by auto
            then show False using uk_mono [of i j] j jl \<open>uk j \<noteq> uk i\<close> by auto
          qed
          then show "True \<and> uk j = saved_key (di1\<lparr>saved_key := uk i\<rparr>) \<longleftrightarrow> skipping \<and> uk j = saved_key di"
            using \<open>uk j \<noteq> uk i\<close> by simp
        qed
      qed (use same p(3) dir del later uk_valid [OF i] in \<open>auto simp: clean_def shown_def\<close>)
    next
      case val: kTypeValue
      show ?thesis
      proof (cases "skipping \<and> uk i = saved_key di")
        case True
        show ?thesis
          by (rule go_on [of skipping di1]) (use True step vis val same p(3) dir less.prems(5,6) cov in \<open>auto simp: less_Suc_eq\<close>)
      next
        case False
        have "\<not> vis j" if "j < i" "uk j = uk i" for j using less.prems(7) that False i vis by blast
        then have "shown i" using i vis val by (simp add: shown_def)
        moreover have "FindNextUserEntry ops cmp skipping di = Some (di1\<lparr>di_valid := True, saved_key := []\<rparr>)"
          using p(1) step vis val False by (subst FindNextUserEntry.simps) (simp add: n_def)
        ultimately show ?thesis using False same at p(3) dir
          by (intro exI [of _ "di1\<lparr>di_valid := True, saved_key := []\<rparr>"])
            (auto simp: found_def clean_def intro!: exI [of _ i])
      qed
    qed
  qed
qed

section \<open>Backwards\<close>

text \<open>The internal iterator is before all entries the snapshot sees of the key of entry \<open>k\<close>.\<close>

definition before :: "nat \<Rightarrow> nat \<Rightarrow> bool" where
  "before p k \<longleftrightarrow> (p = length vs \<or> less (uk p) (uk k)) \<and>
     (\<forall>j. (p = length vs \<or> p < j) \<and> j < length vs \<and> vis j \<longrightarrow> \<not> less (uk j) (uk k))"

definition saved :: "'i DBIter \<Rightarrow> nat \<Rightarrow> bool" where
  "saved di k \<longleftrightarrow> saved_key di = uk k \<and> saved_value di = snd (vs ! k) \<and> (\<exists>p. at (di_iter di) p \<and> before p k)"

text \<open>Between entry \<open>i\<close>, which is the next, and \<open>p0\<close>, where the scan began.\<close>

definition scanned :: "nat \<Rightarrow> nat \<Rightarrow> ValueType \<Rightarrow> 'i DBIter \<Rightarrow> bool" where
  "scanned i p0 t di \<longleftrightarrow>
     (case t of
        kTypeDeletion \<Rightarrow> \<forall>j. i \<le> j \<and> j \<le> p0 \<longrightarrow> \<not> shown j
      | kTypeValue \<Rightarrow> \<exists>v. i \<le> v \<and> v \<le> p0 \<and> vis v \<and> value_type (fst (vs ! v)) = kTypeValue \<and>
          saved_key di = uk v \<and> saved_value di = snd (vs ! v) \<and>
          (\<forall>j. i \<le> j \<and> j < v \<longrightarrow> \<not> vis j) \<and> (\<forall>j. i \<le> j \<and> j \<le> p0 \<and> shown j \<longrightarrow> j = v))"

lemma scanned_stays: "scanned (Suc i) p0 t di \<Longrightarrow> \<not> vis i \<Longrightarrow> saved_key di' = saved_key di \<Longrightarrow> saved_value di' = saved_value di \<Longrightarrow>
    scanned i p0 t di'"
proof (cases t)
  case kTypeDeletion
  assume "scanned (Suc i) p0 t di" "\<not> vis i"
  then show ?thesis using kTypeDeletion by (auto simp: scanned_def shown_def not_less_eq_eq le_eq_less_or_eq [of i])
next
  case kTypeValue
  assume s: "scanned (Suc i) p0 t di" and n: "\<not> vis i" and "saved_key di' = saved_key di" "saved_value di' = saved_value di"
  then obtain v where v: "Suc i \<le> v" "v \<le> p0" "vis v" "value_type (fst (vs ! v)) = kTypeValue" "saved_key di' = uk v"
    "saved_value di' = snd (vs ! v)" "\<forall>j. Suc i \<le> j \<and> j < v \<longrightarrow> \<not> vis j" "\<forall>j. Suc i \<le> j \<and> j \<le> p0 \<and> shown j \<longrightarrow> j = v"
    using kTypeValue by (auto simp: scanned_def)
  have "\<forall>j. i \<le> j \<and> j < v \<longrightarrow> \<not> vis j" using v(7) n by (metis Suc_leI le_eq_less_or_eq)
  moreover have "\<forall>j. i \<le> j \<and> j \<le> p0 \<and> shown j \<longrightarrow> j = v" using v(8) n by (metis Suc_leI le_eq_less_or_eq shown_def)
  ultimately show ?thesis using kTypeValue v(1-6) by (auto simp: scanned_def intro!: exI [of _ v])
qed

text \<open>The group of a key is left, or the entries are used up: what the scan saved is a shown entry.\<close>

lemma scanned_value:
  assumes "scanned i p0 kTypeValue di" and "p0 < length vs" and "\<forall>j<i. vis j \<longrightarrow> less (uk j) (saved_key di)"
  shows "\<exists>k\<le>p0. shown k \<and> i \<le> k \<and> (\<forall>j. k < j \<and> j \<le> p0 \<longrightarrow> \<not> shown j) \<and> saved_key di = uk k \<and> saved_value di = snd (vs ! k) \<and>
    (\<forall>j. i \<le> j \<and> j < length vs \<and> vis j \<longrightarrow> \<not> less (uk j) (uk k))"
proof -
  obtain v where v: "i \<le> v" "v \<le> p0" "vis v" "value_type (fst (vs ! v)) = kTypeValue" "saved_key di = uk v"
    "saved_value di = snd (vs ! v)" "\<forall>j. i \<le> j \<and> j < v \<longrightarrow> \<not> vis j" "\<forall>j. i \<le> j \<and> j \<le> p0 \<and> shown j \<longrightarrow> j = v"
    using assms(1) by (auto simp: scanned_def)
  have vl: "v < length vs" using v(2) assms(2) by simp
  have "\<not> vis j" if "j < v" "uk j = uk v" for j
  proof (cases "j < i")
    case True
    then show ?thesis using assms(3) v(5) that(2) less_irrefl [OF uk_valid [OF vl]] by auto
  next
    case False
    then show ?thesis using v(7) that(1) by simp
  qed
  then have "shown v" using v(3,4) vl unfolding shown_def by blast
  moreover have "\<not> less (uk j) (uk v)" if "i \<le> j" "j < length vs" "vis j" for j
    using that v(7) uk_not_below [of v j] by (cases "j < v") auto
  moreover have "\<not> shown j" if "v < j" "j \<le> p0" for j
    using v(1) v(8) [THEN spec [of _ j]] that by auto
  ultimately show ?thesis using v(1,2,5,6) by blast
qed

lemma find_prev:
  assumes "at (di_iter di) i" and "i \<le> p0" and "p0 < length vs" and "clean di" and "scanned (Suc i) p0 t di"
  shows "\<exists>t' di'. prev_loop ops cmp t di = Some (t', di') \<and> clean di' \<and> direction di' = direction di \<and>
    (case t' of kTypeDeletion \<Rightarrow> good (di_iter di') \<and> (\<forall>j\<le>p0. \<not> shown j)
     | kTypeValue \<Rightarrow> \<exists>k\<le>p0. shown k \<and> (\<forall>j. k < j \<and> j \<le> p0 \<longrightarrow> \<not> shown j) \<and> saved di' k)"
  using assms
proof (induction i arbitrary: di t rule: less_induct)
  case (less i)
  note at = less.prems(1) and cl = less.prems(4)
  have i: "i < length vs" using less.prems(2,3) by simp
  obtain di1 where p: "ParseKey ops di = Some (Some (fst (vs ! i)), di1)" "sampled di di1" "clean di1"
    using ParseKey_at [OF at i cl] by blast
  note same = p(2) [unfolded sampled_def]
  have at1: "at (di_iter di1) i" using at same by simp
  have seq: "sequence (fst (vs ! i)) \<le> di_sequence di1 \<longleftrightarrow> vis i" using p(3) by (simp add: vis_def clean_def)
  define n where "n = prev_entry ops cmp t (Some (fst (vs ! i))) di1"
  have unf: "prev_loop ops cmp t di = (case n of None \<Rightarrow> Some (t, di1)
      | Some (t, di) \<Rightarrow> let di = di\<lparr>di_iter := it_Prev ops (di_iter di)\<rparr> in
          if it_Valid ops (di_iter di) then prev_loop ops cmp t di else Some (t, di))"
    using p(1) by (subst prev_loop.simps) (simp add: n_def)
  have go_on: ?case
    if turn: "n = Some (t2, di2)" and di2: "di_iter di2 = di_iter di" "clean di2" "direction di2 = direction di" "scanned i p0 t2 di2" for t2 di2
  proof -
    let ?di = "di2\<lparr>di_iter := it_Prev ops (di_iter di2)\<rparr>"
    have at': "at (di_iter ?di) (if i = 0 then length vs else i - 1)" using ii.at_prev [OF at, unfolded es_length, OF i] di2(1) by simp
    have u: "prev_loop ops cmp t di = (if it_Valid ops (di_iter ?di) then prev_loop ops cmp t2 ?di else Some (t2, ?di))"
      unfolding unf turn by simp
    show ?thesis
    proof (cases i)
      case (Suc i')
      then have ai: "at (di_iter ?di) i'" and v: "it_Valid ops (di_iter ?di)" using at' ii.at_valid [OF at'] i by simp_all
      have "scanned (Suc i') p0 t2 ?di" using di2(4) Suc by (auto simp: scanned_def split: ValueType.splits)
      then have "\<exists>t' di'. prev_loop ops cmp t2 ?di = Some (t', di') \<and> clean di' \<and> direction di' = direction ?di \<and>
        (case t' of kTypeDeletion \<Rightarrow> good (di_iter di') \<and> (\<forall>j\<le>p0. \<not> shown j)
         | kTypeValue \<Rightarrow> \<exists>k\<le>p0. shown k \<and> (\<forall>j. k < j \<and> j \<le> p0 \<longrightarrow> \<not> shown j) \<and> saved di' k)"
        by (intro less.IH [OF _ ai]) (use Suc less.prems(2,3) di2(2) in \<open>auto simp: clean_def\<close>)
      then show ?thesis unfolding u using v di2(3) by simp
    next
      case 0
      then have end': "at (di_iter ?di) (length vs)" using at' by simp
      then have v: "\<not> it_Valid ops (di_iter ?di)" using ii.at_valid [OF end'] by simp
      show ?thesis
      proof (cases t2)
        case kTypeDeletion
        then show ?thesis unfolding u using v di2 0 ii.at_good [OF end'] by (auto simp: scanned_def clean_def)
      next
        case kTypeValue
        from scanned_value [OF di2(4) [unfolded kTypeValue] less.prems(3)] 0 obtain k where
          k: "k \<le> p0" "shown k" "\<forall>j. k < j \<and> j \<le> p0 \<longrightarrow> \<not> shown j" "saved_key di2 = uk k" "saved_value di2 = snd (vs ! k)"
          "\<forall>j. j < length vs \<and> vis j \<longrightarrow> \<not> less (uk j) (uk k)" by auto
        have "saved ?di k" using end' k(4-6) by (auto simp: saved_def before_def)
        then show ?thesis unfolding u using v di2 kTypeValue k(1-3) by (auto simp: clean_def)
      qed
    qed
  qed
  show ?case
  proof (cases "vis i")
    case False
    then have "n = Some (t, di1)" using seq by (simp add: n_def prev_entry_def)
    then show ?thesis by (rule go_on) (use same p(3) scanned_stays [OF less.prems(5) False] in auto)
  next
    case vis: True
    show ?thesis
    proof (cases "t \<noteq> kTypeDeletion \<and> less (uk i) (saved_key di)")
      case True
      then have tv: "t = kTypeValue" by (cases t) auto
      have n: "n = None" using True vis seq same by (simp add: n_def prev_entry_def less_def uk_def)
      have below: "less (uk j) (saved_key di)" if "j < Suc i" for j
      proof -
        obtain v where v: "v \<le> p0" "saved_key di = uk v" using less.prems(5) tv by (auto simp: scanned_def)
        then have "valid (saved_key di)" using uk_valid less.prems(3) by simp
        moreover have "less (uk j) (uk i) \<or> uk j = uk i" using uk_mono [of j i] that i by simp
        ultimately show ?thesis using True less_trans uk_valid i that by (metis less_Suc_eq_le order_le_less_trans)
      qed
      from scanned_value [OF less.prems(5) [unfolded tv] less.prems(3)] below obtain k where
        k: "k \<le> p0" "shown k" "\<forall>j. k < j \<and> j \<le> p0 \<longrightarrow> \<not> shown j" "saved_key di = uk k" "saved_value di = snd (vs ! k)"
        "\<forall>j. Suc i \<le> j \<and> j < length vs \<and> vis j \<longrightarrow> \<not> less (uk j) (uk k)" by blast
      have "before i k" using True i k(4,6) by (auto simp: before_def)
      then have "saved di1 k" using at1 k(4,5) same by (auto simp: saved_def)
      then show ?thesis unfolding unf n using tv same p(3) k(1-3) by auto
    next
      case False
      define di2 where "di2 = (if value_type (fst (vs ! i)) = kTypeDeletion then ClearSavedValue (di1\<lparr>saved_key := []\<rparr>)
        else di1\<lparr>saved_key := ExtractUserKey (it_key ops (di_iter di1)), saved_value := it_value ops (di_iter di1)\<rparr>)"
      have n: "n = Some (value_type (fst (vs ! i)), di2)"
        using False vis seq same by (auto simp: n_def prev_entry_def less_def uk_def di2_def)
      have none: "\<not> shown j" if "i < j" "j \<le> p0" for j
      proof
        assume j: "shown j"
        have jp: "Suc i \<le> j" "j \<le> p0" using that by simp_all
        then obtain v where v: "t = kTypeValue" "j = v" "saved_key di = uk v" using less.prems(5) j
          by (cases t) (auto simp: scanned_def)
        then have "uk i = uk j" using False uk_mono [of i j] that less.prems(3) by auto
        then show False using none_newer [OF j that(1)] vis by blast
      qed
      show ?thesis
      proof (rule go_on [OF n])
        show "scanned i p0 (value_type (fst (vs ! i))) di2"
        proof (cases "value_type (fst (vs ! i))")
          case kTypeDeletion
          then show ?thesis using none by (auto simp: scanned_def shown_def le_eq_less_or_eq [of i])
        next
          case kTypeValue
          then show ?thesis using none vis less.prems(2) at_key(2) [OF at1 i] user_key_at [OF at1 i]
            by (auto simp: scanned_def di2_def le_eq_less_or_eq [of i] intro!: exI [of _ i])
        qed
      qed (use same p(3) in \<open>auto simp: di2_def ClearSavedValue_def clean_def\<close>)
    qed
  qed
qed

text \<open>The loop that leaves the entries of a key.\<close>

definition same_key :: "nat \<Rightarrow> nat \<Rightarrow> bool" where
  "same_key i k \<longleftrightarrow> (\<forall>j. i \<le> j \<and> j \<le> k \<longrightarrow> uk j = uk k)"

lemma same_key_here: "same_key k k"
  by (auto simp: same_key_def)

lemma same_key_down: "same_key (Suc i) k \<Longrightarrow> uk i = uk k \<Longrightarrow> same_key i k"
  unfolding same_key_def by (metis Suc_leI le_eq_less_or_eq)

lemma same_key_hidden: "shown k \<Longrightarrow> same_key i k \<Longrightarrow> i \<le> j \<Longrightarrow> j < k \<Longrightarrow> \<not> shown j"
  using none_newer [of k j] unfolding same_key_def shown_def by (meson less_imp_le)

lemma leave_key_at:
  assumes "at (di_iter di) i" and "i \<le> k" and "k < length vs" and "clean di" and "saved_key di = uk k"
    and "same_key i k"
  shows "\<exists>r di'. leave_key ops cmp di = Some (r, di') \<and> clean di' \<and>
    (if r then \<exists>p<i. at (di_iter di') p \<and> less (uk p) (uk k) \<and> same_key (Suc p) k else ended di' \<and> same_key 0 k)"
  using assms
proof (induction i arbitrary: di rule: less_induct)
  case (less i)
  let ?di = "di\<lparr>di_iter := it_Prev ops (di_iter di)\<rparr>"
  have i: "i < length vs" using less.prems(2,3) by simp
  have at': "at (di_iter ?di) (if i = 0 then length vs else i - 1)"
    using ii.at_prev [OF less.prems(1), unfolded es_length, OF i] by simp
  show ?case
  proof (cases i)
    case 0
    then have e: "at (di_iter ?di) (length vs)" using at' by simp
    then have "\<not> it_Valid ops (di_iter ?di)" using ii.at_valid [OF e] by simp
    then have "leave_key ops cmp di = Some (False, ClearSavedValue (?di\<lparr>di_valid := False, saved_key := []\<rparr>))"
      by (subst leave_key.simps) (simp add: Let_def)
    moreover have "same_key 0 k" using less.prems(6) 0 by simp
    ultimately show ?thesis using ii.at_good [OF e] less.prems(4) by (auto simp: ended_def ClearSavedValue_def clean_def)
  next
    case (Suc i')
    then have ai: "at (di_iter ?di) i'" and v: "it_Valid ops (di_iter ?di)" using at' ii.at_valid [OF at'] i by simp_all
    have i'l: "i' < length vs" using Suc i by simp
    have c: "Compare cmp (ExtractUserKey (it_key ops (di_iter ?di))) (saved_key di) < 0 \<longleftrightarrow> less (uk i') (uk k)"
      using user_key_at [OF ai i'l] less.prems(5) by (simp add: less_def)
    show ?thesis
    proof (cases "less (uk i') (uk k)")
      case True
      then have "leave_key ops cmp di = Some (True, ?di)" using v c by (subst leave_key.simps) (simp add: Let_def)
      moreover have "same_key (Suc i') k" using less.prems(6) Suc by simp
      ultimately show ?thesis using ai Suc True less.prems(4) by (auto simp: clean_def)
    next
      case False
      then have l: "leave_key ops cmp di = leave_key ops cmp ?di" using v c by (subst leave_key.simps) (simp add: Let_def)
      have "uk i' = uk k" using False uk_mono [of i' k] Suc less.prems(2,3) by auto
      then have "same_key i' k" using same_key_down less.prems(6) Suc by simp
      then have "\<exists>r di'. leave_key ops cmp ?di = Some (r, di') \<and> clean di' \<and>
        (if r then \<exists>p<i'. at (di_iter di') p \<and> less (uk p) (uk k) \<and> same_key (Suc p) k else ended di' \<and> same_key 0 k)"
        by (intro less.IH [OF _ ai]) (use Suc less.prems(2-5) in \<open>simp_all add: clean_def\<close>)
      then obtain r di' where "leave_key ops cmp ?di = Some (r, di')" "clean di'"
        "if r then \<exists>p<i'. at (di_iter di') p \<and> less (uk p) (uk k) \<and> same_key (Suc p) k else ended di' \<and> same_key 0 k" by blast
      moreover from this(3) have "if r then \<exists>p<i. at (di_iter di') p \<and> less (uk p) (uk k) \<and> same_key (Suc p) k else ended di' \<and> same_key 0 k"
        unfolding Suc less_Suc_eq by (cases r) auto
      ultimately show ?thesis unfolding l by blast
    qed
  qed
qed

section \<open>The contract of the iterator\<close>

definition di_good :: "'i DBIter option \<Rightarrow> bool" where
  "di_good s \<longleftrightarrow> (\<exists>di. s = Some di \<and> clean di \<and> good (di_iter di))"

definition di_at :: "'i DBIter option \<Rightarrow> nat \<Rightarrow> bool" where
  "di_at s m \<longleftrightarrow> (\<exists>di. s = Some di \<and> clean di \<and> good (di_iter di) \<and>
     (if m < length view
      then di_valid di \<and> (\<exists>k. shown k \<and> rank k = m \<and> (case direction di of kForward \<Rightarrow> at (di_iter di) k | kReverse \<Rightarrow> saved di k))
      else m = length view \<and> \<not> di_valid di))"

lemma rank_less_iff: "shown j \<Longrightarrow> shown k \<Longrightarrow> rank j < rank k \<longleftrightarrow> j < k"
  using rank_mono [of "Suc j" k] rank_mono [of k j] by (auto simp: rank_Suc not_less [symmetric])

lemma shown_unique: "shown j \<Longrightarrow> shown k \<Longrightarrow> uk j = uk k \<Longrightarrow> j = k"
proof -
  assume s: "shown j" "shown k" and eq: "uk j = uk k"
  then have "vis j" "vis k" by (simp_all add: shown_def)
  then show "j = k" using none_newer [OF s(1), of k] none_newer [OF s(2), of j] eq by (metis linorder_neqE_nat)
qed

text \<open>A search forwards that excludes the entries of smaller ranks ends at the rank.\<close>

lemma search_ends_at:
  assumes "clean di'" and "m \<le> length view"
    and "(\<exists>k\<ge>i. found di' k \<and> \<not> X k \<and> (\<forall>j. i \<le> j \<and> j < k \<and> shown j \<longrightarrow> X j)) \<or> (ended di' \<and> (\<forall>j\<ge>i. shown j \<longrightarrow> X j))"
    and X: "\<And>j. shown j \<Longrightarrow> i \<le> j \<Longrightarrow> X j \<longleftrightarrow> rank j < m" and below: "\<And>j. shown j \<Longrightarrow> j < i \<Longrightarrow> rank j < m"
  shows "di_at (Some di') m"
  using assms(3)
proof
  assume "\<exists>k\<ge>i. found di' k \<and> \<not> X k \<and> (\<forall>j. i \<le> j \<and> j < k \<and> shown j \<longrightarrow> X j)"
  then obtain k where k: "i \<le> k" "found di' k" "\<not> X k" "\<forall>j. i \<le> j \<and> j < k \<and> shown j \<longrightarrow> X j" by blast
  have s: "shown k" using k(2) by (simp add: found_def)
  have "rank k = m"
  proof (rule ccontr)
    assume "rank k \<noteq> m"
    then have "m < rank k" using X [OF s k(1)] k(3) by simp
    then obtain j where "j < k" "shown j" "rank j = m" using rank_surj by blast
    then show False using X [of j] below [of j] k(4) by (cases "i \<le> j") auto
  qed
  then show ?thesis using s k(2) assms(1) ii.at_good rank_less [OF s] by (auto simp: di_at_def found_def)
next
  assume e: "ended di' \<and> (\<forall>j\<ge>i. shown j \<longrightarrow> X j)"
  have "m = length view"
  proof (rule ccontr)
    assume "m \<noteq> length view"
    then obtain j where "shown j" "rank j = m" using rank_surj [of m "length vs"] assms(2) by (auto simp: length_view)
    then show False using X [of j] below [of j] e by (cases "i \<le> j") auto
  qed
  then show ?thesis using e assms(1) by (auto simp: di_at_def ended_def)
qed

lemma FindPrev_at:
  assumes "at (di_iter di) p" and "p < length vs" and "clean di" and "direction di = kReverse"
  shows "di_at (FindPrevUserEntry ops cmp di) (if rank (Suc p) = 0 then length view else rank (Suc p) - 1)"
proof -
  have v: "it_Valid ops (di_iter di)" using ii.at_valid [OF assms(1)] assms(2) by simp
  have "scanned (Suc p) p kTypeDeletion di" by (auto simp: scanned_def)
  from find_prev [OF assms(1) order_refl assms(2,3) this] obtain t' di' where
    l: "prev_loop ops cmp kTypeDeletion di = Some (t', di')" "clean di'" "direction di' = direction di"
    and r: "case t' of kTypeDeletion \<Rightarrow> good (di_iter di') \<and> (\<forall>j\<le>p. \<not> shown j)
     | kTypeValue \<Rightarrow> \<exists>k\<le>p. shown k \<and> (\<forall>j. k < j \<and> j \<le> p \<longrightarrow> \<not> shown j) \<and> saved di' k" by blast
  show ?thesis
  proof (cases t')
    case kTypeDeletion
    have none: "good (di_iter di')" "\<forall>j\<le>p. \<not> shown j" using r kTypeDeletion by simp_all
    then have "rank (Suc p) = rank 0" by (intro rank_flat) auto
    then have "rank (Suc p) = 0" by (simp add: rank_def)
    then show ?thesis using v l none(1) kTypeDeletion
      by (simp add: FindPrevUserEntry_def di_at_def ClearSavedValue_def clean_def)
  next
    case kTypeValue
    obtain k where k: "k \<le> p" "shown k" "\<forall>j. k < j \<and> j \<le> p \<longrightarrow> \<not> shown j" "saved di' k" using r kTypeValue by auto
    have "rank (Suc p) = Suc (rank k)" by (rule rank_next) (use k in auto)
    moreover have "good (di_iter di')" using k(4) ii.at_good by (auto simp: saved_def)
    moreover have "saved (di'\<lparr>di_valid := True\<rparr>) k" using k(4) by (simp add: saved_def)
    ultimately show ?thesis using v l k(2) rank_less [OF k(2)] kTypeValue assms(4)
      by (auto simp: FindPrevUserEntry_def di_at_def clean_def)
  qed
qed

lemma di_at_shown:
  assumes "di_at s m" and "m < length view"
  obtains di k where "s = Some di" "clean di" "good (di_iter di)" "di_valid di" "shown k" "rank k = m"
    "direction di = kForward \<and> at (di_iter di) k \<or> direction di = kReverse \<and> saved di k"
proof -
  obtain di k where di: "s = Some di" "clean di" "good (di_iter di)" "di_valid di" "shown k" "rank k = m"
    and pos: "case direction di of kForward \<Rightarrow> at (di_iter di) k | kReverse \<Rightarrow> saved di k"
    using assms unfolding di_at_def by auto
  have "direction di = kForward \<and> at (di_iter di) k \<or> direction di = kReverse \<and> saved di k"
    using pos by (cases "direction di") simp_all
  then show thesis by (rule that [OF di])
qed

lemma di_Next_at:
  assumes "di_at s m" and "m < length view"
  shows "di_at (Option.bind s (di_Next ops cmp)) (Suc m)"
proof -
  obtain di k where s: "s = Some di" and cl: "clean di" and k: "shown k" "rank k = m"
    and pos: "direction di = kForward \<and> at (di_iter di) k \<or> direction di = kReverse \<and> saved di k"
    using di_at_shown [OF assms] by metis
  have kl: "k < length vs" "vis k" using k(1) by (simp_all add: shown_def)
  have "\<exists>di' i. di_Next ops cmp di = FindNextUserEntry ops cmp True di' \<and> at (di_iter di') i \<and> i \<le> k \<and> clean di' \<and>
      direction di' = kForward \<and> saved_key di' = uk k \<and> (\<forall>j. i \<le> j \<and> j < length vs \<and> vis j \<longrightarrow> \<not> less (uk j) (uk k)) \<and>
      (\<forall>j<i. uk j \<noteq> uk k \<or> i = k)"
    using pos
  proof
    assume f: "direction di = kForward \<and> at (di_iter di) k"
    then have "ExtractUserKey (it_key ops (di_iter di)) = uk k" using user_key_at kl(1) by blast
    then show ?thesis using f cl uk_not_below
      by (intro exI [of _ "di\<lparr>saved_key := uk k\<rparr>"] exI [of _ k]) (auto simp: di_Next_def clean_def)
  next
    assume r: "direction di = kReverse \<and> saved di k"
    then obtain p where p: "at (di_iter di) p" "before p k" "saved_key di = uk k" by (auto simp: saved_def)
    let ?i = "if p = length vs then 0 else Suc p"
    define it where "it = (if \<not> it_Valid ops (di_iter di) then it_SeekToFirst ops (di_iter di) else it_Next ops (di_iter di))"
    let ?di = "di\<lparr>direction := kForward, di_iter := it\<rparr>"
    have pl: "p = length vs \<or> p < k"
    proof -
      have "\<not> k \<le> p" if "p \<noteq> length vs"
      proof
        assume "k \<le> p"
        have "p < length vs" using that ii.at_bound [OF p(1)] by simp
        then show False using uk_not_below [OF \<open>k \<le> p\<close>] p(2) that by (auto simp: before_def)
      qed
      then show ?thesis using not_le_imp_less by blast
    qed
    have at': "at (di_iter ?di) ?i"
      using pl kl(1) ii.at_valid [OF p(1)] ii.at_first [OF ii.at_good [OF p(1)]] ii.at_next [OF p(1)] by (auto simp: it_def)
    have ik: "?i \<le> k" using pl by auto
    then have "it_Valid ops it" using ii.at_valid [OF at'] kl(1) by simp
    then have "di_Next ops cmp di = FindNextUserEntry ops cmp True ?di" using r
      by (cases "it_Valid ops (di_iter di)") (simp_all add: it_def di_Next_def Let_def)
    moreover have "\<forall>j. ?i \<le> j \<and> j < length vs \<and> vis j \<longrightarrow> \<not> less (uk j) (uk k)" using p(2) by (auto simp: before_def)
    moreover have "uk j \<noteq> uk k" if "j < ?i" for j
      using that p(2) uk_not_below [of j p] pl kl(1) by (auto simp: before_def split: if_splits)
    ultimately show ?thesis using at' ik cl p(3)
      by (intro exI [of _ ?di] exI [of _ ?i]) (auto simp: clean_def)
  qed
  then obtain di' i where d: "di_Next ops cmp di = FindNextUserEntry ops cmp True di'" "at (di_iter di') i" "i \<le> k" "clean di'"
    "direction di' = kForward" "saved_key di' = uk k" "\<forall>j. i \<le> j \<and> j < length vs \<and> vis j \<longrightarrow> \<not> less (uk j) (uk k)"
    "\<forall>j<i. uk j \<noteq> uk k \<or> i = k" by blast
  have il: "i < length vs" using d(3) kl(1) by simp
  have "\<exists>di2. FindNextUserEntry ops cmp True di' = Some di2 \<and> clean di2 \<and>
    ((\<exists>k'\<ge>i. found di2 k' \<and> \<not> (True \<and> uk k' = saved_key di') \<and>
        (\<forall>j. i \<le> j \<and> j < k' \<and> shown j \<longrightarrow> True \<and> uk j = saved_key di')) \<or>
     (ended di2 \<and> (\<forall>j\<ge>i. shown j \<longrightarrow> True \<and> uk j = saved_key di')))"
  proof (rule find_next [OF d(2) il d(4,5)])
    show "valid (saved_key di')" using uk_valid [OF kl(1)] d(6) by simp
    show "\<forall>j. i \<le> j \<and> j < length vs \<and> vis j \<and> True \<longrightarrow> \<not> less (uk j) (saved_key di')" using d(6,7) by simp
    show "\<forall>j j'. i \<le> j \<and> j < length vs \<and> vis j \<and> j' < i \<and> vis j' \<and> uk j' = uk j \<longrightarrow> True \<and> uk j = saved_key di'"
    proof (intro allI impI)
      fix j j' assume j: "i \<le> j \<and> j < length vs \<and> vis j \<and> j' < i \<and> vis j' \<and> uk j' = uk j"
      have "uk j = uk k"
      proof (cases "j \<le> k")
        case True
        then show ?thesis using uk_mono [OF True kl(1)] d(7) j by auto
      next
        case False
        have "j' \<le> k" "k \<le> j" using j d(3) False by simp_all
        from uk_between [OF this] j show ?thesis by auto
      qed
      then show "True \<and> uk j = saved_key di'" using d(6) by simp
    qed
  qed
  then obtain di2 where f: "FindNextUserEntry ops cmp True di' = Some di2" "clean di2"
    and r: "(\<exists>k'\<ge>i. found di2 k' \<and> \<not> uk k' = uk k \<and> (\<forall>j. i \<le> j \<and> j < k' \<and> shown j \<longrightarrow> uk j = uk k)) \<or>
     (ended di2 \<and> (\<forall>j\<ge>i. shown j \<longrightarrow> uk j = uk k))" unfolding d(6) by auto
  have "di_at (Some di2) (Suc m)"
  proof (rule search_ends_at [OF f(2) _ r])
    show "Suc m \<le> length view" using assms(2) by simp
    fix j assume j: "shown j"
    show "rank j < Suc m" if "j < i" using rank_mono [of j k] that d(3) k(2) by simp
    show "uk j = uk k \<longleftrightarrow> rank j < Suc m" if "i \<le> j"
    proof
      assume "uk j = uk k"
      then show "rank j < Suc m" using shown_unique [OF j k(1)] k(2) by simp
    next
      assume "rank j < Suc m"
      then have "j \<le> k" using rank_less_iff [OF k(1) j] k(2) by simp
      moreover have "\<not> less (uk j) (uk k)" using d(7) that j by (simp add: shown_def)
      ultimately show "uk j = uk k" using uk_mono [of j k] kl(1) by blast
    qed
  qed
  then show ?thesis using s d(1) f(1) by simp
qed

lemma di_Prev_at:
  assumes "di_at s m" and "m < length view"
  shows "di_at (Option.bind s (di_Prev ops cmp)) (if m = 0 then length view else m - 1)"
proof -
  obtain di k where s: "s = Some di" and cl: "clean di" and k: "shown k" "rank k = m"
    and pos: "direction di = kForward \<and> at (di_iter di) k \<or> direction di = kReverse \<and> saved di k"
    using di_at_shown [OF assms] by metis
  have kl: "k < length vs" "vis k" using k(1) by (simp_all add: shown_def)
  have no_rank: "m = 0" if "\<forall>j<k. \<not> shown j"
    using rank_flat [of 0 k] that k(2) by (simp add: rank_def)
  have end_at: "di_at (Some di') (if m = 0 then length view else m - 1)" if "clean di'" "ended di'" "m = 0" for di'
    using that by (simp add: di_at_def ended_def)
  have other_key: "\<not> shown j" if "uk j = uk k" "j < k" for j using none_newer [OF k(1) that(2,1)] by (simp add: shown_def)
  show ?thesis
    using pos
  proof
    assume f: "direction di = kForward \<and> at (di_iter di) k"
    let ?di = "di\<lparr>saved_key := uk k\<rparr>"
    have "\<exists>r di'. leave_key ops cmp ?di = Some (r, di') \<and> clean di' \<and>
      (if r then \<exists>p<k. at (di_iter di') p \<and> less (uk p) (uk k) \<and> same_key (Suc p) k else ended di' \<and> same_key 0 k)"
      by (rule leave_key_at [OF _ order_refl kl(1)]) (use f cl same_key_here in \<open>simp_all add: clean_def\<close>)
    then obtain r di' where l: "leave_key ops cmp ?di = Some (r, di')" "clean di'"
      and r: "if r then \<exists>p<k. at (di_iter di') p \<and> less (uk p) (uk k) \<and> same_key (Suc p) k else ended di' \<and> same_key 0 k" by blast
    have e: "ExtractUserKey (it_key ops (di_iter di)) = uk k" using f user_key_at kl(1) by blast
    show ?thesis
    proof (cases r)
      case True
      then obtain p where p: "p < k" "at (di_iter di') p" "same_key (Suc p) k" using r by auto
      have "\<forall>j. Suc p \<le> j \<and> j < k \<longrightarrow> \<not> shown j" using same_key_hidden [OF k(1) p(3)] by blast
      then have rk: "rank (Suc p) = m" using rank_flat [of "Suc p" k] p(1) k(2) by simp
      have "di_at (FindPrevUserEntry ops cmp (di'\<lparr>direction := kReverse\<rparr>))
          (if rank (Suc p) = 0 then length view else rank (Suc p) - 1)"
        by (rule FindPrev_at) (use p kl(1) l(2) in \<open>simp_all add: clean_def\<close>)
      then show ?thesis unfolding rk using s f l(1) e True by (simp add: di_Prev_def)
    next
      case False
      then have en: "ended di'" "same_key 0 k" using r by simp_all
      then have "m = 0" using no_rank same_key_hidden [OF k(1)] by blast
      then show ?thesis using end_at [OF l(2) en(1)] s f l(1) e False by (simp add: di_Prev_def)
    qed
  next
    assume rv: "direction di = kReverse \<and> saved di k"
    then obtain p where p: "at (di_iter di) p" "before p k" by (auto simp: saved_def)
    have hidden: "\<not> shown j" if "p = length vs \<or> p < j" "j < k" for j
    proof
      assume j: "shown j"
      then have "j < length vs" "vis j" by (simp_all add: shown_def)
      then have "\<not> less (uk j) (uk k)" using p(2) that(1) by (auto simp: before_def)
      then have "uk j = uk k" using uk_mono [of j k] that(2) kl(1) by auto
      then show False using other_key that(2) j by blast
    qed
    show ?thesis
    proof (cases "p = length vs")
      case True
      then have v: "\<not> it_Valid ops (di_iter di)" using ii.at_valid [OF p(1)] by simp
      have "m = 0" using hidden no_rank True by blast
      then show ?thesis using v s rv end_at cl ii.at_good [OF p(1)]
        by (simp add: di_Prev_def FindPrevUserEntry_def ClearSavedValue_def di_at_def clean_def)
    next
      case False
      then have pl: "p < length vs" using ii.at_bound [OF p(1)] by simp
      have "p < k"
      proof (rule ccontr)
        assume "\<not> p < k"
        then show False using uk_not_below [of k p] pl p(2) False by (auto simp: before_def)
      qed
      then have rk: "rank (Suc p) = m" using rank_flat [of "Suc p" k] hidden k(2) by (simp add: Suc_le_eq)
      show ?thesis using FindPrev_at [OF p(1) pl cl] rv s unfolding rk by (simp add: di_Prev_def)
    qed
  qed
qed

lemma di_first_at:
  assumes "di_good s"
  shows "di_at (Option.bind s (di_SeekToFirst ops cmp)) 0"
proof -
  obtain di where s: "s = Some di" "clean di" "good (di_iter di)" using assms by (auto simp: di_good_def)
  let ?di = "(ClearSavedValue (di\<lparr>direction := kForward\<rparr>))\<lparr>di_iter := it_SeekToFirst ops (di_iter di)\<rparr>"
  have at: "at (di_iter ?di) 0" using ii.at_first [OF s(3)] by simp
  have cl: "clean ?di" "direction ?di = kForward" using s(2) by (simp_all add: clean_def ClearSavedValue_def)
  have D: "di_SeekToFirst ops cmp di = (if it_Valid ops (di_iter ?di) then FindNextUserEntry ops cmp False ?di
      else Some (?di\<lparr>di_valid := False\<rparr>))" by (simp add: di_SeekToFirst_def Let_def ClearSavedValue_def)
  show ?thesis
  proof (cases "vs = []")
    case True
    then have "\<not> it_Valid ops (di_iter ?di)" "length view = 0" using ii.at_valid [OF at] view_empty by simp_all
    then show ?thesis using s(1) D cl(1) ii.at_good [OF at] by (simp add: di_at_def clean_def)
  next
    case False
    then have l: "0 < length vs" by simp
    then have v: "it_Valid ops (di_iter ?di)" using ii.at_valid [OF at] by simp
    from find_next [OF at l cl, of False] obtain di' where f: "FindNextUserEntry ops cmp False ?di = Some di'" "clean di'"
      and r: "(\<exists>k\<ge>0. found di' k \<and> \<not> False \<and> (\<forall>j. 0 \<le> j \<and> j < k \<and> shown j \<longrightarrow> False)) \<or> (ended di' \<and> (\<forall>j\<ge>0. shown j \<longrightarrow> False))"
      by auto
    have "di_at (Some di') 0" by (rule search_ends_at [OF f(2) _ r]) simp_all
    then show ?thesis using s(1) D v f(1) by simp
  qed
qed

lemma di_last_at:
  assumes "di_good s"
  shows "di_at (Option.bind s (di_SeekToLast ops cmp)) (length view - 1)"
proof -
  obtain di where s: "s = Some di" "clean di" "good (di_iter di)" using assms by (auto simp: di_good_def)
  let ?di = "(ClearSavedValue (di\<lparr>direction := kReverse\<rparr>))\<lparr>di_iter := it_SeekToLast ops (di_iter di)\<rparr>"
  have at: "at (di_iter ?di) (length vs - 1)" using ii.at_last [OF s(3)] by simp
  have cl: "clean ?di" "direction ?di = kReverse" using s(2) by (simp_all add: clean_def ClearSavedValue_def)
  have D: "di_SeekToLast ops cmp di = FindPrevUserEntry ops cmp ?di" by (simp add: di_SeekToLast_def Let_def ClearSavedValue_def)
  show ?thesis
  proof (cases "vs = []")
    case True
    then have "\<not> it_Valid ops (di_iter ?di)" "length view = 0" using ii.at_valid [OF at] view_empty by simp_all
    then show ?thesis using s(1) D cl(1) ii.at_good [OF at]
      by (simp add: di_at_def FindPrevUserEntry_def ClearSavedValue_def clean_def)
  next
    case False
    then have l: "length vs - 1 < length vs" "Suc (length vs - 1) = length vs" by simp_all
    from FindPrev_at [OF at l(1) cl] have "di_at (FindPrevUserEntry ops cmp ?di) (if length view = 0 then length view else length view - 1)"
      unfolding l(2) length_view .
    then show ?thesis using s(1) D by (simp split: if_splits)
  qed
qed

subsection \<open>Seeking\<close>

definition target :: "slice \<Rightarrow> slice" where
  "target t = AppendInternalKey [] \<lparr>user_key = t, sequence = snap, value_type = kTypeValue\<rparr>"

lemma es_below:
  assumes "j < length vs" and "valid t"
  shows "Compare (InternalKeyComparator cmp) (fst (es ! j)) (target t) < 0 \<longleftrightarrow> less (uk j) t \<or> uk j = t \<and> \<not> vis j"
proof -
  let ?p = "\<lambda>k :: ParsedInternalKey. PackSequenceAndType (sequence k) (value_type k)"
  have put: "AppendInternalKey [] k = PutFixed64 (user_key k) (?p k)" for k :: ParsedInternalKey by (simp add: AppendInternalKey_def)
  have "ikey (fst (es ! j))" "ikey (target t)"
    using assms uk_valid [OF assms(1)] by (simp_all add: entries target_def put ikey_Put uk_def)
  from Internal_less [OF this] show ?thesis
    using assms(1) Pack_le [OF seq_max [OF assms(1)] snapshot, of "value_type (fst (vs ! j))"]
    by (simp add: InternalKeyComparator_def entries target_def put ExtractUserKey_Put key_number_Put uk_def vis_def not_le [symmetric])
qed

lemma es_below_mono:
  assumes "i \<le> j" and "j < length vs" and "valid t" and "less (uk j) t \<or> uk j = t \<and> \<not> vis j"
  shows "less (uk i) t \<or> uk i = t \<and> \<not> vis i"
proof (cases "i = j")
  case False
  then have "i < j" using assms(1) by simp
  from ordered [OF this assms(2)] show ?thesis
    using assms less_trans [of "uk i" "uk j" t] uk_valid [of i] uk_valid [of j] by (auto simp: uk_def vis_def)
qed (use assms(4) in simp)

lemma es_seek:
  assumes "valid t" and "j < length vs"
  shows "j < seek_index (InternalKeyComparator cmp) es (target t) \<longleftrightarrow> less (uk j) t \<or> uk j = t \<and> \<not> vis j"
proof
  let ?P = "\<lambda>e. Compare (InternalKeyComparator cmp) (fst e) (target t) < 0" and ?i = "seek_index (InternalKeyComparator cmp) es (target t)"
  have i: "?i = length (takeWhile ?P es)" by (simp add: seek_index_def)
  {
    assume "j < ?i"
    then have "?P (es ! j)" unfolding i by (metis nth_mem set_takeWhileD takeWhile_nth)
    then show "less (uk j) t \<or> uk j = t \<and> \<not> vis j" using es_below [OF assms(2,1)] by simp
  next
    assume P: "less (uk j) t \<or> uk j = t \<and> \<not> vis j"
    show "j < ?i"
    proof (rule ccontr)
      assume "\<not> j < ?i"
      then have ij: "?i \<le> j" "?i < length es" using assms(2) by simp_all
      then have "\<not> ?P (es ! ?i)" using nth_length_takeWhile [of ?P es] unfolding i by simp
      moreover have "?i < length vs" using ij(2) by simp
      ultimately show False using es_below [OF _ assms(1)] es_below_mono [OF ij(1) assms(2,1) P] by blast
    qed
  }
qed

lemma view_seek:
  assumes "valid t" and "shown j"
  shows "rank j < seek_index cmp view t \<longleftrightarrow> less (uk j) t"
proof
  let ?P = "\<lambda>e. Compare cmp (fst e) t < 0" and ?m = "seek_index cmp view t"
  have m: "?m = length (takeWhile ?P view)" by (simp add: seek_index_def)
  have jl: "j < length vs" using assms(2) by (simp add: shown_def)
  {
    assume "rank j < ?m"
    then have "?P (view ! rank j)" unfolding m by (metis nth_mem set_takeWhileD takeWhile_nth)
    then show "less (uk j) t" using view_rank [OF assms(2)] by (simp add: less_def)
  next
    assume P: "less (uk j) t"
    show "rank j < ?m"
    proof (rule ccontr)
      assume "\<not> rank j < ?m"
      then have mj: "?m \<le> rank j" "?m < length view" using rank_less [OF assms(2)] by simp_all
      then obtain k where k: "shown k" "rank k = ?m" using rank_surj [of ?m "length vs"] length_view by auto
      have "\<not> ?P (view ! ?m)" using mj(2) nth_length_takeWhile [of ?P view] unfolding m by simp
      then have nk: "\<not> less (uk k) t" using view_rank [OF k(1)] k(2) by (simp add: less_def)
      have "k \<le> j" using rank_less_iff [OF assms(2) k(1)] mj(1) k(2) by simp
      then have "less (uk k) (uk j) \<or> uk k = uk j" "k < length vs" using uk_mono jl by simp_all
      then show False using nk P less_trans [of "uk k" "uk j" t] uk_valid jl assms(1) by auto
    qed
  }
qed

lemma di_seek_at:
  assumes "di_good s" and "utok t"
  shows "di_at (Option.bind s (\<lambda>di. di_Seek ops cmp di t)) (seek_index cmp view t)"
proof -
  obtain di where s: "s = Some di" "clean di" "good (di_iter di)" using assms(1) by (auto simp: di_good_def)
  have t: "valid t" "tok (target t)" using targets [OF assms(2)] by (simp_all add: target_def)
  let ?i = "seek_index (InternalKeyComparator cmp) es (target t)"
  let ?di = "(ClearSavedValue (di\<lparr>direction := kForward\<rparr>))\<lparr>saved_key := target t, di_iter := it_Seek ops (di_iter di) (target t)\<rparr>"
  have at: "at (di_iter ?di) ?i" using ii.at_seek [OF s(3) t(2)] by simp
  have cl: "clean ?di" "direction ?di = kForward" using s(2) by (simp_all add: clean_def ClearSavedValue_def)
  have D: "di_Seek ops cmp di t = (if it_Valid ops (di_iter ?di) then FindNextUserEntry ops cmp False ?di
      else Some (?di\<lparr>di_valid := False\<rparr>))"
    using s(2) by (simp add: di_Seek_def Let_def ClearSavedValue_def clean_def target_def kValueTypeForSeek_def)
  have below: "rank j < seek_index cmp view t" if "shown j" "j < ?i" for j
    using that es_seek [OF t(1), of j] view_seek [OF t(1) that(1)] by (auto simp: shown_def)
  have above: "\<not> rank j < seek_index cmp view t" if "shown j" "?i \<le> j" for j
    using that es_seek [OF t(1), of j] view_seek [OF t(1) that(1)] by (auto simp: shown_def)
  note ends = search_ends_at [OF _ seek_index_le, where i = ?i and X = "\<lambda>_. False"]
  show ?thesis
  proof (cases "?i < length vs")
    case False
    then have "\<not> it_Valid ops (di_iter ?di)" using ii.at_valid [OF at] by simp
    then have d: "di_Seek ops cmp di t = Some (?di\<lparr>di_valid := False\<rparr>)" using D by simp
    have "di_at (Some (?di\<lparr>di_valid := False\<rparr>)) (seek_index cmp view t)"
    proof (rule ends)
      show "clean (?di\<lparr>di_valid := False\<rparr>)" using cl(1) by (simp add: clean_def)
      have "ended (?di\<lparr>di_valid := False\<rparr>)" using ii.at_good [OF at] by (simp add: ended_def)
      moreover have "\<forall>j\<ge>?i. shown j \<longrightarrow> False" using False by (auto simp: shown_def)
      ultimately show "(\<exists>k\<ge>?i. found (?di\<lparr>di_valid := False\<rparr>) k \<and> \<not> False \<and> (\<forall>j. ?i \<le> j \<and> j < k \<and> shown j \<longrightarrow> False)) \<or>
          (ended (?di\<lparr>di_valid := False\<rparr>) \<and> (\<forall>j\<ge>?i. shown j \<longrightarrow> False))" by blast
    qed (use below above in auto)
    then show ?thesis using s(1) d by simp
  next
    case True
    then have v: "it_Valid ops (di_iter ?di)" using ii.at_valid [OF at] by simp
    have none: "\<not> (vis j \<and> vis j' \<and> uk j' = uk j)" if j: "?i \<le> j" "j < length vs" "j' < ?i" for j j'
      using es_seek [OF t(1), of j] es_seek [OF t(1), of j'] j True by auto
    have "\<exists>di'. FindNextUserEntry ops cmp False ?di = Some di' \<and> clean di' \<and>
      ((\<exists>k\<ge>?i. found di' k \<and> \<not> (False \<and> uk k = saved_key ?di) \<and>
          (\<forall>j. ?i \<le> j \<and> j < k \<and> shown j \<longrightarrow> False \<and> uk j = saved_key ?di)) \<or>
       (ended di' \<and> (\<forall>j\<ge>?i. shown j \<longrightarrow> False \<and> uk j = saved_key ?di)))"
      by (rule find_next [OF at True cl]) (use none in blast)+
    then obtain di' where f: "FindNextUserEntry ops cmp False ?di = Some di'" "clean di'"
      and r: "(\<exists>k\<ge>?i. found di' k \<and> \<not> False \<and> (\<forall>j. ?i \<le> j \<and> j < k \<and> shown j \<longrightarrow> False)) \<or>
        (ended di' \<and> (\<forall>j\<ge>?i. shown j \<longrightarrow> False))" by auto
    have "di_at (Some di') (seek_index cmp view t)" by (rule ends [OF f(2) r]) (use below above in auto)
    then show ?thesis using s(1) D v f(1) by simp
  qed
qed

lemma di_keeps_contract:
  "entry_iterator (DBIterator ops cmp) cmp view di_at di_good utok"
proof unfold_locales
  fix s i t
  show "di_at s i \<Longrightarrow> di_good s" by (auto simp: di_at_def di_good_def)
  show "di_at s i \<Longrightarrow> i \<le> length view" by (auto simp: di_at_def split: if_splits)
  show "di_at s i \<Longrightarrow> it_Valid (DBIterator ops cmp) s \<longleftrightarrow> i < length view" by (auto simp: di_at_def DBIterator_def split: if_splits)
  show "(it_key (DBIterator ops cmp) s, it_value (DBIterator ops cmp) s) = view ! i" if here: "di_at s i" "i < length view"
  proof -
    obtain di k where d: "s = Some di" "shown k" "rank k = i"
      "direction di = kForward \<and> at (di_iter di) k \<or> direction di = kReverse \<and> saved di k"
      using di_at_shown [OF here] by metis
    have "k < length vs" using d(2) by (simp add: shown_def)
    then show ?thesis using d(1,3,4) view_rank [OF d(2)] user_key_at [of "di_iter di" k] at_key(2) [of "di_iter di" k]
      by (auto simp: DBIterator_def di_key_def di_value_def saved_def)
  qed
  show "di_good s \<Longrightarrow> status_ok (it_status (DBIterator ops cmp) s)"
    using ii.good_status by (auto simp: di_good_def DBIterator_def di_get_status_def clean_def)
  show "di_good s \<Longrightarrow> di_at (it_SeekToFirst (DBIterator ops cmp) s) 0" using di_first_at by (simp add: DBIterator_def)
  show "di_good s \<Longrightarrow> di_at (it_SeekToLast (DBIterator ops cmp) s) (length view - 1)" using di_last_at by (simp add: DBIterator_def)
  show "di_good s \<Longrightarrow> utok t \<Longrightarrow> di_at (it_Seek (DBIterator ops cmp) s t) (seek_index cmp view t)"
    using di_seek_at by (simp add: DBIterator_def)
  show "di_at s i \<Longrightarrow> i < length view \<Longrightarrow> di_at (it_Next (DBIterator ops cmp) s) (Suc i)" using di_Next_at by (simp add: DBIterator_def)
  show "di_at s i \<Longrightarrow> i < length view \<Longrightarrow> di_at (it_Prev (DBIterator ops cmp) s) (if i = 0 then length view else i - 1)"
    using di_Prev_at by (simp add: DBIterator_def)
qed

end

sublocale db_view \<subseteq> seen: entry_iterator "DBIterator ops cmp" cmp view di_at di_good utok
  by (rule di_keeps_contract)

end
