(* ===== verification/Ldb_DbRead_Facts.thy ===== *)
theory Ldb_DbRead_Facts
  imports Ldb_DbRead Ldb_Version_Facts Ldb_Merger_Facts Ldb_DbIter_Facts
begin

text \<open>
  The read path refines the history of the versions: a lookup answers what the newest version at the
  snapshot says, and the iterator reads the keys it answers, in order.
\<close>

section \<open>Dispatching iterators\<close>

text \<open>An iterator is in one of the states of a contract.\<close>

definition stands :: "'i Iterator \<Rightarrow> Comparator \<Rightarrow> entries \<Rightarrow> (slice \<Rightarrow> bool) \<Rightarrow> 'i \<Rightarrow> nat \<Rightarrow> bool" where
  "stands ops cmp es tok s i \<longleftrightarrow> (\<exists>at good. entry_iterator ops cmp es at good tok \<and> at s i)"

definition reads :: "'i Iterator \<Rightarrow> Comparator \<Rightarrow> entries \<Rightarrow> (slice \<Rightarrow> bool) \<Rightarrow> 'i \<Rightarrow> bool" where
  "reads ops cmp es tok s \<longleftrightarrow> (\<exists>at good. entry_iterator ops cmp es at good tok \<and> good s)"

lemma readsI: "entry_iterator ops cmp es at good tok \<Longrightarrow> good s \<Longrightarrow> reads ops cmp es tok s"
  by (auto simp: reads_def)

lemma reads_contract: "entry_iterator ops cmp es (stands ops cmp es tok) (reads ops cmp es tok) tok"
proof
  fix s i assume "stands ops cmp es tok s i"
  then obtain at good where c: "entry_iterator ops cmp es at good tok" "at s i" by (auto simp: stands_def)
  show "reads ops cmp es tok s" using c entry_iterator.at_good by (fastforce simp: reads_def)
  show "i \<le> length es" by (rule entry_iterator.at_bound [OF c])
  show "it_Valid ops s = (i < length es)" by (rule entry_iterator.at_valid [OF c])
  show "i < length es \<Longrightarrow> (it_key ops s, it_value ops s) = es ! i" by (rule entry_iterator.at_entry [OF c])
  show "i < length es \<Longrightarrow> stands ops cmp es tok (it_Next ops s) (Suc i)" using c entry_iterator.at_next [OF c] by (auto simp: stands_def)
  show "i < length es \<Longrightarrow> stands ops cmp es tok (it_Prev ops s) (if i = 0 then length es else i - 1)"
    using c entry_iterator.at_prev [OF c] unfolding stands_def by blast
next
  fix s assume "reads ops cmp es tok s"
  then obtain at good where c: "entry_iterator ops cmp es at good tok" "good s" by (auto simp: reads_def)
  show "status_ok (it_status ops s)" by (rule entry_iterator.good_status [OF c])
  show "stands ops cmp es tok (it_SeekToFirst ops s) 0" using c entry_iterator.at_first [OF c] by (auto simp: stands_def)
  show "stands ops cmp es tok (it_SeekToLast ops s) (length es - 1)" using c entry_iterator.at_last [OF c] by (auto simp: stands_def)
  fix t assume "tok t"
  then show "stands ops cmp es tok (it_Seek ops s t) (seek_index cmp es t)" using c entry_iterator.at_seek [OF c] by (auto simp: stands_def)
qed

text \<open>The virtual calls on a state \<open>C x\<close> are those on \<open>x\<close>.\<close>

definition dispatches :: "'j Iterator \<Rightarrow> ('i \<Rightarrow> 'j) \<Rightarrow> 'i Iterator \<Rightarrow> bool" where
  "dispatches ops' C ops \<longleftrightarrow> (\<forall>x t. it_Valid ops' (C x) = it_Valid ops x \<and> it_key ops' (C x) = it_key ops x \<and>
     it_value ops' (C x) = it_value ops x \<and> it_status ops' (C x) = it_status ops x \<and>
     it_SeekToFirst ops' (C x) = C (it_SeekToFirst ops x) \<and> it_SeekToLast ops' (C x) = C (it_SeekToLast ops x) \<and>
     it_Seek ops' (C x) t = C (it_Seek ops x t) \<and> it_Next ops' (C x) = C (it_Next ops x) \<and> it_Prev ops' (C x) = C (it_Prev ops x))"

lemma dispatched_contract:
  assumes D: "dispatches ops' C ops" and I: "entry_iterator ops cmp es at good tok" and tok: "\<And>t. tok' t \<Longrightarrow> tok t"
  shows "entry_iterator ops' cmp es (\<lambda>s i. \<exists>x. s = C x \<and> at x i) (\<lambda>s. \<exists>x. s = C x \<and> good x) tok'"
proof
  note D = D [unfolded dispatches_def, rule_format]
  fix s i assume "\<exists>x. s = C x \<and> at x i"
  then obtain x where x: "s = C x" "at x i" by blast
  show "\<exists>x. s = C x \<and> good x" using x entry_iterator.at_good [OF I] by blast
  show "i \<le> length es" by (rule entry_iterator.at_bound [OF I x(2)])
  show "it_Valid ops' s = (i < length es)" using entry_iterator.at_valid [OF I x(2)] D x(1) by simp
  show "i < length es \<Longrightarrow> (it_key ops' s, it_value ops' s) = es ! i" using entry_iterator.at_entry [OF I x(2)] D x(1) by simp
  show "i < length es \<Longrightarrow> \<exists>x. it_Next ops' s = C x \<and> at x (Suc i)" using entry_iterator.at_next [OF I x(2)] D x(1) by blast
  show "i < length es \<Longrightarrow> \<exists>x. it_Prev ops' s = C x \<and> at x (if i = 0 then length es else i - 1)"
    using entry_iterator.at_prev [OF I x(2)] D x(1) by blast
next
  note D = D [unfolded dispatches_def, rule_format]
  fix s assume "\<exists>x. s = C x \<and> good x"
  then obtain x where x: "s = C x" "good x" by blast
  show "status_ok (it_status ops' s)" using entry_iterator.good_status [OF I x(2)] D x(1) by simp
  show "\<exists>x. it_SeekToFirst ops' s = C x \<and> at x 0" using entry_iterator.at_first [OF I x(2)] D x(1) by blast
  show "\<exists>x. it_SeekToLast ops' s = C x \<and> at x (length es - 1)" using entry_iterator.at_last [OF I x(2)] D x(1) by blast
  fix t assume "tok' t"
  then show "\<exists>x. it_Seek ops' s t = C x \<and> at x (seek_index cmp es t)" using entry_iterator.at_seek [OF I x(2) tok] D x(1) by blast
qed

lemma dispatched:
  assumes "dispatches ops' C ops" and "reads ops cmp es tok x" and "\<And>t. tok' t \<Longrightarrow> tok t"
  shows "reads ops' cmp es tok' (C x)"
  by (rule readsI [OF dispatched_contract [OF assms(1) reads_contract [of ops cmp es tok] assms(3)]]) (use assms(2) in auto)

lemma dispatches_file: "dispatches file_Iterator TableFile table_Iterator"
  by (simp add: dispatches_def file_Iterator_def Let_def)

lemma dispatches_FileIter: "dispatches (version_Iterator c) FileIter file_Iterator"
  by (simp add: dispatches_def version_Iterator_def Let_def)

lemma dispatches_LevelIter: "dispatches (version_Iterator c) (LevelIter flist) (two_level_Iterator (LevelFileNumIterator c flist) file_Iterator)"
  by (simp add: dispatches_def version_Iterator_def Let_def)

lemma dispatches_VersionChild: "dispatches (child_Iterator c) VersionChild (version_Iterator c)"
  by (simp add: dispatches_def child_Iterator_def Let_def)

lemma dispatches_MemChild: "dispatches (child_Iterator c) (MemChild mt) (fst (MemTable_NewIterator mt))"
  by (simp add: dispatches_def child_Iterator_def Let_def)

lemma dispatches_OnlyChild: "dispatches (merged_Iterator ops) OnlyChild ops"
  by (simp add: dispatches_def merged_Iterator_def merged_call_def merged_get_def Let_def)

lemma dispatches_Merge: "dispatches (merged_Iterator ops) Merge (merging_Iterator ops)"
  by (simp add: dispatches_def merged_Iterator_def merged_call_def merged_get_def Let_def)

section \<open>The children\<close>

abbreviation (input) ikc :: Comparator where
  "ikc \<equiv> InternalKeyComparator BytewiseComparator"

text \<open>A child reads versions.\<close>

abbreviation (input) child_reads :: "versions \<Rightarrow> db_child \<Rightarrow> bool" where
  "child_reads vs \<equiv> reads (child_Iterator BytewiseComparator) ikc (map bytewise.entry_of vs) bytewise.mem_key"

lemma mem_key_ikey: "bytewise.mem_key t \<Longrightarrow> bytewise.ikey t"
  by (simp add: bytewise.mem_key_def)

definition mem_holds :: "MemTable \<Rightarrow> versions \<Rightarrow> bool" where
  "mem_holds mt vs \<longleftrightarrow> mt_comparator mt = BytewiseComparator \<and> in_order vs \<and>
     (\<exists>order. bytewise.holds (mt_table mt) order (map bytewise.entry_of vs))"

lemma mem_reads:
  assumes "mem_holds mt vs"
  shows "child_reads vs (mem_child mt)"
proof -
  obtain order where h: "bytewise.holds (mt_table mt) order (map bytewise.entry_of vs)" and c: "mt_comparator mt = BytewiseComparator"
    using assms by (auto simp: mem_holds_def)
  have "reads (fst (MemTable_NewIterator mt)) ikc (map bytewise.entry_of vs) bytewise.mem_key (snd (MemTable_NewIterator mt))"
    using readsI [OF bytewise.mem_iterator [OF h]] by (simp add: MemTable_NewIterator_def c)
  then show ?thesis unfolding mem_child_def by (rule dispatched [OF dispatches_MemChild])
qed

lemma file_reads:
  assumes "file_holds finder ro f vs"
  shows "reads file_Iterator ikc (map bytewise.entry_of vs) bytewise.ikey (TableCache_NewIterator finder ro (fm_number f) (fm_size f))"
proof -
  obtain t where t: "finder (fm_number f) (fm_size f) = (Status_OK, t)" "serves ro t vs" using assms by (auto simp: file_holds_def)
  then have "reads table_Iterator ikc (map bytewise.entry_of vs) bytewise.ikey (Table_NewIterator t ro)"
    unfolding serves_def reads_def by blast
  then show ?thesis
    using dispatched [OF dispatches_file] by (simp add: TableCache_NewIterator_def t(1) Status_OK_ok)
qed

lemma FileIter_reads:
  assumes "file_holds finder ro f vs"
  shows "child_reads vs (VersionChild (FileIter (TableCache_NewIterator finder ro (fm_number f) (fm_size f))))"
  by (rule dispatched [OF dispatches_VersionChild dispatched [OF dispatches_FileIter file_reads [OF assms]] mem_key_ikey])

subsection \<open>The files of a level\<close>

definition level_index :: "FileMetaData list \<Rightarrow> entries" where
  "level_index flist = map (\<lambda>f. (InternalKey_Encode (fm_largest f), EncodeFixed64 (fm_number f) @ EncodeFixed64 (fm_size f))) flist"

definition named_file :: "(64 word \<Rightarrow> versions) \<Rightarrow> slice \<Rightarrow> entries" where
  "named_file content v = map bytewise.entry_of (content (DecodeFixed64 v))"

locale level_files =
  fixes finder :: table_finder and ro :: ReadOptions and content :: "64 word \<Rightarrow> versions" and flist :: "FileMetaData list"
  assumes holds: "\<forall>f \<in> set flist. file_holds finder ro f (content (fm_number f))"
    and level_order: "in_order (level_versions content flist)"
begin

lemma largest_less: "i < j \<Longrightarrow> j < length flist \<Longrightarrow> q \<in> set (content (fm_number (flist ! j))) \<Longrightarrow>
    Compare ikc (InternalKey_Encode (fm_largest (flist ! i))) (fst (bytewise.entry_of q)) < 0"
proof -
  assume ij: "i < j" "j < length flist" and q: "q \<in> set (content (fm_number (flist ! j)))"
  let ?c = "content (fm_number (flist ! i))"
  have i: "i < length flist" using ij by simp
  note e = file_ends [OF bspec [OF holds nth_mem [OF i]]] and e' = file_ends [OF bspec [OF holds nth_mem [OF ij(2)]]]
  have "ahead (last ?c) q" by (rule level_sorted [OF holds level_order ij _ q]) (use e(4) in simp)
  moreover have "sequence (fst q) \<le> kMaxSequenceNumber" "sequence (fst (last ?c)) \<le> kMaxSequenceNumber"
    using e(4,5) e'(5) q by (simp_all add: in_order_def bytewise.version_def)
  ultimately show ?thesis using Pack_order unfolding e(3) by (auto simp: bytewise.entry_of_def key_less ahead_def)
qed

lemma largest_above: "i < length flist \<Longrightarrow> q \<in> set (content (fm_number (flist ! i))) \<Longrightarrow>
    bytewise.entry_of q = bytewise.entry_of (last (content (fm_number (flist ! i)))) \<or>
    Compare ikc (fst (bytewise.entry_of q)) (InternalKey_Encode (fm_largest (flist ! i))) < 0"
proof -
  assume i: "i < length flist" and q: "q \<in> set (content (fm_number (flist ! i)))"
  note e = file_ends [OF bspec [OF holds nth_mem [OF i]]]
  have "sequence (fst q) \<le> kMaxSequenceNumber" "sequence (fst (last (content (fm_number (flist ! i))))) \<le> kMaxSequenceNumber"
    using e(4,5) q by (simp_all add: in_order_def bytewise.version_def)
  then show ?thesis
    using in_order_ends [OF e(5) q] Pack_order unfolding e(3) by (auto simp: bytewise.entry_of_def key_less ahead_def)
qed

lemma largest_ikey: "i < length flist \<Longrightarrow> bytewise.ikey (InternalKey_Encode (fm_largest (flist ! i)))"
  using file_ends(3) [OF bspec [OF holds nth_mem]] by (simp add: key_parts)

lemma entry_ikey: "bytewise.ikey (fst (bytewise.entry_of q))"
  by (simp add: bytewise.entry_of_def key_parts)

lemma less_trans: "Compare ikc a b < 0 \<Longrightarrow> Compare ikc b c < 0 \<Longrightarrow> bytewise.ikey a \<Longrightarrow> bytewise.ikey b \<Longrightarrow> bytewise.ikey c \<Longrightarrow> Compare ikc a c < 0"
  using bytewise.ikc.cmp_trans by blast

lemma FindFile_index:
  assumes t: "bytewise.ikey t"
  shows "FindFile BytewiseComparator flist t = seek_index ikc (level_index flist) t"
proof -
  let ?P = "\<lambda>i. Internal_Compare BytewiseComparator (InternalKey_Encode (fm_largest (flist ! i))) t < 0"
  have P: "?P i \<longleftrightarrow> Compare ikc (InternalKey_Encode (fm_largest (flist ! i))) t < 0" for i by (simp add: InternalKeyComparator_def)
  have mono: "?P i" if ij: "i \<le> j" "j < length flist" "?P j" for i j
  proof (cases "i = j")
    case False
    let ?q = "last (content (fm_number (flist ! j)))"
    note e = file_ends [OF bspec [OF holds nth_mem [OF ij(2)]]]
    have "Compare ikc (InternalKey_Encode (fm_largest (flist ! i))) (fst (bytewise.entry_of ?q)) < 0"
      by (rule largest_less [OF _ ij(2)]) (use False ij(1) e(4) in simp_all)
    moreover have "Compare ikc (fst (bytewise.entry_of ?q)) t < 0" using ij(3) e(3) unfolding P by (simp add: bytewise.entry_of_def)
    ultimately show ?thesis unfolding P using less_trans largest_ikey [of i] entry_ikey t ij by auto
  qed (use ij in simp)
  let ?r = "FindFile BytewiseComparator flist t"
  have R: "?r \<le> length flist \<and> (\<forall>i < ?r. ?P i) \<and> (?r < length flist \<longrightarrow> \<not> ?P ?r)"
    by (rule find_file_result [OF refl mono _ _ _ _ FindFile_def]) simp_all
  have "takeWhile (\<lambda>e. Compare ikc (fst e) t < 0) (level_index flist) = take ?r (level_index flist)"
  proof (rule takeWhile_eq_take_P_nth)
    fix i assume "i < ?r" "i < length (level_index flist)"
    then show "Compare ikc (fst (level_index flist ! i)) t < 0" using R P [of i] by (simp add: level_index_def)
  next
    assume "?r < length (level_index flist)"
    then show "\<not> Compare ikc (fst (level_index flist ! ?r)) t < 0" using R P [of ?r] by (simp add: level_index_def)
  qed
  then show ?thesis using R by (simp add: seek_index_def level_index_def)
qed

lemma index_contract:
  "entry_iterator (LevelFileNumIterator BytewiseComparator flist) ikc (level_index flist) (\<lambda>s i. s = i \<and> i \<le> length flist) (\<lambda>_. True) bytewise.ikey"
proof
  fix s :: nat and t assume "bytewise.ikey t"
  then show "it_Seek (LevelFileNumIterator BytewiseComparator flist) s t = seek_index ikc (level_index flist) t \<and>
      seek_index ikc (level_index flist) t \<le> length flist"
    using seek_index_le [of ikc "level_index flist" t] by (simp add: LevelFileNumIterator_def FindFile_index) (simp add: level_index_def)
qed (auto simp: LevelFileNumIterator_def level_index_def Status_OK_ok)

lemma index_names: "e \<in> set (level_index flist) \<Longrightarrow> \<exists>f \<in> set flist. snd e = EncodeFixed64 (fm_number f) @ EncodeFixed64 (fm_size f) \<and>
    named_file content (snd e) = map bytewise.entry_of (content (fm_number f))"
  by (auto simp: level_index_def named_file_def DecodeFixed64_Encode)

lemma opens_file: "f \<in> set flist \<Longrightarrow> GetFileIterator finder ro (EncodeFixed64 (fm_number f) @ EncodeFixed64 (fm_size f)) =
    TableCache_NewIterator finder ro (fm_number f) (fm_size f)"
  using DecodeFixed64_Encode [of "fm_size f" "[]"] by (simp add: GetFileIterator_def DecodeFixed64_Encode)

lemma level_two_level:
  "two_level (LevelFileNumIterator BytewiseComparator flist) ikc (level_index flist) (\<lambda>s i. s = i \<and> i \<le> length flist) (\<lambda>_. True)
    bytewise.ikey file_Iterator (GetFileIterator finder ro) (named_file content)
    (\<lambda>v. stands file_Iterator ikc (named_file content v) bytewise.ikey) (\<lambda>v. reads file_Iterator ikc (named_file content v) bytewise.ikey)"
proof (intro two_level.intro index_contract two_level_axioms.intro)
  fix e assume "e \<in> set (level_index flist)"
  from index_names [OF this] obtain f where f: "f \<in> set flist" "snd e = EncodeFixed64 (fm_number f) @ EncodeFixed64 (fm_size f)"
    "named_file content (snd e) = map bytewise.entry_of (content (fm_number f))" by blast
  show "entry_iterator file_Iterator ikc (named_file content (snd e)) (stands file_Iterator ikc (named_file content (snd e)) bytewise.ikey)
      (reads file_Iterator ikc (named_file content (snd e)) bytewise.ikey) bytewise.ikey" by (rule reads_contract)
  show "reads file_Iterator ikc (named_file content (snd e)) bytewise.ikey (GetFileIterator finder ro (snd e))"
    using file_reads [OF bspec [OF holds f(1)]] unfolding f(3) unfolding f(2) opens_file [OF f(1)] .
next
  fix t e i assume t: "bytewise.ikey t" and i: "i < length (level_index flist)" and l: "Compare ikc (fst (level_index flist ! i)) t < 0"
    and e: "e \<in> set (named_file content (snd (level_index flist ! i)))"
  have i': "i < length flist" using i by (simp add: level_index_def)
  then obtain q where q: "q \<in> set (content (fm_number (flist ! i)))" "e = bytewise.entry_of q"
    using e by (auto simp: level_index_def named_file_def DecodeFixed64_Encode)
  have l': "Compare ikc (InternalKey_Encode (fm_largest (flist ! i))) t < 0" using l i' by (simp add: level_index_def)
  have "fst (bytewise.entry_of (last (content (fm_number (flist ! i))))) = InternalKey_Encode (fm_largest (flist ! i))"
    using file_ends(3) [OF bspec [OF holds nth_mem [OF i']]] by (simp add: bytewise.entry_of_def)
  then show "Compare ikc (fst e) t < 0"
    using largest_above [OF i' q(1)] l' less_trans [OF _ l' entry_ikey largest_ikey [OF i'] t] unfolding q(2) by metis
next
  fix t e i j assume t: "bytewise.ikey t" and ij: "i < j" and j: "j < length (level_index flist)"
    and l: "\<not> Compare ikc (fst (level_index flist ! i)) t < 0" and e: "e \<in> set (named_file content (snd (level_index flist ! j)))"
  have j': "j < length flist" "i < length flist" using j ij by (simp_all add: level_index_def)
  then obtain q where q: "q \<in> set (content (fm_number (flist ! j)))" "e = bytewise.entry_of q"
    using e by (auto simp: level_index_def named_file_def DecodeFixed64_Encode)
  have l': "\<not> Compare ikc (InternalKey_Encode (fm_largest (flist ! i))) t < 0" using l j' by (simp add: level_index_def)
  then show "\<not> Compare ikc (fst e) t < 0"
    using less_trans [OF largest_less [OF ij j'(1) q(1)] _ largest_ikey [OF j'(2)] entry_ikey t] unfolding q(2) by blast
qed

end

sublocale level_files \<subseteq> level: two_level "LevelFileNumIterator BytewiseComparator flist" ikc "level_index flist"
    "\<lambda>s i. s = i \<and> i \<le> length flist" "\<lambda>_. True" bytewise.ikey file_Iterator "GetFileIterator finder ro" "named_file content"
    "\<lambda>v. stands file_Iterator ikc (named_file content v) bytewise.ikey" "\<lambda>v. reads file_Iterator ikc (named_file content v) bytewise.ikey"
  by (rule level_two_level)

context level_files
begin

lemma level_entries: "two_level.all_entries (level_index flist) (named_file content) = map bytewise.entry_of (level_versions content flist)"
  unfolding two_level.all_entries_def [OF level_two_level]
  by (simp add: level_index_def named_file_def level_versions_def map_concat comp_def DecodeFixed64_Encode)

lemma LevelIter_reads: "child_reads (level_versions content flist) (VersionChild (LevelIter flist (NewConcatenatingIterator BytewiseComparator finder ro flist)))"
proof -
  note contract = two_level.tl_keeps_contract [OF level_two_level, unfolded level_entries]
  have "reads (two_level_Iterator (LevelFileNumIterator BytewiseComparator flist) file_Iterator) ikc
      (map bytewise.entry_of (level_versions content flist)) bytewise.ikey (NewConcatenatingIterator BytewiseComparator finder ro flist)"
  proof (rule readsI [OF contract])
    show "two_level.tl_good (LevelFileNumIterator BytewiseComparator flist) (level_index flist) (\<lambda>_. True) file_Iterator
        (GetFileIterator finder ro) (\<lambda>v. reads file_Iterator ikc (named_file content v) bytewise.ikey)
        (NewConcatenatingIterator BytewiseComparator finder ro flist)"
      unfolding two_level.tl_good_def [OF level_two_level]
      by (simp add: NewConcatenatingIterator_def NewTwoLevelIterator_def Status_OK_ok new_Wrapper_def [symmetric])
        (simp add: level_index_def new_Wrapper_def)
  qed
  then show ?thesis by (rule dispatched [OF dispatches_VersionChild dispatched [OF dispatches_LevelIter] mem_key_ikey])
qed

end

section \<open>Merging the children\<close>

text \<open>Each version with the number of the child it is in.\<close>

definition tagged :: "versions list \<Rightarrow> (nat \<times> ParsedInternalKey \<times> slice) list" where
  "tagged css = concat (map (\<lambda>c. map (Pair c) (css ! c)) [0..<length css])"

definition version_number :: "ParsedInternalKey \<times> slice \<Rightarrow> slice \<times> SequenceNumber" where
  "version_number q = (user_key (fst q), sequence (fst q))"

lemma ahead_total: "version_number q \<noteq> version_number r \<Longrightarrow> ahead q r \<or> ahead r q"
  using slice_total [of "user_key (fst q)" "user_key (fst r)"] by (auto simp: version_number_def ahead_def)

lemma ahead_number: "ahead q r \<Longrightarrow> version_number q \<noteq> version_number r"
  by (auto simp: version_number_def ahead_def slice_self)

lemma sorted_insert:
  assumes total: "\<And>y. y \<in> set ys \<Longrightarrow> R x y \<or> R y x" and trans: "transp R" and s: "sorted_wrt R ys"
  shows "sorted_wrt R (takeWhile (\<lambda>y. R y x) ys @ x # dropWhile (\<lambda>y. R y x) ys)"
  using total s
proof (induction ys)
  case (Cons y ys)
  show ?case
  proof (cases "R y x")
    case True
    have "\<forall>z \<in> set (takeWhile (\<lambda>y. R y x) ys @ x # dropWhile (\<lambda>y. R y x) ys). R y z"
      using True Cons.prems(2) by (auto dest: set_takeWhileD set_dropWhileD)
    then show ?thesis using True Cons by simp
  next
    case False
    then have "R x y" using Cons.prems(1) by auto
    then show ?thesis using False Cons.prems(2) transpD [OF trans] by auto
  qed
qed simp

lemma sorted_exists:
  assumes trans: "transp R"
  shows "sorted_wrt (\<lambda>x y. R x y \<or> R y x) xs \<Longrightarrow> \<exists>ys. mset ys = mset xs \<and> sorted_wrt R ys"
proof (induction xs)
  case (Cons x xs)
  then obtain ys where ys: "mset ys = mset xs" "sorted_wrt R ys" by auto
  have "set ys = set xs" using ys(1) by (metis set_mset_mset)
  then have "R x y \<or> R y x" if "y \<in> set ys" for y using that Cons.prems by simp
  note s = sorted_insert [OF this trans ys(2)]
  have "mset (takeWhile P zs @ x # dropWhile P zs) = mset (x # zs)" for P zs by (induction zs) simp_all
  then show ?case using s ys(1) by (intro exI conjI) simp_all
qed simp

lemma distinct_sorted: "distinct (map f xs) \<longleftrightarrow> sorted_wrt (\<lambda>x y. f x \<noteq> f y) xs"
  by (induction xs) auto

lemma sorted_unique:
  assumes asym: "\<And>a b. R a b \<Longrightarrow> \<not> R b a"
  shows "sorted_wrt R xs \<Longrightarrow> sorted_wrt R ys \<Longrightarrow> mset xs = mset ys \<Longrightarrow> xs = ys"
proof (induction xs arbitrary: ys)
  case (Cons x xs)
  then obtain y zs where ys: "ys = y # zs" by (cases ys) auto
  have "x = y"
  proof (rule ccontr)
    assume ne: "x \<noteq> y"
    have "x \<in> set ys" "y \<in> set (x # xs)" using Cons.prems(3) ys by (metis list.set_intros(1) set_mset_mset)+
    then have "R y x" "R x y" using ne Cons.prems(1,2) ys by auto
    then show False using asym by blast
  qed
  then show ?case using Cons ys by simp
qed simp

lemma filter_tagged: "c < length css \<Longrightarrow> filter (\<lambda>x. fst x = c) (tagged css) = map (Pair c) (css ! c)"
proof -
  assume c: "c < length css"
  have f: "filter (\<lambda>x. fst x = c) (map (Pair d) vs) = (if d = c then map (Pair d) vs else [])" for d and vs :: versions
    by (induction vs) auto
  have none: "concat (map (\<lambda>d. if d = c then map (Pair d) (css ! d) else []) ds) = []" if "c \<notin> set ds" for ds
    using that by (induction ds) auto
  have "[0..<length css] = [0..<c] @ c # [Suc c..<length css]" using c by (metis le0 less_imp_le upt_conv_Cons le_add_diff_inverse upt_add_eq_append)
  then show ?thesis by (simp add: tagged_def filter_concat comp_def f none)
qed

lemma map_snd_tagged: "map snd (tagged css) = concat css"
proof -
  have "map (\<lambda>c. map snd (map (Pair c) (css ! c))) [0..<length css] = css" by (rule nth_equalityI) (simp_all add: comp_def)
  then show ?thesis by (simp add: tagged_def map_concat comp_def)
qed

lemma tagged_less: "x \<in> set (tagged css) \<Longrightarrow> fst x < length css"
  by (auto simp: tagged_def)

lemma merged_order:
  assumes o: "\<And>vs. vs \<in> set css \<Longrightarrow> in_order vs" and d: "distinct (map version_number (concat css))"
  shows "\<exists>ts. mset ts = mset (tagged css) \<and> in_order (map snd ts) \<and> (\<forall>c < length css. filter (\<lambda>x. fst x = c) ts = map (Pair c) (css ! c))"
proof -
  let ?R = "\<lambda>x y :: nat \<times> ParsedInternalKey \<times> slice. ahead (snd x) (snd y)"
  have "map version_number (concat css) = map (\<lambda>x. version_number (snd x)) (tagged css)"
    by (simp flip: map_snd_tagged)
  then have "sorted_wrt (\<lambda>x y. version_number (snd x) \<noteq> version_number (snd y)) (tagged css)"
    using d by (simp add: distinct_sorted)
  then have "sorted_wrt (\<lambda>x y. ?R x y \<or> ?R y x) (tagged css)" by (rule sorted_wrt_mono_rel [rotated]) (rule ahead_total)
  moreover have "transp ?R" using ahead_trans by (blast intro: transpI)
  ultimately obtain ts where ts: "mset ts = mset (tagged css)" "sorted_wrt ?R ts"
    using sorted_exists by blast
  have "set ts = set (tagged css)" using ts(1) by (metis set_mset_mset)
  then have "snd ` set ts = set (concat css)" using map_snd_tagged [of css] by (metis list.set_map)
  then have "in_order (map snd ts)" using o ts(2) by (auto simp: in_order_def sorted_wrt_map)
  moreover have "filter (\<lambda>x. fst x = c) ts = map (Pair c) (css ! c)" if c: "c < length css" for c
  proof (rule sorted_unique [of ?R, OF ahead_asym])
    show "sorted_wrt ?R (filter (\<lambda>x. fst x = c) ts)" using ts(2) by (rule sorted_wrt_filter)
    show "sorted_wrt ?R (map (Pair c) (css ! c))" using o [OF nth_mem [OF c]] by (simp add: sorted_wrt_map in_order_def)
    show "mset (filter (\<lambda>x. fst x = c) ts) = mset (map (Pair c) (css ! c))"
      using ts(1) filter_tagged [OF c] by (metis mset_filter)
  qed
  ultimately show ?thesis using ts(1) by blast
qed

text \<open>The target of a seek is behind or at each key, in the order of the keys.\<close>

lemma target_below:
  assumes "in_order vs" and "bytewise.mem_key t" and "i < j" and "j < length vs"
    and "Compare ikc (fst (bytewise.entry_of (vs ! j))) t < 0"
  shows "Compare ikc (fst (bytewise.entry_of (vs ! i))) t < 0"
proof -
  have "Compare ikc (fst (bytewise.entry_of (vs ! i))) (fst (bytewise.entry_of (vs ! j))) < 0"
    using sorted_wrt_nth_less [OF in_order_sorted [OF assms(1)], of i j] assms(3,4) by simp
  moreover have "bytewise.ikey (fst (bytewise.entry_of q))" for q by (simp add: bytewise.entry_of_def key_parts)
  ultimately show ?thesis using bytewise.ikc.cmp_trans assms(2,5) mem_key_ikey by blast
qed

lemma children_merging:
  assumes o: "in_order (map snd ts)" and tags: "\<And>x. x \<in> set ts \<Longrightarrow> fst x < length css"
    and own: "\<And>c. c < length css \<Longrightarrow> filter (\<lambda>x. fst x = c) ts = map (Pair c) (css ! c)"
  shows "merging (child_Iterator BytewiseComparator) ikc (map (\<lambda>x. (fst x, bytewise.entry_of (snd x))) ts) (length css)
    (\<lambda>c. stands (child_Iterator BytewiseComparator) ikc (map bytewise.entry_of (css ! c)) bytewise.mem_key)
    (\<lambda>c. reads (child_Iterator BytewiseComparator) ikc (map bytewise.entry_of (css ! c)) bytewise.mem_key) bytewise.mem_key"
proof -
  let ?vs = "map snd ts" and ?ops = "child_Iterator BytewiseComparator"
  define tes where "tes = map (\<lambda>x. (fst x, bytewise.entry_of (snd x))) ts"
  have len: "length tes = length ts" by (simp add: tes_def)
  have key: "fst (snd (tes ! i)) = fst (bytewise.entry_of (?vs ! i))" if "i < length ts" for i using that by (simp add: tes_def)
  have less: "Compare ikc (fst (snd (tes ! i))) (fst (snd (tes ! j))) < 0" if "i < j" "j < length ts" for i j
    using sorted_wrt_nth_less [OF in_order_sorted [OF o], of i j] that by (simp add: key)
  have ik: "bytewise.ikey (fst (bytewise.entry_of q))" for q by (simp add: bytewise.entry_of_def key_parts)
  show ?thesis
    unfolding tes_def [symmetric]
  proof (rule merging.intro)
    fix c assume c: "c < length css"
    have "filter (\<lambda>x. fst x = c) tes = map (\<lambda>x. (fst x, bytewise.entry_of (snd x))) (filter (\<lambda>x. fst x = c) ts)"
      unfolding tes_def by (induction ts) auto
    then have "map snd (filter (\<lambda>x. fst x = c) tes) = map bytewise.entry_of (css ! c)" by (simp add: own [OF c] comp_def)
    then show "entry_iterator ?ops ikc (map snd (filter (\<lambda>x. fst x = c) tes))
        (stands ?ops ikc (map bytewise.entry_of (css ! c)) bytewise.mem_key)
        (reads ?ops ikc (map bytewise.entry_of (css ! c)) bytewise.mem_key) bytewise.mem_key"
      by (simp only: reads_contract)
  next
    fix x assume x: "x \<in> set tes"
    then obtain y where y: "y \<in> set ts" "x = (fst y, bytewise.entry_of (snd y))" by (auto simp: tes_def)
    then show "fst x < length css" using tags by simp
    have "bytewise.version (snd y)" using o y(1) by (simp add: in_order_def)
    then show "bytewise.mem_key (fst (snd x))" using bytewise.version_entry y(2) by (simp add: bytewise.mem_entry_def)
  next
    fix i j assume ij: "i < length tes" "j < length tes"
    have self: "\<not> Compare ikc (fst (snd (tes ! k))) (fst (snd (tes ! k))) < 0" "\<not> 0 < Compare ikc (fst (snd (tes ! k))) (fst (snd (tes ! k)))"
      if "k < length ts" for k
      using bytewise.ikc.cmp_eq [OF ik ik, of "?vs ! k" "?vs ! k"] key [OF that] by simp_all
    have flip: "Compare ikc (fst (snd (tes ! a))) (fst (snd (tes ! b))) < 0 \<longleftrightarrow> 0 < Compare ikc (fst (snd (tes ! b))) (fst (snd (tes ! a)))"
      if "a < length ts" "b < length ts" for a b
      using bytewise.ikc.cmp_sym [OF ik ik] key that by simp
    show "Compare ikc (fst (snd (tes ! i))) (fst (snd (tes ! j))) < 0 \<longleftrightarrow> i < j"
      using less [of i j] less [of j i] self flip ij len by (cases i j rule: linorder_cases) fastforce+
    show "0 < Compare ikc (fst (snd (tes ! i))) (fst (snd (tes ! j))) \<longleftrightarrow> j < i"
      using less [of i j] less [of j i] self flip ij len by (cases i j rule: linorder_cases) fastforce+
  next
    fix t i j assume "bytewise.mem_key t" "i < j" "j < length tes" "Compare ikc (fst (snd (tes ! j))) t < 0"
    then show "Compare ikc (fst (snd (tes ! i))) t < 0" using target_below [OF o, of t i j] key len by simp
  qed
qed

lemma merged_reads:
  assumes o: "\<And>vs. vs \<in> set css \<Longrightarrow> in_order vs" and d: "distinct (map version_number (concat css))"
    and n: "css \<noteq> []" "length cs = length css" and r: "\<And>c. c < length css \<Longrightarrow> child_reads (css ! c) (cs ! c)"
  shows "\<exists>vs. in_order vs \<and> mset vs = mset (concat css) \<and>
    reads (merged_Iterator (child_Iterator BytewiseComparator)) ikc (map bytewise.entry_of vs) bytewise.mem_key
      (NewMergingIterator (child_Iterator BytewiseComparator) ikc cs)"
proof -
  obtain ts where ts: "mset ts = mset (tagged css)" "in_order (map snd ts)"
    "\<And>c. c < length css \<Longrightarrow> filter (\<lambda>x. fst x = c) ts = map (Pair c) (css ! c)" using merged_order [OF o d] by blast
  let ?vs = "map snd ts" and ?ops = "child_Iterator BytewiseComparator"
  have m: "mset ?vs = mset (concat css)" using ts(1) map_snd_tagged [of css] by (metis mset_map)
  let ?tes = "map (\<lambda>x. (fst x, bytewise.entry_of (snd x))) ts"
  have es: "map snd ?tes = map bytewise.entry_of ?vs" by simp
  have "fst x < length css" if "x \<in> set ts" for x using that tagged_less ts(1) by (metis set_mset_mset)
  then have M: "merging ?ops ikc ?tes (length css) (\<lambda>c. stands ?ops ikc (map bytewise.entry_of (css ! c)) bytewise.mem_key)
      (\<lambda>c. reads ?ops ikc (map bytewise.entry_of (css ! c)) bytewise.mem_key) bytewise.mem_key"
    by (intro children_merging ts(2,3)) simp_all
  have "reads (merged_Iterator ?ops) ikc (map bytewise.entry_of ?vs) bytewise.mem_key (NewMergingIterator ?ops ikc cs)"
  proof (cases "\<exists>i. cs = [i]")
    case True
    then obtain i where i: "cs = [i]" by blast
    then obtain vs where css: "css = [vs]" using n(2) by (cases css) auto
    have "mset ?vs = mset vs" using m css by simp
    then have "?vs = vs" using sorted_unique [of ahead, OF ahead_asym] ts(2) o [of vs] css unfolding in_order_def by simp
    then have "reads ?ops ikc (map bytewise.entry_of ?vs) bytewise.mem_key i" using r [of 0] css i by simp
    from dispatched [OF dispatches_OnlyChild this] show ?thesis by (simp add: NewMergingIterator_def i)
  next
    case False
    have new: "NewMergingIterator ?ops ikc cs = Merge (new_MergingIterator ?ops ikc cs)"
    proof (cases cs)
      case Nil
      then show ?thesis using n by simp
    next
      case (Cons a bs)
      then show ?thesis using False by (cases bs) (simp_all add: NewMergingIterator_def)
    qed
    have "reads (merging_Iterator ?ops) ikc (map bytewise.entry_of ?vs) bytewise.mem_key (new_MergingIterator ?ops ikc cs)"
      by (rule readsI [OF merging.mi_keeps_contract [OF M, unfolded merging.es_def [OF M] es] merging.new_good [OF M n(2)]])
        (use r in blast)
    from dispatched [OF dispatches_Merge this] show ?thesis by (simp add: new)
  qed
  then show ?thesis using ts(2) m by blast
qed

section \<open>What a snapshot shows\<close>

context db_view
begin

lemma view_ascends: "sorted_wrt (\<lambda>a b. less (fst a) (fst b)) view"
proof -
  have l: "less (uk i) (uk j)" if "shown i" "shown j" "i < j" for i j
    using uk_mono [of i j] shown_unique [OF that(1,2)] that by (auto simp: shown_def [of j])
  have "sorted_wrt (<) (filter shown [0..<length vs])" by (rule sorted_wrt_filter) simp
  then have "sorted_wrt (\<lambda>i j. i < j \<and> shown i \<and> shown j) (filter shown [0..<length vs])"
    by (rule sorted_wrt_mono_rel [rotated]) auto
  then have "sorted_wrt (\<lambda>i j. less (uk i) (uk j)) (filter shown [0..<length vs])"
    by (rule sorted_wrt_mono_rel [rotated]) (use l in blast)
  then show ?thesis by (simp add: view_def sorted_wrt_map)
qed

lemma view_newest: "(u, v) \<in> set view \<longleftrightarrow> (\<exists>q. newest vs u snap = Some q \<and> value_type (fst q) = kTypeValue \<and> v = snd q)"
proof
  assume "(u, v) \<in> set view"
  then obtain j where j: "shown j" "u = uk j" "v = snd (vs ! j)" by (auto simp: view_def)
  then have l: "j < length vs" "vis j" "value_type (fst (vs ! j)) = kTypeValue" by (simp_all add: shown_def)
  have "newest vs u snap = Some (vs ! j)"
  proof (rule newest_unique)
    show "vs ! j \<in> set vs" "user_key (fst (vs ! j)) = u" "sequence (fst (vs ! j)) \<le> snap"
      using l j(2) by (simp_all add: uk_def vis_def)
    fix r assume r: "r \<in> set vs" "user_key (fst r) = u" "sequence (fst r) \<le> snap"
    then obtain i where i: "i < length vs" "r = vs ! i" by (metis in_set_conv_nth)
    then have "uk i = uk j" "vis i" using r j(2) by (simp_all add: uk_def vis_def)
    then have "\<not> i < j" using none_newer [OF j(1)] by blast
    moreover have "sequence (fst r) < sequence (fst (vs ! j))" if "j < i"
      using ordered [OF that i(1)] \<open>uk i = uk j\<close> less_irrefl [OF uk_valid [OF l(1)]] i(2) by (auto simp: uk_def)
    ultimately show "r = vs ! j \<or> sequence (fst r) < sequence (fst (vs ! j))" using i(2) by (cases i j rule: linorder_cases) auto
  qed
  then show "\<exists>q. newest vs u snap = Some q \<and> value_type (fst q) = kTypeValue \<and> v = snd q" using l(3) j(3) by blast
next
  assume "\<exists>q. newest vs u snap = Some q \<and> value_type (fst q) = kTypeValue \<and> v = snd q"
  then obtain q where q: "newest vs u snap = Some q" "value_type (fst q) = kTypeValue" "v = snd q" by blast
  note N = newest_SomeD [OF q(1)]
  obtain j where j: "j < length vs" "vs ! j = q" using N(1) by (metis in_set_conv_nth)
  have "\<not> vis i" if i: "i < j" "uk i = uk j" for i
  proof
    assume "vis i"
    then have "sequence (fst (vs ! i)) \<le> sequence (fst q)"
      using N(4) [of "vs ! i"] i j N(2) by (simp add: uk_def vis_def)
    moreover have "sequence (fst q) < sequence (fst (vs ! i))"
      using ordered [OF i(1) j(1)] i(2) less_irrefl [OF uk_valid [OF j(1)]] j(2) by (auto simp: uk_def)
    ultimately show False by simp
  qed
  then have "shown j" using j q(2) N(3) by (simp add: shown_def vis_def)
  then show "(u, v) \<in> set view" using j q(3) N(2) by (auto simp: view_def uk_def intro!: image_eqI [of _ _ j])
qed

lemma new_di_good: "good it \<Longrightarrow> di_good (Some (NewDBIterator it snap seed))"
proof -
  assume "good it"
  moreover have "good_seed (snd (RandomCompactionPeriod (new_Random seed)))"
    by (simp add: period_mod good_seed_Next new_Random_good)
  ultimately show ?thesis by (simp add: di_good_def clean_def NewDBIterator_def Status_OK_ok split_beta)
qed

end

section \<open>The database\<close>

text \<open>
  The memtable holds \<open>memvs\<close>, the immutable one \<open>immvs\<close> and the files what \<open>content\<close> says; a key has its newer
  versions in the memtable, then in the immutable one, then in the files.
\<close>

definition db_history :: "(64 word \<Rightarrow> versions) \<Rightarrow> versions \<Rightarrow> versions \<Rightarrow> 'd Db \<Rightarrow> versions" where
  "db_history content memvs immvs db = memvs @ immvs @ version_history content (db_version db)"

definition readable_db :: "table_finder \<Rightarrow> ReadOptions \<Rightarrow> (64 word \<Rightarrow> versions) \<Rightarrow> versions \<Rightarrow> versions \<Rightarrow> 'd Db \<Rightarrow> bool" where
  "readable_db finder ro content memvs immvs db \<longleftrightarrow>
     mem_holds (db_mem db) memvs \<and> (case db_imm db of None \<Rightarrow> immvs = [] | Some imm \<Rightarrow> mem_holds imm immvs) \<and>
     readable_version finder ro content (db_version db) \<and>
     newer_than memvs (immvs @ version_history content (db_version db)) \<and> newer_than immvs (version_history content (db_version db))"

lemma mem_get:
  assumes "mem_holds mt vs" and u: "length u + 8 < 2 ^ 32" and snap: "snapshot \<le> kMaxSequenceNumber"
  shows "MemTable_Get mt (new_LookupKey u snapshot) val s = Some (newest_answer vs u snapshot val s)"
proof -
  let ?es = "map bytewise.entry_of vs"
  obtain order where o: "in_order vs" and h: "bytewise.holds (mt_table mt) order ?es" and c: "mt_comparator mt = BytewiseComparator"
    using assms(1) by (auto simp: mem_holds_def)
  define i where "i = seek_index ikc ?es (AppendInternalKey [] \<lparr>user_key = u, sequence = snapshot, value_type = kTypeValue\<rparr>)"
  have ver: "\<forall>q \<in> set vs. bytewise.version q" using o by (simp add: in_order_def)
  have r: "i < length ?es \<Longrightarrow> ?es ! i = bytewise.entry_of (vs ! i)" "i < length ?es \<Longrightarrow> vs ! i \<in> set vs" by simp_all
  have "i < length ?es \<Longrightarrow> bytewise.version (vs ! i)" using ver by simp
  from bytewise.Get_entry [OF h c TrueI u i_def r(1) this]
    bytewise.seek_newest [OF _ ver _ in_order_sorted [OF o] TrueI snap i_def r] in_order_distinct [OF o]
  show ?thesis by (simp add: newest_answer_def split: ValueType.splits)
qed

lemma Get_newest:
  fixes db :: "'d Db"
  assumes R: "readable_db finder ro content memvs immvs db" and u: "length u + 8 < 2 ^ 32"
    and s: "s = (case snapshot of Some n \<Rightarrow> n | None \<Rightarrow> db_last_sequence db)" and snap: "s \<le> kMaxSequenceNumber"
  shows "\<exists>schedule db'. DBImpl_Get finder ro snapshot u val db =
    Some (fst (get_answer val (newest (db_history content memvs immvs db) u s)),
      snd (get_answer val (newest (db_history content memvs immvs db) u s)), schedule, db')"
proof -
  note D = R [unfolded readable_db_def]
  have c: "mt_comparator (db_mem db) = BytewiseComparator" using D by (simp add: mem_holds_def)
  have m: "MemTable_Get (db_mem db) (new_LookupKey u s) val Status_OK = Some (newest_answer memvs u s val Status_OK)"
    using mem_get [OF _ u snap] D by blast
  have i: "(case db_imm db of None \<Rightarrow> Some (False, val, Status_OK) | Some imm \<Rightarrow> MemTable_Get imm (new_LookupKey u s) val Status_OK) =
      Some (newest_answer immvs u s val Status_OK)"
    using mem_get [OF _ u snap] D by (cases "db_imm db") (simp_all add: newest_answer_def newest_def)
  obtain seek where v: "Version_Get finder ro BytewiseComparator (db_version db) (new_LookupKey u s) val =
      (fst (get_answer val (newest (version_history content (db_version db)) u s)),
       snd (get_answer val (newest (version_history content (db_version db)) u s)), seek)"
    using Version_Get_newest [OF _ snap] D by blast
  have n: "newest (db_history content memvs immvs db) u s = (case newest memvs u s of Some q \<Rightarrow> Some q
      | None \<Rightarrow> (case newest immvs u s of Some q \<Rightarrow> Some q | None \<Rightarrow> newest (version_history content (db_version db)) u s))"
    using D by (simp add: db_history_def newest_append split: option.split)
  show ?thesis
  proof (cases "newest memvs u s")
    case (Some q)
    then show ?thesis
      unfolding DBImpl_Get_def s [symmetric] Let_def m n
      by (cases "value_type (fst q)") (auto simp: newest_answer_def get_answer_def)
  next
    case mNone: None
    then have "newest_answer memvs u s val Status_OK = (False, val, Status_OK)" by (simp add: newest_answer_def)
    then have step: "DBImpl_Get finder ro snapshot u val db =
        (case Some (newest_answer immvs u s val Status_OK) of
             None \<Rightarrow> None
           | Some (True, val, s) \<Rightarrow> Some (s, val, False, db)
           | Some (False, val, t) \<Rightarrow>
               let (s, val, stats) = Version_Get finder ro BytewiseComparator (db_version db) (new_LookupKey u s) val;
                   (schedule, v) = UpdateStats stats (db_version db)
               in Some (s, val, schedule, db\<lparr>db_version := v\<rparr>))"
      unfolding DBImpl_Get_def s [symmetric] Let_def m c by (simp add: i)
    show ?thesis
    proof (cases "newest immvs u s")
      case (Some q)
      then show ?thesis
        unfolding step n mNone by (cases "value_type (fst q)") (auto simp: newest_answer_def get_answer_def)
    next
      case None
      obtain schedule v' where "UpdateStats seek (db_version db) = (schedule, v')" by fastforce
      then show ?thesis unfolding step n mNone None by (simp add: newest_answer_def None v)
    qed
  qed
qed

section \<open>The iterator of the database\<close>

text \<open>The contents of the children, in their order.\<close>

definition child_versions :: "(64 word \<Rightarrow> versions) \<Rightarrow> versions \<Rightarrow> versions \<Rightarrow> 'd Db \<Rightarrow> versions list" where
  "child_versions content memvs immvs db =
     memvs # (case db_imm db of None \<Rightarrow> [] | Some _ \<Rightarrow> [immvs]) @
     map (\<lambda>f. content (fm_number f)) (files (db_version db) ! 0) @
     map (\<lambda>level. level_versions content (files (db_version db) ! level))
       (filter (\<lambda>level. files (db_version db) ! level \<noteq> []) [1..<kNumLevels])"

lemma levels_split:
  assumes "length (files v) = kNumLevels"
  shows "files v = files v ! 0 # map (\<lambda>level. files v ! level) [1..<kNumLevels]"
proof -
  have "files v = map (\<lambda>level. files v ! level) [0..<kNumLevels]" using assms by (intro nth_equalityI) simp_all
  moreover have "[0..<kNumLevels] = 0 # [1..<kNumLevels]" by (simp add: kNumLevels_def upt_conv_Cons)
  ultimately show ?thesis by (metis list.simps(9))
qed

lemma set_child_versions:
  assumes R: "readable_db finder ro content memvs immvs db"
  shows "set (concat (child_versions content memvs immvs db)) = set (db_history content memvs immvs db)"
proof -
  let ?f = "files (db_version db)"
  have len: "length ?f = kNumLevels" and imm: "db_imm db = None \<Longrightarrow> immvs = []"
    using R by (auto simp: readable_db_def readable_version_def)
  have "set (version_history content (db_version db)) =
      set (level_versions content (?f ! 0)) \<union> (\<Union>level \<in> {1..<kNumLevels}. set (level_versions content (?f ! level)))"
    unfolding version_history_def by (subst levels_split [OF len]) simp
  moreover have "(\<Union>level \<in> {1..<kNumLevels}. set (level_versions content (?f ! level))) =
      (\<Union>level \<in> set (filter (\<lambda>level. ?f ! level \<noteq> []) [1..<kNumLevels]). set (level_versions content (?f ! level)))"
    by (auto simp: level_versions_def)
  ultimately show ?thesis
    using imm by (cases "db_imm db") (simp_all add: child_versions_def db_history_def set_level_versions)
qed

lemma in_order_numbers: "in_order vs \<Longrightarrow> distinct (map version_number vs)"
  unfolding distinct_sorted in_order_def by (elim conjE, erule sorted_wrt_mono_rel [rotated]) (rule ahead_number)

lemma distinct_concat_numbers:
  "\<forall>vs \<in> set css. distinct (map version_number vs) \<Longrightarrow>
    sorted_wrt (\<lambda>vs ws. version_number ` set vs \<inter> version_number ` set ws = {}) css \<Longrightarrow> distinct (map version_number (concat css))"
  by (induction css) auto

lemma newer_disjoint: "newer_than vs ws \<Longrightarrow> version_number ` set vs \<inter> version_number ` set ws = {}"
proof -
  assume n: "newer_than vs ws"
  have "version_number q \<noteq> version_number r" if "q \<in> set vs" "r \<in> set ws" for q r
    using bspec [OF bspec [OF n [unfolded newer_than_def] that(1)] that(2)] by (auto simp: version_number_def)
  then show ?thesis by blast
qed

lemma child_versions_ok:
  assumes R: "readable_db finder ro content memvs immvs db"
  shows "\<forall>vs \<in> set (child_versions content memvs immvs db). in_order vs"
    and "distinct (map version_number (concat (child_versions content memvs immvs db)))"
proof -
  let ?v = "db_version db" and ?css = "child_versions content memvs immvs db"
  let ?l = "\<lambda>level. level_versions content (files ?v ! level)" and ?ls = "filter (\<lambda>level. files ?v ! level \<noteq> []) [1..<kNumLevels]"
  have D: "mem_holds (db_mem db) memvs" "case db_imm db of None \<Rightarrow> immvs = [] | Some imm \<Rightarrow> mem_holds imm immvs"
    "readable_version finder ro content ?v" "newer_than memvs (immvs @ version_history content ?v)" "newer_than immvs (version_history content ?v)"
    using R by (simp_all add: readable_db_def)
  note V = D(3) [unfolded readable_version_def]
  have len: "length (files ?v) = kNumLevels" using V by blast
  have zero: "files ?v ! 0 \<in> set (files ?v)" using len by (simp add: kNumLevels_def)
  have holds: "\<forall>f \<in> set (files ?v ! 0). file_holds finder ro f (content (fm_number f))" using V zero by blast
  show o: "\<forall>vs \<in> set ?css. in_order vs"
  proof
    fix vs assume "vs \<in> set ?css"
    moreover have "set ?css \<subseteq> {memvs} \<union> {ws. db_imm db \<noteq> None \<and> ws = immvs} \<union>
        (\<lambda>f. content (fm_number f)) ` set (files ?v ! 0) \<union> ?l ` {1..<kNumLevels}"
      by (cases "db_imm db") (auto simp: child_versions_def)
    ultimately consider "vs = memvs" | "db_imm db \<noteq> None" "vs = immvs" | f where "f \<in> set (files ?v ! 0)" "vs = content (fm_number f)"
      | level where "level \<in> {1..<kNumLevels}" "vs = ?l level"
      by blast
    then show "in_order vs"
    proof cases
      case 1
      then show ?thesis using D(1) by (simp add: mem_holds_def)
    next
      case 2
      then show ?thesis using D(2) by (auto simp: mem_holds_def)
    next
      case 3
      then show ?thesis using file_ends(5) [OF bspec [OF holds]] by simp
    next
      case 4
      then show ?thesis using V by simp
    qed
  qed
  have hist: "set (version_history content ?v) = (\<Union>fs \<in> set (files ?v). set (level_versions content fs))"
    by (simp add: version_history_def)
  have level_sub: "set (?l level) \<subseteq> set (version_history content ?v)" if "level < kNumLevels" for level
  proof -
    have "files ?v ! level \<in> set (files ?v)" using nth_mem [of level "files ?v"] that len by simp
    then show ?thesis unfolding hist by blast
  qed
  have file_sub: "set (content (fm_number f)) \<subseteq> set (?l 0)" if "f \<in> set (files ?v ! 0)" for f
    using that by (auto simp: set_level_versions)
  have newer_sub: "newer_than vs ws" if "newer_than vs ws'" "set ws \<subseteq> set ws'" for vs ws ws' using that by (auto simp: newer_than_def)
  let ?rest = "map (\<lambda>f. content (fm_number f)) (files ?v ! 0) @ map ?l ?ls"
  have rest: "set ws \<subseteq> set (version_history content ?v)" if ws: "ws \<in> set ?rest" for ws
  proof -
    from ws consider f where "f \<in> set (files ?v ! 0)" "ws = content (fm_number f)" | level where "level < kNumLevels" "ws = ?l level"
      by auto
    then show ?thesis
    proof cases
      case 1
      have "(0 :: nat) < kNumLevels" by (simp add: kNumLevels_def)
      from level_sub [OF this] file_sub [OF 1(1)] show ?thesis unfolding 1(2) by blast
    qed (simp add: level_sub)
  qed
  have levels: "newer_than (?l i) (?l j)" if "i < j" "j < kNumLevels" for i j
    using V len that sorted_wrt_nth_less [of newer_than "map (level_versions content) (files ?v)" i j] by simp
  have sorted_levels: "sorted_wrt (\<lambda>i j. i < j \<and> j < kNumLevels) ?ls"
  proof -
    have "sorted_wrt (<) ?ls" by (rule sorted_wrt_filter) simp
    then show ?thesis by (rule sorted_wrt_mono_rel [rotated]) auto
  qed
  have level0: "sorted_wrt (\<lambda>f g. version_number ` set (content (fm_number f)) \<inter> version_number ` set (content (fm_number g)) = {}) (files ?v ! 0)"
  proof -
    have "sorted_wrt (\<lambda>f g. fm_number f \<noteq> fm_number g) (files ?v ! 0)" using V by (simp add: distinct_sorted)
    then show ?thesis
    proof (rule sorted_wrt_mono_rel [rotated])
      fix f g assume m: "f \<in> set (files ?v ! 0)" "g \<in> set (files ?v ! 0)" "fm_number f \<noteq> fm_number g"
      then have "newer_than (content (fm_number f)) (content (fm_number g)) \<or> newer_than (content (fm_number g)) (content (fm_number f))"
        using V by (metis linorder_neqE)
      then show "version_number ` set (content (fm_number f)) \<inter> version_number ` set (content (fm_number g)) = {}"
        using newer_disjoint by blast
    qed
  qed
  show "distinct (map version_number (concat ?css))"
  proof (rule distinct_concat_numbers)
    show "\<forall>vs \<in> set ?css. distinct (map version_number vs)" using o in_order_numbers by blast
    let ?R = "\<lambda>vs ws. version_number ` set vs \<inter> version_number ` set ws = ({} :: (slice \<times> SequenceNumber) set)"
    have a: "sorted_wrt ?R (map (\<lambda>f. content (fm_number f)) (files ?v ! 0))" using level0 by (simp add: sorted_wrt_map)
    have b: "sorted_wrt ?R (map ?l ?ls)"
      unfolding sorted_wrt_map by (rule sorted_wrt_mono_rel [OF _ sorted_levels]) (use levels newer_disjoint in blast)
    have c: "?R (content (fm_number f)) (?l level)" if "f \<in> set (files ?v ! 0)" "level \<in> set ?ls" for f level
      using newer_disjoint [OF levels [of 0 level]] that file_sub [OF that(1)] by auto
    have ab: "sorted_wrt ?R ?rest"
      unfolding sorted_wrt_append using a b by (simp only: set_map ball_simps simp_thms) (use c in blast)
    have mem: "\<forall>ws \<in> set ?rest. ?R memvs ws" "?R memvs immvs"
    proof -
      have m: "?R memvs ws" if "set ws \<subseteq> set (immvs @ version_history content ?v)" for ws
        by (rule newer_disjoint [OF newer_sub [OF D(4) that]])
      show "\<forall>ws \<in> set ?rest. ?R memvs ws" by (intro ballI m) (use rest in \<open>simp only: set_append, blast\<close>)
      show "?R memvs immvs" by (rule m) simp
    qed
    have imm: "\<forall>ws \<in> set ?rest. ?R immvs ws"
      by (intro ballI newer_disjoint newer_sub [OF D(5)] rest)
    have css: "?css = memvs # (case db_imm db of None \<Rightarrow> [] | Some _ \<Rightarrow> [immvs]) @ ?rest" by (simp add: child_versions_def)
    show "sorted_wrt ?R ?css"
      unfolding css using ab mem imm
      by (cases "db_imm db") (simp_all only: option.case append.simps sorted_wrt.simps list.set ball_simps insert_iff simp_thms)
  qed
qed

lemma children_read:
  assumes R: "readable_db finder ro content memvs immvs db"
  shows "list_all2 child_reads (child_versions content memvs immvs db) (db_children finder ro db)"
proof -
  let ?v = "db_version db"
  let ?ls = "filter (\<lambda>level. files ?v ! level \<noteq> []) [1..<kNumLevels]"
  have D: "mem_holds (db_mem db) memvs" "case db_imm db of None \<Rightarrow> immvs = [] | Some imm \<Rightarrow> mem_holds imm immvs"
    "readable_version finder ro content ?v" using R by (simp_all add: readable_db_def)
  note V = D(3) [unfolded readable_version_def]
  have c: "mt_comparator (db_mem db) = BytewiseComparator" using D(1) by (simp add: mem_holds_def)
  have level: "\<forall>f \<in> set (files ?v ! level). file_holds finder ro f (content (fm_number f))" if "level < kNumLevels" for level
    using V that nth_mem by metis
  have zero: "(0 :: nat) < kNumLevels" by (simp add: kNumLevels_def)
  have same: "list_all2 P (map g xs) (map h xs)" if "\<forall>x \<in> set xs. P (g x) (h x)" for P and g :: "'x \<Rightarrow> 'y" and h :: "'x \<Rightarrow> 'z" and xs
    using that by (induction xs) simp_all
  have l0: "list_all2 child_reads (map (\<lambda>f. content (fm_number f)) (files ?v ! 0))
      (map (\<lambda>f. VersionChild (FileIter (TableCache_NewIterator finder ro (fm_number f) (fm_size f)))) (files ?v ! 0))"
    by (rule same) (use level [OF zero] FileIter_reads in blast)
  have "child_reads (level_versions content (files ?v ! l))
      (VersionChild (LevelIter (files ?v ! l) (NewConcatenatingIterator BytewiseComparator finder ro (files ?v ! l))))" if "l \<in> set ?ls" for l
  proof -
    have "l < kNumLevels" "0 < l" using that by auto
    then have "level_files finder ro content (files ?v ! l)" using level V by (intro level_files.intro) simp_all
    then show ?thesis by (rule level_files.LevelIter_reads)
  qed
  then have l1: "list_all2 child_reads (map (\<lambda>l. level_versions content (files ?v ! l)) ?ls)
      (map (\<lambda>l. VersionChild (LevelIter (files ?v ! l) (NewConcatenatingIterator BytewiseComparator finder ro (files ?v ! l)))) ?ls)"
    by (intro same) blast
  have m: "list_all2 child_reads (case db_imm db of None \<Rightarrow> [] | Some _ \<Rightarrow> [immvs]) (case db_imm db of None \<Rightarrow> [] | Some imm \<Rightarrow> [mem_child imm])"
    using D(2) mem_reads by (cases "db_imm db") simp_all
  have cs: "db_children finder ro db = mem_child (db_mem db) # (case db_imm db of None \<Rightarrow> [] | Some imm \<Rightarrow> [mem_child imm]) @
      map (\<lambda>f. VersionChild (FileIter (TableCache_NewIterator finder ro (fm_number f) (fm_size f)))) (files ?v ! 0) @
      map (\<lambda>l. VersionChild (LevelIter (files ?v ! l) (NewConcatenatingIterator BytewiseComparator finder ro (files ?v ! l)))) ?ls"
    by (simp add: db_children_def AddIterators_def c comp_def)
  show ?thesis
    unfolding cs child_versions_def list.rel_inject using mem_reads [OF D(1)] m l0 l1 by (intro conjI list_all2_appendI)
qed

lemma internal_iterator_reads:
  assumes R: "readable_db finder ro content memvs immvs db"
  shows "\<exists>vs. in_order vs \<and> set vs = set (db_history content memvs immvs db) \<and>
    reads (merged_Iterator (child_Iterator BytewiseComparator)) ikc (map bytewise.entry_of vs) bytewise.mem_key
      (NewMergingIterator (child_Iterator BytewiseComparator) ikc (db_children finder ro db))"
proof -
  note C = children_read [OF R, unfolded list_all2_conv_all_nth]
  obtain vs where vs: "in_order vs" "mset vs = mset (concat (child_versions content memvs immvs db))"
    "reads (merged_Iterator (child_Iterator BytewiseComparator)) ikc (map bytewise.entry_of vs) bytewise.mem_key
      (NewMergingIterator (child_Iterator BytewiseComparator) ikc (db_children finder ro db))"
    using merged_reads [of "child_versions content memvs immvs db" "db_children finder ro db"] child_versions_ok [OF R] C
    by (auto simp: child_versions_def)
  then have "set vs = set (db_history content memvs immvs db)" using set_child_versions [OF R] by (metis set_mset_mset)
  then show ?thesis using vs by blast
qed

lemma bytewise_less: "bytewise.less a b \<longleftrightarrow> slice_compare a b < 0"
  unfolding bytewise.less_def by (simp add: BytewiseComparator_def)

lemma in_order_view:
  assumes o: "in_order vs" and snap: "s \<le> kMaxSequenceNumber"
  shows "db_view BytewiseComparator (\<lambda>_. True) (merged_Iterator (child_Iterator BytewiseComparator)) (map bytewise.entry_of vs)
    (stands (merged_Iterator (child_Iterator BytewiseComparator)) ikc (map bytewise.entry_of vs) bytewise.mem_key)
    (reads (merged_Iterator (child_Iterator BytewiseComparator)) ikc (map bytewise.entry_of vs) bytewise.mem_key)
    bytewise.mem_key vs s (\<lambda>t. length t + 8 < 2 ^ 32)"
proof (intro db_view.intro bytewise.user_comparator_axioms reads_contract db_view_axioms.intro)
  show "map bytewise.entry_of vs = map (\<lambda>q. (AppendInternalKey [] (fst q), snd q)) vs" by (simp add: bytewise.entry_of_def)
  show "s \<le> kMaxSequenceNumber" by (rule snap)
  show "q \<in> set vs \<Longrightarrow> True \<and> sequence (fst q) \<le> kMaxSequenceNumber" for q
    using o by (simp add: in_order_def bytewise.version_def)
  show "bytewise.less (user_key (fst (vs ! i))) (user_key (fst (vs ! j))) \<or>
      user_key (fst (vs ! i)) = user_key (fst (vs ! j)) \<and> sequence (fst (vs ! j)) < sequence (fst (vs ! i))" if "i < j" "j < length vs" for i j
    using in_order_nth [OF o that] by (simp add: ahead_def bytewise_less)
qed (simp add: bytewise.mem_key_def bytewise.ikey_of_parts)

end
