(* ===== verification/Ldb_DbRead_Props.thy ===== *)
theory Ldb_DbRead_Props
  imports Ldb_DbRead_Facts
begin

text \<open>
  The properties of the read path: \<^verbatim>\<open>Get\<close> refines the history of the database, and the iterator reads what
  \<^verbatim>\<open>Get\<close> answers.
\<close>

text \<open>C2: \<^verbatim>\<open>Get\<close> refines the history of the database.  For a memtable, an immutable memtable and files on seven levels, each
  with newer versions of a key than the ones behind it, the files of level 0 in the order of their numbers, those of the
  other levels disjoint, a lookup of any key at any snapshot returns, and answers what the newest version not above the
  snapshot says: its value, and not found for a deletion or where there is no such version.\<close>

theorem Get_refines_history:
  fixes db :: "'d Db"
  assumes R: "readable_db finder ro content memvs immvs db" and u: "length u + 8 < 2 ^ 32"
    and s: "s = (case snapshot of Some n \<Rightarrow> n | None \<Rightarrow> db_last_sequence db)" and snap: "s \<le> kMaxSequenceNumber"
  shows "\<exists>schedule db'. DBImpl_Get finder ro snapshot u val db =
    Some (case newest (db_history content memvs immvs db) u s of
        Some (p, v) \<Rightarrow> if value_type p = kTypeValue then (Status_OK, v, schedule, db') else (Status_NotFound [] [], val, schedule, db')
      | None \<Rightarrow> (Status_NotFound [] [], val, schedule, db'))"
proof -
  obtain schedule db' where g: "DBImpl_Get finder ro snapshot u val db =
      Some (fst (get_answer val (newest (db_history content memvs immvs db) u s)),
        snd (get_answer val (newest (db_history content memvs immvs db) u s)), schedule, db')"
    using Get_newest [OF R u s snap] by blast
  show ?thesis
    by (rule exI [of _ schedule], rule exI [of _ db'])
      (auto simp: g get_answer_def split: option.split prod.split ValueType.split)
qed

text \<open>The entries the iterator is to read, made of the versions in their order, are what \<^verbatim>\<open>Get\<close> answers.\<close>

lemma view_agrees_with_Get:
  fixes db :: "'d Db"
  assumes R: "readable_db finder ro content memvs immvs db"
    and s: "s = (case snapshot of Some n \<Rightarrow> n | None \<Rightarrow> db_last_sequence db)" and snap: "s \<le> kMaxSequenceNumber"
    and vs: "in_order vs" "set vs = set (db_history content memvs immvs db)"
  shows "(u, v) \<in> set (db_view.view vs s) \<longleftrightarrow> length u + 8 < 2 ^ 32 \<and>
      (\<exists>schedule db''. DBImpl_Get finder ro snapshot u val db = Some (Status_OK, v, schedule, db''))"
proof -
  let ?H = "db_history content memvs immvs db"
  note V = in_order_view [OF vs(1) snap]
  have once: "numbered_once vs" using in_order_distinct [OF vs(1)] by (simp add: numbered_once_def)
  have newest: "newest vs u s = newest ?H u s" for u by (rule newest_cong [OF once]) (simp add: vs(2))
  have "length u + 8 < 2 ^ 32" if "newest ?H u s = Some q" for q
  proof -
    have "q \<in> set vs" "user_key (fst q) = u" using newest_SomeD(1,2) [OF that] by (simp_all add: vs(2))
    then show ?thesis using vs(1) by (auto simp: in_order_def bytewise.version_def)
  qed
  moreover have "Status_NotFound [] [] \<noteq> Status_OK" by (simp add: Status_NotFound_def make_Status_def Status_OK_def Let_def)
  ultimately show ?thesis
    using Get_newest [OF R _ s snap, of u val]
    unfolding db_view.view_newest [OF V] newest by (auto simp: get_answer_def split: option.splits ValueType.splits)
qed


section \<open>A small database\<close>

text \<open>One file at level 1, a memtable and an immutable one.\<close>

definition small_versions :: versions where
  "small_versions = [(\<lparr>user_key = [97], sequence = 3, value_type = kTypeValue\<rparr>, [1]),
     (\<lparr>user_key = [98], sequence = 2, value_type = kTypeValue\<rparr>, [2])]"

definition small_imm :: versions where
  "small_imm = [(\<lparr>user_key = [97], sequence = 5, value_type = kTypeValue\<rparr>, [5])]"

definition small_mem :: versions where
  "small_mem = [(\<lparr>user_key = [98], sequence = 7, value_type = kTypeDeletion\<rparr>, []),
     (\<lparr>user_key = [99], sequence = 6, value_type = kTypeValue\<rparr>, [3])]"

definition small_disk :: "byte list" where
  "small_disk = contents (tb_file (snd (small_build (InternalKeyComparator BytewiseComparator) (map bytewise.entry_of small_versions))))"

definition small_sst :: Table where
  "small_sst = the (snd (Table_Open (small_options (InternalKeyComparator BytewiseComparator))
     (mmap_file \<lparr>answers = [], strerror = \<lambda>_. []\<rparr> \<lparr>mmap_base = 4096, mmap_length = of_nat (length small_disk), mmap_name = []\<rparr> small_disk)
     (of_nat (length small_disk))))"

definition small_meta :: FileMetaData where
  "small_meta = new_FileMetaData\<lparr>fm_number := 5, fm_size := of_nat (length small_disk),
     fm_smallest := InternalKey_SetFrom (fst (hd small_versions)), fm_largest := InternalKey_SetFrom (fst (last small_versions))\<rparr>"

definition small_Version :: Version where
  "small_Version = \<lparr>files = [[], [small_meta], [], [], [], [], []], file_to_compact = None, file_to_compact_level = -1\<rparr>"

abbreviation small_finder :: table_finder where
  "small_finder \<equiv> \<lambda>_ _. (Status_OK, small_sst)"

abbreviation small_content :: "64 word \<Rightarrow> versions" where
  "small_content \<equiv> \<lambda>_. small_versions"

definition small_table :: "versions \<Rightarrow> MemTable" where
  "small_table vs = the (add_versions vs (new_MemTable BytewiseComparator))"

definition small_Db :: "unit Db" where
  "small_Db = \<lparr>db_log = new_Writer, db_logfile = (), db_mem = small_table small_mem, db_imm = Some (small_table small_imm),
     db_last_sequence = 8, db_bg_error = Status_OK, db_writers = [], db_tmp_batch = WriteBatch_Clear,
     db_version = small_Version, db_seed = 0, db_snapshots = []\<rparr>"

lemma small_in_order: "in_order small_versions" "in_order small_imm" "in_order small_mem"
  by (simp_all add: in_order_def small_versions_def small_imm_def small_mem_def bytewise.version_def ahead_def kMaxSequenceNumber_def)

text \<open>A memtable that versions are added to holds them.\<close>

lemma added_versions_held:
  assumes o: "in_order vs"
  shows "\<exists>mt. add_versions vs (new_MemTable BytewiseComparator) = Some mt \<and> mem_holds mt vs"
proof -
  have ver: "\<forall>q \<in> set vs. bytewise.version q" using o by (simp add: in_order_def)
  have "sorted_wrt (\<lambda>a b. AppendInternalKey [] (fst a) \<noteq> AppendInternalKey [] (fst b)) vs"
  proof (rule sorted_wrt_mono_rel [OF _ conjunct2 [OF o [unfolded in_order_def]]])
    fix a b assume m: "a \<in> set vs" "b \<in> set vs" "ahead a b"
    then have "sequence (fst a) \<le> kMaxSequenceNumber" "sequence (fst b) \<le> kMaxSequenceNumber" using ver by (auto simp: bytewise.version_def)
    then have "ParseInternalKey (AppendInternalKey [] (fst a)) = Some (fst a)" "ParseInternalKey (AppendInternalKey [] (fst b)) = Some (fst b)"
      by (simp_all add: parse_append)
    moreover have "fst a \<noteq> fst b" using ahead_number [OF m(3)] by (auto simp: version_number_def)
    ultimately show "AppendInternalKey [] (fst a) \<noteq> AppendInternalKey [] (fst b)" by (metis option.inject)
  qed
  then have "distinct (map (\<lambda>q. AppendInternalKey [] (fst q)) vs)" by (simp add: distinct_sorted)
  moreover have "bytewise.holds (mt_table (new_MemTable BytewiseComparator)) [] []" by (simp add: new_MemTable_def bytewise.holds_new)
  moreover have "mt_comparator (new_MemTable BytewiseComparator) = BytewiseComparator" by (simp add: new_MemTable_def)
  ultimately obtain mt order es where mt: "add_versions vs (new_MemTable BytewiseComparator) = Some mt"
    "bytewise.holds (mt_table mt) order es" "mt_comparator mt = BytewiseComparator" "mset es = mset (map bytewise.entry_of vs)"
    using bytewise.add_versions_holds [OF _ _ ver, of "new_MemTable BytewiseComparator" "[]" "[]"] by auto
  have asym: "\<not> Compare ikc b a < 0" if less: "Compare ikc a b < 0" for a b
  proof
    assume "Compare ikc b a < 0"
    then show False
      using less slice_asym slice_self unfolding internal_less by (metis order_less_asym order_less_irrefl)
  qed
  have "es = map bytewise.entry_of vs"
    by (rule sorted_unique [of "\<lambda>a b. Compare ikc (fst a) (fst b) < 0", OF asym bytewise.holds_sorted [OF mt(2)] in_order_sorted [OF o] mt(4)])
  then have "bytewise.holds (mt_table mt) order (map bytewise.entry_of vs)" using mt(2) by simp
  then show ?thesis using mt(1,3) o unfolding mem_holds_def by blast
qed

lemma small_table_holds: "in_order vs \<Longrightarrow> mem_holds (small_table vs) vs"
  using added_versions_held [of vs] by (auto simp: small_table_def)

lemma small_sst_serves: "serves ro small_sst small_versions"
proof -
  let ?es = "map bytewise.entry_of small_versions" and ?c = "InternalKeyComparator BytewiseComparator"
  let ?o = "small_options ?c" and ?p = "fst (small_versions ! 0)" and ?q = "fst (small_versions ! 1)"
  have es: "?es = [(AppendInternalKey [] ?p, [1]), (AppendInternalKey [] ?q, [2])]"
    by (simp add: small_versions_def bytewise.entry_of_def)
  obtain s tb where b: "small_build ?c ?es = (s, tb)" by fastforce
  have kl: "length (AppendInternalKey [] k) = length (user_key k) + 8" for k :: ParsedInternalKey by (rule bytewise.ikey_of_parts(4))
  have ul: "length (user_key ?p) = 1" "length (user_key ?q) = 1" by (simp_all add: small_versions_def)
  have "length (FindShortSuccessor ?c (AppendInternalKey [] ?q)) \<le> 1000"
    using Internal_Successor_length [of "AppendInternalKey [] ?q"] ul unfolding kl by (simp add: InternalKeyComparator_def)
  from small_size [OF es _ this] have len: "length small_disk < 2 ^ 32" unfolding kl ul by (simp add: small_disk_def)
  have D: "small_disk = contents (tb_file tb)" by (simp add: small_disk_def b)
  let ?f = "mmap_file \<lparr>answers = [], strerror = \<lambda>_. []\<rparr> \<lparr>mmap_base = 4096, mmap_length = of_nat (length small_disk), mmap_name = []\<rparr> small_disk"
  have rdb: "readable (?f, small_disk)" by (rule readable_mapped) (use len in simp_all)
  have o: "comparator_of ?o = ?c" "filter_policy_of ?o = None" "1 \<le> block_restart_interval ?o"
    by (simp_all add: small_options_def default_Options_def)
  have ok: "status_ok s" using small_ok [of ?c ?es] b by simp
  have fin: "TableBuilder_Finish posix_writable (internal_table.table_add ?es (new_TableBuilder ?o small_file)) = (s, tb)"
    using b by (simp add: small_build_def internal_table.table_add_def)
  have srt: "sorted_entries ?c ?es" using in_order_sorted [OF small_in_order(1)] by (simp add: sorted_entries_def)
  have v: "\<forall>e \<in> set ?es. bytewise.ikey (fst e)" by (simp add: es key_parts)
  have c0: "contents small_file = []" using small_healthy by (simp add: contents_def)
  obtain bs ks t where t: "Table_Open ?o ?f (of_nat (length small_disk)) = (Status_OK, Some t)"
    "internal_table.opened ?o (?f, small_disk) bs ks t" "internal_table.table_entries bs [] = ?es"
    using internal_table.store_opens [OF small_healthy(2) c0 o(1,3) srt v fin ok, of "(?f, small_disk)"] rdb D len by auto
  have "small_sst = t" using t(1) by (simp add: small_sst_def)
  then show ?thesis using opened_serves [OF t(2,3), of 0 ro] o(2) by simp
qed

lemma small_meta_holds: "file_holds small_finder ro small_meta small_versions"
  using small_sst_serves small_in_order(1) by (simp add: file_holds_def small_meta_def small_versions_def)

interpretation small_level: level_files small_finder ro small_content "[small_meta]" for ro
  by unfold_locales (use small_meta_holds small_in_order(1) in \<open>simp_all add: level_versions_def\<close>)

lemma small_version_readable: "readable_version small_finder ro small_content small_Version"
proof -
  have "in_order (level_versions small_content (files small_Version ! level))" if "0 < level" "level < 7" for level
    using that small_in_order(1) by (cases "level = 1") (auto simp: small_Version_def level_versions_def in_order_def nth_Cons split: nat.splits)
  then show ?thesis
    using small_meta_holds by (simp add: readable_version_def small_Version_def kNumLevels_def level_versions_def newer_than_def)
qed

lemma small_history: "version_history small_content small_Version = small_versions"
  by (simp add: version_history_def small_Version_def level_versions_def)

lemma small_readable: "readable_db small_finder ro small_content small_mem small_imm small_Db"
  using small_table_holds [OF small_in_order(2)] small_table_holds [OF small_in_order(3)] small_version_readable
  by (simp add: readable_db_def small_Db_def small_history)
    (simp add: newer_than_def small_mem_def small_imm_def small_versions_def)

text \<open>The versions of the children in the order of the merging iterator, with the numbers of the children.\<close>

definition small_merged :: "(nat \<times> ParsedInternalKey \<times> slice) list" where
  "small_merged = [(1, small_imm ! 0), (2, small_versions ! 0), (0, small_mem ! 0), (2, small_versions ! 1), (0, small_mem ! 1)]"

lemma small_merged_order: "in_order (map snd small_merged)"
  by (simp add: in_order_def small_merged_def small_versions_def small_imm_def small_mem_def bytewise.version_def ahead_def kMaxSequenceNumber_def)

lemma small_merged_own: "c < length [small_mem, small_imm, small_versions] \<Longrightarrow>
    filter (\<lambda>x. fst x = c) small_merged = map (Pair c) ([small_mem, small_imm, small_versions] ! c)"
  by (auto simp: small_merged_def small_mem_def small_imm_def small_versions_def less_Suc_eq)

interpretation small_merge: merging "child_Iterator BytewiseComparator" ikc "map (\<lambda>x. (fst x, bytewise.entry_of (snd x))) small_merged"
    "length [small_mem, small_imm, small_versions]"
    "\<lambda>c. stands (child_Iterator BytewiseComparator) ikc (map bytewise.entry_of ([small_mem, small_imm, small_versions] ! c)) bytewise.mem_key"
    "\<lambda>c. reads (child_Iterator BytewiseComparator) ikc (map bytewise.entry_of ([small_mem, small_imm, small_versions] ! c)) bytewise.mem_key"
    bytewise.mem_key
  by (rule children_merging [OF small_merged_order _ small_merged_own]) (auto simp: small_merged_def)

lemma snapshot_8: "8 \<le> kMaxSequenceNumber"
  by (simp add: kMaxSequenceNumber_def)

interpretation small_view: db_view BytewiseComparator "\<lambda>_. True" "merged_Iterator (child_Iterator BytewiseComparator)"
    "map bytewise.entry_of (map snd small_merged)"
    "stands (merged_Iterator (child_Iterator BytewiseComparator)) ikc (map bytewise.entry_of (map snd small_merged)) bytewise.mem_key"
    "reads (merged_Iterator (child_Iterator BytewiseComparator)) ikc (map bytewise.entry_of (map snd small_merged)) bytewise.mem_key"
    bytewise.mem_key "map snd small_merged" 8 "\<lambda>t. length t + 8 < 2 ^ 32"
  by (rule in_order_view [OF small_merged_order snapshot_8])

section \<open>Witnesses\<close>

lemma small_newest: "newest (db_history small_content small_mem small_imm small_Db) u 8 =
    (if u = [97] then Some (small_imm ! 0) else if u = [98] then Some (small_mem ! 0) else if u = [99] then Some (small_mem ! 1) else None)"
  by (simp add: db_history_def small_Db_def small_history newest_def newer_def)
    (simp add: small_mem_def small_imm_def small_versions_def newer_def)

lemma Get_refines_history_witness:
  "\<exists>schedule db'. DBImpl_Get small_finder \<lparr>verify_checksums = True, fill_cache = True\<rparr> (Some 4) [97] [] small_Db =
     Some (Status_OK, [1], schedule, db')"
proof -
  have s: "4 = (case Some 4 of Some n \<Rightarrow> n | None \<Rightarrow> db_last_sequence small_Db)" by simp
  have "(4 :: SequenceNumber) \<le> kMaxSequenceNumber" by (simp add: kMaxSequenceNumber_def)
  from Get_refines_history [OF small_readable _ s this, of "[97]" "\<lparr>verify_checksums = True, fill_cache = True\<rparr>" "[]"]
  show ?thesis
    by (simp add: db_history_def small_Db_def small_history newest_def newer_def)
      (simp add: small_mem_def small_imm_def small_versions_def newer_def)
qed


end
