(* ===== verification/Spec2Isabelle.thy ===== *)
theory Spec2Isabelle
  imports Pb_Common Pb_Decode_Facts Pb_Encode_Facts Ldb_Log_Facts Ldb_Table_Props Ldb_Write_Facts
    Ldb_DbRead_Props
begin

text \<open>
  Verification of the C and C++ code that the card game CardCrucible ships with (\<^verbatim>\<open>src/CardCrucible/Pods\<close>).
  Two libraries carry its own logic: nanopb, with which messages are encoded and decoded, and LevelDB, the
  storage engine under the Firebase database.  The paths below are relative to \<^verbatim>\<open>nanopb/\<close> and
  \<^verbatim>\<open>leveldb-library/\<close> there.

  \<^bold>\<open>nanopb.\<close>  A message is a C struct that an array of field descriptors describes.
  \<^item> \<open>Prelude\<close>: integers at their width, bytes, the flat memory with loads and stores, the outcome type of code
    that runs out of fuel or leaves the defined part of C.
  \<^item> \<open>Pb_Types\<close> (\<^verbatim>\<open>pb.h\<close>): field types, descriptors, the allocator, in the configuration of the build:
    \<^verbatim>\<open>PB_FIELD_32BIT\<close>, \<^verbatim>\<open>PB_NO_PACKED_STRUCTS\<close>, \<^verbatim>\<open>PB_ENABLE_MALLOC\<close>.
  \<^item> \<open>Pb_Common\<close> (\<^verbatim>\<open>pb_common.c\<close>): the field iterator.
  \<^item> \<open>Pb_Istream\<close>, \<open>Pb_Message\<close>, \<open>Pb_Decode\<close> (\<^verbatim>\<open>pb_decode.c\<close>): streams and wire-level readers, defaults and release,
    the decoder with static, pointer, callback, union and extension fields.
  \<^item> \<open>Pb_Ostream\<close>, \<open>Pb_Encode\<close> (\<^verbatim>\<open>pb_encode.c\<close>): the writers and the encoder.
  \<^item> \<open>Pb_Wire\<close>: the wire format as a contract (locales \<open>codec\<close>, \<open>wire_codec\<close>, \<open>payload\<close>) between writers and readers.
  \<^item> \<open>Pb_Safe\<close>: the decoder returns, reads only its buffer and writes only the struct and its allocations, on any
    input.  \<open>Pb_Decode_Facts\<close>, \<open>Pb_Encode_Facts\<close>: what is decoded, and that the encoder writes a byte string defined
    without streams.  Recursion into submessages has fuel; any fuel above the nesting of the descriptors is enough,
    and the theorems that the code returns say so.

  \<^bold>\<open>LevelDB.\<close>  A write goes to a log and to a memtable; full memtables become sorted tables, kept on seven
  levels; a read looks through memtable, immutable memtable and tables.  The components, from the bytes up:
  \<^item> \<open>Ldb_Coding\<close> (\<^verbatim>\<open>util/coding.cc\<close>, slices), \<open>Ldb_Crc32c\<close> (\<^verbatim>\<open>util/crc32c.cc\<close>), \<open>Ldb_Status\<close> (\<^verbatim>\<open>util/status.cc\<close>,
    \<^verbatim>\<open>util/logging.cc\<close>): encodings read back (locale \<open>prefix_codec\<close>), the strided checksum is CRC-32C.
  \<^item> \<open>Ldb_Env\<close> (\<^verbatim>\<open>util/env_posix.cc\<close>): files over the answers of the kernel, which may interrupt, shorten or refuse
    every call; the contracts of files are the locales \<open>writable_file\<close>, \<open>sequential_file\<close>, \<open>random_access_file\<close>
    and \<open>synced_file\<close>, all interpreted on the POSIX files.
  \<^item> \<open>Ldb_Log\<close>, \<open>Ldb_Log_Facts\<close> (\<^verbatim>\<open>db/log_*\<close>): what is added is read back, also of a log cut off at any byte.
  \<^item> \<open>Ldb_Format\<close> (\<^verbatim>\<open>util/comparator.cc\<close>, \<^verbatim>\<open>db/dbformat\<close>), \<open>Ldb_Filter\<close> (\<^verbatim>\<open>util/bloom.cc\<close>, \<^verbatim>\<open>table/filter_block.cc\<close>):
    keys (locales \<open>comparator\<close>, \<open>user_comparator\<close>) and filters (locale \<open>filter_policy\<close>).
  \<^item> \<open>Ldb_Iterator\<close> (\<^verbatim>\<open>include/leveldb/iterator.h\<close>): an iterator is a record of its virtual operations over a state, and
    its contract the locale \<open>entry_iterator\<close>: which entries it reads, in which order, from which target.  Every
    iterator below is shown to keep it, over parts that keep it: \<open>Ldb_Block\<close>, \<open>Ldb_Block_Facts\<close> (\<^verbatim>\<open>table/block.cc\<close>,
    \<^verbatim>\<open>table/block_builder.cc\<close>), \<open>Ldb_TwoLevel\<close> (\<^verbatim>\<open>table/two_level_iterator.cc\<close>, locale \<open>two_level\<close>), \<open>Ldb_Merger\<close>,
    \<open>Ldb_Merger_Facts\<close> (\<^verbatim>\<open>table/merger.cc\<close>, locale \<open>merging\<close>), \<open>Ldb_DbIter\<close>, \<open>Ldb_DbIter_Facts\<close> (\<^verbatim>\<open>db/db_iter.cc\<close>,
    locale \<open>db_view\<close>).
  \<^item> \<open>Ldb_Table\<close>, \<open>Ldb_Table_Facts\<close>, \<open>Ldb_Table_Props\<close> (\<^verbatim>\<open>table/format.cc\<close>, \<^verbatim>\<open>table/table_builder.cc\<close>,
    \<^verbatim>\<open>table/table.cc\<close>): a table is read as it was written, and the newest version of a key is found in it.
  \<^item> \<open>Ldb_SkipList\<close>, \<open>Ldb_SkipList_Facts\<close> (\<^verbatim>\<open>db/skiplist.h\<close>, locale \<open>key_order\<close>), \<open>Ldb_MemTable\<close>, \<open>Ldb_MemTable_Facts\<close>
    (\<^verbatim>\<open>db/memtable.cc\<close>): the memtable refines the history of its versions; \<open>newest\<close> is the specification of a
    lookup everywhere.
  \<^item> \<open>Ldb_WriteBatch\<close> (\<^verbatim>\<open>db/write_batch.cc\<close>), \<open>Ldb_Write\<close>, \<open>Ldb_Write_Facts\<close> (\<^verbatim>\<open>db/db_impl.cc\<close>): the queue of the
    writers and the replay of the log; what was acknowledged survives a crash.
  \<^item> \<open>Ldb_Version\<close>, \<open>Ldb_Version_Facts\<close> (\<^verbatim>\<open>db/version_set.cc\<close>, \<^verbatim>\<open>db/table_cache.cc\<close>): the files of a version, and the
    lookup in them; \<open>Ldb_DbRead\<close>, \<open>Ldb_DbRead_Facts\<close>, \<open>Ldb_DbRead_Props\<close> (\<^verbatim>\<open>db/db_impl.cc\<close>, \<^verbatim>\<open>db/snapshot.h\<close>): \<^verbatim>\<open>Get\<close>
    refines the history of the whole database, and its iterator reads exactly what \<^verbatim>\<open>Get\<close> answers.

  \<^bold>\<open>Bounds and loops.\<close>  The two-level iterator counts the turns of its loops over empty blocks; the number is that of the
  entries of its index and two, which is proved to be enough.  The loops over system calls recurse over the list of answers
  the kernel gives; behind its end every call succeeds.  The searches of the skip list, the loops of the database
  iterator, of the log reader and its replay, and of \<^verbatim>\<open>GetOverlappingInputs\<close> are partial functions into an option, and the
  theorems about them state that they return.
  \<^verbatim>\<open>MakeRoomForWrite\<close> sees a list of observations of what the background thread does while the mutex is free.

  \<^bold>\<open>Not modelled\<close>, and why.  The Swift game and the Objective-C frameworks (Firebase, GoogleDataTransport,
  GoogleUtilities, PromisesObjC) are user interface, networking and glue in other languages; their message
  descriptors are data generated for nanopb.  Of nanopb: the descriptor macros.  Of LevelDB: concurrency other than
  the atomic turns of the writers (readers see the memtables and files as they were when the read began);
  the addresses of the arena, so the memory usage of a memtable is a parameter; the block cache and the table cache,
  which table a file number gives is a parameter (a function that stands for opening the file); opening a
  database, the manifest, the version set and the picking of compactions, whose scores are floating-point numbers;
  the compaction loop itself, which runs in the background thread; directories and loggers of the environment;
  compression, which this build does not have; the C binding and the tools.
\<close>

end
